(* ===== verification/Prelude.thy ===== *)
theory Prelude
  imports Main "HOL-Library.Word" "HOL-Library.Multiset" "HOL-Library.AList"
begin

text \<open>
  What the components share: results that may be a Go panic or a Go error value, loops over
  such results, the integer divisions of \<open>math/big\<close>, bit lengths, and the fixed-size byte
  arrays (keys, addresses, hashes) as words.
\<close>

named_theorems go_simps \<open>evaluation and inversion of results\<close>
named_theorems quo_simps \<open>truncated and Euclidean division\<close>

section \<open>Results: values, errors and panics\<close>

text \<open>
  \<open>Error name\<close> is the Go error value (the variable that holds it, or the start of its text);
  \<open>Panic name\<close> is a run-time panic. A function that can do either returns \<open>'a go\<close>.
\<close>

datatype fault = Panic string | Error string

type_synonym 'a go = "fault + 'a"

definition go_bind :: "'a go \<Rightarrow> ('a \<Rightarrow> 'b go) \<Rightarrow> 'b go" where
  "go_bind m f = (case m of Inl e \<Rightarrow> Inl e | Inr x \<Rightarrow> f x)"

definition go_check :: "bool \<Rightarrow> fault \<Rightarrow> unit go" where
  "go_check ok e = (if ok then Inr () else Inl e)"

fun is_ok :: "'a go \<Rightarrow> bool" where
  "is_ok (Inr _) = True"
| "is_ok (Inl _) = False"

lemma go_bind_Inr [simp]: "go_bind (Inr x) f = f x"
  by (simp add: go_bind_def)

lemma go_bind_Inl [simp]: "go_bind (Inl e) f = Inl e"
  by (simp add: go_bind_def)

lemma go_bind_eq_Inr [simp, go_simps]:
  "go_bind m f = Inr y \<longleftrightarrow> (\<exists>x. m = Inr x \<and> f x = Inr y)"
  by (cases m) simp_all

lemma go_bind_eq_Inl [go_simps]:
  "go_bind m f = Inl e \<longleftrightarrow> m = Inl e \<or> (\<exists>x. m = Inr x \<and> f x = Inl e)"
  by (cases m) simp_all

lemma go_check_eq_Inr [simp, go_simps]: "go_check b e = Inr u \<longleftrightarrow> b"
  by (simp add: go_check_def)

lemma go_check_True [simp]: "go_check True e = Inr ()"
  by (simp add: go_check_def)

lemma go_check_False [simp]: "go_check False e = Inl e"
  by (simp add: go_check_def)

lemma is_ok_iff: "is_ok m \<longleftrightarrow> (\<exists>x. m = Inr x)"
  by (cases m) simp_all

lemma go_bind_cong [fundef_cong]:
  "m = m' \<Longrightarrow> (\<And>x. m' = Inr x \<Longrightarrow> f x = f' x) \<Longrightarrow> go_bind m f = go_bind m' f'"
  by (cases m') simp_all

subsection \<open>Loops that stop at the first fault\<close>

fun go_fold :: "('s \<Rightarrow> 'a \<Rightarrow> 's go) \<Rightarrow> 's \<Rightarrow> 'a list \<Rightarrow> 's go" where
  "go_fold f s [] = Inr s"
| "go_fold f s (x # xs) = go_bind (f s x) (\<lambda>s'. go_fold f s' xs)"

fun go_map :: "('a \<Rightarrow> 'b go) \<Rightarrow> 'a list \<Rightarrow> 'b list go" where
  "go_map f [] = Inr []"
| "go_map f (x # xs) = go_bind (f x) (\<lambda>y. go_bind (go_map f xs) (\<lambda>ys. Inr (y # ys)))"

lemma go_fold_append:
  "go_fold f s (xs @ ys) = go_bind (go_fold f s xs) (\<lambda>s'. go_fold f s' ys)"
proof (induction xs arbitrary: s)
  case Nil
  then show ?case by simp
next
  case (Cons x xs)
  then show ?case by (cases "f s x") simp_all
qed

lemma go_fold_invariant:
  assumes "go_fold f s xs = Inr s'" and "I s"
    and "\<And>s x s'. x \<in> set xs \<Longrightarrow> I s \<Longrightarrow> f s x = Inr s' \<Longrightarrow> I s'"
  shows "I s'"
  using assms
proof (induction xs arbitrary: s)
  case Nil
  then show ?case by simp
next
  case (Cons x xs)
  from Cons.prems(1) obtain t where t: "f s x = Inr t" "go_fold f t xs = Inr s'"
    by auto
  from Cons.prems(2,3) t(1) have "I t" by auto
  with t(2) show ?case using Cons.IH Cons.prems(3) by (metis list.set_intros(2))
qed

text \<open>Invariants that speak of the part of the list already visited.\<close>

lemma go_fold_prefix_invariant:
  assumes run: "go_fold f s xs = Inr s'" and start: "I [] s"
    and step: "\<And>ys s x s'. \<exists>zs. xs = ys @ x # zs \<Longrightarrow> I ys s \<Longrightarrow> f s x = Inr s' \<Longrightarrow> I (ys @ [x]) s'"
  shows "I xs s'"
proof -
  have gen: "go_fold f t zs = Inr s' \<Longrightarrow> I ys t \<Longrightarrow> xs = ys @ zs \<Longrightarrow> I xs s'" for ys zs t
  proof (induction zs arbitrary: ys t)
    case Nil
    then show ?case by simp
  next
    case (Cons x zs)
    from Cons.prems(1) obtain u where u: "f t x = Inr u" "go_fold f u zs = Inr s'"
      by auto
    have "I (ys @ [x]) u"
      by (rule step [OF _ Cons.prems(2) u(1)]) (use Cons.prems(3) in auto)
    with u(2) show ?case using Cons.IH [of u "ys @ [x]"] Cons.prems(3) by simp
  qed
  show ?thesis using gen [OF run start] by simp
qed

lemma go_fold_total:
  assumes "\<And>s x. I s \<Longrightarrow> x \<in> set xs \<Longrightarrow> \<exists>s'. f s x = Inr s' \<and> I s'" and "I s"
  shows "\<exists>s'. go_fold f s xs = Inr s' \<and> I s'"
  using assms
proof (induction xs arbitrary: s)
  case Nil
  then show ?case by simp
next
  case (Cons x xs)
  then obtain t where "f s x = Inr t" "I t" by (meson list.set_intros(1))
  with Cons show ?case by (metis go_bind_Inr go_fold.simps(2) list.set_intros(2))
qed

lemma go_map_length: "go_map f xs = Inr ys \<Longrightarrow> length ys = length xs"
  by (induction xs arbitrary: ys) auto

lemma go_map_nth:
  "go_map f xs = Inr ys \<Longrightarrow> i < length xs \<Longrightarrow> f (xs ! i) = Inr (ys ! i)"
proof (induction xs arbitrary: ys i)
  case Nil
  then show ?case by simp
next
  case (Cons x xs)
  then show ?case by (cases i) auto
qed

section \<open>Integer division of math/big\<close>

text \<open>
  \<open>Quo\<close>/\<open>Rem\<close> truncate towards zero, \<open>Div\<close>/\<open>Mod\<close> are Euclidean (the remainder is never
  negative). Each panics on a zero divisor, which the callers write out.
\<close>

definition quo :: "int \<Rightarrow> int \<Rightarrow> int" where
  "quo a b = sgn a * sgn b * (\<bar>a\<bar> div \<bar>b\<bar>)"

definition rem :: "int \<Rightarrow> int \<Rightarrow> int" where
  "rem a b = a - quo a b * b"

definition ediv :: "int \<Rightarrow> int \<Rightarrow> int" where
  "ediv a b = sgn b * (a div \<bar>b\<bar>)"

definition emod :: "int \<Rightarrow> int \<Rightarrow> int" where
  "emod a b = a mod \<bar>b\<bar>"

lemma quo_nonneg [quo_simps]: "0 \<le> a \<Longrightarrow> 0 < b \<Longrightarrow> quo a b = a div b"
  by (cases "a = 0") (auto simp: quo_def)

lemma quo_minus [quo_simps]: "quo (- a) b = - quo a b"
  by (simp add: quo_def)

lemma rem_nonneg [quo_simps]: "0 \<le> a \<Longrightarrow> 0 < b \<Longrightarrow> rem a b = a mod b"
  by (simp add: rem_def quo_nonneg minus_div_mult_eq_mod)

lemma rem_minus [quo_simps]: "rem (- a) b = - rem a b"
  by (simp add: rem_def quo_minus)

lemma quo_rem: "quo a b * b + rem a b = a"
  by (simp add: rem_def)

lemma ediv_emod: "b \<noteq> 0 \<Longrightarrow> ediv a b * b + emod a b = a"
proof -
  assume "b \<noteq> 0"
  have "ediv a b * b = (a div \<bar>b\<bar>) * \<bar>b\<bar>"
    using \<open>b \<noteq> 0\<close> by (cases "0 < b") (auto simp: ediv_def sgn_if)
  then show ?thesis by (simp add: emod_def)
qed

lemma ediv_pos [quo_simps]: "0 < b \<Longrightarrow> ediv a b = a div b"
  by (simp add: ediv_def)

lemma quo_mono: "a \<le> a' \<Longrightarrow> 0 < b \<Longrightarrow> quo a b \<le> quo a' b"
proof -
  assume le: "a \<le> a'" and b: "0 < b"
  consider (nn) "0 \<le> a" | (np) "a < 0" "0 \<le> a'" | (nneg) "a' < 0" by linarith
  then show ?thesis
  proof cases
    case nn
    then show ?thesis using le b by (simp add: quo_nonneg zdiv_mono1)
  next
    case np
    have "quo a b = - ((- a) div b)" using np b quo_minus [of "- a" b] by (simp add: quo_nonneg)
    moreover have "0 \<le> (- a) div b" using np b by (simp add: pos_imp_zdiv_nonneg_iff)
    moreover have "0 \<le> quo a' b" using np b by (simp add: quo_nonneg pos_imp_zdiv_nonneg_iff)
    ultimately show ?thesis by linarith
  next
    case nneg
    have "quo a b = - ((- a) div b)" using nneg le b quo_minus [of "- a" b] by (simp add: quo_nonneg)
    moreover have "quo a' b = - ((- a') div b)" using nneg b quo_minus [of "- a'" b] by (simp add: quo_nonneg)
    moreover have "(- a') div b \<le> (- a) div b" using le b by (simp add: zdiv_mono1)
    ultimately show ?thesis by linarith
  qed
qed

section \<open>Bit length\<close>

fun bit_len_nat :: "nat \<Rightarrow> nat" where
  "bit_len_nat n = (if n = 0 then 0 else Suc (bit_len_nat (n div 2)))"

declare bit_len_nat.simps [simp del]

definition bit_len :: "int \<Rightarrow> nat" where
  "bit_len x = bit_len_nat (nat \<bar>x\<bar>)"

lemma bit_len_nat_le: "bit_len_nat n \<le> k \<longleftrightarrow> n < 2 ^ k"
proof (induction n arbitrary: k rule: bit_len_nat.induct)
  case (1 n)
  show ?case
  proof (cases "n = 0")
    case True
    then show ?thesis by (simp add: bit_len_nat.simps)
  next
    case False
    show ?thesis
    proof (cases k)
      case 0
      with False show ?thesis by (simp add: bit_len_nat.simps [of n])
    next
      case (Suc j)
      have "bit_len_nat n \<le> k \<longleftrightarrow> bit_len_nat (n div 2) \<le> j"
        using False Suc by (simp add: bit_len_nat.simps [of n])
      also have "\<dots> \<longleftrightarrow> n div 2 < 2 ^ j" using "1" False by simp
      also have "\<dots> \<longleftrightarrow> n < 2 ^ k" using Suc by auto
      finally show ?thesis .
    qed
  qed
qed

lemma bit_len_le: "bit_len x \<le> k \<longleftrightarrow> \<bar>x\<bar> < 2 ^ k"
proof -
  have "nat \<bar>x\<bar> < 2 ^ k \<longleftrightarrow> \<bar>x\<bar> < 2 ^ k" by (simp add: nat_less_iff)
  then show ?thesis by (simp add: bit_len_def bit_len_nat_le)
qed

section \<open>Fixed-size byte arrays and machine integers\<close>

text \<open>
  A fixed-size byte array is the word its bytes spell in big-endian order: two arrays of one
  size are equal, and compared by \<open>bytes.Compare\<close>, exactly as these words, and \<open>Big()\<close> is
  \<open>uint\<close>.
\<close>

type_synonym SerializedPublicKey = "384 word"
type_synonym Address = "160 word"
type_synonym Hash = "256 word"
type_synonym uint8 = "8 word"
type_synonym uint32 = "32 word"
type_synonym uint64 = "64 word"

definition int64_min :: int where "int64_min = - (2 ^ 63)"
definition int64_max :: int where "int64_max = 2 ^ 63 - 1"

definition IsInt64 :: "int \<Rightarrow> bool" where
  "IsInt64 x \<longleftrightarrow> int64_min \<le> x \<and> x \<le> int64_max"

text \<open>\<open>big.Int.Int64\<close>: the low 64 bits, read as two's complement.\<close>

definition Int64 :: "int \<Rightarrow> int" where
  "Int64 x = signed_take_bit 63 x"

text \<open>\<open>big.Int.Uint64\<close>: the low 64 bits of the magnitude, negated in 64 bits for a negative value.\<close>

definition Uint64 :: "int \<Rightarrow> uint64" where
  "Uint64 x = word_of_int x"

lemma Int64_id: "IsInt64 x \<Longrightarrow> Int64 x = x"
  by (simp add: Int64_def IsInt64_def int64_min_def int64_max_def signed_take_bit_int_eq_self)

section \<open>Sums over lists\<close>

lemma sum_list_map_update:
  "i < length xs \<Longrightarrow> sum_list (map f (xs[i := y])) = sum_list (map f xs) - f (xs ! i) + (f y :: int)"
proof (induction xs arbitrary: i)
  case Nil
  then show ?case by simp
next
  case (Cons x xs)
  then show ?case by (cases i) auto
qed

lemma sum_list_nonneg_map: "(\<And>x. x \<in> set xs \<Longrightarrow> (0::int) \<le> f x) \<Longrightarrow> 0 \<le> sum_list (map f xs)"
  by (induction xs) auto

text \<open>Storing a new key in a Go map kept in insertion order.\<close>

lemma update_new: "k \<notin> fst ` set al \<Longrightarrow> AList.update k v al = al @ [(k, v)]"
  by (induction al) auto

end
