(* ===== verification/Params.thy ===== *)
theory Params
  imports Prelude
begin

text \<open>
  The chain configuration of \<open>internal/params/config.go\<close>: the epoch of every protocol change, the
  configurations of the networks, the predicates that say whether a change is active, and the
  start-up check \<open>mustValid\<close>. A \<open>*big.Int\<close> that may be nil is an \<open>int option\<close>.
\<close>

section \<open>Chain identifiers and configurations\<close>

definition MainnetChainID :: int where "MainnetChainID = 1"
definition TestnetChainID :: int where "TestnetChainID = 2"
definition PangaeaChainID :: int where "PangaeaChainID = 3"
definition PartnerChainID :: int where "PartnerChainID = 4"
definition StressnetChainID :: int where "StressnetChainID = 5"
definition TestChainID :: int where "TestChainID = 99"
definition AllProtocolChangesChainID :: int where "AllProtocolChangesChainID = 100"
definition EthMainnetShard0ChainID :: int where "EthMainnetShard0ChainID = 1888800000"
definition EthTestnetShard0ChainID :: int where "EthTestnetShard0ChainID = 1888700000"
definition EthPangaeaShard0ChainID :: int where "EthPangaeaShard0ChainID = 1888900000"
definition EthPartnerShard0ChainID :: int where "EthPartnerShard0ChainID = 1889000000"
definition EthStressnetShard0ChainID :: int where "EthStressnetShard0ChainID = 1887000000"
definition EthTestShard0ChainID :: int where "EthTestShard0ChainID = 1887100000"
definition EthAllProtocolChangesShard0ChainID :: int where "EthAllProtocolChangesShard0ChainID = 1887200000"
definition EpochTBD :: int where "EpochTBD = 10000000"

record ChainConfig =
  ChainID :: "int option"
  EthCompatibleChainID :: "int option"
  EthCompatibleShard0ChainID :: "int option"
  EthCompatibleEpoch :: "int option"
  CrossTxEpoch :: "int option"
  CrossLinkEpoch :: "int option"
  AggregatedRewardEpoch :: "int option"
  StakingEpoch :: "int option"
  PreStakingEpoch :: "int option"
  QuickUnlockEpoch :: "int option"
  FiveSecondsEpoch :: "int option"
  TwoSecondsEpoch :: "int option"
  SixtyPercentEpoch :: "int option"
  RedelegationEpoch :: "int option"
  NoEarlyUnlockEpoch :: "int option"
  VRFEpoch :: "int option"
  PrevVRFEpoch :: "int option"
  MinDelegation100Epoch :: "int option"
  MinCommissionRateEpoch :: "int option"
  MinCommissionPromoPeriod :: "int option"
  EPoSBound35Epoch :: "int option"
  EIP155Epoch :: "int option"
  S3Epoch :: "int option"
  DataCopyFixEpoch :: "int option"
  IstanbulEpoch :: "int option"
  ReceiptLogEpoch :: "int option"
  SHA3Epoch :: "int option"
  HIP6And8Epoch :: "int option"
  StakingPrecompileEpoch :: "int option"
  ChainIdFixEpoch :: "int option"
  SlotsLimitedEpoch :: "int option"
  CrossShardXferPrecompileEpoch :: "int option"
  AllowlistEpoch :: "int option"
  LeaderRotationInternalValidatorsEpoch :: "int option"
  LeaderRotationExternalValidatorsEpoch :: "int option"
  FeeCollectEpoch :: "int option"
  ValidatorCodeFixEpoch :: "int option"
  HIP30Epoch :: "int option"
  DevnetExternalEpoch :: "int option"
  TestnetExternalEpoch :: "int option"
  BlockGas30MEpoch :: "int option"
  MaxRateEpoch :: "int option"
  TopMaxRateEpoch :: "int option"

definition MainnetChainConfig :: ChainConfig where
  "MainnetChainConfig = \<lparr>
     ChainID = Some MainnetChainID,
     EthCompatibleChainID = Some EthMainnetShard0ChainID,
     EthCompatibleShard0ChainID = Some EthMainnetShard0ChainID,
     EthCompatibleEpoch = Some 442,
     CrossTxEpoch = Some 28,
     CrossLinkEpoch = Some 186,
     AggregatedRewardEpoch = Some 689,
     StakingEpoch = Some 186,
     PreStakingEpoch = Some 185,
     QuickUnlockEpoch = Some 191,
     FiveSecondsEpoch = Some 230,
     TwoSecondsEpoch = Some 366,
     SixtyPercentEpoch = Some 530,
     RedelegationEpoch = Some 290,
     NoEarlyUnlockEpoch = Some 530,
     VRFEpoch = Some 631,
     PrevVRFEpoch = Some 689,
     MinDelegation100Epoch = Some 631,
     MinCommissionRateEpoch = Some 631,
     MinCommissionPromoPeriod = Some 100,
     EPoSBound35Epoch = Some 631,
     EIP155Epoch = Some 28,
     S3Epoch = Some 28,
     DataCopyFixEpoch = Some 689,
     IstanbulEpoch = Some 314,
     ReceiptLogEpoch = Some 101,
     SHA3Epoch = Some 725,
     HIP6And8Epoch = Some 725,
     StakingPrecompileEpoch = Some 871,
     ChainIdFixEpoch = Some 1323,
     SlotsLimitedEpoch = Some 999,
     CrossShardXferPrecompileEpoch = Some 1323,
     AllowlistEpoch = Some EpochTBD,
     LeaderRotationInternalValidatorsEpoch = Some EpochTBD,
     LeaderRotationExternalValidatorsEpoch = Some EpochTBD,
     FeeCollectEpoch = Some 1535,
     ValidatorCodeFixEpoch = Some 1535,
     HIP30Epoch = Some 1673,
     DevnetExternalEpoch = Some EpochTBD,
     TestnetExternalEpoch = Some EpochTBD,
     BlockGas30MEpoch = Some 1673,
     MaxRateEpoch = Some 1733,
     TopMaxRateEpoch = Some 1976\<rparr>"

definition TestnetChainConfig :: ChainConfig where
  "TestnetChainConfig = \<lparr>
     ChainID = Some TestnetChainID,
     EthCompatibleChainID = Some EthTestnetShard0ChainID,
     EthCompatibleShard0ChainID = Some EthTestnetShard0ChainID,
     EthCompatibleEpoch = Some 0,
     CrossTxEpoch = Some 0,
     CrossLinkEpoch = Some 2,
     AggregatedRewardEpoch = Some 2,
     StakingEpoch = Some 2,
     PreStakingEpoch = Some 1,
     QuickUnlockEpoch = Some 0,
     FiveSecondsEpoch = Some 0,
     TwoSecondsEpoch = Some 2,
     SixtyPercentEpoch = Some 2,
     RedelegationEpoch = Some 2,
     NoEarlyUnlockEpoch = Some 2,
     VRFEpoch = Some 2,
     PrevVRFEpoch = Some 2,
     MinDelegation100Epoch = Some 2,
     MinCommissionRateEpoch = Some 2,
     MinCommissionPromoPeriod = Some 2,
     EPoSBound35Epoch = Some 2,
     EIP155Epoch = Some 0,
     S3Epoch = Some 0,
     DataCopyFixEpoch = Some 0,
     IstanbulEpoch = Some 0,
     ReceiptLogEpoch = Some 0,
     SHA3Epoch = Some 0,
     HIP6And8Epoch = Some 2,
     StakingPrecompileEpoch = Some 2,
     ChainIdFixEpoch = Some 0,
     SlotsLimitedEpoch = Some 2,
     CrossShardXferPrecompileEpoch = Some 2,
     AllowlistEpoch = Some 2,
     LeaderRotationInternalValidatorsEpoch = Some 3044,
     LeaderRotationExternalValidatorsEpoch = Some 3044,
     FeeCollectEpoch = Some 1296,
     ValidatorCodeFixEpoch = Some 1296,
     HIP30Epoch = Some 2176,
     DevnetExternalEpoch = Some EpochTBD,
     TestnetExternalEpoch = Some 3044,
     BlockGas30MEpoch = Some 2176,
     MaxRateEpoch = Some 2520,
     TopMaxRateEpoch = Some EpochTBD\<rparr>"

definition PangaeaChainConfig :: ChainConfig where
  "PangaeaChainConfig = \<lparr>
     ChainID = Some PangaeaChainID,
     EthCompatibleChainID = Some EthPangaeaShard0ChainID,
     EthCompatibleShard0ChainID = Some EthPangaeaShard0ChainID,
     EthCompatibleEpoch = Some 0,
     CrossTxEpoch = Some 0,
     CrossLinkEpoch = Some 2,
     AggregatedRewardEpoch = Some 3,
     StakingEpoch = Some 2,
     PreStakingEpoch = Some 1,
     QuickUnlockEpoch = Some 0,
     FiveSecondsEpoch = Some 0,
     TwoSecondsEpoch = Some 0,
     SixtyPercentEpoch = Some 0,
     RedelegationEpoch = Some 0,
     NoEarlyUnlockEpoch = Some 0,
     VRFEpoch = Some 0,
     PrevVRFEpoch = Some 0,
     MinDelegation100Epoch = Some 0,
     MinCommissionRateEpoch = Some 0,
     MinCommissionPromoPeriod = Some 10,
     EPoSBound35Epoch = Some 0,
     EIP155Epoch = Some 0,
     S3Epoch = Some 0,
     DataCopyFixEpoch = Some 0,
     IstanbulEpoch = Some 0,
     ReceiptLogEpoch = Some 0,
     SHA3Epoch = Some 0,
     HIP6And8Epoch = Some 0,
     StakingPrecompileEpoch = Some 2,
     ChainIdFixEpoch = Some 0,
     SlotsLimitedEpoch = Some EpochTBD,
     CrossShardXferPrecompileEpoch = Some 1,
     AllowlistEpoch = Some EpochTBD,
     LeaderRotationInternalValidatorsEpoch = Some EpochTBD,
     LeaderRotationExternalValidatorsEpoch = Some EpochTBD,
     FeeCollectEpoch = Some EpochTBD,
     ValidatorCodeFixEpoch = Some EpochTBD,
     HIP30Epoch = Some EpochTBD,
     DevnetExternalEpoch = Some EpochTBD,
     TestnetExternalEpoch = Some EpochTBD,
     BlockGas30MEpoch = Some 0,
     MaxRateEpoch = Some EpochTBD,
     TopMaxRateEpoch = Some EpochTBD\<rparr>"

definition PartnerChainConfig :: ChainConfig where
  "PartnerChainConfig = \<lparr>
     ChainID = Some PartnerChainID,
     EthCompatibleChainID = Some EthPartnerShard0ChainID,
     EthCompatibleShard0ChainID = Some EthPartnerShard0ChainID,
     EthCompatibleEpoch = Some 0,
     CrossTxEpoch = Some 0,
     CrossLinkEpoch = Some 2,
     AggregatedRewardEpoch = Some 3,
     StakingEpoch = Some 2,
     PreStakingEpoch = Some 1,
     QuickUnlockEpoch = Some 0,
     FiveSecondsEpoch = Some 0,
     TwoSecondsEpoch = Some 0,
     SixtyPercentEpoch = Some EpochTBD,
     RedelegationEpoch = Some 0,
     NoEarlyUnlockEpoch = Some 0,
     VRFEpoch = Some 0,
     PrevVRFEpoch = Some 0,
     MinDelegation100Epoch = Some 0,
     MinCommissionRateEpoch = Some 0,
     MinCommissionPromoPeriod = Some 10,
     EPoSBound35Epoch = Some 0,
     EIP155Epoch = Some 0,
     S3Epoch = Some 0,
     DataCopyFixEpoch = Some 0,
     IstanbulEpoch = Some 0,
     ReceiptLogEpoch = Some 0,
     SHA3Epoch = Some 0,
     HIP6And8Epoch = Some 0,
     StakingPrecompileEpoch = Some 5,
     ChainIdFixEpoch = Some 5,
     SlotsLimitedEpoch = Some EpochTBD,
     CrossShardXferPrecompileEpoch = Some 5,
     AllowlistEpoch = Some EpochTBD,
     LeaderRotationInternalValidatorsEpoch = Some 144,
     LeaderRotationExternalValidatorsEpoch = Some 144,
     FeeCollectEpoch = Some 5,
     ValidatorCodeFixEpoch = Some 5,
     HIP30Epoch = Some 7,
     DevnetExternalEpoch = Some 144,
     TestnetExternalEpoch = Some EpochTBD,
     BlockGas30MEpoch = Some 7,
     MaxRateEpoch = Some EpochTBD,
     TopMaxRateEpoch = Some EpochTBD\<rparr>"

definition StressnetChainConfig :: ChainConfig where
  "StressnetChainConfig = \<lparr>
     ChainID = Some StressnetChainID,
     EthCompatibleChainID = Some EthStressnetShard0ChainID,
     EthCompatibleShard0ChainID = Some EthStressnetShard0ChainID,
     EthCompatibleEpoch = Some 0,
     CrossTxEpoch = Some 0,
     CrossLinkEpoch = Some 2,
     AggregatedRewardEpoch = Some 3,
     StakingEpoch = Some 2,
     PreStakingEpoch = Some 1,
     QuickUnlockEpoch = Some 0,
     FiveSecondsEpoch = Some 0,
     TwoSecondsEpoch = Some 0,
     SixtyPercentEpoch = Some 10,
     RedelegationEpoch = Some 0,
     NoEarlyUnlockEpoch = Some 0,
     VRFEpoch = Some 0,
     PrevVRFEpoch = Some 0,
     MinDelegation100Epoch = Some 0,
     MinCommissionRateEpoch = Some 0,
     MinCommissionPromoPeriod = Some 10,
     EPoSBound35Epoch = Some 0,
     EIP155Epoch = Some 0,
     S3Epoch = Some 0,
     DataCopyFixEpoch = Some 0,
     IstanbulEpoch = Some 0,
     ReceiptLogEpoch = Some 0,
     SHA3Epoch = Some 0,
     HIP6And8Epoch = Some 0,
     StakingPrecompileEpoch = Some 2,
     ChainIdFixEpoch = Some 0,
     SlotsLimitedEpoch = Some EpochTBD,
     CrossShardXferPrecompileEpoch = Some 1,
     AllowlistEpoch = Some EpochTBD,
     LeaderRotationInternalValidatorsEpoch = Some EpochTBD,
     LeaderRotationExternalValidatorsEpoch = Some EpochTBD,
     FeeCollectEpoch = Some EpochTBD,
     ValidatorCodeFixEpoch = Some EpochTBD,
     HIP30Epoch = Some EpochTBD,
     DevnetExternalEpoch = Some EpochTBD,
     TestnetExternalEpoch = Some EpochTBD,
     BlockGas30MEpoch = Some 0,
     MaxRateEpoch = Some EpochTBD,
     TopMaxRateEpoch = Some 0\<rparr>"

definition LocalnetChainConfig :: ChainConfig where
  "LocalnetChainConfig = \<lparr>
     ChainID = Some TestnetChainID,
     EthCompatibleChainID = Some EthTestnetShard0ChainID,
     EthCompatibleShard0ChainID = Some EthTestnetShard0ChainID,
     EthCompatibleEpoch = Some 0,
     CrossTxEpoch = Some 0,
     CrossLinkEpoch = Some 2,
     AggregatedRewardEpoch = Some 3,
     StakingEpoch = Some 2,
     PreStakingEpoch = Some 0,
     QuickUnlockEpoch = Some 0,
     FiveSecondsEpoch = Some 0,
     TwoSecondsEpoch = Some 0,
     SixtyPercentEpoch = Some EpochTBD,
     RedelegationEpoch = Some 0,
     NoEarlyUnlockEpoch = Some 0,
     VRFEpoch = Some 0,
     PrevVRFEpoch = Some 0,
     MinDelegation100Epoch = Some 0,
     MinCommissionRateEpoch = Some 0,
     MinCommissionPromoPeriod = Some 10,
     EPoSBound35Epoch = Some 0,
     EIP155Epoch = Some 0,
     S3Epoch = Some 0,
     DataCopyFixEpoch = Some 0,
     IstanbulEpoch = Some 0,
     ReceiptLogEpoch = Some 0,
     SHA3Epoch = Some 0,
     HIP6And8Epoch = Some EpochTBD,
     StakingPrecompileEpoch = Some 2,
     ChainIdFixEpoch = Some 0,
     SlotsLimitedEpoch = Some EpochTBD,
     CrossShardXferPrecompileEpoch = Some 1,
     AllowlistEpoch = Some EpochTBD,
     LeaderRotationInternalValidatorsEpoch = Some 5,
     LeaderRotationExternalValidatorsEpoch = Some 6,
     FeeCollectEpoch = Some 2,
     ValidatorCodeFixEpoch = Some 2,
     HIP30Epoch = Some EpochTBD,
     DevnetExternalEpoch = Some EpochTBD,
     TestnetExternalEpoch = Some EpochTBD,
     BlockGas30MEpoch = Some 0,
     MaxRateEpoch = Some EpochTBD,
     TopMaxRateEpoch = Some EpochTBD\<rparr>"

definition AllProtocolChanges :: ChainConfig where
  "AllProtocolChanges = \<lparr>
     ChainID = Some AllProtocolChangesChainID,
     EthCompatibleChainID = Some EthAllProtocolChangesShard0ChainID,
     EthCompatibleShard0ChainID = Some EthAllProtocolChangesShard0ChainID,
     EthCompatibleEpoch = Some 0,
     CrossTxEpoch = Some 0,
     CrossLinkEpoch = Some 0,
     AggregatedRewardEpoch = Some 0,
     StakingEpoch = Some 0,
     PreStakingEpoch = Some 0,
     QuickUnlockEpoch = Some 0,
     FiveSecondsEpoch = Some 0,
     TwoSecondsEpoch = Some 0,
     SixtyPercentEpoch = Some 0,
     RedelegationEpoch = Some 0,
     NoEarlyUnlockEpoch = Some 0,
     VRFEpoch = Some 0,
     PrevVRFEpoch = Some 0,
     MinDelegation100Epoch = Some 0,
     MinCommissionRateEpoch = Some 0,
     MinCommissionPromoPeriod = Some 10,
     EPoSBound35Epoch = Some 0,
     EIP155Epoch = Some 0,
     S3Epoch = Some 0,
     DataCopyFixEpoch = Some 0,
     IstanbulEpoch = Some 0,
     ReceiptLogEpoch = Some 0,
     SHA3Epoch = Some 0,
     HIP6And8Epoch = Some 0,
     StakingPrecompileEpoch = Some 0,
     ChainIdFixEpoch = Some 0,
     SlotsLimitedEpoch = Some 0,
     CrossShardXferPrecompileEpoch = Some 1,
     AllowlistEpoch = Some 0,
     LeaderRotationInternalValidatorsEpoch = Some 1,
     LeaderRotationExternalValidatorsEpoch = Some 1,
     FeeCollectEpoch = Some 0,
     ValidatorCodeFixEpoch = Some 0,
     HIP30Epoch = Some 0,
     DevnetExternalEpoch = Some 0,
     TestnetExternalEpoch = Some 0,
     BlockGas30MEpoch = Some 0,
     MaxRateEpoch = Some 0,
     TopMaxRateEpoch = Some 0\<rparr>"

definition TestChainConfig :: ChainConfig where
  "TestChainConfig = \<lparr>
     ChainID = Some TestChainID,
     EthCompatibleChainID = Some EthTestShard0ChainID,
     EthCompatibleShard0ChainID = Some EthTestShard0ChainID,
     EthCompatibleEpoch = Some 0,
     CrossTxEpoch = Some 0,
     CrossLinkEpoch = Some 0,
     AggregatedRewardEpoch = Some 0,
     StakingEpoch = Some 0,
     PreStakingEpoch = Some 0,
     QuickUnlockEpoch = Some 0,
     FiveSecondsEpoch = Some 0,
     TwoSecondsEpoch = Some 0,
     SixtyPercentEpoch = Some 0,
     RedelegationEpoch = Some 0,
     NoEarlyUnlockEpoch = Some 0,
     VRFEpoch = Some 0,
     PrevVRFEpoch = Some 0,
     MinDelegation100Epoch = Some 0,
     MinCommissionRateEpoch = Some 0,
     MinCommissionPromoPeriod = Some 10,
     EPoSBound35Epoch = Some 0,
     EIP155Epoch = Some 0,
     S3Epoch = Some 0,
     DataCopyFixEpoch = Some 0,
     IstanbulEpoch = Some 0,
     ReceiptLogEpoch = Some 0,
     SHA3Epoch = Some 0,
     HIP6And8Epoch = Some 0,
     StakingPrecompileEpoch = Some 0,
     ChainIdFixEpoch = Some 0,
     SlotsLimitedEpoch = Some 0,
     CrossShardXferPrecompileEpoch = Some 1,
     AllowlistEpoch = Some 0,
     LeaderRotationInternalValidatorsEpoch = Some 1,
     LeaderRotationExternalValidatorsEpoch = Some 1,
     FeeCollectEpoch = Some 0,
     ValidatorCodeFixEpoch = Some 0,
     HIP30Epoch = Some 0,
     DevnetExternalEpoch = Some 0,
     TestnetExternalEpoch = Some 0,
     BlockGas30MEpoch = Some 0,
     MaxRateEpoch = Some 0,
     TopMaxRateEpoch = Some 0\<rparr>"

section \<open>Whether a change is active\<close>

definition isForked :: "int option \<Rightarrow> int option \<Rightarrow> bool" where
  "isForked s epoch =
     (case s of None \<Rightarrow> False
      | Some s' \<Rightarrow> (case epoch of None \<Rightarrow> False | Some e \<Rightarrow> s' \<le> e))"

definition IsEIP155 :: "ChainConfig \<Rightarrow> int option \<Rightarrow> bool" where
  "IsEIP155 c epoch = isForked (EIP155Epoch c) epoch"

definition HasCrossTxFields :: "ChainConfig \<Rightarrow> int option \<Rightarrow> bool" where
  "HasCrossTxFields c epoch = isForked (CrossTxEpoch c) epoch"

definition IsEthCompatible :: "ChainConfig \<Rightarrow> int option \<Rightarrow> bool" where
  "IsEthCompatible c epoch = isForked (EthCompatibleEpoch c) epoch"

definition IsAggregatedRewardEpoch :: "ChainConfig \<Rightarrow> int option \<Rightarrow> bool" where
  "IsAggregatedRewardEpoch c epoch = isForked (AggregatedRewardEpoch c) epoch"

definition IsStaking :: "ChainConfig \<Rightarrow> int option \<Rightarrow> bool" where
  "IsStaking c epoch = isForked (StakingEpoch c) epoch"

definition IsSlotsLimited :: "ChainConfig \<Rightarrow> int option \<Rightarrow> bool" where
  "IsSlotsLimited c epoch = isForked (SlotsLimitedEpoch c) epoch"

definition IsFiveSeconds :: "ChainConfig \<Rightarrow> int option \<Rightarrow> bool" where
  "IsFiveSeconds c epoch = isForked (FiveSecondsEpoch c) epoch"

definition IsTwoSeconds :: "ChainConfig \<Rightarrow> int option \<Rightarrow> bool" where
  "IsTwoSeconds c epoch = isForked (TwoSecondsEpoch c) epoch"

definition IsSixtyPercent :: "ChainConfig \<Rightarrow> int option \<Rightarrow> bool" where
  "IsSixtyPercent c epoch = isForked (SixtyPercentEpoch c) epoch"

definition IsRedelegation :: "ChainConfig \<Rightarrow> int option \<Rightarrow> bool" where
  "IsRedelegation c epoch = isForked (RedelegationEpoch c) epoch"

definition IsNoEarlyUnlock :: "ChainConfig \<Rightarrow> int option \<Rightarrow> bool" where
  "IsNoEarlyUnlock c epoch = isForked (NoEarlyUnlockEpoch c) epoch"

definition IsVRF :: "ChainConfig \<Rightarrow> int option \<Rightarrow> bool" where
  "IsVRF c epoch = isForked (VRFEpoch c) epoch"

definition IsPrevVRF :: "ChainConfig \<Rightarrow> int option \<Rightarrow> bool" where
  "IsPrevVRF c epoch = isForked (PrevVRFEpoch c) epoch"

definition IsMinDelegation100 :: "ChainConfig \<Rightarrow> int option \<Rightarrow> bool" where
  "IsMinDelegation100 c epoch = isForked (MinDelegation100Epoch c) epoch"

definition IsMinCommissionRate :: "ChainConfig \<Rightarrow> int option \<Rightarrow> bool" where
  "IsMinCommissionRate c epoch = isForked (MinCommissionRateEpoch c) epoch"

definition IsEPoSBound35 :: "ChainConfig \<Rightarrow> int option \<Rightarrow> bool" where
  "IsEPoSBound35 c epoch = isForked (EPoSBound35Epoch c) epoch"

definition IsPreStaking :: "ChainConfig \<Rightarrow> int option \<Rightarrow> bool" where
  "IsPreStaking c epoch = isForked (PreStakingEpoch c) epoch"

definition IsQuickUnlock :: "ChainConfig \<Rightarrow> int option \<Rightarrow> bool" where
  "IsQuickUnlock c epoch = isForked (QuickUnlockEpoch c) epoch"

definition IsCrossLink :: "ChainConfig \<Rightarrow> int option \<Rightarrow> bool" where
  "IsCrossLink c epoch = isForked (CrossLinkEpoch c) epoch"

definition IsS3 :: "ChainConfig \<Rightarrow> int option \<Rightarrow> bool" where
  "IsS3 c epoch = isForked (S3Epoch c) epoch"

definition IsDataCopyFixEpoch :: "ChainConfig \<Rightarrow> int option \<Rightarrow> bool" where
  "IsDataCopyFixEpoch c epoch = isForked (DataCopyFixEpoch c) epoch"

definition IsIstanbul :: "ChainConfig \<Rightarrow> int option \<Rightarrow> bool" where
  "IsIstanbul c epoch = isForked (IstanbulEpoch c) epoch"

definition IsReceiptLog :: "ChainConfig \<Rightarrow> int option \<Rightarrow> bool" where
  "IsReceiptLog c epoch = isForked (ReceiptLogEpoch c) epoch"

definition IsSHA3 :: "ChainConfig \<Rightarrow> int option \<Rightarrow> bool" where
  "IsSHA3 c epoch = isForked (SHA3Epoch c) epoch"

definition IsHIP6And8Epoch :: "ChainConfig \<Rightarrow> int option \<Rightarrow> bool" where
  "IsHIP6And8Epoch c epoch = isForked (HIP6And8Epoch c) epoch"

definition IsStakingPrecompile :: "ChainConfig \<Rightarrow> int option \<Rightarrow> bool" where
  "IsStakingPrecompile c epoch = isForked (StakingPrecompileEpoch c) epoch"

definition IsCrossShardXferPrecompile :: "ChainConfig \<Rightarrow> int option \<Rightarrow> bool" where
  "IsCrossShardXferPrecompile c epoch = isForked (CrossShardXferPrecompileEpoch c) epoch"

definition IsChainIdFix :: "ChainConfig \<Rightarrow> int option \<Rightarrow> bool" where
  "IsChainIdFix c epoch = isForked (ChainIdFixEpoch c) epoch"

definition IsAllowlistEpoch :: "ChainConfig \<Rightarrow> int option \<Rightarrow> bool" where
  "IsAllowlistEpoch c epoch = isForked (AllowlistEpoch c) epoch"

definition IsLeaderRotationInternalValidators :: "ChainConfig \<Rightarrow> int option \<Rightarrow> bool" where
  "IsLeaderRotationInternalValidators c epoch = isForked (LeaderRotationInternalValidatorsEpoch c) epoch"

definition IsBlockGas30M :: "ChainConfig \<Rightarrow> int option \<Rightarrow> bool" where
  "IsBlockGas30M c epoch = isForked (BlockGas30MEpoch c) epoch"

definition IsLeaderRotationExternalValidatorsAllowed :: "ChainConfig \<Rightarrow> int option \<Rightarrow> bool" where
  "IsLeaderRotationExternalValidatorsAllowed c epoch = isForked (LeaderRotationExternalValidatorsEpoch c) epoch"

definition IsFeeCollectEpoch :: "ChainConfig \<Rightarrow> int option \<Rightarrow> bool" where
  "IsFeeCollectEpoch c epoch = isForked (FeeCollectEpoch c) epoch"

definition IsValidatorCodeFix :: "ChainConfig \<Rightarrow> int option \<Rightarrow> bool" where
  "IsValidatorCodeFix c epoch = isForked (ValidatorCodeFixEpoch c) epoch"

definition IsHIP30 :: "ChainConfig \<Rightarrow> int option \<Rightarrow> bool" where
  "IsHIP30 c epoch = isForked (HIP30Epoch c) epoch"

definition IsDevnetExternalEpoch :: "ChainConfig \<Rightarrow> int option \<Rightarrow> bool" where
  "IsDevnetExternalEpoch c epoch = isForked (DevnetExternalEpoch c) epoch"

definition IsTestnetExternalEpoch :: "ChainConfig \<Rightarrow> int option \<Rightarrow> bool" where
  "IsTestnetExternalEpoch c epoch = isForked (TestnetExternalEpoch c) epoch"

definition IsMaxRate :: "ChainConfig \<Rightarrow> int option \<Rightarrow> bool" where
  "IsMaxRate c epoch = isForked (MaxRateEpoch c) epoch"

definition IsTopMaxRate :: "ChainConfig \<Rightarrow> int option \<Rightarrow> bool" where
  "IsTopMaxRate c epoch = isForked (TopMaxRateEpoch c) epoch"
definition big_cmp :: "int option \<Rightarrow> int option \<Rightarrow> int go" where
  "big_cmp a b =
     (case a of None \<Rightarrow> Inl (Panic ''nil pointer'')
      | Some x \<Rightarrow> (case b of None \<Rightarrow> Inl (Panic ''nil pointer'') | Some y \<Rightarrow> Inr (sgn (x - y))))"

definition AcceptsCrossTx :: "ChainConfig \<Rightarrow> int option \<Rightarrow> bool go" where
  "AcceptsCrossTx c epoch =
     (case CrossTxEpoch c of None \<Rightarrow> Inl (Panic ''nil pointer'')
      | Some e \<Rightarrow> Inr (isForked (Some (e + 1)) epoch))"

definition IsOneEpochBeforeHIP30 :: "ChainConfig \<Rightarrow> int option \<Rightarrow> bool go" where
  "IsOneEpochBeforeHIP30 c epoch =
     (case (HIP30Epoch c, epoch) of
        (Some h, Some e) \<Rightarrow> Inr (h - e = 1)
      | _ \<Rightarrow> Inl (Panic ''nil pointer''))"

definition IsEthCompatible_chainID :: "int \<Rightarrow> bool" where
  "IsEthCompatible_chainID chainID \<longleftrightarrow> chainID \<ge> EthMainnetShard0ChainID"

record Rules =
  rulesChainID :: int
  rulesEthChainID :: int
  rulesIsS3 :: bool
  rulesIsIstanbul :: bool
  rulesIsVRF :: bool
  rulesIsPrevVRF :: bool
  rulesIsSHA3 :: bool
  rulesIsStakingPrecompile :: bool
  rulesIsCrossShardXferPrecompile :: bool
  rulesIsChainIdFix :: bool
  rulesIsValidatorCodeFix :: bool

definition ChainConfig_Rules :: "ChainConfig \<Rightarrow> int option \<Rightarrow> Rules" where
  "ChainConfig_Rules c epoch = \<lparr>
     rulesChainID = (case ChainID c of None \<Rightarrow> 0 | Some i \<Rightarrow> i),
     rulesEthChainID = (case EthCompatibleChainID c of None \<Rightarrow> 0 | Some i \<Rightarrow> i),
     rulesIsS3 = IsS3 c epoch,
     rulesIsIstanbul = IsIstanbul c epoch,
     rulesIsVRF = IsVRF c epoch,
     rulesIsPrevVRF = IsPrevVRF c epoch,
     rulesIsSHA3 = IsSHA3 c epoch,
     rulesIsStakingPrecompile = IsStakingPrecompile c epoch,
     rulesIsCrossShardXferPrecompile = IsCrossShardXferPrecompile c epoch,
     rulesIsChainIdFix = IsChainIdFix c epoch,
     rulesIsValidatorCodeFix = IsValidatorCodeFix c epoch\<rparr>"

section \<open>Gas tables\<close>

record GasTable =
  ExtcodeSize :: uint64
  ExtcodeCopy :: uint64
  ExtcodeHash :: uint64
  Balance :: uint64
  SLoad :: uint64
  Calls :: uint64
  Suicide :: uint64
  ExpByte :: uint64
  CreateBySuicide :: uint64

definition GasTableR3 :: GasTable where
  "GasTableR3 = \<lparr>ExtcodeSize = 20, ExtcodeCopy = 20, ExtcodeHash = 0, Balance = 20, SLoad = 50,
     Calls = 40, Suicide = 0, ExpByte = 10, CreateBySuicide = 0\<rparr>"

definition GasTableS3 :: GasTable where
  "GasTableS3 = \<lparr>ExtcodeSize = 700, ExtcodeCopy = 700, ExtcodeHash = 400, Balance = 400, SLoad = 200,
     Calls = 700, Suicide = 5000, ExpByte = 50, CreateBySuicide = 25000\<rparr>"

definition ChainConfig_GasTable :: "ChainConfig \<Rightarrow> int option \<Rightarrow> GasTable" where
  "ChainConfig_GasTable c epoch =
     (case epoch of None \<Rightarrow> GasTableR3
      | Some _ \<Rightarrow> if IsS3 c epoch then GasTableS3 else GasTableR3)"

section \<open>The start-up check\<close>

definition require_cmp :: "(int \<Rightarrow> bool) \<Rightarrow> int option \<Rightarrow> int option \<Rightarrow> string \<Rightarrow> unit go" where
  "require_cmp ok a b err = go_bind (big_cmp a b) (\<lambda>r. go_check (ok r) (Panic err))"

definition mustValid :: "ChainConfig \<Rightarrow> unit go" where
  "mustValid c =
     go_bind (require_cmp (\<lambda>r. r > 0) (AggregatedRewardEpoch c) (Some 0)
       ''must satisfy: AggregatedRewardEpoch > 0'') (\<lambda>_.
     go_bind (require_cmp (\<lambda>r. r \<ge> 0) (FeeCollectEpoch c) (StakingEpoch c)
       ''must satisfy: FeeCollectEpoch >= StakingEpoch'') (\<lambda>_.
     go_bind (require_cmp (\<lambda>r. r < 0) (PreStakingEpoch c) (StakingEpoch c)
       ''must satisfy: PreStakingEpoch < StakingEpoch'') (\<lambda>_.
     go_bind (require_cmp (\<lambda>r. r \<ge> 0) (StakingPrecompileEpoch c) (PreStakingEpoch c)
       ''must satisfy: StakingPrecompileEpoch >= PreStakingEpoch'') (\<lambda>_.
     go_bind (require_cmp (\<lambda>r. r > 0) (CrossShardXferPrecompileEpoch c) (CrossTxEpoch c)
       ''must satisfy: CrossShardXferPrecompileEpoch > CrossTxEpoch'') (\<lambda>_.
     go_bind (require_cmp (\<lambda>r. r \<ge> 0) (ValidatorCodeFixEpoch c) (EthCompatibleEpoch c)
       ''must satisfy: ValidatorCodeFixEpoch >= EthCompatibleEpoch'') (\<lambda>_.
     go_bind (require_cmp (\<lambda>r. r \<ge> 0) (ValidatorCodeFixEpoch c) (PreStakingEpoch c)
       ''must satisfy: ValidatorCodeFixEpoch >= PreStakingEpoch'') (\<lambda>_.
     go_bind (require_cmp (\<lambda>r. r > 0) (HIP30Epoch c) (StakingEpoch c)
       ''must satisfy: HIP30Epoch > StakingEpoch'') (\<lambda>_.
     go_bind (require_cmp (\<lambda>r. r \<ge> 0) (HIP30Epoch c) (MinCommissionRateEpoch c)
       ''must satisfy: HIP30Epoch > MinCommissionRateEpoch'') (\<lambda>_.
     go_bind (require_cmp (\<lambda>r. r \<ge> 0) (HIP30Epoch c) (AggregatedRewardEpoch c)
       ''must satisfy: HIP30Epoch >= MinCommissionRateEpoch'') (\<lambda>_.
     go_bind (require_cmp (\<lambda>r. r \<ge> 0) (HIP30Epoch c) (S3Epoch c)
       ''must satisfy: HIP30Epoch >= S3Epoch'') (\<lambda>_.
     go_bind (require_cmp (\<lambda>r. r > 0) (HIP30Epoch c) (CrossTxEpoch c)
       ''must satisfy: HIP30Epoch > CrossTxEpoch'') (\<lambda>_.
     require_cmp (\<lambda>r. r \<ge> 0) (MaxRateEpoch c) (HIP30Epoch c)
       ''must satisfy: MaxRateEpoch >= HIP30Epoch''))))))))))))"

definition init_configs :: "unit go" where
  "init_configs =
     go_fold (\<lambda>_ c. mustValid c) ()
       [MainnetChainConfig, TestnetChainConfig, PangaeaChainConfig, PartnerChainConfig,
        StressnetChainConfig, LocalnetChainConfig]"

lemma big_cmp_eq_Inr [simp]:
  "big_cmp a b = Inr r \<longleftrightarrow> (\<exists>x y. a = Some x \<and> b = Some y \<and> r = sgn (x - y))"
  by (auto simp: big_cmp_def split: option.splits)

lemma require_cmp_gt [simp]:
  "require_cmp (\<lambda>r. r > 0) a b e = Inr u \<longleftrightarrow> (\<exists>x y. a = Some x \<and> b = Some y \<and> x > y)"
  by (cases a; cases b) (auto simp: require_cmp_def big_cmp_def sgn_if)

lemma require_cmp_lt [simp]:
  "require_cmp (\<lambda>r. r < 0) a b e = Inr u \<longleftrightarrow> (\<exists>x y. a = Some x \<and> b = Some y \<and> x < y)"
  by (cases a; cases b) (auto simp: require_cmp_def big_cmp_def sgn_if)

lemma require_cmp_ge [simp]:
  "require_cmp (\<lambda>r. r \<ge> 0) a b e = Inr u \<longleftrightarrow> (\<exists>x y. a = Some x \<and> b = Some y \<and> x \<ge> y)"
  by (cases a; cases b) (auto simp: require_cmp_def big_cmp_def sgn_if)

lemma isForked_Some [simp]: "isForked (Some s) (Some e) \<longleftrightarrow> s \<le> e"
  by (simp add: isForked_def)

lemma isForked_None [simp]: "\<not> isForked None e" "\<not> isForked s None"
  by (simp_all add: isForked_def split: option.split)

lemma isForked_mono: "isForked s (Some e) \<Longrightarrow> e \<le> e' \<Longrightarrow> isForked s (Some e')"
  by (cases s) auto

lemma mustValid_Some:
  assumes "mustValid c = Inr u"
  shows "\<exists>agg fee stk pre spc xsx ctx vcf eth hip mcr s3 mr.
     AggregatedRewardEpoch c = Some agg \<and> FeeCollectEpoch c = Some fee \<and> StakingEpoch c = Some stk \<and>
     PreStakingEpoch c = Some pre \<and> StakingPrecompileEpoch c = Some spc \<and>
     CrossShardXferPrecompileEpoch c = Some xsx \<and> CrossTxEpoch c = Some ctx \<and>
     ValidatorCodeFixEpoch c = Some vcf \<and> EthCompatibleEpoch c = Some eth \<and> HIP30Epoch c = Some hip \<and>
     MinCommissionRateEpoch c = Some mcr \<and> S3Epoch c = Some s3 \<and> MaxRateEpoch c = Some mr \<and>
     0 < agg \<and> stk \<le> fee \<and> pre < stk \<and> pre \<le> spc \<and> ctx < xsx \<and> eth \<le> vcf \<and> pre \<le> vcf \<and>
     stk < hip \<and> mcr \<le> hip \<and> agg \<le> hip \<and> s3 \<le> hip \<and> ctx < hip \<and> hip \<le> mr"
  using assms unfolding mustValid_def go_bind_eq_Inr require_cmp_gt require_cmp_lt require_cmp_ge
  by force

text \<open>
Node start-up cannot panic in \<open>init\<close>: each of the six network configurations passes every
requirement of \<open>mustValid\<close>.
\<close>

theorem init_configs_ok: "init_configs = Inr ()"
proof -
  have "is_ok (mustValid c)" if "c \<in> {MainnetChainConfig, TestnetChainConfig, PangaeaChainConfig,
      PartnerChainConfig, StressnetChainConfig, LocalnetChainConfig}" for c
    using that
    by (auto simp: is_ok_iff mustValid_def MainnetChainConfig_def TestnetChainConfig_def
        PangaeaChainConfig_def PartnerChainConfig_def StressnetChainConfig_def
        LocalnetChainConfig_def EpochTBD_def)
  then show ?thesis by (auto simp: init_configs_def is_ok_iff)
qed

text \<open>
What a configuration that passed \<open>mustValid\<close> guarantees at run time: once the HIP-30 change is
active so are staking, aggregated rewards, the minimum commission rate, S3 and the cross-shard
fields (client cross-shard transactions too), a max-rate epoch is a HIP-30 epoch, fees are only collected under
staking, and in the epoch before HIP-30 staking is already active.
\<close>

theorem mustValid_fork_order:
  assumes "mustValid c = Inr u"
  shows "(IsHIP30 c e \<longrightarrow> IsStaking c e \<and> IsAggregatedRewardEpoch c e \<and> IsMinCommissionRate c e \<and>
            IsS3 c e \<and> HasCrossTxFields c e \<and> AcceptsCrossTx c e = Inr True) \<and>
         (IsMaxRate c e \<longrightarrow> IsHIP30 c e) \<and> (IsFeeCollectEpoch c e \<longrightarrow> IsStaking c e) \<and>
         (IsStaking c e \<longrightarrow> IsPreStaking c e) \<and>
         (IsStakingPrecompile c e \<longrightarrow> IsPreStaking c e) \<and>
         (IsValidatorCodeFix c e \<longrightarrow> IsEthCompatible c e) \<and>
         (IsCrossShardXferPrecompile c e \<longrightarrow> AcceptsCrossTx c e = Inr True) \<and>
         (IsOneEpochBeforeHIP30 c e = Inr True \<longrightarrow> IsStaking c e)"
proof (cases e)
  case None
  then show ?thesis
    by (simp add: IsHIP30_def IsMaxRate_def IsFeeCollectEpoch_def IsStaking_def
        IsStakingPrecompile_def IsValidatorCodeFix_def IsCrossShardXferPrecompile_def
        IsOneEpochBeforeHIP30_def split: option.split)
next
  case (Some n)
  show ?thesis
    using mustValid_Some [OF assms] unfolding Some
    by (auto simp: IsHIP30_def IsMaxRate_def IsFeeCollectEpoch_def IsStaking_def
        IsAggregatedRewardEpoch_def IsMinCommissionRate_def IsS3_def HasCrossTxFields_def
        IsPreStaking_def IsStakingPrecompile_def IsValidatorCodeFix_def IsEthCompatible_def
        IsCrossShardXferPrecompile_def AcceptsCrossTx_def IsOneEpochBeforeHIP30_def)
qed

theorem mustValid_fork_order_witness:
  "mustValid MainnetChainConfig = Inr () \<and> IsHIP30 MainnetChainConfig (Some 1673) \<and>
   IsStaking MainnetChainConfig (Some 1673)"
proof -
  have ok: "mustValid MainnetChainConfig = Inr ()"
    by (simp add: mustValid_def MainnetChainConfig_def)
  have h: "IsHIP30 MainnetChainConfig (Some 1673)"
    by (simp add: IsHIP30_def MainnetChainConfig_def)
  show ?thesis using mustValid_fork_order [OF ok, of "Some 1673"] ok h by blast
qed

end
