(* ===== verification/Numeric.thy ===== *)
theory Numeric
  imports Prelude
begin

text \<open>
  The fixed-point decimals of \<open>numeric/decimal.go\<close>. A \<open>Dec\<close> is the value of its embedded
  \<open>big.Int\<close>, a number of units of \<open>10 ^ -18\<close>; where the code tells a nil \<open>Dec\<close> apart the model
  takes a \<open>Dec option\<close>. Operations that panic on overflow or on a zero divisor return \<open>Dec go\<close>.
\<close>

section \<open>Constants and constructors\<close>

type_synonym Dec = int

definition Precision :: int where "Precision = 18"
definition DecimalPrecisionBits :: nat where "DecimalPrecisionBits = 60"
definition precisionReuse :: int where "precisionReuse = 10 ^ 18"
definition fivePrecision :: int where "fivePrecision = quo precisionReuse 2"

definition calcPrecisionMultiplier :: "int \<Rightarrow> int go" where
  "calcPrecisionMultiplier prec =
     (if prec > Precision then Inl (Panic ''too much precision'')
      else Inr (10 ^ nat (Precision - prec)))"

definition precisionMultipliers :: "int list go" where
  "precisionMultipliers = go_map calcPrecisionMultiplier [0..Precision]"

definition precisionMultiplier :: "int \<Rightarrow> int go" where
  "precisionMultiplier prec =
     (if prec > Precision then Inl (Panic ''too much precision'')
      else if prec < 0 then Inl (Panic ''index out of range'')
      else go_bind precisionMultipliers (\<lambda>ms. Inr (ms ! nat prec)))"

definition ZeroDec :: Dec where "ZeroDec = 0"
definition OneDec :: Dec where "OneDec = precisionReuse"
definition SmallestDec :: Dec where "SmallestDec = 1"

definition NewDecWithPrec :: "int \<Rightarrow> int \<Rightarrow> Dec go" where
  "NewDecWithPrec i prec = go_bind (precisionMultiplier prec) (\<lambda>m. Inr (i * m))"

text \<open>
  The constructors for whole numbers call the general one with \<open>prec = 0\<close>, where no panic is
  possible (\<open>NewDecWithPrec_zero\<close> below), so they are given as plain values.
\<close>

definition NewDec :: "int \<Rightarrow> Dec" where
  "NewDec i = i * precisionReuse"

definition NewDecFromBigInt :: "int \<Rightarrow> Dec" where
  "NewDecFromBigInt i = i * precisionReuse"

definition NewDecFromBigIntWithPrec :: "int \<Rightarrow> int \<Rightarrow> Dec go" where
  "NewDecFromBigIntWithPrec i prec = go_bind (precisionMultiplier prec) (\<lambda>m. Inr (i * m))"

definition NewDecFromInt :: "int \<Rightarrow> Dec" where
  "NewDecFromInt i = i * precisionReuse"

definition NewDecFromIntWithPrec :: "int \<Rightarrow> int \<Rightarrow> Dec go" where
  "NewDecFromIntWithPrec i prec = go_bind (precisionMultiplier prec) (\<lambda>m. Inr (i * m))"

lemmas dec_consts = ZeroDec_def OneDec_def SmallestDec_def NewDec_def NewDecFromBigInt_def
  NewDecFromInt_def

lemma precisionReuse_pos [simp]: "0 < precisionReuse"
  by (simp add: precisionReuse_def)

lemma precisionReuse_nonneg [simp]: "0 \<le> precisionReuse"
  by (simp add: precisionReuse_def)

lemma precisionReuse_nz [simp]: "precisionReuse \<noteq> 0"
  by (simp add: precisionReuse_def)

lemma even_precisionReuse: "even precisionReuse"
  by (simp add: precisionReuse_def)

lemma twice_fivePrecision: "2 * fivePrecision = precisionReuse"
  by (simp add: fivePrecision_def quo_nonneg precisionReuse_def)

lemma precisionMultipliers_eq: "precisionMultipliers = Inr (map (\<lambda>p. 10 ^ nat (18 - p)) [0..18])"
  by (simp add: precisionMultipliers_def calcPrecisionMultiplier_def Precision_def upto_rec1)

lemma precisionMultiplier_eq:
  "0 \<le> p \<Longrightarrow> p \<le> 18 \<Longrightarrow> precisionMultiplier p = Inr (10 ^ nat (18 - p))"
  using nth_upto [of 0 "nat p" 18]
  by (simp add: precisionMultiplier_def Precision_def precisionMultipliers_eq)

lemma NewDecWithPrec_zero: "NewDecWithPrec i 0 = Inr (NewDec i)"
  by (simp add: NewDecWithPrec_def NewDec_def precisionMultiplier_eq precisionReuse_def)

lemma NewDecFromBigIntWithPrec_zero:
  "NewDecFromBigIntWithPrec i 0 = Inr (NewDecFromBigInt i)"
  by (simp add: NewDecFromBigIntWithPrec_def NewDecFromBigInt_def precisionMultiplier_eq
      precisionReuse_def)

section \<open>Predicates and comparisons\<close>

definition Dec_Copy :: "Dec option \<Rightarrow> Dec option" where
  "Dec_Copy d = (case d of None \<Rightarrow> None | Some i \<Rightarrow> Some i)"

definition Dec_Div :: "Dec \<Rightarrow> Dec \<Rightarrow> Dec go" where
  "Dec_Div d d2 = (if d2 = 0 then Inl (Panic ''division by zero'') else Inr (ediv d d2))"

definition IsNil :: "Dec option \<Rightarrow> bool" where "IsNil d \<longleftrightarrow> d = None"
definition IsZero :: "Dec \<Rightarrow> bool" where "IsZero d \<longleftrightarrow> sgn d = 0"
definition IsNegative :: "Dec \<Rightarrow> bool" where "IsNegative d \<longleftrightarrow> sgn d = -1"
definition IsPositive :: "Dec \<Rightarrow> bool" where "IsPositive d \<longleftrightarrow> sgn d = 1"
definition Equal :: "Dec \<Rightarrow> Dec \<Rightarrow> bool" where "Equal d d2 \<longleftrightarrow> d = d2"
definition GT :: "Dec \<Rightarrow> Dec \<Rightarrow> bool" where "GT d d2 \<longleftrightarrow> d > d2"
definition GTE :: "Dec \<Rightarrow> Dec \<Rightarrow> bool" where "GTE d d2 \<longleftrightarrow> d \<ge> d2"
definition LT :: "Dec \<Rightarrow> Dec \<Rightarrow> bool" where "LT d d2 \<longleftrightarrow> d < d2"
definition LTE :: "Dec \<Rightarrow> Dec \<Rightarrow> bool" where "LTE d d2 \<longleftrightarrow> d \<le> d2"
definition Neg :: "Dec \<Rightarrow> Dec" where "Neg d = - d"
definition Dec_Abs :: "Dec \<Rightarrow> Dec" where "Dec_Abs d = \<bar>d\<bar>"

lemmas dec_preds = IsZero_def IsNegative_def IsPositive_def Equal_def GT_def GTE_def LT_def
  LTE_def Neg_def Dec_Abs_def

lemma IsNegative_iff [simp]: "IsNegative d \<longleftrightarrow> d < 0"
  by (auto simp: IsNegative_def sgn_if)

lemma IsZero_iff [simp]: "IsZero d \<longleftrightarrow> d = 0"
  by (auto simp: IsZero_def sgn_if)

lemma IsPositive_iff [simp]: "IsPositive d \<longleftrightarrow> 0 < d"
  by (auto simp: IsPositive_def sgn_if)

section \<open>Rounding\<close>

function chopPrecisionAndRound :: "int \<Rightarrow> int" where
  "chopPrecisionAndRound d =
     (if sgn d = -1 then - chopPrecisionAndRound (- d)
      else
        let q = quo d precisionReuse; r = rem d precisionReuse
        in if sgn r = 0 then q
           else if r < fivePrecision then q
           else if r > fivePrecision then q + 1
           else if even q then q
           else q + 1)"
  by pat_completeness auto
termination
  by (relation "measure (\<lambda>d. if d < 0 then 1 else 0)") (auto simp: sgn_if split: if_splits)

declare chopPrecisionAndRound.simps [simp del]

definition chopPrecisionAndTruncate :: "int \<Rightarrow> int" where
  "chopPrecisionAndTruncate d = quo d precisionReuse"

definition chopPrecisionAndRoundUp :: "int \<Rightarrow> int" where
  "chopPrecisionAndRoundUp d =
     (if sgn d = -1 then - chopPrecisionAndTruncate (- d)
      else
        let q = quo d precisionReuse; r = rem d precisionReuse
        in if sgn r = 0 then q else q + 1)"

text \<open>The non-mutative variants work on a copy of their argument.\<close>

definition chopPrecisionAndRoundNonMutative :: "int \<Rightarrow> int" where
  "chopPrecisionAndRoundNonMutative d = chopPrecisionAndRound d"

definition chopPrecisionAndTruncateNonMutative :: "int \<Rightarrow> int" where
  "chopPrecisionAndTruncateNonMutative d = chopPrecisionAndTruncate d"

section \<open>Arithmetic\<close>

definition fitsDec :: "int \<Rightarrow> bool" where
  "fitsDec res \<longleftrightarrow> \<not> bit_len res > 255 + DecimalPrecisionBits"

definition checkOverflow :: "int \<Rightarrow> Dec go" where
  "checkOverflow res = (if fitsDec res then Inr res else Inl (Panic ''Int overflow''))"

definition Add :: "Dec \<Rightarrow> Dec \<Rightarrow> Dec go" where
  "Add d d2 = checkOverflow (d + d2)"

definition Sub :: "Dec \<Rightarrow> Dec \<Rightarrow> Dec go" where
  "Sub d d2 = checkOverflow (d - d2)"

definition Mul :: "Dec \<Rightarrow> Dec \<Rightarrow> Dec go" where
  "Mul d d2 = checkOverflow (chopPrecisionAndRound (d * d2))"

definition MulTruncate :: "Dec \<Rightarrow> Dec \<Rightarrow> Dec go" where
  "MulTruncate d d2 = checkOverflow (chopPrecisionAndTruncate (d * d2))"

definition MulInt :: "Dec \<Rightarrow> int \<Rightarrow> Dec go" where
  "MulInt d i = checkOverflow (d * i)"

definition MulInt64 :: "Dec \<Rightarrow> int \<Rightarrow> Dec go" where
  "MulInt64 d i = checkOverflow (d * i)"

definition Quo :: "Dec \<Rightarrow> Dec \<Rightarrow> Dec go" where
  "Quo d d2 =
     (let m = d * precisionReuse * precisionReuse
      in if d2 = 0 then Inl (Panic ''division by zero'')
         else checkOverflow (chopPrecisionAndRound (quo m d2)))"

definition QuoTruncate :: "Dec \<Rightarrow> Dec \<Rightarrow> Dec go" where
  "QuoTruncate d d2 =
     (let m = d * precisionReuse * precisionReuse
      in if d2 = 0 then Inl (Panic ''division by zero'')
         else checkOverflow (chopPrecisionAndTruncate (quo m d2)))"

definition QuoRoundUp :: "Dec \<Rightarrow> Dec \<Rightarrow> Dec go" where
  "QuoRoundUp d d2 =
     (let m = d * precisionReuse * precisionReuse
      in if d2 = 0 then Inl (Panic ''division by zero'')
         else checkOverflow (chopPrecisionAndRoundUp (quo m d2)))"

definition QuoInt :: "Dec \<Rightarrow> int \<Rightarrow> Dec go" where
  "QuoInt d i = (if i = 0 then Inl (Panic ''division by zero'') else Inr (quo d i))"

definition QuoInt64 :: "Dec \<Rightarrow> int \<Rightarrow> Dec go" where
  "QuoInt64 d i = (if i = 0 then Inl (Panic ''division by zero'') else Inr (quo d i))"

definition IsInteger :: "Dec \<Rightarrow> bool" where
  "IsInteger d \<longleftrightarrow> sgn (rem d precisionReuse) = 0"

definition RoundInt64 :: "Dec \<Rightarrow> int go" where
  "RoundInt64 d =
     (let chopped = chopPrecisionAndRoundNonMutative d
      in if IsInt64 chopped then Inr (Int64 chopped) else Inl (Panic ''Int64() out of bound''))"

definition RoundInt :: "Dec \<Rightarrow> int" where
  "RoundInt d = chopPrecisionAndRoundNonMutative d"

definition TruncateInt64 :: "Dec \<Rightarrow> int go" where
  "TruncateInt64 d =
     (let chopped = chopPrecisionAndTruncateNonMutative d
      in if IsInt64 chopped then Inr (Int64 chopped) else Inl (Panic ''Int64() out of bound''))"

definition TruncateInt :: "Dec \<Rightarrow> int" where
  "TruncateInt d = chopPrecisionAndTruncateNonMutative d"

definition TruncateDec :: "Dec \<Rightarrow> Dec" where
  "TruncateDec d = NewDecFromBigInt (chopPrecisionAndTruncateNonMutative d)"

definition Ceil :: "Dec \<Rightarrow> Dec" where
  "Ceil d =
     (let q = quo d precisionReuse; r = rem d precisionReuse
      in if r = 0 then NewDecFromBigInt q
         else if sgn r = -1 then NewDecFromBigInt q
         else NewDecFromBigInt (q + 1))"

section \<open>Helpers\<close>

fun DecsEqual :: "Dec list \<Rightarrow> Dec list \<Rightarrow> bool" where
  "DecsEqual d1s d2s =
     (if length d1s \<noteq> length d2s then False
      else list_all (\<lambda>(d1, d2). Equal d1 d2) (zip d1s d2s))"

definition MinDec :: "Dec \<Rightarrow> Dec \<Rightarrow> Dec" where
  "MinDec d1 d2 = (if LT d1 d2 then d1 else d2)"

definition MaxDec :: "Dec \<Rightarrow> Dec \<Rightarrow> Dec" where
  "MaxDec d1 d2 = (if LT d1 d2 then d2 else d1)"

section \<open>Lemmas on rounding\<close>

lemma fitsDec_iff: "fitsDec x \<longleftrightarrow> \<bar>x\<bar> < 2 ^ 315"
  by (simp add: fitsDec_def DecimalPrecisionBits_def not_less bit_len_le)

lemma checkOverflow_Inr [simp]: "checkOverflow x = Inr y \<longleftrightarrow> x = y \<and> fitsDec x"
  by (auto simp: checkOverflow_def)

lemma checkOverflow_fits: "fitsDec x \<Longrightarrow> checkOverflow x = Inr x"
  by simp

lemma chop_round_minus: "chopPrecisionAndRound (- d) = - chopPrecisionAndRound d"
proof (cases "d = 0")
  case True
  then show ?thesis
    by (simp add: chopPrecisionAndRound.simps [of 0] rem_def quo_def)
next
  case False
  then show ?thesis
    by (cases "d < 0")
      (simp_all add: chopPrecisionAndRound.simps [of d] chopPrecisionAndRound.simps [of "- d"] sgn_if)
qed

lemma chop_round_nonneg:
  assumes "0 \<le> d"
  shows "chopPrecisionAndRound d =
     (let q = d div precisionReuse; r = d mod precisionReuse
      in if 2 * r < precisionReuse \<or> 2 * r = precisionReuse \<and> even q then q else q + 1)"
proof -
  have nn: "sgn d \<noteq> -1" using assms by (auto simp: sgn_if)
  have m: "0 \<le> d mod precisionReuse" by simp
  show ?thesis
    using assms twice_fivePrecision m nn
    by (auto simp: chopPrecisionAndRound.simps [of d] quo_nonneg rem_nonneg Let_def sgn_if)
qed

text \<open>
  The contract every rounding of this file meets: exact on multiples of the precision,
  within one unit, monotone. Banker's rounding meets the sharper half-unit bound.
\<close>

locale rounding =
  fixes chop :: "int \<Rightarrow> int"
  assumes exact: "chop (k * precisionReuse) = k"
    and unit: "\<bar>chop d * precisionReuse - d\<bar> < precisionReuse"
    and mono: "d \<le> e \<Longrightarrow> chop d \<le> chop e"
begin

lemma zero: "chop 0 = 0"
  using exact [of 0] by simp

lemma nonneg: "0 \<le> d \<Longrightarrow> 0 \<le> chop d"
  using mono [of 0 d] zero by simp

lemma nonpos: "d \<le> 0 \<Longrightarrow> chop d \<le> 0"
  using mono [of d 0] zero by simp

lemma ge: "k * precisionReuse \<le> d \<Longrightarrow> k \<le> chop d"
  using mono [of "k * precisionReuse" d] exact [of k] by simp

lemma le: "d \<le> k * precisionReuse \<Longrightarrow> chop d \<le> k"
  using mono [of d "k * precisionReuse"] exact [of k] by simp

lemma product_le_factor:
  "0 \<le> a \<Longrightarrow> 0 \<le> b \<Longrightarrow> b \<le> precisionReuse \<Longrightarrow> chop (a * b) \<le> a"
  by (rule le) (simp add: mult_left_mono)

end

lemma chop_round_half_nonneg:
  assumes "0 \<le> d"
  shows "2 * \<bar>chopPrecisionAndRound d * precisionReuse - d\<bar> \<le> precisionReuse"
proof -
  define q where "q = d div precisionReuse"
  define r where "r = d mod precisionReuse"
  have d: "d = q * precisionReuse + r" by (simp add: q_def r_def)
  have r: "0 \<le> r" "r < precisionReuse" by (simp_all add: r_def)
  have "chopPrecisionAndRound d =
      (if 2 * r < precisionReuse \<or> 2 * r = precisionReuse \<and> even q then q else q + 1)"
    using chop_round_nonneg [OF assms] by (simp add: q_def r_def Let_def)
  then show ?thesis using r by (auto simp: d algebra_simps)
qed

lemma chop_round_half: "2 * \<bar>chopPrecisionAndRound d * precisionReuse - d\<bar> \<le> precisionReuse"
proof (cases "0 \<le> d")
  case True
  then show ?thesis by (rule chop_round_half_nonneg)
next
  case False
  then have "2 * \<bar>chopPrecisionAndRound (- d) * precisionReuse - (- d)\<bar> \<le> precisionReuse"
    by (intro chop_round_half_nonneg) simp
  then show ?thesis by (simp add: chop_round_minus abs_minus_commute)
qed

lemma chop_round_exact_nonneg: "0 \<le> k \<Longrightarrow> chopPrecisionAndRound (k * precisionReuse) = k"
  using chop_round_nonneg [of "k * precisionReuse"] by simp

lemma chop_round_exact: "chopPrecisionAndRound (k * precisionReuse) = k"
  using chop_round_exact_nonneg [of k] chop_round_exact_nonneg [of "- k"]
    chop_round_minus [of "k * precisionReuse"]
  by (cases "0 \<le> k") simp_all

lemma chop_round_mono_nonneg:
  assumes "0 \<le> d" "d \<le> e"
  shows "chopPrecisionAndRound d \<le> chopPrecisionAndRound e"
proof -
  define q r q' r' where "q = d div precisionReuse" and "r = d mod precisionReuse"
    and "q' = e div precisionReuse" and "r' = e mod precisionReuse"
  have d: "d = q * precisionReuse + r" and e: "e = q' * precisionReuse + r'"
    by (simp_all add: q_def r_def q'_def r'_def)
  have r: "0 \<le> r" "r < precisionReuse" "0 \<le> r'" "r' < precisionReuse"
    by (simp_all add: r_def r'_def)
  have le: "q \<le> q'" using assms by (simp add: q_def q'_def zdiv_mono1)
  have cd: "chopPrecisionAndRound d =
      (if 2 * r < precisionReuse \<or> 2 * r = precisionReuse \<and> even q then q else q + 1)"
    using chop_round_nonneg [of d] assms by (simp add: q_def r_def Let_def)
  have ce: "chopPrecisionAndRound e =
      (if 2 * r' < precisionReuse \<or> 2 * r' = precisionReuse \<and> even q' then q' else q' + 1)"
    using chop_round_nonneg [of e] assms by (simp add: q'_def r'_def Let_def)
  show ?thesis
  proof (cases "q = q'")
    case True
    with assms(2) d e have "r \<le> r'" by simp
    with True show ?thesis by (auto simp: cd ce)
  next
    case False
    with le show ?thesis by (auto simp: cd ce)
  qed
qed

lemma half_less: "2 * x \<le> p \<Longrightarrow> 0 < p \<Longrightarrow> 0 \<le> x \<Longrightarrow> x < (p :: int)"
  by linarith

interpretation bankers: rounding chopPrecisionAndRound
proof
  show "chopPrecisionAndRound (k * precisionReuse) = k" for k by (rule chop_round_exact)
  show "\<bar>chopPrecisionAndRound d * precisionReuse - d\<bar> < precisionReuse" for d
    by (rule half_less [OF chop_round_half precisionReuse_pos abs_ge_zero])
  show "chopPrecisionAndRound d \<le> chopPrecisionAndRound e" if "d \<le> e" for d e
  proof -
    consider "0 \<le> d" | "d < 0" "0 \<le> e" | "e < 0" by linarith
    then show ?thesis
    proof cases
      case 1
      then show ?thesis using that by (rule chop_round_mono_nonneg)
    next
      case 2
      have "0 \<le> chopPrecisionAndRound (- d)" "0 \<le> chopPrecisionAndRound e"
        using chop_round_mono_nonneg [of 0 "- d"] chop_round_mono_nonneg [of 0 e]
          chop_round_exact [of 0] 2 by simp_all
      then show ?thesis by (simp add: chop_round_minus)
    next
      case 3
      then show ?thesis using chop_round_mono_nonneg [of "- e" "- d"] that
        by (simp add: chop_round_minus)
    qed
  qed
qed

lemma quo_unit: "0 < b \<Longrightarrow> \<bar>quo d b * b - d\<bar> < b"
proof (cases "0 \<le> d")
  case True
  assume b: "0 < b"
  have "d div b * b - d = - (d mod b)"
    by (simp add: minus_mult_div_eq_mod [symmetric] mult.commute)
  then show ?thesis using b True by (simp add: quo_nonneg)
next
  case False
  assume b: "0 < b"
  have "(- d) div b * b - (- d) = - ((- d) mod b)"
    by (simp add: minus_mult_div_eq_mod [symmetric] mult.commute)
  moreover have "quo d b = - ((- d) div b)"
    using quo_minus [of "- d" b] b False by (simp add: quo_nonneg)
  ultimately have "quo d b * b - d = (- d) mod b" by (simp add: algebra_simps)
  then show ?thesis using b by simp
qed

lemma quo_exact: "b \<noteq> 0 \<Longrightarrow> quo (k * b) b = k"
proof -
  assume b: "b \<noteq> 0"
  have "sgn b * sgn b = 1" using b by (simp add: sgn_if)
  then have "sgn (k * b) * sgn b = sgn k" by (simp add: sgn_mult mult.assoc)
  then have "quo (k * b) b = sgn k * \<bar>k\<bar>" using b by (simp add: quo_def abs_mult)
  then show ?thesis by (simp add: sgn_mult_abs)
qed

interpretation truncating: rounding chopPrecisionAndTruncate
  by unfold_locales (simp_all add: chopPrecisionAndTruncate_def quo_exact quo_unit quo_mono)

lemma chop_up_eq: "chopPrecisionAndRoundUp d = - ((- d) div precisionReuse)"
proof (cases "0 \<le> d")
  case True
  then show ?thesis
    by (auto simp: chopPrecisionAndRoundUp_def quo_nonneg rem_nonneg Let_def sgn_if
        zdiv_zminus1_eq_if)
next
  case False
  then show ?thesis
    by (simp add: chopPrecisionAndRoundUp_def chopPrecisionAndTruncate_def quo_nonneg sgn_if)
qed

interpretation ceiling: rounding chopPrecisionAndRoundUp
proof
  show "chopPrecisionAndRoundUp (k * precisionReuse) = k" for k
    by (simp add: chop_up_eq zdiv_zminus1_eq_if)
  show "\<bar>chopPrecisionAndRoundUp d * precisionReuse - d\<bar> < precisionReuse" for d
  proof -
    have "(- d) div precisionReuse * precisionReuse = - d - (- d) mod precisionReuse"
      by (simp add: minus_mod_eq_div_mult)
    then have "chopPrecisionAndRoundUp d * precisionReuse - d = (- d) mod precisionReuse"
      by (simp add: chop_up_eq)
    then show ?thesis by simp
  qed
  show "chopPrecisionAndRoundUp d \<le> chopPrecisionAndRoundUp e" if "d \<le> e" for d e
    using that by (simp add: chop_up_eq zdiv_mono1)
qed

section \<open>Properties of the arithmetic\<close>

text \<open>Evaluation of the operations at concrete decimals.\<close>

lemmas dec_eval = Add_def Sub_def Mul_def MulTruncate_def MulInt_def MulInt64_def Quo_def
  QuoTruncate_def QuoInt_def QuoInt64_def chopPrecisionAndTruncate_def checkOverflow_def
  fitsDec_iff chop_round_nonneg quo_nonneg rem_nonneg dec_consts precisionReuse_def Let_def

lemma Add_eq_Inr [simp]: "Add a b = Inr c \<longleftrightarrow> c = a + b \<and> fitsDec (a + b)"
  by (auto simp: Add_def)

lemma Sub_eq_Inr [simp]: "Sub a b = Inr c \<longleftrightarrow> c = a - b \<and> fitsDec (a - b)"
  by (auto simp: Sub_def)

lemma fold_Add:
  "go_fold (\<lambda>total x. Add total (g x)) s xs = Inr t \<Longrightarrow> t = s + sum_list (map g xs)"
proof (induction xs arbitrary: s)
  case (Cons a xs)
  then have "t = (s + g a) + sum_list (map g xs)" by auto
  then show ?case by simp
qed simp

lemma fitsDec_mono: "fitsDec y \<Longrightarrow> \<bar>x\<bar> \<le> \<bar>y\<bar> \<Longrightarrow> fitsDec x"
  by (simp add: fitsDec_iff)

lemma fitsDec_OneDec [simp]: "fitsDec OneDec"
  by (simp add: fitsDec_iff OneDec_def precisionReuse_def)

lemma chop_round_tie_even:
  assumes "2 * \<bar>chopPrecisionAndRound d * precisionReuse - d\<bar> = precisionReuse"
  shows "even (chopPrecisionAndRound d)"
proof -
  have nn: "even (chopPrecisionAndRound e)"
    if "0 \<le> e" "2 * \<bar>chopPrecisionAndRound e * precisionReuse - e\<bar> = precisionReuse" for e
  proof -
    define q r where "q = e div precisionReuse" and "r = e mod precisionReuse"
    have e: "e = q * precisionReuse + r" and r: "0 \<le> r" "r < precisionReuse"
      by (simp_all add: q_def r_def)
    have c: "chopPrecisionAndRound e =
        (if 2 * r < precisionReuse \<or> 2 * r = precisionReuse \<and> even q then q else q + 1)"
      using chop_round_nonneg [OF that(1)] by (simp add: q_def r_def Let_def)
    have "\<bar>q * precisionReuse - e\<bar> = r" "\<bar>(q + 1) * precisionReuse - e\<bar> = precisionReuse - r"
      using r by (simp_all add: e algebra_simps)
    then have "2 * r = precisionReuse"
      using that(2) by (auto simp: c split: if_splits)
    then show ?thesis by (simp add: c)
  qed
  show ?thesis
  proof (cases "0 \<le> d")
    case True
    then show ?thesis using nn assms by blast
  next
    case False
    have "2 * \<bar>chopPrecisionAndRound (- d) * precisionReuse - (- d)\<bar> = precisionReuse"
      using assms by (simp add: chop_round_minus abs_minus_commute)
    then show ?thesis using nn [of "- d"] False by (simp add: chop_round_minus)
  qed
qed

text \<open>A product that is returned is the exact product rounded to the nearest unit with ties to
  even, and lies in the 315-bit range; the operation is commutative.\<close>

theorem Mul_rounds_to_nearest_even:
  assumes "Mul a b = Inr c"
  shows "2 * \<bar>c * precisionReuse - a * b\<bar> \<le> precisionReuse
    \<and> (2 * \<bar>c * precisionReuse - a * b\<bar> = precisionReuse \<longrightarrow> even c)
    \<and> \<bar>c\<bar> < 2 ^ 315 \<and> Mul b a = Inr c"
proof -
  have c: "c = chopPrecisionAndRound (a * b)" and f: "fitsDec c"
    using assms by (auto simp: Mul_def)
  show ?thesis
    using chop_round_half [of "a * b"] chop_round_tie_even [of "a * b"] f assms
    by (simp add: c fitsDec_iff Mul_def mult.commute)
qed

theorem Mul_rounds_to_nearest_even_witness:
  "2 * \<bar>2 * precisionReuse - 5 * fivePrecision\<bar> \<le> precisionReuse \<and> even (2 :: int)"
proof -
  have "Mul 5 fivePrecision = Inr 2" by (simp add: dec_eval fivePrecision_def)
  from Mul_rounds_to_nearest_even [OF this] show ?thesis by simp
qed

lemma quo_abs_error: "b \<noteq> 0 \<Longrightarrow> \<bar>quo a b * b - a\<bar> < \<bar>b\<bar>"
proof (cases "0 < b")
  case True
  then show ?thesis using quo_unit [of b a] by simp
next
  case False
  assume "b \<noteq> 0"
  with False have "quo a b = - quo a (- b)" by (simp add: quo_def sgn_if)
  then show ?thesis using quo_unit [of "- b" a] \<open>b \<noteq> 0\<close> False by simp
qed

lemma Quo_error:
  assumes "Quo a b = Inr c"
  shows "b \<noteq> 0 \<and> 2 * precisionReuse * \<bar>c * b - a * precisionReuse\<bar> < \<bar>b\<bar> * (precisionReuse + 2)"
proof -
  define m where "m = a * precisionReuse * precisionReuse"
  have b: "b \<noteq> 0" and c: "c = chopPrecisionAndRound (quo m b)"
    using assms by (auto simp: Quo_def m_def Let_def split: if_splits)
  have e1: "2 * \<bar>c * precisionReuse - quo m b\<bar> \<le> precisionReuse"
    unfolding c by (rule chop_round_half)
  have e2: "\<bar>quo m b * b - m\<bar> < \<bar>b\<bar>" using b by (rule quo_abs_error)
  have "precisionReuse * (c * b - a * precisionReuse) = (c * precisionReuse - quo m b) * b + (quo m b * b - m)"
    by (simp add: m_def algebra_simps)
  then have "\<bar>precisionReuse * (c * b - a * precisionReuse)\<bar>
      \<le> \<bar>(c * precisionReuse - quo m b) * b\<bar> + \<bar>quo m b * b - m\<bar>"
    by (metis abs_triangle_ineq)
  then have "precisionReuse * \<bar>c * b - a * precisionReuse\<bar>
      \<le> \<bar>c * precisionReuse - quo m b\<bar> * \<bar>b\<bar> + \<bar>quo m b * b - m\<bar>"
    by (simp add: abs_mult)
  moreover have "2 * \<bar>c * precisionReuse - quo m b\<bar> * \<bar>b\<bar> \<le> precisionReuse * \<bar>b\<bar>"
    using e1 by (intro mult_right_mono) simp_all
  ultimately have "2 * (precisionReuse * \<bar>c * b - a * precisionReuse\<bar>) < precisionReuse * \<bar>b\<bar> + 2 * \<bar>b\<bar>"
    using e2 by linarith
  then show ?thesis using b by (simp add: algebra_simps)
qed

text \<open>A quotient that is returned multiplies back to the dividend up to half a unit of the
  divisor plus the error of the inner truncation, and a zero divisor never returns.\<close>

theorem Quo_error_bound:
  assumes "Quo a b = Inr c"
  shows "b \<noteq> 0 \<and> 2 * precisionReuse * \<bar>c * b - a * precisionReuse\<bar> < \<bar>b\<bar> * (precisionReuse + 2)"
  using assms by (rule Quo_error)

theorem Quo_error_bound_witness:
  "2 * precisionReuse * \<bar>666666666666666667 * NewDec 3 - NewDec 2 * precisionReuse\<bar>
     < \<bar>NewDec 3\<bar> * (precisionReuse + 2)"
proof -
  have "Quo (NewDec 2) (NewDec 3) = Inr 666666666666666667"
    by (simp add: dec_eval)
  from Quo_error_bound [OF this] show ?thesis by simp
qed

text \<open>\<open>Ceil\<close> is the least whole number at or above its argument, and truncation is the whole
  number next to it in the direction of zero.\<close>

theorem Ceil_and_TruncateInt:
  "\<exists>k. Ceil d = NewDecFromBigInt k \<and> d \<le> Ceil d \<and> Ceil d - d < precisionReuse
    \<and> \<bar>TruncateDec d\<bar> \<le> \<bar>d\<bar> \<and> \<bar>d\<bar> - \<bar>TruncateDec d\<bar> < precisionReuse
    \<and> TruncateDec d = NewDecFromBigInt (TruncateInt d)"
proof -
  have up: "Ceil d = NewDecFromBigInt (chopPrecisionAndRoundUp d)"
  proof (cases "0 \<le> d")
    case True
    moreover have "0 < d mod precisionReuse \<longleftrightarrow> d mod precisionReuse \<noteq> 0"
      by (metis order_less_le pos_mod_sign precisionReuse_pos)
    ultimately show ?thesis
      by (auto simp: Ceil_def chopPrecisionAndRoundUp_def quo_nonneg rem_nonneg Let_def sgn_if)
  next
    case False
    then have "rem d precisionReuse = - ((- d) mod precisionReuse)"
      "quo d precisionReuse = - ((- d) div precisionReuse)"
      using quo_minus [of "- d" precisionReuse] rem_minus [of "- d" precisionReuse]
      by (simp_all add: quo_nonneg rem_nonneg)
    moreover have "\<not> (- d) mod precisionReuse < 0"
      by (metis not_less pos_mod_sign precisionReuse_pos)
    ultimately show ?thesis using False
      by (auto simp: Ceil_def chop_up_eq Let_def sgn_if)
  qed
  have "(- d) div precisionReuse * precisionReuse = - d - (- d) mod precisionReuse"
    by (simp add: minus_mod_eq_div_mult)
  then have ceil: "Ceil d - d = (- d) mod precisionReuse"
    by (simp add: up NewDecFromBigInt_def chop_up_eq)
  have tr: "TruncateDec d = quo d precisionReuse * precisionReuse"
    by (simp add: TruncateDec_def chopPrecisionAndTruncateNonMutative_def
        chopPrecisionAndTruncate_def NewDecFromBigInt_def)
  have abs: "\<bar>TruncateDec d\<bar> = \<bar>d\<bar> div precisionReuse * precisionReuse"
    by (auto simp: tr quo_def abs_mult abs_sgn_eq pos_imp_zdiv_nonneg_iff)
  have "\<bar>d\<bar> - \<bar>TruncateDec d\<bar> = \<bar>d\<bar> mod precisionReuse"
    by (simp add: abs minus_div_mult_eq_mod)
  moreover have "0 \<le> \<bar>d\<bar> mod precisionReuse" "\<bar>d\<bar> mod precisionReuse < precisionReuse"
    "0 \<le> (- d) mod precisionReuse" "(- d) mod precisionReuse < precisionReuse" by simp_all
  moreover have "TruncateDec d = NewDecFromBigInt (TruncateInt d)"
    by (simp add: TruncateDec_def TruncateInt_def)
  ultimately show ?thesis using ceil up
    by (intro exI [of _ "chopPrecisionAndRoundUp d"] conjI) linarith+
qed

end
