(* ===== verification/BlsMask.thy ===== *)
theory BlsMask
  imports Prelude
begin

unbundle bit_operations_syntax

text \<open>
  Participation bitmasks: \<open>crypto/bls/mask.go\<close>, the key types and \<open>SeparateSigAndMask\<close> of
  \<open>crypto/bls/bls.go\<close>, and the bit counting of \<open>internal/utils/bytes.go\<close>. The BLS library is
  not part of the repository: its public keys are a type parameter \<open>'pk\<close> with the three
  operations the code calls, the neutral key, \<open>Add\<close> and \<open>Sub\<close>, as the argument \<open>ops\<close>.
\<close>

section \<open>Data\<close>

definition PublicKeySizeInBytes :: nat where "PublicKeySizeInBytes = 48"
definition BLSSignatureSizeInBytes :: nat where "BLSSignatureSizeInBytes = 96"

record 'pk pk_ops =
  pkZero :: 'pk
  pkAdd :: "'pk \<Rightarrow> 'pk \<Rightarrow> 'pk"
  pkSub :: "'pk \<Rightarrow> 'pk \<Rightarrow> 'pk"

record 'pk PublicKeyWrapper =
  Bytes :: SerializedPublicKey
  Object :: 'pk

record 'pk Mask =
  Bitmap :: "uint8 list"
  Publics :: "'pk PublicKeyWrapper list"
  PublicsIndex :: "(SerializedPublicKey \<times> nat) list"
  AggregatePublic :: 'pk

text \<open>What the code relies on of the library's key addition: it is an abelian group.\<close>

definition pk_group :: "'pk pk_ops \<Rightarrow> bool" where
  "pk_group ops \<longleftrightarrow>
     (\<forall>a b c. pkAdd ops (pkAdd ops a b) c = pkAdd ops a (pkAdd ops b c)) \<and>
     (\<forall>a b. pkAdd ops a b = pkAdd ops b a) \<and>
     (\<forall>a. pkAdd ops (pkZero ops) a = a) \<and>
     (\<forall>a b. pkSub ops (pkAdd ops a b) b = a)"

section \<open>Operations\<close>

definition AggregateSig :: "'sig \<Rightarrow> ('sig \<Rightarrow> 'sig \<Rightarrow> 'sig) \<Rightarrow> 'sig list \<Rightarrow> 'sig" where
  "AggregateSig zero add sigs = foldl add zero sigs"

definition Mask_Len :: "'pk Mask \<Rightarrow> nat" where
  "Mask_Len m = drop_bit 3 (length (Publics m) + 7)"

definition publics_index :: "'pk PublicKeyWrapper list \<Rightarrow> (SerializedPublicKey \<times> nat) list" where
  "publics_index publics =
     fold (\<lambda>(i, key) index. AList.update (Bytes key) i index) (enumerate 0 publics) []"

definition NewMask :: "'pk pk_ops \<Rightarrow> 'pk PublicKeyWrapper list \<Rightarrow> 'pk Mask" where
  "NewMask ops publics =
     \<lparr>Bitmap = replicate (drop_bit 3 (length publics + 7)) 0, Publics = publics,
      PublicsIndex = publics_index publics, AggregatePublic = pkZero ops\<rparr>"

definition Mask_Clear :: "'pk pk_ops \<Rightarrow> 'pk Mask \<Rightarrow> 'pk Mask" where
  "Mask_Clear ops m = m\<lparr>Bitmap := replicate (Mask_Len m) 0, AggregatePublic := pkZero ops\<rparr>"

definition Mask_Mask :: "'pk Mask \<Rightarrow> uint8 list" where
  "Mask_Mask m = Bitmap m"

definition byte_at :: "uint8 list \<Rightarrow> int \<Rightarrow> uint8 go" where
  "byte_at bs byt = (if 0 \<le> byt \<and> byt < int (length bs) then Inr (bs ! nat byt)
     else Inl (Panic ''index out of range''))"

definition bit_mask :: "int \<Rightarrow> uint8" where
  "bit_mask i = push_bit (nat (i AND 7)) 1"

definition SetBit :: "'pk pk_ops \<Rightarrow> 'pk Mask \<Rightarrow> int \<Rightarrow> bool \<Rightarrow> 'pk Mask go" where
  "SetBit ops m i enable =
     (if i \<ge> int (length (Publics m)) then Inl (Error ''index out of range'')
      else
        let byt = drop_bit 3 i; msk = bit_mask i
        in go_bind (byte_at (Bitmap m) byt) (\<lambda>b.
             let m1 = (if b AND msk = 0 \<and> enable
                       then m\<lparr>Bitmap := (Bitmap m)[nat byt := b XOR msk],
                              AggregatePublic := pkAdd ops (AggregatePublic m) (Object (Publics m ! nat i))\<rparr>
                       else m)
             in go_bind (byte_at (Bitmap m1) byt) (\<lambda>b1.
                  Inr (if b1 AND msk \<noteq> 0 \<and> \<not> enable
                       then m1\<lparr>Bitmap := (Bitmap m1)[nat byt := b1 XOR msk],
                               AggregatePublic := pkSub ops (AggregatePublic m1) (Object (Publics m1 ! nat i))\<rparr>
                       else m1))))"

definition SetMask_step :: "'pk pk_ops \<Rightarrow> uint8 list \<Rightarrow> 'pk Mask \<Rightarrow> nat \<Rightarrow> 'pk Mask go" where
  "SetMask_step ops mbytes m i =
     (let byt = drop_bit 3 (int i); msk = bit_mask (int i)
      in go_bind (byte_at (Bitmap m) byt) (\<lambda>b.
         go_bind (byte_at mbytes byt) (\<lambda>want.
           let m1 = (if b AND msk = 0 \<and> want AND msk \<noteq> 0
                     then m\<lparr>Bitmap := (Bitmap m)[nat byt := b XOR msk],
                            AggregatePublic := pkAdd ops (AggregatePublic m) (Object (Publics m ! i))\<rparr>
                     else m)
           in go_bind (byte_at (Bitmap m1) byt) (\<lambda>b1.
                Inr (if b1 AND msk \<noteq> 0 \<and> want AND msk = 0
                     then m1\<lparr>Bitmap := (Bitmap m1)[nat byt := b1 XOR msk],
                             AggregatePublic := pkSub ops (AggregatePublic m1) (Object (Publics m1 ! i))\<rparr>
                     else m1)))))"

definition SetMask :: "'pk pk_ops \<Rightarrow> 'pk Mask \<Rightarrow> uint8 list \<Rightarrow> 'pk Mask go" where
  "SetMask ops m mbytes =
     (if Mask_Len m \<noteq> length mbytes then Inl (Error ''mismatching bitmap lengths'')
      else go_fold (SetMask_step ops mbytes) m [0..<length (Publics m)])"

definition IndexEnabled :: "'pk Mask \<Rightarrow> int \<Rightarrow> bool go" where
  "IndexEnabled m i =
     (if i \<ge> int (length (Publics m)) then Inl (Error ''index out of range'')
      else go_bind (byte_at (Bitmap m) (drop_bit 3 i)) (\<lambda>b. Inr (b AND bit_mask i \<noteq> 0)))"

definition KeyEnabled :: "'pk Mask \<Rightarrow> SerializedPublicKey \<Rightarrow> bool go" where
  "KeyEnabled m public =
     (case map_of (PublicsIndex m) public of
        Some i \<Rightarrow> IndexEnabled m (int i)
      | None \<Rightarrow> Inl (Error ''key not found''))"

definition SetKey :: "'pk pk_ops \<Rightarrow> 'pk Mask \<Rightarrow> SerializedPublicKey \<Rightarrow> bool \<Rightarrow> 'pk Mask go" where
  "SetKey ops m public enable =
     (case map_of (PublicsIndex m) public of
        Some i \<Rightarrow> SetBit ops m (int i) enable
      | None \<Rightarrow> Inl (Error ''key not found''))"

definition SetKeysAtomic ::
  "'pk pk_ops \<Rightarrow> 'pk Mask \<Rightarrow> 'pk PublicKeyWrapper list \<Rightarrow> bool \<Rightarrow> 'pk Mask go" where
  "SetKeysAtomic ops m publics enable =
     go_bind (go_map (\<lambda>key. case map_of (PublicsIndex m) (Bytes key) of
                        None \<Rightarrow> Inl (Error ''key not found'') | Some i \<Rightarrow> Inr i) publics)
       (\<lambda>indexes. go_fold (\<lambda>m index. SetBit ops m (int index) enable) m indexes)"

definition GetPubKeyFromMask :: "'pk Mask \<Rightarrow> bool \<Rightarrow> 'pk list go" where
  "GetPubKeyFromMask m flag =
     go_fold (\<lambda>pubKeys i.
        go_bind (byte_at (Bitmap m) (drop_bit 3 (int i))) (\<lambda>b.
          Inr (if flag
               then (if b AND bit_mask (int i) \<noteq> 0 then pubKeys @ [Object (Publics m ! i)] else pubKeys)
               else (if b AND bit_mask (int i) = 0 then pubKeys @ [Object (Publics m ! i)] else pubKeys))))
       [] [0..<length (Publics m)]"

definition GetSignedPubKeysFromBitmap :: "'pk Mask \<Rightarrow> uint8 list \<Rightarrow> 'pk PublicKeyWrapper list go" where
  "GetSignedPubKeysFromBitmap m bitmap =
     (if Mask_Len m \<noteq> length bitmap then Inl (Error ''mismatching bitmap lengths'')
      else go_fold (\<lambda>pubKeys i.
             go_bind (byte_at bitmap (drop_bit 3 (int i))) (\<lambda>b.
               Inr (if b AND bit_mask (int i) \<noteq> 0 then pubKeys @ [Publics m ! i] else pubKeys)))
            [] [0..<length (Publics m)])"

definition CountEnabled :: "'pk Mask \<Rightarrow> nat go" where
  "CountEnabled m =
     go_fold (\<lambda>hw i.
        go_bind (byte_at (Bitmap m) (drop_bit 3 (int i))) (\<lambda>b.
          Inr (if b AND bit_mask (int i) \<noteq> 0 then hw + 1 else hw)))
       0 [0..<length (Publics m)]"

definition CountTotal :: "'pk Mask \<Rightarrow> nat" where
  "CountTotal m = length (Publics m)"

definition AggregateMasks :: "uint8 list \<Rightarrow> uint8 list \<Rightarrow> uint8 list go" where
  "AggregateMasks a b =
     (if length a \<noteq> length b then Inl (Error ''mismatching Bitmap lengths'')
      else Inr (map2 (\<lambda>x y. x OR y) a b))"

definition CompletePolicy_Check :: "'pk Mask \<Rightarrow> bool go" where
  "CompletePolicy_Check m = go_bind (CountEnabled m) (\<lambda>c. Inr (c = CountTotal m))"

definition ThresholdPolicy_Check :: "int \<Rightarrow> 'pk Mask \<Rightarrow> bool go" where
  "ThresholdPolicy_Check thold m = go_bind (CountEnabled m) (\<lambda>c. Inr (int c \<ge> thold))"

definition SeparateSigAndMask :: "uint8 list \<Rightarrow> (uint8 list \<times> uint8 list) go" where
  "SeparateSigAndMask commitSigs =
     (if length commitSigs < BLSSignatureSizeInBytes then Inl (Error ''no mbytes data found in commit sigs'')
      else Inr (take BLSSignatureSizeInBytes commitSigs, drop BLSSignatureSizeInBytes commitSigs))"

definition halfByteLookup :: "nat list" where
  "halfByteLookup = [0, 1, 1, 2, 1, 2, 2, 3, 1, 2, 2, 3, 2, 3, 3, 4]"

definition countOneBitsInByte :: "uint8 \<Rightarrow> nat" where
  "countOneBitsInByte by =
     halfByteLookup ! unat (by AND 15) + halfByteLookup ! unat (drop_bit 4 by)"

definition CountOneBits :: "uint8 list \<Rightarrow> int" where
  "CountOneBits arr = int (sum_list (map countOneBitsInByte arr))"

section \<open>Bits of a bitmap\<close>

definition bit_at :: "uint8 list \<Rightarrow> nat \<Rightarrow> bool" where
  "bit_at bs i \<longleftrightarrow> bit (bs ! (i div 8)) (i mod 8)"

lemma drop3_int [simp]: "drop_bit 3 (int i) = int (i div 8)"
  by (simp add: drop_bit_eq_div zdiv_int)

lemma and7_int: "nat (int i AND 7) = i mod 8"
proof -
  have "int i AND 7 = int i mod 8"
    using take_bit_eq_mask [of 3 "int i"] by (simp add: take_bit_eq_mod mask_eq_exp_minus_1)
  then show ?thesis by (simp add: nat_mod_as_int)
qed

lemma bit_mask_int: "bit_mask (int i) = push_bit (i mod 8) 1"
  by (simp add: bit_mask_def and7_int)

lemma and_bit_mask [simp]: "b AND bit_mask (int i) = 0 \<longleftrightarrow> \<not> bit b (i mod 8)"
  by (simp add: bit_mask_int bit_iff_and_push_bit_not_eq_0)

lemma byte_at_ok [simp]: "j < length bs \<Longrightarrow> byte_at bs (int j) = Inr (bs ! j)"
  by (simp add: byte_at_def)

lemma bit_xor_mask: "k < 8 \<Longrightarrow> bit (b XOR bit_mask (int i)) k \<longleftrightarrow> (bit b k \<noteq> (k = i mod 8))"
  by (auto simp: bit_mask_int bit_xor_iff bit_exp_iff)

lemma bit_at_flip:
  assumes "i div 8 < length bs" "j div 8 < length bs"
  shows "bit_at (bs[i div 8 := bs ! (i div 8) XOR bit_mask (int i)]) j \<longleftrightarrow> (bit_at bs j \<noteq> (j = i))"
proof (cases "j div 8 = i div 8")
  case True
  then have "j = i \<longleftrightarrow> j mod 8 = i mod 8" by (metis mod_div_decomp)
  then show ?thesis using True assms by (simp add: bit_at_def bit_xor_mask)
next
  case False
  then show ?thesis using assms by (auto simp: bit_at_def)
qed

lemma Mask_Len_bounds:
  "i < length (Publics m) \<Longrightarrow> i div 8 < Mask_Len m"
  by (simp add: Mask_Len_def drop_bit_eq_div)

section \<open>The aggregate of the enabled keys\<close>

definition aggregate :: "'pk pk_ops \<Rightarrow> (nat \<Rightarrow> bool) \<Rightarrow> 'pk list \<Rightarrow> nat list \<Rightarrow> 'pk" where
  "aggregate ops en ks is = foldr (\<lambda>i acc. if en i then pkAdd ops acc (ks ! i) else acc) is (pkZero ops)"

lemma aggregate_cong: "(\<And>i. i \<in> set is \<Longrightarrow> en i = en' i) \<Longrightarrow> aggregate ops en ks is = aggregate ops en' ks is"
  by (induction "is") (simp_all add: aggregate_def)

lemma pk_swap: "pk_group ops \<Longrightarrow> pkAdd ops (pkAdd ops a b) c = pkAdd ops (pkAdd ops a c) b"
  unfolding pk_group_def by metis

lemma pk_cancel: "pk_group ops \<Longrightarrow> pkSub ops (pkAdd ops a b) b = a"
  unfolding pk_group_def by metis

lemma aggregate_enable:
  assumes "pk_group ops" "distinct is" "i \<in> set is" "\<not> en i"
  shows "aggregate ops (en(i := True)) ks is = pkAdd ops (aggregate ops en ks is) (ks ! i)"
  using assms(2,3)
proof (induction "is")
  case Nil
  then show ?case by simp
next
  case (Cons j js)
  show ?case
  proof (cases "j = i")
    case True
    with Cons.prems have "aggregate ops (en(i := True)) ks js = aggregate ops en ks js"
      by (intro aggregate_cong) auto
    with True assms(4) show ?thesis by (simp add: aggregate_def)
  next
    case False
    with Cons have IH: "aggregate ops (en(i := True)) ks js = pkAdd ops (aggregate ops en ks js) (ks ! i)"
      by (simp del: fun_upd_apply)
    show ?thesis
    proof (cases "en j")
      case True
      with False IH show ?thesis
        using pk_swap [OF assms(1), of "aggregate ops en ks js" "ks ! i" "ks ! j"]
        by (simp add: aggregate_def)
    next
      case en: False
      with False IH show ?thesis by (simp add: aggregate_def)
    qed
  qed
qed

lemma aggregate_disable:
  assumes "pk_group ops" "distinct is" "i \<in> set is" "en i"
  shows "aggregate ops (en(i := False)) ks is = pkSub ops (aggregate ops en ks is) (ks ! i)"
proof -
  have "aggregate ops en ks is = pkAdd ops (aggregate ops (en(i := False)) ks is) (ks ! i)"
    using aggregate_enable [of ops "is" i "en(i := False)" ks] assms by (simp add: fun_upd_idem)
  then show ?thesis by (simp only: pk_cancel [OF assms(1)])
qed

section \<open>Invariant\<close>

text \<open>
  The bitmap has the length of the committee in bytes, its padding bits are clear, and the
  aggregate key is the sum of the enabled keys.
\<close>

definition mask_ok :: "'pk pk_ops \<Rightarrow> 'pk Mask \<Rightarrow> bool" where
  "mask_ok ops m \<longleftrightarrow> pk_group ops \<and> length (Bitmap m) = Mask_Len m
     \<and> (\<forall>j. length (Publics m) \<le> j \<and> j div 8 < Mask_Len m \<longrightarrow> \<not> bit_at (Bitmap m) j)
     \<and> (\<forall>i \<in> ran (map_of (PublicsIndex m)). i < length (Publics m))
     \<and> AggregatePublic m =
         aggregate ops (bit_at (Bitmap m)) (map Object (Publics m)) [0..<length (Publics m)]"

definition enabled :: "'pk Mask \<Rightarrow> nat set" where
  "enabled m = {i. i < length (Publics m) \<and> bit_at (Bitmap m) i}"

definition same_keys :: "'pk Mask \<Rightarrow> 'pk Mask \<Rightarrow> bool" where
  "same_keys m m' \<longleftrightarrow> Publics m' = Publics m \<and> PublicsIndex m' = PublicsIndex m"

lemma publics_index_snoc:
  "map_of (publics_index (ks @ [key])) = (map_of (publics_index ks))(Bytes key \<mapsto> length ks)"
  by (simp add: publics_index_def enumerate_append_eq update_conv')

lemma publics_index_bound: "map_of (publics_index ks) k = Some i \<Longrightarrow> i < length ks \<and> Bytes (ks ! i) = k"
proof (induction ks rule: rev_induct)
  case Nil
  then show ?case by (simp add: publics_index_def)
next
  case (snoc key ks)
  then show ?case by (auto simp: publics_index_snoc nth_append split: if_splits)
qed

lemma publics_index_mem: "map_of (publics_index ks) k = None \<longleftrightarrow> k \<notin> Bytes ` set ks"
proof (induction ks rule: rev_induct)
  case Nil
  then show ?case by (simp add: publics_index_def)
next
  case (snoc key ks)
  then show ?case by (auto simp: publics_index_snoc)
qed

lemma NewMask_ok: "pk_group ops \<Longrightarrow> mask_ok ops (NewMask ops publics)"
proof -
  have "aggregate ops (\<lambda>i. False) ks is = pkZero ops" for ks "is"
    by (induction "is") (simp_all add: aggregate_def)
  moreover have "aggregate ops (bit_at (replicate (Mask_Len (NewMask ops publics)) 0)) ks [0..<length publics]
     = aggregate ops (\<lambda>i. False) ks [0..<length publics]" for ks
    using Mask_Len_bounds [of _ "NewMask ops publics"]
    by (intro aggregate_cong) (simp add: bit_at_def NewMask_def)
  ultimately show "pk_group ops \<Longrightarrow> mask_ok ops (NewMask ops publics)"
    using publics_index_bound [of publics]
    by (fastforce simp: mask_ok_def NewMask_def Mask_Len_def bit_at_def ran_def)
qed

lemma NewMask_enabled: "enabled (NewMask ops publics) = {}"
  using Mask_Len_bounds [of _ "NewMask ops publics"]
  by (auto simp: enabled_def NewMask_def bit_at_def Mask_Len_def)

lemma SetBit_eq:
  assumes "length (Bitmap m) = Mask_Len m" "i < length (Publics m)"
  shows "SetBit ops m (int i) enable =
    Inr (if bit_at (Bitmap m) i = enable then m
         else m\<lparr>Bitmap := (Bitmap m)[i div 8 := Bitmap m ! (i div 8) XOR bit_mask (int i)],
                AggregatePublic := (if enable then pkAdd ops else pkSub ops) (AggregatePublic m)
                                     (Object (Publics m ! i))\<rparr>)"
proof -
  have "i div 8 < length (Bitmap m)" using assms Mask_Len_bounds [of i m] by simp
  then show ?thesis using assms(2)
    by (auto simp: SetBit_def Let_def bit_at_def bit_xor_mask)
qed

lemma SetBit_ok:
  assumes "mask_ok ops m" "i < length (Publics m)"
  shows "\<exists>m'. SetBit ops m (int i) enable = Inr m' \<and> mask_ok ops m' \<and> same_keys m m'
    \<and> enabled m' = (if enable then insert i (enabled m) else enabled m - {i})"
proof (cases "bit_at (Bitmap m) i = enable")
  case True
  then show ?thesis using assms
    by (intro exI [of _ m]) (auto simp: SetBit_eq mask_ok_def same_keys_def enabled_def)
next
  case False
  define bm where "bm = (Bitmap m)[i div 8 := Bitmap m ! (i div 8) XOR bit_mask (int i)]"
  define m' where "m' = m\<lparr>Bitmap := bm,
      AggregatePublic := (if enable then pkAdd ops else pkSub ops) (AggregatePublic m) (Object (Publics m ! i))\<rparr>"
  have len: "length (Bitmap m) = Mask_Len m" using assms by (simp add: mask_ok_def)
  have run: "SetBit ops m (int i) enable = Inr m'"
    using False assms len by (simp add: SetBit_eq m'_def bm_def)
  have bits: "bit_at bm j = ((bit_at (Bitmap m))(i := enable)) j" if "j div 8 < Mask_Len m" for j
    using bit_at_flip [of i "Bitmap m" j] that False assms len Mask_Len_bounds [of i m]
    by (auto simp: bm_def)
  have bits': "bit_at bm j = (if j = i then enable else bit_at (Bitmap m) j)" if "j < length (Publics m)" for j
    using bits [OF Mask_Len_bounds [OF that]] by simp
  let ?n = "[0..<length (Publics m)]"
  have "aggregate ops (bit_at bm) (map Object (Publics m)) ?n
      = aggregate ops ((bit_at (Bitmap m))(i := enable)) (map Object (Publics m)) ?n"
    using bits' by (intro aggregate_cong) auto
  also have "\<dots> = AggregatePublic m'"
    using aggregate_enable [of ops ?n i "bit_at (Bitmap m)" "map Object (Publics m)"]
      aggregate_disable [of ops ?n i "bit_at (Bitmap m)" "map Object (Publics m)"] assms False
    by (cases enable) (auto simp: m'_def mask_ok_def)
  finally have agg: "AggregatePublic m' = aggregate ops (bit_at bm) (map Object (Publics m)) ?n" by simp
  have "mask_ok ops m'"
    using assms agg bits by (auto simp: mask_ok_def m'_def Mask_Len_def bm_def)
  moreover have "enabled m' = (if enable then insert i (enabled m) else enabled m - {i})"
    using bits' assms(2) by (auto simp: enabled_def m'_def split: if_splits)
  ultimately show ?thesis using run by (auto simp: same_keys_def m'_def)
qed

section \<open>The mask as a set of cosigners\<close>

text \<open>
  The contract the callers of a mask rely on: setting one bit changes membership of that index
  alone and keeps the invariant. Loops over indices follow from it once.
\<close>

locale cosigner_set =
  fixes invar :: "'m \<Rightarrow> bool" and members :: "'m \<Rightarrow> nat set" and size :: "'m \<Rightarrow> nat"
    and same :: "'m \<Rightarrow> 'm \<Rightarrow> bool" and set_member :: "'m \<Rightarrow> nat \<Rightarrow> bool \<Rightarrow> 'm go"
  assumes set_member_ok: "invar m \<Longrightarrow> i < size m \<Longrightarrow>
      \<exists>m'. set_member m i e = Inr m' \<and> invar m' \<and> same m m'
        \<and> members m' = (if e then insert i (members m) else members m - {i})"
    and same_refl: "same m m"
    and same_trans: "same m m' \<Longrightarrow> same m' m'' \<Longrightarrow> same m m''"
    and same_size: "same m m' \<Longrightarrow> size m' = size m"
begin

lemma set_members_ok:
  assumes "invar m" "\<forall>i \<in> set is. i < size m"
  shows "\<exists>m'. go_fold (\<lambda>m i. set_member m i (v i)) m is = Inr m' \<and> invar m' \<and> same m m'
    \<and> members m' = (members m - set is) \<union> {i \<in> set is. v i}"
  using assms
proof (induction "is" arbitrary: m)
  case Nil
  then show ?case by (simp add: same_refl)
next
  case (Cons i js)
  obtain m1 where m1: "set_member m i (v i) = Inr m1" "invar m1" "same m m1"
      "members m1 = (if v i then insert i (members m) else members m - {i})"
    using set_member_ok [of m i "v i"] Cons.prems by auto
  have "\<forall>k \<in> set js. k < size m1" using Cons.prems(2) same_size [OF m1(3)] by simp
  from Cons.IH [OF m1(2) this] obtain m2 where m2:
      "go_fold (\<lambda>m i. set_member m i (v i)) m1 js = Inr m2" "invar m2" "same m1 m2"
      "members m2 = (members m1 - set js) \<union> {k \<in> set js. v k}"
    by auto
  have "members m2 = (members m - set (i # js)) \<union> {k \<in> set (i # js). v k}"
    using m1(4) m2(4) by auto
  then show ?case using m1 m2 same_trans by (intro exI [of _ m2]) auto
qed

end

interpretation maskset: cosigner_set "mask_ok ops" enabled "\<lambda>m. length (Publics m)" same_keys
  "\<lambda>m i e. SetBit ops m (int i) e" for ops
proof
  show "mask_ok ops m \<Longrightarrow> i < length (Publics m) \<Longrightarrow>
      \<exists>m'. SetBit ops m (int i) e = Inr m' \<and> mask_ok ops m' \<and> same_keys m m'
        \<and> enabled m' = (if e then insert i (enabled m) else enabled m - {i})" for m :: "'a Mask" and i e
    by (rule SetBit_ok)
qed (simp_all add: same_keys_def)

lemma SetMask_step_SetBit:
  assumes "length (Bitmap m) = Mask_Len m" "length mbytes = Mask_Len m" "i < length (Publics m)"
  shows "SetMask_step ops mbytes m i = SetBit ops m (int i) (bit_at mbytes i)"
proof -
  have "i div 8 < length (Bitmap m)" "i div 8 < length mbytes"
    using assms Mask_Len_bounds [of i m] by simp_all
  then show ?thesis using assms
    by (auto simp: SetMask_step_def SetBit_def Let_def bit_at_def bit_xor_mask)
qed

lemma SetMask_fold:
  assumes "mask_ok ops m" "length mbytes = Mask_Len m" "\<forall>i \<in> set is. i < length (Publics m)"
  shows "go_fold (SetMask_step ops mbytes) m is = go_fold (\<lambda>m i. SetBit ops m (int i) (bit_at mbytes i)) m is"
  using assms
proof (induction "is" arbitrary: m)
  case Nil
  then show ?case by simp
next
  case (Cons i js)
  have eq: "SetMask_step ops mbytes m i = SetBit ops m (int i) (bit_at mbytes i)"
    using Cons.prems by (intro SetMask_step_SetBit) (simp_all add: mask_ok_def)
  obtain m1 where m1: "SetBit ops m (int i) (bit_at mbytes i) = Inr m1" "mask_ok ops m1" "same_keys m m1"
    using SetBit_ok [of ops m i "bit_at mbytes i"] Cons.prems by auto
  then have "Mask_Len m1 = Mask_Len m" "Publics m1 = Publics m"
    by (simp_all add: same_keys_def Mask_Len_def)
  then show ?case using Cons.IH [OF m1(2)] Cons.prems eq m1(1) by simp
qed

lemma SetMask_ok:
  assumes "mask_ok ops m" and "length mbytes = Mask_Len m"
  shows "\<exists>m'. SetMask ops m mbytes = Inr m' \<and> mask_ok ops m' \<and> same_keys m m'
      \<and> enabled m' = {i. i < length (Publics m) \<and> bit_at mbytes i}"
proof -
  let ?n = "[0..<length (Publics m)]"
  have eq: "SetMask ops m mbytes = go_fold (\<lambda>m i. SetBit ops m (int i) (bit_at mbytes i)) m ?n"
    using SetMask_fold [OF assms, of ?n] assms(2) by (simp add: SetMask_def)
  obtain m' where m': "go_fold (\<lambda>m i. SetBit ops m (int i) (bit_at mbytes i)) m ?n = Inr m'"
      "mask_ok ops m'" "same_keys m m'" "enabled m' = (enabled m - set ?n) \<union> {i \<in> set ?n. bit_at mbytes i}"
    using maskset.set_members_ok [OF assms(1), of ?n "bit_at mbytes"] by auto
  have en: "enabled m' = {i. i < length (Publics m) \<and> bit_at mbytes i}"
    unfolding m'(4) by (auto simp: enabled_def)
  show ?thesis using eq m'(1-3) en by (intro exI [of _ m'] conjI) simp_all
qed

lemma IndexEnabled_ok:
  "mask_ok ops m \<Longrightarrow> i < length (Publics m) \<Longrightarrow> IndexEnabled m (int i) = Inr (i \<in> enabled m)"
  using Mask_Len_bounds [of i m]
  by (auto simp: IndexEnabled_def mask_ok_def enabled_def bit_at_def)

section \<open>Properties\<close>

text \<open>Setting a bitmap of the right length on a mask in order always succeeds and leaves a mask
  in order whose enabled cosigners are exactly the bits of the bitmap that name a cosigner, with
  the aggregate key the sum of their keys; padding bits of the input are ignored. A bitmap of
  another length is refused.\<close>

theorem SetMask_correct:
  assumes "mask_ok ops m"
  shows "if length mbytes = Mask_Len m
    then \<exists>m'. SetMask ops m mbytes = Inr m' \<and> mask_ok ops m' \<and> same_keys m m'
      \<and> enabled m' = {i. i < length (Publics m) \<and> bit_at mbytes i}
    else SetMask ops m mbytes = Inl (Error ''mismatching bitmap lengths'')"
  using SetMask_ok [OF assms] by (simp add: SetMask_def)

definition int_ops :: "int pk_ops" where
  "int_ops = \<lparr>pkZero = 0, pkAdd = (+), pkSub = (-)\<rparr>"

lemma int_ops_group: "pk_group int_ops"
  by (simp add: pk_group_def int_ops_def)

definition sample_keys :: "int PublicKeyWrapper list" where
  "sample_keys = map (\<lambda>k. \<lparr>Bytes = word_of_int k, Object = k\<rparr>) [1..9]"

theorem SetMask_correct_witness:
  "\<exists>m'. SetMask int_ops (NewMask int_ops sample_keys) [255, 255] = Inr m' \<and> mask_ok int_ops m'
    \<and> same_keys (NewMask int_ops sample_keys) m'
    \<and> enabled m' = {i. i < 9 \<and> bit_at [255, 255] i}"
  using SetMask_correct [OF NewMask_ok [OF int_ops_group, of sample_keys], of "[255, 255]"]
  by (simp add: Mask_Len_def NewMask_def sample_keys_def)

definition keyIndex :: "'pk Mask \<Rightarrow> 'pk PublicKeyWrapper \<Rightarrow> nat option" where
  "keyIndex m key = map_of (PublicsIndex m) (Bytes key)"

lemma SetKeysAtomic_indexes:
  "go_map (\<lambda>key. case map_of (PublicsIndex m) (Bytes key) of
      None \<Rightarrow> Inl (Error ''key not found'') | Some i \<Rightarrow> Inr i) ks =
   (if None \<in> keyIndex m ` set ks then Inl (Error ''key not found'')
    else Inr (map (the \<circ> keyIndex m) ks))"
  by (induction ks) (auto simp: keyIndex_def split: option.splits)

text \<open>Enabling or disabling a list of keys is all or nothing: it fails, changing nothing, as soon
  as one key is unknown, and otherwise exactly the cosigners of those keys change.\<close>

theorem SetKeysAtomic_correct:
  assumes "mask_ok ops m"
  shows "if None \<in> keyIndex m ` set publics
    then SetKeysAtomic ops m publics enable = Inl (Error ''key not found'')
    else \<exists>m'. SetKeysAtomic ops m publics enable = Inr m' \<and> mask_ok ops m' \<and> same_keys m m'
      \<and> enabled m' = (if enable then enabled m \<union> (the \<circ> keyIndex m) ` set publics
                      else enabled m - (the \<circ> keyIndex m) ` set publics)"
proof (cases "None \<in> keyIndex m ` set publics")
  case True
  then show ?thesis by (simp add: SetKeysAtomic_def SetKeysAtomic_indexes)
next
  case False
  let ?js = "map (the \<circ> keyIndex m) publics"
  have "the (keyIndex m key) < length (Publics m)" if "key \<in> set publics" for key
  proof -
    obtain i where "keyIndex m key = Some i" using False \<open>key \<in> set publics\<close> by force
    then show ?thesis using assms by (auto simp: mask_ok_def keyIndex_def ran_def)
  qed
  then have "\<forall>i \<in> set ?js. i < length (Publics m)" by auto
  from maskset.set_members_ok [OF assms this, of "\<lambda>_. enable"]
  obtain m' where m': "go_fold (\<lambda>m i. SetBit ops m (int i) enable) m ?js = Inr m'" "mask_ok ops m'"
      "same_keys m m'" "enabled m' = (enabled m - set ?js) \<union> {i \<in> set ?js. enable}"
    by auto
  have "SetKeysAtomic ops m publics enable = Inr m'"
    using False m'(1) by (simp add: SetKeysAtomic_def SetKeysAtomic_indexes)
  moreover have "enabled m' = (if enable then enabled m \<union> (the \<circ> keyIndex m) ` set publics
      else enabled m - (the \<circ> keyIndex m) ` set publics)"
    unfolding m'(4) by auto
  ultimately show ?thesis unfolding if_not_P [OF False] using m'(2,3) by blast
qed

theorem SetKeysAtomic_correct_witness:
  "let m = NewMask int_ops sample_keys
   in \<exists>m'. SetKeysAtomic int_ops m [hd sample_keys] True = Inr m' \<and> mask_ok int_ops m' \<and> same_keys m m'
      \<and> enabled m' = enabled m \<union> (the \<circ> keyIndex m) ` {hd sample_keys}"
proof -
  have "None \<notin> keyIndex (NewMask int_ops sample_keys) ` set [hd sample_keys]"
    using publics_index_mem [of sample_keys "Bytes (hd sample_keys)"]
    by (auto simp: keyIndex_def NewMask_def sample_keys_def upto_rec1)
  then show ?thesis
    using SetKeysAtomic_correct [OF NewMask_ok [OF int_ops_group, of sample_keys], of "[hd sample_keys]" True]
    by (simp add: Let_def)
qed

section \<open>Counting\<close>

lemma count_loop:
  assumes "length bs = Mask_Len m" "n \<le> length (Publics m)"
  shows "go_fold (\<lambda>hw i. go_bind (byte_at bs (drop_bit 3 (int i))) (\<lambda>b.
      Inr (if b AND bit_mask (int i) \<noteq> 0 then hw + 1 else hw))) (0 :: nat) [0..<n]
    = Inr (card {i. i < n \<and> bit_at bs i})"
  using assms(2)
proof (induction n)
  case 0
  then show ?case by simp
next
  case (Suc n)
  have "n div 8 < length bs" using Suc.prems assms Mask_Len_bounds [of n m] by simp
  moreover have "{i. i < Suc n \<and> bit_at bs i}
      = {i. i < n \<and> bit_at bs i} \<union> (if bit_at bs n then {n} else {})"
    by (auto simp: less_Suc_eq)
  ultimately show ?case using Suc by (simp add: go_fold_append bit_at_def [of bs n])
qed

text \<open>The counter of enabled cosigners returns the number of distinct enabled indices, and the
  complete and threshold policies hold exactly when everyone, or at least the threshold number,
  has signed.\<close>

theorem CountEnabled_policies:
  assumes "mask_ok ops m"
  shows "CountEnabled m = Inr (card (enabled m))
    \<and> CompletePolicy_Check m = Inr (enabled m = {0..<CountTotal m})
    \<and> ThresholdPolicy_Check t m = Inr (t \<le> int (card (enabled m)))"
proof -
  have c: "CountEnabled m = Inr (card (enabled m))"
    using count_loop [of "Bitmap m" m "length (Publics m)"] assms
    by (simp add: CountEnabled_def mask_ok_def enabled_def)
  have "enabled m \<subseteq> {0..<CountTotal m}" by (auto simp: enabled_def CountTotal_def)
  then have "card (enabled m) = CountTotal m \<longleftrightarrow> enabled m = {0..<CountTotal m}"
    by (metis card_atLeastLessThan card_subset_eq diff_zero finite_atLeastLessThan)
  then show ?thesis using c by (simp add: CompletePolicy_Check_def ThresholdPolicy_Check_def)
qed

theorem CountEnabled_policies_witness:
  "CompletePolicy_Check (NewMask int_ops sample_keys) = Inr False"
proof -
  have "CompletePolicy_Check (NewMask int_ops sample_keys)
      = Inr (enabled (NewMask int_ops sample_keys) = {0..<CountTotal (NewMask int_ops sample_keys)})"
    using CountEnabled_policies [OF NewMask_ok [OF int_ops_group], of sample_keys 1] by blast
  moreover have "CountTotal (NewMask int_ops sample_keys) = 9"
    by (simp add: CountTotal_def NewMask_def sample_keys_def)
  ultimately show ?thesis by (simp add: NewMask_enabled)
qed

subsection \<open>One bits of a byte array\<close>

lemma halfByteLookup_eq: "n < 16 \<Longrightarrow> halfByteLookup ! n = length (filter (bit n) [0..<4])"
proof -
  assume "n < 16"
  then have "n \<in> set [0..<16]" by simp
  moreover have "\<forall>n \<in> set [0..<16]. halfByteLookup ! n = length (filter (bit n) [0..<4])"
    by code_simp
  ultimately show ?thesis by blast
qed

lemma countOneBitsInByte_eq: "countOneBitsInByte b = length (filter (bit b) [0..<8])"
proof -
  have lo: "unat (b AND 15) < 16"
    using word_and_le1 [of b 15] by (simp add: word_le_nat_alt)
  have hi: "unat (drop_bit 4 b) < 16"
    using unsigned_less [of b, where ?'a = nat] by (simp add: drop_bit_eq_div unat_div)
  have "filter (bit (unat (b AND 15))) [0..<4] = filter (bit b) [0..<4]"
  proof (rule filter_cong [OF refl])
    fix k :: nat assume "k \<in> set [0..<4]"
    then have "k = 0 \<or> k = 1 \<or> k = 2 \<or> k = 3" by auto
    then show "bit (unat (b AND 15)) k = bit b k"
      by (auto simp: bit_unsigned_iff bit_and_iff)
  qed
  moreover have "length (filter (bit (unat (drop_bit 4 b))) [0..<4]) = length (filter (bit b) [4..<8])"
    by (simp add: upt_rec bit_unsigned_iff bit_drop_bit_eq)
  moreover have "[0..<8] = [0..<4] @ [4..<8]" by (simp add: upt_rec)
  ultimately show ?thesis
    by (simp add: countOneBitsInByte_def halfByteLookup_eq lo hi)
qed

lemma CountOneBits_eq: "CountOneBits bs = int (card {j. j < 8 * length bs \<and> bit_at bs j})"
proof (induction bs rule: rev_induct)
  case Nil
  then show ?case by (simp add: CountOneBits_def)
next
  case (snoc b bs)
  let ?n = "8 * length bs"
  have "{j. j < 8 * length (bs @ [b]) \<and> bit_at (bs @ [b]) j}
      = {j. j < ?n \<and> bit_at bs j} \<union> (\<lambda>k. ?n + k) ` {k. k < 8 \<and> bit b k}"
  proof (intro set_eqI iffI)
    fix j assume j: "j \<in> {j. j < 8 * length (bs @ [b]) \<and> bit_at (bs @ [b]) j}"
    show "j \<in> {j. j < ?n \<and> bit_at bs j} \<union> (\<lambda>k. ?n + k) ` {k. k < 8 \<and> bit b k}"
    proof (cases "j < ?n")
      case True
      then have "j div 8 < length bs" by auto
      then show ?thesis using j True by (auto simp: bit_at_def nth_append)
    next
      case False
      then obtain k where "j = ?n + k" "k < 8" using j le_Suc_ex [of ?n j] by auto
      then have "j = ?n + (j - ?n)" "j - ?n < 8" "j div 8 = length bs" "j mod 8 = j - ?n"
        by simp_all
      then show ?thesis using j False by (force simp: bit_at_def)
    qed
  qed (auto simp: bit_at_def nth_append)
  moreover have "card ((\<lambda>k. ?n + k) ` {k. k < 8 \<and> bit b k}) = countOneBitsInByte b"
  proof -
    have "{k. k < 8 \<and> bit b k} = set (filter (bit b) [0..<8])" by auto
    then show ?thesis
      by (simp add: card_image countOneBitsInByte_eq distinct_card [symmetric] del: set_filter)
  qed
  moreover have "card ({j. j < ?n \<and> bit_at bs j} \<union> (\<lambda>k. ?n + k) ` {k. k < 8 \<and> bit b k})
      = card {j. j < ?n \<and> bit_at bs j} + card ((\<lambda>k. ?n + k) ` {k. k < 8 \<and> bit b k})"
    by (rule card_Un_disjoint) auto
  ultimately show ?case using snoc by (simp add: CountOneBits_def)
qed

lemma CountOneBits_enabled: "mask_ok ops m \<Longrightarrow> CountOneBits (Bitmap m) = int (card (enabled m))"
proof -
  assume ok: "mask_ok ops m"
  have "{j. j < 8 * length (Bitmap m) \<and> bit_at (Bitmap m) j} = enabled m"
  proof (intro set_eqI iffI)
    fix j assume j: "j \<in> {j. j < 8 * length (Bitmap m) \<and> bit_at (Bitmap m) j}"
    then have "j div 8 < Mask_Len m" using ok by (auto simp: mask_ok_def)
    then show "j \<in> enabled m" using j ok by (auto simp: mask_ok_def enabled_def not_less)
  next
    fix j assume j: "j \<in> enabled m"
    then have "j div 8 < length (Bitmap m)" using ok Mask_Len_bounds [of j m] by (simp add: mask_ok_def enabled_def)
    then show "j \<in> {j. j < 8 * length (Bitmap m) \<and> bit_at (Bitmap m) j}" using j by (auto simp: enabled_def)
  qed
  then show ?thesis by (simp add: CountOneBits_eq)
qed

end
