(* ===== verification/Sharding.thy ===== *)
theory Sharding
  imports Params Numeric BlsMask
begin

text \<open>
  The sharding configuration of \<open>internal/configs/sharding\<close>: the validated \<open>instance\<close> of
  \<open>instance.go\<close>, and the block/epoch arithmetic of the mainnet, testnet, localnet, partner,
  pangaea, stressnet and fixed schedules on 64-bit block numbers. The locale \<open>epoch_schedule\<close> is
  the contract of the \<open>Schedule\<close> interface that epoch transitions rely on; every schedule is an
  interpretation of it.
\<close>

section \<open>Instances\<close>

datatype NetworkID = MainNet | TestNet | LocalNet | Pangaea | Partner | StressNet | DevNet

record DeployAccount =
  daIndex :: string
  daAddress :: string
  daBLSPublicKey :: string
  daShardID :: uint32

record 'pk Allowlist =
  MaxLimitPerShard :: int
  alBLSPublicKeys :: "'pk PublicKeyWrapper list"

type_synonym FeeCollectors = "(Address \<times> Dec) list"

record 'pk Instance =
  numShards :: uint32
  numNodesPerShard :: int
  numIntelchainOperatedNodesPerShard :: int
  intelchainVotePercent :: Dec
  externalVotePercent :: Dec
  itcAccounts :: "DeployAccount list"
  fnAccounts :: "DeployAccount list"
  reshardingEpoch :: "int list"
  blocksPerEpoch :: uint64
  slotsLimit :: int
  allowlist :: "'pk Allowlist"
  feeCollectors :: FeeCollectors
  emissionFraction :: Dec
  recoveryAddress :: Address

definition check_feeCollectors :: "FeeCollectors \<Rightarrow> unit go" where
  "check_feeCollectors fc =
     (if length fc > 0
      then go_bind (go_fold (\<lambda>total kv. Add total (snd kv)) ZeroDec fc)
             (\<lambda>total. go_check (Equal total OneDec)
                        (Error ''total fee collection percentage should be 1''))
      else Inr ())"

definition NewInstance ::
  "uint32 \<Rightarrow> int \<Rightarrow> int \<Rightarrow> int \<Rightarrow> Dec \<Rightarrow> DeployAccount list \<Rightarrow> DeployAccount list \<Rightarrow> 'pk Allowlist \<Rightarrow>
   FeeCollectors \<Rightarrow> Dec \<Rightarrow> Address \<Rightarrow> int list \<Rightarrow> uint64 \<Rightarrow> 'pk Instance go" where
  "NewInstance nShards nNodes nOperated limit percent itcAccs fnAccs allow fc emission recovery reshard blocksE =
     (if nShards < 1 then Inl (Error ''sharding config must have at least one shard'')
      else if nNodes < 1 then Inl (Error ''each shard must have at least one node'')
      else if nOperated < 0 then Inl (Error ''intelchain-operated nodes cannot be negative'')
      else if nOperated > nNodes then Inl (Error ''number of intelchain-operated nodes cannot exceed'')
      else if limit < 0 then Inl (Error ''SlotsLimit cannot be negative'')
      else if LT percent ZeroDec \<or> GT percent OneDec then Inl (Error ''total voting power of intelchain nodes'')
      else go_bind (check_feeCollectors fc) (\<lambda>_.
        if LT emission ZeroDec \<or> GT emission OneDec then Inl (Error ''emission split must be within'')
        else if \<not> Equal emission ZeroDec \<and> recovery = 0
             then Inl (Error ''have non-zero emission split but no target address'')
        else if recovery \<noteq> 0 \<and> Equal emission ZeroDec
             then Inl (Error ''have target address but no emission split'')
        else go_bind (Sub OneDec percent) (\<lambda>external. Inr \<lparr>
               numShards = nShards,
               numNodesPerShard = nNodes,
               numIntelchainOperatedNodesPerShard = nOperated,
               intelchainVotePercent = percent,
               externalVotePercent = external,
               itcAccounts = itcAccs,
               fnAccounts = fnAccs,
               reshardingEpoch = reshard,
               blocksPerEpoch = blocksE,
               slotsLimit = limit,
               allowlist = allow,
               feeCollectors = fc,
               emissionFraction = emission,
               recoveryAddress = recovery\<rparr>)))"

fun find_account :: "uint32 \<Rightarrow> string \<Rightarrow> nat \<Rightarrow> DeployAccount list \<Rightarrow> (nat \<times> DeployAccount) option" where
  "find_account shards key i [] = None"
| "find_account shards key i (item # items) =
     (if daBLSPublicKey item = key
      then Some (i, item\<lparr>daShardID := word_of_nat i mod shards\<rparr>)
      else find_account shards key (Suc i) items)"

definition FindAccount :: "'pk Instance \<Rightarrow> string \<Rightarrow> (bool \<times> DeployAccount option) go" where
  "FindAccount sc key =
     (case find_account (numShards sc) key 0 (itcAccounts sc) of
        Some (i, item) \<Rightarrow>
          if numShards sc = 0 then Inl (Panic ''integer divide by zero'')
          else Inr (word_of_nat i < numShards sc, Some item)
      | None \<Rightarrow>
          (case find_account (numShards sc) key 0 (fnAccounts sc) of
             Some (i, item) \<Rightarrow>
               if numShards sc = 0 then Inl (Panic ''integer divide by zero'')
               else Inr (False, Some item)
           | None \<Rightarrow> Inr (False, None)))"

section \<open>Epoch arithmetic of the schedules\<close>

definition int64_of :: "uint64 \<Rightarrow> int" where
  "int64_of w = sint w"

definition twoSecondsEpoch :: "ChainConfig \<Rightarrow> uint64" where
  "twoSecondsEpoch c = (case TwoSecondsEpoch c of Some e \<Rightarrow> Uint64 e | None \<Rightarrow> 0)"

definition mainnetEpochBlock1 :: uint64 where "mainnetEpochBlock1 = 344064"
definition mainnet_BlocksPerEpochOld :: uint64 where "mainnet_BlocksPerEpochOld = 16384"
definition mainnet_BlocksPerEpoch :: uint64 where "mainnet_BlocksPerEpoch = 32768"

definition mainnet_twoSecondsFirstBlock :: uint64 where
  "mainnet_twoSecondsFirstBlock =
     (if twoSecondsEpoch MainnetChainConfig = 0 then 0
      else (twoSecondsEpoch MainnetChainConfig - 1) * mainnet_BlocksPerEpochOld + mainnetEpochBlock1)"

definition mainnet_CalcEpochNumber :: "uint64 \<Rightarrow> int" where
  "mainnet_CalcEpochNumber blockNum =
     (let oldEpochNumber =
            (if blockNum \<ge> mainnetEpochBlock1
             then int64_of ((blockNum - mainnetEpochBlock1) div mainnet_BlocksPerEpochOld) + 1
             else 0);
          firstBlock2s = mainnet_twoSecondsFirstBlock
      in if IsTwoSeconds MainnetChainConfig (Some oldEpochNumber)
         then int64_of ((blockNum - firstBlock2s) div mainnet_BlocksPerEpoch + twoSecondsEpoch MainnetChainConfig)
         else oldEpochNumber)"

definition mainnet_IsLastBlock :: "uint64 \<Rightarrow> bool" where
  "mainnet_IsLastBlock blockNum =
     (if blockNum < mainnetEpochBlock1 - 1 then False
      else if blockNum = mainnetEpochBlock1 - 1 then True
      else let firstBlock2s = mainnet_twoSecondsFirstBlock
           in if blockNum \<ge> firstBlock2s
              then (blockNum - firstBlock2s) mod mainnet_BlocksPerEpoch = mainnet_BlocksPerEpoch - 1
              else (blockNum - mainnetEpochBlock1) mod mainnet_BlocksPerEpochOld = mainnet_BlocksPerEpochOld - 1)"

definition mainnet_EpochLastBlock :: "uint64 \<Rightarrow> uint64" where
  "mainnet_EpochLastBlock epochNum =
     (if epochNum = 0 then mainnetEpochBlock1 - 1
      else let firstBlock2s = mainnet_twoSecondsFirstBlock
           in if IsTwoSeconds MainnetChainConfig (Some (int64_of epochNum))
              then firstBlock2s - 1 + mainnet_BlocksPerEpoch * (epochNum - twoSecondsEpoch MainnetChainConfig + 1)
              else mainnetEpochBlock1 - 1 + mainnet_BlocksPerEpochOld * epochNum)"

definition skippedEpochs :: "(uint32 \<times> int list) list" where
  "skippedEpochs = [(1, [181, 182, 183, 184, 185]), (2, [184, 185]), (3, [183, 184, 185])]"

definition mainnet_IsSkippedEpoch :: "uint32 \<Rightarrow> int \<Rightarrow> bool" where
  "mainnet_IsSkippedEpoch shardID epoch =
     (case map_of skippedEpochs shardID of
        Some skipped \<Rightarrow> list_ex (\<lambda>e. epoch = e) skipped
      | None \<Rightarrow> False)"

definition testnet_BlocksPerEpochOld :: uint64 where "testnet_BlocksPerEpochOld = 38"
definition testnet_BlocksPerEpoch :: uint64 where "testnet_BlocksPerEpoch = 8192"

definition testnet_CalcEpochNumber :: "uint64 \<Rightarrow> int" where
  "testnet_CalcEpochNumber blockNum =
     (let firstBlock2s = twoSecondsEpoch TestnetChainConfig * testnet_BlocksPerEpochOld
      in if blockNum \<ge> firstBlock2s
         then int64_of ((blockNum - firstBlock2s) div testnet_BlocksPerEpoch + twoSecondsEpoch TestnetChainConfig)
         else int64_of (blockNum div testnet_BlocksPerEpochOld))"

definition testnet_IsLastBlock :: "uint64 \<Rightarrow> bool" where
  "testnet_IsLastBlock blockNum =
     (let firstBlock2s = twoSecondsEpoch TestnetChainConfig * testnet_BlocksPerEpochOld
      in if blockNum \<ge> firstBlock2s
         then (blockNum - firstBlock2s) mod testnet_BlocksPerEpoch = testnet_BlocksPerEpoch - 1
         else (blockNum + 1) mod testnet_BlocksPerEpochOld = 0)"

definition testnet_EpochLastBlock :: "uint64 \<Rightarrow> uint64" where
  "testnet_EpochLastBlock epochNum =
     (let firstBlock2s = twoSecondsEpoch TestnetChainConfig * testnet_BlocksPerEpochOld
      in if IsTwoSeconds TestnetChainConfig (Some (int64_of epochNum))
         then firstBlock2s - 1 + testnet_BlocksPerEpoch * (epochNum - twoSecondsEpoch TestnetChainConfig + 1)
         else testnet_BlocksPerEpochOld * (epochNum + 1) - 1)"

definition localnetEpochBlock1 :: uint64 where "localnetEpochBlock1 = 5"
definition localnet_BlocksPerEpochOld :: uint64 where "localnet_BlocksPerEpochOld = 16"
definition localnet_BlocksPerEpoch :: uint64 where "localnet_BlocksPerEpoch = 16"

definition localnet_twoSecondsFirstBlock :: uint64 where
  "localnet_twoSecondsFirstBlock =
     (if twoSecondsEpoch LocalnetChainConfig = 0 then 0
      else (twoSecondsEpoch LocalnetChainConfig - 1) * localnet_BlocksPerEpochOld + localnetEpochBlock1)"

definition localnet_CalcEpochNumber :: "uint64 \<Rightarrow> int" where
  "localnet_CalcEpochNumber blockNum =
     (let firstBlock2s = localnet_twoSecondsFirstBlock
      in if blockNum < localnetEpochBlock1 then 0
         else if blockNum < firstBlock2s
         then int64_of ((blockNum - localnetEpochBlock1) div localnet_BlocksPerEpochOld + 1)
         else let (blockNum', extra) =
                    (if firstBlock2s = 0 then (blockNum - localnetEpochBlock1, 1) else (blockNum, 0))
              in int64_of (extra + (blockNum' - firstBlock2s) div localnet_BlocksPerEpoch
                             + twoSecondsEpoch LocalnetChainConfig))"

definition localnet_IsLastBlock :: "uint64 \<Rightarrow> bool" where
  "localnet_IsLastBlock blockNum =
     (if blockNum < localnetEpochBlock1 - 1 then False
      else if blockNum = localnetEpochBlock1 - 1 then True
      else let firstBlock2s = localnet_twoSecondsFirstBlock
           in if blockNum \<ge> firstBlock2s
              then let blockNum' = (if firstBlock2s = 0 then blockNum - localnetEpochBlock1 else blockNum)
                   in (blockNum' - firstBlock2s) mod localnet_BlocksPerEpoch = localnet_BlocksPerEpoch - 1
              else (blockNum - localnetEpochBlock1) mod localnet_BlocksPerEpochOld = localnet_BlocksPerEpochOld - 1)"

definition localnet_EpochLastBlock :: "uint64 \<Rightarrow> uint64" where
  "localnet_EpochLastBlock epochNum =
     (if epochNum = 0 then localnetEpochBlock1 - 1
      else if IsTwoSeconds LocalnetChainConfig (Some (int64_of epochNum))
      then let blocks = localnet_BlocksPerEpoch;
               firstBlock2s = localnet_twoSecondsFirstBlock;
               block2s = (1 + epochNum - twoSecondsEpoch LocalnetChainConfig) * blocks
           in if firstBlock2s = 0 then block2s - blocks + localnetEpochBlock1 - 1
              else firstBlock2s + block2s - 1
      else localnetEpochBlock1 + localnet_BlocksPerEpochOld * epochNum - 1)"

definition partner_BlocksPerEpoch :: uint64 where "partner_BlocksPerEpoch = 900"

definition partner_CalcEpochNumber :: "uint64 \<Rightarrow> int" where
  "partner_CalcEpochNumber blockNum = int64_of (blockNum div partner_BlocksPerEpoch)"

definition partner_IsLastBlock :: "uint64 \<Rightarrow> bool" where
  "partner_IsLastBlock blockNum \<longleftrightarrow> (blockNum + 1) mod partner_BlocksPerEpoch = 0"

definition partner_EpochLastBlock :: "uint64 \<Rightarrow> uint64" where
  "partner_EpochLastBlock epochNum = partner_BlocksPerEpoch * (epochNum + 1) - 1"

definition pangaea_BlocksPerEpoch :: uint64 where "pangaea_BlocksPerEpoch = 450"

definition pangaea_CalcEpochNumber :: "uint64 \<Rightarrow> int" where
  "pangaea_CalcEpochNumber blockNum = int64_of (blockNum div pangaea_BlocksPerEpoch)"

definition pangaea_IsLastBlock :: "uint64 \<Rightarrow> bool" where
  "pangaea_IsLastBlock blockNum \<longleftrightarrow> (blockNum + 1) mod pangaea_BlocksPerEpoch = 0"

definition pangaea_EpochLastBlock :: "uint64 \<Rightarrow> uint64" where
  "pangaea_EpochLastBlock epochNum = pangaea_BlocksPerEpoch * (epochNum + 1) - 1"

definition stressnet_BlocksPerEpoch :: uint64 where "stressnet_BlocksPerEpoch = 1024"

definition stressnet_CalcEpochNumber :: "uint64 \<Rightarrow> int" where
  "stressnet_CalcEpochNumber blockNum = int64_of (blockNum div stressnet_BlocksPerEpoch)"

definition stressnet_IsLastBlock :: "uint64 \<Rightarrow> bool" where
  "stressnet_IsLastBlock blockNum \<longleftrightarrow> (blockNum + 1) mod stressnet_BlocksPerEpoch = 0"

definition stressnet_EpochLastBlock :: "uint64 \<Rightarrow> uint64" where
  "stressnet_EpochLastBlock epochNum = stressnet_BlocksPerEpoch * (epochNum + 1) - 1"

definition VLBPE :: uint64 where "VLBPE = 1000000000000"

definition fixed_CalcEpochNumber :: "uint64 \<Rightarrow> int" where
  "fixed_CalcEpochNumber blockNum = int64_of (blockNum div VLBPE)"

definition fixed_IsLastBlock :: "uint64 \<Rightarrow> bool" where
  "fixed_IsLastBlock blockNum \<longleftrightarrow> blockNum mod VLBPE = VLBPE - 1"

definition fixed_EpochLastBlock :: "uint64 \<Rightarrow> uint64" where
  "fixed_EpochLastBlock epochNum = VLBPE * (epochNum + 1) - 1"

section \<open>The contract of a schedule\<close>

text \<open>
  \<open>max_block\<close> bounds the block numbers: below \<open>2 ^ 63\<close> the \<open>int64\<close> conversions are exact and no
  sum wraps.
\<close>

definition max_block :: nat where "max_block = 2 ^ 63"

lemma unat_word_of_nat: "n < max_block \<Longrightarrow> unat (word_of_nat n :: uint64) = n"
proof -
  assume "n < max_block"
  moreover have "max_block < 2 ^ LENGTH(64)" by (simp add: max_block_def)
  ultimately have "n < 2 ^ LENGTH(64)" by linarith
  then show ?thesis by (simp only: unat_of_nat mod_less)
qed

locale epoch_schedule =
  fixes calc :: "uint64 \<Rightarrow> int" and isLast :: "uint64 \<Rightarrow> bool" and lastBlock :: "uint64 \<Rightarrow> uint64"
  assumes calc_zero: "calc 0 = 0"
    and calc_step: "unat b + 1 < max_block \<Longrightarrow> calc (b + 1) = calc b + (if isLast b then 1 else 0)"
    and last_iff: "unat b + 1 < max_block \<Longrightarrow> isLast b \<longleftrightarrow> lastBlock (Uint64 (calc b)) = b"
begin

lemma calc_counts:
  "n < max_block \<Longrightarrow> calc (word_of_nat n) = int (card {m. m < n \<and> isLast (word_of_nat m)})"
proof (induction n)
  case 0
  then show ?case by (simp add: calc_zero)
next
  case (Suc n)
  have u: "unat (word_of_nat n :: uint64) = n"
    using Suc.prems by (simp add: unat_word_of_nat)
  have step: "calc (word_of_nat (Suc n)) =
      calc (word_of_nat n) + (if isLast (word_of_nat n) then 1 else 0)"
    using calc_step [of "word_of_nat n"] u Suc.prems by (simp add: add.commute)
  have "{m. m < Suc n \<and> isLast (word_of_nat m)} =
      {m. m < n \<and> isLast (word_of_nat m)} \<union> (if isLast (word_of_nat n) then {n} else {})"
    by (auto simp: less_Suc_eq)
  then show ?case using Suc step by simp
qed

lemma calc_mono: "m \<le> n \<Longrightarrow> n < max_block \<Longrightarrow> calc (word_of_nat m) \<le> calc (word_of_nat n)"
proof -
  assume le: "m \<le> n" and n: "n < max_block"
  have "card {k. k < m \<and> isLast (word_of_nat k)} \<le> card {k. k < n \<and> isLast (word_of_nat k)}"
    by (rule card_mono) (use le in auto)
  then show ?thesis using calc_counts [OF n] calc_counts [of m] le n by simp
qed

lemma one_last_per_epoch:
  "unat a + 1 < max_block \<Longrightarrow> unat b + 1 < max_block \<Longrightarrow> isLast a \<Longrightarrow> isLast b \<Longrightarrow> calc a = calc b \<Longrightarrow> a = b"
  using last_iff by metis

end

subsection \<open>Runs of epochs of equal length\<close>

lemma run_step: "0 < k \<Longrightarrow> Suc m div k = m div k + (if m mod k = k - 1 then 1 else 0)"
  by (cases k) (auto simp: div_Suc mod_Suc)

lemma run_last: "0 < k \<Longrightarrow> (k * (m div k + 1) - 1 = m) \<longleftrightarrow> m mod k = k - (1::nat)"
proof -
  assume k: "0 < k"
  have "k * (m div k + 1) = m - m mod k + k"
    by (simp add: minus_mod_eq_mult_div)
  moreover have "m mod k \<le> m" "m mod k < k" using k by simp_all
  ultimately show ?thesis using k by linarith
qed

lemma int64_of_small: "unat w < max_block \<Longrightarrow> int64_of w = int (unat w)"
proof -
  assume "unat w < max_block"
  then have "int (unat w) < int (2 ^ 63)" unfolding max_block_def by (simp only: of_nat_less_iff)
  moreover have "sint w = signed_take_bit 63 (int (unat w))" by (simp add: sint_uint)
  moreover have "signed_take_bit 63 (int n) = int n" if "int n < int (2 ^ 63)" for n
    using that by (intro signed_take_bit_int_eq_self) simp_all
  ultimately show ?thesis by (simp only: int64_of_def)
qed

lemma unat_add_small: "unat a + unat b < 2 ^ 64 \<Longrightarrow> unat (a + b :: uint64) = unat a + unat b"
  by (simp add: unat_word_ariths)

lemma unat_mult_small: "unat a * unat b < 2 ^ 64 \<Longrightarrow> unat (a * b :: uint64) = unat a * unat b"
  by (simp add: unat_word_ariths)

lemma Uint64_int [simp]: "Uint64 (int n) = word_of_nat n"
  by (simp add: Uint64_def)

lemma unat_run_div: "f \<le> b \<Longrightarrow> unat ((b - f) div k :: uint64) = (unat b - unat f) div unat k"
  by (simp add: unat_div unat_sub)

lemma unat_run_mod: "f \<le> b \<Longrightarrow> unat ((b - f) mod k :: uint64) = (unat b - unat f) mod unat k"
  by (simp add: unat_mod unat_sub)

lemmas run_words = unat_run_div unat_run_mod unat_div unat_mod word_le_nat_alt word_less_nat_alt
  word_unat_eq_iff

lemma word_of_run:
  "unat f \<le> n \<Longrightarrow> n < 2 ^ 64 \<Longrightarrow> word_of_nat (n - unat f) = (word_of_nat n - f :: uint64)"
  by (simp add: of_nat_diff)

subsection \<open>Mainnet\<close>

lemmas mainnet_consts = mainnetEpochBlock1_def mainnet_BlocksPerEpochOld_def mainnet_BlocksPerEpoch_def

lemma mainnet_twoSecondsEpoch [simp]: "twoSecondsEpoch MainnetChainConfig = 366"
  by (simp add: twoSecondsEpoch_def MainnetChainConfig_def Uint64_def)

lemma mainnet_first2s: "mainnet_twoSecondsFirstBlock = 6324224"
  by (simp add: mainnet_twoSecondsFirstBlock_def mainnet_consts)

lemma mainnet_IsTwoSeconds [simp]: "IsTwoSeconds MainnetChainConfig (Some e) \<longleftrightarrow> 366 \<le> e"
  by (simp add: IsTwoSeconds_def MainnetChainConfig_def)

definition mainnet_epoch :: "nat \<Rightarrow> nat" where
  "mainnet_epoch n =
     (if n < 344064 then 0
      else if n < 6324224 then (n - 344064) div 16384 + 1
      else (n - 6324224) div 32768 + 366)"

lemma mainnet_CalcEpochNumber_eq:
  assumes small: "unat b < max_block"
  shows "mainnet_CalcEpochNumber b = int (mainnet_epoch (unat b))"
proof (cases "unat b < 344064")
  case True
  then have "\<not> mainnetEpochBlock1 \<le> b" by (simp add: mainnet_consts word_le_nat_alt)
  then show ?thesis using True by (simp add: mainnet_CalcEpochNumber_def mainnet_epoch_def)
next
  case False
  then have ge: "mainnetEpochBlock1 \<le> b" by (simp add: mainnet_consts word_le_nat_alt)
  have q: "unat ((b - mainnetEpochBlock1) div mainnet_BlocksPerEpochOld) = (unat b - 344064) div 16384"
    using unat_run_div [OF ge] by (simp add: mainnet_consts)
  have "(unat b - 344064) div 16384 < max_block" using small by (simp add: max_block_def)
  then have old: "int64_of ((b - mainnetEpochBlock1) div mainnet_BlocksPerEpochOld) + 1 =
      int ((unat b - 344064) div 16384 + 1)"
    using q by (simp add: int64_of_small)
  show ?thesis
  proof (cases "unat b < 6324224")
    case True
    have "(unat b - 344064) div 16384 < 365" using True by (simp add: div_less_iff_less_mult)
    then show ?thesis using True False ge old
      by (simp add: mainnet_CalcEpochNumber_def mainnet_epoch_def)
  next
    case far: False
    have le: "mainnet_twoSecondsFirstBlock \<le> b" using far by (simp add: mainnet_first2s word_le_nat_alt)
    have r: "unat ((b - mainnet_twoSecondsFirstBlock) div mainnet_BlocksPerEpoch) = (unat b - 6324224) div 32768"
      using unat_run_div [OF le] by (simp add: mainnet_first2s mainnet_consts)
    have "(unat b - 6324224) div 32768 \<le> (2 ^ 63 - 1) div 32768"
      using small unfolding max_block_def by (intro div_le_mono) linarith
    then have bound: "(unat b - 6324224) div 32768 + 366 < max_block"
      by (simp add: max_block_def)
    have "unat ((b - mainnet_twoSecondsFirstBlock) div mainnet_BlocksPerEpoch + 366) = (unat b - 6324224) div 32768 + 366"
      using r bound by (subst unat_add_small) (simp_all add: max_block_def)
    moreover have "365 \<le> (unat b - 344064) div 16384" using far by (simp add: less_eq_div_iff_mult_less_eq)
    ultimately show ?thesis using False far ge old bound
      by (simp add: mainnet_CalcEpochNumber_def mainnet_epoch_def int64_of_small)
  qed
qed

lemma mainnet_IsLastBlock_eq:
  "mainnet_IsLastBlock b \<longleftrightarrow>
     (if unat b < 344064 then unat b = 344063
      else if unat b < 6324224 then (unat b - 344064) mod 16384 = 16383
      else (unat b - 6324224) mod 32768 = 32767)"
proof (cases "unat b < 344064")
  case True
  then have "b < mainnetEpochBlock1 - 1 \<or> b = mainnetEpochBlock1 - 1 \<longleftrightarrow> True"
    by (simp add: mainnet_consts word_less_nat_alt word_unat_eq_iff less_eq_Suc_le) linarith
  then show ?thesis using True
    by (simp add: mainnet_IsLastBlock_def mainnet_consts word_less_nat_alt word_unat_eq_iff)
next
  case False
  then have "\<not> b < mainnetEpochBlock1 - 1" "b \<noteq> mainnetEpochBlock1 - 1" "mainnetEpochBlock1 \<le> b"
    by (auto simp: mainnet_consts word_less_nat_alt word_le_nat_alt word_unat_eq_iff)
  moreover have "mainnet_twoSecondsFirstBlock \<le> b \<longleftrightarrow> \<not> unat b < 6324224"
    by (simp add: mainnet_first2s word_le_nat_alt not_less)
  ultimately show ?thesis using False
    using unat_run_mod [of mainnetEpochBlock1 b mainnet_BlocksPerEpochOld]
      unat_run_mod [of mainnet_twoSecondsFirstBlock b mainnet_BlocksPerEpoch]
    by (simp add: mainnet_IsLastBlock_def word_unat_eq_iff mainnet_consts mainnet_first2s)
qed

lemma mainnet_EpochLastBlock_eq:
  assumes "e < 2 ^ 49 - 1024"
  shows "unat (mainnet_EpochLastBlock (word_of_nat e)) =
     (if e < 366 then 344063 + 16384 * e else 6324223 + 32768 * (e - 365))"
proof -
  have e: "unat (word_of_nat e :: uint64) = e"
    using assms by (intro unat_word_of_nat) (simp add: max_block_def)
  then have i: "int64_of (word_of_nat e) = int e" using assms
    by (simp add: int64_of_small max_block_def)
  show ?thesis
  proof (cases "e < 366")
    case True
    have "unat (mainnetEpochBlock1 - 1 + mainnet_BlocksPerEpochOld * word_of_nat e) = 344063 + 16384 * e"
      using assms e True by (simp add: mainnet_consts unat_word_ariths max_block_def)
    then show ?thesis using True i by (auto simp: mainnet_EpochLastBlock_def mainnet_consts)
  next
    case False
    have w: "unat (word_of_nat e - 366 + 1 :: uint64) = e - 365"
      using e assms False by (simp add: unat_word_ariths unat_sub word_le_nat_alt max_block_def)
    have "unat (mainnet_twoSecondsFirstBlock - 1 + mainnet_BlocksPerEpoch * v) = 6324223 + 32768 * unat v"
      if "unat v \<le> e" for v
      using that assms by (simp add: mainnet_first2s mainnet_consts unat_word_ariths max_block_def)
    from this [of "word_of_nat e - 366 + 1"]
    have "unat (mainnet_twoSecondsFirstBlock - 1 + mainnet_BlocksPerEpoch * (word_of_nat e - 366 + 1)) =
        6324223 + 32768 * (e - 365)"
      unfolding w by simp
    then show ?thesis using False i e by (auto simp: mainnet_EpochLastBlock_def)
  qed
qed

definition mainnet_last :: "nat \<Rightarrow> bool" where
  "mainnet_last n =
     (if n < 344064 then n = 344063
      else if n < 6324224 then (n - 344064) mod 16384 = 16383
      else (n - 6324224) mod 32768 = 32767)"

lemma mainnet_epoch_step: "mainnet_epoch (Suc n) = mainnet_epoch n + (if mainnet_last n then 1 else 0)"
proof -
  consider (a) "n < 344063" | (b) "n = 344063" | (c) "344064 \<le> n" "n < 6324223" | (d) "n = 6324223"
    | (e) "6324224 \<le> n" by linarith
  then show ?thesis
  proof cases
    case c
    then have "Suc n - 344064 = Suc (n - 344064)" by simp
    with c show ?thesis
      using run_step [of 16384 "n - 344064"] by (simp add: mainnet_epoch_def mainnet_last_def)
  next
    case e
    then have "Suc n - 6324224 = Suc (n - 6324224)" by simp
    with e show ?thesis
      using run_step [of 32768 "n - 6324224"] by (simp add: mainnet_epoch_def mainnet_last_def)
  qed (simp_all add: mainnet_epoch_def mainnet_last_def)
qed

lemma mainnet_last_block:
  "mainnet_last n \<longleftrightarrow>
     (let e = mainnet_epoch n in if e < 366 then 344063 + 16384 * e else 6324223 + 32768 * (e - 365)) = n"
proof -
  consider (a) "n < 344064" | (c) "344064 \<le> n" "n < 6324224" | (e) "6324224 \<le> n" by linarith
  then show ?thesis
  proof cases
    case a
    then show ?thesis by (auto simp: mainnet_epoch_def mainnet_last_def)
  next
    case c
    have "(n - 344064) div 16384 < 365" using c by (simp add: div_less_iff_less_mult)
    with c show ?thesis
      using run_last [of 16384 "n - 344064"]
      by (simp add: mainnet_epoch_def mainnet_last_def Let_def) linarith
  next
    case e
    then show ?thesis
      using run_last [of 32768 "n - 6324224"]
      by (simp add: mainnet_epoch_def mainnet_last_def Let_def) linarith
  qed
qed

lemma mainnet_epoch_small: "n < max_block \<Longrightarrow> mainnet_epoch n < 2 ^ 49 - 1024"
proof -
  assume n: "n < max_block"
  have "(n - f) div k < 2 ^ 48 + 1" if "16384 \<le> k" "n < 6324224 \<or> 32768 \<le> k" for f k
  proof -
    have "n div k < 2 ^ 48"
    proof (cases "32768 \<le> k")
      case True
      have "n div k \<le> n div 32768" using True by (intro div_le_mono2) simp_all
      also have "\<dots> < 2 ^ 48" using n by (simp add: max_block_def div_less_iff_less_mult)
      finally show ?thesis .
    next
      case False
      then show ?thesis using that by (intro le_less_trans [OF div_le_dividend]) simp
    qed
    then show ?thesis using div_le_mono [of "n - f" n k] by linarith
  qed
  from this [of 16384 344064] this [of 32768 6324224] show ?thesis
    by (auto simp: mainnet_epoch_def)
qed

lemma mainnet_IsLastBlock_last: "mainnet_IsLastBlock b \<longleftrightarrow> mainnet_last (unat b)"
  by (simp add: mainnet_IsLastBlock_eq mainnet_last_def)

interpretation mainnet: epoch_schedule mainnet_CalcEpochNumber mainnet_IsLastBlock mainnet_EpochLastBlock
proof
  show "mainnet_CalcEpochNumber 0 = 0"
    using mainnet_CalcEpochNumber_eq [of 0] by (simp add: max_block_def mainnet_epoch_def)
next
  fix b :: uint64
  assume b: "unat b + 1 < max_block"
  then have s: "unat (b + 1) = Suc (unat b)" by (simp add: max_block_def unat_word_ariths)
  show "mainnet_CalcEpochNumber (b + 1) = mainnet_CalcEpochNumber b + (if mainnet_IsLastBlock b then 1 else 0)"
    using b s mainnet_epoch_step [of "unat b"]
    by (simp add: mainnet_CalcEpochNumber_eq mainnet_IsLastBlock_last)
next
  fix b :: uint64
  assume b: "unat b + 1 < max_block"
  then have e: "mainnet_epoch (unat b) < 2 ^ 49 - 1024" by (intro mainnet_epoch_small) simp
  then have "mainnet_EpochLastBlock (Uint64 (mainnet_CalcEpochNumber b)) = b \<longleftrightarrow>
      (let e = mainnet_epoch (unat b) in if e < 366 then 344063 + 16384 * e else 6324223 + 32768 * (e - 365)) = unat b"
    using b by (simp add: mainnet_CalcEpochNumber_eq word_unat_eq_iff mainnet_EpochLastBlock_eq Let_def)
  then show "mainnet_IsLastBlock b \<longleftrightarrow> mainnet_EpochLastBlock (Uint64 (mainnet_CalcEpochNumber b)) = b"
    using mainnet_last_block [of "unat b"] by (simp add: mainnet_IsLastBlock_last)
qed

subsection \<open>Schedules with one change of epoch length\<close>

definition two_run :: "nat \<Rightarrow> nat \<Rightarrow> nat \<Rightarrow> nat \<Rightarrow> nat \<Rightarrow> nat" where
  "two_run f k0 e0 k n = (if n < f then n div k0 else (n - f) div k + e0)"

definition two_last :: "nat \<Rightarrow> nat \<Rightarrow> nat \<Rightarrow> nat \<Rightarrow> bool" where
  "two_last f k0 k n \<longleftrightarrow> (if n < f then n mod k0 = k0 - 1 else (n - f) mod k = k - 1)"

definition two_end :: "nat \<Rightarrow> nat \<Rightarrow> nat \<Rightarrow> nat \<Rightarrow> nat \<Rightarrow> nat" where
  "two_end f k0 e0 k e = (if e < e0 then k0 * (e + 1) - 1 else f + k * (e - e0 + 1) - 1)"

lemma two_run_step:
  assumes "0 < k0" "0 < k" "f = k0 * e0"
  shows "two_run f k0 e0 k (Suc n) = two_run f k0 e0 k n + (if two_last f k0 k n then 1 else 0)"
proof -
  consider (a) "Suc n < f" | (b) "Suc n = f" | (c) "f \<le> n" by linarith
  then show ?thesis
  proof cases
    case a
    then show ?thesis using run_step [OF assms(1), of n] by (simp add: two_run_def two_last_def)
  next
    case b
    then have "Suc n mod k0 = 0" "Suc n div k0 = e0" using assms by simp_all
    moreover have "n mod k0 = k0 - 1" using \<open>Suc n mod k0 = 0\<close> assms(1)
      by (auto simp: mod_Suc split: if_splits)
    ultimately show ?thesis using b run_step [OF assms(1), of n] by (simp add: two_run_def two_last_def)
  next
    case c
    then have "Suc n - f = Suc (n - f)" by simp
    then show ?thesis using c run_step [OF assms(2), of "n - f"] by (simp add: two_run_def two_last_def)
  qed
qed

lemma two_last_end:
  assumes "0 < k0" "0 < k" "f = k0 * e0"
  shows "two_last f k0 k n \<longleftrightarrow> two_end f k0 e0 k (two_run f k0 e0 k n) = n"
proof (cases "n < f")
  case True
  then have "n div k0 < e0" using assms by (simp add: div_less_iff_less_mult mult.commute)
  then show ?thesis using True run_last [OF assms(1), of n]
    by (simp add: two_run_def two_last_def two_end_def)
next
  case False
  have "0 < k * ((n - f) div k + 1)" using assms(2) by simp
  then show ?thesis using False run_last [OF assms(2), of "n - f"]
    by (simp add: two_run_def two_last_def two_end_def) linarith
qed

lemma two_run_le: "0 < k \<Longrightarrow> f = k0 * e0 \<Longrightarrow> 0 < k0 \<Longrightarrow> two_run f k0 e0 k n * k \<le> n + e0 * k"
proof -
  assume k: "0 < k" "f = k0 * e0" "0 < k0"
  show ?thesis
  proof (cases "n < f")
    case True
    then have "n div k0 < e0" using k by (simp add: div_less_iff_less_mult mult.commute)
    then have "(n div k0) * k \<le> e0 * k" by (intro mult_le_mono1) simp
    then have "(n div k0) * k \<le> n + e0 * k" by (rule trans_le_add2)
    then show ?thesis using True by (simp add: two_run_def)
  next
    case False
    have "(n - f) div k * k \<le> n"
      by (rule order_trans [OF div_times_less_eq_dividend diff_le_self])
    then show ?thesis using False by (simp add: two_run_def distrib_right)
  qed
qed

lemma two_run_schedule:
  assumes pos: "0 < k0" "0 < k" and f: "f = k0 * e0"
    and calc: "\<And>b. unat b < max_block \<Longrightarrow> calc b = int (two_run f k0 e0 k (unat b))"
    and last: "\<And>b. unat b + 1 < max_block \<Longrightarrow> isLast b \<longleftrightarrow> two_last f k0 k (unat b)"
    and ends: "\<And>e. e * k \<le> max_block + e0 * k \<Longrightarrow> unat (lastBlock (word_of_nat e)) = two_end f k0 e0 k e"
  shows "epoch_schedule calc isLast lastBlock"
proof
  have "two_run f k0 e0 k 0 = 0" using f pos by (simp add: two_run_def)
  then show "calc 0 = 0" using calc [of 0] by (simp add: max_block_def)
next
  fix b :: uint64
  assume b: "unat b + 1 < max_block"
  then have s: "unat (b + 1) = Suc (unat b)" by (simp add: max_block_def unat_word_ariths)
  show "calc (b + 1) = calc b + (if isLast b then 1 else 0)"
    using b s two_run_step [OF pos f, of "unat b"] by (simp add: calc last)
next
  fix b :: uint64
  assume b: "unat b + 1 < max_block"
  have "two_run f k0 e0 k (unat b) * k \<le> max_block + e0 * k"
    using two_run_le [OF pos(2) f pos(1), of "unat b"] b by linarith
  then have "lastBlock (Uint64 (calc b)) = b \<longleftrightarrow>
      two_end f k0 e0 k (two_run f k0 e0 k (unat b)) = unat b"
    using b by (simp add: calc word_unat_eq_iff ends)
  then show "isLast b \<longleftrightarrow> lastBlock (Uint64 (calc b)) = b"
    using two_last_end [OF pos f, of "unat b"] by (simp add: last [OF b])
qed

lemma uniform_schedule:
  assumes k: "1 < unat k" "unat k < 2 ^ 60"
    and calc: "\<And>b. calc b = int64_of (b div k)"
    and last: "\<And>b. unat b + 1 < max_block \<Longrightarrow> isLast b \<longleftrightarrow> unat b mod unat k = unat k - 1"
    and ends: "\<And>e. lastBlock e = k * (e + 1) - 1"
  shows "epoch_schedule calc isLast lastBlock"
proof (rule two_run_schedule [where f = 0 and ?e0.0 = 0 and k = "unat k" and ?k0.0 = "unat k"])
  fix b :: uint64
  assume "unat b < max_block"
  then have "unat (b div k) < max_block" by (simp add: unat_div le_less_trans [OF div_le_dividend])
  then show "calc b = int (two_run 0 (unat k) 0 (unat k) (unat b))"
    by (simp add: calc int64_of_small unat_div two_run_def)
next
  fix e
  assume e: "e * unat k \<le> max_block + 0 * unat k"
  have "e * 2 \<le> e * unat k" using k(1) by (intro mult_le_mono2) simp
  then have es: "e * 2 \<le> max_block" using e by linarith
  then have u: "unat (word_of_nat e :: uint64) = e"
    by (intro unat_word_of_nat) (simp add: max_block_def)
  have e1: "unat (word_of_nat e + 1 :: uint64) = e + 1"
    using u es by (subst unat_add_small) (simp_all add: max_block_def)
  have bound: "unat k * (e + 1) < 2 ^ 64"
    using e k(2) by (simp add: max_block_def distrib_left mult.commute)
  then have m: "unat (k * (word_of_nat e + 1)) = unat k * (e + 1)"
    using unat_mult_small [of k "word_of_nat e + 1"] e1 by simp
  then have "1 \<le> k * (word_of_nat e + 1)" using k(1) by (simp add: word_le_nat_alt)
  then show "unat (lastBlock (word_of_nat e)) = two_end 0 (unat k) 0 (unat k) e"
    using m by (simp add: ends unat_sub two_end_def)
qed (use k last in \<open>simp_all add: two_last_def\<close>)

lemma succ_mod_zero:
  assumes "0 < unat k" "unat b + 1 < max_block"
  shows "(b + 1) mod k = (0 :: uint64) \<longleftrightarrow> unat b mod unat k = unat k - 1"
proof -
  have "unat (b + 1) = Suc (unat b)" using assms(2) by (simp add: max_block_def unat_word_ariths)
  then have "(b + 1) mod k = 0 \<longleftrightarrow> Suc (unat b) mod unat k = 0"
    by (simp add: word_unat_eq_iff unat_mod)
  also have "\<dots> \<longleftrightarrow> unat b mod unat k = unat k - 1"
    using assms(1) by (auto simp: mod_Suc)
  finally show ?thesis .
qed

interpretation partner: epoch_schedule partner_CalcEpochNumber partner_IsLastBlock partner_EpochLastBlock
  by (rule uniform_schedule [where k = partner_BlocksPerEpoch])
    (simp_all add: partner_CalcEpochNumber_def partner_IsLastBlock_def partner_EpochLastBlock_def
      succ_mod_zero partner_BlocksPerEpoch_def)

interpretation pangaea: epoch_schedule pangaea_CalcEpochNumber pangaea_IsLastBlock pangaea_EpochLastBlock
  by (rule uniform_schedule [where k = pangaea_BlocksPerEpoch])
    (simp_all add: pangaea_CalcEpochNumber_def pangaea_IsLastBlock_def pangaea_EpochLastBlock_def
      succ_mod_zero pangaea_BlocksPerEpoch_def)

interpretation stressnet: epoch_schedule stressnet_CalcEpochNumber stressnet_IsLastBlock stressnet_EpochLastBlock
  by (rule uniform_schedule [where k = stressnet_BlocksPerEpoch])
    (simp_all add: stressnet_CalcEpochNumber_def stressnet_IsLastBlock_def stressnet_EpochLastBlock_def
      succ_mod_zero stressnet_BlocksPerEpoch_def)

interpretation fixed: epoch_schedule fixed_CalcEpochNumber fixed_IsLastBlock fixed_EpochLastBlock
  by (rule uniform_schedule [where k = VLBPE])
    (simp_all add: fixed_CalcEpochNumber_def fixed_IsLastBlock_def fixed_EpochLastBlock_def
      word_unat_eq_iff unat_mod VLBPE_def)

lemma testnet_twoSecondsEpoch [simp]: "twoSecondsEpoch TestnetChainConfig = 2"
  by (simp add: twoSecondsEpoch_def TestnetChainConfig_def Uint64_def)

lemma testnet_IsTwoSeconds [simp]: "IsTwoSeconds TestnetChainConfig (Some e) \<longleftrightarrow> 2 \<le> e"
  by (simp add: IsTwoSeconds_def TestnetChainConfig_def)

lemma testnet_CalcEpochNumber_eq:
  assumes "unat b < max_block"
  shows "testnet_CalcEpochNumber b = int (two_run 76 38 2 8192 (unat b))"
proof (cases "unat b < 76")
  case True
  then have "unat (b div 38) = unat b div 38" by (simp add: unat_div)
  with True show ?thesis
    by (simp add: testnet_CalcEpochNumber_def testnet_BlocksPerEpochOld_def two_run_def
        word_le_nat_alt int64_of_small max_block_def)
next
  case False
  then have le: "(76 :: uint64) \<le> b" by (simp add: word_le_nat_alt)
  have d: "unat ((b - 76) div 8192) = (unat b - 76) div 8192"
    using unat_run_div [OF le, of 8192] by simp
  have "(unat b - 76) div 8192 \<le> (2 ^ 63 - 1) div 8192"
    using assms unfolding max_block_def by (intro div_le_mono) linarith
  then have bound: "(unat b - 76) div 8192 + 2 < max_block" by (simp add: max_block_def)
  have "unat ((b - 76) div 8192 + 2) = (unat b - 76) div 8192 + 2"
    using d bound by (subst unat_add_small) (simp_all add: max_block_def)
  with False le bound show ?thesis
    by (simp add: testnet_CalcEpochNumber_def testnet_BlocksPerEpochOld_def testnet_BlocksPerEpoch_def
        two_run_def int64_of_small)
qed

lemma testnet_IsLastBlock_eq:
  assumes "unat b + 1 < max_block"
  shows "testnet_IsLastBlock b \<longleftrightarrow> two_last 76 38 8192 (unat b)"
  using unat_run_mod [of 76 b 8192] succ_mod_zero [of 38 b] assms
  by (auto simp: testnet_IsLastBlock_def testnet_BlocksPerEpochOld_def testnet_BlocksPerEpoch_def
      two_last_def word_le_nat_alt word_unat_eq_iff [of _ 8191])

lemma testnet_EpochLastBlock_eq:
  assumes "e * 8192 \<le> max_block + 2 * 8192"
  shows "unat (testnet_EpochLastBlock (word_of_nat e)) = two_end 76 38 2 8192 e"
proof -
  have u: "unat (word_of_nat e :: uint64) = e"
    using assms by (intro unat_word_of_nat) (simp add: max_block_def)
  then have i: "int64_of (word_of_nat e) = int e"
    using assms by (simp add: int64_of_small max_block_def)
  show ?thesis
  proof (cases "e < 2")
    case True
    then have "e = 0 \<or> e = 1" by linarith
    then show ?thesis using i
      by (auto simp: testnet_EpochLastBlock_def testnet_BlocksPerEpochOld_def two_end_def int64_of_def)
  next
    case False
    have w: "unat (word_of_nat e - 2 + 1 :: uint64) = e - 1"
      using u assms False by (simp add: unat_sub word_le_nat_alt)
    have "unat (76 - 1 + 8192 * v :: uint64) = 75 + 8192 * unat v" if "unat v \<le> e" for v
      using that assms by (simp add: unat_word_ariths max_block_def)
    from this [of "word_of_nat e - 2 + 1"]
    have "unat (76 - 1 + 8192 * (word_of_nat e - 2 + 1) :: uint64) = 75 + 8192 * (e - 1)"
      unfolding w by simp
    with False i show ?thesis
      by (simp add: testnet_EpochLastBlock_def testnet_BlocksPerEpochOld_def
          testnet_BlocksPerEpoch_def two_end_def Suc_diff_Suc numeral_2_eq_2)
  qed
qed

interpretation testnet: epoch_schedule testnet_CalcEpochNumber testnet_IsLastBlock testnet_EpochLastBlock
  by (rule two_run_schedule [OF _ _ _ testnet_CalcEpochNumber_eq testnet_IsLastBlock_eq
        testnet_EpochLastBlock_eq]) simp_all

lemma localnet_twoSecondsEpoch [simp]: "twoSecondsEpoch LocalnetChainConfig = 0"
  by (simp add: twoSecondsEpoch_def LocalnetChainConfig_def Uint64_def)

lemma localnet_first2s [simp]: "localnet_twoSecondsFirstBlock = 0"
  by (simp add: localnet_twoSecondsFirstBlock_def)

lemma localnet_IsTwoSeconds [simp]: "IsTwoSeconds LocalnetChainConfig (Some e) \<longleftrightarrow> 0 \<le> e"
  by (simp add: IsTwoSeconds_def LocalnetChainConfig_def)

lemmas localnet_consts = localnetEpochBlock1_def localnet_BlocksPerEpochOld_def localnet_BlocksPerEpoch_def

lemma localnet_CalcEpochNumber_eq:
  assumes "unat b < max_block"
  shows "localnet_CalcEpochNumber b = int (two_run 5 5 1 16 (unat b))"
proof (cases "unat b < 5")
  case True
  then show ?thesis
    by (simp add: localnet_CalcEpochNumber_def localnet_consts two_run_def word_less_nat_alt)
next
  case False
  then have le: "(5 :: uint64) \<le> b" by (simp add: word_le_nat_alt)
  have d: "unat ((b - 5) div 16) = (unat b - 5) div 16"
    using unat_run_div [OF le, of 16] by simp
  have "(unat b - 5) div 16 \<le> (2 ^ 63 - 1) div 16"
    using assms unfolding max_block_def by (intro div_le_mono) linarith
  then have bound: "(unat b - 5) div 16 + 1 < max_block" by (simp add: max_block_def)
  have "unat (1 + (b - 5) div 16) = (unat b - 5) div 16 + 1"
    using d bound by (subst unat_add_small) (simp_all add: max_block_def)
  with False le bound show ?thesis
    by (simp add: localnet_CalcEpochNumber_def localnet_consts two_run_def int64_of_small not_less)
qed

lemma localnet_IsLastBlock_eq: "localnet_IsLastBlock b \<longleftrightarrow> two_last 5 5 16 (unat b)"
proof (cases "unat b < 5")
  case True
  then have "unat b = 0 \<or> unat b = 1 \<or> unat b = 2 \<or> unat b = 3 \<or> unat b = 4" by linarith
  then show ?thesis
    by (auto simp: localnet_IsLastBlock_def localnet_consts two_last_def word_less_nat_alt
        word_unat_eq_iff [of b])
next
  case False
  then have "(5 :: uint64) \<le> b" by (simp add: word_le_nat_alt)
  with False show ?thesis using unat_run_mod [of 5 b 16]
    by (auto simp: localnet_IsLastBlock_def localnet_consts two_last_def word_less_nat_alt
        word_unat_eq_iff [of b] word_unat_eq_iff [of _ 15])
qed

lemma localnet_EpochLastBlock_eq:
  assumes "e * 16 \<le> max_block + 1 * 16"
  shows "unat (localnet_EpochLastBlock (word_of_nat e)) = two_end 5 5 1 16 e"
proof -
  have u: "unat (word_of_nat e :: uint64) = e"
    using assms by (intro unat_word_of_nat) (simp add: max_block_def)
  then have i: "int64_of (word_of_nat e) = int e"
    using assms by (simp add: int64_of_small max_block_def)
  show ?thesis
  proof (cases "e = 0")
    case True
    then show ?thesis by (simp add: localnet_EpochLastBlock_def localnet_consts two_end_def)
  next
    case False
    have "(1 + v) * 16 - 16 + 5 - 1 = (4 + v * 16 :: uint64)" for v by (simp add: algebra_simps)
    moreover have "unat (4 + word_of_nat e * 16 :: uint64) = 4 + 16 * e"
      using u assms by (simp add: unat_word_ariths max_block_def)
    moreover have "word_of_nat e \<noteq> (0 :: uint64)" using u False by (metis unat_0)
    ultimately show ?thesis using False i
      by (simp add: localnet_EpochLastBlock_def localnet_consts two_end_def)
  qed
qed

interpretation localnet: epoch_schedule localnet_CalcEpochNumber localnet_IsLastBlock localnet_EpochLastBlock
  by (rule two_run_schedule [OF _ _ _ localnet_CalcEpochNumber_eq localnet_IsLastBlock_eq
        localnet_EpochLastBlock_eq]) simp_all

section \<open>Properties\<close>

text \<open>
C31: On mainnet, whatever the block below \<open>2 ^ 63\<close>, across both changes of epoch length: the epoch
number of the next block is one higher exactly after a last block, a block is reported as last
exactly when it is \<open>EpochLastBlock\<close> of its own epoch, and so the epoch number of a block is the
number of last blocks before it.
\<close>

theorem mainnet_epochs:
  assumes "unat b + 1 < max_block"
  shows "mainnet_CalcEpochNumber (b + 1) =
           mainnet_CalcEpochNumber b + (if mainnet_IsLastBlock b then 1 else 0) \<and>
         (mainnet_IsLastBlock b \<longleftrightarrow> mainnet_EpochLastBlock (Uint64 (mainnet_CalcEpochNumber b)) = b) \<and>
         mainnet_CalcEpochNumber b = int (card {m. m < unat b \<and> mainnet_IsLastBlock (word_of_nat m)})"
  using mainnet.calc_step [OF assms] mainnet.last_iff [OF assms] mainnet.calc_counts [of "unat b"] assms
  by simp

theorem mainnet_epochs_witness:
  "unat (6324223 :: uint64) + 1 < max_block \<and> mainnet_IsLastBlock 6324223 \<and>
   mainnet_CalcEpochNumber (6324223 + 1) = mainnet_CalcEpochNumber 6324223 + 1"
proof -
  have b: "unat (6324223 :: uint64) + 1 < max_block" by (simp add: max_block_def)
  have l: "mainnet_IsLastBlock 6324223" by (simp add: mainnet_IsLastBlock_eq)
  show ?thesis using mainnet_epochs [OF b] b l by simp
qed

text \<open>
The testnet, localnet, partner, pangaea, stressnet and fixed schedules agree with themselves in
the same way: each moves to the next epoch exactly after the block that its \<open>EpochLastBlock\<close> names.
\<close>

theorem other_schedules_epochs:
  assumes "unat b + 1 < max_block"
  shows "\<forall>(calc, isLast, lastBlock) \<in> set
     [(testnet_CalcEpochNumber, testnet_IsLastBlock, testnet_EpochLastBlock),
      (localnet_CalcEpochNumber, localnet_IsLastBlock, localnet_EpochLastBlock),
      (partner_CalcEpochNumber, partner_IsLastBlock, partner_EpochLastBlock),
      (pangaea_CalcEpochNumber, pangaea_IsLastBlock, pangaea_EpochLastBlock),
      (stressnet_CalcEpochNumber, stressnet_IsLastBlock, stressnet_EpochLastBlock),
      (fixed_CalcEpochNumber, fixed_IsLastBlock, fixed_EpochLastBlock)].
     calc (b + 1) = (if b = lastBlock (Uint64 (calc b)) then calc b + 1 else calc b) \<and>
     (isLast b \<longleftrightarrow> b = lastBlock (Uint64 (calc b)))"
proof -
  have gen: "calc (b + 1) = (if b = lastBlock (Uint64 (calc b)) then calc b + 1 else calc b) \<and>
     (isLast b \<longleftrightarrow> b = lastBlock (Uint64 (calc b)))" if "epoch_schedule calc isLast lastBlock"
    for calc isLast lastBlock
    using epoch_schedule.calc_step [OF that assms] epoch_schedule.last_iff [OF that assms]
    by (auto simp: eq_commute)
  show ?thesis
    using gen [OF testnet.epoch_schedule_axioms] gen [OF localnet.epoch_schedule_axioms]
      gen [OF partner.epoch_schedule_axioms] gen [OF pangaea.epoch_schedule_axioms]
      gen [OF stressnet.epoch_schedule_axioms] gen [OF fixed.epoch_schedule_axioms]
    by simp
qed

theorem other_schedules_epochs_witness:
  "unat (75 :: uint64) + 1 < max_block \<and> (testnet_IsLastBlock 75 \<longleftrightarrow> 75 = testnet_EpochLastBlock (Uint64 (testnet_CalcEpochNumber 75)))"
  using other_schedules_epochs [of 75] by (simp add: max_block_def)

text \<open>
  C32: An instance that \<open>NewInstance\<close> returns has at least one shard and node, no more operated nodes
than nodes, both vote percentages in \<open>[0, 1]\<close> adding up to one, fee shares adding up to one when
there are collectors, and a recovery address exactly when the emission fraction is not zero.
\<close>

theorem NewInstance_valid:
  assumes "NewInstance s n op l p itc fn al fc em rec re be = Inr sc"
  shows "numShards sc \<noteq> 0 \<and> 1 \<le> numNodesPerShard sc \<and> 0 \<le> numIntelchainOperatedNodesPerShard sc \<and>
    numIntelchainOperatedNodesPerShard sc \<le> numNodesPerShard sc \<and> 0 \<le> slotsLimit sc \<and>
    0 \<le> intelchainVotePercent sc \<and> 0 \<le> externalVotePercent sc \<and>
    intelchainVotePercent sc + externalVotePercent sc = OneDec \<and>
    (feeCollectors sc \<noteq> [] \<longrightarrow> sum_list (map snd (feeCollectors sc)) = OneDec) \<and>
    0 \<le> emissionFraction sc \<and> emissionFraction sc \<le> OneDec \<and>
    (emissionFraction sc = 0 \<longleftrightarrow> recoveryAddress sc = 0)"
proof -
  have fee: "fc \<noteq> [] \<longrightarrow> sum_list (map snd fc) = OneDec" if "check_feeCollectors fc = Inr ()"
    using that by (auto simp: check_feeCollectors_def Equal_def ZeroDec_def dest!: fold_Add)
  show ?thesis
    using assms fee
    by (auto simp: NewInstance_def dec_preds ZeroDec_def word_less_1 split: if_splits)
qed

theorem NewInstance_valid_witness:
  "\<exists>sc :: int Instance. NewInstance 2 200 20 10 490000000000000000 [] [] \<lparr>MaxLimitPerShard = 0, alBLSPublicKeys = []\<rparr>
      [(1, 500000000000000000), (2, 500000000000000000)] 250000000000000000 7 [0] 32768 = Inr sc \<and>
    externalVotePercent sc = 510000000000000000"
proof -
  obtain sc :: "int Instance" where sc: "NewInstance 2 200 20 10 490000000000000000 [] []
      \<lparr>MaxLimitPerShard = 0, alBLSPublicKeys = []\<rparr>
      [(1, 500000000000000000), (2, 500000000000000000)] 250000000000000000 7 [0] 32768 = Inr sc"
      "intelchainVotePercent sc = 490000000000000000"
    by (simp add: NewInstance_def check_feeCollectors_def dec_preds dec_eval)
  from NewInstance_valid [OF sc(1)] sc show ?thesis by (auto simp: OneDec_def precisionReuse_def)
qed
end
