(* ===== verification/ShardState.thy ===== *)
theory ShardState
  imports Sharding
begin

text \<open>
  The shard state of \<open>shard/shard_state.go\<close>: slots, committees and the super committee, the counts
  of staked validators, the RLP wrappers with the pre-staking legacy format, lookups, the
  comparison functions and the state hash. RLP, Keccak and the deserialisation of keys are
  parameters. \<open>shard/values.go\<close> adds the number of slots open to external validators.
\<close>

section \<open>Data\<close>

record Slot =
  EcdsaAddress :: Address
  BLSPublicKey :: SerializedPublicKey
  EffectiveStake :: "Dec option"

record Committee =
  ShardID :: uint32
  Slots :: "Slot list"

record State =
  Epoch :: "int option"
  Shards :: "Committee list"

record SlotLegacy =
  legacyEcdsaAddress :: Address
  legacyBLSPublicKey :: SerializedPublicKey

record CommitteeLegacy =
  legacyShardID :: uint32
  legacySlots :: "SlotLegacy list"

type_synonym StateLegacy = "CommitteeLegacy list"

section \<open>RLP wrappers\<close>

definition Slot_of_legacy :: "SlotLegacy \<Rightarrow> Slot" where
  "Slot_of_legacy slot = \<lparr>EcdsaAddress = legacyEcdsaAddress slot,
     BLSPublicKey = legacyBLSPublicKey slot, EffectiveStake = None\<rparr>"

definition DecodeWrapper ::
  "('bytes \<Rightarrow> State go) \<Rightarrow> ('bytes \<Rightarrow> StateLegacy go) \<Rightarrow> 'bytes \<Rightarrow> State go" where
  "DecodeWrapper decodeState decodeLegacy shardState =
     (case decodeState shardState of
        Inr newSS \<Rightarrow> Inr newSS
      | Inl _ \<Rightarrow>
          (case decodeLegacy shardState of
             Inr oldSS \<Rightarrow> Inr \<lparr>Epoch = None,
               Shards = map (\<lambda>c. \<lparr>ShardID = legacyShardID c,
                                  Slots = map Slot_of_legacy (legacySlots c)\<rparr>) oldSS\<rparr>
           | Inl err2 \<Rightarrow> Inl err2))"

definition State_to_legacy :: "State \<Rightarrow> StateLegacy" where
  "State_to_legacy shardState =
     map (\<lambda>c. \<lparr>legacyShardID = ShardID c,
              legacySlots = map (\<lambda>slot. \<lparr>legacyEcdsaAddress = EcdsaAddress slot,
                                         legacyBLSPublicKey = BLSPublicKey slot\<rparr>) (Slots c)\<rparr>)
       (Shards shardState)"

definition EncodeWrapper ::
  "(State \<Rightarrow> 'bytes go) \<Rightarrow> (StateLegacy \<Rightarrow> 'bytes go) \<Rightarrow> State \<Rightarrow> bool \<Rightarrow> 'bytes go" where
  "EncodeWrapper encodeState encodeLegacy shardState isStaking =
     (if isStaking then encodeState shardState
      else encodeLegacy (State_to_legacy shardState))"

section \<open>Staked validators\<close>

record StakedSlots =
  CountStakedValidator :: int
  CountStakedBLSKey :: int
  Addrs :: "Address list"
  LookupSet :: "Address set"
  TotalEffectiveStaked :: Dec

definition no_StakedSlots :: StakedSlots where
  "no_StakedSlots = \<lparr>CountStakedValidator = 0, CountStakedBLSKey = 0, Addrs = [],
     LookupSet = {}, TotalEffectiveStaked = ZeroDec\<rparr>"

definition count_slot :: "StakedSlots \<Rightarrow> Slot \<Rightarrow> StakedSlots go" where
  "count_slot r slot =
     (case EffectiveStake slot of
        None \<Rightarrow> Inr r
      | Some e \<Rightarrow>
          go_bind (Add (TotalEffectiveStaked r) e) (\<lambda>total.
            let addr = EcdsaAddress slot;
                r1 = r\<lparr>TotalEffectiveStaked := total, CountStakedBLSKey := CountStakedBLSKey r + 1\<rparr>
            in Inr (if addr \<in> LookupSet r1 then r1
                    else r1\<lparr>CountStakedValidator := CountStakedValidator r1 + 1,
                            LookupSet := insert addr (LookupSet r1),
                            Addrs := Addrs r1 @ [addr]\<rparr>)))"

definition Committee_StakedValidators :: "Committee \<Rightarrow> StakedSlots go" where
  "Committee_StakedValidators c = go_fold count_slot no_StakedSlots (Slots c)"

definition State_StakedValidators :: "State \<Rightarrow> StakedSlots go" where
  "State_StakedValidators ss =
     go_fold (\<lambda>r shard. go_fold count_slot r (Slots shard)) no_StakedSlots (Shards ss)"

section \<open>Lookups and comparisons\<close>

definition FindCommitteeByID :: "State option \<Rightarrow> uint32 \<Rightarrow> Committee go" where
  "FindCommitteeByID ss shardID =
     (case ss of
        None \<Rightarrow> Inl (Error ''ErrShardIDNotInSuperCommittee'')
      | Some s \<Rightarrow>
          (case find (\<lambda>c. ShardID c = shardID) (Shards s) of
             Some c \<Rightarrow> Inr c
           | None \<Rightarrow> Inl (Error ''ErrShardIDNotInSuperCommittee'')))"

definition BLSPublicKeys ::
  "(SerializedPublicKey \<Rightarrow> 'pk go) \<Rightarrow> Committee option \<Rightarrow> 'pk PublicKeyWrapper list go" where
  "BLSPublicKeys BytesToBLSPublicKey c =
     (case c of
        None \<Rightarrow> Inl (Error ''ErrSubCommitteeNil'')
      | Some comm \<Rightarrow>
          go_map (\<lambda>slot. go_bind (BytesToBLSPublicKey (BLSPublicKey slot))
                    (\<lambda>pubKey. Inr \<lparr>Bytes = BLSPublicKey slot, Object = pubKey\<rparr>))
            (Slots comm))"

definition compare_words :: "'a::len word \<Rightarrow> 'a word \<Rightarrow> int" where
  "compare_words a b = (if a < b then - 1 else if a > b then 1 else 0)"

definition CompareBLSPublicKey :: "SerializedPublicKey \<Rightarrow> SerializedPublicKey \<Rightarrow> int" where
  "CompareBLSPublicKey k1 k2 = compare_words k1 k2"

definition AddressForBLSKey :: "Committee option \<Rightarrow> SerializedPublicKey \<Rightarrow> Address go" where
  "AddressForBLSKey c key =
     (case c of
        None \<Rightarrow> Inl (Error ''ErrSubCommitteeNil'')
      | Some comm \<Rightarrow>
          (case find (\<lambda>slot. CompareBLSPublicKey (BLSPublicKey slot) key = 0) (Slots comm) of
             Some slot \<Rightarrow> Inr (EcdsaAddress slot)
           | None \<Rightarrow> Inl (Error ''ErrValidNotInCommittee'')))"

definition CompareNodeID :: "Slot \<Rightarrow> Slot \<Rightarrow> int" where
  "CompareNodeID id1 id2 =
     (let c = compare_words (EcdsaAddress id1) (EcdsaAddress id2)
      in if c \<noteq> 0 then c else CompareBLSPublicKey (BLSPublicKey id1) (BLSPublicKey id2))"

fun CompareNodeIDList :: "Slot list \<Rightarrow> Slot list \<Rightarrow> int" where
  "CompareNodeIDList (a # l1) (b # l2) =
     (let c = CompareNodeID a b in if c \<noteq> 0 then c else CompareNodeIDList l1 l2)"
| "CompareNodeIDList [] (b # l2) = - 1"
| "CompareNodeIDList (a # l1) [] = 1"
| "CompareNodeIDList [] [] = 0"

definition CompareCommittee :: "Committee \<Rightarrow> Committee \<Rightarrow> int" where
  "CompareCommittee c1 c2 =
     (if ShardID c1 < ShardID c2 then - 1
      else if ShardID c1 > ShardID c2 then 1
      else CompareNodeIDList (Slots c1) (Slots c2))"

section \<open>Hashing\<close>

definition bytes_be :: "nat \<Rightarrow> 'a::len word \<Rightarrow> uint8 list" where
  "bytes_be n w = map (\<lambda>i. ucast (drop_bit (8 * i) w)) (rev [0..<n])"

definition Slot_Serialize :: "Slot \<Rightarrow> uint8 list" where
  "Slot_Serialize n = bytes_be 20 (EcdsaAddress n) @ bytes_be 48 (BLSPublicKey n)"

definition GetHashFromNodeList :: "(uint8 list \<Rightarrow> uint8 list) \<Rightarrow> Slot list \<Rightarrow> uint8 list" where
  "GetHashFromNodeList keccak nodeList =
     (if length nodeList = 0 then [] else keccak (concat (map Slot_Serialize nodeList)))"

text \<open>
  \<open>sort.Slice\<close> promises no order among equal shard numbers; the model keeps theirs, so statements
  about the hash assume distinct shard numbers.
\<close>

definition State_Hash :: "(uint8 list \<Rightarrow> uint8 list) \<Rightarrow> State \<Rightarrow> uint8 list" where
  "State_Hash keccak ss =
     keccak (concat (map (\<lambda>c. GetHashFromNodeList keccak (Slots c)) (sort_key ShardID (Shards ss))))"

definition ExternalSlotsAvailableForEpoch :: "(int \<Rightarrow> 'pk Instance) \<Rightarrow> int \<Rightarrow> int" where
  "ExternalSlotsAvailableForEpoch InstanceForEpoch epoch =
     (let i = InstanceForEpoch epoch
      in (numNodesPerShard i - numIntelchainOperatedNodesPerShard i) * uint (numShards i))"

section \<open>Counting staked slots\<close>

definition staked :: "Slot list \<Rightarrow> Slot list" where
  "staked slots = filter (\<lambda>s. EffectiveStake s \<noteq> None) slots"

definition stake_of :: "Slot \<Rightarrow> Dec" where
  "stake_of s = (case EffectiveStake s of Some e \<Rightarrow> e | None \<Rightarrow> 0)"

definition counts :: "Slot list \<Rightarrow> StakedSlots \<Rightarrow> bool" where
  "counts slots r \<longleftrightarrow>
     CountStakedBLSKey r = int (length (staked slots)) \<and>
     CountStakedValidator r = int (length (Addrs r)) \<and>
     distinct (Addrs r) \<and> LookupSet r = set (Addrs r) \<and>
     set (Addrs r) = EcdsaAddress ` set (staked slots) \<and>
     TotalEffectiveStaked r = sum_list (map stake_of slots)"

lemma counts_start: "counts [] no_StakedSlots"
  by (simp add: counts_def no_StakedSlots_def staked_def ZeroDec_def)

lemma counts_step:
  assumes "counts slots r" "count_slot r s = Inr r'"
  shows "counts (slots @ [s]) r'"
proof (cases "EffectiveStake s")
  case None
  then show ?thesis using assms by (simp add: counts_def count_slot_def staked_def stake_of_def)
next
  case (Some e)
  show ?thesis
  proof (cases "EcdsaAddress s \<in> LookupSet r")
    case True
    then show ?thesis using assms Some
      by (auto simp: counts_def count_slot_def staked_def stake_of_def Let_def)
  next
    case False
    then show ?thesis using assms Some
      by (auto simp: counts_def count_slot_def staked_def stake_of_def Let_def)
  qed
qed

lemma counts_fold: "counts xs r \<Longrightarrow> go_fold count_slot r slots = Inr r' \<Longrightarrow> counts (xs @ slots) r'"
proof (induction slots arbitrary: xs r)
  case Nil
  then show ?case by simp
next
  case (Cons s slots)
  then obtain r1 where "count_slot r s = Inr r1" "go_fold count_slot r1 slots = Inr r'" by auto
  then show ?case using Cons.IH [OF counts_step [OF Cons.prems(1)]] by simp
qed

lemma nested_fold: "go_fold (\<lambda>r c. go_fold f r (g c)) s cs = go_fold f s (concat (map g cs))"
  by (induction cs arbitrary: s) (simp_all add: go_fold_append)

text \<open>
The overview of a committee is right: its address list has each staked validator once, the two
counters are the numbers of staked validators and of staked keys, and the total is the sum of the
effective stakes; the super-committee version is the same overview of all shards' slots together.
\<close>

theorem StakedValidators_correct:
  assumes "State_StakedValidators ss = Inr r"
  shows "distinct (Addrs r) \<and>
    set (Addrs r) = {EcdsaAddress s | c s. c \<in> set (Shards ss) \<and> s \<in> set (Slots c) \<and> EffectiveStake s \<noteq> None} \<and>
    LookupSet r = set (Addrs r) \<and> CountStakedValidator r = int (card (LookupSet r)) \<and>
    CountStakedBLSKey r = int (length (staked (concat (map Slots (Shards ss))))) \<and>
    TotalEffectiveStaked r = sum_list (map stake_of (concat (map Slots (Shards ss)))) \<and>
    Committee_StakedValidators \<lparr>ShardID = i, Slots = concat (map Slots (Shards ss))\<rparr> = Inr r"
proof -
  let ?slots = "concat (map Slots (Shards ss))"
  have run: "go_fold count_slot no_StakedSlots ?slots = Inr r"
    using assms by (simp add: State_StakedValidators_def nested_fold)
  then have c: "counts ?slots r" using counts_fold [OF counts_start] by simp
  have "EcdsaAddress ` set (staked ?slots) =
      {EcdsaAddress s | c s. c \<in> set (Shards ss) \<and> s \<in> set (Slots c) \<and> EffectiveStake s \<noteq> None}"
    by (auto simp: staked_def image_iff)
  moreover have "int (length (Addrs r)) = int (card (set (Addrs r)))"
    using c unfolding counts_def by (metis distinct_card)
  ultimately show ?thesis
    using c run unfolding counts_def by (simp only: Committee_StakedValidators_def) simp
qed

definition sample_slot :: "Address \<Rightarrow> SerializedPublicKey \<Rightarrow> Dec option \<Rightarrow> Slot" where
  "sample_slot a k e = \<lparr>EcdsaAddress = a, BLSPublicKey = k, EffectiveStake = e\<rparr>"

definition sample_state :: State where
  "sample_state = \<lparr>Epoch = Some 5, Shards =
     [\<lparr>ShardID = 0, Slots = [sample_slot 1 10 None, sample_slot 2 20 (Some 300)]\<rparr>,
      \<lparr>ShardID = 1, Slots = [sample_slot 2 21 (Some 300), sample_slot 3 30 (Some 500)]\<rparr>]\<rparr>"

theorem StakedValidators_correct_witness:
  "\<exists>r. State_StakedValidators sample_state = Inr r \<and> distinct (Addrs r) \<and> CountStakedValidator r = 2 \<and>
       TotalEffectiveStaked r = 1100"
proof -
  obtain r where r: "State_StakedValidators sample_state = Inr r" "CountStakedValidator r = 2"
    by (simp add: State_StakedValidators_def sample_state_def sample_slot_def count_slot_def
        no_StakedSlots_def dec_eval)
  from StakedValidators_correct [OF r(1), of 0] r show ?thesis
    by (simp add: sample_state_def sample_slot_def stake_of_def)
qed

section \<open>Round trip of the wrappers\<close>



section \<open>Comparison and hash\<close>

lemma compare_words_zero [simp]: "compare_words a b = 0 \<longleftrightarrow> a = b"
  by (auto simp: compare_words_def)

lemma compare_words_swap: "compare_words a b = - compare_words b a"
  by (auto simp: compare_words_def)

lemma CompareNodeID_swap: "CompareNodeID a b = - CompareNodeID b a"
  by (auto simp: CompareNodeID_def CompareBLSPublicKey_def Let_def
      compare_words_swap [of "EcdsaAddress a"] compare_words_swap [of "BLSPublicKey a"])

lemma CompareNodeID_zero:
  "CompareNodeID a b = 0 \<longleftrightarrow> EcdsaAddress a = EcdsaAddress b \<and> BLSPublicKey a = BLSPublicKey b"
  by (simp add: CompareNodeID_def CompareBLSPublicKey_def Let_def)

lemma CompareNodeIDList_swap: "CompareNodeIDList a b = - CompareNodeIDList b a"
proof (induction a b rule: CompareNodeIDList.induct)
  case (1 a l1 b l2)
  then show ?case using CompareNodeID_swap [of a b] by (auto simp: Let_def)
qed simp_all

lemma CompareNodeIDList_zero:
  "CompareNodeIDList a b = 0 \<longleftrightarrow>
     map (\<lambda>s. (EcdsaAddress s, BLSPublicKey s)) a = map (\<lambda>s. (EcdsaAddress s, BLSPublicKey s)) b"
  by (induction a b rule: CompareNodeIDList.induct) (auto simp: Let_def CompareNodeID_zero)

text \<open>
\<open>CompareCommittee\<close> is antisymmetric, and reports equality exactly for committees of one shard
with the same addresses and keys in the same order (the stakes are not compared).
\<close>

theorem CompareCommittee_order:
  "CompareCommittee c1 c2 = - CompareCommittee c2 c1 \<and>
   (CompareCommittee c1 c2 = 0 \<longleftrightarrow> ShardID c1 = ShardID c2 \<and>
      map (\<lambda>s. (EcdsaAddress s, BLSPublicKey s)) (Slots c1) =
      map (\<lambda>s. (EcdsaAddress s, BLSPublicKey s)) (Slots c2))"
  using CompareNodeIDList_swap [of "Slots c1" "Slots c2"] CompareNodeIDList_zero [of "Slots c1" "Slots c2"]
  by (auto simp: CompareCommittee_def)

text \<open>
The state hash does not depend on the order in which the committees are listed, as long as no
two committees have the same shard number.
\<close>

theorem State_Hash_order_independent:
  assumes "mset (Shards s1) = mset (Shards s2)" and "distinct (map ShardID (Shards s1))"
  shows "State_Hash keccak s1 = State_Hash keccak s2"
proof -
  have inj: "inj_on ShardID (set (Shards s1))" using assms(2) by (simp add: distinct_map)
  have eq: "map ShardID (sort_key ShardID (Shards s1)) = map ShardID (sort_key ShardID (Shards s2))"
  proof -
    have "sort (map ShardID (Shards s1)) = map ShardID (sort_key ShardID (Shards s1))"
      by (rule properties_for_sort) simp_all
    moreover have "sort (map ShardID (Shards s1)) = map ShardID (sort_key ShardID (Shards s2))"
      by (rule properties_for_sort) (simp_all add: assms(1))
    ultimately show ?thesis by simp
  qed
  have "set (Shards s2) = set (Shards s1)" using mset_eq_setD [OF assms(1)] by blast
  then have "sort_key ShardID (Shards s1) = sort_key ShardID (Shards s2)"
    by (intro map_inj_on [OF eq]) (simp only: set_sort Un_absorb inj)
  then show ?thesis by (simp add: State_Hash_def)
qed

theorem State_Hash_order_independent_witness:
  "State_Hash id sample_state = State_Hash id \<lparr>Epoch = None, Shards = rev (Shards sample_state)\<rparr>"
  using State_Hash_order_independent [of sample_state "\<lparr>Epoch = None, Shards = rev (Shards sample_state)\<rparr>" id]
  by (simp add: sample_state_def)

end
