(* ===== verification/Votepower.thy ===== *)
theory Votepower
  imports ShardState
begin

text \<open>
  The voting power of \<open>consensus/votepower/roster.go\<close>: ballots, rounds, the roster that \<open>Compute\<close>
  builds from a committee, the power behind a mask and the per-validator aggregation of rosters.
  \<open>Compute\<close> hands out pointers to the votes it allocates and later updates one of them through an
  alias; the model keeps the allocated votes in a list (the heap of the loop), the map from keys to
  positions in it, and reads the map through the list at the end.
\<close>

section \<open>Data\<close>

record Ballot =
  SignerPubKeys :: "SerializedPublicKey list"
  BlockHeaderHash :: Hash
  Signature :: "uint8 list"
  Height :: uint64
  ViewID :: uint64

record 'sig Round =
  AggregatedVote :: 'sig
  BallotBox :: "(SerializedPublicKey \<times> Ballot) list"

definition NewRound :: "'sig \<Rightarrow> 'sig Round" where
  "NewRound emptySig = \<lparr>AggregatedVote = emptySig, BallotBox = []\<rparr>"

record PureStakedVote =
  EarningAccount :: Address
  Identity :: SerializedPublicKey
  GroupPercent :: Dec
  voteEffectiveStake :: Dec
  RawStake :: Dec

record AccommodateIntelchainVote = PureStakedVote +
  IsIntelchainNode :: bool
  OverallPercent :: Dec

record VoteOnSubcomittee = AccommodateIntelchainVote +
  voteShardID :: uint32

record Roster =
  Voters :: "(SerializedPublicKey \<times> AccommodateIntelchainVote) list"
  rosterShardID :: uint32
  OrderedSlots :: "SerializedPublicKey list"
  OurVotingPowerTotalPercentage :: Dec
  TheirVotingPowerTotalPercentage :: Dec
  TotalEffectiveStake :: Dec
  ITCSlotCount :: int

definition NewRoster :: "uint32 \<Rightarrow> Roster" where
  "NewRoster shardID = \<lparr>Voters = [], rosterShardID = shardID, OrderedSlots = [],
     OurVotingPowerTotalPercentage = ZeroDec, TheirVotingPowerTotalPercentage = ZeroDec,
     TotalEffectiveStake = ZeroDec, ITCSlotCount = 0\<rparr>"

section \<open>Compute\<close>

definition count_stakes :: "Roster \<Rightarrow> Slot list \<Rightarrow> Roster go" where
  "count_stakes roster slots =
     go_fold (\<lambda>r s. case EffectiveStake s of
                Some e \<Rightarrow> go_bind (Add (TotalEffectiveStake r) e)
                            (\<lambda>t. Inr (r\<lparr>TotalEffectiveStake := t\<rparr>))
              | None \<Rightarrow> Inr (r\<lparr>ITCSlotCount := ITCSlotCount r + 1\<rparr>)) roster slots"

record compute_state =
  ourPercentage :: Dec
  theirPercentage :: Dec
  lastStakedVoter :: "nat option"
  votes :: "AccommodateIntelchainVote list"
  voters :: "(SerializedPublicKey \<times> nat) list"

definition new_member :: "Slot \<Rightarrow> AccommodateIntelchainVote" where
  "new_member s = \<lparr>EarningAccount = EcdsaAddress s, Identity = BLSPublicKey s,
     GroupPercent = ZeroDec, voteEffectiveStake = ZeroDec, RawStake = ZeroDec,
     IsIntelchainNode = False, OverallPercent = ZeroDec\<rparr>"

definition staked_member :: "Dec \<Rightarrow> Dec \<Rightarrow> Dec \<Rightarrow> Slot \<Rightarrow> AccommodateIntelchainVote go" where
  "staked_member totalStake externalPercent e s =
     (let member = new_member s
      in go_bind (Add (voteEffectiveStake member) e) (\<lambda>es.
         go_bind (Quo e totalStake) (\<lambda>gp.
         go_bind (Mul gp externalPercent) (\<lambda>op.
           Inr (member\<lparr>voteEffectiveStake := es, GroupPercent := gp, OverallPercent := op\<rparr>)))))"

definition our_member :: "Dec \<Rightarrow> Dec \<Rightarrow> Slot \<Rightarrow> AccommodateIntelchainVote go" where
  "our_member asDecITCSlotCount intelchainPercent s =
     go_bind (Quo intelchainPercent asDecITCSlotCount) (\<lambda>op.
     go_bind (Quo op intelchainPercent) (\<lambda>gp.
       Inr ((new_member s)\<lparr>IsIntelchainNode := True, OverallPercent := op, GroupPercent := gp\<rparr>)))"

definition add_voter :: "SerializedPublicKey \<Rightarrow> AccommodateIntelchainVote \<Rightarrow> compute_state \<Rightarrow> compute_state" where
  "add_voter key member st =
     st\<lparr>votes := votes st @ [member],
        voters := (if key \<in> fst ` set (voters st) then voters st
                   else voters st @ [(key, length (votes st))])\<rparr>"

definition compute_step ::
  "Dec \<Rightarrow> Dec \<Rightarrow> Dec \<Rightarrow> Dec \<Rightarrow> compute_state \<Rightarrow> Slot \<Rightarrow> compute_state go" where
  "compute_step totalStake asDecITCSlotCount intelchainPercent externalPercent st s =
     (case EffectiveStake s of
        Some e \<Rightarrow>
          go_bind (staked_member totalStake externalPercent e s) (\<lambda>member.
          go_bind (Add (theirPercentage st) (OverallPercent member)) (\<lambda>their.
            Inr (add_voter (BLSPublicKey s) member
                   (st\<lparr>theirPercentage := their, lastStakedVoter := Some (length (votes st))\<rparr>))))
      | None \<Rightarrow>
          go_bind (our_member asDecITCSlotCount intelchainPercent s) (\<lambda>member.
          go_bind (Add (ourPercentage st) (OverallPercent member)) (\<lambda>our.
            Inr (add_voter (BLSPublicKey s) member (st\<lparr>ourPercentage := our\<rparr>)))))"

definition give_diff :: "compute_state \<Rightarrow> compute_state go" where
  "give_diff st =
     go_bind (Add (ourPercentage st) (theirPercentage st)) (\<lambda>sum.
     go_bind (Sub OneDec sum) (\<lambda>diff.
       case lastStakedVoter st of
         None \<Rightarrow> Inr st
       | Some i \<Rightarrow>
           go_bind (if \<not> IsZero diff
                    then go_bind (Add (OverallPercent (votes st ! i)) diff) (\<lambda>op.
                         go_bind (Add (theirPercentage st) diff) (\<lambda>their.
                           Inr (st\<lparr>votes := (votes st)[i := (votes st ! i)\<lparr>OverallPercent := op\<rparr>],
                                   theirPercentage := their\<rparr>)))
                    else Inr st) (\<lambda>st1.
           go_bind (Add (ourPercentage st1) (theirPercentage st1)) (\<lambda>sum1.
             if \<not> Equal sum1 OneDec then Inl (Error ''ErrVotingPowerNotEqualOne'') else Inr st1))))"

definition Roster_Compute :: "(int \<Rightarrow> 'pk Instance) \<Rightarrow> Committee \<Rightarrow> int option \<Rightarrow> Roster go" where
  "Roster_Compute InstanceForEpoch subComm epoch =
     (case epoch of
        None \<Rightarrow> Inl (Error ''nil epoch for roster compute'')
      | Some ep \<Rightarrow>
          go_bind (count_stakes (NewRoster (ShardID subComm)) (Slots subComm)) (\<lambda>roster.
            let asDecITCSlotCount = NewDec (ITCSlotCount roster);
                intelchainPercent = intelchainVotePercent (InstanceForEpoch ep);
                externalPercent = externalVotePercent (InstanceForEpoch ep)
            in go_bind (go_fold (compute_step (TotalEffectiveStake roster) asDecITCSlotCount
                                   intelchainPercent externalPercent)
                          \<lparr>ourPercentage = ZeroDec, theirPercentage = ZeroDec, lastStakedVoter = None,
                           votes = [], voters = []\<rparr> (Slots subComm)) (\<lambda>st.
               go_bind (give_diff st) (\<lambda>st1.
                 Inr (roster\<lparr>Voters := map (\<lambda>(k, i). (k, votes st1 ! i)) (voters st1),
                             OurVotingPowerTotalPercentage := ourPercentage st1,
                             TheirVotingPowerTotalPercentage := theirPercentage st1,
                             OrderedSlots := map BLSPublicKey (Slots subComm)\<rparr>)))))"

section \<open>Power behind a mask and aggregation\<close>

definition VotePowerByMask :: "Roster \<Rightarrow> 'pk Mask \<Rightarrow> Dec go" where
  "VotePowerByMask r m =
     go_fold (\<lambda>res (key, index).
        case IndexEnabled m (int index) of
          Inl (Panic p) \<Rightarrow> Inl (Panic p)
        | Inl (Error _) \<Rightarrow> Inr res
        | Inr en \<Rightarrow>
            if \<not> en then Inr res
            else (case map_of (Voters r) key of
                    None \<Rightarrow> Inr res
                  | Some voter \<Rightarrow> Add res (OverallPercent voter)))
       ZeroDec (PublicsIndex m)"

text \<open>
  The loop over the map \<open>roster.Voters\<close> visits the votes in some order; the model takes the order
  of the association list, and the statements about the result only speak of multisets.
\<close>

definition AggregateRosters :: "Roster list \<Rightarrow> (Address \<times> VoteOnSubcomittee list) list" where
  "AggregateRosters rosters =
     fold (\<lambda>roster result.
        fold (\<lambda>(_, voteCard) result.
           if \<not> IsIntelchainNode voteCard
           then let voterID = AccommodateIntelchainVote.extend voteCard
                                (VoteOnSubcomittee.fields (rosterShardID roster));
                    old = (case map_of result (EarningAccount voteCard) of Some vs \<Rightarrow> vs | None \<Rightarrow> [])
                in AList.update (EarningAccount voteCard) (old @ [voterID]) result
           else result) (Voters roster) result)
       (sort_key rosterShardID rosters) []"

section \<open>What the loop of Compute keeps\<close>

definition vote_ok :: "Slot \<Rightarrow> AccommodateIntelchainVote \<Rightarrow> bool" where
  "vote_ok s v \<longleftrightarrow> Identity v = BLSPublicKey s \<and> EarningAccount v = EcdsaAddress s \<and>
     (IsIntelchainNode v \<longleftrightarrow> EffectiveStake s = None) \<and> voteEffectiveStake v = stake_of s"

definition power_if :: "bool \<Rightarrow> AccommodateIntelchainVote \<Rightarrow> Dec" where
  "power_if ours v = (if IsIntelchainNode v = ours then OverallPercent v else 0)"

definition roster_inv :: "Slot list \<Rightarrow> compute_state \<Rightarrow> bool" where
  "roster_inv ys st \<longleftrightarrow>
     list_all2 vote_ok ys (votes st) \<and>
     ourPercentage st = sum_list (map (power_if True) (votes st)) \<and>
     theirPercentage st = sum_list (map (power_if False) (votes st)) \<and>
     (case lastStakedVoter st of
        None \<Rightarrow> \<forall>s \<in> set ys. EffectiveStake s = None
      | Some i \<Rightarrow> i < length ys \<and> EffectiveStake (ys ! i) \<noteq> None) \<and>
     (distinct (map BLSPublicKey ys) \<longrightarrow> voters st = zip (map BLSPublicKey ys) [0..<length ys])"

lemma power_split: "power_if True v + power_if False v = OverallPercent v"
  by (simp add: power_if_def)

lemma power_sums:
  "sum_list (map (power_if True) vs) + sum_list (map (power_if False) vs) = sum_list (map OverallPercent vs)"
proof (induction vs)
  case (Cons v vs)
  then show ?case using power_split [of v] by simp
qed simp

lemma staked_member_ok:
  "staked_member T X e s = Inr v \<Longrightarrow> EffectiveStake s = Some e \<Longrightarrow> vote_ok s v \<and> \<not> IsIntelchainNode v"
  by (auto simp: staked_member_def new_member_def vote_ok_def stake_of_def ZeroDec_def Let_def)

lemma our_member_ok:
  "our_member N I s = Inr v \<Longrightarrow> EffectiveStake s = None \<Longrightarrow> vote_ok s v \<and> IsIntelchainNode v"
  by (auto simp: our_member_def new_member_def vote_ok_def stake_of_def ZeroDec_def)

lemma voters_snoc:
  assumes "list_all2 vote_ok ys (votes st)"
    and "distinct (map BLSPublicKey ys) \<longrightarrow> voters st = zip (map BLSPublicKey ys) [0..<length ys]"
    and "distinct (map BLSPublicKey (ys @ [s]))"
  shows "voters (add_voter (BLSPublicKey s) v st) = zip (map BLSPublicKey (ys @ [s])) [0..<length (ys @ [s])]"
proof -
  have len: "length (votes st) = length ys" using assms(1) by (auto dest: list_all2_lengthD)
  have v: "voters st = zip (map BLSPublicKey ys) [0..<length ys]" using assms(2,3) by simp
  then have "fst ` set (voters st) = BLSPublicKey ` set ys"
    by (metis diff_zero length_map length_upt list.set_map map_fst_zip)
  then show ?thesis using assms(3) v len by (auto simp: add_voter_def)
qed

lemma compute_step_inv:
  assumes inv: "roster_inv ys st" and step: "compute_step T N I X st s = Inr st'"
  shows "roster_inv (ys @ [s]) st'"
proof -
  have len: "length (votes st) = length ys"
    using inv by (auto simp: roster_inv_def dest: list_all2_lengthD)
  have la: "list_all2 vote_ok ys (votes st)"
    and vs: "distinct (map BLSPublicKey ys) \<longrightarrow> voters st = zip (map BLSPublicKey ys) [0..<length ys]"
    using inv by (simp_all add: roster_inv_def)
  show ?thesis
  proof (cases "EffectiveStake s")
    case None
    then obtain v where v: "our_member N I s = Inr v"
      and st': "st' = add_voter (BLSPublicKey s) v (st\<lparr>ourPercentage := ourPercentage st + OverallPercent v\<rparr>)"
      using step by (auto simp: compute_step_def)
    note ok = our_member_ok [OF v None]
    have "distinct (map BLSPublicKey (ys @ [s])) \<longrightarrow>
        voters st' = zip (map BLSPublicKey (ys @ [s])) [0..<length (ys @ [s])]"
      using voters_snoc [of ys "st\<lparr>ourPercentage := ourPercentage st + OverallPercent v\<rparr>" s v] la vs
      by (simp add: st')
    moreover have "list_all2 vote_ok (ys @ [s]) (votes st')"
      using la ok by (simp add: st' add_voter_def list_all2_appendI)
    moreover have "ourPercentage st' = sum_list (map (power_if True) (votes st'))"
      "theirPercentage st' = sum_list (map (power_if False) (votes st'))"
      using inv ok by (simp_all add: roster_inv_def st' add_voter_def power_if_def)
    moreover have "case lastStakedVoter st' of None \<Rightarrow> \<forall>t \<in> set (ys @ [s]). EffectiveStake t = None
        | Some i \<Rightarrow> i < length (ys @ [s]) \<and> EffectiveStake ((ys @ [s]) ! i) \<noteq> None"
      using inv None by (auto simp: roster_inv_def st' add_voter_def nth_append split: option.splits)
    ultimately show ?thesis unfolding roster_inv_def by blast
  next
    case (Some e)
    then obtain v where v: "staked_member T X e s = Inr v"
      and st': "st' = add_voter (BLSPublicKey s) v
        (st\<lparr>theirPercentage := theirPercentage st + OverallPercent v, lastStakedVoter := Some (length ys)\<rparr>)"
      using step len by (auto simp: compute_step_def)
    note ok = staked_member_ok [OF v Some]
    have "distinct (map BLSPublicKey (ys @ [s])) \<longrightarrow>
        voters st' = zip (map BLSPublicKey (ys @ [s])) [0..<length (ys @ [s])]"
      using voters_snoc [of ys "st\<lparr>theirPercentage := theirPercentage st + OverallPercent v,
          lastStakedVoter := Some (length ys)\<rparr>" s v] la vs
      by (simp add: st')
    moreover have "list_all2 vote_ok (ys @ [s]) (votes st')"
      using la ok by (simp add: st' add_voter_def list_all2_appendI)
    moreover have "ourPercentage st' = sum_list (map (power_if True) (votes st'))"
      "theirPercentage st' = sum_list (map (power_if False) (votes st'))"
      using inv ok by (simp_all add: roster_inv_def st' add_voter_def power_if_def)
    moreover have "lastStakedVoter st' = Some (length ys)" by (simp add: st' add_voter_def)
    ultimately show ?thesis unfolding roster_inv_def using Some by simp
  qed
qed

lemma give_diff_inv:
  assumes inv: "roster_inv ys st" and run: "give_diff st = Inr st'"
  shows "roster_inv ys st' \<and> lastStakedVoter st' = lastStakedVoter st \<and>
    (lastStakedVoter st \<noteq> None \<longrightarrow> ourPercentage st' + theirPercentage st' = OneDec) \<and>
    (\<forall>i < length ys. votes st' ! i = (if lastStakedVoter st = Some i
       then (votes st ! i)\<lparr>OverallPercent := OverallPercent (votes st ! i) +
              (OneDec - (ourPercentage st + theirPercentage st))\<rparr>
       else votes st ! i))"
proof (cases "lastStakedVoter st")
  case None
  then show ?thesis using inv run by (auto simp: give_diff_def)
next
  case (Some i)
  define d where "d = OneDec - (ourPercentage st + theirPercentage st)"
  define v where "v = (votes st ! i)\<lparr>OverallPercent := OverallPercent (votes st ! i) + d\<rparr>"
  have la: "list_all2 vote_ok ys (votes st)" and i: "i < length ys" "EffectiveStake (ys ! i) \<noteq> None"
    using inv Some by (simp_all add: roster_inv_def)
  have len: "length (votes st) = length ys" using la by (auto dest: list_all2_lengthD)
  have okv: "vote_ok (ys ! i) (votes st ! i)" using la i by (simp add: list_all2_conv_all_nth)
  then have nv: "\<not> IsIntelchainNode (votes st ! i)" using i by (simp add: vote_ok_def)
  show ?thesis
  proof (cases "d = 0")
    case True
    have "st' = st" using run Some True by (auto simp: give_diff_def d_def split: if_splits)
    moreover have "(votes st ! j)\<lparr>OverallPercent := OverallPercent (votes st ! j) + d\<rparr> = votes st ! j" for j
      using True by simp
    ultimately show ?thesis using inv True by (simp add: d_def [symmetric]) (simp add: d_def)
  next
    case False
    have st': "st' = st\<lparr>votes := (votes st)[i := v], theirPercentage := theirPercentage st + d\<rparr>"
      using run Some False by (auto simp: give_diff_def d_def v_def split: if_splits)
    have "list_all2 vote_ok ys ((votes st)[i := v])"
      using list_all2_update_cong [OF la, of "ys ! i" v i] okv by (simp add: v_def vote_ok_def)
    moreover have "sum_list (map (power_if b) ((votes st)[i := v])) =
        sum_list (map (power_if b) (votes st)) + (if b then 0 else d)" for b
      using i len nv by (simp add: sum_list_map_update power_if_def v_def)
    ultimately have "roster_inv ys st'"
      using inv Some by (simp add: roster_inv_def st')
    then show ?thesis using i len Some
      by (auto simp: st' v_def d_def [symmetric] nth_list_update) (simp add: d_def)
  qed
qed

lemma count_stakes_eq:
  "count_stakes r slots = Inr r' \<Longrightarrow>
     r' = r\<lparr>TotalEffectiveStake := TotalEffectiveStake r + sum_list (map stake_of slots),
            ITCSlotCount := ITCSlotCount r + int (length (filter (\<lambda>s. EffectiveStake s = None) slots))\<rparr>"
proof (induction slots arbitrary: r)
  case Nil
  then show ?case by (simp add: count_stakes_def)
next
  case (Cons s slots)
  show ?case
  proof (cases "EffectiveStake s")
    case None
    then have "count_stakes (r\<lparr>ITCSlotCount := ITCSlotCount r + 1\<rparr>) slots = Inr r'"
      using Cons.prems by (simp add: count_stakes_def)
    from Cons.IH [OF this] show ?thesis using None by (simp add: stake_of_def)
  next
    case (Some e)
    then have "count_stakes (r\<lparr>TotalEffectiveStake := TotalEffectiveStake r + e\<rparr>) slots = Inr r'"
      using Cons.prems by (auto simp: count_stakes_def)
    from Cons.IH [OF this] show ?thesis using Some by (simp add: stake_of_def add.assoc)
  qed
qed

definition compute_start :: compute_state where
  "compute_start = \<lparr>ourPercentage = ZeroDec, theirPercentage = ZeroDec, lastStakedVoter = None,
     votes = [], voters = []\<rparr>"

lemma roster_inv_start: "roster_inv [] compute_start"
  by (simp add: roster_inv_def compute_start_def ZeroDec_def)

definition itc_count :: "Slot list \<Rightarrow> int" where
  "itc_count slots = int (length (filter (\<lambda>s. EffectiveStake s = None) slots))"

text \<open>What \<open>Compute\<close> does, with the loop state that the later facts speak of.\<close>

lemma Roster_Compute_run:
  assumes "Roster_Compute sched c (Some ep) = Inr r"
  obtains st st' where
    "go_fold (compute_step (sum_list (map stake_of (Slots c))) (NewDec (itc_count (Slots c)))
       (intelchainVotePercent (sched ep)) (externalVotePercent (sched ep))) compute_start (Slots c) = Inr st"
    and "roster_inv (Slots c) st" and "give_diff st = Inr st'" and "roster_inv (Slots c) st'"
    and "Voters r = map (\<lambda>(k, i). (k, votes st' ! i)) (voters st')"
    and "OurVotingPowerTotalPercentage r = ourPercentage st'"
    and "TheirVotingPowerTotalPercentage r = theirPercentage st'"
    and "OrderedSlots r = map BLSPublicKey (Slots c)"
proof -
  from assms obtain ro where ro: "count_stakes (NewRoster (ShardID c)) (Slots c) = Inr ro"
    by (auto simp: Roster_Compute_def Let_def)
  have t: "TotalEffectiveStake ro = sum_list (map stake_of (Slots c))" "ITCSlotCount ro = itc_count (Slots c)"
    using count_stakes_eq [OF ro] by (simp_all add: NewRoster_def ZeroDec_def itc_count_def)
  from assms ro t obtain st st' where run:
    "go_fold (compute_step (sum_list (map stake_of (Slots c))) (NewDec (itc_count (Slots c)))
       (intelchainVotePercent (sched ep)) (externalVotePercent (sched ep))) compute_start (Slots c) = Inr st"
    "give_diff st = Inr st'"
    "r = ro\<lparr>Voters := map (\<lambda>(k, i). (k, votes st' ! i)) (voters st'),
            OurVotingPowerTotalPercentage := ourPercentage st',
            TheirVotingPowerTotalPercentage := theirPercentage st',
            OrderedSlots := map BLSPublicKey (Slots c)\<rparr>"
    by (auto simp: Roster_Compute_def Let_def compute_start_def)
  have inv: "roster_inv (Slots c) st"
    using go_fold_prefix_invariant [OF run(1), of roster_inv] roster_inv_start compute_step_inv by blast
  then show thesis using that run give_diff_inv [OF inv run(2)] by simp
qed

lemma Roster_Compute_voters:
  assumes "roster_inv slots st" "distinct (map BLSPublicKey slots)"
  shows "map (\<lambda>(k, i). (k, votes st ! i)) (voters st) = zip (map BLSPublicKey slots) (votes st)"
proof -
  have len: "length (votes st) = length slots"
    using assms(1) by (auto simp: roster_inv_def dest: list_all2_lengthD)
  have "voters st = zip (map BLSPublicKey slots) [0..<length slots]"
    using assms by (simp add: roster_inv_def)
  then show ?thesis using len by (auto intro!: nth_equalityI)
qed

lemma Roster_Compute_keys:
  assumes "Roster_Compute sched c (Some ep) = Inr r" "distinct (map BLSPublicKey (Slots c))"
  shows "map fst (Voters r) = map BLSPublicKey (Slots c)"
proof -
  obtain st' where st': "roster_inv (Slots c) st'" "Voters r = map (\<lambda>(k, i). (k, votes st' ! i)) (voters st')"
    using Roster_Compute_run [OF assms(1)] by metis
  then have "length (votes st') = length (Slots c)"
    by (auto simp: roster_inv_def dest: list_all2_lengthD)
  then show ?thesis using Roster_Compute_voters [OF st'(1) assms(2)] st'(2) by simp
qed

lemma sum_power_filter:
  "sum_list (map OverallPercent (filter IsIntelchainNode vs)) = sum_list (map (power_if True) vs)"
  "sum_list (map OverallPercent (filter (\<lambda>v. \<not> IsIntelchainNode v) vs)) = sum_list (map (power_if False) vs)"
  by (induction vs) (simp_all add: power_if_def)

definition sample_instance :: "int Instance" where
  "sample_instance = \<lparr>numShards = 2, numNodesPerShard = 4, numIntelchainOperatedNodesPerShard = 1,
     intelchainVotePercent = 490000000000000000, externalVotePercent = 510000000000000000,
     itcAccounts = [], fnAccounts = [], reshardingEpoch = [], blocksPerEpoch = 16, slotsLimit = 0,
     allowlist = \<lparr>MaxLimitPerShard = 0, alBLSPublicKeys = []\<rparr>, feeCollectors = [],
     emissionFraction = 0, recoveryAddress = 0\<rparr>"

definition sample_schedule :: "int \<Rightarrow> int Instance" where
  "sample_schedule epoch = sample_instance"

definition sample_committee :: Committee where
  "sample_committee = \<lparr>ShardID = 0, Slots =
     [sample_slot 1 10 None, sample_slot 2 20 (Some 3000000000000000000),
      sample_slot 3 30 (Some 4000000000000000000)]\<rparr>"

lemma sample_ops:
  "Quo 490000000000000000 (NewDec 1) = Inr 490000000000000000" "Quo 490000000000000000 490000000000000000 = Inr 1000000000000000000"
  "Quo 3000000000000000000 7000000000000000000 = Inr 428571428571428571" "Mul 428571428571428571 510000000000000000 = Inr 218571428571428571"
  "Quo 4000000000000000000 7000000000000000000 = Inr 571428571428571429" "Mul 571428571428571429 510000000000000000 = Inr 291428571428571429"
  by (simp_all add: dec_eval)

lemma Add_small: "\<bar>a + b\<bar> < 10 ^ 60 \<Longrightarrow> Add a b = Inr (a + b)"
  by (simp add: fitsDec_iff)

lemma Sub_small: "\<bar>a - b\<bar> < 10 ^ 60 \<Longrightarrow> Sub a b = Inr (a - b)"
  by (simp add: fitsDec_iff)

lemma sample_roster:
  obtains r where "Roster_Compute sample_schedule sample_committee (Some 1) = Inr r"
proof -
  have ours: "our_member (NewDec 1) 490000000000000000 s =
      Inr ((new_member s)\<lparr>IsIntelchainNode := True, OverallPercent := 490000000000000000, GroupPercent := 1000000000000000000\<rparr>)" for s
    by (simp add: our_member_def sample_ops)
  have staked: "staked_member 7000000000000000000 510000000000000000 3000000000000000000 s = Inr ((new_member s)\<lparr>voteEffectiveStake := 3000000000000000000,
        GroupPercent := 428571428571428571, OverallPercent := 218571428571428571\<rparr>)"
      "staked_member 7000000000000000000 510000000000000000 4000000000000000000 s = Inr ((new_member s)\<lparr>voteEffectiveStake := 4000000000000000000,
        GroupPercent := 571428571428571429, OverallPercent := 291428571428571429\<rparr>)" for s
    by (simp_all add: staked_member_def sample_ops Add_small new_member_def ZeroDec_def)
  have "\<exists>r. Roster_Compute sample_schedule sample_committee (Some 1) = Inr r"
    by (simp add: Roster_Compute_def sample_schedule_def sample_instance_def sample_committee_def
        sample_slot_def count_stakes_def NewRoster_def compute_step_def staked ours add_voter_def
        give_diff_def Add_small Sub_small Equal_def ZeroDec_def OneDec_def precisionReuse_def)
  then show thesis using that by blast
qed

text \<open>
C26: When \<open>Compute\<close> returns a roster for a committee with distinct keys, the map of voters has one
entry per slot, marked as operated by the network exactly when the slot carries no stake, and the
two totals are the sums over the two groups. As soon as one slot is staked, all voting power adds
up to exactly one, whatever the rounding of the individual shares.
\<close>

theorem Compute_power_sums_to_one:
  assumes "Roster_Compute sched c (Some ep) = Inr r" and "distinct (map BLSPublicKey (Slots c))"
  shows "map fst (Voters r) = map BLSPublicKey (Slots c) \<and>
    list_all2 vote_ok (Slots c) (map snd (Voters r)) \<and>
    OurVotingPowerTotalPercentage r =
      sum_list (map OverallPercent (filter IsIntelchainNode (map snd (Voters r)))) \<and>
    TheirVotingPowerTotalPercentage r =
      sum_list (map OverallPercent (filter (\<lambda>v. \<not> IsIntelchainNode v) (map snd (Voters r)))) \<and>
    ((\<exists>s \<in> set (Slots c). EffectiveStake s \<noteq> None) \<longrightarrow>
       sum_list (map (OverallPercent \<circ> snd) (Voters r)) = OneDec)"
proof -
  obtain st st' where run: "roster_inv (Slots c) st" "give_diff st = Inr st'" "roster_inv (Slots c) st'"
    "Voters r = map (\<lambda>(k, i). (k, votes st' ! i)) (voters st')"
    "OurVotingPowerTotalPercentage r = ourPercentage st'"
    "TheirVotingPowerTotalPercentage r = theirPercentage st'"
    using Roster_Compute_run [OF assms(1)] by metis
  have len: "length (votes st') = length (Slots c)"
    using run(3) by (auto simp: roster_inv_def dest: list_all2_lengthD)
  have v: "Voters r = zip (map BLSPublicKey (Slots c)) (votes st')"
    using Roster_Compute_voters [OF run(3) assms(2)] run(4) by simp
  then have fsts: "map fst (Voters r) = map BLSPublicKey (Slots c)" and snds: "map snd (Voters r) = votes st'"
    using len by simp_all
  have "sum_list (map (OverallPercent \<circ> snd) (Voters r)) = OneDec"
    if "\<exists>s \<in> set (Slots c). EffectiveStake s \<noteq> None"
  proof -
    have "lastStakedVoter st \<noteq> None"
      using run(1) that by (auto simp: roster_inv_def split: option.splits)
    then have "ourPercentage st' + theirPercentage st' = OneDec"
      using give_diff_inv [OF run(1,2)] by blast
    then have "sum_list (map OverallPercent (votes st')) = OneDec"
      using run(3) power_sums [of "votes st'"] by (simp add: roster_inv_def)
    then show ?thesis using snds by (metis map_map)
  qed
  then show ?thesis using fsts snds run(3,5,6)
    by (simp add: roster_inv_def sum_power_filter)
qed

theorem Compute_power_sums_to_one_witness:
  "\<exists>r. Roster_Compute sample_schedule sample_committee (Some 1) = Inr r \<and>
       sum_list (map (OverallPercent \<circ> snd) (Voters r)) = OneDec"
proof -
  obtain r where r: "Roster_Compute sample_schedule sample_committee (Some 1) = Inr r"
    by (rule sample_roster)
  have "\<exists>s \<in> set (Slots sample_committee). EffectiveStake s \<noteq> None"
    by (simp add: sample_committee_def sample_slot_def)
  then show ?thesis
    using Compute_power_sums_to_one [OF r] r by (simp add: sample_committee_def sample_slot_def)
qed

section \<open>How close the shares are to the stakes\<close>

text \<open>
  \<open>near T X e o\<close>: the power \<open>o\<close> is within two smallest units of the exact share \<open>e * X / T\<close>.
\<close>

lemma staked_member_near:
  assumes "staked_member T X e s = Inr v" "0 < T" "0 \<le> X" "X \<le> OneDec"
  shows "\<bar>OverallPercent v * T - e * X\<bar> \<le> 2 * T"
proof -
  from assms(1) obtain g where g: "Quo e T = Inr g" and m: "Mul g X = Inr (OverallPercent v)"
    by (auto simp: staked_member_def Let_def)
  let ?P = precisionReuse
  have "2 * ?P * \<bar>g * T - e * ?P\<bar> < T * (?P + 2)" using Quo_error [OF g] assms(2) by simp
  also have "\<dots> \<le> T * (2 * ?P)" using assms(2) by (intro mult_left_mono) (simp_all add: precisionReuse_def)
  finally have "2 * ?P * \<bar>g * T - e * ?P\<bar> < 2 * ?P * T" by (simp add: mult.commute mult.left_commute)
  then have e1: "\<bar>g * T - e * ?P\<bar> \<le> T" by simp
  have ov: "OverallPercent v = chopPrecisionAndRound (g * X)" using m by (auto simp: Mul_def Let_def)
  have e2: "\<bar>OverallPercent v * ?P - g * X\<bar> \<le> ?P"
    unfolding ov using half_less [OF chop_round_half [of "g * X"]] by simp
  have "?P * (OverallPercent v * T - e * X) = (OverallPercent v * ?P - g * X) * T + X * (g * T - e * ?P)"
    by (simp add: algebra_simps)
  then have "\<bar>?P * (OverallPercent v * T - e * X)\<bar> \<le>
      \<bar>(OverallPercent v * ?P - g * X) * T\<bar> + \<bar>X * (g * T - e * ?P)\<bar>"
    by (metis abs_triangle_ineq)
  also have "\<dots> \<le> ?P * T + ?P * T"
  proof (rule add_mono)
    show "\<bar>(OverallPercent v * ?P - g * X) * T\<bar> \<le> ?P * T"
      unfolding abs_mult using e2 assms(2) by (intro mult_mono) simp_all
    show "\<bar>X * (g * T - e * ?P)\<bar> \<le> ?P * T"
      unfolding abs_mult using e1 assms(2-4) by (intro mult_mono) (simp_all add: OneDec_def)
  qed
  finally have "?P * \<bar>OverallPercent v * T - e * X\<bar> \<le> ?P * (2 * T)" by (simp add: abs_mult)
  then show ?thesis by simp
qed

lemma our_member_near:
  assumes "our_member (NewDec n) I s = Inr v" "0 < n"
  shows "\<bar>OverallPercent v * n - I\<bar> \<le> n"
proof -
  from assms(1) have q: "Quo I (NewDec n) = Inr (OverallPercent v)" by (auto simp: our_member_def)
  let ?P = precisionReuse and ?o = "OverallPercent v"
  have "2 * ?P * \<bar>?o * (n * ?P) - I * ?P\<bar> < n * ?P * (?P + 2)"
    using Quo_error [OF q] assms(2) by (simp add: NewDec_def abs_mult)
  moreover have "?o * (n * ?P) - I * ?P = (?o * n - I) * ?P" by (simp add: algebra_simps)
  ultimately have "2 * ?P * (\<bar>?o * n - I\<bar> * ?P) < n * ?P * (?P + 2)"
    by (simp only: abs_mult) simp
  then have "?P * (2 * ?P * \<bar>?o * n - I\<bar>) < ?P * (n * (?P + 2))"
    by (simp only: mult.commute mult.left_commute)
  then have "2 * ?P * \<bar>?o * n - I\<bar> < n * (?P + 2)" by simp
  also have "\<dots> \<le> n * (2 * ?P)" using assms(2) by (intro mult_left_mono) (simp_all add: precisionReuse_def)
  finally have "2 * ?P * \<bar>?o * n - I\<bar> < 2 * ?P * n" by (simp add: mult.commute mult.left_commute)
  then show ?thesis by simp
qed

definition vote_near :: "int \<Rightarrow> int \<Rightarrow> Dec \<Rightarrow> Dec \<Rightarrow> Slot \<Rightarrow> AccommodateIntelchainVote \<Rightarrow> bool" where
  "vote_near T n I X s v \<longleftrightarrow>
     (case EffectiveStake s of
        Some e \<Rightarrow> \<bar>OverallPercent v * T - e * X\<bar> \<le> 2 * T
      | None \<Rightarrow> \<bar>OverallPercent v * n - I\<bar> \<le> n)"

lemma compute_step_votes:
  assumes "compute_step T (NewDec n) I X st s = Inr st'" "0 < T" "0 < n" "0 \<le> X" "X \<le> OneDec"
  shows "\<exists>v. votes st' = votes st @ [v] \<and> vote_near T n I X s v"
  using assms our_member_near [of n I s] staked_member_near [of T X _ s]
  by (auto simp: compute_step_def add_voter_def vote_near_def split: option.splits)

lemma compute_loop_near:
  assumes run: "go_fold (compute_step T (NewDec n) I X) compute_start slots = Inr st"
    and "0 < T" "0 < n" "0 \<le> X" "X \<le> OneDec"
  shows "list_all2 (vote_near T n I X) slots (votes st)"
proof (rule go_fold_prefix_invariant [OF run, of "\<lambda>ys st. list_all2 (vote_near T n I X) ys (votes st)"])
  show "list_all2 (vote_near T n I X) [] (votes compute_start)" by (simp add: compute_start_def)
next
  fix ys st s st'
  assume "list_all2 (vote_near T n I X) ys (votes st)" "compute_step T (NewDec n) I X st s = Inr st'"
  then show "list_all2 (vote_near T n I X) (ys @ [s]) (votes st')"
    using compute_step_votes [of T n I X st s st'] assms(2-5) by (auto simp: list_all2_appendI)
qed

lemma near_sums:
  assumes "list_all2 (vote_near T n I X) slots vs" "list_all2 vote_ok slots vs" "0 \<le> T" "0 \<le> n"
  shows "\<bar>sum_list (map (power_if False) vs) * T - sum_list (map stake_of slots) * X\<bar>
           \<le> 2 * T * int (length (staked slots))"
    and "\<bar>sum_list (map (power_if True) vs) * n - itc_count slots * I\<bar> \<le> n * itc_count slots"
  using assms
proof (induction slots vs rule: list_all2_induct)
  case Nil
  { case 1 then show ?case by simp }
  { case 2 then show ?case by (simp add: itc_count_def) }
next
  case (Cons s slots v vs)
  { case 1
    show ?case
      using 1 Cons
      by (cases "EffectiveStake s")
        (auto simp: vote_near_def vote_ok_def power_if_def stake_of_def staked_def distrib_right distrib_left) }
  { case 2
    show ?case
      using 2 Cons
      by (cases "EffectiveStake s")
        (auto simp: vote_near_def vote_ok_def power_if_def itc_count_def distrib_right distrib_left) }
qed

lemma scaled_abs: "0 < T \<Longrightarrow> T * \<bar>a - b\<bar> = \<bar>a * T - T * b\<bar>" for T :: int
proof -
  assume "0 < T"
  moreover have "a * T - T * b = T * (a - b)" by (simp add: algebra_simps)
  ultimately show ?thesis by (simp only: abs_mult)
qed

lemma diff_tiny:
  assumes "list_all2 (vote_near T n I X) slots (votes st)" "roster_inv slots st"
    and "T = sum_list (map stake_of slots)" "n = itc_count slots" "0 < T" "0 < n" "I + X = OneDec"
  shows "\<bar>OneDec - (ourPercentage st + theirPercentage st)\<bar> \<le> 2 * int (length slots)"
proof -
  have la: "list_all2 vote_ok slots (votes st)"
    and o: "ourPercentage st = sum_list (map (power_if True) (votes st))"
    and t: "theirPercentage st = sum_list (map (power_if False) (votes st))"
    using assms(2) by (simp_all add: roster_inv_def)
  note sums = near_sums [OF assms(1) la]
  have "T * \<bar>theirPercentage st - X\<bar> = \<bar>theirPercentage st * T - T * X\<bar>"
    using assms(5) by (rule scaled_abs)
  also have "\<dots> \<le> T * (2 * int (length (staked slots)))"
    using sums(1) assms(3,5,6) t by (simp add: mult.commute mult.left_commute)
  finally have a: "\<bar>theirPercentage st - X\<bar> \<le> 2 * int (length (staked slots))" using assms(5) by simp
  have "n * \<bar>ourPercentage st - I\<bar> = \<bar>ourPercentage st * n - n * I\<bar>"
    using assms(6) by (rule scaled_abs)
  also have "\<dots> \<le> n * n" using sums(2) assms(4,5,6) o by simp
  finally have b: "\<bar>ourPercentage st - I\<bar> \<le> n" using assms(6) by simp
  have c: "int (length (staked slots)) + itc_count slots = int (length slots)"
    using sum_length_filter_compl [of "\<lambda>s. EffectiveStake s \<noteq> None" slots]
    by (simp add: staked_def itc_count_def flip: of_nat_add)
  have "0 \<le> n" using assms(6) by simp
  then show ?thesis using a b c assms(4,7) by linarith
qed

text \<open>
Voting power follows stake. On a committee with distinct keys, at least one operated slot and
positive stake, under an instance whose two percentages add up to one, the power of every
staked slot in the returned roster is within \<open>2 n + 2\<close> smallest units (\<open>10 ^ -18\<close>) of its exact
share of the external percentage, \<open>n\<close> the number of slots: the correction given to the last staked
voter is that small.
\<close>

theorem Compute_power_follows_stake:
  assumes run: "Roster_Compute sched c (Some ep) = Inr r" and dist: "distinct (map BLSPublicKey (Slots c))"
    and I: "0 \<le> intelchainVotePercent (sched ep)" and X: "0 \<le> externalVotePercent (sched ep)"
    and one: "intelchainVotePercent (sched ep) + externalVotePercent (sched ep) = OneDec"
    and pos: "0 < sum_list (map stake_of (Slots c))" and itc: "\<exists>s \<in> set (Slots c). EffectiveStake s = None"
    and s: "s \<in> set (Slots c)" "EffectiveStake s = Some e"
  shows "\<exists>v. map_of (Voters r) (BLSPublicKey s) = Some v \<and>
    \<bar>OverallPercent v * sum_list (map stake_of (Slots c)) - e * externalVotePercent (sched ep)\<bar>
      \<le> (2 * int (length (Slots c)) + 2) * sum_list (map stake_of (Slots c))"
proof -
  let ?T = "sum_list (map stake_of (Slots c))" and ?X = "externalVotePercent (sched ep)"
  let ?n = "itc_count (Slots c)" and ?I = "intelchainVotePercent (sched ep)"
  obtain st st' where loop: "go_fold (compute_step ?T (NewDec ?n) ?I ?X) compute_start (Slots c) = Inr st"
    and inv: "roster_inv (Slots c) st" "give_diff st = Inr st'" "roster_inv (Slots c) st'"
    and voters: "Voters r = map (\<lambda>(k, i). (k, votes st' ! i)) (voters st')"
    using Roster_Compute_run [OF run] by metis
  have n: "0 < ?n" using itc by (auto simp: itc_count_def filter_empty_conv)
  have "?X \<le> OneDec" using one I by simp
  then have near: "list_all2 (vote_near ?T ?n ?I ?X) (Slots c) (votes st)"
    using compute_loop_near [OF loop pos n X] by simp
  define d where "d = OneDec - (ourPercentage st + theirPercentage st)"
  have d: "\<bar>d\<bar> \<le> 2 * int (length (Slots c))"
    unfolding d_def using diff_tiny [OF near inv(1) refl refl pos n one] .
  from s(1) obtain i where i: "i < length (Slots c)" "Slots c ! i = s" by (auto simp: in_set_conv_nth)
  have len: "length (votes st) = length (Slots c)" "length (votes st') = length (Slots c)"
    using inv by (auto simp: roster_inv_def dest: list_all2_lengthD)
  have "\<bar>OverallPercent (votes st ! i) * ?T - e * ?X\<bar> \<le> 2 * ?T"
    using list_all2_nthD [OF near i(1)] i s(2) by (simp add: vote_near_def)
  moreover have "OverallPercent (votes st' ! i) = OverallPercent (votes st ! i) \<or>
      OverallPercent (votes st' ! i) = OverallPercent (votes st ! i) + d"
    using give_diff_inv [OF inv(1,2)] i(1) by (auto simp: d_def)
  moreover have "\<bar>d * ?T\<bar> \<le> 2 * int (length (Slots c)) * ?T"
    unfolding abs_mult using d pos by (intro mult_mono) simp_all
  ultimately have bound: "\<bar>OverallPercent (votes st' ! i) * ?T - e * ?X\<bar> \<le> (2 * int (length (Slots c)) + 2) * ?T"
    using pos by (auto simp: distrib_right)
  have v: "Voters r = zip (map BLSPublicKey (Slots c)) (votes st')"
    using Roster_Compute_voters [OF inv(3) dist] voters by simp
  have "(BLSPublicKey s, votes st' ! i) \<in> set (Voters r)"
    using i len by (auto simp: v in_set_zip intro!: exI [of _ i])
  moreover have "distinct (map fst (Voters r))" using dist len by (simp add: v)
  ultimately have "map_of (Voters r) (BLSPublicKey s) = Some (votes st' ! i)" by simp
  then show ?thesis using bound by blast
qed

theorem Compute_power_follows_stake_witness:
  "\<exists>r v. Roster_Compute sample_schedule sample_committee (Some 1) = Inr r \<and> map_of (Voters r) 20 = Some v \<and>
     \<bar>OverallPercent v * 7000000000000000000 - 3000000000000000000 * 510000000000000000\<bar> \<le> 8 * 7000000000000000000"
proof -
  obtain r where r: "Roster_Compute sample_schedule sample_committee (Some 1) = Inr r"
    by (rule sample_roster)
  from Compute_power_follows_stake [OF r, of "sample_slot 2 20 (Some 3000000000000000000)" 3000000000000000000] r
  show ?thesis
    by (simp add: sample_committee_def sample_slot_def sample_schedule_def sample_instance_def
        OneDec_def precisionReuse_def stake_of_def)
qed

section \<open>Power of a set of keys\<close>

definition power_of :: "Roster \<Rightarrow> SerializedPublicKey \<Rightarrow> Dec" where
  "power_of r k = (case map_of (Voters r) k of Some v \<Rightarrow> OverallPercent v | None \<Rightarrow> 0)"

text \<open>
  A valid roster has each key once, no negative power, and power one in total: what \<open>Compute\<close>
  returns for a committee with distinct keys and a staked slot, up to the sign of the last share.
\<close>

definition valid_roster :: "Roster \<Rightarrow> bool" where
  "valid_roster r \<longleftrightarrow> distinct (map fst (Voters r)) \<and>
     (\<forall>kv \<in> set (Voters r). 0 \<le> OverallPercent (snd kv)) \<and>
     sum_list (map (OverallPercent \<circ> snd) (Voters r)) = OneDec"

lemma power_of_nonneg: "valid_roster r \<Longrightarrow> 0 \<le> power_of r k"
  by (auto simp: power_of_def valid_roster_def split: option.split dest: map_of_SomeD)

lemma power_of_sum:
  "distinct (map fst vs) \<Longrightarrow>
   sum_list (map (OverallPercent \<circ> snd) vs) =
   (\<Sum>k \<in> fst ` set vs. case map_of vs k of Some v \<Rightarrow> OverallPercent v | None \<Rightarrow> 0)"
proof (induction vs)
  case (Cons kv vs)
  have "map_of (kv # vs) k = map_of vs k" if "k \<in> fst ` set vs" for k
    using that Cons.prems by (cases kv) auto
  then have "(\<Sum>k \<in> fst ` set vs. case map_of (kv # vs) k of Some v \<Rightarrow> OverallPercent v | None \<Rightarrow> 0) =
      (\<Sum>k \<in> fst ` set vs. case map_of vs k of Some v \<Rightarrow> OverallPercent v | None \<Rightarrow> 0)"
    by (intro sum.cong refl) (simp only:)
  then show ?case using Cons by (cases kv) simp
qed simp

lemma power_total:
  assumes "valid_roster r" "finite K"
  shows "sum (power_of r) K \<le> OneDec"
proof -
  let ?D = "fst ` set (Voters r)"
  have out: "power_of r k = 0" if "k \<notin> ?D" for k
    using that by (auto simp: power_of_def split: option.split dest: map_of_SomeD intro: rev_image_eqI)
  have "sum (power_of r) K = sum (power_of r) (K \<inter> ?D)"
    using out by (intro sum.mono_neutral_right) (use assms(2) in auto)
  also have "\<dots> \<le> sum (power_of r) ?D"
    using assms by (intro sum_mono2) (auto simp: power_of_nonneg)
  also have "\<dots> = OneDec"
    using assms(1) power_of_sum [of "Voters r"] by (simp add: valid_roster_def power_of_def [abs_def])
  finally show ?thesis .
qed

lemma power_everyone:
  assumes "valid_roster r" "fst ` set (Voters r) \<subseteq> K" "finite K"
  shows "sum (power_of r) K = OneDec"
proof -
  have "sum (power_of r) (fst ` set (Voters r)) \<le> sum (power_of r) K"
    using assms by (intro sum_mono2) (auto simp: power_of_nonneg)
  moreover have "sum (power_of r) (fst ` set (Voters r)) = OneDec"
    using assms(1) power_of_sum [of "Voters r"] by (simp add: valid_roster_def power_of_def [abs_def])
  ultimately show ?thesis using power_total [OF assms(1,3)] by simp
qed

lemma publics_index_distinct:
  "distinct (map Bytes ks) \<Longrightarrow> publics_index ks = zip (map Bytes ks) [0..<length ks]"
proof (induction ks rule: rev_induct)
  case Nil
  then show ?case by (simp add: publics_index_def)
next
  case (snoc k ks)
  then have ih: "publics_index ks = zip (map Bytes ks) [0..<length ks]" by simp
  then have "fst ` set (publics_index ks) = set (map Bytes ks)"
    by (metis diff_zero length_map length_upt list.set_map map_fst_zip)
  then have "Bytes k \<notin> fst ` set (publics_index ks)" using snoc.prems by simp
  then show ?case using ih by (simp add: publics_index_def enumerate_append_eq update_new)
qed

lemma VotePowerByMask_value:
  assumes m: "mask_ok ops m" "PublicsIndex m = publics_index (Publics m)" "distinct (map Bytes (Publics m))"
    and r: "valid_roster r"
  shows "\<exists>p. VotePowerByMask r m = Inr p \<and> p = (\<Sum>i \<in> enabled m. power_of r (Bytes (Publics m ! i))) \<and>
    0 \<le> p \<and> p \<le> OneDec \<and>
    (fst ` set (Voters r) \<subseteq> (\<lambda>i. Bytes (Publics m ! i)) ` enabled m \<longrightarrow> p = OneDec)"
proof -
  define key where "key i = Bytes (Publics m ! i)" for i
  let ?n = "length (Publics m)"
  let ?f = "\<lambda>res (k, index). case IndexEnabled m (int index) of
      Inl (Panic p) \<Rightarrow> Inl (Panic p) | Inl (Error _) \<Rightarrow> Inr res
    | Inr en \<Rightarrow> if \<not> en then Inr res
        else (case map_of (Voters r) k of None \<Rightarrow> Inr res | Some voter \<Rightarrow> Add res (OverallPercent voter))"
  have inj: "inj_on key {i. i < ?n}"
    using m(3) by (auto simp: inj_on_def key_def distinct_conv_nth)
  have idx: "PublicsIndex m = map (\<lambda>i. (key i, i)) [0..<?n]"
    using m by (auto simp: publics_index_distinct key_def intro!: nth_equalityI)
  have part: "(\<Sum>i \<in> enabled m \<inter> {i. i < j}. power_of r (key i)) \<le> OneDec" for j
  proof -
    have fin: "finite (enabled m)" by (simp add: enabled_def)
    have "inj_on key (enabled m \<inter> {i. i < j})"
      using inj by (rule inj_on_subset) (auto simp: enabled_def)
    then have "(\<Sum>i \<in> enabled m \<inter> {i. i < j}. power_of r (key i)) =
        sum (power_of r) (key ` (enabled m \<inter> {i. i < j}))"
      by (simp add: sum.reindex)
    then show ?thesis using power_total [OF r] fin by simp
  qed
  have "go_fold ?f ZeroDec (map (\<lambda>i. (key i, i)) [0..<j]) =
      Inr (\<Sum>i \<in> enabled m \<inter> {i. i < j}. power_of r (key i))" if "j \<le> ?n" for j
    using that
  proof (induction j)
    case 0
    then show ?case by (simp add: ZeroDec_def)
  next
    case (Suc j)
    have en: "IndexEnabled m (int j) = Inr (j \<in> enabled m)" using IndexEnabled_ok [OF m(1)] Suc.prems by simp
    have fin: "finite (enabled m \<inter> {i. i < j})" by simp
    have split: "enabled m \<inter> {i. i < Suc j} =
        (if j \<in> enabled m then insert j (enabled m \<inter> {i. i < j}) else enabled m \<inter> {i. i < j})"
      by (auto simp: less_Suc_eq)
    have fits: "fitsDec ((\<Sum>i \<in> enabled m \<inter> {i. i < j}. power_of r (key i)) + power_of r (key j))"
      if "j \<in> enabled m"
    proof (rule fitsDec_mono [OF fitsDec_OneDec])
      have "0 \<le> (\<Sum>i \<in> enabled m \<inter> {i. i < Suc j}. power_of r (key i))"
        by (intro sum_nonneg) (simp add: power_of_nonneg [OF r])
      then show "\<bar>(\<Sum>i \<in> enabled m \<inter> {i. i < j}. power_of r (key i)) + power_of r (key j)\<bar> \<le> \<bar>OneDec\<bar>"
        using part [of "Suc j"] that fin by (simp add: split add.commute)
    qed
    show ?case
      using Suc en fits fin
      by (auto simp: go_fold_append split power_of_def add.commute split: option.splits)
  qed
  from this [of ?n] have run: "VotePowerByMask r m = Inr (\<Sum>i \<in> enabled m \<inter> {i. i < ?n}. power_of r (key i))"
    unfolding VotePowerByMask_def idx by simp
  have all: "enabled m \<inter> {i. i < ?n} = enabled m" by (auto simp: enabled_def)
  have "(\<Sum>i \<in> enabled m. power_of r (key i)) = OneDec" if "fst ` set (Voters r) \<subseteq> key ` enabled m"
  proof -
    have "inj_on key (enabled m)" using inj by (rule inj_on_subset) (auto simp: enabled_def)
    then have "(\<Sum>i \<in> enabled m. power_of r (key i)) = sum (power_of r) (key ` enabled m)"
      by (simp add: sum.reindex)
    then show ?thesis using power_everyone [OF r that] by (simp add: enabled_def)
  qed
  moreover have "0 \<le> (\<Sum>i \<in> enabled m. power_of r (key i))"
    by (intro sum_nonneg) (simp add: power_of_nonneg [OF r])
  ultimately show ?thesis
    using run part [of ?n] by (simp add: all key_def [abs_def])
qed

text \<open>
On a well-formed mask over distinct keys, \<open>VotePowerByMask\<close> never panics for a valid roster and
returns the sum of the powers of exactly the enabled keys, a number in \<open>[0, 1]\<close>; with every voter
enabled it is one.
\<close>

theorem VotePowerByMask_sum:
  assumes m: "mask_ok ops m" "PublicsIndex m = publics_index (Publics m)" "distinct (map Bytes (Publics m))"
    and r: "valid_roster r"
  shows "\<exists>p. VotePowerByMask r m = Inr p \<and> p = (\<Sum>i \<in> enabled m. power_of r (Bytes (Publics m ! i))) \<and>
    0 \<le> p \<and> p \<le> OneDec \<and>
    (fst ` set (Voters r) \<subseteq> (\<lambda>i. Bytes (Publics m ! i)) ` enabled m \<longrightarrow> p = OneDec)"
  using assms by (rule VotePowerByMask_value)

definition sample_vote :: "SerializedPublicKey \<Rightarrow> Dec \<Rightarrow> AccommodateIntelchainVote" where
  "sample_vote k p = \<lparr>EarningAccount = ucast k, Identity = k, GroupPercent = p, voteEffectiveStake = p,
     RawStake = 0, IsIntelchainNode = False, OverallPercent = p\<rparr>"

definition sample_valid_roster :: Roster where
  "sample_valid_roster = (NewRoster 0)\<lparr>Voters :=
     [(10, sample_vote 10 500000000000000000), (20, sample_vote 20 300000000000000000),
      (30, sample_vote 30 200000000000000000)]\<rparr>"

lemma sample_roster_valid: "valid_roster sample_valid_roster"
  by (simp add: valid_roster_def sample_valid_roster_def sample_vote_def OneDec_def precisionReuse_def)

definition sample_publics :: "int PublicKeyWrapper list" where
  "sample_publics = map (\<lambda>k. \<lparr>Bytes = k, Object = uint k\<rparr>) [10, 20, 30]"

theorem VotePowerByMask_sum_witness:
  "\<exists>m. SetBit int_ops (NewMask int_ops sample_publics) (int 1) True = Inr m \<and>
       VotePowerByMask sample_valid_roster m = Inr 300000000000000000"
proof -
  let ?m0 = "NewMask int_ops sample_publics"
  obtain m where m: "SetBit int_ops ?m0 (int 1) True = Inr m" "mask_ok int_ops m" "same_keys ?m0 m" "enabled m = {1}"
    using SetBit_ok [OF NewMask_ok [OF int_ops_group], of 1 sample_publics True]
    by (auto simp: NewMask_enabled) (auto simp: NewMask_def sample_publics_def)
  have p: "Publics m = sample_publics" "PublicsIndex m = publics_index (Publics m)"
    using m(3) by (simp_all add: same_keys_def NewMask_def)
  have "distinct (map Bytes (Publics m))" by (simp add: p sample_publics_def)
  from VotePowerByMask_sum [OF m(2) p(2) this sample_roster_valid]
  have "VotePowerByMask sample_valid_roster m = Inr (power_of sample_valid_roster 20)"
    by (simp add: m(4) p(1)) (simp add: sample_publics_def)
  then show ?thesis using m(1)
    by (simp add: power_of_def sample_valid_roster_def sample_vote_def)
qed

section \<open>Aggregating rosters\<close>

definition votes_for :: "Address \<Rightarrow> (Address \<times> VoteOnSubcomittee list) list \<Rightarrow> VoteOnSubcomittee list" where
  "votes_for a result = (case map_of result a of Some vs \<Rightarrow> vs | None \<Rightarrow> [])"

definition with_shard :: "uint32 \<Rightarrow> AccommodateIntelchainVote \<Rightarrow> VoteOnSubcomittee" where
  "with_shard i v = AccommodateIntelchainVote.extend v (VoteOnSubcomittee.fields i)"

lemma votes_for_update:
  "votes_for a (AList.update b vs result) = (if a = b then vs else votes_for a result)"
  by (simp add: votes_for_def update_conv')

lemma aggregate_one:
  "votes_for a (fold (\<lambda>(_, voteCard) result.
       if \<not> IsIntelchainNode voteCard
       then let voterID = AccommodateIntelchainVote.extend voteCard (VoteOnSubcomittee.fields i);
                old = (case map_of result (EarningAccount voteCard) of Some vs \<Rightarrow> vs | None \<Rightarrow> [])
            in AList.update (EarningAccount voteCard) (old @ [voterID]) result
       else result) kvs result) =
   votes_for a result @ map (with_shard i) (filter (\<lambda>v. \<not> IsIntelchainNode v \<and> EarningAccount v = a) (map snd kvs))"
proof (induction kvs arbitrary: result)
  case (Cons kv kvs)
  then show ?case
    by (cases kv) (simp add: Let_def votes_for_def [symmetric] votes_for_update with_shard_def)
qed simp

lemma aggregate_all:
  "votes_for a (fold (\<lambda>roster result. fold (\<lambda>(_, voteCard) result.
       if \<not> IsIntelchainNode voteCard
       then let voterID = AccommodateIntelchainVote.extend voteCard (VoteOnSubcomittee.fields (rosterShardID roster));
                old = (case map_of result (EarningAccount voteCard) of Some vs \<Rightarrow> vs | None \<Rightarrow> [])
            in AList.update (EarningAccount voteCard) (old @ [voterID]) result
       else result) (Voters roster) result) rs result) =
   votes_for a result @ concat (map (\<lambda>roster. map (with_shard (rosterShardID roster))
     (filter (\<lambda>v. \<not> IsIntelchainNode v \<and> EarningAccount v = a) (map snd (Voters roster)))) rs)"
proof (induction rs arbitrary: result)
  case (Cons r rs)
  show ?case by (simp add: Cons.IH aggregate_one)
qed simp

text \<open>
C27: \<open>AggregateRosters\<close> neither loses nor invents a vote: under each earning account it lists exactly
the votes of that account in all rosters, each marked with its shard, the operated nodes left out,
in the order of the shard numbers.
\<close>

theorem AggregateRosters_complete:
  "mset (votes_for a (AggregateRosters rosters)) =
     (\<Sum>roster \<in># mset rosters. image_mset (with_shard (rosterShardID roster))
        {#v \<in># mset (map snd (Voters roster)). \<not> IsIntelchainNode v \<and> EarningAccount v = a#}) \<and>
   sorted (map voteShardID (votes_for a (AggregateRosters rosters)))"
proof -
  let ?g = "\<lambda>roster. map (with_shard (rosterShardID roster))
     (filter (\<lambda>v. \<not> IsIntelchainNode v \<and> EarningAccount v = a) (map snd (Voters roster)))"
  have eq: "votes_for a (AggregateRosters rosters) = concat (map ?g (sort_key rosterShardID rosters))"
    unfolding AggregateRosters_def aggregate_all by (simp add: votes_for_def)
  have m: "mset (concat (map ?g rs)) = (\<Sum>roster \<in># mset rs. mset (?g roster))" for rs
    by (induction rs) simp_all
  have o: "sorted (map voteShardID (concat (map ?g rs)))" if "sorted (map rosterShardID rs)" for rs
    using that
  proof (induction rs)
    case (Cons r rs)
    have "voteShardID (with_shard i v) = i" for i v
      by (simp add: with_shard_def AccommodateIntelchainVote.defs VoteOnSubcomittee.defs)
    with Cons show ?case by (auto simp: sorted_append comp_def map_replicate_const)
  qed simp
  have "sorted (map rosterShardID (sort_key rosterShardID rosters))" by simp
  from o [OF this] m [of "sort_key rosterShardID rosters"] show ?thesis unfolding eq by simp
qed
end
