(* ===== verification/Quorum.thy ===== *)
theory Quorum
  imports Votepower
begin

text \<open>
  The quorum deciders of \<open>consensus/quorum\<close>: the ballot boxes of \<open>cIdentities\<close> (\<open>quorum.go\<close>), the
  uniform decider (\<open>one-node-one-vote.go\<close>), the staked decider (\<open>one-node-staked-vote.go\<close>) and the
  verifiers of sealed blocks (\<open>verifier.go\<close>). Signatures are an abelian group with a
  serialisation, given as parameters.
\<close>

section \<open>Signatories\<close>

datatype Phase = Prepare | Commit | ViewChange | OtherPhase nat

datatype Policy = SuperMajorityVote | SuperMajorityStake

record 'sig sig_ops =
  sigZero :: 'sig
  sigAdd :: "'sig \<Rightarrow> 'sig \<Rightarrow> 'sig"
  serialize :: "'sig \<Rightarrow> uint8 list"
  deserialize :: "uint8 list \<Rightarrow> 'sig"

record ('pk, 'sig) cIdentities =
  publicKeys :: "'pk PublicKeyWrapper list"
  keyIndexMap :: "(SerializedPublicKey \<times> nat) list"
  prepare :: "'sig Round"
  commit :: "'sig Round"
  viewChange :: "'sig Round"
  participantsCount :: int

definition newCIdentities :: "'sig sig_ops \<Rightarrow> ('pk, 'sig) cIdentities" where
  "newCIdentities so =
     (let r = NewRound (sigZero so)
      in \<lparr>publicKeys = [], keyIndexMap = [], prepare = r, commit = r, viewChange = r,
          participantsCount = 0\<rparr>)"

definition ballotBox :: "('pk, 'sig) cIdentities \<Rightarrow> Phase \<Rightarrow> (SerializedPublicKey \<times> Ballot) list" where
  "ballotBox s p =
     (case p of
        Prepare \<Rightarrow> BallotBox (prepare s)
      | Commit \<Rightarrow> BallotBox (commit s)
      | ViewChange \<Rightarrow> BallotBox (viewChange s)
      | OtherPhase _ \<Rightarrow> [])"

definition ReadBallot :: "('pk, 'sig) cIdentities \<Rightarrow> Phase \<Rightarrow> SerializedPublicKey \<Rightarrow> Ballot option" where
  "ReadBallot s p pubkey = map_of (ballotBox s p) pubkey"

text \<open>The loop over the map yields the ballots in some order; the model takes the list's.\<close>

definition ReadAllBallots :: "('pk, 'sig) cIdentities \<Rightarrow> Phase \<Rightarrow> Ballot list" where
  "ReadAllBallots s p = map snd (ballotBox s p)"

definition collect_ballot ::
  "SerializedPublicKey set \<times> Ballot list \<Rightarrow> Ballot \<Rightarrow> SerializedPublicKey set \<times> Ballot list" where
  "collect_ballot st ballot =
     (let (collectedKeys, kept) = st
      in if list_ex (\<lambda>key. key \<in> collectedKeys) (SignerPubKeys ballot) then st
         else (collectedKeys \<union> set (SignerPubKeys ballot), kept @ [ballot]))"

definition AggregateVotes :: "'sig sig_ops \<Rightarrow> ('pk, 'sig) cIdentities \<Rightarrow> Phase \<Rightarrow> 'sig" where
  "AggregateVotes so s p =
     AggregateSig (sigZero so) (sigAdd so)
       (map (\<lambda>ballot. deserialize so (Signature ballot))
          (snd (fold (\<lambda>b st. collect_ballot st b) (ReadAllBallots s p) ({}, []))))"

definition IndexOf :: "('pk, 'sig) cIdentities \<Rightarrow> SerializedPublicKey \<Rightarrow> int" where
  "IndexOf s pubKey = (case map_of (keyIndexMap s) pubKey of Some index \<Rightarrow> int index | None \<Rightarrow> - 1)"

definition ParticipantsCount :: "('pk, 'sig) cIdentities \<Rightarrow> int" where
  "ParticipantsCount s = participantsCount s"

definition key_at :: "'pk PublicKeyWrapper list \<Rightarrow> int \<Rightarrow> 'pk PublicKeyWrapper go" where
  "key_at keys idx =
     (if 0 \<le> idx \<and> idx < int (length keys) then Inr (keys ! nat idx)
      else Inl (Panic ''index out of range''))"

definition nth_key :: "'pk PublicKeyWrapper list \<Rightarrow> int \<Rightarrow> int \<Rightarrow> int \<Rightarrow> (bool \<times> 'pk PublicKeyWrapper) go" where
  "nth_key keys wanted idx next =
     (let numNodes = (if wanted \<le> 0 \<or> wanted > int (length keys) then int (length keys) else wanted)
      in if numNodes = 0 then Inl (Panic ''integer divide by zero'')
         else go_bind (key_at keys (rem (idx + next) numNodes)) (\<lambda>k. Inr (idx \<noteq> - 1, k)))"

definition NthNext ::
  "('pk, 'sig) cIdentities \<Rightarrow> 'pk PublicKeyWrapper \<Rightarrow> int \<Rightarrow> (bool \<times> 'pk PublicKeyWrapper) go" where
  "NthNext s pubKey next =
     nth_key (publicKeys s) (ParticipantsCount s) (IndexOf s (Bytes pubKey)) next"

definition NthNextItc ::
  "('pk, 'sig) cIdentities \<Rightarrow> 'pk Instance \<Rightarrow> 'pk PublicKeyWrapper \<Rightarrow> int \<Rightarrow> (bool \<times> 'pk PublicKeyWrapper) go" where
  "NthNextItc s instance0 pubKey next =
     nth_key (publicKeys s) (numIntelchainOperatedNodesPerShard instance0) (IndexOf s (Bytes pubKey)) next"

text \<open>The loop of \<open>NthNextValidator\<close>; a search that never ends is \<open>None\<close>.\<close>

partial_function (option) next_validator ::
  "'pk PublicKeyWrapper list \<Rightarrow> (SerializedPublicKey \<Rightarrow> Address) \<Rightarrow> Address \<Rightarrow> int \<Rightarrow> int \<Rightarrow>
   'pk PublicKeyWrapper go option" where
  "next_validator keys addr own next idx =
     (case key_at keys (rem (idx + next) (int (length keys))) of
        Inl e \<Rightarrow> Some (Inl e)
      | Inr k \<Rightarrow>
          if addr (Bytes k) = own
          then next_validator keys addr own next (rem (idx + next) (int (length keys)) + 1)
          else Some (Inr k))"

definition publicToAddress :: "Slot list \<Rightarrow> SerializedPublicKey \<Rightarrow> Address" where
  "publicToAddress slotList k =
     (case map_of (rev (map (\<lambda>s. (BLSPublicKey s, EcdsaAddress s)) slotList)) k of
        Some a \<Rightarrow> a | None \<Rightarrow> 0)"

definition NthNextValidator ::
  "('pk, 'sig) cIdentities \<Rightarrow> Slot list \<Rightarrow> 'pk PublicKeyWrapper \<Rightarrow> int \<Rightarrow>
   (bool \<times> 'pk PublicKeyWrapper) go option" where
  "NthNextValidator s slotList pubKey next =
     (if length (publicKeys s) = 0 then Some (Inr (False, pubKey))
      else if next < 0 then Some (Inr (False, pubKey))
      else let idx = IndexOf s (Bytes pubKey); addr = publicToAddress slotList
           in map_option (\<lambda>r. go_bind r (\<lambda>k. Inr (idx \<noteq> - 1, k)))
                (next_validator (publicKeys s) addr (addr (Bytes pubKey)) next idx))"

definition FirstParticipant :: "('pk, 'sig) cIdentities \<Rightarrow> 'pk PublicKeyWrapper go" where
  "FirstParticipant s = key_at (publicKeys s) 0"

definition UpdateParticipants ::
  "('pk, 'sig) cIdentities \<Rightarrow> 'pk PublicKeyWrapper list \<Rightarrow> ('pk, 'sig) cIdentities" where
  "UpdateParticipants s pubKeys =
     s\<lparr>publicKeys := pubKeys, keyIndexMap := publics_index pubKeys,
       participantsCount := int (length pubKeys)\<rparr>"

definition SignersCount :: "('pk, 'sig) cIdentities \<Rightarrow> Phase \<Rightarrow> int" where
  "SignersCount s p = int (length (ballotBox s p))"

definition put_ballot ::
  "Phase \<Rightarrow> Ballot \<Rightarrow> ('pk, 'sig) cIdentities \<Rightarrow> SerializedPublicKey \<Rightarrow> ('pk, 'sig) cIdentities go" where
  "put_ballot p ballot s pubKey =
     (let put = (\<lambda>r. r\<lparr>BallotBox := AList.update pubKey ballot (BallotBox r)\<rparr>)
      in case p of
           Prepare \<Rightarrow> Inr (s\<lparr>prepare := put (prepare s)\<rparr>)
         | Commit \<Rightarrow> Inr (s\<lparr>commit := put (commit s)\<rparr>)
         | ViewChange \<Rightarrow> Inr (s\<lparr>viewChange := put (viewChange s)\<rparr>)
         | OtherPhase _ \<Rightarrow> Inl (Error ''errPhaseUnknown''))"

fun check_votes ::
  "('pk, 'sig) cIdentities \<Rightarrow> Phase \<Rightarrow> SerializedPublicKey set \<Rightarrow> SerializedPublicKey list \<Rightarrow> unit go" where
  "check_votes s p seenKeys [] = Inr ()"
| "check_votes s p seenKeys (pubKey # pubkeys) =
     (if pubKey \<in> seenKeys then Inl (Error ''duplicate key found in votes'')
      else if ReadBallot s p pubKey \<noteq> None then Inl (Error ''vote is already submitted'')
      else check_votes s p (insert pubKey seenKeys) pubkeys)"

definition submitVote ::
  "'sig sig_ops \<Rightarrow> ('pk, 'sig) cIdentities \<Rightarrow> Phase \<Rightarrow> SerializedPublicKey list \<Rightarrow> 'sig \<Rightarrow> Hash \<Rightarrow>
   uint64 \<Rightarrow> uint64 \<Rightarrow> (Ballot \<times> ('pk, 'sig) cIdentities) go" where
  "submitVote so s p pubkeys sig headerHash height viewID =
     go_bind (check_votes s p {} pubkeys) (\<lambda>_.
       let ballot = \<lparr>SignerPubKeys = pubkeys, BlockHeaderHash = headerHash,
                     Signature = serialize so sig, Height = height, ViewID = viewID\<rparr>
       in go_bind (go_fold (put_ballot p ballot) s pubkeys) (\<lambda>s'. Inr (ballot, s')))"

definition reset_phase :: "'sig sig_ops \<Rightarrow> Phase \<Rightarrow> ('pk, 'sig) cIdentities \<Rightarrow> ('pk, 'sig) cIdentities" where
  "reset_phase so p s =
     (let m = NewRound (sigZero so)
      in case p of
           Prepare \<Rightarrow> s\<lparr>prepare := m\<rparr>
         | Commit \<Rightarrow> s\<lparr>commit := m\<rparr>
         | ViewChange \<Rightarrow> s\<lparr>viewChange := m\<rparr>
         | OtherPhase _ \<Rightarrow> s)"

definition cIdentities_reset :: "'sig sig_ops \<Rightarrow> Phase list \<Rightarrow> ('pk, 'sig) cIdentities \<Rightarrow> ('pk, 'sig) cIdentities" where
  "cIdentities_reset so ps s = fold (reset_phase so) ps s"

definition TwoThirdsSignersCount :: "('pk, 'sig) cIdentities \<Rightarrow> int" where
  "TwoThirdsSignersCount s = quo (ParticipantsCount s * 2) 3 + 1"

section \<open>The uniform decider\<close>

record ('pk, 'sig) uniformVoteWeight =
  uReader :: "('pk, 'sig) cIdentities"
  lastPowerSignersCountCache :: "(Phase \<times> int) list"
  lastParticipantsCount :: int

definition uniform_AddNewVote ::
  "'sig sig_ops \<Rightarrow> ('pk, 'sig) uniformVoteWeight \<Rightarrow> Phase \<Rightarrow> 'pk PublicKeyWrapper list \<Rightarrow> 'sig \<Rightarrow> Hash \<Rightarrow>
   uint64 \<Rightarrow> uint64 \<Rightarrow> (Ballot \<times> ('pk, 'sig) uniformVoteWeight) go" where
  "uniform_AddNewVote so v p pubKeys sig headerHash height viewID =
     go_bind (submitVote so (uReader v) p (map Bytes pubKeys) sig headerHash height viewID)
       (\<lambda>(b, s'). Inr (b, v\<lparr>uReader := s'\<rparr>))"

definition uniform_IsQuorumAchieved :: "('pk, 'sig) uniformVoteWeight \<Rightarrow> Phase \<Rightarrow> bool" where
  "uniform_IsQuorumAchieved v p \<longleftrightarrow> SignersCount (uReader v) p \<ge> TwoThirdsSignersCount (uReader v)"

definition uniform_IsQuorumAchievedByMask :: "('pk, 'sig) uniformVoteWeight \<Rightarrow> 'pk Mask option \<Rightarrow> bool" where
  "uniform_IsQuorumAchievedByMask v m =
     (case m of
        None \<Rightarrow> False
      | Some mk \<Rightarrow> \<not> CountOneBits (Bitmap mk) < TwoThirdsSignersCount (uReader v))"

definition uniform_QuorumThreshold :: "('pk, 'sig) uniformVoteWeight \<Rightarrow> Dec" where
  "uniform_QuorumThreshold v = NewDec (TwoThirdsSignersCount (uReader v))"

definition uniform_IsAllSigsCollected :: "('pk, 'sig) uniformVoteWeight \<Rightarrow> bool" where
  "uniform_IsAllSigsCollected v \<longleftrightarrow> SignersCount (uReader v) Commit = ParticipantsCount (uReader v)"

definition uniform_ResetPrepareAndCommitVotes ::
  "'sig sig_ops \<Rightarrow> ('pk, 'sig) uniformVoteWeight \<Rightarrow> ('pk, 'sig) uniformVoteWeight" where
  "uniform_ResetPrepareAndCommitVotes so v =
     v\<lparr>lastPowerSignersCountCache :=
         AList.update Commit (SignersCount (uReader v) Commit)
           (AList.update Prepare (SignersCount (uReader v) Prepare) (lastPowerSignersCountCache v)),
       lastParticipantsCount := ParticipantsCount (uReader v),
       uReader := cIdentities_reset so [Prepare, Commit] (uReader v)\<rparr>"

definition uniform_ResetViewChangeVotes ::
  "'sig sig_ops \<Rightarrow> ('pk, 'sig) uniformVoteWeight \<Rightarrow> ('pk, 'sig) uniformVoteWeight" where
  "uniform_ResetViewChangeVotes so v =
     v\<lparr>lastPowerSignersCountCache :=
         AList.update ViewChange (SignersCount (uReader v) ViewChange) (lastPowerSignersCountCache v),
       lastParticipantsCount := ParticipantsCount (uReader v),
       uReader := cIdentities_reset so [ViewChange] (uReader v)\<rparr>"

definition uniform_CurrentTotalPower :: "('pk, 'sig) uniformVoteWeight \<Rightarrow> Phase \<Rightarrow> Dec go" where
  "uniform_CurrentTotalPower v p =
     (if lastParticipantsCount v = 0
      then Inl (Error ''uniformVoteWeight not cache last participants count'')
      else case map_of (lastPowerSignersCountCache v) p of
             Some n \<Rightarrow> Quo (NewDec n) (NewDec (lastParticipantsCount v))
           | None \<Rightarrow> Inl (Error ''uniformVoteWeight not cache this phase''))"

section \<open>The staked decider\<close>

definition twoThird :: "Dec go" where
  "twoThird = Quo (NewDec 2) (NewDec 3)"

record TallyResult =
  ourPercent :: Dec
  theirPercent :: Dec

record tallyAndQuorum =
  tally :: Dec
  quorumAchieved :: bool

record VoteTally =
  tallyPrepare :: tallyAndQuorum
  tallyCommit :: tallyAndQuorum
  tallyViewChange :: tallyAndQuorum

record ('pk, 'sig) stakedVoteWeight =
  sReader :: "('pk, 'sig) cIdentities"
  roster :: Roster
  voteTally :: VoteTally
  lastPower :: "(Phase \<times> Dec) list"

definition noTally :: tallyAndQuorum where
  "noTally = \<lparr>tally = NewDec 0, quorumAchieved = False\<rparr>"

definition newVoteTally :: VoteTally where
  "newVoteTally = \<lparr>tallyPrepare = noTally, tallyCommit = noTally, tallyViewChange = noTally\<rparr>"

definition NewDecider_stake :: "'sig sig_ops \<Rightarrow> uint32 \<Rightarrow> ('pk, 'sig) stakedVoteWeight" where
  "NewDecider_stake so shardID = \<lparr>sReader = newCIdentities so, roster = NewRoster shardID,
     voteTally = newVoteTally, lastPower = []\<rparr>"

definition NewDecider_vote :: "'sig sig_ops \<Rightarrow> ('pk, 'sig) uniformVoteWeight" where
  "NewDecider_vote so = \<lparr>uReader = newCIdentities so, lastPowerSignersCountCache = [],
     lastParticipantsCount = 0\<rparr>"

definition QuorumThreshold :: "Dec go" where
  "QuorumThreshold = twoThird"

definition phase_tally :: "VoteTally \<Rightarrow> Phase \<Rightarrow> tallyAndQuorum option" where
  "phase_tally t p =
     (case p of
        Prepare \<Rightarrow> Some (tallyPrepare t)
      | Commit \<Rightarrow> Some (tallyCommit t)
      | ViewChange \<Rightarrow> Some (tallyViewChange t)
      | OtherPhase _ \<Rightarrow> None)"

definition set_phase_tally :: "Phase \<Rightarrow> tallyAndQuorum \<Rightarrow> VoteTally \<Rightarrow> VoteTally" where
  "set_phase_tally p q t =
     (case p of
        Prepare \<Rightarrow> t\<lparr>tallyPrepare := q\<rparr>
      | Commit \<Rightarrow> t\<lparr>tallyCommit := q\<rparr>
      | ViewChange \<Rightarrow> t\<lparr>tallyViewChange := q\<rparr>
      | OtherPhase _ \<Rightarrow> t)"

definition check_signers :: "Roster \<Rightarrow> 'pk PublicKeyWrapper list \<Rightarrow> SerializedPublicKey list go" where
  "check_signers r pubKeys =
     go_bind (go_fold (\<lambda>(first, keys) pubKey.
        case map_of (Voters r) (Bytes pubKey) of
          None \<Rightarrow> Inl (Error ''Signer not in committee'')
        | Some voter \<Rightarrow>
            (case first of
               None \<Rightarrow> Inr (Some (EarningAccount voter), keys @ [Bytes pubKey])
             | Some signerAddr \<Rightarrow>
                 if signerAddr \<noteq> EarningAccount voter \<and> \<not> IsIntelchainNode voter
                 then Inl (Error ''Multiple signer accounts used in multi-sig'')
                 else Inr (first, keys @ [Bytes pubKey])))
       (None, []) pubKeys) (\<lambda>(_, keys). Inr keys)"

definition voting_power :: "Roster \<Rightarrow> SerializedPublicKey list \<Rightarrow> Dec go" where
  "voting_power r keys =
     go_fold (\<lambda>power k. case map_of (Voters r) k of
                Some voter \<Rightarrow> Add power (OverallPercent voter)
              | None \<Rightarrow> Inl (Panic ''nil pointer'')) (NewDec 0) keys"

definition staked_AddNewVote ::
  "'sig sig_ops \<Rightarrow> ('pk, 'sig) stakedVoteWeight \<Rightarrow> Phase \<Rightarrow> 'pk PublicKeyWrapper list \<Rightarrow> 'sig \<Rightarrow> Hash \<Rightarrow>
   uint64 \<Rightarrow> uint64 \<Rightarrow> (Ballot \<times> ('pk, 'sig) stakedVoteWeight) go" where
  "staked_AddNewVote so v p pubKeys sig headerHash height viewID =
     go_bind (check_signers (roster v) pubKeys) (\<lambda>pubKeysBytes.
     go_bind (submitVote so (sReader v) p pubKeysBytes sig headerHash height viewID) (\<lambda>(ballet, s').
     go_bind (voting_power (roster v) pubKeysBytes) (\<lambda>additionalVotePower.
       case phase_tally (voteTally v) p of
         None \<Rightarrow> Inl (Error ''stakedVoteWeight not cache this phase'')
       | Some tq \<Rightarrow>
           go_bind (Add (tally tq) additionalVotePower) (\<lambda>newTally.
           go_bind QuorumThreshold (\<lambda>t.
             let tq' = tq\<lparr>tally := newTally,
                          quorumAchieved := (if \<not> quorumAchieved tq then GT newTally t else quorumAchieved tq)\<rparr>
             in Inr (ballet, v\<lparr>sReader := s', voteTally := set_phase_tally p tq' (voteTally v)\<rparr>))))))"

definition staked_IsQuorumAchieved :: "('pk, 'sig) stakedVoteWeight \<Rightarrow> Phase \<Rightarrow> bool" where
  "staked_IsQuorumAchieved v p =
     (case phase_tally (voteTally v) p of Some tq \<Rightarrow> quorumAchieved tq | None \<Rightarrow> False)"

definition computeTotalPowerByMask :: "('pk, 'sig) stakedVoteWeight \<Rightarrow> 'pk Mask \<Rightarrow> Dec go" where
  "computeTotalPowerByMask v m =
     go_fold (\<lambda>currentTotal (key, i).
        case IndexEnabled m (int i) of
          Inl (Panic e) \<Rightarrow> Inl (Panic e)
        | Inl (Error _) \<Rightarrow> Inr currentTotal
        | Inr en \<Rightarrow>
            if en then (case map_of (Voters (roster v)) key of
                          Some voter \<Rightarrow> Add currentTotal (OverallPercent voter)
                        | None \<Rightarrow> Inr currentTotal)
            else Inr currentTotal)
       ZeroDec (PublicsIndex m)"

definition staked_IsQuorumAchievedByMask :: "('pk, 'sig) stakedVoteWeight \<Rightarrow> 'pk Mask option \<Rightarrow> bool go" where
  "staked_IsQuorumAchievedByMask v m =
     go_bind QuorumThreshold (\<lambda>threshold.
       case m of
         None \<Rightarrow> Inr False
       | Some mk \<Rightarrow> go_bind (computeTotalPowerByMask v mk) (\<lambda>power. Inr (GT power threshold)))"

definition staked_IsAllSigsCollected :: "('pk, 'sig) stakedVoteWeight \<Rightarrow> bool" where
  "staked_IsAllSigsCollected v \<longleftrightarrow> Equal (tally (tallyCommit (voteTally v))) (NewDec 1)"

definition staked_ResetPrepareAndCommitVotes ::
  "'sig sig_ops \<Rightarrow> ('pk, 'sig) stakedVoteWeight \<Rightarrow> ('pk, 'sig) stakedVoteWeight" where
  "staked_ResetPrepareAndCommitVotes so v =
     v\<lparr>lastPower := AList.update Commit (tally (tallyCommit (voteTally v)))
         (AList.update Prepare (tally (tallyPrepare (voteTally v))) (lastPower v)),
       sReader := cIdentities_reset so [Prepare, Commit] (sReader v),
       voteTally := (voteTally v)\<lparr>tallyPrepare := noTally, tallyCommit := noTally\<rparr>\<rparr>"

definition staked_ResetViewChangeVotes ::
  "'sig sig_ops \<Rightarrow> ('pk, 'sig) stakedVoteWeight \<Rightarrow> ('pk, 'sig) stakedVoteWeight" where
  "staked_ResetViewChangeVotes so v =
     v\<lparr>lastPower := AList.update ViewChange (tally (tallyViewChange (voteTally v))) (lastPower v),
       sReader := cIdentities_reset so [ViewChange] (sReader v),
       voteTally := (voteTally v)\<lparr>tallyViewChange := noTally\<rparr>\<rparr>"

text \<open>The resets take effect even when the roster cannot be computed, so the new state is always
  returned, beside the result.\<close>

definition staked_SetVoters ::
  "'sig sig_ops \<Rightarrow> (int \<Rightarrow> 'pk Instance) \<Rightarrow> ('pk, 'sig) stakedVoteWeight \<Rightarrow> Committee \<Rightarrow> int option \<Rightarrow>
   ('pk, 'sig) stakedVoteWeight \<times> TallyResult go" where
  "staked_SetVoters so sched v subCommittee epoch =
     (let v1 = staked_ResetViewChangeVotes so (staked_ResetPrepareAndCommitVotes so v)
      in case Roster_Compute sched subCommittee epoch of
           Inl err \<Rightarrow> (v1, Inl err)
         | Inr r \<Rightarrow> (v1\<lparr>roster := r\<rparr>,
             Inr \<lparr>ourPercent = OurVotingPowerTotalPercentage r, theirPercent = TheirVotingPowerTotalPercentage r\<rparr>))"

definition staked_SetRawStake ::
  "('pk, 'sig) stakedVoteWeight \<Rightarrow> SerializedPublicKey \<Rightarrow> Dec \<Rightarrow> ('pk, 'sig) stakedVoteWeight" where
  "staked_SetRawStake v key d =
     (case map_of (Voters (roster v)) key of
        None \<Rightarrow> v
      | Some voter \<Rightarrow> v\<lparr>roster := (roster v)\<lparr>Voters :=
          AList.update key (voter\<lparr>RawStake := d\<rparr>) (Voters (roster v))\<rparr>\<rparr>)"

definition staked_CurrentTotalPower :: "('pk, 'sig) stakedVoteWeight \<Rightarrow> Phase \<Rightarrow> Dec go" where
  "staked_CurrentTotalPower v p =
     (case map_of (lastPower v) p of
        Some cached \<Rightarrow> Inr cached
      | None \<Rightarrow> Inl (Error ''stakedVoteWeight not cache this phase''))"

section \<open>Verifiers of sealed blocks\<close>

definition newStakeVerifier :: "(int \<Rightarrow> 'pk Instance) \<Rightarrow> Committee \<Rightarrow> int option \<Rightarrow> Roster go" where
  "newStakeVerifier sched committee epoch = Roster_Compute sched committee epoch"

definition stakeVerifier_IsQuorumAchievedByMask :: "Roster \<Rightarrow> 'pk Mask option \<Rightarrow> bool go" where
  "stakeVerifier_IsQuorumAchievedByMask r m =
     (case m of
        None \<Rightarrow> Inr False
      | Some mk \<Rightarrow>
          go_bind (VotePowerByMask r mk) (\<lambda>vp. go_bind twoThird (\<lambda>t. Inr (GT vp t))))"

record uniformVerifier =
  pubKeyCnt :: int

definition newUniformVerifier ::
  "(SerializedPublicKey \<Rightarrow> 'pk go) \<Rightarrow> Committee option \<Rightarrow> uniformVerifier go" where
  "newUniformVerifier BytesToBLSPublicKey committee =
     go_bind (BLSPublicKeys BytesToBLSPublicKey committee) (\<lambda>keys. Inr \<lparr>pubKeyCnt = int (length keys)\<rparr>)"

definition thresholdKeyCount :: "uniformVerifier \<Rightarrow> int" where
  "thresholdKeyCount uv = quo (pubKeyCnt uv * 2) 3 + 1"

definition uniformVerifier_IsQuorumAchievedByMask :: "uniformVerifier \<Rightarrow> 'pk Mask \<Rightarrow> bool" where
  "uniformVerifier_IsQuorumAchievedByMask uv m \<longleftrightarrow> int (length (Publics m)) > thresholdKeyCount uv"

datatype verifier = StakeVerifier Roster | UniformVerifier uniformVerifier

definition NewVerifier ::
  "(int \<Rightarrow> 'pk Instance) \<Rightarrow> (SerializedPublicKey \<Rightarrow> 'pk go) \<Rightarrow> Committee \<Rightarrow> int option \<Rightarrow> bool \<Rightarrow> verifier go" where
  "NewVerifier sched BytesToBLSPublicKey committee epoch isStaking =
     (if isStaking then go_bind (newStakeVerifier sched committee epoch) (\<lambda>r. Inr (StakeVerifier r))
      else go_bind (newUniformVerifier BytesToBLSPublicKey (Some committee)) (\<lambda>u. Inr (UniformVerifier u)))"

section \<open>Ballot boxes\<close>

definition signers :: "('pk, 'sig) cIdentities \<Rightarrow> Phase \<Rightarrow> SerializedPublicKey set" where
  "signers s p = fst ` set (ballotBox s p)"

text \<open>
  A box in order: each key once, every key among the signers of its ballot, and all signers of a
  ballot pointing to that ballot.
\<close>

definition box_ok :: "(SerializedPublicKey \<times> Ballot) list \<Rightarrow> bool" where
  "box_ok box \<longleftrightarrow> distinct (map fst box) \<and>
     (\<forall>(k, b) \<in> set box. k \<in> set (SignerPubKeys b) \<and> (\<forall>k' \<in> set (SignerPubKeys b). (k', b) \<in> set box))"

definition ids_ok :: "('pk, 'sig) cIdentities \<Rightarrow> bool" where
  "ids_ok s \<longleftrightarrow> (\<forall>p. box_ok (ballotBox s p))"

definition same_committee :: "('pk, 'sig) cIdentities \<Rightarrow> ('pk, 'sig) cIdentities \<Rightarrow> bool" where
  "same_committee s s' \<longleftrightarrow> publicKeys s' = publicKeys s \<and> keyIndexMap s' = keyIndexMap s \<and>
     participantsCount s' = participantsCount s"

lemma put_ballot_box:
  assumes "put_ballot p b s k = Inr s'"
  shows "ballotBox s' q = (if q = p then AList.update k b (ballotBox s p) else ballotBox s q) \<and>
    same_committee s s' \<and> (\<forall>i. p \<noteq> OtherPhase i)"
  using assms by (cases p; cases q) (auto simp: put_ballot_def ballotBox_def same_committee_def Let_def)

lemma put_ballots_box:
  assumes "go_fold (put_ballot p b) s ks = Inr s'" "distinct ks" "set ks \<inter> signers s p = {}"
  shows "ballotBox s' p = ballotBox s p @ map (\<lambda>k. (k, b)) ks \<and>
    (\<forall>q. q \<noteq> p \<longrightarrow> ballotBox s' q = ballotBox s q) \<and> same_committee s s'"
  using assms
proof (induction ks arbitrary: s)
  case Nil
  then show ?case by (simp add: same_committee_def)
next
  case (Cons k ks)
  from Cons.prems(1) obtain s1 where s1: "put_ballot p b s k = Inr s1" "go_fold (put_ballot p b) s1 ks = Inr s'"
    by auto
  have new: "ballotBox s1 p = ballotBox s p @ [(k, b)]"
    using put_ballot_box [OF s1(1), of p] Cons.prems(3) by (simp add: signers_def update_new)
  have "set ks \<inter> signers s1 p = {}" using Cons.prems(2,3) new by (auto simp: signers_def)
  from Cons.IH [OF s1(2) _ this] show ?case
    using Cons.prems(2) new put_ballot_box [OF s1(1)] by (simp add: same_committee_def)
qed

lemma check_votes_iff:
  "check_votes s p seen ks = Inr () \<longleftrightarrow> distinct ks \<and> set ks \<inter> seen = {} \<and> set ks \<inter> signers s p = {}"
proof (induction ks arbitrary: seen)
  case Nil
  then show ?case by simp
next
  case (Cons k ks)
  have "ReadBallot s p k = None \<longleftrightarrow> k \<notin> signers s p"
    by (simp add: ReadBallot_def signers_def map_of_eq_None_iff)
  then show ?case using Cons.IH [of "insert k seen"] by auto
qed

lemma submitVote_box:
  assumes "submitVote so s p ks sig h ht vid = Inr (b, s')"
  shows "distinct ks \<and> set ks \<inter> signers s p = {} \<and> SignerPubKeys b = ks \<and>
    Signature b = serialize so sig \<and>
    ballotBox s' p = ballotBox s p @ map (\<lambda>k. (k, b)) ks \<and>
    (\<forall>q. q \<noteq> p \<longrightarrow> ballotBox s' q = ballotBox s q) \<and> same_committee s s'"
proof -
  from assms have c: "distinct ks" "set ks \<inter> signers s p = {}"
    by (auto simp: submitVote_def check_votes_iff)
  have b: "SignerPubKeys b = ks" "Signature b = serialize so sig" and
    run: "go_fold (put_ballot p b) s ks = Inr s'"
    using assms by (auto simp: submitVote_def Let_def)
  from put_ballots_box [OF run c] c b show ?thesis by simp
qed

lemma box_ok_append:
  assumes "box_ok box" "distinct ks" "set ks \<inter> fst ` set box = {}" "SignerPubKeys b = ks"
  shows "box_ok (box @ map (\<lambda>k. (k, b)) ks)"
proof -
  have "distinct (map fst (box @ map (\<lambda>k. (k, b)) ks))"
    using assms(1-3) by (auto simp: box_ok_def comp_def)
  then show ?thesis using assms(1,4) by (fastforce simp: box_ok_def)
qed

lemma reset_phase_box:
  "ballotBox (reset_phase so p s) q = (if q = p then [] else ballotBox s q) \<and> same_committee s (reset_phase so p s)"
  by (cases p; cases q) (auto simp: reset_phase_def ballotBox_def same_committee_def NewRound_def Let_def)

lemma reset_box:
  "ballotBox (cIdentities_reset so ps s) q = (if q \<in> set ps then [] else ballotBox s q) \<and>
   same_committee s (cIdentities_reset so ps s)"
proof (induction ps arbitrary: s)
  case Nil
  then show ?case by (simp add: cIdentities_reset_def same_committee_def)
next
  case (Cons p ps)
  have r: "cIdentities_reset so (p # ps) s = cIdentities_reset so ps (reset_phase so p s)"
    by (simp add: cIdentities_reset_def)
  have "ballotBox (cIdentities_reset so ps (reset_phase so p s)) q =
      (if q \<in> set ps then [] else ballotBox (reset_phase so p s) q)"
    using Cons.IH by blast
  moreover have "same_committee (reset_phase so p s) (cIdentities_reset so ps (reset_phase so p s))"
    using Cons.IH by blast
  ultimately show ?case
    using reset_phase_box [of so p s q] unfolding r by (auto simp: same_committee_def)
qed

lemma ids_ok_new: "ids_ok (newCIdentities so)"
  by (auto simp: ids_ok_def newCIdentities_def ballotBox_def box_ok_def NewRound_def Let_def split: Phase.split)

lemma ids_ok_submit:
  assumes "ids_ok s" "submitVote so s p ks sig h ht vid = Inr (b, s')"
  shows "ids_ok s'"
proof -
  note sb = submitVote_box [OF assms(2)]
  have "box_ok (ballotBox s q)" for q using assms(1) by (simp add: ids_ok_def)
  then have "box_ok (ballotBox s' q)" for q
    using sb box_ok_append [of "ballotBox s p" ks b] by (cases "q = p") (simp_all add: signers_def)
  then show ?thesis by (simp add: ids_ok_def)
qed

lemma ids_ok_reset: "ids_ok s \<Longrightarrow> ids_ok (cIdentities_reset so ps s)"
  by (auto simp: ids_ok_def reset_box box_ok_def)

text \<open>The contract of \<open>SignatoryTracker\<close>, and what follows from it for any sequence of votes.\<close>

locale signatory_tracker =
  fixes invar :: "'s \<Rightarrow> bool" and signed :: "'s \<Rightarrow> Phase \<Rightarrow> SerializedPublicKey set"
    and count_signed :: "'s \<Rightarrow> Phase \<Rightarrow> int"
    and submit :: "'s \<Rightarrow> Phase \<Rightarrow> SerializedPublicKey list \<Rightarrow> 's go"
    and clear :: "Phase list \<Rightarrow> 's \<Rightarrow> 's"
  assumes submit_ok: "invar s \<Longrightarrow> submit s p ks = Inr s' \<Longrightarrow>
      invar s' \<and> distinct ks \<and> set ks \<inter> signed s p = {} \<and>
      signed s' q = (if q = p then signed s p \<union> set ks else signed s q)"
    and clear_ok: "invar s \<Longrightarrow> invar (clear ps s) \<and> signed (clear ps s) q = (if q \<in> set ps then {} else signed s q)"
    and count_ok: "invar s \<Longrightarrow> count_signed s p = int (card (signed s p)) \<and> finite (signed s p)"
begin

lemma submit_all:
  assumes "invar s" "go_fold (\<lambda>s ks. submit s p ks) s kss = Inr s'"
  shows "invar s' \<and> signed s' p = signed s p \<union> set (concat kss) \<and> distinct (concat kss) \<and>
    set (concat kss) \<inter> signed s p = {} \<and>
    count_signed s' p = count_signed s p + int (length (concat kss))"
  using assms
proof (induction kss arbitrary: s)
  case Nil
  then show ?case by simp
next
  case (Cons ks kss)
  from Cons.prems(2) obtain t where t: "submit s p ks = Inr t" "go_fold (\<lambda>s ks. submit s p ks) t kss = Inr s'"
    by auto
  have sub: "invar t" "distinct ks" "set ks \<inter> signed s p = {}" "signed t p = signed s p \<union> set ks"
    using submit_ok [OF Cons.prems(1) t(1), of p] by simp_all
  note ih = Cons.IH [OF sub(1) t(2)]
  have "count_signed t p = count_signed s p + int (length ks)"
    using count_ok [OF Cons.prems(1), of p] count_ok [OF sub(1), of p] sub
    by (simp add: card_Un_disjoint Int_commute distinct_card)
  then show ?case using ih sub by auto
qed

end

interpretation boxes: signatory_tracker "ids_ok :: ('pk, 'sig) cIdentities \<Rightarrow> bool" signers SignersCount
  "\<lambda>s p ks. map_sum id snd (submitVote so s p ks sig h ht vid)" "cIdentities_reset so"
  for so :: "'sig sig_ops" and sig h ht vid
proof
  fix s :: "('pk, 'sig) cIdentities" and p ks s' q
  assume inv: "ids_ok s" and "map_sum id snd (submitVote so s p ks sig h ht vid) = Inr s'"
  then obtain b where sub: "submitVote so s p ks sig h ht vid = Inr (b, s')"
    by (cases "submitVote so s p ks sig h ht vid") auto
  show "ids_ok s' \<and> distinct ks \<and> set ks \<inter> signers s p = {} \<and>
      signers s' q = (if q = p then signers s p \<union> set ks else signers s q)"
    using submitVote_box [OF sub] ids_ok_submit [OF inv sub] by (auto simp: signers_def image_Un image_image)
next
  show "ids_ok s \<Longrightarrow> ids_ok (cIdentities_reset so ps s) \<and>
      signers (cIdentities_reset so ps s) q = (if q \<in> set ps then {} else signers s q)" for s :: "('pk, 'sig) cIdentities" and ps q
    by (simp add: ids_ok_reset signers_def reset_box)
next
  show "ids_ok s \<Longrightarrow> SignersCount s p = int (card (signers s p)) \<and> finite (signers s p)" for s :: "('pk, 'sig) cIdentities" and p
    using distinct_card [of "map fst (ballotBox s p)"]
    by (simp add: ids_ok_def box_ok_def SignersCount_def signers_def)
qed

section \<open>Aggregated votes\<close>

lemma collect_ballots:
  assumes "\<forall>b \<in> set (kept @ bs). \<forall>b' \<in> set (kept @ bs). b \<noteq> b' \<longrightarrow> set (SignerPubKeys b) \<inter> set (SignerPubKeys b') = {}"
    and "\<forall>b \<in> set (kept @ bs). SignerPubKeys b \<noteq> []" and "distinct kept"
    and "K = \<Union> (set ` SignerPubKeys ` set kept)"
  shows "\<exists>kept'. fold (\<lambda>b st. collect_ballot st b) bs (K, kept) = (\<Union> (set ` SignerPubKeys ` set kept'), kept') \<and>
    distinct kept' \<and> set kept' = set kept \<union> set bs"
  using assms
proof (induction bs arbitrary: K kept)
  case Nil
  then show ?case by auto
next
  case (Cons b bs)
  have ex: "list_ex (\<lambda>key. key \<in> K) (SignerPubKeys b) \<longleftrightarrow> b \<in> set kept"
  proof
    assume "list_ex (\<lambda>key. key \<in> K) (SignerPubKeys b)"
    then obtain key b' where "key \<in> set (SignerPubKeys b)" "b' \<in> set kept" "key \<in> set (SignerPubKeys b')"
      using Cons.prems(4) by (auto simp: list_ex_iff)
    moreover from this have "set (SignerPubKeys b) \<inter> set (SignerPubKeys b') \<noteq> {}" by blast
    ultimately have "b = b'" using Cons.prems(1) [rule_format, of b b'] by auto
    then show "b \<in> set kept" using \<open>b' \<in> set kept\<close> by simp
  next
    assume "b \<in> set kept"
    moreover have "SignerPubKeys b \<noteq> []" using Cons.prems(2) by simp
    then obtain key where "key \<in> set (SignerPubKeys b)" by fastforce
    ultimately show "list_ex (\<lambda>key. key \<in> K) (SignerPubKeys b)"
      using Cons.prems(4) by (auto simp: list_ex_iff)
  qed
  show ?case
  proof (cases "b \<in> set kept")
    case True
    then have "collect_ballot (K, kept) b = (K, kept)" using ex by (simp add: collect_ballot_def)
    moreover obtain kept' where "fold (\<lambda>b st. collect_ballot st b) bs (K, kept) =
        (\<Union> (set ` SignerPubKeys ` set kept'), kept')" "distinct kept'" "set kept' = set kept \<union> set bs"
      using Cons.IH [of kept K, OF _ _ Cons.prems(3,4)] Cons.prems(1,2) by auto
    ultimately show ?thesis using True by auto
  next
    case False
    then have step: "collect_ballot (K, kept) b = (K \<union> set (SignerPubKeys b), kept @ [b])"
      using ex by (simp add: collect_ballot_def)
    have eq: "set ((kept @ [b]) @ bs) = set (kept @ b # bs)" by auto
    have d: "distinct (kept @ [b])" using Cons.prems(3) False by simp
    have u: "K \<union> set (SignerPubKeys b) = \<Union> (set ` SignerPubKeys ` set (kept @ [b]))"
      using Cons.prems(4) by auto
    obtain kept' where k: "fold (\<lambda>b st. collect_ballot st b) bs (K \<union> set (SignerPubKeys b), kept @ [b]) =
        (\<Union> (set ` SignerPubKeys ` set kept'), kept')" "distinct kept'" "set kept' = set (kept @ [b]) \<union> set bs"
      using Cons.IH [of "kept @ [b]", OF _ _ d u] Cons.prems(1,2) unfolding eq by blast
    show ?thesis
    proof (intro exI conjI)
      show "fold (\<lambda>b st. collect_ballot st b) (b # bs) (K, kept) = (\<Union> (set ` SignerPubKeys ` set kept'), kept')"
        by (simp only: fold.simps comp_def step k(1))
      show "set kept' = set kept \<union> set (b # bs)" by (simp only: k(3)) auto
    qed (rule k(2))
  qed
qed

lemma box_ballots:
  assumes "box_ok box" "b \<in> snd ` set box" "b' \<in> snd ` set box" "b \<noteq> b'"
  shows "set (SignerPubKeys b) \<inter> set (SignerPubKeys b') = {}" "SignerPubKeys b \<noteq> []"
proof -
  have "(k, b) \<in> set box" if "k \<in> set (SignerPubKeys b)" "b \<in> snd ` set box" for k b
    using assms(1) that by (fastforce simp: box_ok_def)
  moreover have "b1 = b2" if "(k, b1) \<in> set box" "(k, b2) \<in> set box" for k b1 b2
  proof -
    have "distinct (map fst box)" using assms(1) unfolding box_ok_def by blast
    then show ?thesis using that by (rule eq_key_imp_eq_value)
  qed
  ultimately show "set (SignerPubKeys b) \<inter> set (SignerPubKeys b') = {}"
    using assms(2-4) by (meson disjoint_iff)
  show "SignerPubKeys b \<noteq> []" using assms(1,2) by (fastforce simp: box_ok_def)
qed

text \<open>
The aggregate of a phase uses every multi-signature exactly once: it is the sum of the signatures
of a list of distinct ballots whose signer lists are pairwise disjoint and together are exactly the
keys that voted, although each ballot is recorded once per signing key.
\<close>

theorem AggregateVotes_partition:
  assumes "ids_ok s"
  shows "\<exists>ballots. AggregateVotes so s p =
      AggregateSig (sigZero so) (sigAdd so) (map (\<lambda>b. deserialize so (Signature b)) ballots) \<and>
    distinct ballots \<and> set ballots = snd ` set (ballotBox s p) \<and>
    (\<forall>b \<in> set ballots. \<forall>b' \<in> set ballots. b \<noteq> b' \<longrightarrow> set (SignerPubKeys b) \<inter> set (SignerPubKeys b') = {}) \<and>
    (\<Union>b \<in> set ballots. set (SignerPubKeys b)) = signers s p"
proof -
  have ok: "box_ok (ballotBox s p)" using assms by (simp add: ids_ok_def)
  have set: "set (ReadAllBallots s p) = snd ` set (ballotBox s p)" by (simp add: ReadAllBallots_def)
  have dis: "\<forall>b \<in> set (ReadAllBallots s p). \<forall>b' \<in> set (ReadAllBallots s p).
      b \<noteq> b' \<longrightarrow> set (SignerPubKeys b) \<inter> set (SignerPubKeys b') = {}"
    using box_ballots(1) [OF ok] unfolding set by blast
  have ne: "\<forall>b \<in> set (ReadAllBallots s p). SignerPubKeys b \<noteq> []"
    using ok unfolding set by (fastforce simp: box_ok_def)
  obtain kept where k: "fold (\<lambda>b st. collect_ballot st b) (ReadAllBallots s p) ({}, []) =
      (\<Union> (set ` SignerPubKeys ` set kept), kept)" "distinct kept" "set kept = set (ReadAllBallots s p)"
    using collect_ballots [of "[]" "ReadAllBallots s p" "{}"] dis ne by auto
  have "(\<Union>b \<in> set kept. set (SignerPubKeys b)) = signers s p"
    using ok unfolding k(3) set by (force simp: box_ok_def signers_def)
  moreover have "AggregateVotes so s p =
      AggregateSig (sigZero so) (sigAdd so) (map (\<lambda>b. deserialize so (Signature b)) kept)"
    by (simp only: AggregateVotes_def k(1) snd_conv)
  moreover note k(2) and dis [folded k(3)] and k(3) [unfolded set]
  ultimately show ?thesis by blast
qed

definition int_sigs :: "int sig_ops" where
  "int_sigs = \<lparr>sigZero = 0, sigAdd = (+), serialize = (\<lambda>i. [word_of_int i]), deserialize = (\<lambda>bs. uint (hd bs))\<rparr>"

theorem AggregateVotes_partition_witness:
  "\<exists>s b. submitVote int_sigs (newCIdentities int_sigs :: (int, int) cIdentities) Prepare [10, 20] 7 1 5 5 = Inr (b, s) \<and>
     ids_ok s \<and> AggregateVotes int_sigs s Prepare = 7 \<and>
     (\<exists>ballots :: Ballot list. AggregateVotes int_sigs s Prepare =
        AggregateSig (sigZero int_sigs) (sigAdd int_sigs) (map (\<lambda>b. deserialize int_sigs (Signature b)) ballots) \<and>
        (\<Union>b \<in> set ballots. set (SignerPubKeys b)) = signers s Prepare)"
proof -
  obtain s b where sb: "submitVote int_sigs (newCIdentities int_sigs :: (int, int) cIdentities) Prepare [10, 20] 7 1 5 5 = Inr (b, s)"
      "AggregateVotes int_sigs s Prepare = 7"
    by (simp add: submitVote_def newCIdentities_def NewRound_def int_sigs_def ReadBallot_def ballotBox_def
        put_ballot_def AggregateVotes_def ReadAllBallots_def collect_ballot_def AggregateSig_def Let_def)
  have ok: "ids_ok s" using ids_ok_submit [OF ids_ok_new sb(1)] .
  have "\<exists>ballots :: Ballot list. AggregateVotes int_sigs s Prepare =
      AggregateSig (sigZero int_sigs) (sigAdd int_sigs) (map (\<lambda>b. deserialize int_sigs (Signature b)) ballots) \<and>
      (\<Union>b \<in> set ballots. set (SignerPubKeys b)) = signers s Prepare"
    using AggregateVotes_partition [OF ok, of int_sigs Prepare] by (elim exE conjE) (intro exI conjI)
  with sb ok show ?thesis by (intro exI [of _ s] exI [of _ b] conjI)
qed

section \<open>Quorum intersection\<close>

text \<open>
  Weighted voting: for a valid configuration the weights of the members are not negative and add up
  to \<open>whole\<close>. Two sets that each weigh more than \<open>t\<close> then share members of weight more than
  \<open>2 t - whole\<close>.
\<close>

locale weighted_quorum =
  fixes valid :: "'r \<Rightarrow> bool" and weight :: "'r \<Rightarrow> 'k \<Rightarrow> int" and whole :: "'r \<Rightarrow> int"
  assumes weight_nonneg: "valid r \<Longrightarrow> 0 \<le> weight r k"
    and weight_le: "valid r \<Longrightarrow> finite K \<Longrightarrow> sum (weight r) K \<le> whole r"
begin

lemma mono: "valid r \<Longrightarrow> finite B \<Longrightarrow> A \<subseteq> B \<Longrightarrow> sum (weight r) A \<le> sum (weight r) B"
  by (intro sum_mono2) (auto simp: weight_nonneg)

lemma intersection_ge:
  assumes "valid r" "finite A" "finite B" "t \<le> sum (weight r) A" "t \<le> sum (weight r) B"
  shows "2 * t - whole r \<le> sum (weight r) (A \<inter> B)"
proof -
  have "sum (weight r) A + sum (weight r) B = sum (weight r) (A \<union> B) + sum (weight r) (A \<inter> B)"
    using sum.union_inter [OF assms(2,3), of "weight r"] by simp
  moreover have "sum (weight r) (A \<union> B) \<le> whole r" using assms(1-3) by (intro weight_le) simp_all
  ultimately show ?thesis using assms(4,5) by linarith
qed

lemma intersection:
  assumes "valid r" "finite A" "finite B" "t < sum (weight r) A" "t < sum (weight r) B"
  shows "2 * t - whole r < sum (weight r) (A \<inter> B)"
  using intersection_ge [OF assms(1-3), of "t + 1"] assms(4,5) by simp

end

interpretation stake: weighted_quorum valid_roster power_of "\<lambda>_. OneDec"
  by unfold_locales (simp_all add: power_of_nonneg power_total)

definition seat :: "SerializedPublicKey set \<Rightarrow> SerializedPublicKey \<Rightarrow> int" where
  "seat committee k = (if k \<in> committee then 1 else 0)"

interpretation seats: weighted_quorum finite seat "\<lambda>committee. int (card committee)"
proof
  fix r K :: "SerializedPublicKey set"
  assume "finite r" "finite K"
  then have "sum (seat r) K = int (card (K \<inter> r))"
    by (simp add: seat_def sum.If_cases Int_commute)
  also have "\<dots> \<le> int (card r)" using \<open>finite r\<close> by (simp add: card_mono)
  finally show "sum (seat r) K \<le> int (card r)" .
qed (simp add: seat_def)

lemma twoThird_eq: "twoThird = Inr 666666666666666667"
  by (simp add: twoThird_def dec_eval)

lemma QuorumThreshold_eq: "QuorumThreshold = Inr 666666666666666667"
  by (simp add: QuorumThreshold_def twoThird_eq)

section \<open>The staked decider\<close>

text \<open>
  The invariant of the staked decider: boxes in order, signers among the voters, and for every phase
  a tally that is the power of the keys in its box; the flag is the comparison with the threshold
  when no power is negative.
\<close>

definition staked_inv :: "('pk, 'sig) stakedVoteWeight \<Rightarrow> bool" where
  "staked_inv v \<longleftrightarrow> ids_ok (sReader v) \<and>
     (\<forall>p tq. phase_tally (voteTally v) p = Some tq \<longrightarrow>
        tally tq = sum (power_of (roster v)) (signers (sReader v) p) \<and>
        (valid_roster (roster v) \<longrightarrow> (quorumAchieved tq \<longleftrightarrow> tally tq > 666666666666666667)))"

lemma voting_power_sum:
  assumes "voting_power r ks = Inr a" "distinct ks"
  shows "a = sum (power_of r) (set ks)"
proof -
  have "go_fold (\<lambda>pw k. case map_of (Voters r) k of Some voter \<Rightarrow> Add pw (OverallPercent voter)
      | None \<Rightarrow> Inl (Panic ''nil pointer'')) x ks = Inr a \<Longrightarrow> a = x + sum_list (map (power_of r) ks)" for x
  proof (induction ks arbitrary: x)
    case (Cons k ks)
    then obtain voter where v: "map_of (Voters r) k = Some voter" by (auto split: option.splits)
    then have "a = (x + OverallPercent voter) + sum_list (map (power_of r) ks)"
      using Cons.prems by (intro Cons.IH) auto
    then show ?case using v by (simp add: power_of_def [of r k])
  qed simp
  from this [of "NewDec 0"] assms show ?thesis
    by (simp add: voting_power_def NewDec_def sum_list_distinct_conv_sum_set)
qed

lemma check_signers_keys: "check_signers r ks = Inr bs \<Longrightarrow> bs = map Bytes ks"
proof -
  define f where "f = (\<lambda>(first, keys) pubKey.
        case map_of (Voters r) (Bytes pubKey) of
          None \<Rightarrow> Inl (Error ''Signer not in committee'')
        | Some voter \<Rightarrow>
            (case first of
               None \<Rightarrow> Inr (Some (EarningAccount voter), keys @ [Bytes pubKey])
             | Some signerAddr \<Rightarrow>
                 if signerAddr \<noteq> EarningAccount voter \<and> \<not> IsIntelchainNode voter
                 then Inl (Error ''Multiple signer accounts used in multi-sig'')
                 else Inr (first, keys @ [Bytes (pubKey :: 'a PublicKeyWrapper)])))"
  have step: "f st k = Inr st' \<Longrightarrow> snd st' = snd st @ [Bytes k]" for st st' k
    by (cases st) (auto simp: f_def split: option.splits if_splits)
  have "go_fold f st ks = Inr st' \<Longrightarrow> snd st' = snd st @ map Bytes ks" for st st'
    by (induction ks arbitrary: st) (auto dest!: step)
  then show "check_signers r ks = Inr bs \<Longrightarrow> bs = map Bytes ks"
    by (fastforce simp: check_signers_def f_def [symmetric])
qed

lemma set_phase_tally_get:
  "phase_tally t p \<noteq> None \<Longrightarrow>
   phase_tally (set_phase_tally p x t) q = (if q = p then Some x else phase_tally t q)"
  by (cases p; cases q) (auto simp: phase_tally_def set_phase_tally_def)

lemma AddNewVote_cases:
  assumes "staked_AddNewVote so v p ks sig h ht vid = Inr (b, v')"
  obtains s' a tq where "submitVote so (sReader v) p (map Bytes ks) sig h ht vid = Inr (b, s')"
    and "voting_power (roster v) (map Bytes ks) = Inr a" and "phase_tally (voteTally v) p = Some tq"
    and "v' = v\<lparr>sReader := s', voteTally := set_phase_tally p (tq\<lparr>tally := tally tq + a,
           quorumAchieved := (quorumAchieved tq \<or> tally tq + a > 666666666666666667)\<rparr>) (voteTally v)\<rparr>"
proof -
  from assms obtain bs where c: "check_signers (roster v) ks = Inr bs"
    by (auto simp: staked_AddNewVote_def)
  note bs = check_signers_keys [OF c]
  have q: "(if \<not> x then y else x) = (x \<or> y)" for x y by simp
  from assms c bs obtain s' a where sa: "submitVote so (sReader v) p (map Bytes ks) sig h ht vid = Inr (b, s')"
    "voting_power (roster v) (map Bytes ks) = Inr a"
    by (auto simp: staked_AddNewVote_def QuorumThreshold_eq q Let_def simp del: if_not_P split: option.splits)
  from assms c bs sa obtain tq where tq: "phase_tally (voteTally v) p = Some tq"
    by (cases "phase_tally (voteTally v) p") (auto simp: staked_AddNewVote_def)
  have "v' = v\<lparr>sReader := s', voteTally := set_phase_tally p (tq\<lparr>tally := tally tq + a,
      quorumAchieved := (quorumAchieved tq \<or> tally tq + a > 666666666666666667)\<rparr>) (voteTally v)\<rparr>"
    using assms c bs sa tq
    by (simp add: staked_AddNewVote_def QuorumThreshold_eq q GT_def Let_def)
  then show thesis by (rule that [OF sa tq])
qed

lemma AddNewVote_inv:
  assumes inv: "staked_inv v" and add: "staked_AddNewVote so v p ks sig h ht vid = Inr (b, v')"
  shows "staked_inv v'"
proof -
  obtain s' a tq where sub: "submitVote so (sReader v) p (map Bytes ks) sig h ht vid = Inr (b, s')"
    and a: "voting_power (roster v) (map Bytes ks) = Inr a" and tq: "phase_tally (voteTally v) p = Some tq"
    and v': "v' = v\<lparr>sReader := s', voteTally := set_phase_tally p (tq\<lparr>tally := tally tq + a,
           quorumAchieved := (quorumAchieved tq \<or> tally tq + a > 666666666666666667)\<rparr>) (voteTally v)\<rparr>"
    by (rule AddNewVote_cases [OF add])
  let ?K = "set (map Bytes ks)"
  have ids: "ids_ok (sReader v)" using inv by (simp add: staked_inv_def)
  have box: "distinct (map Bytes ks)" "?K \<inter> signers (sReader v) p = {}"
    and other: "q \<noteq> p \<Longrightarrow> signers s' q = signers (sReader v) q" for q
    using submitVote_box [OF sub] by (simp_all add: signers_def)
  have here: "signers s' p = signers (sReader v) p \<union> ?K"
    using submitVote_box [OF sub] by (auto simp: signers_def image_Un image_image)
  have pow: "a = sum (power_of (roster v)) ?K" using voting_power_sum [OF a box(1)] .
  have "sum (power_of (roster v)) (signers s' p) = tally tq + a"
    using inv tq box(2) pow unfolding here
    by (subst sum.union_disjoint) (auto simp: staked_inv_def signers_def)
  moreover have "0 \<le> a" if "valid_roster (roster v)"
    unfolding pow by (intro sum_nonneg) (simp add: power_of_nonneg [OF that])
  ultimately show ?thesis
    using inv tq ids_ok_submit [OF ids sub] other
    by (auto simp: staked_inv_def v' set_phase_tally_get)
qed

lemma reset_inv_gen:
  assumes inv: "staked_inv v" and r: "roster v' = roster v"
    and s: "sReader v' = cIdentities_reset so ps (sReader v)"
    and t: "\<And>p tq. phase_tally (voteTally v') p = Some tq \<Longrightarrow>
      (if p \<in> set ps then tq = noTally else phase_tally (voteTally v) p = Some tq)"
  shows "staked_inv v'"
proof -
  have ids: "ids_ok (sReader v')" using inv by (simp add: s staked_inv_def ids_ok_reset)
  have sg: "signers (sReader v') p = (if p \<in> set ps then {} else signers (sReader v) p)" for p
    by (simp add: s signers_def reset_box)
  have "tally tq = sum (power_of (roster v')) (signers (sReader v') p) \<and>
      (valid_roster (roster v') \<longrightarrow> (quorumAchieved tq \<longleftrightarrow> tally tq > 666666666666666667))"
    if "phase_tally (voteTally v') p = Some tq" for p tq
    using t [OF that] inv sg [of p]
    by (cases "p \<in> set ps") (simp_all add: staked_inv_def r noTally_def NewDec_def)
  with ids show ?thesis by (simp add: staked_inv_def)
qed

lemma reset_inv:
  assumes "staked_inv v"
  shows "staked_inv (staked_ResetPrepareAndCommitVotes so v)" "staked_inv (staked_ResetViewChangeVotes so v)"
proof -
  show "staked_inv (staked_ResetPrepareAndCommitVotes so v)"
    by (rule reset_inv_gen [OF assms, of _ so "[Prepare, Commit]"])
      (auto simp: staked_ResetPrepareAndCommitVotes_def phase_tally_def split: Phase.splits)
  show "staked_inv (staked_ResetViewChangeVotes so v)"
    by (rule reset_inv_gen [OF assms, of _ so "[ViewChange]"])
      (auto simp: staked_ResetViewChangeVotes_def phase_tally_def split: Phase.splits)
qed

lemma no_votes_inv:
  assumes "voteTally v = newVoteTally" "\<And>p. ballotBox (sReader v) p = []"
  shows "staked_inv v"
  using assms by (auto simp: staked_inv_def ids_ok_def box_ok_def newVoteTally_def noTally_def NewDec_def
      signers_def phase_tally_def split: Phase.splits)

lemma SetVoters_inv: "staked_inv (fst (staked_SetVoters so sched v c e))"
proof -
  let ?v = "staked_ResetViewChangeVotes so (staked_ResetPrepareAndCommitVotes so v)"
  have t: "voteTally ?v = newVoteTally"
    by (simp add: staked_ResetViewChangeVotes_def staked_ResetPrepareAndCommitVotes_def newVoteTally_def)
  have b: "ballotBox (sReader ?v) p = []" for p
  proof (cases p)
    case (OtherPhase i)
    then show ?thesis by (simp add: ballotBox_def)
  qed (simp_all add: staked_ResetViewChangeVotes_def staked_ResetPrepareAndCommitVotes_def reset_box)
  show ?thesis using t b
    by (auto simp: staked_SetVoters_def Let_def split: sum.split intro!: no_votes_inv)
qed

section \<open>Runs of the staked decider\<close>

inductive decider_step ::
  "'sig sig_ops \<Rightarrow> (int \<Rightarrow> 'pk Instance) \<Rightarrow> ('pk, 'sig) stakedVoteWeight \<Rightarrow> ('pk, 'sig) stakedVoteWeight \<Rightarrow> bool"
  for so sched where
  vote: "staked_AddNewVote so v p ks sig h ht vid = Inr (b, v') \<Longrightarrow> decider_step so sched v v'"
| reset_votes: "decider_step so sched v (staked_ResetPrepareAndCommitVotes so v)"
| reset_view_change: "decider_step so sched v (staked_ResetViewChangeVotes so v)"
| set_voters: "decider_step so sched v (fst (staked_SetVoters so sched v c e))"
| update_participants: "decider_step so sched v (v\<lparr>sReader := UpdateParticipants (sReader v) keys\<rparr>)"

inductive decider_reachable ::
  "'sig sig_ops \<Rightarrow> (int \<Rightarrow> 'pk Instance) \<Rightarrow> ('pk, 'sig) stakedVoteWeight \<Rightarrow> bool"
  for so sched where
  start: "decider_reachable so sched (NewDecider_stake so shardID)"
| step: "decider_reachable so sched v \<Longrightarrow> decider_step so sched v v' \<Longrightarrow> decider_reachable so sched v'"

inductive_cases decider_stepE: "decider_step so sched v v'"

lemma UpdateParticipants_box [simp]: "ballotBox (UpdateParticipants s keys) p = ballotBox s p"
  by (simp add: UpdateParticipants_def ballotBox_def split: Phase.split)

lemma decider_step_inv: "decider_step so sched v v' \<Longrightarrow> staked_inv v \<Longrightarrow> staked_inv v'"
proof (induction rule: decider_step.induct)
  case (vote v p ks sig h ht vid b v')
  show ?case by (rule AddNewVote_inv [OF vote(2,1)])
next
  case (update_participants v keys)
  then show ?case by (simp add: staked_inv_def ids_ok_def signers_def)
next
  case (reset_votes v)
  then show ?case by (rule reset_inv(1))
next
  case (reset_view_change v)
  then show ?case by (rule reset_inv(2))
next
  case (set_voters v c e)
  show ?case by (rule SetVoters_inv)
qed

lemma decider_reachable_inv: "decider_reachable so sched v \<Longrightarrow> staked_inv v"
proof (induction rule: decider_reachable.induct)
  case (start shardID)
  have "ballotBox (newCIdentities so) p = []" for p
    by (cases p) (simp_all add: newCIdentities_def ballotBox_def NewRound_def Let_def)
  then show ?case by (intro no_votes_inv) (simp_all add: NewDecider_stake_def)
next
  case (step v v')
  show ?case by (rule decider_step_inv [OF step.hyps(2) step.IH])
qed

text \<open>
C23: Whatever votes, resets, committee changes and participant updates a staked decider has gone
through, the tally of each phase is exactly the power of the keys in that phase's ballot box, each
counted once; and if the roster is valid, quorum is reported exactly when that power exceeds the
two-thirds threshold.
\<close>

theorem tally_is_power_of_signers:
  assumes "decider_reachable so sched v" "phase_tally (voteTally v) p = Some tq"
  shows "tally tq = sum (power_of (roster v)) (signers (sReader v) p) \<and>
    (valid_roster (roster v) \<longrightarrow>
      (staked_IsQuorumAchieved v p \<longleftrightarrow>
         3 * sum (power_of (roster v)) (signers (sReader v) p) > 2 * OneDec + 1))"
proof -
  have "tally tq = sum (power_of (roster v)) (signers (sReader v) p)"
    and q: "valid_roster (roster v) \<Longrightarrow> quorumAchieved tq \<longleftrightarrow> tally tq > 666666666666666667"
    using decider_reachable_inv [OF assms(1)] assms(2) by (auto simp: staked_inv_def)
  then show ?thesis
    using assms(2) by (auto simp: staked_IsQuorumAchieved_def OneDec_def precisionReuse_def)
qed

theorem tally_is_power_of_signers_witness:
  "\<exists>v :: (int, int) stakedVoteWeight. decider_reachable int_sigs sample_schedule v \<and> map fst (Voters (roster v)) = [10, 20, 30] \<and>
     phase_tally (voteTally v) Prepare = Some noTally \<and>
     tally noTally = sum (power_of (roster v)) (signers (sReader v) Prepare)"
proof -
  obtain r where r: "Roster_Compute sample_schedule sample_committee (Some 1) = Inr r" by (rule sample_roster)
  define v :: "(int, int) stakedVoteWeight" where
    "v = fst (staked_SetVoters int_sigs sample_schedule (NewDecider_stake int_sigs 0) sample_committee (Some 1))"
  have reach: "decider_reachable int_sigs sample_schedule v"
    unfolding v_def by (rule decider_reachable.step [OF decider_reachable.start decider_step.set_voters])
  have rv: "roster v = r" "phase_tally (voteTally v) Prepare = Some noTally"
    by (simp_all add: v_def staked_SetVoters_def r Let_def phase_tally_def staked_ResetViewChangeVotes_def
        staked_ResetPrepareAndCommitVotes_def)
  have "map fst (Voters r) = [10, 20, 30]"
    using Roster_Compute_keys [OF r] by (simp add: sample_committee_def sample_slot_def)
  moreover have "tally noTally = sum (power_of (roster v)) (signers (sReader v) Prepare)"
    using tally_is_power_of_signers [OF reach rv(2)] by (rule conjunct1)
  ultimately show ?thesis using reach rv by (intro exI [of _ v]) simp
qed

section \<open>Verifier and decider\<close>

lemma computeTotalPowerByMask_eq: "computeTotalPowerByMask v m = VotePowerByMask (roster v) m"
proof -
  have "(\<lambda>currentTotal (key, i). case IndexEnabled m (int i) of
          Inl (Panic e) \<Rightarrow> Inl (Panic e)
        | Inl (Error _) \<Rightarrow> Inr currentTotal
        | Inr en \<Rightarrow>
            if en then (case map_of (Voters (roster v)) key of
                          Some voter \<Rightarrow> Add currentTotal (OverallPercent voter)
                        | None \<Rightarrow> Inr currentTotal)
            else Inr currentTotal) =
      (\<lambda>res (key, index). case IndexEnabled m (int index) of
          Inl (Panic p) \<Rightarrow> Inl (Panic p)
        | Inl (Error _) \<Rightarrow> Inr res
        | Inr en \<Rightarrow>
            if \<not> en then Inr res
            else (case map_of (Voters (roster v)) key of
                    None \<Rightarrow> Inr res
                  | Some voter \<Rightarrow> Add res (OverallPercent voter)))"
    by (intro ext) (auto split: prod.split sum.split fault.split)
  then show ?thesis by (simp add: computeTotalPowerByMask_def VotePowerByMask_def)
qed

text \<open>
C34: The verifier of sealed blocks and the decider of the running consensus never disagree: after
\<open>SetVoters\<close> accepted a committee, both give the same answer on every mask, and the verifier can be
built exactly when \<open>SetVoters\<close> succeeds.
\<close>

theorem staked_verifier_agrees_with_decider:
  "case (staked_SetVoters so sched v committee epoch, newStakeVerifier sched committee epoch) of
     ((v', Inr _), Inr r) \<Rightarrow>
       staked_IsQuorumAchievedByMask v' m = stakeVerifier_IsQuorumAchievedByMask r m
   | ((v', Inl e), Inl e') \<Rightarrow> e = e'
   | _ \<Rightarrow> False"
  by (cases "Roster_Compute sched committee epoch")
    (auto simp: staked_SetVoters_def newStakeVerifier_def Let_def staked_IsQuorumAchievedByMask_def
      stakeVerifier_IsQuorumAchievedByMask_def computeTotalPowerByMask_eq QuorumThreshold_eq twoThird_eq
      split: option.split)

section \<open>Safety of quorums\<close>

definition mask_keys :: "'pk Mask \<Rightarrow> SerializedPublicKey set" where
  "mask_keys m = (\<lambda>i. Bytes (Publics m ! i)) ` enabled m"

definition mask_for :: "'pk pk_ops \<Rightarrow> 'pk Mask \<Rightarrow> bool" where
  "mask_for ops m \<longleftrightarrow> mask_ok ops m \<and> PublicsIndex m = publics_index (Publics m) \<and>
     distinct (map Bytes (Publics m))"

lemma verifier_power:
  assumes "mask_for ops m" "valid_roster r"
  shows "stakeVerifier_IsQuorumAchievedByMask r (Some m) =
    Inr (sum (power_of r) (mask_keys m) > 666666666666666667)"
proof -
  have "inj_on (\<lambda>i. Bytes (Publics m ! i)) (enabled m)"
    using assms(1) by (auto simp: mask_for_def inj_on_def enabled_def distinct_conv_nth)
  then have "(\<Sum>i \<in> enabled m. power_of r (Bytes (Publics m ! i))) = sum (power_of r) (mask_keys m)"
    by (simp add: mask_keys_def sum.reindex)
  then show ?thesis
    using VotePowerByMask_value [of ops m r] assms
    by (auto simp: mask_for_def stakeVerifier_IsQuorumAchievedByMask_def twoThird_eq GT_def)
qed

lemma finite_mask_keys [simp]: "finite (mask_keys m)"
  by (simp add: mask_keys_def enabled_def)

text \<open>
C1: Two masks that the staked verifier accepts for one valid roster have more than a third of the
voting power in common. So as long as voters with two thirds of the power are honest, some honest
voter signed both: two conflicting blocks cannot both be sealed.
\<close>

theorem staked_quorums_intersect:
  assumes "valid_roster r" "mask_for ops m1" "mask_for ops m2"
    and "stakeVerifier_IsQuorumAchievedByMask r (Some m1) = Inr True"
    and "stakeVerifier_IsQuorumAchievedByMask r (Some m2) = Inr True"
  shows "OneDec < 3 * sum (power_of r) (mask_keys m1 \<inter> mask_keys m2)"
proof -
  have "2 * 666666666666666667 - OneDec < sum (power_of r) (mask_keys m1 \<inter> mask_keys m2)"
    using assms by (intro stake.intersection) (simp_all add: verifier_power)
  then show ?thesis by (simp add: OneDec_def precisionReuse_def)
qed

theorem staked_quorums_intersect_witness:
  "\<exists>m. mask_for int_ops m \<and> enabled m = {0, 1} \<and>
     stakeVerifier_IsQuorumAchievedByMask sample_valid_roster (Some m) = Inr True \<and>
     OneDec < 3 * sum (power_of sample_valid_roster) (mask_keys m \<inter> mask_keys m)"
proof -
  let ?m0 = "NewMask int_ops sample_publics"
  have l: "length (Publics ?m0) = 3" by (simp add: NewMask_def sample_publics_def)
  obtain m1 where m1: "mask_ok int_ops m1" "same_keys ?m0 m1" "enabled m1 = {0}"
    using SetBit_ok [OF NewMask_ok [OF int_ops_group], of 0 sample_publics True] l by (auto simp: NewMask_enabled)
  obtain m where m: "mask_ok int_ops m" "same_keys m1 m" "enabled m = {0, 1}"
    using SetBit_ok [OF m1(1), of 1 True] m1 l by (auto simp: same_keys_def)
  have p: "Publics m = sample_publics" "PublicsIndex m = publics_index (Publics m)"
    using m m1 by (simp_all add: same_keys_def NewMask_def)
  have mf: "mask_for int_ops m" using m p by (simp add: mask_for_def sample_publics_def)
  have "mask_keys m = {10, 20}" by (simp add: mask_keys_def m(3) p(1)) (simp add: sample_publics_def)
  then have q: "stakeVerifier_IsQuorumAchievedByMask sample_valid_roster (Some m) = Inr True"
    using verifier_power [OF mf sample_roster_valid]
    by (simp add: power_of_def sample_valid_roster_def sample_vote_def)
  from staked_quorums_intersect [OF sample_roster_valid mf mf q q] mf m(3) q show ?thesis by blast
qed

lemma two_thirds_arith: "2 * (f + 1) - c \<le> x \<Longrightarrow> 2 * c \<le> 3 * f + 2 \<Longrightarrow> c < 3 * x" for c f x :: int
  by arith

text \<open>
C35: The same for the uniform policy: if two deciders with the same distinct participants both report
quorum for a phase, on ballots of participants only, then more than a third of the participants
voted in both.
\<close>

theorem uniform_quorums_intersect:
  assumes "ids_ok (uReader v1)" "ids_ok (uReader v2)" "finite C" "ParticipantsCount (uReader v1) = int (card C)"
    and "ParticipantsCount (uReader v2) = int (card C)"
    and "signers (uReader v1) p \<subseteq> C" "signers (uReader v2) p \<subseteq> C"
    and "uniform_IsQuorumAchieved v1 p" "uniform_IsQuorumAchieved v2 p"
  shows "card C < 3 * card (signers (uReader v1) p \<inter> signers (uReader v2) p)"
proof -
  let ?A = "signers (uReader v1) p" and ?B = "signers (uReader v2) p"
  define f where "f = 2 * card C div 3"
  have fin: "finite ?A" "finite ?B" by (simp_all add: signers_def)
  have s: "sum (seat C) K = int (card K)" if "K \<subseteq> C" for K
    using that assms(3) by (simp add: seat_def subset_iff sum.If_cases Int_absorb2 finite_subset)
  have t: "TwoThirdsSignersCount (uReader v1) = int f + 1" "TwoThirdsSignersCount (uReader v2) = int f + 1"
    using assms(4,5) by (simp_all add: f_def TwoThirdsSignersCount_def quo_nonneg zdiv_int mult.commute)
  have "int f + 1 \<le> sum (seat C) ?A" "int f + 1 \<le> sum (seat C) ?B"
    using assms(8,9) boxes.count_ok [OF assms(1), of p] boxes.count_ok [OF assms(2), of p] t
    by (simp_all add: uniform_IsQuorumAchieved_def s [OF assms(6)] s [OF assms(7)])
  from seats.intersection_ge [OF assms(3) fin this]
  have "2 * (int f + 1) - int (card C) \<le> int (card (?A \<inter> ?B))"
    using s [of "?A \<inter> ?B"] assms(6) by (simp add: le_infI1)
  moreover have "2 * card C \<le> 3 * f + 2" by (simp add: f_def)
  then have "2 * int (card C) \<le> 3 * int f + 2" by linarith
  ultimately have "int (card C) < 3 * int (card (?A \<inter> ?B))" by (rule two_thirds_arith)
  then show ?thesis by linarith
qed

definition sample_uniform :: "(int, int) uniformVoteWeight" where
  "sample_uniform = (NewDecider_vote int_sigs)\<lparr>uReader := UpdateParticipants (newCIdentities int_sigs) sample_publics\<rparr>"

theorem uniform_quorums_intersect_witness:
  "\<exists>b v. uniform_AddNewVote int_sigs sample_uniform Prepare sample_publics 7 1 5 5 = Inr (b, v) \<and>
     uniform_IsQuorumAchieved v Prepare \<and>
     card {10, 20, 30 :: SerializedPublicKey} < 3 * card (signers (uReader v) Prepare \<inter> signers (uReader v) Prepare)"
proof -
  obtain b s where sub: "submitVote int_sigs (uReader sample_uniform) Prepare [10, 20, 30] 7 1 5 5 = Inr (b, s)"
    by (simp add: submitVote_def sample_uniform_def newCIdentities_def NewRound_def UpdateParticipants_def
        ReadBallot_def ballotBox_def put_ballot_def Let_def)
  define v where "v = sample_uniform\<lparr>uReader := s\<rparr>"
  have add: "uniform_AddNewVote int_sigs sample_uniform Prepare sample_publics 7 1 5 5 = Inr (b, v)"
    using sub by (simp add: uniform_AddNewVote_def sample_publics_def v_def)
  have ids0: "ids_ok (uReader sample_uniform)"
    using ids_ok_new [of int_sigs] by (simp add: sample_uniform_def ids_ok_def)
  have e: "ballotBox (uReader sample_uniform) Prepare = []" "participantsCount (uReader sample_uniform) = 3"
    by (simp_all add: sample_uniform_def newCIdentities_def NewRound_def ballotBox_def
        UpdateParticipants_def sample_publics_def Let_def)
  have box: "ballotBox (uReader v) Prepare = map (\<lambda>k. (k, b)) [10, 20, 30]"
      "ParticipantsCount (uReader v) = 3"
    using submitVote_box [OF sub] e by (simp_all add: v_def same_committee_def ParticipantsCount_def)
  then have sg: "signers (uReader v) Prepare = {10, 20, 30}" by (auto simp: signers_def)
  have ids: "ids_ok (uReader v)" using ids_ok_submit [OF ids0 sub] by (simp add: v_def)
  have q: "uniform_IsQuorumAchieved v Prepare"
    using box by (simp add: uniform_IsQuorumAchieved_def SignersCount_def TwoThirdsSignersCount_def quo_nonneg)
  have c: "ParticipantsCount (uReader v) = int (card {10, 20, 30 :: SerializedPublicKey})"
    using box(2) by simp
  show ?thesis
    using uniform_quorums_intersect [OF ids ids _ c c _ _ q q] sg add q by simp
qed

text \<open>
The uniform verifier looks at the number of keys of the mask, not at the bits that are set: with
four or more keys it accepts the empty mask, which the uniform decider with the same participants
rejects.
\<close>

theorem uniformVerifier_ignores_bitmap:
  assumes "4 \<le> length publics" "pk_group ops" "ParticipantsCount (uReader v) = int (length publics)"
  shows "uniformVerifier_IsQuorumAchievedByMask \<lparr>pubKeyCnt = int (length publics)\<rparr> (NewMask ops publics) \<and>
    \<not> uniform_IsQuorumAchievedByMask v (Some (NewMask ops publics))"
proof -
  have "CountOneBits (Bitmap (NewMask ops publics)) = 0"
    using CountOneBits_enabled [OF NewMask_ok [OF assms(2)], of publics] by (simp add: NewMask_enabled)
  moreover have "0 < TwoThirdsSignersCount (uReader v)"
    using assms(3) by (simp add: TwoThirdsSignersCount_def quo_nonneg)
  moreover have "3 * (int (length publics) * 2 div 3) \<le> int (length publics) * 2" by simp
  then have "int (length publics) * 2 div 3 + 1 < int (length publics)" using assms(1) by linarith
  ultimately show ?thesis
    by (simp add: uniformVerifier_IsQuorumAchievedByMask_def thresholdKeyCount_def quo_nonneg
        uniform_IsQuorumAchievedByMask_def NewMask_def)
qed

theorem uniformVerifier_ignores_bitmap_witness:
  "uniformVerifier_IsQuorumAchievedByMask \<lparr>pubKeyCnt = 9\<rparr> (NewMask int_ops sample_keys)"
  using uniformVerifier_ignores_bitmap [OF _ int_ops_group, of sample_keys
      "(NewDecider_vote int_sigs :: (int, int) uniformVoteWeight)\<lparr>uReader := UpdateParticipants (newCIdentities int_sigs) sample_keys\<rparr>"]
  by (simp add: sample_keys_def ParticipantsCount_def UpdateParticipants_def)

section \<open>Choosing the next validator\<close>

lemma next_validator_step:
  assumes "keys \<noteq> []" "0 \<le> idx" "0 \<le> next"
  defines "i \<equiv> (idx + next) mod int (length keys)"
  shows "next_validator keys addr own next idx =
    (if addr (Bytes (keys ! nat i)) = own then next_validator keys addr own next (i + 1)
     else Some (Inr (keys ! nat i)))"
proof -
  have "rem (idx + next) (int (length keys)) = i" using assms by (simp add: rem_nonneg)
  moreover have "0 \<le> i" "i < int (length keys)" using assms(1) by (simp_all add: i_def)
  ultimately show ?thesis
    by (subst next_validator.simps) (simp add: key_at_def)
qed

lemma next_validator_finds:
  assumes "keys \<noteq> []" "0 \<le> idx" "0 \<le> next"
    and "addr (Bytes (keys ! nat ((idx + next + int k * (next + 1)) mod int (length keys)))) \<noteq> own"
  shows "\<exists>key \<in> set keys. next_validator keys addr own next idx = Some (Inr key) \<and> addr (Bytes key) \<noteq> own"
  using assms(2,4)
proof (induction k arbitrary: idx)
  case 0
  have "nat ((idx + next) mod int (length keys)) < length keys"
    using assms(1) by (simp add: nat_less_iff)
  then show ?case using 0 next_validator_step [OF assms(1) 0(1) assms(3), of addr own] by auto
next
  case (Suc k)
  let ?n = "int (length keys)"
  let ?i = "(idx + next) mod ?n"
  have lt: "nat ?i < length keys" using assms(1) by (simp add: nat_less_iff)
  have "0 \<le> ?i" using assms(1) by simp
  have "(?i + 1 + next + int k * (next + 1)) mod ?n = (?i + (1 + next + int k * (next + 1))) mod ?n"
    by (simp add: add.assoc)
  also have "\<dots> = (idx + next + (1 + next + int k * (next + 1))) mod ?n" by (rule mod_add_left_eq)
  also have "idx + next + (1 + next + int k * (next + 1)) = idx + next + int (Suc k) * (next + 1)"
    by (simp add: algebra_simps)
  finally have eq: "(?i + 1 + next + int k * (next + 1)) mod ?n = (idx + next + int (Suc k) * (next + 1)) mod ?n" .
  show ?case
  proof (cases "addr (Bytes (keys ! nat ?i)) = own")
    case True
    have "\<exists>key \<in> set keys. next_validator keys addr own next (?i + 1) = Some (Inr key) \<and> addr (Bytes key) \<noteq> own"
      using Suc.prems(2) \<open>0 \<le> ?i\<close> by (intro Suc.IH) (simp_all only: eq, simp)
    then show ?thesis using next_validator_step [OF assms(1) Suc.prems(1) assms(3), of addr own] True by simp
  next
    case False
    then show ?thesis using next_validator_step [OF assms(1) Suc.prems(1) assms(3), of addr own] lt by auto
  qed
qed

lemma coprime_reaches:
  assumes "coprime s (n :: int)" "0 < n" "0 \<le> j" "j < n"
  shows "\<exists>k :: nat. (a + int k * s) mod n = j"
proof -
  obtain u v where uv: "u * s + v * n = 1"
    using bezout_int [of s n] assms(1) by (auto simp: coprime_iff_gcd_eq_1)
  define k where "k = nat (((j - a) * u) mod n)"
  have k: "int k = ((j - a) * u) mod n" using assms(2) by (simp add: k_def)
  have "(a + int k * s) mod n = (a + (j - a) * u * s) mod n"
    unfolding k by (metis mod_add_right_eq mod_mult_left_eq)
  also have "a + (j - a) * u * s = a + (j - a) * (1 - v * n)"
    using uv by (simp add: mult.assoc eq_diff_eq)
  also have "\<dots> = j + (- (j - a) * v) * n" by (simp add: algebra_simps)
  also have "\<dots> mod n = j" using assms(3,4) by simp
  finally show ?thesis by blast
qed

text \<open>
The search of \<open>NthNextValidator\<close> ends and returns a key of another validator whenever there is one,
provided the leader's key is known and \<open>next + 1\<close> (the stride of its loop) has no common divisor with
the number of keys.
\<close>

theorem NthNextValidator_finds:
  assumes "IndexOf s (Bytes pubKey) \<noteq> - 1" "0 \<le> next" "coprime (next + 1) (int (length (publicKeys s)))"
    and "key \<in> set (publicKeys s)" "publicToAddress slots (Bytes key) \<noteq> publicToAddress slots (Bytes pubKey)"
  shows "\<exists>k \<in> set (publicKeys s). NthNextValidator s slots pubKey next = Some (Inr (True, k)) \<and>
    publicToAddress slots (Bytes k) \<noteq> publicToAddress slots (Bytes pubKey)"
proof -
  let ?n = "int (length (publicKeys s))" and ?idx = "IndexOf s (Bytes pubKey)"
  have ne: "publicKeys s \<noteq> []" using assms(4) by auto
  have idx: "0 \<le> ?idx" using assms(1) by (auto simp: IndexOf_def split: option.splits)
  obtain j where j: "j < length (publicKeys s)" "publicKeys s ! j = key"
    using assms(4) by (auto simp: in_set_conv_nth)
  obtain k :: nat where "(?idx + next + int k * (next + 1)) mod ?n = int j"
    using coprime_reaches [OF assms(3), of "int j" "?idx + next"] j(1) ne by auto
  then obtain key' where "key' \<in> set (publicKeys s)"
      "next_validator (publicKeys s) (publicToAddress slots) (publicToAddress slots (Bytes pubKey)) next ?idx = Some (Inr key')"
      "publicToAddress slots (Bytes key') \<noteq> publicToAddress slots (Bytes pubKey)"
    using next_validator_finds [OF ne idx assms(2), of "publicToAddress slots" k "publicToAddress slots (Bytes pubKey)"]
      assms(5) j(2) by auto
  then show ?thesis using assms(1,2) ne by (intro bexI [of _ key']) (auto simp: NthNextValidator_def Let_def)
qed

definition two_validators :: "Slot list" where
  "two_validators = [sample_slot 1 10 None, sample_slot 1 20 None, sample_slot 2 30 None, sample_slot 1 40 None]"

definition four_keys :: "(int, int) cIdentities" where
  "four_keys = UpdateParticipants (newCIdentities int_sigs) (map (\<lambda>k. \<lparr>Bytes = k, Object = uint k\<rparr>) [10, 20, 30, 40])"

theorem NthNextValidator_finds_witness:
  "\<exists>k \<in> set (publicKeys four_keys). NthNextValidator four_keys two_validators \<lparr>Bytes = 10, Object = 10\<rparr> 2 = Some (Inr (True, k)) \<and>
     publicToAddress two_validators (Bytes k) \<noteq> publicToAddress two_validators 10"
proof -
  have i: "IndexOf four_keys 10 = 0"
    by (simp add: four_keys_def IndexOf_def UpdateParticipants_def publics_index_def)
  have c: "coprime (2 + 1) (int (length (publicKeys four_keys)))"
    using coprime_add_one_right [of "3 :: int"] by (simp add: four_keys_def UpdateParticipants_def)
  have "publicToAddress two_validators 30 \<noteq> publicToAddress two_validators 10"
    by (simp add: publicToAddress_def two_validators_def sample_slot_def)
  then show ?thesis
    using NthNextValidator_finds [of four_keys "\<lparr>Bytes = 10, Object = 10\<rparr>" 2 "\<lparr>Bytes = 30, Object = 30\<rparr>" two_validators] i c
    by (simp add: four_keys_def UpdateParticipants_def)
qed

text \<open>
Without that condition the search may never end although another validator exists: four keys, the
third owned by the second validator, the leader at the first key and \<open>next = 1\<close> (as in leader
rotation): the stride is two, only the keys at odd positions are looked at, and they all belong to
the leader.
\<close>

theorem NthNextValidator_may_diverge:
  "NthNextValidator four_keys two_validators \<lparr>Bytes = 10, Object = 10\<rparr> 1 = None \<and>
   publicToAddress two_validators 30 \<noteq> publicToAddress two_validators 10 \<and>
   30 \<in> Bytes ` set (publicKeys four_keys)"
proof -
  let ?keys = "publicKeys four_keys" and ?addr = "publicToAddress two_validators"
  have own: "?addr (Bytes (?keys ! 1)) = ?addr 10" "?addr (Bytes (?keys ! 3)) = ?addr 10"
    and len: "length ?keys = 4" and other: "?addr 30 \<noteq> ?addr 10" "30 \<in> Bytes ` set ?keys"
    by (simp_all add: four_keys_def UpdateParticipants_def publicToAddress_def two_validators_def sample_slot_def)
  have loops: "next_validator keys addr own' nx idx = Some y \<Longrightarrow>
      keys = ?keys \<and> addr = ?addr \<and> own' = ?addr 10 \<and> nx = 1 \<and> even idx \<and> 0 \<le> idx \<longrightarrow> False"
    for keys addr own' nx idx y
  proof (erule next_validator.raw_induct [rotated], rule impI)
    fix rec keys addr own' nx idx y
    assume IH: "\<And>keys addr own' nx idx y. rec keys addr own' nx idx = Some y \<Longrightarrow>
        keys = ?keys \<and> addr = ?addr \<and> own' = ?addr 10 \<and> nx = 1 \<and> even idx \<and> 0 \<le> idx \<longrightarrow> False"
      and body: "(case key_at keys (rem (idx + nx) (int (length keys))) of
          Inl e \<Rightarrow> Some (Inl e)
        | Inr k \<Rightarrow> if addr (Bytes k) = own' then rec keys addr own' nx (rem (idx + nx) (int (length keys)) + 1)
            else Some (Inr k)) = Some y"
      and at: "keys = ?keys \<and> addr = ?addr \<and> own' = ?addr 10 \<and> nx = 1 \<and> even idx \<and> 0 \<le> idx"
    have m: "rem (idx + nx) (int (length keys)) = (idx + 1) mod 4" using at len by (simp add: rem_nonneg)
    have "even idx" using at by blast
    then have "(idx + 1) mod 4 = 1 \<or> (idx + 1) mod 4 = 3" by presburger
    then consider (one) "(idx + 1) mod 4 = 1" | (three) "(idx + 1) mod 4 = 3" by blast
    then show False
    proof cases
      case one
      have "rec ?keys ?addr (?addr 10) 1 2 = Some y" using body at own len unfolding m one by (simp add: key_at_def)
      then show False using IH [of ?keys ?addr "?addr 10" 1 2 y] by simp
    next
      case three
      have "rec ?keys ?addr (?addr 10) 1 4 = Some y" using body at own len unfolding m three by (simp add: key_at_def)
      then show False using IH [of ?keys ?addr "?addr 10" 1 4 y] by simp
    qed
  qed
  have "next_validator ?keys ?addr (?addr 10) 1 0 = None"
    using loops [of ?keys ?addr "?addr 10" 1 0] by (cases "next_validator ?keys ?addr (?addr 10) 1 0") simp_all
  moreover have "IndexOf four_keys 10 = 0"
    by (simp add: four_keys_def IndexOf_def UpdateParticipants_def publics_index_def)
  ultimately show ?thesis using len other by (auto simp: NthNextValidator_def Let_def)
qed
end
