(* ===== verification/Delegations.thy ===== *)
theory Delegations
  imports ShardState
begin

text \<open>
  Delegations of \<open>staking/types/delegation.go\<close>: a delegation holds staked tokens, collectable
  rewards and the undelegations that still wait for their lock period. Token amounts are the
  unbounded integers of \<open>math/big\<close>; pointers to them are not nil here. Loops that mutate a slice
  in place are written over the live array.

  The lemmas show that undelegating moves tokens from the stake into one entry of the right epoch,
  that entries stay strictly ordered by epoch, and that releasing unlocked entries pays exactly
  the entries whose time has come.
\<close>

named_theorems token_simps \<open>what an operation does to the amount of tokens held\<close>

section \<open>Data\<close>

record Undelegation =
  uAmount :: int
  uEpoch :: int

type_synonym Undelegations = "Undelegation list"

record Delegation =
  DelegatorAddress :: Address
  Amount :: int
  Reward :: int
  Undelegations :: Undelegations

record DelegationIndex =
  diValidatorAddress :: Address
  diIndex :: uint64
  diBlockNum :: int

definition LockPeriodInEpoch :: int where "LockPeriodInEpoch = 7"
definition LockPeriodInEpochV2 :: int where "LockPeriodInEpochV2 = 0"

definition NewDelegation :: "Address \<Rightarrow> int \<Rightarrow> Delegation" where
  "NewDelegation delegatorAddr amount =
     \<lparr>DelegatorAddress = delegatorAddr, Amount = amount, Reward = 0, Undelegations = []\<rparr>"

section \<open>Undelegating\<close>

text \<open>The search for an entry of the epoch, which adds to the first one it finds.\<close>

fun merge_entry :: "int \<Rightarrow> int \<Rightarrow> Undelegations \<Rightarrow> Undelegations option" where
  "merge_entry epoch amt [] = None"
| "merge_entry epoch amt (entry # us) =
     (if uEpoch entry = epoch then Some (entry\<lparr>uAmount := uAmount entry + amt\<rparr> # us)
      else map_option ((#) entry) (merge_entry epoch amt us))"

text \<open>\<open>sort.SliceStable\<close> by epoch.\<close>

definition sort_undelegations :: "Undelegations \<Rightarrow> Undelegations" where
  "sort_undelegations us = sort_key uEpoch us"

definition Undelegate :: "Delegation \<Rightarrow> int \<Rightarrow> int \<Rightarrow> Delegation go" where
  "Undelegate d epoch amt =
     (if amt \<le> 0 then Inl (Error ''errInvalidAmount'')
      else if Amount d < amt then Inl (Error ''errInsufficientBalance'')
      else
        (let d1 = d\<lparr>Amount := Amount d - amt\<rparr>
         in case merge_entry epoch amt (Undelegations d1) of
              Some us \<Rightarrow> Inr (d1\<lparr>Undelegations := us\<rparr>)
            | None \<Rightarrow> Inr (d1\<lparr>Undelegations :=
                sort_undelegations (Undelegations d1 @ [\<lparr>uAmount = amt, uEpoch = epoch\<rparr>])\<rparr>)))"

definition TotalInUndelegation :: "Delegation \<Rightarrow> int" where
  "TotalInUndelegation d = fold (\<lambda>u total. total + uAmount u) (Undelegations d) 0"

section \<open>Deleting an entry\<close>

text \<open>
  \<open>append(us[:i], us[i+1:]...)\<close> shifts the tail of the array to the left in place, and the loop goes
  on over the same array; the result is its first \<open>n - 1\<close> cells, or the empty slice the variable
  started with.
\<close>

fun delete_loop :: "int \<Rightarrow> nat list \<Rightarrow> Undelegations \<Rightarrow> bool \<Rightarrow> Undelegations \<times> bool" where
  "delete_loop epoch [] arr hit = (arr, hit)"
| "delete_loop epoch (i # is) arr hit =
     (if uEpoch (arr ! i) = epoch
      then delete_loop epoch is (take i arr @ drop (i + 1) arr @ [last arr]) True
      else delete_loop epoch is arr hit)"

definition DeleteEntry :: "Delegation \<Rightarrow> int \<Rightarrow> Delegation" where
  "DeleteEntry d epoch =
     (let n = length (Undelegations d)
      in case delete_loop epoch [0..<n] (Undelegations d) False of
           (arr, True) \<Rightarrow> d\<lparr>Undelegations := take (n - 1) arr\<rparr>
         | (arr, False) \<Rightarrow> d\<lparr>Undelegations := []\<rparr>)"

section \<open>Releasing unlocked entries\<close>

fun remove_unlocked ::
  "int \<Rightarrow> int \<Rightarrow> int \<Rightarrow> bool \<Rightarrow> bool \<Rightarrow> int \<Rightarrow> Undelegations \<Rightarrow> int \<times> Undelegations" where
  "remove_unlocked curEpoch lastEpoch lockPeriod noEarlyUnlock isMaxRate totalWithdraw [] = (totalWithdraw, [])"
| "remove_unlocked curEpoch lastEpoch lockPeriod noEarlyUnlock isMaxRate totalWithdraw (u # us) =
     (let epochsSinceUndelegation = Int64 (curEpoch - uEpoch u);
          lockPeriodApplies = epochsSinceUndelegation \<ge> lockPeriod;
          earlyUnlockPeriodApplies = Int64 (curEpoch - lastEpoch) \<ge> lockPeriod \<and> \<not> noEarlyUnlock;
          maxRateApplies = isMaxRate \<and> epochsSinceUndelegation > lockPeriod
      in if lockPeriodApplies \<or> earlyUnlockPeriodApplies
         then remove_unlocked curEpoch lastEpoch lockPeriod noEarlyUnlock isMaxRate
                (if \<not> maxRateApplies then totalWithdraw + uAmount u else totalWithdraw) us
         else (totalWithdraw, u # us))"

definition RemoveUnlockedUndelegations ::
  "Delegation \<Rightarrow> int \<Rightarrow> int \<Rightarrow> int \<Rightarrow> bool \<Rightarrow> bool \<Rightarrow> int \<times> Delegation" where
  "RemoveUnlockedUndelegations d curEpoch lastEpochInCommittee lockPeriod noEarlyUnlock isMaxRate =
     (case remove_unlocked curEpoch lastEpochInCommittee lockPeriod noEarlyUnlock isMaxRate 0
             (Undelegations d) of
        (totalWithdraw, rest) \<Rightarrow> (totalWithdraw, d\<lparr>Undelegations := rest\<rparr>))"

section \<open>Difference of two lists of delegations\<close>

text \<open>
  The hash is a parameter. In round \<open>i\<close> only the first \<open>i + 1\<close> hashes of \<open>ys\<close> are computed, the
  others are still zero; an index beyond \<open>ys\<close> panics.
\<close>

definition SetDifference_row ::
  "(Delegation \<Rightarrow> Hash) \<Rightarrow> Delegation list \<Rightarrow> Delegation list \<Rightarrow> nat \<Rightarrow> Delegation list \<Rightarrow> Delegation list go" where
  "SetDifference_row hash xs ys i diff =
     go_fold (\<lambda>diff j.
         if length ys \<le> j then Inl (Panic ''index out of range'')
         else if (if j \<le> i then hash (ys ! j) else 0) \<noteq> hash (xs ! j) then Inr (diff @ [ys ! j])
         else Inr diff)
       diff [0..<length xs]"

definition SetDifference ::
  "(Delegation \<Rightarrow> Hash) \<Rightarrow> Delegation list \<Rightarrow> Delegation list \<Rightarrow> Delegation list go" where
  "SetDifference hash xs ys =
     go_fold (\<lambda>diff i. SetDifference_row hash xs ys i diff) [] [0..<length ys]"

section \<open>Invariant\<close>

definition undelegation_total :: "Undelegations \<Rightarrow> int" where
  "undelegation_total us = sum_list (map uAmount us)"

definition locked_at :: "Undelegations \<Rightarrow> int \<Rightarrow> int" where
  "locked_at us e = undelegation_total (filter (\<lambda>u. uEpoch u = e) us)"

definition valid_undelegations :: "Undelegations \<Rightarrow> bool" where
  "valid_undelegations us \<longleftrightarrow>
     sorted (map uEpoch us) \<and> distinct (map uEpoch us) \<and> (\<forall>u\<in>set us. 0 \<le> uAmount u)"

definition valid_delegation :: "Delegation \<Rightarrow> bool" where
  "valid_delegation d \<longleftrightarrow> 0 \<le> Amount d \<and> 0 \<le> Reward d \<and> valid_undelegations (Undelegations d)"

text \<open>All tokens behind one delegation: staked, waiting and collectable.\<close>

definition delegation_tokens :: "Delegation \<Rightarrow> int" where
  "delegation_tokens d = Amount d + TotalInUndelegation d + Reward d"

lemma undelegation_total_simps [simp]:
  "undelegation_total [] = 0"
  "undelegation_total (u # us) = uAmount u + undelegation_total us"
  "undelegation_total (us @ vs) = undelegation_total us + undelegation_total vs"
  by (simp_all add: undelegation_total_def)

lemma TotalInUndelegation_total: "TotalInUndelegation d = undelegation_total (Undelegations d)"
proof -
  have "fold (\<lambda>u total. total + uAmount u) us t = t + undelegation_total us" for us :: Undelegations and t
    by (induction us arbitrary: t) simp_all
  then show ?thesis by (simp add: TotalInUndelegation_def)
qed

lemma delegation_tokens_eq:
  "delegation_tokens d = Amount d + undelegation_total (Undelegations d) + Reward d"
  by (simp add: delegation_tokens_def TotalInUndelegation_total)

lemma undelegation_total_mset:
  "undelegation_total us = sum_mset (image_mset uAmount (mset us))"
  by (induction us) simp_all

lemma locked_at_mset:
  "locked_at us e = sum_mset (image_mset uAmount (filter_mset (\<lambda>u. uEpoch u = e) (mset us)))"
  by (simp add: locked_at_def undelegation_total_mset)

lemma locked_at_append: "locked_at (us @ vs) e = locked_at us e + locked_at vs e"
  by (simp add: locked_at_def)

lemma locked_at_Cons:
  "locked_at (u # us) e = (if uEpoch u = e then uAmount u else 0) + locked_at us e"
  by (simp add: locked_at_def)

lemma sort_undelegations_total [simp]: "undelegation_total (sort_undelegations us) = undelegation_total us"
  by (simp add: undelegation_total_mset sort_undelegations_def)

lemma sort_undelegations_locked [simp]: "locked_at (sort_undelegations us) e = locked_at us e"
  by (simp add: locked_at_mset sort_undelegations_def)

lemma sort_undelegations_valid:
  assumes "distinct (map uEpoch us)" and "\<forall>u\<in>set us. 0 \<le> uAmount u"
  shows "valid_undelegations (sort_undelegations us)"
proof -
  have "mset (map uEpoch (sort_key uEpoch us)) = mset (map uEpoch us)" by simp
  then have "distinct (map uEpoch (sort_key uEpoch us))"
    using assms(1) by (metis mset_eq_imp_distinct_iff)
  then show ?thesis using assms(2) by (simp add: valid_undelegations_def sort_undelegations_def)
qed

subsection \<open>Merging into an entry\<close>

lemma merge_entry_None: "merge_entry e a us = None \<longleftrightarrow> e \<notin> uEpoch ` set us"
  by (induction us) auto

lemma merge_entry_Some:
  assumes "merge_entry e a us = Some us'"
  shows "map uEpoch us' = map uEpoch us"
    and "undelegation_total us' = undelegation_total us + a"
    and "locked_at us' x = locked_at us x + (if x = e then a else 0)"
    and "0 \<le> a \<Longrightarrow> \<forall>u\<in>set us. 0 \<le> uAmount u \<Longrightarrow> \<forall>u\<in>set us'. 0 \<le> uAmount u"
proof -
  have "map uEpoch us' = map uEpoch us \<and> undelegation_total us' = undelegation_total us + a
        \<and> locked_at us' x = locked_at us x + (if x = e then a else 0)
        \<and> (0 \<le> a \<longrightarrow> (\<forall>u\<in>set us. 0 \<le> uAmount u) \<longrightarrow> (\<forall>u\<in>set us'. 0 \<le> uAmount u))"
    using assms
    by (induction us arbitrary: us') (auto simp: locked_at_Cons split: if_splits)
  then show "map uEpoch us' = map uEpoch us"
    and "undelegation_total us' = undelegation_total us + a"
    and "locked_at us' x = locked_at us x + (if x = e then a else 0)"
    and "0 \<le> a \<Longrightarrow> \<forall>u\<in>set us. 0 \<le> uAmount u \<Longrightarrow> \<forall>u\<in>set us'. 0 \<le> uAmount u"
    by auto
qed

lemma merge_entry_valid:
  assumes "merge_entry e a us = Some us'" and "0 \<le> a" and "valid_undelegations us"
  shows "valid_undelegations us'"
  using merge_entry_Some [OF assms(1)] assms(2,3) by (simp add: valid_undelegations_def)

lemma append_entry_valid:
  assumes "merge_entry e a us = None" and "0 < a" and "valid_undelegations us"
  shows "valid_undelegations (sort_undelegations (us @ [\<lparr>uAmount = a, uEpoch = e\<rparr>]))"
  using assms by (intro sort_undelegations_valid) (auto simp: merge_entry_None valid_undelegations_def)

lemma Undelegate_ok_iff: "is_ok (Undelegate d e a) \<longleftrightarrow> 0 < a \<and> a \<le> Amount d"
  by (auto simp: Undelegate_def Let_def is_ok_iff split: option.splits)

lemma Undelegate_frame:
  assumes "Undelegate d e a = Inr d'"
  shows "DelegatorAddress d' = DelegatorAddress d" "Reward d' = Reward d" "Amount d' = Amount d - a"
    "0 < a" "a \<le> Amount d"
  using assms by (auto simp: Undelegate_def Let_def split: if_splits option.splits)

lemma Undelegate_effect:
  assumes "Undelegate d e a = Inr d'"
  shows "undelegation_total (Undelegations d') = undelegation_total (Undelegations d) + a"
    and "locked_at (Undelegations d') x = locked_at (Undelegations d) x + (if x = e then a else 0)"
proof -
  consider (hit) us where "merge_entry e a (Undelegations d) = Some us" "Undelegations d' = us"
    | (miss) "merge_entry e a (Undelegations d) = None"
        "Undelegations d' = sort_undelegations (Undelegations d @ [\<lparr>uAmount = a, uEpoch = e\<rparr>])"
    using assms by (auto simp: Undelegate_def Let_def split: if_splits option.splits)
  then have "undelegation_total (Undelegations d') = undelegation_total (Undelegations d) + a
      \<and> locked_at (Undelegations d') x = locked_at (Undelegations d) x + (if x = e then a else 0)"
  proof cases
    case hit
    then show ?thesis by (simp add: merge_entry_Some(2,3) [OF hit(1)])
  next
    case miss
    then show ?thesis by (simp add: locked_at_append) (simp add: locked_at_def)
  qed
  then show "undelegation_total (Undelegations d') = undelegation_total (Undelegations d) + a"
    and "locked_at (Undelegations d') x = locked_at (Undelegations d) x + (if x = e then a else 0)"
    by auto
qed

lemma Undelegate_valid:
  assumes "Undelegate d e a = Inr d'" and "valid_delegation d"
  shows "valid_delegation d'"
proof -
  have "valid_undelegations (Undelegations d')"
    using assms merge_entry_valid append_entry_valid
    by (auto simp: Undelegate_def Let_def valid_delegation_def split: if_splits option.splits)
  then show ?thesis using Undelegate_frame [OF assms(1)] assms(2) by (simp add: valid_delegation_def)
qed

lemma Undelegate_tokens [token_simps]:
  "Undelegate d e a = Inr d' \<Longrightarrow> delegation_tokens d' = delegation_tokens d"
  by (simp add: delegation_tokens_eq Undelegate_frame Undelegate_effect(1))

text \<open>
  Undelegating succeeds exactly for a positive amount covered by the stake. It then moves that
  amount from the stake to the entry of the given epoch, which is created when missing, changes no
  other epoch and no reward, and keeps the entries strictly ordered by epoch.
\<close>

theorem Undelegate_correct:
  assumes "valid_delegation d"
  shows "(is_ok (Undelegate d epoch amt) \<longleftrightarrow> 0 < amt \<and> amt \<le> Amount d)
    \<and> (\<forall>d'. Undelegate d epoch amt = Inr d' \<longrightarrow>
           valid_delegation d' \<and> Amount d' = Amount d - amt \<and> Reward d' = Reward d
           \<and> TotalInUndelegation d' = TotalInUndelegation d + amt
           \<and> (\<forall>e. locked_at (Undelegations d') e
                  = locked_at (Undelegations d) e + (if e = epoch then amt else 0)))"
  using assms Undelegate_valid
  by (simp add: Undelegate_ok_iff Undelegate_frame Undelegate_effect TotalInUndelegation_total)

definition sample_delegation :: Delegation where
  "sample_delegation = \<lparr>DelegatorAddress = 7, Amount = 100, Reward = 5,
     Undelegations = [\<lparr>uAmount = 10, uEpoch = 3\<rparr>, \<lparr>uAmount = 20, uEpoch = 8\<rparr>]\<rparr>"

lemma sample_delegation_valid: "valid_delegation sample_delegation"
  by (simp add: sample_delegation_def valid_delegation_def valid_undelegations_def)

theorem Undelegate_correct_witness:
  "valid_delegation sample_delegation
   \<and> (\<exists>d'. Undelegate sample_delegation 5 40 = Inr d' \<and> locked_at (Undelegations d') 5 = 40)"
  using sample_delegation_valid Undelegate_correct [OF sample_delegation_valid, of 5 40]
  by (auto simp: sample_delegation_def locked_at_def is_ok_iff)

subsection \<open>Releasing\<close>

text \<open>An entry is released when its own lock period is over, or early after the validator left.\<close>

definition released :: "int \<Rightarrow> int \<Rightarrow> int \<Rightarrow> bool \<Rightarrow> Undelegation \<Rightarrow> bool" where
  "released cur lastE lock noEarly u \<longleftrightarrow> uEpoch u + lock \<le> cur \<or> (lastE + lock \<le> cur \<and> \<not> noEarly)"

definition paid :: "int \<Rightarrow> int \<Rightarrow> bool \<Rightarrow> Undelegation \<Rightarrow> bool" where
  "paid cur lock maxRate u \<longleftrightarrow> \<not> (maxRate \<and> uEpoch u + lock < cur)"

definition epochs_fit :: "int \<Rightarrow> int \<Rightarrow> Undelegations \<Rightarrow> bool" where
  "epochs_fit cur lastE us \<longleftrightarrow> IsInt64 (cur - lastE) \<and> (\<forall>u\<in>set us. IsInt64 (cur - uEpoch u))"

lemma remove_unlocked_takeWhile:
  assumes "epochs_fit cur lastE us"
  shows "remove_unlocked cur lastE lock noEarly maxRate t us =
    (t + undelegation_total (filter (paid cur lock maxRate) (takeWhile (released cur lastE lock noEarly) us)),
     dropWhile (released cur lastE lock noEarly) us)"
  using assms
proof (induction us arbitrary: t)
  case Nil
  then show ?case by simp
next
  case (Cons u us)
  then have e: "Int64 (cur - uEpoch u) = cur - uEpoch u" "Int64 (cur - lastE) = cur - lastE"
    and r: "epochs_fit cur lastE us"
    by (simp_all add: epochs_fit_def Int64_id)
  have rel: "released cur lastE lock noEarly u \<longleftrightarrow>
      cur - uEpoch u \<ge> lock \<or> (cur - lastE \<ge> lock \<and> \<not> noEarly)"
    by (auto simp: released_def)
  have pay: "paid cur lock maxRate u \<longleftrightarrow> \<not> (maxRate \<and> cur - uEpoch u > lock)"
    by (auto simp: paid_def)
  show ?case using Cons.IH [OF r] by (simp add: e rel pay Let_def)
qed

lemma sorted_while_filter:
  assumes "sorted (map uEpoch us)"
  shows "takeWhile (released cur lastE lock noEarly) us = filter (released cur lastE lock noEarly) us"
    and "dropWhile (released cur lastE lock noEarly) us = filter (\<lambda>u. \<not> released cur lastE lock noEarly u) us"
proof -
  have "takeWhile (released cur lastE lock noEarly) us = filter (released cur lastE lock noEarly) us
      \<and> dropWhile (released cur lastE lock noEarly) us = filter (\<lambda>u. \<not> released cur lastE lock noEarly u) us"
    using assms
  proof (induction us)
    case Nil
    then show ?case by simp
  next
    case (Cons u us)
    show ?case
    proof (cases "released cur lastE lock noEarly u")
      case True
      with Cons show ?thesis by simp
    next
      case False
      with Cons.prems have "\<forall>v\<in>set us. \<not> released cur lastE lock noEarly v"
        by (auto simp: released_def)
      with False show ?thesis by (simp add: filter_id_conv filter_empty_conv)
    qed
  qed
  then show "takeWhile (released cur lastE lock noEarly) us = filter (released cur lastE lock noEarly) us"
    and "dropWhile (released cur lastE lock noEarly) us = filter (\<lambda>u. \<not> released cur lastE lock noEarly u) us"
    by auto
qed

lemma valid_undelegations_filter: "valid_undelegations us \<Longrightarrow> valid_undelegations (filter P us)"
  by (auto simp: valid_undelegations_def sorted_filter distinct_map_filter)

lemma undelegation_total_split:
  "undelegation_total (filter P us) + undelegation_total (filter (\<lambda>u. \<not> P u) us) = undelegation_total us"
  by (induction us) auto

lemma RemoveUnlocked_eq:
  assumes "sorted (map uEpoch (Undelegations d))" and "epochs_fit cur lastE (Undelegations d)"
  shows "RemoveUnlockedUndelegations d cur lastE lock noEarly maxRate =
    (undelegation_total (filter (\<lambda>u. released cur lastE lock noEarly u \<and> paid cur lock maxRate u) (Undelegations d)),
     d\<lparr>Undelegations := filter (\<lambda>u. \<not> released cur lastE lock noEarly u) (Undelegations d)\<rparr>)"
  using assms
  by (simp add: RemoveUnlockedUndelegations_def remove_unlocked_takeWhile sorted_while_filter
      conj_commute)

lemma RemoveUnlocked_valid:
  assumes "valid_delegation d" and "epochs_fit cur lastE (Undelegations d)"
    and "RemoveUnlockedUndelegations d cur lastE lock noEarly maxRate = (w, d')"
  shows "valid_delegation d'"
proof -
  have s: "sorted (map uEpoch (Undelegations d))"
    using assms(1) by (simp add: valid_delegation_def valid_undelegations_def)
  show ?thesis using assms RemoveUnlocked_eq [OF s assms(2), of lock noEarly maxRate]
    by (auto simp: valid_delegation_def valid_undelegations_filter)
qed

text \<open>
  Releasing at an epoch removes exactly the entries whose lock period is over (all of them when
  the validator left the committee long ago and early unlocking is allowed), returns the sum of the
  removed entries less those the maximum-rate rule lets expire, and keeps the rest in order. Without
  that rule what is paid and what stays add up to what was there.
\<close>

theorem RemoveUnlocked_correct:
  assumes "valid_delegation d" and "epochs_fit cur lastE (Undelegations d)"
  shows "\<exists>w d'. RemoveUnlockedUndelegations d cur lastE lock noEarly maxRate = (w, d')
    \<and> valid_delegation d' \<and> Amount d' = Amount d \<and> Reward d' = Reward d
    \<and> Undelegations d' = filter (\<lambda>u. \<not> released cur lastE lock noEarly u) (Undelegations d)
    \<and> w = undelegation_total (filter (\<lambda>u. released cur lastE lock noEarly u \<and> paid cur lock maxRate u)
                               (Undelegations d))
    \<and> (\<not> maxRate \<longrightarrow> w + TotalInUndelegation d' = TotalInUndelegation d)"
proof -
  have s: "sorted (map uEpoch (Undelegations d))"
    using assms(1) by (simp add: valid_delegation_def valid_undelegations_def)
  note eq = RemoveUnlocked_eq [OF s assms(2), of lock noEarly maxRate]
  show ?thesis
    using RemoveUnlocked_valid [OF assms eq]
      undelegation_total_split [of "released cur lastE lock noEarly" "Undelegations d"]
    by (simp add: eq TotalInUndelegation_total paid_def)
qed

theorem RemoveUnlocked_correct_witness:
  "valid_delegation sample_delegation \<and> epochs_fit 12 0 (Undelegations sample_delegation)
   \<and> (\<exists>w d'. RemoveUnlockedUndelegations sample_delegation 12 0 LockPeriodInEpoch True False = (w, d')
          \<and> w = 10 \<and> TotalInUndelegation d' = 20)"
proof -
  have f: "epochs_fit 12 0 (Undelegations sample_delegation)"
    by (simp add: sample_delegation_def epochs_fit_def IsInt64_def int64_min_def int64_max_def)
  show ?thesis
    using sample_delegation_valid f
      RemoveUnlocked_correct [OF sample_delegation_valid f, of LockPeriodInEpoch True False]
    by (auto simp: sample_delegation_def released_def paid_def LockPeriodInEpoch_def
        TotalInUndelegation_total)
qed

subsection \<open>Deleting an entry and the difference of lists\<close>

lemma delete_loop_miss:
  "(\<forall>i\<in>set is. uEpoch (arr ! i) \<noteq> e) \<Longrightarrow> delete_loop e is arr hit = (arr, hit)"
  by (induction "is") simp_all

lemma delete_loop_append:
  "delete_loop e (is @ js) arr hit = (case delete_loop e is arr hit of (arr', hit') \<Rightarrow> delete_loop e js arr' hit')"
  by (induction "is" arbitrary: arr hit) simp_all

lemma DeleteEntry_miss:
  assumes "epoch \<notin> uEpoch ` set (Undelegations d)"
  shows "DeleteEntry d epoch = d\<lparr>Undelegations := []\<rparr>"
proof -
  have "\<forall>i\<in>set [0..<length (Undelegations d)]. uEpoch (Undelegations d ! i) \<noteq> epoch"
    using assms by auto
  then show ?thesis by (simp add: DeleteEntry_def Let_def delete_loop_miss)
qed

lemma DeleteEntry_hit:
  assumes us: "Undelegations d = xs @ u # ys" and u: "uEpoch u = epoch"
    and other: "epoch \<notin> uEpoch ` set (xs @ ys)"
  shows "DeleteEntry d epoch = d\<lparr>Undelegations := xs @ ys\<rparr>"
proof -
  let ?us = "xs @ u # ys" and ?arr = "xs @ ys @ [last (u # ys)]"
  have idx: "[0..<length ?us] = [0..<length xs] @ length xs # [Suc (length xs)..<length ?us]"
    using upt_add_eq_append [of 0 "length xs" "Suc (length ys)"]
      upt_conv_Cons [of "length xs" "length xs + Suc (length ys)"]
    by (simp del: upt_Suc)
  have "\<forall>i\<in>set [0..<length xs]. uEpoch (?us ! i) \<noteq> epoch"
    using other by (auto simp: nth_append)
  then have 1: "delete_loop epoch [0..<length xs] ?us False = (?us, False)"
    by (rule delete_loop_miss)
  have tail: "uEpoch (?arr ! i) \<noteq> epoch" if "i \<in> set [Suc (length xs)..<length ?us]" for i
  proof -
    have "ys \<noteq> []" using that by auto
    then have "?arr ! i = (if i - length xs < length ys then ys ! (i - length xs) else last ys)"
      using that by (auto simp: nth_append)
    then have "?arr ! i \<in> set ys" using \<open>ys \<noteq> []\<close> by simp
    then show ?thesis using other by auto
  qed
  have 2: "delete_loop epoch (length xs # [Suc (length xs)..<length ?us]) ?us False = (?arr, True)"
    using u tail by (simp add: delete_loop_miss)
  have "delete_loop epoch [0..<length ?us] ?us False = (?arr, True)"
    by (simp only: idx delete_loop_append 1 2 prod.case)
  then show ?thesis by (simp add: DeleteEntry_def Let_def us)
qed

text \<open>
  Deleting the entry of an epoch removes exactly that entry when there is one, although the
  loop walks an array it shifts under its feet; when there is none it removes every entry.
\<close>

theorem DeleteEntry_correct:
  assumes "valid_undelegations (Undelegations d)"
  shows "Undelegations (DeleteEntry d epoch) =
    (if epoch \<in> uEpoch ` set (Undelegations d)
     then filter (\<lambda>u. uEpoch u \<noteq> epoch) (Undelegations d) else [])"
proof (cases "epoch \<in> uEpoch ` set (Undelegations d)")
  case True
  then obtain u where u: "u \<in> set (Undelegations d)" "uEpoch u = epoch" by auto
  then obtain xs ys where us: "Undelegations d = xs @ u # ys" by (auto dest: split_list)
  then have other: "epoch \<notin> uEpoch ` set (xs @ ys)"
    using assms u by (auto simp: valid_undelegations_def)
  have "filter (\<lambda>u. uEpoch u \<noteq> epoch) xs = xs" "filter (\<lambda>u. uEpoch u \<noteq> epoch) ys = ys"
    using other by (auto simp: filter_id_conv)
  then have "filter (\<lambda>u. uEpoch u \<noteq> epoch) (xs @ u # ys) = xs @ ys" using u by simp
  with True DeleteEntry_hit [OF us u(2) other] us show ?thesis by simp
next
  case False
  then show ?thesis by (simp add: DeleteEntry_miss)
qed

theorem DeleteEntry_correct_witness:
  "valid_undelegations (Undelegations sample_delegation)
   \<and> Undelegations (DeleteEntry sample_delegation 3) = [\<lparr>uAmount = 20, uEpoch = 8\<rparr>]
   \<and> Undelegations (DeleteEntry sample_delegation 4) = []"
proof -
  have v: "valid_undelegations (Undelegations sample_delegation)"
    using sample_delegation_valid by (simp add: valid_delegation_def)
  show ?thesis using v DeleteEntry_correct [OF v, of 3] DeleteEntry_correct [OF v, of 4]
    by (simp add: sample_delegation_def)
qed

lemma SetDifference_row_panics:
  assumes "length ys < length xs"
  shows "\<not> is_ok (SetDifference_row hash xs ys i diff)"
proof -
  let ?f = "\<lambda>diff j. if length ys \<le> j then Inl (Panic ''index out of range'')
     else if (if j \<le> i then hash (ys ! j) else 0) \<noteq> hash (xs ! j) then Inr (diff @ [ys ! j]) else Inr diff"
  have "[0..<length xs] = [0..<length ys] @ length ys # [Suc (length ys)..<length xs]"
    using assms by (metis le_add_diff_inverse less_imp_le_nat upt_add_eq_append upt_conv_Cons zero_le)
  then show ?thesis
    by (auto simp: SetDifference_row_def is_ok_iff go_fold_append)
qed

lemma SetDifference_panics:
  assumes "length ys < length xs" and "ys \<noteq> []"
  shows "\<not> is_ok (SetDifference hash xs ys)"
  using assms SetDifference_row_panics [OF assms(1), of hash 0 "[]"]
  by (cases ys) (auto simp: SetDifference_def is_ok_iff upt_conv_Cons simp del: upt_Suc)

end
