(* ===== verification/DecString.thy ===== *)
theory DecString
  imports Numeric
begin

text \<open>
  Reading and printing decimals: \<open>NewDecFromStr\<close>, \<open>MustNewDecFromStr\<close>, \<open>String\<close>, \<open>IsZeroes\<close> and
  the text form that the JSON and YAML methods use, with the round trip between them. Strings
  are byte lists (\<open>string\<close>); \<open>strings.Split\<close>, \<open>big.Int.SetString\<close> in base 10 and
  \<open>big.Int.MarshalText\<close> are modelled from their documentation.
\<close>

section \<open>Decimal digits\<close>

definition digit_char :: "nat \<Rightarrow> char" where
  "digit_char d = char_of (48 + d)"

definition is_digit :: "char \<Rightarrow> bool" where
  "is_digit c \<longleftrightarrow> 48 \<le> (of_char c :: nat) \<and> (of_char c :: nat) \<le> 57"

definition digit_val :: "char \<Rightarrow> nat" where
  "digit_val c = of_char c - 48"

fun MarshalText :: "nat \<Rightarrow> string" where
  "MarshalText n = (if n < 10 then [digit_char n] else MarshalText (n div 10) @ [digit_char (n mod 10)])"

declare MarshalText.simps [simp del]

definition digits_val :: "string \<Rightarrow> nat" where
  "digits_val s = foldl (\<lambda>a c. 10 * a + digit_val c) 0 s"

text \<open>An optional sign and at least one digit.\<close>

definition SetString :: "string \<Rightarrow> int option" where
  "SetString s =
     (let neg = (s \<noteq> [] \<and> hd s = CHR ''-'');
          t = (if s \<noteq> [] \<and> (hd s = CHR ''-'' \<or> hd s = CHR ''+'') then tl s else s)
      in if t = [] \<or> \<not> list_all is_digit t then None
         else Some (if neg then - int (digits_val t) else int (digits_val t)))"

fun Split :: "string \<Rightarrow> char \<Rightarrow> string list" where
  "Split [] sep = [[]]"
| "Split (c # cs) sep =
     (if c = sep then [] # Split cs sep
      else (case Split cs sep of [] \<Rightarrow> [[c]] | p # ps \<Rightarrow> (c # p) # ps))"

section \<open>Reading\<close>

definition NewDecFromStr :: "string \<Rightarrow> Dec go" where
  "NewDecFromStr str0 =
     (if length str0 = 0 then Inl (Error ''decimal string is empty'')
      else
        let neg = (hd str0 = CHR ''-'');
            str = (if neg then tl str0 else str0)
        in if length str = 0 then Inl (Error ''decimal string is empty'')
           else
             let strs = Split str (CHR ''.'');
                 whole = hd strs
             in if length strs = 2 \<and> (length (strs ! 1) = 0 \<or> length whole = 0)
                then Inl (Error ''bad decimal length'')
                else if length strs > 2 then Inl (Error ''too many periods to be a decimal string'')
                else
                  let lenDecs = (if length strs = 2 then length (strs ! 1) else 0);
                      combinedStr = (if length strs = 2 then whole @ strs ! 1 else whole)
                  in if int lenDecs > Precision then Inl (Error ''too much precision'')
                     else
                       let zerosToAdd = nat Precision - lenDecs
                       in case SetString (combinedStr @ replicate zerosToAdd (CHR ''0'')) of
                            None \<Rightarrow> Inl (Error ''bad string to integer conversion'')
                          | Some combined \<Rightarrow> Inr (if neg then - combined else combined))"

definition MustNewDecFromStr :: "string \<Rightarrow> Dec go" where
  "MustNewDecFromStr s = (case NewDecFromStr s of Inl (Error e) \<Rightarrow> Inl (Panic e) | r \<Rightarrow> r)"

section \<open>Printing\<close>

fun IsZeroes :: "string \<Rightarrow> bool" where
  "IsZeroes [] = True"
| "IsZeroes (c # b) = (if c \<noteq> CHR ''0'' then False else IsZeroes b)"

text \<open>The loop that appends the remaining digits until only zeroes are left.\<close>

fun finalDigits :: "string \<Rightarrow> string" where
  "finalDigits [] = []"
| "finalDigits (c # bzInt) = (if \<not> IsZeroes (c # bzInt) then [c] else []) @ finalDigits bzInt"

definition Dec_String :: "Dec option \<Rightarrow> string" where
  "Dec_String d0 =
     (case d0 of
        None \<Rightarrow> ''<nil>''
      | Some d1 \<Rightarrow>
          let isNeg = IsNegative d1;
              d = (if IsNegative d1 then Neg d1 else d1);
              bzInt = MarshalText (nat d);
              inputSize = length bzInt;
              bzStr =
                (if int inputSize \<le> Precision
                 then ''0'' @
                      (if \<not> IsZeroes bzInt
                       then ''.'' @ replicate (nat Precision - inputSize) (CHR ''0'') @ finalDigits bzInt
                       else [])
                 else
                   let decPointPlace = inputSize - nat Precision
                   in take decPointPlace bzInt @
                      (if \<not> IsZeroes (drop decPointPlace bzInt) then ''.'' else []) @
                      finalDigits (drop decPointPlace bzInt))
          in if isNeg then CHR ''-'' # bzStr else bzStr)"

section \<open>Digits: lemmas\<close>

lemma digit_char_inj_lemmas:
  assumes "d < 10"
  shows "is_digit (digit_char d)" and "digit_val (digit_char d) = d"
  using assms by (simp_all add: is_digit_def digit_val_def digit_char_def of_char_of)

lemma digit_not_special: "is_digit c \<Longrightarrow> c \<noteq> CHR ''.'' \<and> c \<noteq> CHR ''-'' \<and> c \<noteq> CHR ''+''"
  by (auto simp: is_digit_def)

lemma is_digit_zero [simp]: "is_digit (CHR ''0'')"
  by (simp add: is_digit_def)

lemma zeros_digits [simp]: "list_all is_digit (replicate n (CHR ''0''))"
  by (induction n) simp_all

lemma digits_val_append: "digits_val (s @ t) = digits_val s * 10 ^ length t + digits_val t"
proof (induction t rule: rev_induct)
  case Nil
  then show ?case by (simp add: digits_val_def)
next
  case (snoc c t)
  have "digits_val (s @ t @ [c]) = 10 * digits_val (s @ t) + digit_val c" for s
    by (simp add: digits_val_def)
  from this [of s] this [of "[]"] snoc show ?case by (simp add: algebra_simps)
qed

lemma digits_val_Nil [simp]: "digits_val [] = 0"
  by (simp add: digits_val_def)

lemma digits_val_single [simp]: "digits_val [c] = digit_val c"
  by (simp add: digits_val_def)

lemma digit_val_zero [simp]: "digit_val (CHR ''0'') = 0"
  by (simp add: digit_val_def)

lemma digits_val_zeros [simp]: "digits_val (replicate n (CHR ''0'')) = 0"
proof (induction n)
  case 0
  then show ?case by simp
next
  case (Suc n)
  then show ?case using digits_val_append [of "[CHR ''0'']" "replicate n (CHR ''0'')"] by simp
qed

lemma MarshalText_props:
  "MarshalText n \<noteq> [] \<and> list_all is_digit (MarshalText n) \<and> digits_val (MarshalText n) = n"
proof (induction n rule: MarshalText.induct)
  case (1 n)
  show ?case
  proof (cases "n < 10")
    case True
    then show ?thesis by (simp add: MarshalText.simps [of n] digit_char_inj_lemmas)
  next
    case False
    then show ?thesis using "1" digit_char_inj_lemmas [of "n mod 10"]
      by (simp add: MarshalText.simps [of n] digits_val_append)
  qed
qed

lemmas MarshalText_nonempty = MarshalText_props [THEN conjunct1]
lemmas MarshalText_digits = MarshalText_props [THEN conjunct2, THEN conjunct1]
lemmas MarshalText_val = MarshalText_props [THEN conjunct2, THEN conjunct2]

lemma IsZeroes_replicate: "IsZeroes s \<longleftrightarrow> s = replicate (length s) (CHR ''0'')"
  by (induction s) auto

lemma finalDigits_strip: "\<exists>k. s = finalDigits s @ replicate k (CHR ''0'') \<and> (s \<noteq> [] \<and> \<not> IsZeroes s \<longrightarrow> finalDigits s \<noteq> [])"
proof (induction s)
  case Nil
  then show ?case by simp
next
  case (Cons c s)
  show ?case
  proof (cases "IsZeroes (c # s)")
    case True
    then have z: "c = CHR ''0''" "IsZeroes s" by (auto split: if_splits)
    have "IsZeroes t \<Longrightarrow> finalDigits t = []" for t
      by (induction t) (auto split: if_splits)
    with z True show ?thesis
      using IsZeroes_replicate [of "c # s"] by (intro exI [of _ "length (c # s)"]) auto
  next
    case False
    with Cons show ?thesis by auto
  qed
qed

lemma finalDigits_zero: "IsZeroes s \<Longrightarrow> finalDigits s = []"
  by (induction s) (auto split: if_splits)

lemma Split_no_sep: "sep \<notin> set s \<Longrightarrow> Split s sep = [s]"
  by (induction s) auto

lemma Split_one_sep: "sep \<notin> set s \<Longrightarrow> sep \<notin> set t \<Longrightarrow> Split (s @ sep # t) sep = [s, t]"
  by (induction s) (auto simp: Split_no_sep)

lemma digits_no_dot: "list_all is_digit s \<Longrightarrow> CHR ''.'' \<notin> set s"
  using digit_not_special by (fastforce simp: list_all_iff)

lemma hd_digit: "list_all is_digit s \<Longrightarrow> s \<noteq> [] \<Longrightarrow> hd s \<noteq> CHR ''-'' \<and> hd s \<noteq> CHR ''+''"
  using digit_not_special by (cases s) auto

lemma SetString_digits: "list_all is_digit s \<Longrightarrow> s \<noteq> [] \<Longrightarrow> SetString s = Some (int (digits_val s))"
  using hd_digit by (simp add: SetString_def Let_def)

section \<open>The round trip\<close>

text \<open>What the reader does on an unsigned number without and with a fraction.\<close>

lemma read_whole:
  assumes "list_all is_digit w" "w \<noteq> []"
  shows "NewDecFromStr w = Inr (int (digits_val w) * precisionReuse)"
proof -
  have "Split w (CHR ''.'') = [w]" using assms by (intro Split_no_sep digits_no_dot)
  moreover have "SetString (w @ replicate 18 (CHR ''0'')) = Some (int (digits_val w) * 10 ^ 18)"
    using assms by (subst SetString_digits) (simp_all add: digits_val_append list_all_iff)
  ultimately show ?thesis using assms hd_digit [OF assms]
    by (simp add: NewDecFromStr_def Precision_def precisionReuse_def Let_def)
qed

lemma read_fraction:
  assumes "list_all is_digit w" "w \<noteq> []" "list_all is_digit f" "f \<noteq> []" "length f \<le> 18"
  shows "NewDecFromStr (w @ CHR ''.'' # f) =
    Inr (int (digits_val (w @ f @ replicate (18 - length f) (CHR ''0''))))"
proof -
  let ?z = "replicate (18 - length f) (CHR ''0'')"
  have sp: "Split (w @ CHR ''.'' # f) (CHR ''.'') = [w, f]"
    using assms by (intro Split_one_sep digits_no_dot)
  have "SetString (w @ f @ ?z) = Some (int (digits_val (w @ f @ ?z)))"
    using assms by (intro SetString_digits) simp_all
  then show ?thesis using assms hd_digit [OF assms(1,2)] sp
    by (simp add: NewDecFromStr_def Precision_def Let_def)
qed

lemma read_negative:
  assumes "s \<noteq> []" "hd s \<noteq> CHR ''-''" "NewDecFromStr s = Inr v"
  shows "NewDecFromStr (CHR ''-'' # s) = Inr (- v)"
  using assms
  by (auto simp: NewDecFromStr_def Let_def split: if_splits option.splits)

text \<open>The unsigned text of a natural number of units.\<close>

definition unsigned_text :: "nat \<Rightarrow> string" where
  "unsigned_text n =
     (let bz = MarshalText n; k = length bz
      in if k \<le> 18
         then ''0'' @ (if \<not> IsZeroes bz then ''.'' @ replicate (18 - k) (CHR ''0'') @ finalDigits bz else [])
         else take (k - 18) bz @ (if \<not> IsZeroes (drop (k - 18) bz) then ''.'' else []) @
              finalDigits (drop (k - 18) bz))"

lemma Dec_String_unsigned:
  "Dec_String (Some d) = (if d < 0 then CHR ''-'' # unsigned_text (nat (- d)) else unsigned_text (nat d))"
  by (simp add: Dec_String_def unsigned_text_def Precision_def Neg_def Let_def)

lemma read_padded:
  assumes "list_all is_digit w" "w \<noteq> []" "list_all is_digit f" "length f = 18" "\<not> IsZeroes f"
  shows "NewDecFromStr (w @ CHR ''.'' # finalDigits f) = Inr (int (digits_val (w @ f)))"
proof -
  obtain k where k: "f = finalDigits f @ replicate k (CHR ''0'')" and ne: "finalDigits f \<noteq> []"
    using finalDigits_strip [of f] assms(5) by force
  have len: "length (finalDigits f) + k = 18" using assms(4) arg_cong [OF k, of length] by simp
  have dig: "list_all is_digit (finalDigits f)"
    using assms(3) arg_cong [OF k, of "list_all is_digit"] by simp
  have "18 - length (finalDigits f) = k" using len by simp
  then show ?thesis using read_fraction [OF assms(1,2) dig ne] len k by simp
qed

lemma finalDigits_pad: "\<not> IsZeroes s \<Longrightarrow>
  finalDigits (replicate m (CHR ''0'') @ s) = replicate m (CHR ''0'') @ finalDigits s"
proof (induction m)
  case 0
  then show ?case by simp
next
  case (Suc m)
  have "\<not> IsZeroes (replicate j (CHR ''0'') @ s)" for j
    using Suc.prems by (induction j) auto
  with Suc show ?case by simp
qed

lemma read_unsigned_text: "NewDecFromStr (unsigned_text n) = Inr (int n)"
proof -
  define bz where "bz = MarshalText n"
  have bz: "bz \<noteq> []" "list_all is_digit bz" "digits_val bz = n"
    by (simp_all add: bz_def MarshalText_nonempty MarshalText_digits MarshalText_val)
  show ?thesis
  proof (cases "length bz \<le> 18")
    case small: True
    let ?f = "replicate (18 - length bz) (CHR ''0'') @ bz"
    have fz: "IsZeroes ?f \<longleftrightarrow> IsZeroes bz"
      by (metis IsZeroes_replicate append_eq_append_conv length_append length_replicate replicate_add)
    show ?thesis
    proof (cases "IsZeroes bz")
      case True
      then have "digits_val bz = 0" using IsZeroes_replicate digits_val_zeros by metis
      with bz have "n = 0" by simp
      moreover have "unsigned_text n = ''0''"
        using True small by (simp add: unsigned_text_def bz_def [symmetric])
      ultimately show ?thesis using read_whole [of "''0''"] by simp
    next
      case False
      have "unsigned_text n = ''0'' @ CHR ''.'' # finalDigits ?f"
        using False small finalDigits_pad [OF False]
        by (simp add: unsigned_text_def bz_def [symmetric])
      moreover have "NewDecFromStr (''0'' @ CHR ''.'' # finalDigits ?f) = Inr (int (digits_val (''0'' @ ?f)))"
        using bz small False fz by (intro read_padded) simp_all
      moreover have "digits_val (''0'' @ ?f) = n"
        by (simp only: digits_val_append) (simp add: bz(3))
      ultimately show ?thesis by simp
    qed
  next
    case large: False
    define w f where "w = take (length bz - 18) bz" and "f = drop (length bz - 18) bz"
    have wf: "bz = w @ f" "w \<noteq> []" "length f = 18" "list_all is_digit w" "list_all is_digit f"
      using bz(2) large by (auto simp: w_def f_def list_all_iff dest: in_set_takeD in_set_dropD)
    have ut: "unsigned_text n = w @ (if \<not> IsZeroes f then ''.'' else []) @ finalDigits f"
      using large by (simp add: unsigned_text_def bz_def [symmetric] w_def f_def Let_def)
    show ?thesis
    proof (cases "IsZeroes f")
      case True
      then have f0: "f = replicate 18 (CHR ''0'')" using IsZeroes_replicate wf(3) by metis
      have "digits_val bz = digits_val w * 10 ^ 18"
        unfolding wf(1) f0 by (simp add: digits_val_append)
      then have "int (digits_val w) * precisionReuse = int n" using bz(3) by (simp add: precisionReuse_def)
      then show ?thesis using read_whole [OF wf(4,2)] True by (simp add: ut finalDigits_zero)
    next
      case False
      then show ?thesis using read_padded [OF wf(4,2,5,3) False] bz(3) by (simp add: ut wf(1))
    qed
  qed
qed

lemma unsigned_text_hd: "unsigned_text n \<noteq> [] \<and> hd (unsigned_text n) \<noteq> CHR ''-''"
proof -
  define bz where "bz = MarshalText n"
  have bz: "bz \<noteq> []" "list_all is_digit bz"
    by (simp_all add: bz_def MarshalText_nonempty MarshalText_digits)
  show ?thesis
  proof (cases "length bz \<le> 18")
    case True
    then show ?thesis by (simp add: unsigned_text_def bz_def [symmetric])
  next
    case False
    then obtain c cs where "take (length bz - 18) bz = c # cs" and "is_digit c"
      using bz by (cases bz; cases "length bz - 18") auto
    then show ?thesis using False digit_not_special by (auto simp: unsigned_text_def bz_def [symmetric] Let_def)
  qed
qed

text \<open>Reading a literal with a short fraction.\<close>

lemma read_literal:
  assumes "list_all is_digit w" "w \<noteq> []" "list_all is_digit f" "f \<noteq> []" "length f \<le> 18"
  shows "NewDecFromStr (w @ CHR ''.'' # f) = Inr (int (digits_val (w @ f)) * 10 ^ (18 - length f))"
proof -
  have "w @ f @ replicate (18 - length f) (CHR ''0'') = (w @ f) @ replicate (18 - length f) (CHR ''0'')" by simp
  then show ?thesis
    by (simp only: read_fraction [OF assms] digits_val_append [of "w @ f" "replicate _ _"]
        digits_val_zeros length_replicate) simp
qed

text \<open>C40: printing a decimal and reading the text back gives the same decimal, for every value
  of either sign and any size.\<close>

theorem NewDecFromStr_String: "NewDecFromStr (Dec_String (Some d)) = Inr d"
proof (cases "d < 0")
  case True
  then show ?thesis
    using read_negative [OF _ _ read_unsigned_text] unsigned_text_hd
    by (simp add: Dec_String_unsigned)
next
  case False
  then show ?thesis by (simp add: Dec_String_unsigned read_unsigned_text)
qed

text \<open>The reader strips one minus sign and then hands the rest to a parser that accepts a sign
  of its own, so a doubled minus sign is read as the positive number, although the documented
  form allows a single optional minus.\<close>

theorem NewDecFromStr_double_sign:
  assumes "list_all is_digit w" "w \<noteq> []"
  shows "NewDecFromStr (CHR ''-'' # CHR ''-'' # w) = NewDecFromStr w"
proof -
  have "CHR ''.'' \<notin> set (CHR ''-'' # w)" using digits_no_dot [OF assms(1)] by simp
  then have "Split (CHR ''-'' # w) (CHR ''.'') = [CHR ''-'' # w]" by (rule Split_no_sep)
  moreover have "SetString (CHR ''-'' # w @ replicate 18 (CHR ''0'')) = Some (- int (digits_val w) * 10 ^ 18)"
    using assms by (simp add: SetString_def digits_val_append)
  ultimately show ?thesis unfolding read_whole [OF assms]
    by (simp add: NewDecFromStr_def Precision_def precisionReuse_def Let_def)
qed

theorem NewDecFromStr_double_sign_witness:
  "NewDecFromStr ''--5'' = NewDecFromStr ''5''"
  using NewDecFromStr_double_sign [of "''5''"] by (simp add: is_digit_def)

text \<open>A decimal string with more than eighteen fraction digits is refused, whatever the digits
  are.\<close>

theorem NewDecFromStr_too_precise:
  assumes "list_all is_digit w" "w \<noteq> []" "list_all is_digit f" "18 < length f"
  shows "NewDecFromStr (w @ CHR ''.'' # f) = Inl (Error ''too much precision'')"
proof -
  have "Split (w @ CHR ''.'' # f) (CHR ''.'') = [w, f]"
    using assms by (intro Split_one_sep digits_no_dot)
  then show ?thesis using assms hd_digit [OF assms(1,2)]
    by (auto simp: NewDecFromStr_def Precision_def Let_def)
qed

theorem NewDecFromStr_too_precise_witness:
  "NewDecFromStr (''1'' @ CHR ''.'' # replicate 19 (CHR ''0'')) = Inl (Error ''too much precision'')"
  by (rule NewDecFromStr_too_precise) (simp_all add: is_digit_def)

end
