(* ===== verification/Effective.thy ===== *)
theory Effective
  imports ShardState DecString
begin

text \<open>
  The effective proof-of-stake auction of \<open>staking/effective/calculate.go\<close> and the eligibility
  values of \<open>staking/effective/eligible.go\<close>. A Go map is the list of its entries in the order
  the runtime happens to visit them; the code sorts it by address, and the lemmas show that the
  order does not matter. The auction expands every order into one purchase per key, keeps the
  highest stakes and clamps each winner's stake into a band around the median.
\<close>

section \<open>Eligibility\<close>

datatype Eligibility = EligibilityNil | Active | Inactive | Banned

datatype Candidacy = Unknown | ForeverBanned | Candidate | NotCandidate | Elected

datatype BootedStatus =
  Booted | NotBooted | LostEPoSAuction | TurnedInactiveOrInsufficientUptime | BannedForDoubleSigning

definition doubleSigningBanned :: string where
  "doubleSigningBanned = ''banned forever from network because was caught double-signing''"

fun Eligibility_String :: "Eligibility \<Rightarrow> string" where
  "Eligibility_String Active = ''active''"
| "Eligibility_String Inactive = ''inactive''"
| "Eligibility_String Banned = doubleSigningBanned"
| "Eligibility_String EligibilityNil = ''unknown''"

fun Candidacy_String :: "Candidacy \<Rightarrow> string" where
  "Candidacy_String ForeverBanned = doubleSigningBanned"
| "Candidacy_String Candidate = ''eligible to be elected next epoch''"
| "Candidacy_String NotCandidate = ''not eligible to be elected next epoch''"
| "Candidacy_String Elected = ''currently elected''"
| "Candidacy_String Unknown = ''unknown''"

fun BootedStatus_String :: "BootedStatus \<Rightarrow> string" where
  "BootedStatus_String Booted = ''booted''"
| "BootedStatus_String LostEPoSAuction = ''lost epos auction''"
| "BootedStatus_String TurnedInactiveOrInsufficientUptime = ''manually turned inactive or insufficient uptime''"
| "BootedStatus_String BannedForDoubleSigning = doubleSigningBanned"
| "BootedStatus_String NotBooted = ''not booted''"

definition ValidatorStatus :: "bool \<Rightarrow> Eligibility \<Rightarrow> Candidacy" where
  "ValidatorStatus currentlyInCommittee status =
     (if status = Banned then ForeverBanned
      else if currentlyInCommittee then Elected
      else if \<not> currentlyInCommittee \<and> status = Active then Candidate
      else if \<not> currentlyInCommittee \<and> status \<noteq> Active then NotCandidate
      else Unknown)"

section \<open>The auction\<close>

definition two :: Dec where "two = NewDecFromBigInt 2"

text \<open>The package-level constants; a parse error is ignored and leaves a zero value.\<close>

definition dec_or_zero :: "Dec go \<Rightarrow> Dec" where
  "dec_or_zero r = (case r of Inr d \<Rightarrow> d | Inl _ \<Rightarrow> 0)"

definition cV1 :: Dec where "cV1 = dec_or_zero (NewDecFromStr ''0.15'')"
definition cV2 :: Dec where "cV2 = dec_or_zero (NewDecFromStr ''0.35'')"
definition onePlusC :: "Dec go" where "onePlusC = Add OneDec cV1"
definition oneMinusC :: "Dec go" where "oneMinusC = Sub OneDec cV1"
definition onePlusCV2 :: "Dec go" where "onePlusCV2 = Add OneDec cV2"
definition oneMinusCV2 :: "Dec go" where "oneMinusCV2 = Sub OneDec cV2"

record SlotPurchase =
  pAddr :: Address
  pKey :: SerializedPublicKey
  RawStake :: Dec
  EPoSStake :: Dec

record SlotOrder =
  oStake :: int
  SpreadAmong :: "SerializedPublicKey list"
  Percentage :: Dec

type_synonym orders = "(Address \<times> SlotOrder) list"

text \<open>\<open>sort.SliceStable\<close> with the order \<open>RawStake.GT\<close>.\<close>

definition by_stake :: "SlotPurchase list \<Rightarrow> SlotPurchase list" where
  "by_stake ps = sort_key (\<lambda>p. - RawStake p) ps"

text \<open>\<open>Median\<close> sorts its argument in place: the sorted slice is the second result.\<close>

definition Median :: "SlotPurchase list \<Rightarrow> (Dec \<times> SlotPurchase list) go" where
  "Median stakes =
     (if length stakes = 0 then Inr (ZeroDec, stakes)
      else
        (let stakes = by_stake stakes; l = length stakes
         in if l mod 2 = 0
            then go_bind (Add (RawStake (stakes ! (l div 2 - 1))) (RawStake (stakes ! (l div 2))))
                   (\<lambda>s. go_bind (Quo s two) (\<lambda>m. Inr (m, stakes)))
            else Inr (RawStake (stakes ! (l div 2)), stakes)))"

definition expand_staker :: "Address \<times> SlotOrder \<Rightarrow> SlotPurchase list go" where
  "expand_staker staker =
     (let slotsCount = length (SpreadAmong (snd staker))
      in if slotsCount = 0 then Inr []
         else go_bind (QuoInt64 (NewDecFromBigInt (oStake (snd staker))) (int slotsCount))
                (\<lambda>spread. Inr (map (\<lambda>key. \<lparr>pAddr = fst staker, pKey = key,
                                          RawStake = spread, EPoSStake = spread\<rparr>)
                                  (SpreadAmong (snd staker)))))"

definition Compute :: "orders \<Rightarrow> int \<Rightarrow> (Dec \<times> SlotPurchase list) go" where
  "Compute shortHand pull =
     (if length shortHand = 0 then Inr (ZeroDec, [])
      else
        go_bind (go_fold (\<lambda>eposed staker. go_bind (expand_staker staker) (\<lambda>ps. Inr (eposed @ ps))) []
                   (sort_key fst shortHand))
          (\<lambda>eposed.
             let eposed = by_stake eposed;
                 pull = (if int (length eposed) < pull then int (length eposed) else pull)
             in if pull < 0 then Inl (Panic ''slice bounds out of range'')
                else
                  (let picks = take (nat pull) eposed
                   in if length picks = 0 then Inr (ZeroDec, []) else Median picks)))"

definition effectiveStake :: "Dec \<Rightarrow> Dec \<Rightarrow> Dec \<Rightarrow> Dec" where
  "effectiveStake lo hi actual = MaxDec (MinDec hi actual) lo"

definition Apply :: "orders \<Rightarrow> int \<Rightarrow> bool \<Rightarrow> (Dec \<times> SlotPurchase list) go" where
  "Apply shortHand pull isExtendedBound =
     go_bind (Compute shortHand pull) (\<lambda>(median, picks).
     go_bind (go_bind onePlusC (\<lambda>x. Mul x median)) (\<lambda>hi.
     go_bind (go_bind oneMinusC (\<lambda>x. Mul x median)) (\<lambda>lo.
     go_bind (if isExtendedBound then go_bind onePlusCV2 (\<lambda>x. Mul x median) else Inr hi) (\<lambda>hi.
     go_bind (if isExtendedBound then go_bind oneMinusCV2 (\<lambda>x. Mul x median) else Inr lo) (\<lambda>lo.
     Inr (median, map (\<lambda>p. p\<lparr>EPoSStake := effectiveStake lo hi (RawStake p)\<rparr>) picks))))))"

section \<open>What the auction computes\<close>

text \<open>One purchase per key, each with an equal share of the stake.\<close>

definition purchases :: "Address \<times> SlotOrder \<Rightarrow> SlotPurchase list" where
  "purchases staker =
     (let spread = quo (NewDecFromBigInt (oStake (snd staker))) (int (length (SpreadAmong (snd staker))))
      in map (\<lambda>key. \<lparr>pAddr = fst staker, pKey = key, RawStake = spread, EPoSStake = spread\<rparr>)
           (SpreadAmong (snd staker)))"

definition all_purchases :: "orders \<Rightarrow> SlotPurchase list" where
  "all_purchases sh = concat (map purchases sh)"

definition auction_order :: "orders \<Rightarrow> SlotPurchase list" where
  "auction_order sh = by_stake (all_purchases (sort_key fst sh))"

definition descending :: "SlotPurchase list \<Rightarrow> bool" where
  "descending ps \<longleftrightarrow> sorted (map (\<lambda>p. - RawStake p) ps)"

lemma expand_staker_eq: "expand_staker staker = Inr (purchases staker)"
  by (simp add: expand_staker_def purchases_def Let_def QuoInt64_def)

lemma expand_eq:
  "go_fold (\<lambda>eposed staker. go_bind (expand_staker staker) (\<lambda>ps. Inr (eposed @ ps))) acc sh
   = Inr (acc @ all_purchases sh)"
  by (induction sh arbitrary: acc) (simp_all add: expand_staker_eq all_purchases_def)

lemma by_stake_descending [simp]: "descending (by_stake ps)"
  by (simp add: descending_def by_stake_def)

lemma mset_by_stake [simp]: "mset (by_stake ps) = mset ps"
  by (simp add: by_stake_def)

lemma length_by_stake [simp]: "length (by_stake ps) = length ps"
  by (simp add: by_stake_def)

lemma by_stake_id [simp]: "descending ps \<Longrightarrow> by_stake ps = ps"
  by (simp add: descending_def by_stake_def sorted_sort_id sort_key_id_if_sorted)

lemma by_stake_Nil [simp]: "by_stake [] = []" "by_stake ps = [] \<longleftrightarrow> ps = []"
  by (simp add: by_stake_def) (metis length_0_conv length_by_stake)

lemma descending_take: "descending ps \<Longrightarrow> descending (take n ps)"
  by (simp add: descending_def take_map [symmetric] sorted_wrt_take)

lemma Median_sorted: "Median ps = Inr (m, qs) \<Longrightarrow> qs = by_stake ps"
  by (auto simp: Median_def Let_def by_stake_def split: if_splits)

lemma Compute_eq:
  "Compute sh pull =
     (if sh = [] then Inr (ZeroDec, [])
      else if pull < 0 then Inl (Panic ''slice bounds out of range'')
      else (let picks = take (nat pull) (auction_order sh)
            in if picks = [] then Inr (ZeroDec, []) else Median picks))"
  by (auto simp: Compute_def expand_eq auction_order_def Let_def)

lemma Compute_picks:
  assumes "Compute sh pull = Inr (m, ps)"
  shows "ps = take (nat pull) (auction_order sh)"
proof -
  have "descending (take (nat pull) (auction_order sh))"
    by (simp add: auction_order_def descending_take)
  then show ?thesis
    using assms Median_sorted [of "take (nat pull) (auction_order sh)" m ps]
    by (auto simp: Compute_eq Let_def auction_order_def all_purchases_def split: if_splits)
qed

text \<open>The iteration order of the map is immaterial.\<close>

lemma sort_key_fst_unique:
  fixes sh :: orders
  assumes "distinct (map fst sh)" and "mset sh = mset sh'"
  shows "sort_key fst sh = sort_key fst sh'"
proof (rule map_sorted_distinct_set_unique [of fst])
  have same: "set sh' = set sh" using assms(2) by (metis mset_eq_setD)
  show "inj_on fst (set (sort_key fst sh) \<union> set (sort_key fst sh'))"
    using assms(1) same by (simp add: distinct_map)
  have "mset (map fst (sort_key fst sh)) = mset (map fst sh)" by simp
  then show "distinct (map fst (sort_key fst sh))"
    using assms(1) by (metis mset_eq_imp_distinct_iff)
  have "mset (map fst (sort_key fst sh')) = mset (map fst sh)" using assms(2) by simp
  then show "distinct (map fst (sort_key fst sh'))"
    using assms(1) by (metis mset_eq_imp_distinct_iff)
qed (use assms(2) in \<open>auto dest: mset_eq_setD\<close>)

lemma Apply_order_independent:
  assumes "distinct (map fst sh)" and "mset sh = mset sh'"
  shows "Apply sh pull ext = Apply sh' pull ext"
proof -
  have "sh = [] \<longleftrightarrow> sh' = []" using assms(2) by auto
  then show ?thesis
    using sort_key_fst_unique [OF assms] by (simp add: Apply_def Compute_eq auction_order_def)
qed

lemma c_values: "cV1 = 150000000000000000" "cV2 = 350000000000000000"
  using read_literal [of "''0''" "''15''"] read_literal [of "''0''" "''35''"]
  by (simp_all add: cV1_def cV2_def dec_or_zero_def is_digit_def digits_val_def digit_val_def)

lemma band_factors:
  "onePlusC = Inr 1150000000000000000" "oneMinusC = Inr 850000000000000000"
  "onePlusCV2 = Inr 1350000000000000000" "oneMinusCV2 = Inr 650000000000000000"
  by (simp_all add: onePlusC_def oneMinusC_def onePlusCV2_def oneMinusCV2_def c_values OneDec_def
      precisionReuse_def fitsDec_iff)

definition upper_factor :: "bool \<Rightarrow> Dec" where
  "upper_factor ext = (if ext then 1350000000000000000 else 1150000000000000000)"

definition lower_factor :: "bool \<Rightarrow> Dec" where
  "lower_factor ext = (if ext then 650000000000000000 else 850000000000000000)"

lemma Apply_inv:
  assumes "Apply sh pull ext = Inr (m, ws)"
  obtains lo hi where "Compute sh pull = Inr (m, take (nat pull) (auction_order sh))"
    and "Mul (upper_factor ext) m = Inr hi" and "Mul (lower_factor ext) m = Inr lo"
    and "ws = map (\<lambda>p. p\<lparr>EPoSStake := effectiveStake lo hi (RawStake p)\<rparr>) (take (nat pull) (auction_order sh))"
proof -
  from assms obtain ps where c: "Compute sh pull = Inr (m, ps)"
    by (auto simp: Apply_def)
  note ps = Compute_picks [OF c]
  show thesis
    using assms c ps that
    by (cases ext) (auto simp: Apply_def band_factors upper_factor_def lower_factor_def)
qed

subsection \<open>The median\<close>

lemma mean_between:
  assumes "Quo (a + b) two = Inr m" and "b \<le> a"
  shows "b \<le> m" and "m \<le> a"
proof -
  have two: "two = 2 * precisionReuse" by (simp add: two_def dec_consts)
  have "(a + b) * fivePrecision * two = (a + b) * (2 * fivePrecision) * precisionReuse"
    by (simp add: two)
  then have "(a + b) * precisionReuse * precisionReuse = (a + b) * fivePrecision * two"
    by (simp only: twice_fivePrecision)
  moreover have "two \<noteq> 0" by (simp add: two)
  ultimately have "quo ((a + b) * precisionReuse * precisionReuse) two = (a + b) * fivePrecision"
    using quo_exact [of two "(a + b) * fivePrecision"] by metis
  then have m: "m = chopPrecisionAndRound ((a + b) * fivePrecision)"
    using assms(1) by (auto simp: Quo_def Let_def split: if_splits)
  have five: "0 < fivePrecision" by (simp add: fivePrecision_def precisionReuse_def quo_def)
  have "b * precisionReuse \<le> (a + b) * fivePrecision" "(a + b) * fivePrecision \<le> a * precisionReuse"
    using assms(2) five by (auto simp: twice_fivePrecision [symmetric] algebra_simps)
  then show "b \<le> m" and "m \<le> a" by (simp_all add: m bankers.ge bankers.le)
qed

lemma descending_nth:
  "descending ps \<Longrightarrow> i \<le> j \<Longrightarrow> j < length ps \<Longrightarrow> RawStake (ps ! j) \<le> RawStake (ps ! i)"
  by (auto simp: descending_def sorted_iff_nth_mono)

lemma Median_between:
  assumes "Median ps = Inr (m, qs)" and "ps \<noteq> []" and d: "descending ps"
  shows "m \<le> RawStake (ps ! ((length ps - 1) div 2))" and "RawStake (ps ! (length ps div 2)) \<le> m"
proof -
  have l: "0 < length ps" using assms(2) by simp
  have "m \<le> RawStake (ps ! ((length ps - 1) div 2)) \<and> RawStake (ps ! (length ps div 2)) \<le> m"
  proof (cases "length ps mod 2 = 0")
    case True
    then have i: "(length ps - 1) div 2 = length ps div 2 - 1" "length ps div 2 - 1 < length ps"
      "length ps div 2 < length ps" using l by presburger+
    let ?a = "RawStake (ps ! (length ps div 2 - 1))" and ?b = "RawStake (ps ! (length ps div 2))"
    have "Quo (?a + ?b) two = Inr m" using assms(1,2) d True by (auto simp: Median_def Let_def)
    moreover have "?b \<le> ?a" using i by (intro descending_nth [OF d]) auto
    ultimately show ?thesis using mean_between i(1) by metis
  next
    case False
    then have "(length ps - 1) div 2 = length ps div 2" by presburger
    then show ?thesis using assms False by (auto simp: Median_def Let_def)
  qed
  then show "m \<le> RawStake (ps ! ((length ps - 1) div 2))" and "RawStake (ps ! (length ps div 2)) \<le> m"
    by auto
qed

lemma length_filter_take: "(\<And>i. i < n \<Longrightarrow> P (xs ! i)) \<Longrightarrow> n \<le> length xs \<Longrightarrow> n \<le> length (filter P xs)"
proof -
  assume P: "\<And>i. i < n \<Longrightarrow> P (xs ! i)" and n: "n \<le> length xs"
  have "filter P (take n xs) = take n xs" using P n by (auto simp: filter_id_conv in_set_conv_nth)
  then have "length (filter P xs) = n + length (filter P (drop n xs))"
    using n filter_append [of P "take n xs" "drop n xs"] by simp
  then show ?thesis by simp
qed

lemma length_filter_drop:
  "(\<And>i. n \<le> i \<Longrightarrow> i < length xs \<Longrightarrow> P (xs ! i)) \<Longrightarrow> length xs - n \<le> length (filter P xs)"
proof -
  assume P: "\<And>i. n \<le> i \<Longrightarrow> i < length xs \<Longrightarrow> P (xs ! i)"
  have "filter P (drop n xs) = drop n xs" using P by (auto simp: filter_id_conv in_set_conv_nth)
  then have "length (filter P xs) = length (filter P (take n xs)) + (length xs - n)"
    using filter_append [of P "take n xs" "drop n xs"] by simp
  then show ?thesis by simp
qed

lemma Median_halves:
  assumes m: "Median ps = Inr (m, qs)" "ps \<noteq> []" and d: "descending ps"
  shows "length ps \<le> 2 * length (filter (\<lambda>p. m \<le> RawStake p) ps)"
    and "length ps \<le> 2 * length (filter (\<lambda>p. RawStake p \<le> m) ps)"
proof -
  note between = Median_between [OF m d]
  have l: "0 < length ps" using m(2) by simp
  have "Suc ((length ps - 1) div 2) \<le> length (filter (\<lambda>p. m \<le> RawStake p) ps)"
  proof (rule length_filter_take)
    fix i assume "i < Suc ((length ps - 1) div 2)"
    then have "RawStake (ps ! ((length ps - 1) div 2)) \<le> RawStake (ps ! i)"
      using l by (intro descending_nth [OF d]) linarith+
    then show "m \<le> RawStake (ps ! i)" using between(1) by simp
  next
    show "Suc ((length ps - 1) div 2) \<le> length ps" using l by linarith
  qed
  then show "length ps \<le> 2 * length (filter (\<lambda>p. m \<le> RawStake p) ps)" by linarith
  have "length ps - length ps div 2 \<le> length (filter (\<lambda>p. RawStake p \<le> m) ps)"
  proof (rule length_filter_drop)
    fix i assume "length ps div 2 \<le> i" "i < length ps"
    then show "RawStake (ps ! i) \<le> m" using descending_nth [OF d] between(2) by (meson order_trans)
  qed
  then show "length ps \<le> 2 * length (filter (\<lambda>p. RawStake p \<le> m) ps)" by linarith
qed

subsection \<open>Winners and their stakes\<close>

definition as_bid :: "SlotPurchase \<Rightarrow> SlotPurchase" where
  "as_bid p = p\<lparr>EPoSStake := RawStake p\<rparr>"

lemma as_bid_purchase: "p \<in> set (all_purchases sh) \<Longrightarrow> as_bid p = p"
  by (auto simp: all_purchases_def purchases_def as_bid_def Let_def)

lemma mset_auction_order: "mset (auction_order sh) = mset (all_purchases sh)"
proof -
  have "mset (all_purchases ys) = \<Sum>\<^sub># (image_mset (\<lambda>s. mset (purchases s)) (mset ys))" for ys
    by (induction ys) (simp_all add: all_purchases_def)
  then show ?thesis by (simp add: auction_order_def)
qed

lemma auction_bid: "p \<in> set (auction_order sh) \<Longrightarrow> as_bid p = p"
  using mset_eq_setD [OF mset_auction_order, of sh] by (intro as_bid_purchase) simp

lemma winners_as_bids:
  assumes "ws = map (\<lambda>p. p\<lparr>EPoSStake := f p\<rparr>) (take n (auction_order sh))"
  shows "map as_bid ws = take n (auction_order sh)"
proof -
  have "map as_bid ws = map as_bid (take n (auction_order sh))"
    by (simp add: assms as_bid_def)
  also have "\<dots> = map id (take n (auction_order sh))"
    by (intro map_cong refl) (auto dest: in_set_takeD auction_bid)
  finally show ?thesis by simp
qed

lemma descending_take_drop:
  assumes "descending ps" "w \<in> set (take n ps)" "r \<in> set (drop n ps)"
  shows "RawStake r \<le> RawStake w"
proof -
  obtain i where "i < n" "i < length ps" "w = ps ! i"
    using assms(2) by (auto simp: in_set_conv_nth)
  moreover obtain j where "j < length ps - n" "r = ps ! (n + j)"
    using assms(3) by (auto simp: in_set_conv_nth)
  ultimately show ?thesis using descending_nth [OF assms(1), of i "n + j"] by simp
qed

lemma Apply_picks_top:
  assumes "Apply sh pull ext = Inr (m, ws)"
  shows "length ws = min (nat pull) (length (all_purchases sh))"
    and "\<exists>losers. mset (map as_bid ws) + mset losers = mset (all_purchases sh)
           \<and> (\<forall>w\<in>set ws. \<forall>l\<in>set losers. RawStake l \<le> RawStake w)"
proof -
  obtain lo hi where ws: "ws = map (\<lambda>p. p\<lparr>EPoSStake := effectiveStake lo hi (RawStake p)\<rparr>)
      (take (nat pull) (auction_order sh))"
    by (rule Apply_inv [OF assms])
  have len: "length (auction_order sh) = length (all_purchases sh)"
    using mset_auction_order by (metis size_mset)
  show "length ws = min (nat pull) (length (all_purchases sh))" by (simp add: ws len)
  have "mset (map as_bid ws) + mset (drop (nat pull) (auction_order sh)) = mset (all_purchases sh)"
    by (simp only: winners_as_bids [OF ws] mset_append [symmetric] append_take_drop_id mset_auction_order)
  moreover have "RawStake l \<le> RawStake w"
    if w: "w \<in> set ws" and l: "l \<in> set (drop (nat pull) (auction_order sh))" for w l
  proof -
    obtain p where "p \<in> set (take (nat pull) (auction_order sh))" "RawStake w = RawStake p"
      using w by (auto simp: ws)
    then show ?thesis
      using descending_take_drop [OF _ _ l] by (simp add: auction_order_def)
  qed
  ultimately show "\<exists>losers. mset (map as_bid ws) + mset losers = mset (all_purchases sh)
           \<and> (\<forall>w\<in>set ws. \<forall>l\<in>set losers. RawStake l \<le> RawStake w)" by blast
qed

text \<open>
  C37: The auction admits as many keys as there are open slots (or all keys, when there are fewer),
  the winners are a part of the expanded orders, and no losing key has a higher stake than a
  winning one. The outcome does not depend on the order in which the map of orders is visited.
\<close>

theorem Apply_elects_top_stakes:
  assumes "Apply sh pull ext = Inr (m, ws)" and "distinct (map fst sh)"
  shows "length ws = min (nat pull) (length (all_purchases sh))
    \<and> (\<exists>losers. mset (map as_bid ws) + mset losers = mset (all_purchases sh)
           \<and> (\<forall>w\<in>set ws. \<forall>l\<in>set losers. RawStake l \<le> RawStake w))
    \<and> (\<forall>sh'. mset sh' = mset sh \<longrightarrow> Apply sh' pull ext = Inr (m, ws))"
  using Apply_picks_top [OF assms(1)] Apply_order_independent [OF assms(2), of _ pull ext] assms(1)
  by metis

definition sample_orders :: orders where
  "sample_orders =
     [(2, \<lparr>oStake = 30, SpreadAmong = [21, 22, 23], Percentage = 0\<rparr>),
      (1, \<lparr>oStake = 40, SpreadAmong = [11], Percentage = 0\<rparr>)]"

lemma sample_all_purchases:
  "all_purchases sample_orders =
     [\<lparr>pAddr = 2, pKey = 21, RawStake = 10000000000000000000, EPoSStake = 10000000000000000000\<rparr>,
      \<lparr>pAddr = 2, pKey = 22, RawStake = 10000000000000000000, EPoSStake = 10000000000000000000\<rparr>,
      \<lparr>pAddr = 2, pKey = 23, RawStake = 10000000000000000000, EPoSStake = 10000000000000000000\<rparr>,
      \<lparr>pAddr = 1, pKey = 11, RawStake = 40000000000000000000, EPoSStake = 40000000000000000000\<rparr>]"
  by (simp add: all_purchases_def purchases_def sample_orders_def dec_consts precisionReuse_def quo_nonneg)

lemma sample_auction:
  "auction_order sample_orders =
     [\<lparr>pAddr = 1, pKey = 11, RawStake = 40000000000000000000, EPoSStake = 40000000000000000000\<rparr>,
      \<lparr>pAddr = 2, pKey = 21, RawStake = 10000000000000000000, EPoSStake = 10000000000000000000\<rparr>,
      \<lparr>pAddr = 2, pKey = 22, RawStake = 10000000000000000000, EPoSStake = 10000000000000000000\<rparr>,
      \<lparr>pAddr = 2, pKey = 23, RawStake = 10000000000000000000, EPoSStake = 10000000000000000000\<rparr>]"
  by (simp add: auction_order_def all_purchases_def purchases_def sample_orders_def dec_consts
      precisionReuse_def quo_nonneg by_stake_def)

definition sample_winners :: "SlotPurchase list" where
  "sample_winners =
     [\<lparr>pAddr = 1, pKey = 11, RawStake = 40000000000000000000, EPoSStake = 11500000000000000000\<rparr>,
      \<lparr>pAddr = 2, pKey = 21, RawStake = 10000000000000000000, EPoSStake = 10000000000000000000\<rparr>,
      \<lparr>pAddr = 2, pKey = 22, RawStake = 10000000000000000000, EPoSStake = 10000000000000000000\<rparr>]"

lemma sample_Apply: "Apply sample_orders 3 False = Inr (10000000000000000000, sample_winners)"
proof -
  let ?ps = "take (nat 3) (auction_order sample_orders)"
  have "descending ?ps" by (simp add: auction_order_def descending_take)
  then have "Median ?ps = Inr (10000000000000000000, ?ps)"
    by (simp add: Median_def Let_def) (simp add: sample_auction)
  moreover have "?ps \<noteq> []" "sample_orders \<noteq> []"
    by (simp_all add: sample_auction) (simp add: sample_orders_def)
  ultimately have "Compute sample_orders 3 = Inr (10000000000000000000, ?ps)"
    by (simp add: Compute_eq)
  then show ?thesis
    by (simp add: Apply_def band_factors dec_eval effectiveStake_def MaxDec_def MinDec_def dec_preds
        sample_auction sample_winners_def)
qed

lemma sample_orders_distinct: "distinct (map fst sample_orders)"
  by (simp add: sample_orders_def)

theorem Apply_elects_top_stakes_witness:
  "Apply sample_orders 3 False = Inr (10000000000000000000, sample_winners)
   \<and> distinct (map fst sample_orders)
   \<and> length sample_winners = min (nat 3) (length (all_purchases sample_orders))"
  using sample_Apply sample_orders_distinct
    Apply_elects_top_stakes [OF sample_Apply sample_orders_distinct] by simp

lemma Mul_value: "Mul a b = Inr d \<Longrightarrow> d = chopPrecisionAndRound (a * b)"
  by (auto simp: Mul_def)

lemma RawStake_nonneg:
  assumes "\<forall>x\<in>set sh. 0 \<le> oStake (snd x)" and "p \<in> set (all_purchases sh)"
  shows "0 \<le> RawStake p"
proof -
  obtain st where st: "st \<in> set sh" "p \<in> set (purchases st)" using assms(2) by (auto simp: all_purchases_def)
  then have "SpreadAmong (snd st) \<noteq> []" by (auto simp: purchases_def Let_def)
  then have n: "0 < int (length (SpreadAmong (snd st)))" by simp
  have s: "0 \<le> oStake (snd st) * precisionReuse" using assms(1) st(1) by simp
  have "RawStake p = quo (oStake (snd st) * precisionReuse) (int (length (SpreadAmong (snd st))))"
    using st(2) by (auto simp: purchases_def Let_def dec_consts)
  also have "\<dots> = (oStake (snd st) * precisionReuse) div int (length (SpreadAmong (snd st)))"
    by (rule quo_nonneg [OF s n])
  finally show ?thesis using s n by (simp add: pos_imp_zdiv_nonneg_iff)
qed

lemma Compute_median_nonneg:
  assumes "Compute sh pull = Inr (m, ps)" and "\<forall>x\<in>set sh. 0 \<le> oStake (snd x)"
  shows "0 \<le> m"
proof (cases "take (nat pull) (auction_order sh) = [] \<or> sh = []")
  case True
  then show ?thesis using assms(1) by (auto simp: Compute_eq ZeroDec_def Let_def split: if_splits)
next
  case False
  let ?ps = "take (nat pull) (auction_order sh)"
  have M: "Median ?ps = Inr (m, ps)" "?ps \<noteq> []"
    using False assms(1) by (auto simp: Compute_eq Let_def split: if_splits)
  have d: "descending ?ps" by (simp add: auction_order_def descending_take)
  have l: "length ?ps div 2 < length ?ps" using M(2) by (metis div_less_dividend length_greater_0_conv one_less_numeral_iff semiring_norm(76))
  have "?ps ! (length ?ps div 2) \<in> set ?ps" using l by (rule nth_mem)
  then have "?ps ! (length ?ps div 2) \<in> set (all_purchases sh)"
    using mset_eq_setD [OF mset_auction_order, of sh] by (auto dest: in_set_takeD)
  then show ?thesis using Median_between(2) [OF M d] RawStake_nonneg [OF assms(2)] by force
qed

lemma effectiveStake_clamp:
  "lo \<le> hi \<Longrightarrow> lo \<le> effectiveStake lo hi x \<and> effectiveStake lo hi x \<le> hi
    \<and> (lo \<le> x \<and> x \<le> hi \<longrightarrow> effectiveStake lo hi x = x)"
  by (auto simp: effectiveStake_def MaxDec_def MinDec_def dec_preds)

lemma band_ordered:
  assumes "Mul (lower_factor ext) m = Inr lo" "Mul (upper_factor ext) m = Inr hi" "0 \<le> m"
  shows "lo \<le> hi"
  unfolding Mul_value [OF assms(1)] Mul_value [OF assms(2)]
  using assms(3) by (intro bankers.mono mult_right_mono) (simp_all add: lower_factor_def upper_factor_def)

text \<open>
  With non-negative stakes the median is a median of the winning stakes (at least half of them
  are at or above it and at least half at or below), and every winner's effective stake is its stake
  clamped into the band of 15 percent (35 percent under the extended bound) around that median.
\<close>

theorem Apply_clamps_to_median_band:
  assumes "Apply sh pull ext = Inr (m, ws)" and "\<forall>x\<in>set sh. 0 \<le> oStake (snd x)"
  shows "length ws \<le> 2 * length (filter (\<lambda>w. m \<le> RawStake w) ws)
    \<and> length ws \<le> 2 * length (filter (\<lambda>w. RawStake w \<le> m) ws)
    \<and> (\<exists>lo hi. Mul (lower_factor ext) m = Inr lo \<and> Mul (upper_factor ext) m = Inr hi
        \<and> (\<forall>w\<in>set ws. lo \<le> EPoSStake w \<and> EPoSStake w \<le> hi
              \<and> (lo \<le> RawStake w \<and> RawStake w \<le> hi \<longrightarrow> EPoSStake w = RawStake w)))"
proof -
  let ?ps = "take (nat pull) (auction_order sh)"
  obtain lo hi where c: "Compute sh pull = Inr (m, ?ps)"
    and hi: "Mul (upper_factor ext) m = Inr hi" and lo: "Mul (lower_factor ext) m = Inr lo"
    and ws: "ws = map (\<lambda>p. p\<lparr>EPoSStake := effectiveStake lo hi (RawStake p)\<rparr>) ?ps"
    by (rule Apply_inv [OF assms(1)])
  have le: "lo \<le> hi" by (rule band_ordered [OF lo hi Compute_median_nonneg [OF c assms(2)]])
  have "map RawStake ws = map RawStake ?ps" by (simp add: ws)
  then have raw: "length (filter P (map RawStake ws)) = length (filter P (map RawStake ?ps))" for P
    by simp
  have halves: "length ?ps \<le> 2 * length (filter (\<lambda>p. m \<le> RawStake p) ?ps)
      \<and> length ?ps \<le> 2 * length (filter (\<lambda>p. RawStake p \<le> m) ?ps)"
  proof (cases "?ps = [] \<or> sh = []")
    case True
    then have "?ps = []" by (auto simp: auction_order_def all_purchases_def)
    then show ?thesis by (simp only: list.size filter.simps) simp
  next
    case False
    then have M: "Median ?ps = Inr (m, ?ps)" "?ps \<noteq> []"
      using c by (auto simp: Compute_eq Let_def split: if_splits)
    have "descending ?ps" by (simp add: auction_order_def descending_take)
    then show ?thesis using Median_halves [OF M] by simp
  qed
  have "\<forall>w\<in>set ws. lo \<le> EPoSStake w \<and> EPoSStake w \<le> hi
              \<and> (lo \<le> RawStake w \<and> RawStake w \<le> hi \<longrightarrow> EPoSStake w = RawStake w)"
    using effectiveStake_clamp [OF le] by (simp add: ws)
  moreover have "length ws = length ?ps" by (simp add: ws)
  moreover have "length (filter (\<lambda>w. m \<le> RawStake w) ws) = length (filter (\<lambda>w. m \<le> RawStake w) ?ps)"
    "length (filter (\<lambda>w. RawStake w \<le> m) ws) = length (filter (\<lambda>w. RawStake w \<le> m) ?ps)"
    using raw [of "\<lambda>x. m \<le> x"] raw [of "\<lambda>x. x \<le> m"] by (simp_all add: filter_map comp_def)
  ultimately show ?thesis using halves lo hi by metis
qed

theorem Apply_clamps_to_median_band_witness:
  "Apply sample_orders 3 False = Inr (10000000000000000000, sample_winners)
   \<and> list_all (\<lambda>x. 0 \<le> oStake (snd x)) sample_orders
   \<and> length sample_winners \<le> 2 * length (filter (\<lambda>w. 10000000000000000000 \<le> RawStake w) sample_winners)"
proof -
  have n: "\<forall>x\<in>set sample_orders. 0 \<le> oStake (snd x)" by (simp add: sample_orders_def)
  show ?thesis using sample_Apply n Apply_clamps_to_median_band [OF sample_Apply n] by (simp add: list_all_iff)
qed

end
