(* ===== verification/Validators.thy ===== *)
theory Validators
  imports Delegations Effective
begin

text \<open>
  Validators of \<open>staking/types/validator.go\<close>, \<open>staking/types/commission.go\<close> and the staking messages
  of \<open>staking/types/messages.go\<close>: the sanity checks, the stake per slot, the description limits, the
  checks of BLS keys and the two functions that build a validator from a create message and update
  one from an edit message. Embedded structs are nested records. The BLS library and the hash are
  the parameter \<open>lib\<close>; the sharding schedule is the parameter \<open>instanceForEpoch\<close>. A pointer or a
  \<open>numeric.Dec\<close> that the code tells apart from nil is an option, and dereferencing nil panics.
\<close>

section \<open>Data\<close>

type_synonym SerializedSignature = "768 word"

record Description =
  Name :: string
  Identity :: string
  Website :: string
  SecurityContact :: string
  Details :: string

record CommissionRates =
  Rate :: "Dec option"
  MaxRate :: "Dec option"
  MaxChangeRate :: "Dec option"

record Commission =
  Rates :: CommissionRates
  UpdateHeight :: int

record Validator =
  vAddress :: Address
  SlotPubKeys :: "SerializedPublicKey list"
  LastEpochInCommittee :: int
  MinSelfDelegation :: "int option"
  MaxTotalDelegation :: "int option"
  Status :: Eligibility
  vCommission :: Commission
  vDescription :: Description
  CreationHeight :: int

record counters =
  NumBlocksToSign :: int
  NumBlocksSigned :: int

record ValidatorWrapper =
  theValidator :: Validator
  Delegations :: "Delegation list"
  Counters :: counters
  BlockReward :: int

record ValidatorSnapshot =
  snapValidator :: ValidatorWrapper
  snapEpoch :: int

record Computed =
  cSigned :: int
  cToSign :: int
  BlocksLeftInEpoch :: uint64
  cPercentage :: Dec
  IsBelowThreshold :: bool

definition NewComputed :: "int \<Rightarrow> int \<Rightarrow> uint64 \<Rightarrow> Dec \<Rightarrow> bool \<Rightarrow> Computed" where
  "NewComputed numSigned toSign blocksLeft percent isBelowNow =
     \<lparr>cSigned = numSigned, cToSign = toSign, BlocksLeftInEpoch = blocksLeft, cPercentage = percent,
      IsBelowThreshold = isBelowNow\<rparr>"

section \<open>Messages\<close>

datatype Directive =
  DirectiveCreateValidator | DirectiveEditValidator | DirectiveDelegate | DirectiveUndelegate
  | DirectiveCollectRewards

fun Directive_String :: "Directive \<Rightarrow> string" where
  "Directive_String DirectiveCreateValidator = ''CreateValidator''"
| "Directive_String DirectiveEditValidator = ''EditValidator''"
| "Directive_String DirectiveDelegate = ''Delegate''"
| "Directive_String DirectiveUndelegate = ''Undelegate''"
| "Directive_String DirectiveCollectRewards = ''CollectRewards''"

record CreateValidator =
  cvValidatorAddress :: Address
  cvDescription :: Description
  cvCommissionRates :: CommissionRates
  cvMinSelfDelegation :: "int option"
  cvMaxTotalDelegation :: "int option"
  cvSlotPubKeys :: "SerializedPublicKey list"
  cvSlotKeySigs :: "SerializedSignature list"
  cvAmount :: int

record EditValidator =
  evValidatorAddress :: Address
  evDescription :: Description
  CommissionRate :: "Dec option option"
  evMinSelfDelegation :: "int option"
  evMaxTotalDelegation :: "int option"
  SlotKeyToRemove :: "SerializedPublicKey option"
  SlotKeyToAdd :: "SerializedPublicKey option"
  SlotKeyToAddSig :: "SerializedSignature option"
  EPOSStatus :: Eligibility

record DelegateMsg =
  dDelegatorAddress :: Address
  dValidatorAddress :: Address
  dAmount :: "int option"

record UndelegateMsg =
  uDelegatorAddress :: Address
  uValidatorAddress :: Address
  umAmount :: "int option"

record CollectRewards =
  crDelegatorAddress :: Address

record MigrationMsg =
  From :: Address
  To :: Address

datatype StakeMsg =
  MsgCreate CreateValidator | MsgEdit EditValidator | MsgDelegate DelegateMsg
  | MsgUndelegate UndelegateMsg | MsgCollect CollectRewards

fun StakeMsg_Type :: "StakeMsg \<Rightarrow> Directive" where
  "StakeMsg_Type (MsgCreate _) = DirectiveCreateValidator"
| "StakeMsg_Type (MsgEdit _) = DirectiveEditValidator"
| "StakeMsg_Type (MsgDelegate _) = DirectiveDelegate"
| "StakeMsg_Type (MsgUndelegate _) = DirectiveUndelegate"
| "StakeMsg_Type (MsgCollect _) = DirectiveCollectRewards"

definition Delegate_Equals :: "DelegateMsg \<Rightarrow> DelegateMsg \<Rightarrow> bool" where
  "Delegate_Equals v s =
     (if dDelegatorAddress v \<noteq> dDelegatorAddress s then False
      else if dValidatorAddress v \<noteq> dValidatorAddress s then False
      else (case dAmount v of
              None \<Rightarrow> dAmount s = None
            | Some a \<Rightarrow> (case dAmount s of None \<Rightarrow> False | Some b \<Rightarrow> a = b)))"

definition Undelegate_Equals :: "UndelegateMsg \<Rightarrow> UndelegateMsg \<Rightarrow> bool" where
  "Undelegate_Equals v s =
     (if uDelegatorAddress v \<noteq> uDelegatorAddress s then False
      else if uValidatorAddress v \<noteq> uValidatorAddress s then False
      else (case umAmount v of
              None \<Rightarrow> umAmount s = None
            | Some a \<Rightarrow> (case umAmount s of None \<Rightarrow> False | Some b \<Rightarrow> a = b)))"

definition CollectRewards_Equals :: "CollectRewards \<Rightarrow> CollectRewards \<Rightarrow> bool" where
  "CollectRewards_Equals v s \<longleftrightarrow> crDelegatorAddress v = crDelegatorAddress s"

definition MigrationMsg_Equals :: "MigrationMsg \<Rightarrow> MigrationMsg \<Rightarrow> bool" where
  "MigrationMsg_Equals v s \<longleftrightarrow> From v = From s \<and> To v = To s"

section \<open>Sanity checks\<close>

definition MaxNameLength :: nat where "MaxNameLength = 140"
definition MaxIdentityLength :: nat where "MaxIdentityLength = 140"
definition MaxWebsiteLength :: nat where "MaxWebsiteLength = 140"
definition MaxSecurityContactLength :: nat where "MaxSecurityContactLength = 140"
definition MaxDetailsLength :: nat where "MaxDetailsLength = 280"
definition BLSVerificationStr :: string where "BLSVerificationStr = ''zennittians''"
definition TenThousand :: int where "TenThousand = 10000"
definition MaxBLSPerValidator :: nat where "MaxBLSPerValidator = 106"
definition Itc :: int where "Itc = 10 ^ 18"
definition minimumStake :: int where "minimumStake = Itc * TenThousand"
definition hundredPercent :: Dec where "hundredPercent = NewDec 1"
definition zeroPercent :: Dec where "zeroPercent = NewDec 0"

definition deref :: "'a option \<Rightarrow> 'a go" where
  "deref p = (case p of None \<Rightarrow> Inl (Panic ''nil pointer'') | Some x \<Rightarrow> Inr x)"

definition EnsureLength :: "Description \<Rightarrow> Description go" where
  "EnsureLength d =
     (if length (Name d) > MaxNameLength then Inl (Error ''exceed maximum name length'')
      else if length (Identity d) > MaxIdentityLength then Inl (Error ''exceed Maximum Length identity'')
      else if length (Website d) > MaxWebsiteLength then Inl (Error ''exceed Maximum Length website'')
      else if length (SecurityContact d) > MaxSecurityContactLength then Inl (Error ''exceed Maximum Length'')
      else if length (Details d) > MaxDetailsLength then Inl (Error ''exceed Maximum Length for details'')
      else Inr d)"

definition UpdateDescription :: "Description \<Rightarrow> Description \<Rightarrow> Description go" where
  "UpdateDescription d1 d2 =
     (let newDesc = d1;
          newDesc = (if Name d2 \<noteq> [] then newDesc\<lparr>Name := Name d2\<rparr> else newDesc);
          newDesc = (if Identity d2 \<noteq> [] then newDesc\<lparr>Identity := Identity d2\<rparr> else newDesc);
          newDesc = (if Website d2 \<noteq> [] then newDesc\<lparr>Website := Website d2\<rparr> else newDesc);
          newDesc = (if SecurityContact d2 \<noteq> [] then newDesc\<lparr>SecurityContact := SecurityContact d2\<rparr> else newDesc);
          newDesc = (if Details d2 \<noteq> [] then newDesc\<lparr>Details := Details d2\<rparr> else newDesc)
      in EnsureLength newDesc)"

definition check_percent :: "Dec option \<Rightarrow> unit go" where
  "check_percent r =
     go_bind (deref r) (\<lambda>x. if LT x zeroPercent \<or> GT x hundredPercent
                            then Inl (Error ''errInvalidCommissionRate'') else Inr ())"

definition check_rate_order :: "Dec option \<Rightarrow> Dec option \<Rightarrow> unit go" where
  "check_rate_order r m =
     go_bind (deref r) (\<lambda>x. go_bind (deref m) (\<lambda>y.
       if GT x y then Inl (Error ''errCommissionRateTooLarge'') else Inr ()))"

fun check_duplicates :: "SerializedPublicKey list \<Rightarrow> SerializedPublicKey list \<Rightarrow> unit go" where
  "check_duplicates allKeys [] = Inr ()"
| "check_duplicates allKeys (k # ks) =
     (if k \<notin> set allKeys then check_duplicates (k # allKeys) ks
      else Inl (Error ''errDuplicateSlotKeys''))"

definition Validator_SanityCheck :: "Validator \<Rightarrow> unit go" where
  "Validator_SanityCheck v =
     go_bind (EnsureLength (vDescription v)) (\<lambda>_.
     if length (SlotPubKeys v) = 0 then Inl (Error ''errNeedAtLeastOneSlotKey'')
     else if length (SlotPubKeys v) > MaxBLSPerValidator then Inl (Error ''ErrExcessiveBLSKeys'')
     else
       (case MinSelfDelegation v of
          None \<Rightarrow> Inl (Error ''errNilMinSelfDelegation'')
        | Some minSelf \<Rightarrow>
            (case MaxTotalDelegation v of
               None \<Rightarrow> Inl (Error ''errNilMaxTotalDelegation'')
             | Some maxTotal \<Rightarrow>
                 if minSelf < minimumStake then Inl (Error ''errMinSelfDelegationTooSmall'')
                 else if maxTotal < minSelf then Inl (Error ''errInvalidMaxTotalDelegation'')
                 else
                   go_bind (check_percent (Rate (Rates (vCommission v)))) (\<lambda>_.
                   go_bind (check_percent (MaxRate (Rates (vCommission v)))) (\<lambda>_.
                   go_bind (check_percent (MaxChangeRate (Rates (vCommission v)))) (\<lambda>_.
                   go_bind (check_rate_order (Rate (Rates (vCommission v))) (MaxRate (Rates (vCommission v)))) (\<lambda>_.
                   go_bind (check_rate_order (MaxChangeRate (Rates (vCommission v))) (MaxRate (Rates (vCommission v)))) (\<lambda>_.
                   check_duplicates [] (SlotPubKeys v)))))))))"

definition TotalDelegation :: "ValidatorWrapper \<Rightarrow> int" where
  "TotalDelegation w = fold (\<lambda>entry total. total + Amount entry) (Delegations w) 0"

definition SanityCheck :: "ValidatorWrapper \<Rightarrow> unit go" where
  "SanityCheck w =
     go_bind (Validator_SanityCheck (theValidator w)) (\<lambda>_.
     go_bind (deref (MinSelfDelegation (theValidator w))) (\<lambda>minSelf.
     go_bind (case Delegations w of
                [] \<Rightarrow> Inl (Error ''ErrInvalidSelfDelegation'')
              | d # _ \<Rightarrow>
                  if Status (theValidator w) \<noteq> Banned \<and> Amount d < minSelf
                  then (if Status (theValidator w) = Active
                        then Inl (Error ''ErrInvalidSelfDelegation'') else Inr ())
                  else Inr ())
       (\<lambda>_. go_bind (deref (MaxTotalDelegation (theValidator w))) (\<lambda>maxTotal.
          if TotalDelegation w > maxTotal then Inl (Error ''errInvalidTotalDelegation'') else Inr ()))))"

section \<open>Stake per slot\<close>

definition count_limited :: "int \<Rightarrow> nat \<Rightarrow> SerializedPublicKey list \<Rightarrow> (int list \<times> int) go" where
  "count_limited slotsLim shardCount keys =
     go_fold (\<lambda>(shardSlotsCount, limited) pubkey.
         if shardCount = 0 then Inl (Panic ''division by zero'')
         else
           (let shardIndex = nat (uint pubkey mod int shardCount);
                shardSlotsCount = shardSlotsCount[shardIndex := shardSlotsCount ! shardIndex + 1]
            in if shardSlotsCount ! shardIndex > slotsLim then Inr (shardSlotsCount, limited)
               else Inr (shardSlotsCount, limited + 1)))
       (replicate shardCount 0, 0) keys"

definition RawStakePerSlot :: "(int \<Rightarrow> 'pk Instance) \<Rightarrow> ValidatorSnapshot \<Rightarrow> Dec go" where
  "RawStakePerSlot instanceForEpoch snapshot =
     (let wrapper = snapValidator snapshot;
          inst = instanceForEpoch (snapEpoch snapshot);
          keys = SlotPubKeys (theValidator wrapper)
      in if slotsLimit inst > 0
         then go_bind (count_limited (slotsLimit inst) (unat (numShards inst)) keys)
                (\<lambda>(_, limited). QuoInt64 (NewDecFromBigInt (TotalDelegation wrapper)) limited)
         else if length keys > 0
         then QuoInt64 (NewDecFromBigInt (TotalDelegation wrapper)) (int (length keys))
         else Inr ZeroDec)"

section \<open>BLS keys\<close>

record ('pk, 'sig) bls_lib =
  BytesToBLSPublicKey :: "SerializedPublicKey \<Rightarrow> 'pk go"
  Sign_Deserialize :: "SerializedSignature \<Rightarrow> 'sig go"
  VerifyHash :: "'sig \<Rightarrow> 'pk \<Rightarrow> Hash \<Rightarrow> bool"
  Keccak256 :: "string \<Rightarrow> Hash"

definition hex_digit :: "nat \<Rightarrow> char" where
  "hex_digit n = ''0123456789abcdef'' ! n"

definition Hex :: "SerializedPublicKey \<Rightarrow> string" where
  "Hex pk = concat (map (\<lambda>b. [hex_digit (unat b div 16), hex_digit (unat b mod 16)]) (bytes_be 48 pk))"

text \<open>A nil signature has the static length of its array type, and panics when it is sliced.\<close>

definition VerifyBLSKey ::
  "('pk, 'sig) bls_lib \<Rightarrow> SerializedPublicKey \<Rightarrow> SerializedSignature option \<Rightarrow> unit go" where
  "VerifyBLSKey lib pubKey pubKeySig =
     (if BLSSignatureSizeInBytes = 0 then Inl (Error ''errBLSKeysNotMatchSigs'')
      else
        (case BytesToBLSPublicKey lib pubKey of
           Inl (Error _) \<Rightarrow> Inl (Error ''errBLSKeysNotMatchSigs'')
         | Inl p \<Rightarrow> Inl p
         | Inr blsPubKey \<Rightarrow>
             go_bind (deref pubKeySig) (\<lambda>sig.
             go_bind (Sign_Deserialize lib sig) (\<lambda>msgSig.
             if \<not> VerifyHash lib msgSig blsPubKey (Keccak256 lib BLSVerificationStr)
             then Inl (Error ''errBLSKeysNotMatchSigs'') else Inr ()))))"

definition VerifyBLSKeys ::
  "('pk, 'sig) bls_lib \<Rightarrow> SerializedPublicKey list \<Rightarrow> SerializedSignature list \<Rightarrow> unit go" where
  "VerifyBLSKeys lib pubKeys pubKeySigs =
     (if length pubKeys \<noteq> length pubKeySigs then Inl (Error ''errBLSKeysNotMatchSigs'')
      else go_fold (\<lambda>_ (k, s). VerifyBLSKey lib k (Some s)) () (zip pubKeys pubKeySigs))"

definition matchesIntelchainBLSKey :: "SerializedPublicKey \<Rightarrow> DeployAccount list \<Rightarrow> unit go" where
  "matchesIntelchainBLSKey blsKey accounts =
     (if Hex blsKey \<in> set (map daBLSPublicKey accounts) then Inl (Error ''errDuplicateSlotKeys'') else Inr ())"

definition containsIntelchainBLSKeys :: "SerializedPublicKey list \<Rightarrow> DeployAccount list \<Rightarrow> unit go" where
  "containsIntelchainBLSKeys blsKeys accounts =
     go_fold (\<lambda>_ k. matchesIntelchainBLSKey k accounts) () blsKeys"

section \<open>Validators from messages\<close>

definition CreateValidatorFromNewMsg ::
  "('pk, 'sig) bls_lib \<Rightarrow> (int \<Rightarrow> 'pk Instance) \<Rightarrow> CreateValidator \<Rightarrow> int \<Rightarrow> int \<Rightarrow> Validator go" where
  "CreateValidatorFromNewMsg lib instanceForEpoch val blockNum epoch =
     go_bind (EnsureLength (cvDescription val)) (\<lambda>desc.
     let commission = \<lparr>Rates = cvCommissionRates val, UpdateHeight = blockNum\<rparr>;
         pubKeys = cvSlotPubKeys val
     in go_bind (containsIntelchainBLSKeys pubKeys (itcAccounts (instanceForEpoch epoch))) (\<lambda>_.
        go_bind (VerifyBLSKeys lib pubKeys (cvSlotKeySigs val)) (\<lambda>_.
        Inr \<lparr>vAddress = cvValidatorAddress val, SlotPubKeys = pubKeys, LastEpochInCommittee = 0,
             MinSelfDelegation = cvMinSelfDelegation val, MaxTotalDelegation = cvMaxTotalDelegation val,
             Status = Active, vCommission = commission, vDescription = desc, CreationHeight = blockNum\<rparr>)))"

definition edit_remove_key :: "Validator \<Rightarrow> EditValidator \<Rightarrow> Validator go" where
  "edit_remove_key v edit =
     (case SlotKeyToRemove edit of
        None \<Rightarrow> Inr v
      | Some key \<Rightarrow> if key \<in> set (SlotPubKeys v) then Inr (v\<lparr>SlotPubKeys := remove1 key (SlotPubKeys v)\<rparr>)
                    else Inl (Error ''errSlotKeyToRemoveNotFound''))"

definition edit_add_key ::
  "('pk, 'sig) bls_lib \<Rightarrow> 'pk Instance \<Rightarrow> Validator \<Rightarrow> EditValidator \<Rightarrow> Validator go" where
  "edit_add_key lib inst v edit =
     (case SlotKeyToAdd edit of
        None \<Rightarrow> Inr v
      | Some key \<Rightarrow>
          if key \<notin> set (SlotPubKeys v)
          then go_bind (matchesIntelchainBLSKey key (itcAccounts inst)) (\<lambda>_.
               go_bind (VerifyBLSKey lib key (SlotKeyToAddSig edit)) (\<lambda>_.
               Inr (v\<lparr>SlotPubKeys := SlotPubKeys v @ [key]\<rparr>)))
          else Inl (Error ''errSlotKeyToAddExists''))"

definition edit_status :: "Validator \<Rightarrow> EditValidator \<Rightarrow> Validator go" where
  "edit_status v edit =
     (if Status v = Banned then Inl (Error ''errCannotChangeBannedTrait'')
      else (case EPOSStatus edit of
              Active \<Rightarrow> Inr (v\<lparr>Status := EPOSStatus edit\<rparr>)
            | Inactive \<Rightarrow> Inr (v\<lparr>Status := EPOSStatus edit\<rparr>)
            | _ \<Rightarrow> Inr v))"

definition set_rate :: "Dec option \<Rightarrow> Validator \<Rightarrow> Validator" where
  "set_rate r v = v\<lparr>vCommission := (vCommission v)\<lparr>Rates := (Rates (vCommission v))\<lparr>Rate := r\<rparr>\<rparr>\<rparr>"

definition UpdateValidatorFromEditMsg ::
  "('pk, 'sig) bls_lib \<Rightarrow> (int \<Rightarrow> 'pk Instance) \<Rightarrow> Validator \<Rightarrow> EditValidator \<Rightarrow> int \<Rightarrow> Validator go" where
  "UpdateValidatorFromEditMsg lib instanceForEpoch v edit epoch =
     (if vAddress v \<noteq> evValidatorAddress edit then Inl (Error ''errAddressNotMatch'')
      else
        go_bind (UpdateDescription (vDescription v) (evDescription edit)) (\<lambda>desc.
        let v = v\<lparr>vDescription := desc\<rparr>;
            v = (case CommissionRate edit of Some r \<Rightarrow> set_rate r v | None \<Rightarrow> v);
            v = (case evMinSelfDelegation edit of
                   Some m \<Rightarrow> if sgn m \<noteq> 0 then v\<lparr>MinSelfDelegation := Some m\<rparr> else v | None \<Rightarrow> v);
            v = (case evMaxTotalDelegation edit of
                   Some m \<Rightarrow> if sgn m \<noteq> 0 then v\<lparr>MaxTotalDelegation := Some m\<rparr> else v | None \<Rightarrow> v)
        in go_bind (edit_remove_key v edit) (\<lambda>v.
           go_bind (edit_add_key lib (instanceForEpoch epoch) v edit) (\<lambda>v.
           edit_status v edit))))"

section \<open>What the sanity checks accept\<close>

lemma deref_simps [simp]: "deref (Some x) = Inr x" "deref None = Inl (Panic ''nil pointer'')"
  by (simp_all add: deref_def)

lemma deref_eq_Inr [simp]: "deref p = Inr x \<longleftrightarrow> p = Some x"
  by (cases p) simp_all

definition short_description :: "Description \<Rightarrow> bool" where
  "short_description d \<longleftrightarrow> length (Name d) \<le> 140 \<and> length (Identity d) \<le> 140 \<and> length (Website d) \<le> 140
     \<and> length (SecurityContact d) \<le> 140 \<and> length (Details d) \<le> 280"

definition fair_rates :: "CommissionRates \<Rightarrow> bool" where
  "fair_rates r \<longleftrightarrow> (\<exists>x m ch. Rate r = Some x \<and> MaxRate r = Some m \<and> MaxChangeRate r = Some ch
     \<and> 0 \<le> x \<and> x \<le> m \<and> 0 \<le> ch \<and> ch \<le> m \<and> m \<le> OneDec)"

definition valid_validator :: "Validator \<Rightarrow> bool" where
  "valid_validator v \<longleftrightarrow>
     short_description (vDescription v)
     \<and> SlotPubKeys v \<noteq> [] \<and> length (SlotPubKeys v) \<le> 106 \<and> distinct (SlotPubKeys v)
     \<and> (\<exists>minSelf maxTotal. MinSelfDelegation v = Some minSelf \<and> MaxTotalDelegation v = Some maxTotal
          \<and> minimumStake \<le> minSelf \<and> minSelf \<le> maxTotal)
     \<and> fair_rates (Rates (vCommission v))"

definition enough_self_delegation :: "ValidatorWrapper \<Rightarrow> bool" where
  "enough_self_delegation w \<longleftrightarrow>
     Delegations w \<noteq> []
     \<and> (Status (theValidator w) = Active \<longrightarrow>
          the (MinSelfDelegation (theValidator w)) \<le> Amount (hd (Delegations w)))"

definition valid_wrapper :: "ValidatorWrapper \<Rightarrow> bool" where
  "valid_wrapper w \<longleftrightarrow> valid_validator (theValidator w) \<and> enough_self_delegation w
     \<and> TotalDelegation w \<le> the (MaxTotalDelegation (theValidator w))"

lemma EnsureLength_eq_Inr: "EnsureLength d = Inr d' \<longleftrightarrow> d' = d \<and> short_description d"
  by (auto simp: EnsureLength_def short_description_def MaxNameLength_def MaxIdentityLength_def
      MaxWebsiteLength_def MaxSecurityContactLength_def MaxDetailsLength_def)

lemma check_duplicates_eq_Inr:
  "check_duplicates seen ks = Inr u \<longleftrightarrow> distinct ks \<and> set ks \<inter> set seen = {}"
  by (induction ks arbitrary: seen) auto

lemma check_percent_eq_Inr:
  "check_percent r = Inr u \<longleftrightarrow> (\<exists>x. r = Some x \<and> 0 \<le> x \<and> x \<le> OneDec)"
  by (cases r) (auto simp: check_percent_def dec_preds zeroPercent_def hundredPercent_def dec_consts)

lemma check_rate_order_eq_Inr:
  "check_rate_order r m = Inr u \<longleftrightarrow> (\<exists>x y. r = Some x \<and> m = Some y \<and> x \<le> y)"
  by (cases r; cases m) (auto simp: check_rate_order_def dec_preds)

lemma rate_checks_eq:
  "fair_rates r \<longleftrightarrow>
     check_percent (Rate r) = Inr () \<and> check_percent (MaxRate r) = Inr () \<and> check_percent (MaxChangeRate r) = Inr ()
     \<and> check_rate_order (Rate r) (MaxRate r) = Inr () \<and> check_rate_order (MaxChangeRate r) (MaxRate r) = Inr ()"
  unfolding check_percent_eq_Inr check_rate_order_eq_Inr fair_rates_def by fastforce

lemma Validator_SanityCheck_iff: "Validator_SanityCheck v = Inr u \<longleftrightarrow> valid_validator v"
  by (auto simp: Validator_SanityCheck_def valid_validator_def EnsureLength_eq_Inr rate_checks_eq
      check_duplicates_eq_Inr MaxBLSPerValidator_def not_less split: option.splits)

lemma valid_validator_limits:
  assumes "valid_validator v"
  obtains minSelf maxTotal where "MinSelfDelegation v = Some minSelf" "MaxTotalDelegation v = Some maxTotal"
    "minimumStake \<le> minSelf" "minSelf \<le> maxTotal"
  using assms by (auto simp: valid_validator_def)

lemma TotalDelegation_sum: "TotalDelegation w = sum_list (map Amount (Delegations w))"
proof -
  have "fold (\<lambda>entry total. total + Amount entry) ds t = t + sum_list (map Amount ds)"
    for ds :: "Delegation list" and t
    by (induction ds arbitrary: t) simp_all
  then show ?thesis by (simp add: TotalDelegation_def)
qed

text \<open>The three outcomes of the wrapper's own checks once the validator itself is sound.\<close>

lemma SanityCheck_sound_validator:
  assumes "valid_validator (theValidator w)"
  shows "SanityCheck w =
    (if \<not> enough_self_delegation w then Inl (Error ''ErrInvalidSelfDelegation'')
     else if TotalDelegation w > the (MaxTotalDelegation (theValidator w))
     then Inl (Error ''errInvalidTotalDelegation'') else Inr ())"
proof -
  obtain minSelf maxTotal where "MinSelfDelegation (theValidator w) = Some minSelf"
    "MaxTotalDelegation (theValidator w) = Some maxTotal"
    using valid_validator_limits [OF assms] by metis
  moreover have "Validator_SanityCheck (theValidator w) = Inr ()"
    using assms by (simp add: Validator_SanityCheck_iff)
  ultimately show ?thesis
    by (auto simp: SanityCheck_def enough_self_delegation_def not_less split: list.splits)
qed

lemma SanityCheck_iff: "SanityCheck w = Inr u \<longleftrightarrow> valid_wrapper w"
proof (cases "valid_validator (theValidator w)")
  case True
  then show ?thesis by (auto simp: SanityCheck_sound_validator valid_wrapper_def)
next
  case False
  then show ?thesis
    using Validator_SanityCheck_iff [of "theValidator w"] by (simp add: SanityCheck_def valid_wrapper_def)
qed

lemma Validator_SanityCheck_not_self:
  "Validator_SanityCheck v \<noteq> Inl (Error ''ErrInvalidSelfDelegation'')"
proof -
  have d: "check_duplicates seen ks \<noteq> Inl (Error ''ErrInvalidSelfDelegation'')" for seen ks
    by (induction ks arbitrary: seen) auto
  have p: "check_percent r \<noteq> Inl (Error ''ErrInvalidSelfDelegation'')" for r
    by (cases r) (auto simp: check_percent_def)
  have o: "check_rate_order r m \<noteq> Inl (Error ''ErrInvalidSelfDelegation'')" for r m
    by (cases r; cases m) (auto simp: check_rate_order_def)
  have l: "EnsureLength d \<noteq> Inl (Error ''ErrInvalidSelfDelegation'')" for d
    by (auto simp: EnsureLength_def)
  show ?thesis
    using d p o l by (auto simp: Validator_SanityCheck_def go_bind_eq_Inl split: option.splits)
qed

text \<open>The error the verifiers forgive means exactly that the self delegation is too small.\<close>

lemma SanityCheck_self_iff:
  "SanityCheck w = Inl (Error ''ErrInvalidSelfDelegation'') \<longleftrightarrow>
     valid_validator (theValidator w) \<and> \<not> enough_self_delegation w"
proof (cases "valid_validator (theValidator w)")
  case True
  then show ?thesis by (auto simp: SanityCheck_sound_validator)
next
  case False
  then have "Validator_SanityCheck (theValidator w) \<noteq> Inr u" for u by (simp add: Validator_SanityCheck_iff)
  then show ?thesis
    using False Validator_SanityCheck_not_self [of "theValidator w"] by (auto simp: SanityCheck_def go_bind_eq_Inl)
qed

text \<open>
  The sanity check of a wrapper accepts exactly the wrappers whose description is short enough,
  with 1 to 106 distinct keys, a minimum self delegation of at least 10,000 ITC not above the
  maximum total, commission rates between 0 and 1 with the rate and the change rate at most the
  maximum rate, a self delegation that covers the minimum while the validator is active, and a total
  delegation within its maximum. The error that marks a too small self delegation is returned exactly
  when everything about the validator itself is in order.
\<close>

theorem SanityCheck_correct:
  "(SanityCheck w = Inr () \<longleftrightarrow> valid_wrapper w)
   \<and> (SanityCheck w = Inl (Error ''ErrInvalidSelfDelegation'') \<longleftrightarrow>
        valid_validator (theValidator w) \<and> \<not> enough_self_delegation w)"
  by (simp add: SanityCheck_iff SanityCheck_self_iff)

section \<open>The number of slots that count\<close>

definition on_shard :: "nat \<Rightarrow> nat \<Rightarrow> SerializedPublicKey list \<Rightarrow> nat" where
  "on_shard n s keys = length (filter (\<lambda>k. nat (uint k mod int n) = s) keys)"

lemma on_shard_simps [simp]:
  "on_shard n s [] = 0"
  "on_shard n s (keys @ [k]) = on_shard n s keys + (if nat (uint k mod int n) = s then 1 else 0)"
  by (simp_all add: on_shard_def)

lemma count_limited_eq:
  assumes n: "0 < n" and lim: "0 \<le> lim"
  shows "count_limited lim n keys =
    Inr (map (\<lambda>s. int (on_shard n s keys)) [0..<n], \<Sum>s<n. min lim (int (on_shard n s keys)))"
proof (induction keys rule: rev_induct)
  case Nil
  have "map (\<lambda>s. 0) [0..<n] = replicate n (0::int)" by (simp add: map_replicate_const)
  then show ?case using lim by (simp add: count_limited_def)
next
  case (snoc k keys)
  define i where "i = nat (uint k mod int n)"
  have i: "i < n" using n by (simp add: i_def nat_less_iff)
  let ?c = "\<lambda>ks. map (\<lambda>s. int (on_shard n s ks)) [0..<n]"
  have c: "(?c keys)[i := ?c keys ! i + 1] = ?c (keys @ [k])"
    using i by (intro nth_equalityI) (auto simp: nth_list_update i_def)
  have "(\<Sum>s<n. min lim (int (on_shard n s (keys @ [k]))))
      = (\<Sum>s<n. min lim (int (on_shard n s keys)) + (if s = i \<and> int (on_shard n i keys) < lim then 1 else 0))"
    using lim by (intro sum.cong refl) (auto simp: i_def)
  also have "\<dots> = (\<Sum>s<n. min lim (int (on_shard n s keys))) + (if int (on_shard n i keys) < lim then 1 else 0)"
    using i by (simp add: sum.distrib)
  finally have total: "(\<Sum>s<n. min lim (int (on_shard n s (keys @ [k]))))
      = (\<Sum>s<n. min lim (int (on_shard n s keys))) + (if int (on_shard n i keys) < lim then 1 else 0)" .
  have step: "count_limited lim n (keys @ [k]) =
      (if ?c (keys @ [k]) ! i > lim then Inr (?c (keys @ [k]), \<Sum>s<n. min lim (int (on_shard n s keys)))
       else Inr (?c (keys @ [k]), (\<Sum>s<n. min lim (int (on_shard n s keys))) + 1))"
    using snoc.IH n by (simp add: count_limited_def go_fold_append Let_def i_def [symmetric] c)
  have "?c (keys @ [k]) ! i = int (on_shard n i keys) + 1" using i by (simp add: i_def)
  then show ?case unfolding step total by (simp del: on_shard_simps)
qed

text \<open>
  Under a per-shard limit on slots the stake behind one slot is the total delegation divided by
  the number of keys that count: on every shard at most the limit. The division panics exactly when
  no key counts.
\<close>

theorem RawStakePerSlot_limited:
  assumes "0 < slotsLimit (inst (snapEpoch s))" and "0 < numShards (inst (snapEpoch s))"
  shows "RawStakePerSlot inst s =
    QuoInt64 (NewDecFromBigInt (sum_list (map Amount (Delegations (snapValidator s)))))
      (\<Sum>i<unat (numShards (inst (snapEpoch s))).
         min (slotsLimit (inst (snapEpoch s)))
           (int (on_shard (unat (numShards (inst (snapEpoch s)))) i (SlotPubKeys (theValidator (snapValidator s))))))"
  using assms
  by (simp add: RawStakePerSlot_def Let_def count_limited_eq unat_gt_0 word_gt_0 TotalDelegation_sum)

definition sample_rates :: CommissionRates where
  "sample_rates = \<lparr>Rate = Some 50000000000000000, MaxRate = Some 200000000000000000,
                   MaxChangeRate = Some 10000000000000000\<rparr>"

definition sample_description :: Description where
  "sample_description = \<lparr>Name = ''node'', Identity = ''id'', Website = [], SecurityContact = [], Details = []\<rparr>"

definition sample_validator :: Validator where
  "sample_validator = \<lparr>vAddress = 9, SlotPubKeys = [4, 6, 8, 5], LastEpochInCommittee = 0,
     MinSelfDelegation = Some minimumStake, MaxTotalDelegation = Some (3 * minimumStake), Status = Active,
     vCommission = \<lparr>Rates = sample_rates, UpdateHeight = 1\<rparr>, vDescription = sample_description, CreationHeight = 1\<rparr>"

definition sample_wrapper :: ValidatorWrapper where
  "sample_wrapper = \<lparr>theValidator = sample_validator,
     Delegations = [NewDelegation 9 (2 * minimumStake), sample_delegation],
     Counters = \<lparr>NumBlocksToSign = 0, NumBlocksSigned = 0\<rparr>, BlockReward = 0\<rparr>"

lemma minimumStake_pos: "0 < minimumStake" "100 \<le> minimumStake"
  by (simp_all add: minimumStake_def Itc_def TenThousand_def)

lemma sample_wrapper_valid: "valid_wrapper sample_wrapper"
  using minimumStake_pos
  by (simp add: valid_wrapper_def valid_validator_def sample_wrapper_def sample_validator_def
      sample_rates_def sample_description_def short_description_def fair_rates_def
      enough_self_delegation_def TotalDelegation_sum NewDelegation_def sample_delegation_def
      OneDec_def precisionReuse_def)

definition sample_instance :: "unit Instance" where
  "sample_instance = \<lparr>numShards = 2, numNodesPerShard = 10, numIntelchainOperatedNodesPerShard = 0,
     intelchainVotePercent = 0, externalVotePercent = OneDec, itcAccounts = [], fnAccounts = [],
     reshardingEpoch = [], blocksPerEpoch = 16, slotsLimit = 2,
     allowlist = \<lparr>MaxLimitPerShard = 0, alBLSPublicKeys = []\<rparr>, feeCollectors = [], emissionFraction = 0,
     recoveryAddress = 0\<rparr>"

theorem RawStakePerSlot_limited_witness:
  "0 < slotsLimit sample_instance \<and> 0 < numShards sample_instance
   \<and> RawStakePerSlot (\<lambda>_. sample_instance) \<lparr>snapValidator = sample_wrapper, snapEpoch = 5\<rparr>
     = QuoInt64 (NewDecFromBigInt (2 * minimumStake + 100)) 3"
proof -
  have l: "0 < slotsLimit sample_instance" "0 < numShards sample_instance"
    by (simp_all add: sample_instance_def)
  have "{..<2::nat} = {0, 1}" by auto
  then show ?thesis
    using l RawStakePerSlot_limited [of "\<lambda>_. sample_instance" "\<lparr>snapValidator = sample_wrapper, snapEpoch = 5\<rparr>"]
    by (simp add: sample_instance_def sample_wrapper_def sample_validator_def NewDelegation_def
        sample_delegation_def on_shard_def)
qed

section \<open>Editing a validator\<close>

lemma VerifyBLSKey_ok:
  "VerifyBLSKey lib k sig = Inr u \<Longrightarrow>
     \<exists>pk s t. BytesToBLSPublicKey lib k = Inr pk \<and> sig = Some s \<and> Sign_Deserialize lib s = Inr t
       \<and> VerifyHash lib t pk (Keccak256 lib BLSVerificationStr)"
  by (auto simp: VerifyBLSKey_def split: sum.splits fault.splits if_splits)

lemma edit_remove_key_ok:
  assumes "edit_remove_key v e = Inr v'"
  shows "Status v' = Status v" "vAddress v' = vAddress v" "vDescription v' = vDescription v"
    "vCommission v' = vCommission v"
    "SlotPubKeys v' = (case SlotKeyToRemove e of None \<Rightarrow> SlotPubKeys v | Some k \<Rightarrow> remove1 k (SlotPubKeys v))"
  using assms by (auto simp: edit_remove_key_def split: option.splits if_splits)

lemma edit_add_key_ok:
  assumes "edit_add_key lib inst v e = Inr v'"
  shows "Status v' = Status v" "vAddress v' = vAddress v" "vDescription v' = vDescription v"
    "vCommission v' = vCommission v"
    "SlotPubKeys v' = SlotPubKeys v @ (case SlotKeyToAdd e of None \<Rightarrow> [] | Some k \<Rightarrow> [k])"
    "SlotKeyToAdd e = Some k \<Longrightarrow> k \<notin> set (SlotPubKeys v) \<and> Hex k \<notin> set (map daBLSPublicKey (itcAccounts inst))
       \<and> VerifyBLSKey lib k (SlotKeyToAddSig e) = Inr ()"
  using assms
  by (auto simp: edit_add_key_def matchesIntelchainBLSKey_def split: option.splits if_splits)

lemma edit_status_ok:
  assumes "edit_status v e = Inr v'"
  shows "Status v \<noteq> Banned" "Status v' = (if EPOSStatus e \<in> {Active, Inactive} then EPOSStatus e else Status v)"
    "vAddress v' = vAddress v" "SlotPubKeys v' = SlotPubKeys v" "vDescription v' = vDescription v"
    "vCommission v' = vCommission v"
  using assms by (auto simp: edit_status_def split: if_splits Eligibility.splits)

text \<open>The edits made before the keys are touched.\<close>

definition edit_fields :: "Validator \<Rightarrow> EditValidator \<Rightarrow> Description \<Rightarrow> Validator" where
  "edit_fields v edit desc =
     (let v = v\<lparr>vDescription := desc\<rparr>;
          v = (case CommissionRate edit of Some r \<Rightarrow> set_rate r v | None \<Rightarrow> v);
          v = (case evMinSelfDelegation edit of
                 Some m \<Rightarrow> if sgn m \<noteq> 0 then v\<lparr>MinSelfDelegation := Some m\<rparr> else v | None \<Rightarrow> v)
      in (case evMaxTotalDelegation edit of
            Some m \<Rightarrow> if sgn m \<noteq> 0 then v\<lparr>MaxTotalDelegation := Some m\<rparr> else v | None \<Rightarrow> v))"

lemma edit_fields_keep [simp]:
  "SlotPubKeys (edit_fields v e d) = SlotPubKeys v" "Status (edit_fields v e d) = Status v"
  "vAddress (edit_fields v e d) = vAddress v" "vDescription (edit_fields v e d) = d"
  by (simp_all add: edit_fields_def Let_def set_rate_def split: option.split)

lemma UpdateValidatorFromEditMsg_steps:
  assumes "UpdateValidatorFromEditMsg lib inst v e epoch = Inr v'"
  obtains d v1 v2 where "vAddress v = evValidatorAddress e"
    "UpdateDescription (vDescription v) (evDescription e) = Inr d"
    "edit_remove_key (edit_fields v e d) e = Inr v1" "edit_add_key lib (inst epoch) v1 e = Inr v2"
    "edit_status v2 e = Inr v'"
  using assms by (auto simp: UpdateValidatorFromEditMsg_def edit_fields_def Let_def split: if_splits)

lemma UpdateValidatorFromEditMsg_ok:
  assumes "UpdateValidatorFromEditMsg lib inst v e epoch = Inr v'"
  shows "Status v \<noteq> Banned" "Status v' \<noteq> Banned" "vAddress v' = vAddress v"
    "short_description (vDescription v')"
    "distinct (SlotPubKeys v) \<Longrightarrow> distinct (SlotPubKeys v')"
    "distinct (SlotPubKeys v) \<Longrightarrow>
       set (SlotPubKeys v') = set (SlotPubKeys v) - set_option (SlotKeyToRemove e) \<union> set_option (SlotKeyToAdd e)"
    "SlotKeyToAdd e = Some k \<Longrightarrow> Hex k \<notin> set (map daBLSPublicKey (itcAccounts (inst epoch)))
       \<and> VerifyBLSKey lib k (SlotKeyToAddSig e) = Inr ()"
proof -
  obtain d v1 v2 where s: "UpdateDescription (vDescription v) (evDescription e) = Inr d"
    "edit_remove_key (edit_fields v e d) e = Inr v1" "edit_add_key lib (inst epoch) v1 e = Inr v2"
    "edit_status v2 e = Inr v'"
    using UpdateValidatorFromEditMsg_steps [OF assms] by metis
  note r = edit_remove_key_ok [OF s(2)] and a = edit_add_key_ok [OF s(3)] and t = edit_status_ok [OF s(4)]
  have st: "Status v2 = Status v" using r(1) a(1) by simp
  show "Status v \<noteq> Banned" using t(1) st by simp
  show "Status v' \<noteq> Banned" using t(1,2) by auto
  show "vAddress v' = vAddress v" using r(2) a(2) t(3) by simp
  have "short_description d" using s(1) by (auto simp: UpdateDescription_def Let_def EnsureLength_eq_Inr)
  then show "short_description (vDescription v')" using r(3) a(3) t(5) by simp
  show "distinct (SlotPubKeys v) \<Longrightarrow> distinct (SlotPubKeys v')"
    using r(5) a(5) t(4) a(6) by (auto split: option.splits)
  show "distinct (SlotPubKeys v) \<Longrightarrow>
       set (SlotPubKeys v') = set (SlotPubKeys v) - set_option (SlotKeyToRemove e) \<union> set_option (SlotKeyToAdd e)"
    using r(5) a(5) t(4) by (auto split: option.splits)
  show "SlotKeyToAdd e = Some k \<Longrightarrow> Hex k \<notin> set (map daBLSPublicKey (itcAccounts (inst epoch)))
       \<and> VerifyBLSKey lib k (SlotKeyToAddSig e) = Inr ()" using a(6) by simp
qed

end
