(* ===== verification/StateDB.thy ===== *)
theory StateDB
  imports Validators
begin

text \<open>
  The account state of \<open>core/state\<close>: state objects over a trie (\<open>state_object.go\<close>), the database of
  live objects (\<open>statedb.go\<close>), the journal of reversible changes (\<open>journal.go\<close>), the access list and
  the transient storage. Tries, snapshots and code storage are the parameter \<open>backend\<close>, which answers
  reads without failing; the error memo \<open>dbErr\<close>, the debugging-only fake storage and the
  prefetcher are left out, as are the commit phases that write tries.

  The state seen through the database is the record \<open>World\<close>. Every operation is shown to act on it
  as its name says, and undoing the journal entries an operation wrote gives the world it started
  from; hence reverting to a snapshot restores the world of the moment the snapshot was taken.
\<close>

named_theorems world_simps \<open>how an operation changes the visible world\<close>

type_synonym bytes = "uint8 list"
type_synonym Storage = "Hash \<rightharpoonup> Hash"

section \<open>Objects\<close>

record StateAccount =
  Nonce :: uint64
  Balance :: int
  Root :: Hash
  CodeHash :: Hash

record Object =
  address :: Address
  data :: StateAccount
  code :: "bytes option"
  originStorage :: Storage
  pendingStorage :: Storage
  dirtyStorage :: Storage
  validatorWrapper :: bool
  dirtyCode :: bool
  suicided :: bool
  deleted :: bool

text \<open>The database below the live objects: what the tries and the code store answer.\<close>

record backend =
  trieAccount :: "Address \<Rightarrow> StateAccount option"
  trieSlot :: "Address \<Rightarrow> Hash \<Rightarrow> Hash \<Rightarrow> Hash"
  ContractCode :: "Address \<Rightarrow> Hash \<Rightarrow> bytes option"
  ValidatorCode :: "Address \<Rightarrow> Hash \<Rightarrow> bytes option"
  Keccak256Hash :: "bytes \<Rightarrow> Hash"
  encodeWrapper :: "ValidatorWrapper \<Rightarrow> bytes go"
  decodeWrapper :: "bytes \<Rightarrow> ValidatorWrapper go"

definition EmptyRootHash :: Hash where
  "EmptyRootHash = 0x56e81f171bcc55a6ff8345e692c0f86e5b48e01b996cadc001622fb5e363b421"

definition EmptyCodeHash :: "backend \<Rightarrow> Hash" where
  "EmptyCodeHash B = Keccak256Hash B []"

definition newObject :: "Address \<Rightarrow> StateAccount \<Rightarrow> Object" where
  "newObject addr d =
     \<lparr>address = addr, data = (if Root d = 0 then d\<lparr>Root := EmptyRootHash\<rparr> else d), code = None,
      originStorage = Map.empty, pendingStorage = Map.empty, dirtyStorage = Map.empty,
      validatorWrapper = False, dirtyCode = False, suicided = False, deleted = False\<rparr>"

text \<open>\<open>types.StateAccount{}\<close> with the defaults \<open>newObject\<close> fills in for nil fields.\<close>

definition emptyAccount :: "backend \<Rightarrow> StateAccount" where
  "emptyAccount B = \<lparr>Nonce = 0, Balance = 0, Root = EmptyRootHash, CodeHash = EmptyCodeHash B\<rparr>"

definition Object_empty :: "backend \<Rightarrow> Object \<Rightarrow> bool" where
  "Object_empty B s \<longleftrightarrow> Nonce (data s) = 0 \<and> sgn (Balance (data s)) = 0 \<and> CodeHash (data s) = EmptyCodeHash B"

text \<open>The committed value of a slot; the flag tells whether the account was destructed in this block.\<close>

definition committed_at :: "backend \<Rightarrow> bool \<Rightarrow> Object \<Rightarrow> Hash \<Rightarrow> Hash" where
  "committed_at B destructed s key =
     (case pendingStorage s key of Some v \<Rightarrow> v
      | None \<Rightarrow> (case originStorage s key of Some v \<Rightarrow> v
                 | None \<Rightarrow> if destructed then 0 else trieSlot B (address s) (Root (data s)) key))"

definition Object_GetCommittedState :: "backend \<Rightarrow> bool \<Rightarrow> Object \<Rightarrow> Hash \<Rightarrow> Hash \<times> Object" where
  "Object_GetCommittedState B destructed s key =
     (if pendingStorage s key \<noteq> None \<or> originStorage s key \<noteq> None \<or> destructed
      then (committed_at B destructed s key, s)
      else (committed_at B destructed s key,
            s\<lparr>originStorage := (originStorage s)(key \<mapsto> trieSlot B (address s) (Root (data s)) key)\<rparr>))"

definition Object_GetState :: "backend \<Rightarrow> bool \<Rightarrow> Object \<Rightarrow> Hash \<Rightarrow> Hash \<times> Object" where
  "Object_GetState B destructed s key =
     (case dirtyStorage s key of Some v \<Rightarrow> (v, s) | None \<Rightarrow> Object_GetCommittedState B destructed s key)"

definition Object_Code :: "backend \<Rightarrow> Object \<Rightarrow> bytes option" where
  "Object_Code B s =
     (case code s of Some c \<Rightarrow> Some c
      | None \<Rightarrow>
          if CodeHash (data s) = EmptyCodeHash B then None
          else
            (let contract = (if \<not> validatorWrapper s then ContractCode B (address s) (CodeHash (data s)) else Some [])
             in if validatorWrapper s \<or> contract = None
                then (case ValidatorCode B (address s) (CodeHash (data s)) of
                        Some v \<Rightarrow> Some v | None \<Rightarrow> contract)
                else contract))"

definition Object_setCode :: "Hash \<Rightarrow> bytes option \<Rightarrow> bool \<Rightarrow> Object \<Rightarrow> Object" where
  "Object_setCode codeHash c isValidatorCode s =
     s\<lparr>code := c, data := (data s)\<lparr>CodeHash := codeHash\<rparr>, dirtyCode := True, validatorWrapper := isValidatorCode\<rparr>"

definition Object_setBalance :: "int \<Rightarrow> Object \<Rightarrow> Object" where
  "Object_setBalance amount s = s\<lparr>data := (data s)\<lparr>Balance := amount\<rparr>\<rparr>"

definition Object_setNonce :: "uint64 \<Rightarrow> Object \<Rightarrow> Object" where
  "Object_setNonce nonce s = s\<lparr>data := (data s)\<lparr>Nonce := nonce\<rparr>\<rparr>"

definition Object_setState :: "Hash \<Rightarrow> Hash \<Rightarrow> Object \<Rightarrow> Object" where
  "Object_setState key value s = s\<lparr>dirtyStorage := (dirtyStorage s)(key \<mapsto> value)\<rparr>"

definition Object_finalise :: "Object \<Rightarrow> Object" where
  "Object_finalise s = s\<lparr>pendingStorage := pendingStorage s ++ dirtyStorage s, dirtyStorage := Map.empty\<rparr>"

section \<open>Access list\<close>

record accessList =
  addresses :: "Address \<rightharpoonup> int"
  slots :: "Hash set list"

definition newAccessList :: accessList where
  "newAccessList = \<lparr>addresses = Map.empty, slots = []\<rparr>"

definition ContainsAddress :: "accessList \<Rightarrow> Address \<Rightarrow> bool" where
  "ContainsAddress al addr \<longleftrightarrow> addresses al addr \<noteq> None"

definition Contains :: "accessList \<Rightarrow> Address \<Rightarrow> Hash \<Rightarrow> (bool \<times> bool) go" where
  "Contains al addr slot =
     (case addresses al addr of
        None \<Rightarrow> Inr (False, False)
      | Some idx \<Rightarrow>
          if idx = -1 then Inr (True, False)
          else if 0 \<le> idx \<and> nat idx < length (slots al) then Inr (True, slot \<in> slots al ! nat idx)
          else Inl (Panic ''index out of range''))"

definition AddAddress :: "accessList \<Rightarrow> Address \<Rightarrow> bool \<times> accessList" where
  "AddAddress al addr =
     (if addresses al addr \<noteq> None then (False, al)
      else (True, al\<lparr>addresses := (addresses al)(addr \<mapsto> -1)\<rparr>))"

definition AddSlot :: "accessList \<Rightarrow> Address \<Rightarrow> Hash \<Rightarrow> (bool \<times> bool \<times> accessList) go" where
  "AddSlot al addr slot =
     (case addresses al addr of
        None \<Rightarrow> Inr (True, True, al\<lparr>addresses := (addresses al)(addr \<mapsto> int (length (slots al))),
                                   slots := slots al @ [{slot}]\<rparr>)
      | Some idx \<Rightarrow>
          if idx = -1
          then Inr (False, True, al\<lparr>addresses := (addresses al)(addr \<mapsto> int (length (slots al))),
                                   slots := slots al @ [{slot}]\<rparr>)
          else if \<not> (0 \<le> idx \<and> nat idx < length (slots al)) then Inl (Panic ''index out of range'')
          else if slot \<notin> slots al ! nat idx
          then Inr (False, True, al\<lparr>slots := (slots al)[nat idx := insert slot (slots al ! nat idx)]\<rparr>)
          else Inr (False, False, al))"

definition DeleteSlot :: "accessList \<Rightarrow> Address \<Rightarrow> Hash \<Rightarrow> accessList go" where
  "DeleteSlot al addr slot =
     (case addresses al addr of
        None \<Rightarrow> Inl (Panic ''reverting slot change, address not present in list'')
      | Some idx \<Rightarrow>
          if \<not> (0 \<le> idx \<and> nat idx < length (slots al)) then Inl (Panic ''index out of range'')
          else
            (let slotmap = slots al ! nat idx - {slot}
             in if slotmap = {}
                then Inr (al\<lparr>slots := take (nat idx) (slots al), addresses := (addresses al)(addr \<mapsto> -1)\<rparr>)
                else Inr (al\<lparr>slots := (slots al)[nat idx := slotmap]\<rparr>)))"

definition DeleteAddress :: "accessList \<Rightarrow> Address \<Rightarrow> accessList" where
  "DeleteAddress al addr = al\<lparr>addresses := (addresses al)(addr := None)\<rparr>"

section \<open>Transient storage\<close>

type_synonym transientStorage = "Address \<rightharpoonup> Storage"

definition transient_Set :: "transientStorage \<Rightarrow> Address \<Rightarrow> Hash \<Rightarrow> Hash \<Rightarrow> transientStorage" where
  "transient_Set t addr key value =
     (let m = (case t addr of None \<Rightarrow> Map.empty | Some m \<Rightarrow> m) in t(addr \<mapsto> m(key \<mapsto> value)))"

definition transient_Get :: "transientStorage \<Rightarrow> Address \<Rightarrow> Hash \<Rightarrow> Hash" where
  "transient_Get t addr key =
     (case t addr of None \<Rightarrow> 0 | Some m \<Rightarrow> (case m key of None \<Rightarrow> 0 | Some v \<Rightarrow> v))"

section \<open>The database and its journal\<close>

record Log =
  lAddress :: Address
  Topics :: "Hash list"
  lData :: bytes
  BlockNumber :: uint64
  TxHash :: Hash
  TxIndex :: int
  BlockHash :: Hash
  lIndex :: uint64

datatype journalEntry =
    createObjectChange Address
  | resetObjectChange Object bool
  | suicideChange Address bool int
  | balanceChange Address int
  | nonceChange Address uint64
  | storageChange Address Hash Hash
  | codeChange Address "bytes option" Hash
  | validatorWrapperChange Address "ValidatorWrapper option"
  | refundChange uint64
  | addLogChange Hash
  | addPreimageChange Hash
  | touchChange Address
  | accessListAddAccountChange Address
  | accessListAddSlotChange Address Hash
  | transientStorageChange Address Hash Hash

fun dirtied :: "journalEntry \<Rightarrow> Address option" where
  "dirtied (createObjectChange a) = Some a"
| "dirtied (resetObjectChange _ _) = None"
| "dirtied (suicideChange a _ _) = Some a"
| "dirtied (balanceChange a _) = Some a"
| "dirtied (nonceChange a _) = Some a"
| "dirtied (storageChange a _ _) = Some a"
| "dirtied (codeChange a _ _) = Some a"
| "dirtied (validatorWrapperChange a _) = Some a"
| "dirtied (refundChange _) = None"
| "dirtied (addLogChange _) = None"
| "dirtied (addPreimageChange _) = None"
| "dirtied (touchChange a) = Some a"
| "dirtied (accessListAddAccountChange _) = None"
| "dirtied (accessListAddSlotChange _ _) = None"
| "dirtied (transientStorageChange _ _ _) = None"

record DB =
  stateObjects :: "Address \<rightharpoonup> Object"
  stateObjectsPending :: "Address set"
  stateObjectsDirty :: "Address set"
  stateObjectsDestruct :: "Address set"
  stateValidators :: "Address \<Rightarrow> ValidatorWrapper option option"
  refund :: uint64
  thash :: Hash
  bhash :: Hash
  txIndex :: int
  logs :: "Hash \<rightharpoonup> Log list"
  logSize :: uint64
  preimages :: "Hash \<rightharpoonup> bytes"
  theAccessList :: accessList
  theTransientStorage :: transientStorage
  entries :: "journalEntry list"
  dirties :: "Address \<Rightarrow> nat"
  validRevisions :: "(int \<times> nat) list"
  nextRevisionId :: int

definition New :: DB where
  "New = \<lparr>stateObjects = Map.empty, stateObjectsPending = {}, stateObjectsDirty = {},
     stateObjectsDestruct = {}, stateValidators = Map.empty, refund = 0, thash = 0, bhash = 0,
     txIndex = 0, logs = Map.empty, logSize = 0, preimages = Map.empty,
     theAccessList = newAccessList, theTransientStorage = Map.empty, entries = [],
     dirties = (\<lambda>_. 0), validRevisions = [], nextRevisionId = 0\<rparr>"

definition journal_append :: "journalEntry \<Rightarrow> DB \<Rightarrow> DB" where
  "journal_append e db =
     (let db = db\<lparr>entries := entries db @ [e]\<rparr>
      in case dirtied e of Some a \<Rightarrow> db\<lparr>dirties := (dirties db)(a := dirties db a + 1)\<rparr> | None \<Rightarrow> db)"

definition setStateObject :: "Object \<Rightarrow> DB \<Rightarrow> DB" where
  "setStateObject obj db = db\<lparr>stateObjects := (stateObjects db)(address obj \<mapsto> obj)\<rparr>"

text \<open>The object at an address, deleted or not; a load from the trie joins the live set.\<close>

definition getDeletedStateObject :: "backend \<Rightarrow> DB \<Rightarrow> Address \<Rightarrow> Object option \<times> DB" where
  "getDeletedStateObject B db addr =
     (case stateObjects db addr of
        Some obj \<Rightarrow> (Some obj, db)
      | None \<Rightarrow>
          (case trieAccount B addr of
             None \<Rightarrow> (None, db)
           | Some d \<Rightarrow> (Some (newObject addr d), setStateObject (newObject addr d) db)))"

definition getStateObject :: "backend \<Rightarrow> DB \<Rightarrow> Address \<Rightarrow> Object option \<times> DB" where
  "getStateObject B db addr =
     (case getDeletedStateObject B db addr of
        (Some obj, db') \<Rightarrow> (if deleted obj then None else Some obj, db')
      | (None, db') \<Rightarrow> (None, db'))"

definition createObject :: "backend \<Rightarrow> DB \<Rightarrow> Address \<Rightarrow> Object \<times> Object option \<times> DB" where
  "createObject B db addr =
     (case getDeletedStateObject B db addr of
        (prev, db) \<Rightarrow>
          (let newobj = newObject addr (emptyAccount B)
           in case prev of
                None \<Rightarrow> (newobj, None, setStateObject newobj (journal_append (createObjectChange addr) db))
              | Some p \<Rightarrow>
                  (let prevdestruct = (address p \<in> stateObjectsDestruct db);
                       db = db\<lparr>stateObjectsDestruct := insert (address p) (stateObjectsDestruct db)\<rparr>;
                       db = setStateObject newobj (journal_append (resetObjectChange p prevdestruct) db)
                   in (newobj, if deleted p then None else Some p, db))))"

definition GetOrNewStateObject :: "backend \<Rightarrow> DB \<Rightarrow> Address \<Rightarrow> Object \<times> DB" where
  "GetOrNewStateObject B db addr =
     (case getStateObject B db addr of
        (Some obj, db) \<Rightarrow> (obj, db)
      | (None, db) \<Rightarrow> (case createObject B db addr of (newobj, _, db) \<Rightarrow> (newobj, db)))"

subsection \<open>Reading\<close>

definition Exist :: "backend \<Rightarrow> DB \<Rightarrow> Address \<Rightarrow> bool" where
  "Exist B db addr \<longleftrightarrow> fst (getStateObject B db addr) \<noteq> None"

definition Empty :: "backend \<Rightarrow> DB \<Rightarrow> Address \<Rightarrow> bool" where
  "Empty B db addr \<longleftrightarrow>
     (case fst (getStateObject B db addr) of None \<Rightarrow> True | Some so \<Rightarrow> Object_empty B so)"

definition GetBalance :: "backend \<Rightarrow> DB \<Rightarrow> Address \<Rightarrow> int" where
  "GetBalance B db addr =
     (case fst (getStateObject B db addr) of Some obj \<Rightarrow> Balance (data obj) | None \<Rightarrow> 0)"

definition GetNonce :: "backend \<Rightarrow> DB \<Rightarrow> Address \<Rightarrow> uint64" where
  "GetNonce B db addr =
     (case fst (getStateObject B db addr) of Some obj \<Rightarrow> Nonce (data obj) | None \<Rightarrow> 0)"

definition GetCode :: "backend \<Rightarrow> DB \<Rightarrow> Address \<Rightarrow> bytes option" where
  "GetCode B db addr =
     (case fst (getStateObject B db addr) of Some obj \<Rightarrow> Object_Code B obj | None \<Rightarrow> None)"

definition GetCodeHash :: "backend \<Rightarrow> DB \<Rightarrow> Address \<Rightarrow> Hash" where
  "GetCodeHash B db addr =
     (case fst (getStateObject B db addr) of Some obj \<Rightarrow> CodeHash (data obj) | None \<Rightarrow> 0)"

definition GetState :: "backend \<Rightarrow> DB \<Rightarrow> Address \<Rightarrow> Hash \<Rightarrow> Hash" where
  "GetState B db addr key =
     (case fst (getStateObject B db addr) of
        Some obj \<Rightarrow> fst (Object_GetState B (addr \<in> stateObjectsDestruct db) obj key) | None \<Rightarrow> 0)"

definition GetCommittedState :: "backend \<Rightarrow> DB \<Rightarrow> Address \<Rightarrow> Hash \<Rightarrow> Hash" where
  "GetCommittedState B db addr key =
     (case fst (getStateObject B db addr) of
        Some obj \<Rightarrow> fst (Object_GetCommittedState B (addr \<in> stateObjectsDestruct db) obj key) | None \<Rightarrow> 0)"

definition HasSuicided :: "backend \<Rightarrow> DB \<Rightarrow> Address \<Rightarrow> bool" where
  "HasSuicided B db addr =
     (case fst (getStateObject B db addr) of Some obj \<Rightarrow> suicided obj | None \<Rightarrow> False)"

subsection \<open>Writing\<close>

definition SetBalance :: "backend \<Rightarrow> DB \<Rightarrow> Address \<Rightarrow> int \<Rightarrow> DB" where
  "SetBalance B db addr amount =
     (case GetOrNewStateObject B db addr of
        (obj, db) \<Rightarrow> setStateObject (Object_setBalance amount obj)
                       (journal_append (balanceChange (address obj) (Balance (data obj))) db))"

definition ripemd :: Address where "ripemd = 3"

definition AddBalance :: "backend \<Rightarrow> DB \<Rightarrow> Address \<Rightarrow> int \<Rightarrow> DB" where
  "AddBalance B db addr amount =
     (case GetOrNewStateObject B db addr of
        (obj, db) \<Rightarrow>
          if sgn amount = 0
          then (if Object_empty B obj
                then (let db = journal_append (touchChange (address obj)) db
                      in if address obj = ripemd
                         then db\<lparr>dirties := (dirties db)(address obj := dirties db (address obj) + 1)\<rparr> else db)
                else db)
          else setStateObject (Object_setBalance (Balance (data obj) + amount) obj)
                 (journal_append (balanceChange (address obj) (Balance (data obj))) db))"

definition SubBalance :: "backend \<Rightarrow> DB \<Rightarrow> Address \<Rightarrow> int \<Rightarrow> DB" where
  "SubBalance B db addr amount =
     (case GetOrNewStateObject B db addr of
        (obj, db) \<Rightarrow>
          if sgn amount = 0 then db
          else setStateObject (Object_setBalance (Balance (data obj) - amount) obj)
                 (journal_append (balanceChange (address obj) (Balance (data obj))) db))"

definition SetNonce :: "backend \<Rightarrow> DB \<Rightarrow> Address \<Rightarrow> uint64 \<Rightarrow> DB" where
  "SetNonce B db addr nonce =
     (case GetOrNewStateObject B db addr of
        (obj, db) \<Rightarrow> setStateObject (Object_setNonce nonce obj)
                       (journal_append (nonceChange (address obj) (Nonce (data obj))) db))"

definition SetCode :: "backend \<Rightarrow> DB \<Rightarrow> Address \<Rightarrow> bytes \<Rightarrow> bool \<Rightarrow> DB" where
  "SetCode B db addr c isValidatorCode =
     (case GetOrNewStateObject B db addr of
        (obj, db) \<Rightarrow> setStateObject (Object_setCode (Keccak256Hash B c) (Some c) isValidatorCode obj)
                       (journal_append (codeChange (address obj) (Object_Code B obj) (CodeHash (data obj))) db))"

definition SetState :: "backend \<Rightarrow> DB \<Rightarrow> Address \<Rightarrow> Hash \<Rightarrow> Hash \<Rightarrow> DB" where
  "SetState B db addr key value =
     (case GetOrNewStateObject B db addr of
        (obj, db) \<Rightarrow>
          (case Object_GetState B (address obj \<in> stateObjectsDestruct db) obj key of
             (prev, obj) \<Rightarrow>
               if prev = value then setStateObject obj db
               else setStateObject (Object_setState key value obj)
                      (journal_append (storageChange (address obj) key prev) db)))"

definition Suicide :: "backend \<Rightarrow> DB \<Rightarrow> Address \<Rightarrow> bool \<times> DB" where
  "Suicide B db addr =
     (case getStateObject B db addr of
        (None, db) \<Rightarrow> (False, db)
      | (Some obj, db) \<Rightarrow>
          (True, setStateObject (Object_setBalance 0 (obj\<lparr>suicided := True\<rparr>))
                   (journal_append (suicideChange addr (suicided obj) (Balance (data obj))) db)))"

definition CreateAccount :: "backend \<Rightarrow> DB \<Rightarrow> Address \<Rightarrow> DB" where
  "CreateAccount B db addr =
     (case createObject B db addr of
        (newObj, Some prev, db) \<Rightarrow> setStateObject (Object_setBalance (Balance (data prev)) newObj) db
      | (newObj, None, db) \<Rightarrow> db)"

definition AddRefund :: "DB \<Rightarrow> uint64 \<Rightarrow> DB" where
  "AddRefund db gas = (journal_append (refundChange (refund db)) db)\<lparr>refund := refund db + gas\<rparr>"

definition SubRefund :: "DB \<Rightarrow> uint64 \<Rightarrow> DB go" where
  "SubRefund db gas =
     (let prev = refund db; db = journal_append (refundChange prev) db
      in if gas > prev then Inl (Panic ''Refund counter below zero'') else Inr (db\<lparr>refund := prev - gas\<rparr>))"

definition AddLog :: "DB \<Rightarrow> Log \<Rightarrow> DB" where
  "AddLog db log =
     (let db = journal_append (addLogChange (thash db)) db;
          log = log\<lparr>TxHash := thash db, BlockHash := bhash db, TxIndex := txIndex db, lIndex := logSize db\<rparr>;
          old = (case logs db (thash db) of None \<Rightarrow> [] | Some l \<Rightarrow> l)
      in db\<lparr>logs := (logs db)(thash db \<mapsto> old @ [log]), logSize := logSize db + 1\<rparr>)"

definition AddPreimage :: "DB \<Rightarrow> Hash \<Rightarrow> bytes \<Rightarrow> DB" where
  "AddPreimage db hash preimage =
     (if preimages db hash = None
      then (journal_append (addPreimageChange hash) db)\<lparr>preimages := (preimages db)(hash \<mapsto> preimage)\<rparr>
      else db)"

definition SetTransientState :: "DB \<Rightarrow> Address \<Rightarrow> Hash \<Rightarrow> Hash \<Rightarrow> DB" where
  "SetTransientState db addr key value =
     (let prev = transient_Get (theTransientStorage db) addr key
      in if prev = value then db
         else (journal_append (transientStorageChange addr key prev) db)
                \<lparr>theTransientStorage := transient_Set (theTransientStorage db) addr key value\<rparr>)"

definition AddAddressToAccessList :: "DB \<Rightarrow> Address \<Rightarrow> DB" where
  "AddAddressToAccessList db addr =
     (case AddAddress (theAccessList db) addr of
        (added, al) \<Rightarrow>
          (let db = db\<lparr>theAccessList := al\<rparr>
           in if added then journal_append (accessListAddAccountChange addr) db else db))"

definition AddSlotToAccessList :: "DB \<Rightarrow> Address \<Rightarrow> Hash \<Rightarrow> DB go" where
  "AddSlotToAccessList db addr slot =
     go_bind (AddSlot (theAccessList db) addr slot) (\<lambda>(addrMod, slotMod, al).
       let db = db\<lparr>theAccessList := al\<rparr>;
           db = (if addrMod then journal_append (accessListAddAccountChange addr) db else db)
       in Inr (if slotMod then journal_append (accessListAddSlotChange addr slot) db else db))"

subsection \<open>Undoing\<close>

definition on_object :: "backend \<Rightarrow> DB \<Rightarrow> Address \<Rightarrow> (Object \<Rightarrow> Object) \<Rightarrow> DB go" where
  "on_object B db addr f =
     (case getStateObject B db addr of
        (None, _) \<Rightarrow> Inl (Panic ''nil pointer'')
      | (Some obj, db) \<Rightarrow> Inr (setStateObject (f obj) db))"

fun revert :: "backend \<Rightarrow> journalEntry \<Rightarrow> DB \<Rightarrow> DB go" where
  "revert B (createObjectChange a) db =
     Inr (db\<lparr>stateObjects := (stateObjects db)(a := None), stateObjectsDirty := stateObjectsDirty db - {a}\<rparr>)"
| "revert B (resetObjectChange prev prevdestruct) db =
     (let db = setStateObject prev db
      in Inr (if \<not> prevdestruct
              then db\<lparr>stateObjectsDestruct := stateObjectsDestruct db - {address prev}\<rparr> else db))"
| "revert B (suicideChange a prev prevbalance) db =
     (case getStateObject B db a of
        (Some obj, db) \<Rightarrow> Inr (setStateObject (Object_setBalance prevbalance (obj\<lparr>suicided := prev\<rparr>)) db)
      | (None, db) \<Rightarrow> Inr db)"
| "revert B (balanceChange a prev) db = on_object B db a (Object_setBalance prev)"
| "revert B (nonceChange a prev) db = on_object B db a (Object_setNonce prev)"
| "revert B (storageChange a key prev) db = on_object B db a (Object_setState key prev)"
| "revert B (codeChange a prevcode prevhash) db = on_object B db a (Object_setCode prevhash prevcode False)"
| "revert B (validatorWrapperChange a prev) db =
     Inr (db\<lparr>stateValidators := (stateValidators db)(a := Some prev)\<rparr>)"
| "revert B (refundChange prev) db = Inr (db\<lparr>refund := prev\<rparr>)"
| "revert B (addLogChange h) db =
     (let ls = (case logs db h of None \<Rightarrow> [] | Some l \<Rightarrow> l)
      in if length ls = 1 then Inr (db\<lparr>logs := (logs db)(h := None), logSize := logSize db - 1\<rparr>)
         else if length ls = 0 then Inl (Panic ''slice bounds out of range'')
         else Inr (db\<lparr>logs := (logs db)(h \<mapsto> take (length ls - 1) ls), logSize := logSize db - 1\<rparr>))"
| "revert B (addPreimageChange h) db = Inr (db\<lparr>preimages := (preimages db)(h := None)\<rparr>)"
| "revert B (touchChange a) db = Inr db"
| "revert B (accessListAddAccountChange a) db =
     Inr (db\<lparr>theAccessList := DeleteAddress (theAccessList db) a\<rparr>)"
| "revert B (accessListAddSlotChange a s) db =
     go_bind (DeleteSlot (theAccessList db) a s) (\<lambda>al. Inr (db\<lparr>theAccessList := al\<rparr>))"
| "revert B (transientStorageChange a k v) db =
     Inr (db\<lparr>theTransientStorage := transient_Set (theTransientStorage db) a k v\<rparr>)"

text \<open>One turn of \<open>journal.revert\<close>, and the loop over the entries from the last down to the snapshot.\<close>

definition undo_entry :: "backend \<Rightarrow> DB \<Rightarrow> journalEntry \<Rightarrow> DB go" where
  "undo_entry B db e =
     go_bind (revert B e db) (\<lambda>db.
       Inr (case dirtied e of Some a \<Rightarrow> db\<lparr>dirties := (dirties db)(a := dirties db a - 1)\<rparr> | None \<Rightarrow> db))"

definition journal_revert :: "backend \<Rightarrow> DB \<Rightarrow> nat \<Rightarrow> DB go" where
  "journal_revert B db snapshot =
     go_bind (go_fold (undo_entry B) db (rev (drop snapshot (entries db)))) (\<lambda>db'.
       Inr (db'\<lparr>entries := take snapshot (entries db)\<rparr>))"

definition Snapshot :: "DB \<Rightarrow> int \<times> DB" where
  "Snapshot db =
     (nextRevisionId db,
      db\<lparr>nextRevisionId := nextRevisionId db + 1,
         validRevisions := validRevisions db @ [(nextRevisionId db, length (entries db))]\<rparr>)"

text \<open>\<open>sort.Search\<close>: binary search for the first index at which a predicate holds.\<close>

function search_loop :: "(nat \<Rightarrow> bool) \<Rightarrow> nat \<Rightarrow> nat \<Rightarrow> nat" where
  "search_loop f i j =
     (if i < j then
        (let h = (i + j) div 2 in if \<not> f h then search_loop f (h + 1) j else search_loop f i h)
      else i)"
  by pat_completeness auto
termination by (relation "measure (\<lambda>(f, i, j). j - i)") auto

declare search_loop.simps [simp del]

definition Search :: "nat \<Rightarrow> (nat \<Rightarrow> bool) \<Rightarrow> nat" where
  "Search n f = search_loop f 0 n"

definition RevertToSnapshot :: "backend \<Rightarrow> DB \<Rightarrow> int \<Rightarrow> DB go" where
  "RevertToSnapshot B db revid =
     (let idx = Search (length (validRevisions db)) (\<lambda>i. fst (validRevisions db ! i) \<ge> revid)
      in if idx = length (validRevisions db) \<or> fst (validRevisions db ! idx) \<noteq> revid
         then Inl (Panic ''revision id cannot be reverted'')
         else
           go_bind (journal_revert B db (snd (validRevisions db ! idx))) (\<lambda>db'.
             Inr (db'\<lparr>validRevisions := take idx (validRevisions db)\<rparr>)))"

section \<open>The visible world\<close>

record ObjView =
  vData :: StateAccount
  vCode :: "bytes option"
  vState :: "Hash \<Rightarrow> Hash"
  vCommitted :: "Hash \<Rightarrow> Hash"
  vSuicided :: bool
  vDeleted :: bool

definition obj_view :: "backend \<Rightarrow> bool \<Rightarrow> Object \<Rightarrow> ObjView" where
  "obj_view B destructed s =
     \<lparr>vData = data s, vCode = Object_Code B s,
      vState = (\<lambda>k. case dirtyStorage s k of Some v \<Rightarrow> v | None \<Rightarrow> committed_at B destructed s k),
      vCommitted = committed_at B destructed s, vSuicided = suicided s, vDeleted = deleted s\<rparr>"

record World =
  accts :: "Address \<Rightarrow> ObjView option"
  gone :: "Address set"
  wRefund :: uint64
  wLogs :: "Hash \<Rightarrow> Log list"
  wLogSize :: uint64
  wPreimages :: "Hash \<rightharpoonup> bytes"
  wAccess :: accessList
  wTransient :: "Address \<Rightarrow> Hash \<Rightarrow> Hash"

definition obj_at :: "backend \<Rightarrow> DB \<Rightarrow> Address \<Rightarrow> Object option" where
  "obj_at B db a = (case stateObjects db a of Some s \<Rightarrow> Some s | None \<Rightarrow> map_option (newObject a) (trieAccount B a))"

definition logs_of :: "(Hash \<rightharpoonup> Log list) \<Rightarrow> Hash \<Rightarrow> Log list" where
  "logs_of ls h = (case ls h of None \<Rightarrow> [] | Some l \<Rightarrow> l)"

definition world :: "backend \<Rightarrow> DB \<Rightarrow> World" where
  "world B db =
     \<lparr>accts = (\<lambda>a. map_option (obj_view B (a \<in> stateObjectsDestruct db)) (obj_at B db a)),
      gone = stateObjectsDestruct db, wRefund = refund db, wLogs = logs_of (logs db), wLogSize = logSize db,
      wPreimages = preimages db, wAccess = theAccessList db, wTransient = transient_Get (theTransientStorage db)\<rparr>"

lemma world_sel [simp]:
  "accts (world B db) a = map_option (obj_view B (a \<in> stateObjectsDestruct db)) (obj_at B db a)"
  "gone (world B db) = stateObjectsDestruct db" "wRefund (world B db) = refund db"
  "wLogs (world B db) = logs_of (logs db)" "wLogSize (world B db) = logSize db"
  "wPreimages (world B db) = preimages db" "wAccess (world B db) = theAccessList db"
  "wTransient (world B db) = transient_Get (theTransientStorage db)"
  by (simp_all add: world_def)

lemma World_eqI:
  assumes "\<And>a. accts w a = accts w' a" "gone w = gone w'" "wRefund w = wRefund w'" "wLogs w = wLogs w'"
    "wLogSize w = wLogSize w'" "wPreimages w = wPreimages w'" "wAccess w = wAccess w'" "wTransient w = wTransient w'"
  shows "w = (w' :: World)"
  using assms by (intro World.equality) auto

text \<open>What undoing one entry does to the world.\<close>

definition live :: "World \<Rightarrow> Address \<Rightarrow> ObjView option" where
  "live w a = (case accts w a of Some v \<Rightarrow> if vDeleted v then None else Some v | None \<Rightarrow> None)"

definition on_live :: "World \<Rightarrow> Address \<Rightarrow> (ObjView \<Rightarrow> ObjView) \<Rightarrow> World go" where
  "on_live w a f =
     (case live w a of None \<Rightarrow> Inl (Panic ''nil pointer'') | Some v \<Rightarrow> Inr (w\<lparr>accts := (accts w)(a \<mapsto> f v)\<rparr>))"

definition put_balance :: "int \<Rightarrow> ObjView \<Rightarrow> ObjView" where
  "put_balance x v = v\<lparr>vData := (vData v)\<lparr>Balance := x\<rparr>\<rparr>"

definition put_nonce :: "uint64 \<Rightarrow> ObjView \<Rightarrow> ObjView" where
  "put_nonce x v = v\<lparr>vData := (vData v)\<lparr>Nonce := x\<rparr>\<rparr>"

definition put_state :: "Hash \<Rightarrow> Hash \<Rightarrow> ObjView \<Rightarrow> ObjView" where
  "put_state k x v = v\<lparr>vState := (vState v)(k := x)\<rparr>"

definition load_code :: "backend \<Rightarrow> Address \<Rightarrow> bool \<Rightarrow> Hash \<Rightarrow> bytes option \<Rightarrow> bytes option" where
  "load_code B a vw h c0 =
     Object_Code B ((newObject a (emptyAccount B))\<lparr>code := c0, validatorWrapper := vw,
       data := (emptyAccount B)\<lparr>CodeHash := h\<rparr>\<rparr>)"

definition put_code :: "Hash \<Rightarrow> bytes option \<Rightarrow> ObjView \<Rightarrow> ObjView" where
  "put_code h c0 v = v\<lparr>vData := (vData v)\<lparr>CodeHash := h\<rparr>, vCode := c0\<rparr>"

fun undo_world :: "backend \<Rightarrow> World \<Rightarrow> journalEntry \<Rightarrow> World go" where
  "undo_world B w (createObjectChange a) =
     Inr (w\<lparr>accts := (accts w)(a := map_option (\<lambda>d. obj_view B (a \<in> gone w) (newObject a d)) (trieAccount B a))\<rparr>)"
| "undo_world B w (resetObjectChange p pd) =
     (let g = (if pd then gone w else gone w - {address p})
      in Inr (w\<lparr>gone := g, accts := (accts w)(address p \<mapsto> obj_view B (address p \<in> g) p)\<rparr>))"
| "undo_world B w (suicideChange a s b) =
     (case live w a of None \<Rightarrow> Inr w
      | Some v \<Rightarrow> Inr (w\<lparr>accts := (accts w)(a \<mapsto> put_balance b (v\<lparr>vSuicided := s\<rparr>))\<rparr>))"
| "undo_world B w (balanceChange a x) = on_live w a (put_balance x)"
| "undo_world B w (nonceChange a x) = on_live w a (put_nonce x)"
| "undo_world B w (storageChange a k x) = on_live w a (put_state k x)"
| "undo_world B w (codeChange a c0 h) = on_live w a (put_code h (load_code B a False h c0))"
| "undo_world B w (validatorWrapperChange a x) = Inr w"
| "undo_world B w (refundChange x) = Inr (w\<lparr>wRefund := x\<rparr>)"
| "undo_world B w (addLogChange h) =
     (if wLogs w h = [] then Inl (Panic ''slice bounds out of range'')
      else Inr (w\<lparr>wLogs := (wLogs w)(h := butlast (wLogs w h)), wLogSize := wLogSize w - 1\<rparr>))"
| "undo_world B w (addPreimageChange h) = Inr (w\<lparr>wPreimages := (wPreimages w)(h := None)\<rparr>)"
| "undo_world B w (touchChange a) = Inr w"
| "undo_world B w (accessListAddAccountChange a) = Inr (w\<lparr>wAccess := DeleteAddress (wAccess w) a\<rparr>)"
| "undo_world B w (accessListAddSlotChange a s) =
     go_bind (DeleteSlot (wAccess w) a s) (\<lambda>al. Inr (w\<lparr>wAccess := al\<rparr>))"
| "undo_world B w (transientStorageChange a k v) =
     Inr (w\<lparr>wTransient := (wTransient w)(a := (wTransient w a)(k := v))\<rparr>)"

section \<open>Operations on the world\<close>

definition db_ok :: "DB \<Rightarrow> bool" where
  "db_ok db \<longleftrightarrow> (\<forall>a s. stateObjects db a = Some s \<longrightarrow> address s = a)"

lemma newObject_address [simp]: "address (newObject a d) = a"
  by (simp add: newObject_def)

lemma Object_set_address [simp]:
  "address (Object_setBalance x s) = address s" "address (Object_setNonce n s) = address s"
  "address (Object_setState k v s) = address s" "address (Object_setCode h c0 vw s) = address s"
  by (simp_all add: Object_setBalance_def Object_setNonce_def Object_setState_def Object_setCode_def)

lemma db_ok_set [simp]: "db_ok db \<Longrightarrow> db_ok (setStateObject s db)"
  by (simp add: db_ok_def setStateObject_def)

lemma journal_append_sel [simp]:
  "entries (journal_append e db) = entries db @ [e]" "stateObjects (journal_append e db) = stateObjects db"
  "stateObjectsDestruct (journal_append e db) = stateObjectsDestruct db"
  "validRevisions (journal_append e db) = validRevisions db"
  "nextRevisionId (journal_append e db) = nextRevisionId db"
  "stateValidators (journal_append e db) = stateValidators db"
  by (simp_all add: journal_append_def Let_def split: option.split)

lemma db_ok_journal [simp]: "db_ok (journal_append e db) \<longleftrightarrow> db_ok db"
  by (simp add: db_ok_def)

lemma world_journal [simp]: "world B (journal_append e db) = world B db"
  by (cases "dirtied e") (simp_all add: world_def obj_at_def journal_append_def)

lemma setStateObject_sel [simp]:
  "entries (setStateObject s db) = entries db" "stateObjectsDestruct (setStateObject s db) = stateObjectsDestruct db"
  "validRevisions (setStateObject s db) = validRevisions db" "nextRevisionId (setStateObject s db) = nextRevisionId db"
  "stateObjects (setStateObject s db) = (stateObjects db)(address s \<mapsto> s)"
  "stateValidators (setStateObject s db) = stateValidators db"
  by (simp_all add: setStateObject_def)

lemma obj_at_set: "obj_at B (setStateObject s db) a = (if a = address s then Some s else obj_at B db a)"
  by (simp add: obj_at_def)

lemma world_set:
  "world B (setStateObject s db) =
     (world B db)\<lparr>accts := (accts (world B db))(address s \<mapsto> obj_view B (address s \<in> stateObjectsDestruct db) s)\<rparr>"
  by (rule World_eqI) (simp_all add: obj_at_set, simp_all add: setStateObject_def)

lemma getDeletedStateObject_props:
  assumes "getDeletedStateObject B db a = (r, db')" and "db_ok db"
  shows "r = obj_at B db a" "world B db' = world B db" "db_ok db'" "entries db' = entries db"
    "validRevisions db' = validRevisions db" "nextRevisionId db' = nextRevisionId db"
    "stateValidators db' = stateValidators db" "stateObjectsDestruct db' = stateObjectsDestruct db"
    "r = Some s \<Longrightarrow> stateObjects db' a = Some s \<and> address s = a"
    "r = None \<Longrightarrow> stateObjects db' a = None \<and> trieAccount B a = None"
  using assms
  by (auto simp: getDeletedStateObject_def obj_at_def db_ok_def world_set fun_upd_idem
      intro!: World_eqI split: option.splits if_splits)

lemma getStateObject_props:
  assumes "getStateObject B db a = (r, db')" and "db_ok db"
  shows "r = (case obj_at B db a of Some s \<Rightarrow> if deleted s then None else Some s | None \<Rightarrow> None)"
    "world B db' = world B db" "db_ok db'" "entries db' = entries db"
    "validRevisions db' = validRevisions db" "nextRevisionId db' = nextRevisionId db"
    "stateValidators db' = stateValidators db" "stateObjectsDestruct db' = stateObjectsDestruct db"
    "r = Some s \<Longrightarrow> stateObjects db' a = Some s \<and> address s = a \<and> \<not> deleted s"
proof -
  obtain r0 db0 where g: "getDeletedStateObject B db a = (r0, db0)" by fastforce
  note p = getDeletedStateObject_props [OF g assms(2)]
  have e: "db' = db0" "r = (case r0 of Some s \<Rightarrow> if deleted s then None else Some s | None \<Rightarrow> None)"
    using assms(1) g by (auto simp: getStateObject_def split: option.splits)
  show "r = (case obj_at B db a of Some s \<Rightarrow> if deleted s then None else Some s | None \<Rightarrow> None)"
    using e p(1) by simp
  show "world B db' = world B db" "db_ok db'" "entries db' = entries db"
    "validRevisions db' = validRevisions db" "nextRevisionId db' = nextRevisionId db"
    "stateValidators db' = stateValidators db" "stateObjectsDestruct db' = stateObjectsDestruct db"
    using e(1) p by simp_all
  show "r = Some s \<Longrightarrow> stateObjects db' a = Some s \<and> address s = a \<and> \<not> deleted s"
    using e p(9) by (auto split: option.splits if_splits)
qed

lemma live_world:
  "live (world B db) a =
     (case obj_at B db a of Some s \<Rightarrow> if deleted s then None else Some (obj_view B (a \<in> stateObjectsDestruct db) s) | None \<Rightarrow> None)"
  by (simp add: live_def obj_view_def split: option.split)

subsection \<open>Undoing entries refines undoing on the world\<close>

lemma committed_at_upd [simp]:
  "committed_at B d (s\<lparr>dirtyStorage := x\<rparr>) = committed_at B d s"
  "committed_at B d (s\<lparr>suicided := y\<rparr>) = committed_at B d s"
  "committed_at B d (s\<lparr>code := z, data := (data s)\<lparr>CodeHash := h\<rparr>, dirtyCode := t, validatorWrapper := u\<rparr>) = committed_at B d s"
  "committed_at B d (s\<lparr>data := (data s)\<lparr>Balance := b\<rparr>\<rparr>) = committed_at B d s"
  "committed_at B d (s\<lparr>data := (data s)\<lparr>Nonce := n\<rparr>\<rparr>) = committed_at B d s"
  by (simp_all add: committed_at_def fun_eq_iff split: option.split)

lemma Object_Code_cong:
  "address s = address s' \<Longrightarrow> code s = code s' \<Longrightarrow> CodeHash (data s) = CodeHash (data s') \<Longrightarrow>
     validatorWrapper s = validatorWrapper s' \<Longrightarrow> Object_Code B s = Object_Code B s'"
  by (simp add: Object_Code_def Let_def split: option.split)

lemma obj_view_put:
  "obj_view B d (Object_setBalance x s) = put_balance x (obj_view B d s)"
  "obj_view B d (Object_setNonce n s) = put_nonce n (obj_view B d s)"
  "obj_view B d (Object_setState k v s) = put_state k v (obj_view B d s)"
  "obj_view B d (s\<lparr>suicided := b\<rparr>) = (obj_view B d s)\<lparr>vSuicided := b\<rparr>"
proof -
  have c: "Object_Code B (s\<lparr>data := (data s)\<lparr>Balance := x\<rparr>\<rparr>) = Object_Code B s"
    "Object_Code B (s\<lparr>data := (data s)\<lparr>Nonce := n\<rparr>\<rparr>) = Object_Code B s"
    "Object_Code B (s\<lparr>dirtyStorage := (dirtyStorage s)(k \<mapsto> v)\<rparr>) = Object_Code B s"
    "Object_Code B (s\<lparr>suicided := b\<rparr>) = Object_Code B s"
    by (rule Object_Code_cong; simp)+
  show "obj_view B d (Object_setBalance x s) = put_balance x (obj_view B d s)"
    "obj_view B d (Object_setNonce n s) = put_nonce n (obj_view B d s)"
    "obj_view B d (s\<lparr>suicided := b\<rparr>) = (obj_view B d s)\<lparr>vSuicided := b\<rparr>"
    by (simp_all add: obj_view_def Object_setBalance_def Object_setNonce_def put_balance_def put_nonce_def c
        cong: option.case_cong)
  show "obj_view B d (Object_setState k v s) = put_state k v (obj_view B d s)"
    by (simp add: obj_view_def Object_setState_def put_state_def c fun_eq_iff cong: option.case_cong)
qed

lemma obj_view_code:
  "obj_view B d (Object_setCode h c0 vw s) = put_code h (load_code B (address s) vw h c0) (obj_view B d s)"
proof -
  have "Object_Code B (s\<lparr>code := c0, data := (data s)\<lparr>CodeHash := h\<rparr>, dirtyCode := True, validatorWrapper := vw\<rparr>)
      = load_code B (address s) vw h c0"
    unfolding load_code_def by (rule Object_Code_cong) simp_all
  then show ?thesis by (simp add: obj_view_def Object_setCode_def put_code_def cong: option.case_cong)
qed

lemma on_object_world:
  assumes "db_ok db" and "\<And>s d. address s = a \<Longrightarrow> obj_view B d (f s) = g (obj_view B d s)"
    and "\<And>s. address (f s) = address s"
  shows "map_sum id (world B) (on_object B db a f) = on_live (world B db) a g"
    and "on_object B db a f = Inr db' \<Longrightarrow> db_ok db'"
proof -
  obtain r db1 where g: "getStateObject B db a = (r, db1)" by fastforce
  note p = getStateObject_props [OF g assms(1)]
  have "live (world B db) a = map_option (obj_view B (a \<in> stateObjectsDestruct db)) r"
    using p(1) by (simp add: live_world split: option.split)
  moreover have "world B (setStateObject (f s) db1) = (world B db)\<lparr>accts := (accts (world B db))(a \<mapsto> g (obj_view B (a \<in> stateObjectsDestruct db) s))\<rparr>"
    if "r = Some s" for s
    using p(9) [OF that] p(2,8) assms(2) [of s] assms(3) [of s] by (simp add: world_set)
  ultimately show "map_sum id (world B) (on_object B db a f) = on_live (world B db) a g"
    by (cases r) (simp_all add: on_object_def on_live_def g)
  show "on_object B db a f = Inr db' \<Longrightarrow> db_ok db'"
    using p(3) g by (auto simp: on_object_def split: option.splits)
qed

lemma world_upd [simp]:
  "world B (db\<lparr>stateObjectsDirty := x\<rparr>) = world B db" "world B (db\<lparr>dirties := y\<rparr>) = world B db"
  "world B (db\<lparr>stateValidators := z\<rparr>) = world B db" "world B (db\<lparr>entries := es\<rparr>) = world B db"
  "world B (db\<lparr>validRevisions := rs\<rparr>) = world B db" "world B (db\<lparr>nextRevisionId := n\<rparr>) = world B db"
  "world B (db\<lparr>refund := g\<rparr>) = (world B db)\<lparr>wRefund := g\<rparr>"
  "world B (db\<lparr>theAccessList := al\<rparr>) = (world B db)\<lparr>wAccess := al\<rparr>"
  "world B (db\<lparr>theTransientStorage := t\<rparr>) = (world B db)\<lparr>wTransient := transient_Get t\<rparr>"
  "world B (db\<lparr>preimages := ps\<rparr>) = (world B db)\<lparr>wPreimages := ps\<rparr>"
  "world B (db\<lparr>logs := ls, logSize := m\<rparr>) = (world B db)\<lparr>wLogs := logs_of ls, wLogSize := m\<rparr>"
  by (simp_all add: world_def obj_at_def)

lemma db_ok_upd [simp]:
  "db_ok (db\<lparr>stateObjectsDirty := x\<rparr>) = db_ok db" "db_ok (db\<lparr>dirties := y\<rparr>) = db_ok db"
  "db_ok (db\<lparr>stateValidators := z\<rparr>) = db_ok db" "db_ok (db\<lparr>entries := es\<rparr>) = db_ok db"
  "db_ok (db\<lparr>validRevisions := rs\<rparr>) = db_ok db" "db_ok (db\<lparr>nextRevisionId := n\<rparr>) = db_ok db"
  "db_ok (db\<lparr>refund := g\<rparr>) = db_ok db" "db_ok (db\<lparr>theAccessList := al\<rparr>) = db_ok db"
  "db_ok (db\<lparr>theTransientStorage := t\<rparr>) = db_ok db" "db_ok (db\<lparr>preimages := ps\<rparr>) = db_ok db"
  "db_ok (db\<lparr>logs := ls, logSize := m\<rparr>) = db_ok db" "db_ok (db\<lparr>stateObjectsDestruct := gs\<rparr>) = db_ok db"
  by (simp_all add: db_ok_def)

lemma transient_Get_Set:
  "transient_Get (transient_Set t a k v) = (transient_Get t)(a := (transient_Get t a)(k := v))"
  by (auto simp: transient_Get_def transient_Set_def Let_def fun_eq_iff split: option.splits)

lemma logs_of_upd [simp]:
  "logs_of (ls(h \<mapsto> l)) = (logs_of ls)(h := l)" "logs_of (ls(h := None)) = (logs_of ls)(h := [])"
  by (auto simp: logs_of_def fun_eq_iff)

lemma revert_log_world:
  "map_sum id (world B) (revert B (addLogChange h) db) = undo_world B (world B db) (addLogChange h)"
  "revert B (addLogChange h) db = Inr db' \<Longrightarrow> db_ok db' = db_ok db"
proof -
  have l: "(case logs db h of None \<Rightarrow> [] | Some l \<Rightarrow> l) = logs_of (logs db) h" by (simp add: logs_of_def)
  have one: "butlast xs = []" if "length xs = Suc 0" for xs :: "Log list"
    using that by (cases xs) auto
  show "map_sum id (world B) (revert B (addLogChange h) db) = undo_world B (world B db) (addLogChange h)"
    by (auto simp: l Let_def butlast_conv_take one)
  show "revert B (addLogChange h) db = Inr db' \<Longrightarrow> db_ok db' = db_ok db"
    by (auto simp: l Let_def split: if_splits)
qed

lemma revert_world:
  assumes "db_ok db"
  shows "map_sum id (world B) (revert B e db) = undo_world B (world B db) e"
proof (cases e)
  case (createObjectChange a)
  show ?thesis
    by (simp add: createObjectChange, rule World_eqI) (simp_all add: obj_at_def option.map_comp comp_def)
next
  case (resetObjectChange p pd)
  show ?thesis
    by (auto simp: resetObjectChange Let_def obj_at_def setStateObject_def intro!: World_eqI)
next
  case (suicideChange a s b)
  obtain r db1 where g: "getStateObject B db a = (r, db1)" by fastforce
  note p = getStateObject_props [OF g assms]
  have l: "live (world B db) a = map_option (obj_view B (a \<in> stateObjectsDestruct db)) r"
    using p(1) by (simp add: live_world split: option.split)
  show ?thesis
  proof (cases r)
    case None
    then show ?thesis using l p(2) by (simp add: suicideChange g)
  next
    case (Some o')
    have "world B (setStateObject (Object_setBalance b (o'\<lparr>suicided := s\<rparr>)) db1)
        = (world B db)\<lparr>accts := (accts (world B db))(a \<mapsto> put_balance b ((obj_view B (a \<in> stateObjectsDestruct db) o')\<lparr>vSuicided := s\<rparr>))\<rparr>"
      using p(9) [OF Some] p(2,8) by (simp add: world_set obj_view_put)
    then show ?thesis using l Some by (simp add: suicideChange g)
  qed
next
  case (balanceChange a x)
  show ?thesis unfolding balanceChange revert.simps undo_world.simps
    by (rule on_object_world(1) [OF assms]) (simp_all add: obj_view_put)
next
  case (nonceChange a x)
  show ?thesis unfolding nonceChange revert.simps undo_world.simps
    by (rule on_object_world(1) [OF assms]) (simp_all add: obj_view_put)
next
  case (storageChange a k x)
  show ?thesis unfolding storageChange revert.simps undo_world.simps
    by (rule on_object_world(1) [OF assms]) (simp_all add: obj_view_put)
next
  case (codeChange a c0 h)
  show ?thesis unfolding codeChange revert.simps undo_world.simps
    by (rule on_object_world(1) [OF assms]) (simp_all add: obj_view_code)
next
  case (addLogChange h)
  show ?thesis unfolding addLogChange by (rule revert_log_world(1))
next
  case (accessListAddSlotChange a s)
  show ?thesis by (cases "DeleteSlot (theAccessList db) a s") (simp_all add: accessListAddSlotChange)
next
  case (transientStorageChange a k v)
  show ?thesis by (simp add: transientStorageChange transient_Get_Set)
qed simp_all

lemma revert_ok:
  assumes "db_ok db" "revert B e db = Inr db'"
  shows "db_ok db'"
proof (cases e)
  case (createObjectChange a)
  then show ?thesis using assms by (auto simp: db_ok_def split: if_splits)
next
  case (resetObjectChange p pd)
  then show ?thesis using assms by (auto simp: Let_def split: if_splits)
next
  case (suicideChange a s b)
  obtain r db1 where g: "getStateObject B db a = (r, db1)" by fastforce
  then show ?thesis using assms suicideChange getStateObject_props(3) [OF g assms(1)]
    by (auto split: option.splits)
next
  case (addLogChange h)
  then show ?thesis using assms revert_log_world(2) by blast
next
  case (balanceChange a x)
  then show ?thesis using on_object_world(2) [OF assms(1), of a B "Object_setBalance x" "put_balance x"] assms(2)
    by (simp add: obj_view_put)
next
  case (nonceChange a x)
  then show ?thesis using on_object_world(2) [OF assms(1), of a B "Object_setNonce x" "put_nonce x"] assms(2)
    by (simp add: obj_view_put)
next
  case (storageChange a k x)
  then show ?thesis using on_object_world(2) [OF assms(1), of a B "Object_setState k x" "put_state k x"] assms(2)
    by (simp add: obj_view_put)
next
  case (codeChange a c0 h)
  then show ?thesis
    using on_object_world(2) [OF assms(1), of a B "Object_setCode h c0 False" "put_code h (load_code B a False h c0)"] assms(2)
    by (simp add: obj_view_code)
qed (use assms in auto)

subsection \<open>Every operation writes what undoes it\<close>

definition undo_all :: "backend \<Rightarrow> World \<Rightarrow> journalEntry list \<Rightarrow> World go" where
  "undo_all B w es = go_fold (undo_world B) w (rev es)"

definition journaled :: "backend \<Rightarrow> DB \<Rightarrow> DB \<Rightarrow> bool" where
  "journaled B db db' \<longleftrightarrow>
     db_ok db' \<and> validRevisions db' = validRevisions db \<and> nextRevisionId db' = nextRevisionId db
     \<and> (\<exists>es. entries db' = entries db @ es \<and> undo_all B (world B db') es = Inr (world B db))"

lemma undo_all_append: "undo_all B w (es @ fs) = go_bind (undo_all B w fs) (\<lambda>w'. undo_all B w' es)"
  by (simp add: undo_all_def go_fold_append)

lemma undo_all_simps [simp]: "undo_all B w [] = Inr w" "undo_all B w [e] = undo_world B w e"
  by (simp_all add: undo_all_def) (cases "undo_world B w e"; simp)

lemma journaled_refl: "db_ok db \<Longrightarrow> journaled B db db"
  by (simp add: journaled_def)

lemma journaled_trans:
  assumes "journaled B a b" "journaled B b d"
  shows "journaled B a d"
proof -
  obtain es fs where "entries b = entries a @ es" "undo_all B (world B b) es = Inr (world B a)"
    "entries d = entries b @ fs" "undo_all B (world B d) fs = Inr (world B b)"
    using assms by (auto simp: journaled_def)
  then have "entries d = entries a @ (es @ fs)" "undo_all B (world B d) (es @ fs) = Inr (world B a)"
    by (simp_all add: undo_all_append)
  then show ?thesis using assms unfolding journaled_def by metis
qed

lemma journaled_quiet:
  "db_ok db' \<Longrightarrow> world B db' = world B db \<Longrightarrow> entries db' = entries db \<Longrightarrow>
   validRevisions db' = validRevisions db \<Longrightarrow> nextRevisionId db' = nextRevisionId db \<Longrightarrow> journaled B db db'"
  by (simp add: journaled_def)

lemma journaled_one:
  assumes "db_ok db'" "entries db' = entries db @ [e]" "undo_world B (world B db') e = Inr (world B db)"
    "validRevisions db' = validRevisions db" "nextRevisionId db' = nextRevisionId db"
  shows "journaled B db db'"
  unfolding journaled_def using assms by (intro conjI exI [of _ "[e]"]) simp_all

lemma world_acct_idem: "accts (world B db) a = Some v \<Longrightarrow> (world B db)\<lparr>accts := (accts (world B db))(a \<mapsto> v)\<rparr> = world B db"
  by (rule World_eqI) auto

lemma createObject_journaled:
  assumes "createObject B db a = (newobj, prev, db')" and ok: "db_ok db"
  shows "journaled B db db'" "stateObjects db' a = Some newobj" "newobj = newObject a (emptyAccount B)"
    "stateValidators db' = stateValidators db"
    "prev = Some p \<Longrightarrow> obj_at B db a = Some p \<and> \<not> deleted p"
proof -
  obtain r db1 where g: "getDeletedStateObject B db a = (r, db1)" by fastforce
  note p = getDeletedStateObject_props [OF g ok]
  let ?o = "newObject a (emptyAccount B)"
  show new: "newobj = ?o" using assms(1) g by (auto simp: createObject_def Let_def split: option.splits)
  have "journaled B db db' \<and> stateObjects db' a = Some newobj \<and> stateValidators db' = stateValidators db
      \<and> (\<forall>q. prev = Some q \<longrightarrow> obj_at B db a = Some q \<and> \<not> deleted q)"
  proof (cases r)
    case None
    let ?d = "setStateObject ?o (journal_append (createObjectChange a) db1)"
    have db': "db' = ?d" and pr: "prev = None" using assms(1) g None by (auto simp: createObject_def Let_def)
    have "accts (world B db) a = None" using p(1) None by simp
    then have "undo_world B (world B ?d) (createObjectChange a) = Inr (world B db)"
      using p(10) [OF None] p(2) by (simp add: world_set) (rule World_eqI; simp)
    then have "journaled B db ?d"
      using p by (intro journaled_one [where e = "createObjectChange a"]) simp_all
    then show ?thesis using db' new pr p(7) by simp
  next
    case (Some q)
    note q = p(9) [OF Some]
    let ?pd = "a \<in> stateObjectsDestruct db1"
    let ?db2 = "db1\<lparr>stateObjectsDestruct := insert a (stateObjectsDestruct db1)\<rparr>"
    let ?d = "setStateObject ?o (journal_append (resetObjectChange q ?pd) ?db2)"
    have db': "db' = ?d" and pr: "prev = (if deleted q then None else Some q)"
      using assms(1) g Some q by (auto simp: createObject_def Let_def split: if_splits)
    have v: "accts (world B db) a = Some (obj_view B ?pd q)" using p(1) [symmetric] p(8) Some by simp
    define v2 where "v2 = accts (world B ?db2) a"
    have w2: "world B ?db2 = (world B db)\<lparr>gone := insert a (stateObjectsDestruct db),
        accts := (\<lambda>x. if x = a then v2 else accts (world B db) x)\<rparr>"
      using p(2,8) arg_cong [OF p(2), of accts]
      by (intro World_eqI) (auto simp: obj_at_def world_def fun_eq_iff v2_def)
    have g': "(if ?pd then insert a (stateObjectsDestruct db) else insert a (stateObjectsDestruct db) - {a})
        = stateObjectsDestruct db"
      using p(8) by auto
    have "world B ?d = (world B db)\<lparr>gone := insert a (stateObjectsDestruct db),
        accts := (accts (world B db))(a \<mapsto> obj_view B True ?o)\<rparr>"
      by (simp only: world_set world_journal w2) (rule World_eqI; simp)
    then have "undo_world B (world B ?d) (resetObjectChange q ?pd) =
        Inr ((world B db)\<lparr>gone := stateObjectsDestruct db, accts := (accts (world B db))(a \<mapsto> obj_view B ?pd q)\<rparr>)"
      using q g' p(8) by (simp add: Let_def insert_absorb)
    also have "\<dots> = Inr (world B db)"
      using v by (simp only: sum.inject) (rule World_eqI; auto)
    finally have "undo_world B (world B ?d) (resetObjectChange q ?pd) = Inr (world B db)" .
    then have "journaled B db ?d"
      using p by (intro journaled_one [where e = "resetObjectChange q ?pd"]) simp_all
    moreover have "obj_at B db a = Some q" using p(1) Some by simp
    ultimately show ?thesis using db' new pr p(7) by simp
  qed
  then show "journaled B db db'" "stateObjects db' a = Some newobj" "stateValidators db' = stateValidators db"
    "prev = Some p \<Longrightarrow> obj_at B db a = Some p \<and> \<not> deleted p"
    by auto
qed

lemma GetOrNew_journaled:
  assumes "GetOrNewStateObject B db a = (s, db')" and ok: "db_ok db"
  shows "journaled B db db'" "stateObjects db' a = Some s" "address s = a" "\<not> deleted s"
    "stateValidators db' = stateValidators db"
    "s = (case live (world B db) a of None \<Rightarrow> newObject a (emptyAccount B) | Some _ \<Rightarrow> the (obj_at B db a))"
proof -
  obtain r db1 where g: "getStateObject B db a = (r, db1)" by fastforce
  note p = getStateObject_props [OF g ok]
  have q: "journaled B db db1" using p by (intro journaled_quiet) simp_all
  have l: "live (world B db) a = None \<longleftrightarrow> r = None"
    using p(1) by (simp add: live_world split: option.split)
  have "journaled B db db' \<and> stateObjects db' a = Some s \<and> address s = a \<and> \<not> deleted s
      \<and> stateValidators db' = stateValidators db
      \<and> s = (case live (world B db) a of None \<Rightarrow> newObject a (emptyAccount B) | Some _ \<Rightarrow> the (obj_at B db a))"
  proof (cases r)
    case (Some o')
    then have "s = o'" "db' = db1" using assms(1) g by (auto simp: GetOrNewStateObject_def)
    moreover have "obj_at B db a = Some o'" using p(1) Some by (auto split: option.splits if_splits)
    ultimately show ?thesis using q p(7) p(9) [OF Some] l Some by (auto split: option.splits)
  next
    case None
    obtain no pr db2 where c: "createObject B db1 a = (no, pr, db2)" by (metis prod_cases3)
    note cj = createObject_journaled [OF c p(3)]
    have "s = no" "db' = db2" using assms(1) g None c by (auto simp: GetOrNewStateObject_def)
    then show ?thesis using cj(1,2,3,4) p(7) journaled_trans [OF q] l None by (simp add: newObject_def)
  qed
  then show "journaled B db db'" "stateObjects db' a = Some s" "address s = a" "\<not> deleted s"
    "stateValidators db' = stateValidators db"
    "s = (case live (world B db) a of None \<Rightarrow> newObject a (emptyAccount B) | Some _ \<Rightarrow> the (obj_at B db a))"
    by auto
qed

text \<open>A change to one live object, undone by an entry that knows the old value.\<close>

lemma object_change_journaled:
  assumes s: "stateObjects db a = Some s" "\<not> deleted s" and ok: "db_ok db"
    and f: "address s' = address s"
    and undo: "undo_world B ((world B db)\<lparr>accts := (accts (world B db))(a \<mapsto> obj_view B (a \<in> stateObjectsDestruct db) s')\<rparr>) e
      = Inr ((world B db)\<lparr>accts := (accts (world B db))(a \<mapsto> obj_view B (a \<in> stateObjectsDestruct db) s)\<rparr>)"
  shows "journaled B db (setStateObject s' (journal_append e db))"
proof -
  have a: "address s = a" using s(1) ok by (simp add: db_ok_def)
  have v: "accts (world B db) a = Some (obj_view B (a \<in> stateObjectsDestruct db) s)"
    using s(1) by (simp add: obj_at_def)
  show ?thesis
    using undo world_acct_idem [OF v] f a ok
    by (intro journaled_one [where e = e]) (simp_all add: world_set)
qed

lemma on_live_upd [simp]:
  "\<not> vDeleted v \<Longrightarrow> on_live (w\<lparr>accts := (accts w)(a \<mapsto> v)\<rparr>) a f = Inr (w\<lparr>accts := (accts w)(a \<mapsto> f v)\<rparr>)"
  by (simp add: on_live_def live_def)

lemma put_simps [simp]:
  "vDeleted (put_balance x v) = vDeleted v" "vDeleted (put_nonce n v) = vDeleted v"
  "vDeleted (put_state k y v) = vDeleted v" "vDeleted (put_code h c0 v) = vDeleted v"
  "put_balance x (put_balance x' v) = put_balance x v" "put_nonce n (put_nonce n' v) = put_nonce n v"
  "put_state k y (put_state k y' v) = put_state k y v" "put_code h c0 (put_code h' c' v) = put_code h c0 v"
  by (simp_all add: put_balance_def put_nonce_def put_state_def put_code_def)

lemma put_same [simp]:
  "put_balance (Balance (vData v)) v = v" "put_nonce (Nonce (vData v)) v = v"
  "put_state k (vState v k) v = v" "put_code (CodeHash (vData v)) (vCode v) v = v"
  by (simp_all add: put_balance_def put_nonce_def put_state_def put_code_def)

lemma obj_view_sel [simp]:
  "vDeleted (obj_view B d s) = deleted s" "vData (obj_view B d s) = data s" "vCode (obj_view B d s) = Object_Code B s"
  "vSuicided (obj_view B d s) = suicided s" "vCommitted (obj_view B d s) = committed_at B d s"
  by (simp_all add: obj_view_def)

lemma put_balance_obj [simp]: "put_balance (Balance (data s)) (obj_view B d s) = obj_view B d s"
  using put_same(1) [of "obj_view B d s"] by simp

lemma put_nonce_obj [simp]: "put_nonce (Nonce (data s)) (obj_view B d s) = obj_view B d s"
  using put_same(2) [of "obj_view B d s"] by simp

lemma put_code_obj [simp]: "put_code (CodeHash (data s)) (Object_Code B s) (obj_view B d s) = obj_view B d s"
  using put_same(4) [of "obj_view B d s"] by simp

text \<open>
  A reverted code change always clears the validator mark of the object; the code read afterwards
  is nevertheless the old one.
\<close>

lemma load_code_prev: "address s = a \<Longrightarrow> load_code B a False (CodeHash (data s)) (Object_Code B s) = Object_Code B s"
  by (auto simp: load_code_def Object_Code_def Let_def split: option.splits)

lemma setBalance_journaled:
  assumes "stateObjects db a = Some s" "\<not> deleted s" "db_ok db"
  shows "journaled B db (setStateObject (Object_setBalance x s) (journal_append (balanceChange a (Balance (data s))) db))"
  by (rule object_change_journaled [OF assms]) (use assms in \<open>simp_all add: obj_view_put\<close>)

lemma setNonce_journaled:
  assumes "stateObjects db a = Some s" "\<not> deleted s" "db_ok db"
  shows "journaled B db (setStateObject (Object_setNonce x s) (journal_append (nonceChange a (Nonce (data s))) db))"
  by (rule object_change_journaled [OF assms]) (use assms in \<open>simp_all add: obj_view_put\<close>)

lemma setCode_journaled:
  assumes "stateObjects db a = Some s" "\<not> deleted s" "db_ok db"
  shows "journaled B db (setStateObject (Object_setCode h c0 vw s)
           (journal_append (codeChange a (Object_Code B s) (CodeHash (data s))) db))"
proof -
  have "address s = a" using assms by (simp add: db_ok_def)
  then show ?thesis using assms
    by (intro object_change_journaled [OF assms]) (simp_all add: obj_view_code load_code_prev)
qed

lemma GetState_view:
  assumes "Object_GetState B d s k = (v, s')"
  shows "v = vState (obj_view B d s) k" "obj_view B d s' = obj_view B d s" "address s' = address s" "deleted s' = deleted s"
proof -
  have code: "Object_Code B (s\<lparr>originStorage := m\<rparr>) = Object_Code B s" for m
    by (rule Object_Code_cong) simp_all
  have com: "committed_at B d (s\<lparr>originStorage := (originStorage s)(k \<mapsto> trieSlot B (address s) (Root (data s)) k)\<rparr>) = committed_at B d s"
    if "originStorage s k = None" "pendingStorage s k = None" "\<not> d"
    using that by (auto simp: committed_at_def fun_eq_iff split: option.split)
  have "v = vState (obj_view B d s) k \<and> obj_view B d s' = obj_view B d s \<and> address s' = address s \<and> deleted s' = deleted s"
  proof (cases "dirtyStorage s k = None \<and> pendingStorage s k = None \<and> originStorage s k = None \<and> \<not> d")
    case True
    then show ?thesis using assms com code
      by (auto simp: Object_GetState_def Object_GetCommittedState_def obj_view_def cong: option.case_cong)
  next
    case False
    then show ?thesis using assms
      by (auto simp: Object_GetState_def Object_GetCommittedState_def obj_view_def split: option.splits if_splits)
  qed
  then show "v = vState (obj_view B d s) k" "obj_view B d s' = obj_view B d s" "address s' = address s" "deleted s' = deleted s"
    by auto
qed

lemma SetState_journaled:
  assumes "db_ok db"
  shows "journaled B db (SetState B db a k v)"
proof -
  obtain s db1 where g: "GetOrNewStateObject B db a = (s, db1)" by fastforce
  note p = GetOrNew_journaled [OF g assms]
  have ok1: "db_ok db1" using p(1) by (simp add: journaled_def)
  obtain prev s' where gs: "Object_GetState B (a \<in> stateObjectsDestruct db1) s k = (prev, s')" by fastforce
  note q = GetState_view [OF gs]
  have same: "world B (setStateObject s' db1) = world B db1"
    using p(2,3) q(2,3) by (simp add: world_set) (rule World_eqI; simp add: obj_at_def)
  have quiet: "journaled B db1 (setStateObject s' db1)"
    using ok1 same by (intro journaled_quiet) simp_all
  show ?thesis
  proof (cases "prev = v")
    case True
    then have "SetState B db a k v = setStateObject s' db1" using g gs p(3) by (simp add: SetState_def)
    then show ?thesis using journaled_trans [OF p(1) quiet] by simp
  next
    case False
    let ?db2 = "setStateObject s' db1"
    have "SetState B db a k v = setStateObject (Object_setState k v s') (journal_append (storageChange a k prev) db1)"
      using g gs p(3) q(3) False by (simp add: SetState_def)
    moreover have "setStateObject (Object_setState k v s') (journal_append (storageChange a k prev) db1)
        = setStateObject (Object_setState k v s') (journal_append (storageChange a k prev) ?db2)"
      by (simp add: setStateObject_def journal_append_def Let_def)
    moreover have "journaled B ?db2 (setStateObject (Object_setState k v s') (journal_append (storageChange a k prev) ?db2))"
    proof (rule object_change_journaled)
      show "stateObjects ?db2 a = Some s'" using q(3) p(3) by simp
      show "\<not> deleted s'" "db_ok ?db2" using q(4) p(4) ok1 by simp_all
      have "put_state k prev (obj_view B d s') = obj_view B d s'" if "d = (a \<in> stateObjectsDestruct db1)" for d
        using put_same(3) [of k "obj_view B d s'"] q(1,2) that by simp
      then show "undo_world B ((world B ?db2)\<lparr>accts := (accts (world B ?db2))(a \<mapsto> obj_view B (a \<in> stateObjectsDestruct ?db2) (Object_setState k v s'))\<rparr>) (storageChange a k prev)
          = Inr ((world B ?db2)\<lparr>accts := (accts (world B ?db2))(a \<mapsto> obj_view B (a \<in> stateObjectsDestruct ?db2) s')\<rparr>)"
        using q(4) p(4) by (simp add: obj_view_put)
    qed simp
    ultimately show ?thesis using journaled_trans [OF journaled_trans [OF p(1) quiet]] by simp
  qed
qed

text \<open>A write to the object that \<open>GetOrNewStateObject\<close> returns.\<close>

lemma GetOrNew_then:
  assumes ok: "db_ok db"
    and step: "\<And>s db1. stateObjects db1 a = Some s \<Longrightarrow> \<not> deleted s \<Longrightarrow> address s = a \<Longrightarrow> db_ok db1 \<Longrightarrow> journaled B db1 (f s db1)"
  shows "journaled B db (case GetOrNewStateObject B db a of (s, db1) \<Rightarrow> f s db1)"
proof -
  obtain s db1 where g: "GetOrNewStateObject B db a = (s, db1)" by fastforce
  note p = GetOrNew_journaled [OF g ok]
  have "db_ok db1" using p(1) by (simp add: journaled_def)
  from journaled_trans [OF p(1) step [OF p(2,4,3) this]] show ?thesis by (simp add: g)
qed

lemma SetBalance_journaled: "db_ok db \<Longrightarrow> journaled B db (SetBalance B db a x)"
  unfolding SetBalance_def by (erule GetOrNew_then) (simp add: setBalance_journaled)

lemma touch_journaled: "db_ok db \<Longrightarrow> journaled B db (journal_append (touchChange a) db)"
  by (rule journaled_one [where e = "touchChange a"]) simp_all

lemma dirties_journaled: "journaled B db db' \<Longrightarrow> journaled B db (db'\<lparr>dirties := x\<rparr>)"
  by (simp add: journaled_def)

lemma AddBalance_journaled: "db_ok db \<Longrightarrow> journaled B db (AddBalance B db a x)"
  unfolding AddBalance_def
  by (erule GetOrNew_then) (simp add: setBalance_journaled touch_journaled journaled_refl dirties_journaled Let_def)

lemma SubBalance_journaled: "db_ok db \<Longrightarrow> journaled B db (SubBalance B db a x)"
  unfolding SubBalance_def by (erule GetOrNew_then) (simp add: setBalance_journaled journaled_refl)

lemma SetNonce_journaled: "db_ok db \<Longrightarrow> journaled B db (SetNonce B db a x)"
  unfolding SetNonce_def by (erule GetOrNew_then) (simp add: setNonce_journaled)

lemma SetCode_journaled: "db_ok db \<Longrightarrow> journaled B db (SetCode B db a c0 vw)"
  unfolding SetCode_def by (erule GetOrNew_then) (simp add: setCode_journaled)

lemma Suicide_journaled:
  assumes ok: "db_ok db"
  shows "journaled B db (snd (Suicide B db a))"
proof -
  obtain r db1 where g: "getStateObject B db a = (r, db1)" by fastforce
  note p = getStateObject_props [OF g ok]
  have q: "journaled B db db1" using p by (intro journaled_quiet) simp_all
  show ?thesis
  proof (cases r)
    case None
    then show ?thesis using q by (simp add: Suicide_def g)
  next
    case (Some s)
    note s = p(9) [OF Some]
    have "journaled B db1 (setStateObject (Object_setBalance 0 (s\<lparr>suicided := True\<rparr>))
            (journal_append (suicideChange a (suicided s) (Balance (data s))) db1))"
    proof (rule object_change_journaled)
      show "stateObjects db1 a = Some s" "\<not> deleted s" "db_ok db1" using s p(3) by auto
      have "put_balance (Balance (data s)) ((put_balance 0 ((obj_view B d s)\<lparr>vSuicided := True\<rparr>))\<lparr>vSuicided := suicided s\<rparr>)
          = obj_view B d s" for d
        by (simp add: obj_view_def put_balance_def)
      then show "undo_world B ((world B db1)\<lparr>accts := (accts (world B db1))(a \<mapsto> obj_view B (a \<in> stateObjectsDestruct db1) (Object_setBalance 0 (s\<lparr>suicided := True\<rparr>)))\<rparr>)
           (suicideChange a (suicided s) (Balance (data s)))
          = Inr ((world B db1)\<lparr>accts := (accts (world B db1))(a \<mapsto> obj_view B (a \<in> stateObjectsDestruct db1) s)\<rparr>)"
        using s by (simp add: obj_view_put live_def)
    qed simp
    then show ?thesis using journaled_trans [OF q] by (simp add: Suicide_def g Some)
  qed
qed

lemma CreateAccount_journaled:
  assumes ok: "db_ok db"
  shows "journaled B db (CreateAccount B db a)"
proof -
  obtain n pr db1 where c: "createObject B db a = (n, pr, db1)" by (metis prod_cases3)
  note p = createObject_journaled [OF c ok]
  show ?thesis
  proof (cases pr)
    case None
    then show ?thesis using p(1) by (simp add: CreateAccount_def c)
  next
    case (Some q)
    have n: "address n = a" using p(3) by simp
    obtain es where es: "entries db1 = entries db @ es" "undo_all B (world B db1) es = Inr (world B db)"
      using p(1) by (auto simp: journaled_def)
    obtain e where e: "es = [e]" "e = createObjectChange a \<or> (\<exists>q pd. e = resetObjectChange q pd \<and> address q = a)"
      using c es(1) getDeletedStateObject_props(4,9) [OF prod.collapse [symmetric] ok, of B a]
      by (auto simp: createObject_def Let_def split: prod.splits option.splits)
    have "undo_world B (world B (setStateObject (Object_setBalance x n) db1)) e = undo_world B (world B db1) e" for x
      using e(2) n by (auto simp: world_set Let_def intro!: World_eqI)
    then have "journaled B db (setStateObject (Object_setBalance x n) db1)" for x
      using p(1) es e(1) by (simp add: journaled_def)
    then show ?thesis by (simp add: CreateAccount_def c Some)
  qed
qed

lemma journal_append_other [simp]:
  "thash (journal_append e db) = thash db" "bhash (journal_append e db) = bhash db" "txIndex (journal_append e db) = txIndex db"
  "logs (journal_append e db) = logs db" "logSize (journal_append e db) = logSize db" "preimages (journal_append e db) = preimages db"
  "theTransientStorage (journal_append e db) = theTransientStorage db" "theAccessList (journal_append e db) = theAccessList db"
  by (simp_all add: journal_append_def Let_def split: option.split)

lemma AddRefund_journaled: "db_ok db \<Longrightarrow> journaled B db (AddRefund db g)"
  unfolding AddRefund_def by (rule journaled_one [where e = "refundChange (refund db)"]) (simp_all add: world_def obj_at_def)

lemma SubRefund_journaled: "db_ok db \<Longrightarrow> SubRefund db g = Inr db' \<Longrightarrow> journaled B db db'"
  by (rule journaled_one [where e = "refundChange (refund db)"])
    (auto simp: SubRefund_def Let_def world_def obj_at_def split: if_splits)

lemma AddLog_journaled: "db_ok db \<Longrightarrow> journaled B db (AddLog db l)"
proof (rule journaled_one [where e = "addLogChange (thash db)"])
  assume "db_ok db"
  have o: "(case logs db (thash db) of None \<Rightarrow> [] | Some l \<Rightarrow> l) = logs_of (logs db) (thash db)"
    by (simp add: logs_of_def)
  show "undo_world B (world B (AddLog db l)) (addLogChange (thash db)) = Inr (world B db)"
    by (simp add: AddLog_def Let_def o)
qed (simp_all add: AddLog_def Let_def)

lemma AddPreimage_journaled: "db_ok db \<Longrightarrow> journaled B db (AddPreimage db h x)"
proof (cases "preimages db h = None")
  case True
  assume ok: "db_ok db"
  have "(preimages db)(h := None) = preimages db" using True by auto
  then have "undo_world B (world B (AddPreimage db h x)) (addPreimageChange h) = Inr (world B db)"
    using True by (simp add: AddPreimage_def)
  then show ?thesis using ok True
    by (intro journaled_one [where e = "addPreimageChange h"]) (simp_all add: AddPreimage_def)
next
  case False
  assume "db_ok db"
  then show ?thesis using False by (auto simp: AddPreimage_def journaled_refl)
qed

lemma SetTransientState_journaled: "db_ok db \<Longrightarrow> journaled B db (SetTransientState db a k v)"
proof (cases "transient_Get (theTransientStorage db) a k = v")
  case True
  assume "db_ok db"
  then show ?thesis using True by (simp add: SetTransientState_def journaled_refl)
next
  case False
  assume ok: "db_ok db"
  let ?e = "transientStorageChange a k (transient_Get (theTransientStorage db) a k)"
  have "undo_world B (world B (SetTransientState db a k v)) ?e = Inr (world B db)"
    using False by (simp add: SetTransientState_def Let_def transient_Get_Set)
  then show ?thesis using ok False
    by (intro journaled_one [where e = ?e]) (simp_all add: SetTransientState_def Let_def)
qed

subsection \<open>The access list\<close>

text \<open>Every index points to a non-empty set of slots; no two addresses share one.\<close>

definition access_ok :: "accessList \<Rightarrow> bool" where
  "access_ok al \<longleftrightarrow> (\<forall>a i. addresses al a = Some i \<longrightarrow> i = -1 \<or> 0 \<le> i \<and> nat i < length (slots al))
     \<and> (\<forall>s\<in>set (slots al). s \<noteq> {})"

lemma accessList_eqI: "addresses al = addresses al' \<Longrightarrow> slots al = slots al' \<Longrightarrow> al = (al' :: accessList)"
  by (rule accessList.equality) simp_all

lemma AddAddress_undo:
  assumes "AddAddress al a = (added, al')"
  shows "added \<Longrightarrow> DeleteAddress al' a = al" "\<not> added \<Longrightarrow> al' = al" "access_ok al \<Longrightarrow> access_ok al'"
proof -
  consider (old) "\<not> added" "al' = al"
    | (new) "added" "addresses al a = None" "al' = al\<lparr>addresses := (addresses al)(a \<mapsto> -1)\<rparr>"
    using assms by (auto simp: AddAddress_def split: if_splits)
  then have "(added \<longrightarrow> DeleteAddress al' a = al) \<and> (\<not> added \<longrightarrow> al' = al) \<and> (access_ok al \<longrightarrow> access_ok al')"
  proof cases
    case new
    have "(addresses al)(a := None) = addresses al" using new(2) by auto
    then have "DeleteAddress al' a = al" by (simp add: new(3) DeleteAddress_def)
    moreover have "access_ok al \<longrightarrow> access_ok al'" by (simp add: new(3) access_ok_def)
    ultimately show ?thesis using new(1) by simp
  qed simp
  then show "added \<Longrightarrow> DeleteAddress al' a = al" "\<not> added \<Longrightarrow> al' = al" "access_ok al \<Longrightarrow> access_ok al'"
    by auto
qed

lemma append_slots_ok:
  assumes "access_ok al"
  shows "access_ok (al\<lparr>addresses := (addresses al)(a \<mapsto> int (length (slots al))), slots := slots al @ [{s}]\<rparr>)"
  unfolding access_ok_def
proof (intro conjI allI impI)
  fix b i
  assume "addresses (al\<lparr>addresses := (addresses al)(a \<mapsto> int (length (slots al))), slots := slots al @ [{s}]\<rparr>) b = Some i"
  then have "i = int (length (slots al)) \<or> addresses al b = Some i" by (simp split: if_splits)
  moreover have "addresses al b = Some i \<Longrightarrow> i = -1 \<or> 0 \<le> i \<and> nat i < length (slots al)"
    using assms by (simp add: access_ok_def)
  ultimately show "i = -1 \<or> 0 \<le> i \<and> nat i < length (slots (al\<lparr>addresses := (addresses al)(a \<mapsto> int (length (slots al))), slots := slots al @ [{s}]\<rparr>))"
    by auto
qed (use assms in \<open>auto simp: access_ok_def\<close>)

lemma append_slots_undo:
  "DeleteSlot (al\<lparr>addresses := (addresses al)(a \<mapsto> int (length (slots al))), slots := slots al @ [{s}]\<rparr>) a s
   = Inr (al\<lparr>addresses := (addresses al)(a \<mapsto> -1)\<rparr>)"
  by (simp add: DeleteSlot_def)

lemma AddSlot_undo:
  assumes add: "AddSlot al a s = Inr (addrMod, slotMod, al')" and ok: "access_ok al"
  shows "\<not> slotMod \<Longrightarrow> al' = al \<and> \<not> addrMod"
    "slotMod \<Longrightarrow> \<exists>al''. DeleteSlot al' a s = Inr al'' \<and> (if addrMod then DeleteAddress al'' a else al'') = al"
    "access_ok al'"
proof -
  consider (new) "addresses al a = None" | (empty) "addresses al a = Some (-1)"
    | (old) i where "addresses al a = Some i" "0 \<le> i" "nat i < length (slots al)"
    using ok by (cases "addresses al a") (auto simp: access_ok_def)
  then have "(\<not> slotMod \<longrightarrow> al' = al \<and> \<not> addrMod) \<and>
    (slotMod \<longrightarrow> (\<exists>al''. DeleteSlot al' a s = Inr al'' \<and> (if addrMod then DeleteAddress al'' a else al'') = al)) \<and> access_ok al'"
  proof cases
    case new
    then have "al' = al\<lparr>addresses := (addresses al)(a \<mapsto> int (length (slots al))), slots := slots al @ [{s}]\<rparr>"
      "addrMod" "slotMod" using add by (auto simp: AddSlot_def)
    then show ?thesis using new append_slots_ok [OF ok] append_slots_undo
      by (auto simp: DeleteAddress_def fun_upd_idem intro!: accessList_eqI)
  next
    case empty
    then have "al' = al\<lparr>addresses := (addresses al)(a \<mapsto> int (length (slots al))), slots := slots al @ [{s}]\<rparr>"
      "\<not> addrMod" "slotMod" using add by (auto simp: AddSlot_def)
    then show ?thesis using empty append_slots_ok [OF ok] append_slots_undo
      by (auto simp: fun_upd_idem intro!: accessList_eqI)
  next
    case old
    let ?m = "slots al ! nat i"
    have ne: "?m \<noteq> {}" using ok old(3) by (simp add: access_ok_def)
    show ?thesis
    proof (cases "s \<in> ?m")
      case True
      then show ?thesis using add old ok by (auto simp: AddSlot_def)
    next
      case False
      then have e: "al' = al\<lparr>slots := (slots al)[nat i := insert s ?m]\<rparr>" "\<not> addrMod" "slotMod"
        using add old by (auto simp: AddSlot_def)
      have m: "insert s ?m - {s} = ?m" using False by auto
      have "DeleteSlot al' a s = Inr al" using old ne m
        by (simp add: DeleteSlot_def e Let_def)
      moreover have "access_ok al'"
        using ok unfolding e access_ok_def by (auto dest!: set_update_subset_insert [THEN subsetD])
      ultimately show ?thesis using e(2,3) by simp
    qed
  qed
  then show "\<not> slotMod \<Longrightarrow> al' = al \<and> \<not> addrMod"
    "slotMod \<Longrightarrow> \<exists>al''. DeleteSlot al' a s = Inr al'' \<and> (if addrMod then DeleteAddress al'' a else al'') = al"
    "access_ok al'" by auto
qed

lemma AddAddressToAccessList_journaled:
  assumes "db_ok db"
  shows "journaled B db (AddAddressToAccessList db a)"
proof -
  obtain added al where add: "AddAddress (theAccessList db) a = (added, al)" by fastforce
  note u = AddAddress_undo [OF add]
  show ?thesis
  proof (cases added)
    case True
    then show ?thesis using u(1) assms
      by (intro journaled_one [where e = "accessListAddAccountChange a"])
        (simp_all add: AddAddressToAccessList_def add Let_def)
  next
    case False
    then show ?thesis using u(2) assms
      by (intro journaled_quiet) (auto simp: AddAddressToAccessList_def add Let_def intro: World_eqI)
  qed
qed

lemma AddSlotToAccessList_journaled:
  assumes "db_ok db" "access_ok (theAccessList db)" "AddSlotToAccessList db a s = Inr db'"
  shows "journaled B db db'"
proof -
  obtain am sm al where add: "AddSlot (theAccessList db) a s = Inr (am, sm, al)"
    using assms(3) by (auto simp: AddSlotToAccessList_def)
  note u = AddSlot_undo [OF add assms(2)]
  let ?d0 = "db\<lparr>theAccessList := al\<rparr>"
  let ?d1 = "if am then journal_append (accessListAddAccountChange a) ?d0 else ?d0"
  have db': "db' = (if sm then journal_append (accessListAddSlotChange a s) ?d1 else ?d1)"
    using assms(3) by (simp add: AddSlotToAccessList_def add Let_def)
  have id: "(world B db)\<lparr>wAccess := theAccessList db\<rparr> = world B db" by (rule World_eqI) simp_all
  show ?thesis
  proof (cases sm)
    case False
    then show ?thesis using u(1) db' assms(1) id by (intro journaled_quiet) auto
  next
    case True
    then obtain al2 where al2: "DeleteSlot al a s = Inr al2" "(if am then DeleteAddress al2 a else al2) = theAccessList db"
      using u(2) by auto
    let ?es = "(if am then [accessListAddAccountChange a] else []) @ [accessListAddSlotChange a s]"
    have "entries db' = entries db @ ?es" using db' True by simp
    moreover have "undo_all B (world B db') ?es = Inr (world B db)"
      using al2 id True unfolding db' by (simp add: undo_all_append split: if_splits)
    ultimately show ?thesis using assms(1) True unfolding journaled_def
      by (intro conjI exI [of _ ?es]) (simp_all add: db')
  qed
qed

section \<open>Validators in the state\<close>

text \<open>
  A validator wrapper is RLP-encoded in the code of its account and cached decoded. A cached nil
  pointer is \<open>Some None\<close>. A request for a copy dereferences the cached pointer.
\<close>

definition ValidatorWrapper_get ::
  "backend \<Rightarrow> DB \<Rightarrow> Address \<Rightarrow> bool \<Rightarrow> bool \<Rightarrow> (ValidatorWrapper option \<times> DB) go" where
  "ValidatorWrapper_get B db addr sendOriginal copyDelegations =
     (if sendOriginal \<and> copyDelegations then Inl (Panic ''Cannot revert must not expect copy of delegations'')
      else
        (case stateValidators db addr of
           Some cached \<Rightarrow>
             if sendOriginal then Inr (cached, db) else go_bind (deref cached) (\<lambda>w. Inr (Some w, db))
         | None \<Rightarrow>
             (case getStateObject B db addr of (obj, db) \<Rightarrow>
                (case Option.bind obj (Object_Code B) of
                   None \<Rightarrow> Inl (Error ''ErrAddressNotPresent'')
                 | Some by' \<Rightarrow>
                     if length by' = 0 then Inl (Error ''ErrAddressNotPresent'')
                     else go_bind (decodeWrapper B by') (\<lambda>val.
                            Inr (Some val, db\<lparr>stateValidators := (stateValidators db)(addr := Some (Some val))\<rparr>))))))"

definition UpdateValidatorWrapper :: "backend \<Rightarrow> DB \<Rightarrow> Address \<Rightarrow> ValidatorWrapper \<Rightarrow> DB go" where
  "UpdateValidatorWrapper B db addr val =
     go_bind (SanityCheck val) (\<lambda>_.
     go_bind (encodeWrapper B val) (\<lambda>by'.
       let db = SetCode B db addr by' True
       in Inr (db\<lparr>stateValidators := (stateValidators db)(addr := Some (Some val))\<rparr>)))"

definition UpdateValidatorWrapperWithRevert :: "backend \<Rightarrow> DB \<Rightarrow> Address \<Rightarrow> ValidatorWrapper \<Rightarrow> DB go" where
  "UpdateValidatorWrapperWithRevert B db addr val =
     go_bind (SanityCheck val) (\<lambda>_.
     go_bind (case ValidatorWrapper_get B db addr True False of
                Inr (prev, db) \<Rightarrow> Inr (prev, db)
              | Inl e \<Rightarrow> if e = Error ''ErrAddressNotPresent'' then Inr (None, db) else Inl e) (\<lambda>(prev, db).
     go_bind (UpdateValidatorWrapper B db addr val) (\<lambda>db.
       Inr (journal_append (validatorWrapperChange addr prev) db))))"

definition IsValidatorKey :: "backend \<Rightarrow> Hash" where
  "IsValidatorKey B = Keccak256Hash B (map of_char ''Intelchain/IsValidator/Key/v1'')"

definition IsValidatorHash :: "backend \<Rightarrow> Hash" where
  "IsValidatorHash B = Keccak256Hash B (map of_char ''Intelchain/IsValidator/Value/v1'')"

definition FirstElectionEpochKey :: "backend \<Rightarrow> Hash" where
  "FirstElectionEpochKey B = Keccak256Hash B (map of_char ''Intelchain/FirstElectionEpoch/Key/v1'')"

definition SetValidatorFlag :: "backend \<Rightarrow> DB \<Rightarrow> Address \<Rightarrow> DB" where
  "SetValidatorFlag B db addr = SetState B db addr (IsValidatorKey B) (IsValidatorHash B)"

definition UnsetValidatorFlag :: "backend \<Rightarrow> DB \<Rightarrow> Address \<Rightarrow> DB" where
  "UnsetValidatorFlag B db addr = SetState B db addr (IsValidatorKey B) 0"

definition IsValidator :: "backend \<Rightarrow> DB \<Rightarrow> Address \<Rightarrow> bool" where
  "IsValidator B db addr =
     (case fst (getStateObject B db addr) of
        None \<Rightarrow> False
      | Some so \<Rightarrow> fst (Object_GetState B (addr \<in> stateObjectsDestruct db) so (IsValidatorKey B)) \<noteq> 0)"

definition GetValidatorFirstElectionEpoch :: "backend \<Rightarrow> DB \<Rightarrow> Address \<Rightarrow> int go" where
  "GetValidatorFirstElectionEpoch B db addr =
     (case fst (getStateObject B db addr) of
        None \<Rightarrow> Inl (Panic ''nil pointer'')
      | Some so \<Rightarrow> Inr (uint (fst (Object_GetState B (addr \<in> stateObjectsDestruct db) so (FirstElectionEpochKey B)))))"

definition SetValidatorFirstElectionEpoch :: "backend \<Rightarrow> DB \<Rightarrow> Address \<Rightarrow> int \<Rightarrow> DB go" where
  "SetValidatorFirstElectionEpoch B db addr epoch =
     go_bind (GetValidatorFirstElectionEpoch B db addr) (\<lambda>firstEpoch.
       Inr (if Uint64 firstEpoch = 0 then SetState B db addr (FirstElectionEpochKey B) (word_of_int epoch) else db))"

text \<open>What a reader gets, whether or not the wrapper is cached already.\<close>

definition wrapper_at :: "backend \<Rightarrow> DB \<Rightarrow> Address \<Rightarrow> ValidatorWrapper go" where
  "wrapper_at B db a = go_bind (ValidatorWrapper_get B db a False False) (\<lambda>(w, _). deref w)"

end
