(* ===== verification/Snapshots.thy ===== *)
theory Snapshots
  imports StateDB
begin

text \<open>
  Snapshots of the account state and reverting to them (\<open>Snapshot\<close>, \<open>RevertToSnapshot\<close> of
  \<open>core/state/statedb.go\<close> over the journal of \<open>journal.go\<close>).

  An operation of the database is a value of \<open>dbop\<close>, executed by \<open>exec\<close>; \<open>db_step\<close> adds snapshots and
  reverts to snapshots taken later than a base revision. The ghost list of worlds kept by \<open>rev_inv\<close>
  holds, for every valid revision, the world of the moment it was taken; undoing the journal entries
  written since then leads back to it. The main result says that a revert after any run gives exactly
  the world, the journal and the revisions of the snapshot.
\<close>

section \<open>Binary search\<close>

lemma search_loop_first:
  assumes "\<And>x y. x \<le> y \<Longrightarrow> y < n \<Longrightarrow> f x \<Longrightarrow> f y" "i \<le> j" "j \<le> n" "\<And>k. k < i \<Longrightarrow> \<not> f k" "j < n \<Longrightarrow> f j"
  shows "search_loop f i j \<le> n \<and> (\<forall>k < search_loop f i j. \<not> f k) \<and> (search_loop f i j < n \<longrightarrow> f (search_loop f i j))"
  using assms
proof (induction f i j rule: search_loop.induct)
  case (1 f i j)
  show ?case
  proof (cases "i < j")
    case False
    then have "search_loop f i j = j" using "1.prems"(2) by (subst search_loop.simps) simp
    then show ?thesis using False "1.prems" by simp
  next
    case True
    define h where "h = (i + j) div 2"
    have h: "i \<le> h" "h < j" using True by (auto simp: h_def)
    show ?thesis
    proof (cases "f h")
      case True
      have "search_loop f i j = search_loop f i h"
        using True \<open>i < j\<close> by (subst search_loop.simps) (simp add: Let_def h_def [symmetric])
      moreover have "search_loop f i h \<le> n \<and> (\<forall>k < search_loop f i h. \<not> f k) \<and> (search_loop f i h < n \<longrightarrow> f (search_loop f i h))"
        using "1.IH"(2) [OF \<open>i < j\<close> h_def _ "1.prems"(1) h(1) _ "1.prems"(4) True] h "1.prems"(3) True by simp
      ultimately show ?thesis by simp
    next
      case False
      have below: "\<not> f k" if "k < h + 1" for k
        using "1.prems"(1) [of k h] "1.prems"(3) h False that by auto
      have "search_loop f (h + 1) j \<le> n \<and> (\<forall>k < search_loop f (h + 1) j. \<not> f k) \<and> (search_loop f (h + 1) j < n \<longrightarrow> f (search_loop f (h + 1) j))"
        using "1.IH"(1) [OF \<open>i < j\<close> h_def False "1.prems"(1) _ "1.prems"(3) below "1.prems"(5)] h by simp
      moreover have "search_loop f i j = search_loop f (h + 1) j"
        using False \<open>i < j\<close> by (subst search_loop.simps) (simp add: Let_def h_def [symmetric])
      ultimately show ?thesis by simp
    qed
  qed
qed

lemma Search_first:
  assumes "\<And>x y. x \<le> y \<Longrightarrow> y < n \<Longrightarrow> f x \<Longrightarrow> f y"
  shows "Search n f \<le> n" "k < Search n f \<Longrightarrow> \<not> f k" "Search n f < n \<Longrightarrow> f (Search n f)"
  using search_loop_first [of n f 0 n, OF assms] by (auto simp: Search_def)

lemma Search_revision:
  assumes "sorted_wrt (<) (map fst vs)"
  shows "(\<exists>i < length vs. fst (vs ! i) = r) \<longleftrightarrow>
      Search (length vs) (\<lambda>i. fst (vs ! i) \<ge> (r :: int)) < length vs \<and> fst (vs ! Search (length vs) (\<lambda>i. fst (vs ! i) \<ge> r)) = r"
    and "i < length vs \<Longrightarrow> fst (vs ! i) = r \<Longrightarrow> Search (length vs) (\<lambda>i. fst (vs ! i) \<ge> r) = i"
    and "Search (length vs) (\<lambda>i. fst (vs ! i) \<ge> r) \<le> length vs"
proof -
  let ?s = "Search (length vs) (\<lambda>i. fst (vs ! i) \<ge> r)"
  have lt: "fst (vs ! x) < fst (vs ! y)" if "x < y" "y < length vs" for x y
    using sorted_wrt_nth_less [OF assms, of x y] that by simp
  have mono: "r \<le> fst (vs ! y)" if "x \<le> y" "y < length vs" "r \<le> fst (vs ! x)" for x y
    using that lt [of x y] by (cases "x = y") auto
  note S = Search_first [of "length vs" "\<lambda>i. fst (vs ! i) \<ge> r", OF mono]
  show "?s \<le> length vs" by (rule S(1))
  show at: "i < length vs \<Longrightarrow> fst (vs ! i) = r \<Longrightarrow> ?s = i" for i
    using S(1) S(2) [where k = i] S(3) lt [of ?s i] by (cases "?s < i"; cases "?s = i") auto
  show "(\<exists>i < length vs. fst (vs ! i) = r) \<longleftrightarrow> ?s < length vs \<and> fst (vs ! ?s) = r"
    using at by auto
qed

section \<open>Undoing on the database\<close>

lemma on_object_next: "db_ok db \<Longrightarrow> on_object B db a f = Inr db' \<Longrightarrow> nextRevisionId db' = nextRevisionId db"
  by (auto simp: on_object_def dest: getStateObject_props(6) split: option.splits prod.splits)

lemma revert_next:
  assumes "db_ok db" "revert B e db = Inr db'"
  shows "nextRevisionId db' = nextRevisionId db"
proof (cases e)
  case (suicideChange a s b)
  obtain r db1 where g: "getStateObject B db a = (r, db1)" by fastforce
  then show ?thesis using assms suicideChange getStateObject_props(6) [OF g assms(1)]
    by (auto split: option.splits)
qed (use assms on_object_next [OF assms(1)] in \<open>auto simp: Let_def split: if_splits\<close>)

lemma undo_entry_world:
  assumes "db_ok db" "undo_world B (world B db) e = Inr w"
  shows "\<exists>db'. undo_entry B db e = Inr db' \<and> world B db' = w \<and> db_ok db' \<and> nextRevisionId db' = nextRevisionId db"
proof -
  have "map_sum id (world B) (revert B e db) = Inr w" using revert_world [OF assms(1)] assms(2) by simp
  then obtain db' where r: "revert B e db = Inr db'" "world B db' = w" by (cases "revert B e db") auto
  show ?thesis
    using r revert_ok [OF assms(1) r(1)] revert_next [OF assms(1) r(1)]
    by (auto simp: undo_entry_def split: option.split)
qed

lemma undo_fold_world:
  assumes "db_ok db" "go_fold (undo_world B) (world B db) es = Inr w"
  shows "\<exists>db'. go_fold (undo_entry B) db es = Inr db' \<and> world B db' = w \<and> db_ok db' \<and> nextRevisionId db' = nextRevisionId db"
  using assms
proof (induction es arbitrary: db)
  case (Cons e es)
  then obtain w1 where w1: "undo_world B (world B db) e = Inr w1" "go_fold (undo_world B) w1 es = Inr w" by auto
  then show ?case using undo_entry_world [OF Cons.prems(1) w1(1)] Cons.IH by fastforce
qed auto

lemma journal_revert_world:
  assumes "db_ok db" "undo_all B (world B db) (drop k (entries db)) = Inr w"
  shows "\<exists>db'. journal_revert B db k = Inr db' \<and> world B db' = w \<and> db_ok db' \<and> nextRevisionId db' = nextRevisionId db
           \<and> entries db' = take k (entries db)"
  using undo_fold_world [OF assms(1), of B "rev (drop k (entries db))" w] assms(2)
  by (auto simp: journal_revert_def undo_all_def)

section \<open>Operations and runs\<close>

datatype dbop =
    OpLoad Address
  | OpCreateAccount Address
  | OpSetBalance Address int
  | OpAddBalance Address int
  | OpSubBalance Address int
  | OpSetNonce Address uint64
  | OpSetCode Address bytes bool
  | OpSetState Address Hash Hash
  | OpSuicide Address
  | OpAddRefund uint64
  | OpSubRefund uint64
  | OpAddLog Log
  | OpAddPreimage Hash bytes
  | OpSetTransientState Address Hash Hash
  | OpAddAddress Address
  | OpAddSlot Address Hash
  | OpGetWrapper Address
  | OpUpdateWrapper Address ValidatorWrapper
  | OpUpdateWrapperWithRevert Address ValidatorWrapper
  | OpSetFlag Address
  | OpUnsetFlag Address
  | OpSetFirstElection Address int

fun exec :: "backend \<Rightarrow> dbop \<Rightarrow> DB \<Rightarrow> DB go" where
  "exec B (OpLoad a) db = Inr (snd (getStateObject B db a))"
| "exec B (OpCreateAccount a) db = Inr (CreateAccount B db a)"
| "exec B (OpSetBalance a x) db = Inr (SetBalance B db a x)"
| "exec B (OpAddBalance a x) db = Inr (AddBalance B db a x)"
| "exec B (OpSubBalance a x) db = Inr (SubBalance B db a x)"
| "exec B (OpSetNonce a n) db = Inr (SetNonce B db a n)"
| "exec B (OpSetCode a c0 v) db = Inr (SetCode B db a c0 v)"
| "exec B (OpSetState a k v) db = Inr (SetState B db a k v)"
| "exec B (OpSuicide a) db = Inr (snd (Suicide B db a))"
| "exec B (OpAddRefund g) db = Inr (AddRefund db g)"
| "exec B (OpSubRefund g) db = SubRefund db g"
| "exec B (OpAddLog l) db = Inr (AddLog db l)"
| "exec B (OpAddPreimage h x) db = Inr (AddPreimage db h x)"
| "exec B (OpSetTransientState a k v) db = Inr (SetTransientState db a k v)"
| "exec B (OpAddAddress a) db = Inr (AddAddressToAccessList db a)"
| "exec B (OpAddSlot a s) db = AddSlotToAccessList db a s"
| "exec B (OpGetWrapper a) db = go_bind (ValidatorWrapper_get B db a True False) (\<lambda>(_, db). Inr db)"
| "exec B (OpUpdateWrapper a w) db = UpdateValidatorWrapper B db a w"
| "exec B (OpUpdateWrapperWithRevert a w) db = UpdateValidatorWrapperWithRevert B db a w"
| "exec B (OpSetFlag a) db = Inr (SetValidatorFlag B db a)"
| "exec B (OpUnsetFlag a) db = Inr (UnsetValidatorFlag B db a)"
| "exec B (OpSetFirstElection a e) db = SetValidatorFirstElectionEpoch B db a e"

inductive db_step :: "backend \<Rightarrow> int \<Rightarrow> DB \<Rightarrow> DB \<Rightarrow> bool" for B base where
  op: "exec B c db = Inr db' \<Longrightarrow> db_step B base db db'"
| snapshot: "db_step B base db (snd (Snapshot db))"
| revert: "base < revid \<Longrightarrow> RevertToSnapshot B db revid = Inr db' \<Longrightarrow> db_step B base db db'"

inductive db_run :: "backend \<Rightarrow> int \<Rightarrow> DB \<Rightarrow> DB \<Rightarrow> bool" for B base where
  refl: "db_run B base db db"
| step: "db_run B base db db1 \<Longrightarrow> db_step B base db1 db2 \<Longrightarrow> db_run B base db db2"


section \<open>Every operation is journaled\<close>

lemma setStateObject_access [simp]: "theAccessList (setStateObject s db) = theAccessList db"
  by (simp add: setStateObject_def)

lemma getStateObject_access:
  "getDeletedStateObject B db a = (r, db') \<Longrightarrow> theAccessList db' = theAccessList db"
  "getStateObject B db a = (r, db') \<Longrightarrow> theAccessList db' = theAccessList db"
  by (auto simp: getDeletedStateObject_def getStateObject_def split: option.splits prod.splits)

lemma createObject_access: "createObject B db a = (n, p, db') \<Longrightarrow> theAccessList db' = theAccessList db"
  by (auto simp: createObject_def Let_def dest!: getStateObject_access(1) split: option.splits prod.splits)

lemma GetOrNew_access: "GetOrNewStateObject B db a = (s, db') \<Longrightarrow> theAccessList db' = theAccessList db"
  by (auto simp: GetOrNewStateObject_def dest!: getStateObject_access(2) createObject_access
      split: option.splits prod.splits)

lemma write_access:
  "theAccessList (SetBalance B db a x) = theAccessList db" "theAccessList (AddBalance B db a x) = theAccessList db"
  "theAccessList (SubBalance B db a x) = theAccessList db" "theAccessList (SetNonce B db a n) = theAccessList db"
  "theAccessList (SetCode B db a c0 v) = theAccessList db" "theAccessList (SetState B db a k h) = theAccessList db"
  by (auto simp: SetBalance_def AddBalance_def SubBalance_def SetNonce_def SetCode_def SetState_def Let_def
      dest!: GetOrNew_access split: prod.splits)

lemma CreateAccount_access: "theAccessList (CreateAccount B db a) = theAccessList db"
  by (auto simp: CreateAccount_def dest!: createObject_access split: prod.splits option.splits)

lemma Suicide_access: "theAccessList (snd (Suicide B db a)) = theAccessList db"
  by (auto simp: Suicide_def dest!: getStateObject_access(2) split: prod.splits option.splits)

lemma ValidatorWrapper_get_quiet:
  assumes "ValidatorWrapper_get B db a sendOriginal cp = Inr (w, db')" "db_ok db"
  shows "journaled B db db'" "theAccessList db' = theAccessList db"
proof -
  obtain r db1 where g: "getStateObject B db a = (r, db1)" by fastforce
  note p = getStateObject_props [OF g assms(2)]
  have "journaled B db db1" "theAccessList db1 = theAccessList db"
    using p getStateObject_access(2) [OF g] by (simp_all add: journaled_quiet)
  moreover have "db' = db \<or> (\<exists>x. db' = db1\<lparr>stateValidators := x\<rparr>)"
    using assms(1) g by (auto simp: ValidatorWrapper_get_def split: if_splits option.splits)
  ultimately show "journaled B db db'" "theAccessList db' = theAccessList db"
    using assms(2) by (auto simp: journaled_def)
qed

lemma UpdateValidatorWrapper_journaled:
  assumes "UpdateValidatorWrapper B db a w = Inr db'" "db_ok db"
  shows "journaled B db db'" "theAccessList db' = theAccessList db"
proof -
  obtain by' x where "db' = (SetCode B db a by' True)\<lparr>stateValidators := x\<rparr>"
    using assms(1) by (auto simp: UpdateValidatorWrapper_def Let_def)
  then show "journaled B db db'" "theAccessList db' = theAccessList db"
    using SetCode_journaled [OF assms(2), of B a by' True] by (auto simp: journaled_def write_access)
qed

lemma UpdateValidatorWrapperWithRevert_journaled:
  assumes "UpdateValidatorWrapperWithRevert B db a w = Inr db'" "db_ok db"
  shows "journaled B db db'" "theAccessList db' = theAccessList db"
proof -
  obtain prev db1 db2 where u: "UpdateValidatorWrapper B db1 a w = Inr db2" "db' = journal_append (validatorWrapperChange a prev) db2"
    and g: "db1 = db \<or> ValidatorWrapper_get B db a True False = Inr (prev, db1)"
    using assms(1) by (auto simp: UpdateValidatorWrapperWithRevert_def split: sum.splits if_splits)
  have 1: "journaled B db db1" "theAccessList db1 = theAccessList db"
    using g ValidatorWrapper_get_quiet [OF _ assms(2)] journaled_refl [OF assms(2)] by auto
  then have "db_ok db1" by (simp add: journaled_def)
  note 2 = UpdateValidatorWrapper_journaled [OF u(1) this]
  have "journaled B db2 db'"
    using 2(1) unfolding u(2) by (intro journaled_one [where e = "validatorWrapperChange a prev"]) (simp_all add: journaled_def)
  then show "journaled B db db'" "theAccessList db' = theAccessList db"
    using 1 2 journaled_trans u(2) by (blast, simp)
qed

lemma AddSlotToAccessList_ok:
  assumes "AddSlotToAccessList db a s = Inr db'" "access_ok (theAccessList db)"
  shows "access_ok (theAccessList db')"
  using assms AddSlot_undo(3) [OF _ assms(2), of a s]
  by (auto simp: AddSlotToAccessList_def Let_def split: if_splits)

lemma AddAddressToAccessList_ok:
  "access_ok (theAccessList db) \<Longrightarrow> access_ok (theAccessList (AddAddressToAccessList db a))"
  using AddAddress_undo(3) [of "theAccessList db" a] by (auto simp: AddAddressToAccessList_def Let_def split: prod.splits)

lemma SetState_users:
  assumes "SetValidatorFirstElectionEpoch B db a ep = Inr db'"
  shows "db' = db \<or> (\<exists>v. db' = SetState B db a (FirstElectionEpochKey B) v)"
  using assms by (auto simp: SetValidatorFirstElectionEpoch_def split: if_splits)

lemmas op_journaled = CreateAccount_journaled SetBalance_journaled AddBalance_journaled SubBalance_journaled
  SetNonce_journaled SetCode_journaled SetState_journaled Suicide_journaled AddRefund_journaled SubRefund_journaled
  AddLog_journaled AddPreimage_journaled SetTransientState_journaled AddAddressToAccessList_journaled
  ValidatorWrapper_get_quiet(1) UpdateValidatorWrapper_journaled(1) UpdateValidatorWrapperWithRevert_journaled(1)

lemma exec_journaled:
  assumes "exec B c0 db = Inr db'" "db_ok db" "access_ok (theAccessList db)"
  shows "journaled B db db'"
proof (cases c0)
  case (OpLoad a)
  then show ?thesis using assms getStateObject_props [OF prod.collapse [symmetric] assms(2)]
    by (auto intro!: journaled_quiet)
next
  case (OpAddSlot a s)
  then show ?thesis using assms AddSlotToAccessList_journaled by auto
next
  case (OpSetFirstElection a ep)
  then show ?thesis using assms SetState_users [of B db a ep db'] SetState_journaled journaled_refl by auto
qed (use assms op_journaled in \<open>auto simp: SetValidatorFlag_def UnsetValidatorFlag_def\<close>)

lemma exec_access:
  assumes "exec B c0 db = Inr db'" "db_ok db" "access_ok (theAccessList db)"
  shows "access_ok (theAccessList db')"
proof (cases c0)
  case (OpAddSlot a s)
  then show ?thesis using assms AddSlotToAccessList_ok by auto
next
  case (OpAddAddress a)
  then show ?thesis using assms AddAddressToAccessList_ok by auto
next
  case (OpSetFirstElection a ep)
  then show ?thesis using assms SetState_users [of B db a ep db'] by (auto simp: write_access)
next
  case (OpLoad a)
  then show ?thesis using assms getStateObject_access(2) [OF prod.collapse [symmetric]] by auto
next
  case (OpGetWrapper a)
  then show ?thesis using assms ValidatorWrapper_get_quiet(2) by auto
next
  case (OpUpdateWrapper a w)
  then show ?thesis using assms UpdateValidatorWrapper_journaled(2) by auto
next
  case (OpUpdateWrapperWithRevert a w)
  then show ?thesis using assms UpdateValidatorWrapperWithRevert_journaled(2) by auto
qed (use assms in \<open>auto simp: write_access CreateAccount_access Suicide_access SetValidatorFlag_def UnsetValidatorFlag_def
      AddRefund_def SubRefund_def AddLog_def AddPreimage_def SetTransientState_def Let_def split: if_splits\<close>)


section \<open>Revisions remember worlds\<close>

definition rev_ok :: "backend \<Rightarrow> DB \<Rightarrow> int \<times> nat \<Rightarrow> World \<Rightarrow> bool" where
  "rev_ok B db v w \<longleftrightarrow> fst v < nextRevisionId db \<and> snd v \<le> length (entries db) \<and> access_ok (wAccess w)
     \<and> undo_all B (world B db) (drop (snd v) (entries db)) = Inr w"

definition rev_inv :: "backend \<Rightarrow> DB \<Rightarrow> World list \<Rightarrow> bool" where
  "rev_inv B db ws \<longleftrightarrow> db_ok db \<and> access_ok (theAccessList db)
     \<and> sorted_wrt (<) (map fst (validRevisions db)) \<and> sorted (map snd (validRevisions db))
     \<and> list_all2 (rev_ok B db) (validRevisions db) ws"

lemma rev_inv_journaled:
  assumes "rev_inv B db ws" "journaled B db db'" "access_ok (theAccessList db')"
  shows "rev_inv B db' ws"
proof -
  obtain es where es: "entries db' = entries db @ es" "undo_all B (world B db') es = Inr (world B db)"
    using assms(2) by (auto simp: journaled_def)
  have "rev_ok B db' v w" if "rev_ok B db v w" for v w
    using that es assms(2) by (simp add: rev_ok_def undo_all_append journaled_def)
  then show ?thesis
    using assms by (auto simp: rev_inv_def journaled_def elim: list.rel_mono_strong)
qed

lemma rev_inv_Snapshot:
  assumes "rev_inv B db ws"
  shows "rev_inv B (snd (Snapshot db)) (ws @ [world B db])"
proof -
  have bounds: "list_all2 (rev_ok B db) (validRevisions db) ws" using assms by (simp add: rev_inv_def)
  have v: "fst v < nextRevisionId db \<and> snd v \<le> length (entries db)" if "v \<in> set (validRevisions db)" for v
    using that bounds by (auto simp: list_all2_conv_all_nth rev_ok_def in_set_conv_nth)
  have "list_all2 (rev_ok B (snd (Snapshot db))) (validRevisions db) ws"
    using bounds by (rule list.rel_mono_strong) (auto simp: rev_ok_def Snapshot_def)
  moreover have "rev_ok B (snd (Snapshot db)) (nextRevisionId db, length (entries db)) (world B db)"
    using assms by (simp add: rev_ok_def Snapshot_def rev_inv_def)
  ultimately show ?thesis
    using assms v unfolding rev_inv_def
    by (auto simp: Snapshot_def sorted_wrt_append sorted_append intro!: list_all2_appendI)
qed

lemma rev_inv_revert:
  assumes inv: "rev_inv B db ws" and i: "i < length ws" and r: "fst (validRevisions db ! i) = revid"
  shows "\<exists>db'. RevertToSnapshot B db revid = Inr db' \<and> world B db' = ws ! i \<and> rev_inv B db' (take i ws)
    \<and> entries db' = take (snd (validRevisions db ! i)) (entries db) \<and> validRevisions db' = take i (validRevisions db)
    \<and> nextRevisionId db' = nextRevisionId db"
proof -
  let ?vs = "validRevisions db"
  let ?k = "snd (?vs ! i)"
  have len: "length ?vs = length ws" and all: "\<And>j. j < length ws \<Longrightarrow> rev_ok B db (?vs ! j) (ws ! j)"
    using inv by (auto simp: rev_inv_def list_all2_conv_all_nth)
  have s: "Search (length ?vs) (\<lambda>i. fst (?vs ! i) \<ge> revid) = i"
    using Search_revision(2) [of ?vs i revid] inv i r len by (simp add: rev_inv_def)
  have ki: "undo_all B (world B db) (drop ?k (entries db)) = Inr (ws ! i)" "?k \<le> length (entries db)" "access_ok (wAccess (ws ! i))"
    using all [OF i] by (simp_all add: rev_ok_def)
  obtain db1 where db1: "journal_revert B db ?k = Inr db1" "world B db1 = ws ! i" "db_ok db1"
    "nextRevisionId db1 = nextRevisionId db" "entries db1 = take ?k (entries db)"
    using journal_revert_world [OF _ ki(1)] inv by (auto simp: rev_inv_def)
  let ?db' = "db1\<lparr>validRevisions := take i ?vs\<rparr>"
  have "rev_ok B ?db' (?vs ! j) (ws ! j)" if j: "j < i" for j
  proof -
    let ?kj = "snd (?vs ! j)"
    have "?kj \<le> ?k" using inv j i len sorted_nth_mono [of "map snd ?vs" j i] by (simp add: rev_inv_def)
    then have "drop ?kj (entries db) = drop ?kj (take ?k (entries db)) @ drop ?k (entries db)"
      using ki(2) by (metis append_take_drop_id drop_append diff_is_0_eq drop_0 length_take min.absorb2)
    then have "undo_all B (ws ! i) (drop ?kj (take ?k (entries db))) = Inr (ws ! j)"
      using all [of j] j i ki(1) by (simp add: rev_ok_def undo_all_append)
    then show ?thesis using all [of j] j i db1 \<open>?kj \<le> ?k\<close> ki(2) by (simp add: rev_ok_def)
  qed
  then have "list_all2 (rev_ok B ?db') (take i ?vs) (take i ws)"
    using len i by (simp add: list_all2_conv_all_nth)
  moreover have "access_ok (theAccessList ?db')" using ki(3) db1(2) world_sel(7) [of B db1] by simp
  moreover have "sorted_wrt (<) (take i (map fst ?vs))" "sorted (take i (map snd ?vs))"
    using inv by (simp_all add: rev_inv_def sorted_wrt_take)
  ultimately have "rev_inv B ?db' (take i ws)"
    using db1(3) by (simp add: rev_inv_def take_map)
  moreover have "RevertToSnapshot B db revid = Inr ?db'"
    using s i len r db1(1) by (simp add: RevertToSnapshot_def)
  ultimately show ?thesis using db1 by auto
qed

text \<open>A run with a base revision keeps the revisions up to the base with their worlds, and the entries \<open>es\<close> of that moment.\<close>

definition run_inv :: "backend \<Rightarrow> int \<Rightarrow> journalEntry list \<Rightarrow> (int \<times> nat) list \<Rightarrow> World list \<Rightarrow> DB \<Rightarrow> bool" where
  "run_inv B base es vs ws db \<longleftrightarrow> take (length es) (entries db) = es \<and> base < nextRevisionId db \<and> (\<forall>v\<in>set vs. fst v \<le> base) \<and> length vs = length ws
     \<and> (\<exists>vs' ws'. validRevisions db = vs @ vs' \<and> (\<forall>v\<in>set vs'. base < fst v \<and> length es \<le> snd v) \<and> rev_inv B db (ws @ ws'))"


lemma run_inv_op:
  assumes "run_inv B base es vs ws db" "exec B c0 db = Inr db'"
  shows "run_inv B base es vs ws db'"
proof -
  obtain vs' ws' where v: "validRevisions db = vs @ vs'" "\<forall>v\<in>set vs'. base < fst v \<and> length es \<le> snd v" and inv: "rev_inv B db (ws @ ws')"
    using assms(1) by (auto simp: run_inv_def)
  have ok: "db_ok db" "access_ok (theAccessList db)" using inv by (simp_all add: rev_inv_def)
  note j = exec_journaled [OF assms(2) ok]
  have "rev_inv B db' (ws @ ws')" using rev_inv_journaled [OF inv j exec_access [OF assms(2) ok]] .
  moreover obtain fs where "entries db' = entries db @ fs" using j by (auto simp: journaled_def)
  moreover have "take (length es) (entries db @ fs) = es" using assms(1) unfolding run_inv_def
    by (metis append_take_drop_id append.assoc append_eq_conv_conj)
  ultimately show ?thesis using assms(1) v j unfolding run_inv_def journaled_def by metis
qed

lemma run_inv_snapshot:
  assumes "run_inv B base es vs ws db"
  shows "run_inv B base es vs ws (snd (Snapshot db))"
proof -
  obtain vs' ws' where v: "validRevisions db = vs @ vs'" "\<forall>v\<in>set vs'. base < fst v \<and> length es \<le> snd v" and inv: "rev_inv B db (ws @ ws')"
    using assms(1) by (auto simp: run_inv_def)
  have "rev_inv B (snd (Snapshot db)) (ws @ (ws' @ [world B db]))" using rev_inv_Snapshot [OF inv] by simp
  moreover have "validRevisions (snd (Snapshot db)) = vs @ (vs' @ [(nextRevisionId db, length (entries db))])"
    using v by (simp add: Snapshot_def)
  moreover have "length es \<le> length (entries db)" using assms unfolding run_inv_def by (metis length_take min.cobounded1 min_def)
  ultimately show ?thesis using assms v(2) unfolding run_inv_def
    by (intro conjI exI [of _ "vs' @ [(nextRevisionId db, length (entries db))]"] exI [of _ "ws' @ [world B db]"])
      (auto simp: Snapshot_def)
qed

lemma run_inv_revert:
  assumes "run_inv B base es vs ws db" "base < revid" "RevertToSnapshot B db revid = Inr db'"
  shows "run_inv B base es vs ws db'"
proof -
  obtain vs' ws' where v: "validRevisions db = vs @ vs'" "\<forall>v\<in>set vs'. base < fst v \<and> length es \<le> snd v" and inv: "rev_inv B db (ws @ ws')"
    and len: "length vs = length ws" using assms(1) by (auto simp: run_inv_def)
  let ?i = "Search (length (validRevisions db)) (\<lambda>i. fst (validRevisions db ! i) \<ge> revid)"
  have "?i \<le> length (validRevisions db)"
    by (rule Search_revision(3)) (use inv in \<open>simp add: rev_inv_def\<close>)
  moreover have "?i \<noteq> length (validRevisions db)" "fst (validRevisions db ! ?i) = revid"
    using assms(3) by (auto simp: RevertToSnapshot_def Let_def split: if_splits)
  ultimately obtain i where i: "i < length (validRevisions db)" "fst (validRevisions db ! i) = revid"
    using that [of ?i] by linarith
  have wlen: "length (validRevisions db) = length (ws @ ws')" using inv by (auto simp: rev_inv_def dest: list_all2_lengthD)
  have "\<not> i < length vs"
  proof
    assume "i < length vs"
    then have "validRevisions db ! i \<in> set vs" using v by (simp add: nth_append)
    then show False using assms(1,2) i(2) by (auto simp: run_inv_def)
  qed
  then obtain j where j: "i = length vs + j" by (metis le_Suc_ex not_less)
  have r: "world B db' = (ws @ ws') ! i \<and> rev_inv B db' (take i (ws @ ws')) \<and> validRevisions db' = take i (validRevisions db)
      \<and> entries db' = take (snd (validRevisions db ! i)) (entries db) \<and> nextRevisionId db' = nextRevisionId db"
    using rev_inv_revert [OF inv _ i(2)] i(1) wlen assms(3) by auto
  have t: "take i (ws @ ws') = ws @ take j ws'" "take i (validRevisions db) = vs @ take j vs'"
    using j len v(1) by simp_all
  have "validRevisions db ! i \<in> set vs'" using i(1) j v(1) by (simp add: nth_append)
  then have "length es \<le> snd (validRevisions db ! i)" using v(2) by blast
  then have "take (length es) (entries db') = es" using r assms(1) by (simp add: run_inv_def min.absorb1)
  then show ?thesis using r t assms(1) v(2) len unfolding run_inv_def
    by (intro conjI exI [of _ "take j vs'"] exI [of _ "take j ws'"]) (auto dest: in_set_takeD)
qed

lemma run_inv_run: "db_run B base db db' \<Longrightarrow> run_inv B base es vs ws db \<Longrightarrow> run_inv B base es vs ws db'"
proof (induction rule: db_run.induct)
  case (step db db1 db2)
  from step.hyps(2) step.IH [OF step.prems] show ?case
    by cases (auto intro: run_inv_op run_inv_snapshot run_inv_revert)
qed

lemma run_inv_New: "run_inv B (-1) [] [] [] New"
  by (simp add: run_inv_def rev_inv_def New_def db_ok_def access_ok_def newAccessList_def)

lemma run_inv_base:
  assumes "run_inv B base es vs ws db" "Snapshot db = (revid, db1)"
  obtains ws' where "run_inv B revid (entries db) (validRevisions db @ [(revid, length (entries db))]) (ws' @ [world B db]) db1"
    "length ws' = length (validRevisions db)"
proof -
  obtain ws' where inv: "rev_inv B db ws'" using assms(1) by (auto simp: run_inv_def)
  have len: "length ws' = length (validRevisions db)" using inv by (auto simp: rev_inv_def dest: list_all2_lengthD)
  have le: "\<forall>v\<in>set (validRevisions db). fst v \<le> nextRevisionId db"
    using inv by (fastforce simp: rev_inv_def list_all2_conv_all_nth rev_ok_def in_set_conv_nth)
  have "run_inv B revid (entries db) (validRevisions db @ [(revid, length (entries db))]) (ws' @ [world B db]) db1"
    using rev_inv_Snapshot [OF inv] assms(2) le len by (auto simp: run_inv_def Snapshot_def)
  then show thesis using that len by blast
qed

lemma revert_restores:
  assumes "run_inv B base es vs ws0 db" "Snapshot db = (revid, db1)" "db_run B revid db1 db2"
  shows "\<exists>db3. RevertToSnapshot B db2 revid = Inr db3 \<and> world B db3 = world B db
    \<and> entries db3 = entries db \<and> validRevisions db3 = validRevisions db \<and> (\<exists>ws. rev_inv B db3 ws)"
proof -
  obtain ws where base: "run_inv B revid (entries db) (validRevisions db @ [(revid, length (entries db))]) (ws @ [world B db]) db1"
    and len: "length ws = length (validRevisions db)"
    using run_inv_base [OF assms(1,2)] by blast
  from run_inv_run [OF assms(3) this(1)] obtain vs' ws' where
    v: "validRevisions db2 = (validRevisions db @ [(revid, length (entries db))]) @ vs'"
    and inv: "rev_inv B db2 ((ws @ [world B db]) @ ws')" and es: "take (length (entries db)) (entries db2) = entries db"
    by (auto simp: run_inv_def)
  have at: "validRevisions db2 ! length ws = (revid, length (entries db))" using v len by (simp add: nth_append)
  obtain db3 where r: "RevertToSnapshot B db2 revid = Inr db3" "world B db3 = world B db"
    "entries db3 = take (length (entries db)) (entries db2)" "validRevisions db3 = take (length ws) (validRevisions db2)" "\<exists>ws. rev_inv B db3 ws"
    using rev_inv_revert [OF inv, of "length ws" revid] at by (auto simp: nth_append)
  then show ?thesis using v len es by auto
qed

lemma run_inv_any: "rev_inv B db ws \<Longrightarrow> run_inv B (nextRevisionId db - 1) [] (validRevisions db) ws db"
  by (fastforce simp: run_inv_def rev_inv_def list_all2_conv_all_nth rev_ok_def in_set_conv_nth dest: list_all2_lengthD)

section \<open>Reverting restores the snapshot\<close>

text \<open>
  C9: take a snapshot in any state a database can reach; run any operations afterwards, taking and
  reverting further snapshots; then \<open>RevertToSnapshot\<close> with the id of the first snapshot succeeds, and
  accounts, storage, code, logs, refunds, preimages, access list and transient storage are those of
  the snapshot, as are the journal and the valid revisions.
\<close>

theorem RevertToSnapshot_restores:
  assumes "db_run B (-1) New db" "Snapshot db = (revid, db1)" "db_run B revid db1 db2"
  shows "\<exists>db3. RevertToSnapshot B db2 revid = Inr db3 \<and> world B db3 = world B db
    \<and> entries db3 = entries db \<and> validRevisions db3 = validRevisions db"
  using revert_restores [OF run_inv_run [OF assms(1) run_inv_New] assms(2,3)] by blast


text \<open>A small store: one account with a hundred units; hashing tells apart the keys in use.\<close>

definition sample_backend :: backend where
  "sample_backend =
     \<lparr>trieAccount = (\<lambda>a. if a = 1 then Some \<lparr>Nonce = 0, Balance = 100, Root = EmptyRootHash, CodeHash = 1\<rparr> else None),
      trieSlot = (\<lambda>_ _ _. 0), ContractCode = (\<lambda>_ _. None), ValidatorCode = (\<lambda>_ _. None),
      Keccak256Hash = (\<lambda>bs. word_of_nat (length bs) + 1), encodeWrapper = (\<lambda>_. Inr [1]),
      decodeWrapper = (\<lambda>_. Inr sample_wrapper)\<rparr>"

theorem RevertToSnapshot_restores_witness:
  "\<exists>db3. Snapshot New = (0, snd (Snapshot New))
     \<and> GetBalance sample_backend (AddBalance sample_backend (snd (Snapshot New)) 1 5) 1 = 105
     \<and> RevertToSnapshot sample_backend (AddBalance sample_backend (snd (Snapshot New)) 1 5) 0 = Inr db3
     \<and> world sample_backend db3 = world sample_backend New"
proof -
  have s: "Snapshot New = (0, snd (Snapshot New))" by (simp add: Snapshot_def New_def)
  have "db_run sample_backend 0 (snd (Snapshot New)) (AddBalance sample_backend (snd (Snapshot New)) 1 5)"
    by (rule db_run.step [OF db_run.refl db_step.op [where c = "OpAddBalance 1 5"]]) simp
  from RevertToSnapshot_restores [OF db_run.refl s this]
  obtain db3 where "RevertToSnapshot sample_backend (AddBalance sample_backend (snd (Snapshot New)) 1 5) 0 = Inr db3"
    "world sample_backend db3 = world sample_backend New" by blast
  moreover have "GetBalance sample_backend (AddBalance sample_backend (snd (Snapshot New)) 1 5) 1 = 105"
    by (simp add: GetBalance_def AddBalance_def GetOrNewStateObject_def getStateObject_def getDeletedStateObject_def
        Snapshot_def New_def sample_backend_def newObject_def setStateObject_def journal_append_def Object_setBalance_def)
  ultimately show ?thesis using s by blast
qed

end
