(* ===== verification/VmInterface.thy ===== *)
theory VmInterface
  imports StateDB
begin

text \<open>
  The interface \<open>vm.StateDB\<close> of \<open>core/vm/interface.go\<close>, as far as the staking logic uses it: a record of
  operations over a state type. The locale \<open>vm_state\<close> states what an implementation promises in terms
  of the ledger it stands for: balances, validator wrappers and validator marks. \<open>Ledger\<close> interprets it
  with the account state of \<open>core/state\<close>; the staking logic is proved against the locale only.
\<close>

record Ledger =
  lBal :: "Address \<Rightarrow> int"
  lWrap :: "Address \<rightharpoonup> ValidatorWrapper"
  lFlag :: "Address \<Rightarrow> bool"

record 's vmStateDB =
  vmSubBalance :: "'s \<Rightarrow> Address \<Rightarrow> int \<Rightarrow> 's"
  vmAddBalance :: "'s \<Rightarrow> Address \<Rightarrow> int \<Rightarrow> 's"
  vmGetBalance :: "'s \<Rightarrow> Address \<Rightarrow> int"
  vmValidatorWrapper :: "'s \<Rightarrow> Address \<Rightarrow> bool \<Rightarrow> bool \<Rightarrow> (ValidatorWrapper option \<times> 's) go"
  vmUpdateValidatorWrapper :: "'s \<Rightarrow> Address \<Rightarrow> ValidatorWrapper \<Rightarrow> 's go"
  vmUpdateValidatorWrapperWithRevert :: "'s \<Rightarrow> Address \<Rightarrow> ValidatorWrapper \<Rightarrow> 's go"
  vmSetValidatorFlag :: "'s \<Rightarrow> Address \<Rightarrow> 's"
  vmIsValidator :: "'s \<Rightarrow> Address \<Rightarrow> bool"
  vmGetValidatorFirstElectionEpoch :: "'s \<Rightarrow> Address \<Rightarrow> int go"
  vmAddLog :: "'s \<Rightarrow> Log \<Rightarrow> 's"

definition put_wrap :: "Address \<Rightarrow> ValidatorWrapper \<Rightarrow> Ledger \<Rightarrow> Ledger" where
  "put_wrap a w L = L\<lparr>lWrap := (lWrap L)(a \<mapsto> w)\<rparr>"

definition put_bal :: "Address \<Rightarrow> int \<Rightarrow> Ledger \<Rightarrow> Ledger" where
  "put_bal a x L = L\<lparr>lBal := (lBal L)(a := x)\<rparr>"

definition put_flag :: "Address \<Rightarrow> Ledger \<Rightarrow> Ledger" where
  "put_flag a L = L\<lparr>lFlag := (lFlag L)(a := True)\<rparr>"

locale vm_state =
  fixes S :: "'s vmStateDB" and inv :: "'s \<Rightarrow> bool" and led :: "'s \<Rightarrow> Ledger"
  assumes balance: "inv s \<Longrightarrow> vmGetBalance S s a = lBal (led s) a"
    and flag: "inv s \<Longrightarrow> vmIsValidator S s a = lFlag (led s) a"
    and get: "inv s \<Longrightarrow> vmValidatorWrapper S s a orig cp = Inr (p, s') \<Longrightarrow>
      p = lWrap (led s) a \<and> p \<noteq> None \<and> inv s' \<and> led s' = led s"
    and get_some: "inv s \<Longrightarrow> lWrap (led s) a = Some w \<Longrightarrow> \<not> (orig \<and> cp) \<Longrightarrow>
      \<exists>s'. vmValidatorWrapper S s a orig cp = Inr (Some w, s')"
    and sub: "inv s \<Longrightarrow> inv (vmSubBalance S s a x) \<and> led (vmSubBalance S s a x) = put_bal a (lBal (led s) a - x) (led s)"
    and add: "inv s \<Longrightarrow> inv (vmAddBalance S s a x) \<and> led (vmAddBalance S s a x) = put_bal a (lBal (led s) a + x) (led s)"
    and update: "inv s \<Longrightarrow> vmUpdateValidatorWrapper S s a w = Inr s' \<Longrightarrow>
      SanityCheck w = Inr () \<and> inv s' \<and> led s' = put_wrap a w (led s)"
    and update_revert: "inv s \<Longrightarrow> vmUpdateValidatorWrapperWithRevert S s a w = Inr s' \<Longrightarrow>
      SanityCheck w = Inr () \<and> inv s' \<and> led s' = put_wrap a w (led s)"
    and mark: "inv s \<Longrightarrow> inv (vmSetValidatorFlag S s a) \<and> led (vmSetValidatorFlag S s a) = put_flag a (led s)"
    and log: "inv s \<Longrightarrow> inv (vmAddLog S s l) \<and> led (vmAddLog S s l) = led s"

text \<open>A state that also promises to store every valid wrapper its encoding accepts.\<close>

locale vm_store = vm_state +
  fixes can_encode :: "ValidatorWrapper \<Rightarrow> bool"
  assumes update_revert_ok: "inv s \<Longrightarrow> lWrap (led s) a = Some w0 \<Longrightarrow> SanityCheck w = Inr () \<Longrightarrow> can_encode w \<Longrightarrow>
    \<exists>s'. vmUpdateValidatorWrapperWithRevert S s a w = Inr s'"

end
