(* ===== verification/Ledger.thy ===== *)
theory Ledger
  imports Snapshots VmInterface
begin

text \<open>
  The account state as a ledger: how the operations of \<open>core/state/statedb.go\<close> change balances, code,
  storage slots and validator wrappers. Each operation touches one account and one aspect of it. The
  laws collected here are what the staking logic relies on; \<open>trie_ok\<close> names the two facts about the
  store they need: an empty trie holds no slot, and the hash that marks validators is not zero.
\<close>

named_theorems ledger_simps \<open>effects of the operations on balances, code, slots and wrappers\<close>

definition trie_ok :: "backend \<Rightarrow> bool" where
  "trie_ok B \<longleftrightarrow> (\<forall>a k. trieSlot B a EmptyRootHash k = 0) \<and> IsValidatorHash B \<noteq> 0
     \<and> IsValidatorKey B \<noteq> FirstElectionEpochKey B"

section \<open>The live object of an account\<close>

definition live_obj :: "backend \<Rightarrow> DB \<Rightarrow> Address \<Rightarrow> Object option" where
  "live_obj B db a = (case obj_at B db a of Some s \<Rightarrow> if deleted s then None else Some s | None \<Rightarrow> None)"

lemma getStateObject_live: "fst (getStateObject B db a) = live_obj B db a"
  by (simp add: getStateObject_def getDeletedStateObject_def live_obj_def obj_at_def split: option.split)

lemma live_obj_set: "live_obj B (setStateObject s db) b =
    (if b = address s then if deleted s then None else Some s else live_obj B db b)"
  by (simp add: live_obj_def obj_at_set)

lemma live_obj_upd [simp]:
  "live_obj B (journal_append e db) = live_obj B db" "live_obj B (db\<lparr>dirties := x\<rparr>) = live_obj B db"
  "live_obj B (db\<lparr>stateValidators := y\<rparr>) = live_obj B db" "live_obj B (db\<lparr>stateObjectsDestruct := z\<rparr>) = live_obj B db"
  "live_obj B (db\<lparr>logs := l, logSize := n\<rparr>) = live_obj B db"
  by (simp_all add: live_obj_def obj_at_def fun_eq_iff)

lemma live_obj_load:
  assumes "getStateObject B db a = (r, db')"
  shows "r = live_obj B db a" "live_obj B db' = live_obj B db" "stateValidators db' = stateValidators db"
    "stateObjectsDestruct db' = stateObjectsDestruct db"
  using assms getStateObject_live [of B db a]
  by (auto simp: getStateObject_def getDeletedStateObject_def live_obj_def obj_at_def fun_eq_iff split: option.splits if_splits)

lemma live_obj_address: "db_ok db \<Longrightarrow> live_obj B db a = Some s \<Longrightarrow> address s = a \<and> \<not> deleted s"
  by (auto simp: live_obj_def obj_at_def db_ok_def split: option.splits if_splits)

lemma createObject_live:
  assumes "createObject B db a = (n, p, db')"
  shows "n = newObject a (emptyAccount B)" "live_obj B db' b = (if b = a then Some n else live_obj B db b)"
    "stateValidators db' = stateValidators db"
    "obj_at B db a = None \<Longrightarrow> stateObjectsDestruct db' = stateObjectsDestruct db"
    "db_ok db \<Longrightarrow> obj_at B db a \<noteq> None \<Longrightarrow> stateObjectsDestruct db' = insert a (stateObjectsDestruct db)"
  using assms
  by (auto simp: createObject_def getDeletedStateObject_def Let_def live_obj_set obj_at_def newObject_def db_ok_def
      split: option.splits if_splits)

lemma GetOrNew_live:
  assumes "GetOrNewStateObject B db a = (s, db')" "db_ok db"
  shows "s = (case live_obj B db a of Some s \<Rightarrow> s | None \<Rightarrow> newObject a (emptyAccount B))"
    "live_obj B db' b = (if b = a then Some s else live_obj B db b)" "stateValidators db' = stateValidators db"
    "address s = a" "\<not> deleted s" "db_ok db'"
    "b \<noteq> a \<or> live_obj B db a \<noteq> None \<or> obj_at B db a = None \<Longrightarrow> (b \<in> stateObjectsDestruct db') = (b \<in> stateObjectsDestruct db)"
    "live_obj B db a = None \<Longrightarrow> obj_at B db a \<noteq> None \<Longrightarrow> a \<in> stateObjectsDestruct db'"
proof -
  obtain r db1 where g: "getStateObject B db a = (r, db1)" by fastforce
  note l = live_obj_load [OF g] and p = getStateObject_props [OF g assms(2)]
  have oa: "obj_at B db1 a = None \<longleftrightarrow> obj_at B db a = None"
    using g by (auto simp: getStateObject_def getDeletedStateObject_def obj_at_def split: option.splits if_splits)
  show "address s = a" "\<not> deleted s" "db_ok db'"
    using GetOrNew_journaled [OF assms] by (auto simp: journaled_def)
  have "s = (case live_obj B db a of Some s \<Rightarrow> s | None \<Rightarrow> newObject a (emptyAccount B))
    \<and> live_obj B db' b = (if b = a then Some s else live_obj B db b) \<and> stateValidators db' = stateValidators db
    \<and> (b \<noteq> a \<or> live_obj B db a \<noteq> None \<or> obj_at B db a = None \<longrightarrow> (b \<in> stateObjectsDestruct db') = (b \<in> stateObjectsDestruct db))
    \<and> (live_obj B db a = None \<longrightarrow> obj_at B db a \<noteq> None \<longrightarrow> a \<in> stateObjectsDestruct db')"
  proof (cases r)
    case (Some o')
    then show ?thesis using assms(1) g l by (auto simp: GetOrNewStateObject_def)
  next
    case None
    obtain n q db2 where c: "createObject B db1 a = (n, q, db2)" by (metis prod_cases3)
    have "s = n" "db' = db2" using assms(1) g None c by (auto simp: GetOrNewStateObject_def)
    then show ?thesis
      using createObject_live(1,3) [OF c] createObject_live(2) [OF c, of b] createObject_live(4,5) [OF c] l None oa p(3) by (cases "obj_at B db a") auto
  qed
  then show "s = (case live_obj B db a of Some s \<Rightarrow> s | None \<Rightarrow> newObject a (emptyAccount B))"
    "live_obj B db' b = (if b = a then Some s else live_obj B db b)" "stateValidators db' = stateValidators db"
    "b \<noteq> a \<or> live_obj B db a \<noteq> None \<or> obj_at B db a = None \<Longrightarrow> (b \<in> stateObjectsDestruct db') = (b \<in> stateObjectsDestruct db)"
    "live_obj B db a = None \<Longrightarrow> obj_at B db a \<noteq> None \<Longrightarrow> a \<in> stateObjectsDestruct db'"
    by auto
qed

section \<open>Reading through the live object\<close>

lemma read_live:
  "GetBalance B db a = (case live_obj B db a of Some s \<Rightarrow> Balance (data s) | None \<Rightarrow> 0)"
  "GetCode B db a = Option.bind (live_obj B db a) (Object_Code B)"
  "GetState B db a k = (case live_obj B db a of Some s \<Rightarrow> vState (obj_view B (a \<in> stateObjectsDestruct db) s) k | None \<Rightarrow> 0)"
  using GetState_view(1) [OF prod.collapse [symmetric]]
  by (simp_all add: GetBalance_def GetCode_def GetState_def getStateObject_live split: option.split)

lemma newObject_reads [simp]:
  "Balance (data (newObject a (emptyAccount B))) = 0" "Object_Code B (newObject a (emptyAccount B)) = None"
  by (simp_all add: newObject_def emptyAccount_def Object_Code_def)

lemma newObject_state:
  "trie_ok B \<Longrightarrow> vState (obj_view B d (newObject a (emptyAccount B))) k = 0"
  by (simp add: obj_view_def newObject_def emptyAccount_def committed_at_def trie_ok_def EmptyRootHash_def)

text \<open>Making sure an object exists changes nothing that can be read.\<close>

lemma GetOrNew_reads:
  assumes "GetOrNewStateObject B db a = (s, db')" "db_ok db"
  shows "GetBalance B db' = GetBalance B db" "GetCode B db' = GetCode B db"
    "trie_ok B \<Longrightarrow> GetState B db' = GetState B db"
proof -
  note l = GetOrNew_live [OF assms]
  show "GetBalance B db' = GetBalance B db" "GetCode B db' = GetCode B db"
    using l(1,2) by (auto simp: fun_eq_iff read_live split: option.splits)
  show "GetState B db' = GetState B db" if "trie_ok B"
  proof (intro ext)
    fix b k
    show "GetState B db' b k = GetState B db b k"
    proof (cases "b = a \<and> live_obj B db a = None")
      case True
      then show ?thesis using l(1,2) newObject_state [OF that] by (simp add: read_live)
    next
      case False
      then show ?thesis using l(1) l(2) [of b] l(7) [of b] by (auto simp: read_live split: option.splits)
    qed
  qed
qed

text \<open>Replacing the object by one that differs in one aspect.\<close>

lemma setObject_reads:
  assumes "live_obj B db a = Some s" "address s' = a" "\<not> deleted s'"
  shows "GetBalance B (setStateObject s' db) = (GetBalance B db)(a := Balance (data s'))"
    "GetCode B (setStateObject s' db) = (GetCode B db)(a := Object_Code B s')"
    "GetState B (setStateObject s' db) = (GetState B db)(a := vState (obj_view B (a \<in> stateObjectsDestruct db) s'))"
  using assms by (auto simp: fun_eq_iff read_live live_obj_set cong: option.case_cong)

lemma Object_set_reads [simp]:
  "Balance (data (Object_setNonce n s)) = Balance (data s)" "Balance (data (Object_setState k v s)) = Balance (data s)"
  "Balance (data (Object_setCode h c0 vw s)) = Balance (data s)" "Balance (data (Object_setBalance x s)) = x"
  "deleted (Object_setBalance x s) = deleted s" "deleted (Object_setNonce n s) = deleted s"
  "deleted (Object_setState k v s) = deleted s" "deleted (Object_setCode h c0 vw s) = deleted s"
  "Object_Code B (Object_setCode h (Some c1) vw s) = Some c1"
  by (simp_all add: Object_setBalance_def Object_setNonce_def Object_setState_def Object_setCode_def Object_Code_def)

lemma Object_code_reads [simp]:
  "Object_Code B (Object_setBalance x s) = Object_Code B s" "Object_Code B (Object_setState k v s) = Object_Code B s"
  by (auto intro: Object_Code_cong simp: Object_setBalance_def Object_setState_def)

lemma Object_state_reads [simp]:
  "vState (obj_view B d (Object_setBalance x s)) = vState (obj_view B d s)"
  "vState (obj_view B d (Object_setCode h c0 vw s)) = vState (obj_view B d s)"
  "vState (obj_view B d (Object_setState k v s)) = (vState (obj_view B d s))(k := v)"
  by (simp_all add: obj_view_put obj_view_code put_balance_def put_code_def put_state_def)

lemma reads_journal [simp]:
  "GetBalance B (journal_append e db) = GetBalance B db" "GetCode B (journal_append e db) = GetCode B db"
  "GetState B (journal_append e db) = GetState B db"
  "GetBalance B (db\<lparr>stateValidators := y\<rparr>) = GetBalance B db" "GetCode B (db\<lparr>stateValidators := y\<rparr>) = GetCode B db"
  "GetState B (db\<lparr>stateValidators := y\<rparr>) = GetState B db"
  "GetBalance B (db\<lparr>dirties := x\<rparr>) = GetBalance B db" "GetCode B (db\<lparr>dirties := x\<rparr>) = GetCode B db"
  "GetState B (db\<lparr>dirties := x\<rparr>) = GetState B db"
  "GetBalance B (db\<lparr>logs := l, logSize := n\<rparr>) = GetBalance B db" "GetCode B (db\<lparr>logs := l, logSize := n\<rparr>) = GetCode B db"
  "GetState B (db\<lparr>logs := l, logSize := n\<rparr>) = GetState B db"
  by (simp_all add: fun_eq_iff read_live cong: option.case_cong)


section \<open>Effects of the operations\<close>

lemma AddBalance_effect [ledger_simps]:
  assumes "db_ok db"
  shows "GetBalance B (AddBalance B db a x) = (GetBalance B db)(a := GetBalance B db a + x)"
    "GetCode B (AddBalance B db a x) = GetCode B db"
    "trie_ok B \<Longrightarrow> GetState B (AddBalance B db a x) = GetState B db"
    "stateValidators (AddBalance B db a x) = stateValidators db"
proof -
  obtain s db1 where g: "GetOrNewStateObject B db a = (s, db1)" by fastforce
  note r = GetOrNew_reads [OF g assms] and l = GetOrNew_live [OF g assms]
  have s: "live_obj B db1 a = Some s" using l(2) [of a] by simp
  have b: "Balance (data s) = GetBalance B db a" using fun_cong [OF r(1), of a] s by (simp add: read_live(1) [of B db1])
  have c: "Object_Code B s = GetCode B db a" using fun_cong [OF r(2), of a] s by (simp add: read_live(2) [of B db1])
  have st: "vState (obj_view B (a \<in> stateObjectsDestruct db1) s) = GetState B db1 a"
    using s by (simp add: fun_eq_iff read_live)
  let ?db2 = "journal_append (balanceChange a (Balance (data s))) db1"
  have "live_obj B ?db2 a = Some s" using s by simp
  note w = setObject_reads [OF this, of "Object_setBalance (Balance (data s) + x) s"]
  show "GetBalance B (AddBalance B db a x) = (GetBalance B db)(a := GetBalance B db a + x)"
    "GetCode B (AddBalance B db a x) = GetCode B db" "stateValidators (AddBalance B db a x) = stateValidators db"
    using w(1,2) l(3,4,5) r(1,2) b c by (auto simp: AddBalance_def g Let_def fun_eq_iff sgn_0_0)
  show "GetState B (AddBalance B db a x) = GetState B db" if "trie_ok B"
    using w(3) l(4,5) r(3) [OF that] st by (auto simp: AddBalance_def g Let_def)
qed

lemma SubBalance_effect [ledger_simps]:
  assumes "db_ok db"
  shows "GetBalance B (SubBalance B db a x) = (GetBalance B db)(a := GetBalance B db a - x)"
    "GetCode B (SubBalance B db a x) = GetCode B db"
    "trie_ok B \<Longrightarrow> GetState B (SubBalance B db a x) = GetState B db"
    "stateValidators (SubBalance B db a x) = stateValidators db"
proof -
  obtain s db1 where g: "GetOrNewStateObject B db a = (s, db1)" by fastforce
  have e: "SubBalance B db a x = (if x = 0 then db1 else AddBalance B db a (- x))"
    by (simp add: SubBalance_def AddBalance_def g sgn_0_0)
  note r = GetOrNew_reads [OF g assms] and l = GetOrNew_live [OF g assms] and a = AddBalance_effect [OF assms, of B a "- x"]
  show "GetBalance B (SubBalance B db a x) = (GetBalance B db)(a := GetBalance B db a - x)"
    "GetCode B (SubBalance B db a x) = GetCode B db" "stateValidators (SubBalance B db a x) = stateValidators db"
    using a r l(3) by (auto simp: e)
  show "trie_ok B \<Longrightarrow> GetState B (SubBalance B db a x) = GetState B db" using a(3) r(3) by (simp add: e)
qed

lemma SetCode_effect [ledger_simps]:
  assumes "db_ok db"
  shows "GetBalance B (SetCode B db a c0 vw) = GetBalance B db"
    "GetCode B (SetCode B db a c0 vw) = (GetCode B db)(a \<mapsto> c0)"
    "trie_ok B \<Longrightarrow> GetState B (SetCode B db a c0 vw) = GetState B db"
    "stateValidators (SetCode B db a c0 vw) = stateValidators db"
proof -
  obtain s db1 where g: "GetOrNewStateObject B db a = (s, db1)" by fastforce
  note r = GetOrNew_reads [OF g assms] and l = GetOrNew_live [OF g assms]
  have s: "live_obj B db1 a = Some s" using l(2) [of a] by simp
  have b: "Balance (data s) = GetBalance B db1 a" using s by (simp add: read_live(1))
  have st: "vState (obj_view B (a \<in> stateObjectsDestruct db1) s) = GetState B db1 a"
    using s by (simp add: fun_eq_iff read_live)
  let ?db2 = "journal_append (codeChange a (Object_Code B s) (CodeHash (data s))) db1"
  have "live_obj B ?db2 a = Some s" using s by simp
  note w = setObject_reads [OF this, of "Object_setCode (Keccak256Hash B c0) (Some c0) vw s"]
  have e: "SetCode B db a c0 vw = setStateObject (Object_setCode (Keccak256Hash B c0) (Some c0) vw s) ?db2"
    using l(4) by (simp add: SetCode_def g)
  show "GetBalance B (SetCode B db a c0 vw) = GetBalance B db" "GetCode B (SetCode B db a c0 vw) = (GetCode B db)(a \<mapsto> c0)"
    "stateValidators (SetCode B db a c0 vw) = stateValidators db"
    using w(1,2) l(3,4,5) r(1,2) b by (auto simp: e fun_eq_iff)
  show "trie_ok B \<Longrightarrow> GetState B (SetCode B db a c0 vw) = GetState B db"
    using w(3) l(4,5) r(3) st by (auto simp: e)
qed

lemma SetState_effect [ledger_simps]:
  assumes "db_ok db"
  shows "GetBalance B (SetState B db a k v) = GetBalance B db" "GetCode B (SetState B db a k v) = GetCode B db"
    "trie_ok B \<Longrightarrow> GetState B (SetState B db a k v) = (GetState B db)(a := (GetState B db a)(k := v))"
    "stateValidators (SetState B db a k v) = stateValidators db"
proof -
  obtain s db1 where g: "GetOrNewStateObject B db a = (s, db1)" by fastforce
  note r = GetOrNew_reads [OF g assms] and l = GetOrNew_live [OF g assms]
  have s: "live_obj B db1 a = Some s" using l(2) [of a] by simp
  let ?d = "a \<in> stateObjectsDestruct db1"
  obtain prev s1 where gs: "Object_GetState B ?d s k = (prev, s1)" by fastforce
  note q = GetState_view [OF gs]
  have v: "data s1 = data s" "Object_Code B s1 = Object_Code B s" "vState (obj_view B ?d s1) = vState (obj_view B ?d s)"
    using arg_cong [OF q(2), of vData] arg_cong [OF q(2), of vCode] arg_cong [OF q(2), of vState] by simp_all
  have b: "Balance (data s) = GetBalance B db1 a" "Object_Code B s = GetCode B db1 a" "vState (obj_view B ?d s) = GetState B db1 a"
    using s by (auto simp: read_live fun_eq_iff)
  have prev: "prev = GetState B db1 a k" using q(1) b(3) by simp
  let ?s2 = "if prev = v then s1 else Object_setState k v s1"
  let ?db2 = "if prev = v then db1 else journal_append (storageChange a k prev) db1"
  have e: "SetState B db a k v = setStateObject ?s2 ?db2" using l(4) gs q(3) by (simp add: SetState_def g)
  have "live_obj B ?db2 a = Some s" "address ?s2 = a" "\<not> deleted ?s2" using s q(3,4) l(4,5) by simp_all
  note w = setObject_reads [OF this]
  show "GetBalance B (SetState B db a k v) = GetBalance B db" "GetCode B (SetState B db a k v) = GetCode B db"
    "stateValidators (SetState B db a k v) = stateValidators db"
    using w(1,2) l(3) r(1,2) b v by (auto simp: e)
  have "GetState B (SetState B db a k v) = (GetState B db1)(a := (GetState B db1 a)(k := v))"
    using w(3) b(3) v prev by (auto simp: e)
  then show "trie_ok B \<Longrightarrow> GetState B (SetState B db a k v) = (GetState B db)(a := (GetState B db a)(k := v))"
    using r(3) by simp
qed

lemma AddLog_effect [ledger_simps]:
  "GetBalance B (AddLog db l) = GetBalance B db" "GetCode B (AddLog db l) = GetCode B db"
  "GetState B (AddLog db l) = GetState B db" "stateValidators (AddLog db l) = stateValidators db"
  by (simp_all add: AddLog_def Let_def)


section \<open>Validators\<close>

text \<open>What a cached pointer or else the code of the account decodes to.\<close>

definition decode_at :: "backend \<Rightarrow> ValidatorWrapper option option \<Rightarrow> bytes option \<Rightarrow> ValidatorWrapper go" where
  "decode_at B cached by' =
     (case cached of
        Some p \<Rightarrow> deref p
      | None \<Rightarrow> (case by' of
                   None \<Rightarrow> Inl (Error ''ErrAddressNotPresent'')
                 | Some bs \<Rightarrow> if bs = [] then Inl (Error ''ErrAddressNotPresent'') else decodeWrapper B bs))"

lemma decode_at_simps [simp]:
  "decode_at B (Some p) x = deref p" "decode_at B None None = Inl (Error ''ErrAddressNotPresent'')"
  "decode_at B None (Some []) = Inl (Error ''ErrAddressNotPresent'')"
  "bs \<noteq> [] \<Longrightarrow> decode_at B None (Some bs) = decodeWrapper B bs"
  by (simp_all add: decode_at_def)

lemma wrapper_at_eq: "wrapper_at B db a = decode_at B (stateValidators db a) (GetCode B db a)"
proof -
  obtain r db1 where g: "getStateObject B db a = (r, db1)" by fastforce
  have r: "Option.bind r (Object_Code B) = GetCode B db a" using live_obj_load(1) [OF g] by (simp add: read_live)
  show ?thesis
  proof (cases "stateValidators db a")
    case (Some c0)
    then show ?thesis by (cases c0) (simp_all add: wrapper_at_def ValidatorWrapper_get_def)
  next
    case None
    have d: "go_bind (go_bind m (\<lambda>val. Inr (Some val, f val))) (\<lambda>(w, _). deref w) = m" for m :: "ValidatorWrapper go" and f :: "ValidatorWrapper \<Rightarrow> DB"
      by (cases m) simp_all
    show ?thesis using None r g d
      by (auto simp: wrapper_at_def ValidatorWrapper_get_def decode_at_def split: option.split)
  qed
qed

text \<open>The reads that determine the ledger.\<close>

definition db_inv :: "backend \<Rightarrow> DB \<Rightarrow> bool" where
  "db_inv B db \<longleftrightarrow> trie_ok B \<and> db_ok db \<and> (\<forall>a. stateValidators db a \<noteq> Some None)"

definition ledger :: "backend \<Rightarrow> DB \<Rightarrow> Ledger" where
  "ledger B db =
     \<lparr>lBal = GetBalance B db,
      lWrap = (\<lambda>a. case wrapper_at B db a of Inr w \<Rightarrow> Some w | Inl _ \<Rightarrow> None),
      lFlag = (\<lambda>a. GetState B db a (IsValidatorKey B) \<noteq> 0)\<rparr>"

lemma ledger_wrap: "lWrap (ledger B db) a = Some w \<longleftrightarrow> wrapper_at B db a = Inr w"
  by (simp add: ledger_def split: sum.split)

lemma ledger_cong:
  assumes "GetBalance B db' = GetBalance B db" "GetCode B db' = GetCode B db"
    "GetState B db' = GetState B db" "stateValidators db' = stateValidators db"
  shows "ledger B db' = ledger B db"
  using assms by (simp add: ledger_def wrapper_at_eq)

lemma IsValidator_flag: "IsValidator B db a = lFlag (ledger B db) a"
  by (simp add: IsValidator_def ledger_def GetState_def split: option.split)

lemma load_reads:
  assumes "getStateObject B db a = (r, db')"
  shows "GetBalance B db' = GetBalance B db" "GetCode B db' = GetCode B db" "GetState B db' = GetState B db"
  using live_obj_load [OF assms] by (simp_all add: fun_eq_iff read_live cong: option.case_cong)

lemma ledger_cache:
  assumes "wrapper_at B db a = Inr w"
  shows "ledger B (db\<lparr>stateValidators := (stateValidators db)(a := Some (Some w))\<rparr>) = ledger B db"
proof -
  have "wrapper_at B (db\<lparr>stateValidators := (stateValidators db)(a := Some (Some w))\<rparr>) b = wrapper_at B db b" for b
    using assms by (cases "b = a") (simp_all add: wrapper_at_eq)
  then show ?thesis by (simp add: ledger_def)
qed

lemma ValidatorWrapper_get_ledger:
  assumes inv: "db_inv B db" and get: "ValidatorWrapper_get B db a orig cp = Inr (p, db')"
  shows "p = lWrap (ledger B db) a \<and> p \<noteq> None \<and> db_inv B db' \<and> ledger B db' = ledger B db"
proof (cases "stateValidators db a")
  case (Some cached)
  then obtain w where w: "cached = Some w" using inv by (cases cached) (auto simp: db_inv_def)
  then show ?thesis using Some get inv
    by (auto simp: ValidatorWrapper_get_def ledger_def wrapper_at_eq split: if_splits)
next
  case None
  obtain r db1 where g: "getStateObject B db a = (r, db1)" by fastforce
  have ok: "db_ok db1" using getStateObject_props(3) [OF g] inv by (simp add: db_inv_def)
  note l = live_obj_load [OF g] and e = load_reads [OF g]
  have same: "ledger B db1 = ledger B db" using e l(3) by (rule ledger_cong)
  obtain bs w where w: "Option.bind r (Object_Code B) = Some bs" "bs \<noteq> []" "decodeWrapper B bs = Inr w" "p = Some w"
    "db' = db1\<lparr>stateValidators := (stateValidators db1)(a := Some (Some w))\<rparr>"
    using get None g by (auto simp: ValidatorWrapper_get_def split: if_splits option.splits)
  have "GetCode B db a = Some bs" using w(1) l(1) by (simp add: read_live)
  then have at: "wrapper_at B db a = Inr w" "wrapper_at B db1 a = Inr w"
    using None w e(2) l(3) by (simp_all add: wrapper_at_eq)
  have "ledger B db' = ledger B db" using ledger_cache [OF at(2)] same w(5) by simp
  moreover have "db_inv B db'" using inv ok l(3) w(5) by (simp add: db_inv_def)
  moreover have "lWrap (ledger B db) a = Some w" using at by (simp add: ledger_def)
  ultimately show ?thesis using w(4) by simp
qed

lemma ValidatorWrapper_get_some:
  assumes inv: "db_inv B db" and w: "lWrap (ledger B db) a = Some w" and flags: "\<not> (orig \<and> cp)"
  shows "\<exists>db'. ValidatorWrapper_get B db a orig cp = Inr (Some w, db')"
proof -
  have at: "wrapper_at B db a = Inr w" using w by (auto simp: ledger_def split: sum.splits)
  show ?thesis
  proof (cases "stateValidators db a")
    case (Some c0)
    then show ?thesis using at flags by (auto simp: wrapper_at_eq ValidatorWrapper_get_def)
  next
    case None
    obtain r db1 where g: "getStateObject B db a = (r, db1)" by fastforce
    have "Option.bind r (Object_Code B) = GetCode B db a" using live_obj_load(1) [OF g] by (simp add: read_live)
    then show ?thesis using at flags None g
      by (auto simp: wrapper_at_eq ValidatorWrapper_get_def decode_at_def split: option.splits if_splits)
  qed
qed

lemma UpdateValidatorWrapper_ledger:
  assumes inv: "db_inv B db" and up: "UpdateValidatorWrapper B db a w = Inr db'"
  shows "SanityCheck w = Inr () \<and> db_inv B db' \<and> ledger B db' = put_wrap a w (ledger B db)"
proof -
  obtain bs where bs: "SanityCheck w = Inr ()"
    "db' = (SetCode B db a bs True)\<lparr>stateValidators := (stateValidators (SetCode B db a bs True))(a := Some (Some w))\<rparr>"
    using up by (auto simp: UpdateValidatorWrapper_def Let_def)
  have ok: "db_ok db" "trie_ok B" using inv by (simp_all add: db_inv_def)
  note e = SetCode_effect [OF ok(1), of B a bs True]
  have "wrapper_at B db' b = (if b = a then Inr w else wrapper_at B db b)" for b
    using e by (simp add: bs(2) wrapper_at_eq)
  then have "lWrap (ledger B db') = (lWrap (ledger B db))(a \<mapsto> w)" by (auto simp: ledger_def fun_eq_iff)
  then have "ledger B db' = put_wrap a w (ledger B db)"
    using e ok(2) by (simp add: put_wrap_def) (simp add: ledger_def bs(2))
  moreover have "db_ok db'" using UpdateValidatorWrapper_journaled(1) [OF up ok(1)] by (simp add: journaled_def)
  ultimately show ?thesis using inv e(4) bs by (auto simp: db_inv_def)
qed

lemma UpdateValidatorWrapperWithRevert_ledger:
  assumes inv: "db_inv B db" and up: "UpdateValidatorWrapperWithRevert B db a w = Inr db'"
  shows "SanityCheck w = Inr () \<and> db_inv B db' \<and> ledger B db' = put_wrap a w (ledger B db)"
proof -
  obtain prev db1 db2 where u: "UpdateValidatorWrapper B db1 a w = Inr db2" "db' = journal_append (validatorWrapperChange a prev) db2"
    and g: "db1 = db \<or> ValidatorWrapper_get B db a True False = Inr (prev, db1)"
    using up by (auto simp: UpdateValidatorWrapperWithRevert_def split: sum.splits if_splits)
  have 1: "db_inv B db1 \<and> ledger B db1 = ledger B db" using g inv ValidatorWrapper_get_ledger [OF inv] by auto
  moreover have "ledger B db' = ledger B db2" unfolding u(2) by (rule ledger_cong) simp_all
  ultimately show ?thesis using UpdateValidatorWrapper_ledger [OF _ u(1)] u(2) by (auto simp: db_inv_def)
qed


section \<open>The account state implements the interface\<close>

definition DB_ops :: "backend \<Rightarrow> DB vmStateDB" where
  "DB_ops B =
     \<lparr>vmSubBalance = SubBalance B, vmAddBalance = AddBalance B, vmGetBalance = GetBalance B,
      vmValidatorWrapper = ValidatorWrapper_get B, vmUpdateValidatorWrapper = UpdateValidatorWrapper B,
      vmUpdateValidatorWrapperWithRevert = UpdateValidatorWrapperWithRevert B,
      vmSetValidatorFlag = SetValidatorFlag B, vmIsValidator = IsValidator B,
      vmGetValidatorFirstElectionEpoch = GetValidatorFirstElectionEpoch B, vmAddLog = AddLog\<rparr>"

lemma DB_ops_sel [simp]:
  "vmSubBalance (DB_ops B) = SubBalance B" "vmAddBalance (DB_ops B) = AddBalance B"
  "vmGetBalance (DB_ops B) = GetBalance B" "vmValidatorWrapper (DB_ops B) = ValidatorWrapper_get B"
  "vmUpdateValidatorWrapper (DB_ops B) = UpdateValidatorWrapper B"
  "vmUpdateValidatorWrapperWithRevert (DB_ops B) = UpdateValidatorWrapperWithRevert B"
  "vmSetValidatorFlag (DB_ops B) = SetValidatorFlag B" "vmIsValidator (DB_ops B) = IsValidator B"
  "vmGetValidatorFirstElectionEpoch (DB_ops B) = GetValidatorFirstElectionEpoch B" "vmAddLog (DB_ops B) = AddLog"
  by (simp_all add: DB_ops_def)

lemma balance_change_ledger:
  assumes "GetBalance B db' = (GetBalance B db)(a := x)" "GetCode B db' = GetCode B db"
    "GetState B db' = GetState B db" "stateValidators db' = stateValidators db"
  shows "ledger B db' = put_bal a x (ledger B db)"
  using assms by (simp add: put_bal_def ledger_def wrapper_at_eq)

lemma AddBalance_ledger:
  assumes "db_inv B db"
  shows "db_inv B (AddBalance B db a x) \<and> ledger B (AddBalance B db a x) = put_bal a (GetBalance B db a + x) (ledger B db)"
proof -
  have ok: "trie_ok B" "db_ok db" using assms by (simp_all add: db_inv_def)
  note e = AddBalance_effect [OF ok(2), of B a x]
  show ?thesis using balance_change_ledger [OF e(1,2) e(3) [OF ok(1)] e(4)] AddBalance_journaled [OF ok(2), of B a x] assms e(4)
    by (simp add: db_inv_def journaled_def)
qed

lemma SubBalance_ledger:
  assumes "db_inv B db"
  shows "db_inv B (SubBalance B db a x) \<and> ledger B (SubBalance B db a x) = put_bal a (GetBalance B db a - x) (ledger B db)"
proof -
  have ok: "trie_ok B" "db_ok db" using assms by (simp_all add: db_inv_def)
  note e = SubBalance_effect [OF ok(2), of B a x]
  show ?thesis using balance_change_ledger [OF e(1,2) e(3) [OF ok(1)] e(4)] SubBalance_journaled [OF ok(2), of B a x] assms e(4)
    by (simp add: db_inv_def journaled_def)
qed

lemma SetValidatorFlag_ledger:
  assumes "db_inv B db"
  shows "db_inv B (SetValidatorFlag B db a) \<and> ledger B (SetValidatorFlag B db a) = put_flag a (ledger B db)"
proof -
  have ok: "trie_ok B" "db_ok db" using assms by (simp_all add: db_inv_def)
  note e = SetState_effect [OF ok(2), of B a "IsValidatorKey B" "IsValidatorHash B"]
  have "ledger B (SetValidatorFlag B db a) = put_flag a (ledger B db)"
    using e(1,2) e(3) [OF ok(1)] e(4) ok(1)
    by (auto simp: SetValidatorFlag_def put_flag_def ledger_def wrapper_at_eq fun_eq_iff trie_ok_def)
  then show ?thesis using SetState_journaled [OF ok(2)] assms e(4) by (simp add: db_inv_def journaled_def SetValidatorFlag_def)
qed

lemma AddLog_ledger: "db_inv B db \<Longrightarrow> db_inv B (AddLog db l) \<and> ledger B (AddLog db l) = ledger B db"
  using AddLog_journaled [of db B l] ledger_cong [OF AddLog_effect(1-4), of B]
  by (simp add: db_inv_def journaled_def AddLog_effect)

lemma ledger_sel: "lBal (ledger B db) = GetBalance B db"
  by (simp add: ledger_def)

interpretation account_state: vm_state "DB_ops B" "db_inv B" "ledger B" for B
proof (unfold_locales, unfold DB_ops_sel ledger_sel)
  show "\<And>db a. db_inv B db \<Longrightarrow> GetBalance B db a = GetBalance B db a" by simp
  show "\<And>db a. db_inv B db \<Longrightarrow> IsValidator B db a = lFlag (ledger B db) a" by (rule IsValidator_flag)
  show "\<And>db a orig cp p db'. db_inv B db \<Longrightarrow> ValidatorWrapper_get B db a orig cp = Inr (p, db') \<Longrightarrow>
      p = lWrap (ledger B db) a \<and> p \<noteq> None \<and> db_inv B db' \<and> ledger B db' = ledger B db"
    by (rule ValidatorWrapper_get_ledger)
  show "\<And>db a w orig cp. db_inv B db \<Longrightarrow> lWrap (ledger B db) a = Some w \<Longrightarrow> \<not> (orig \<and> cp) \<Longrightarrow>
      \<exists>db'. ValidatorWrapper_get B db a orig cp = Inr (Some w, db')"
    by (rule ValidatorWrapper_get_some)
qed (rule SubBalance_ledger AddBalance_ledger UpdateValidatorWrapper_ledger UpdateValidatorWrapperWithRevert_ledger
      SetValidatorFlag_ledger AddLog_ledger; assumption)+

text \<open>The account state stores every valid wrapper that the RLP library can encode.\<close>

definition encodable :: "backend \<Rightarrow> ValidatorWrapper \<Rightarrow> bool" where
  "encodable B w \<longleftrightarrow> is_ok (encodeWrapper B w)"

interpretation account_store: vm_store "DB_ops B" "db_inv B" "ledger B" "encodable B" for B
proof (unfold_locales, unfold DB_ops_sel encodable_def is_ok_iff)
  fix db a w0 w
  assume inv: "db_inv B db" and w0: "lWrap (ledger B db) a = Some w0" and w: "SanityCheck w = Inr ()" and e: "\<exists>by'. encodeWrapper B w = Inr by'"
  obtain db1 where "ValidatorWrapper_get B db a True False = Inr (Some w0, db1)"
    using ValidatorWrapper_get_some [OF inv w0, of True False] by auto
  then show "\<exists>db'. UpdateValidatorWrapperWithRevert B db a w = Inr db'"
    using w e by (auto simp: UpdateValidatorWrapperWithRevert_def UpdateValidatorWrapper_def Let_def)
qed

section \<open>Reverting a wrapper\<close>

lemma world_reads:
  "GetBalance B db a = (case live (world B db) a of Some v \<Rightarrow> Balance (vData v) | None \<Rightarrow> 0)"
  "GetCode B db a = Option.bind (live (world B db) a) vCode"
  "GetState B db a k = (case live (world B db) a of Some v \<Rightarrow> vState v k | None \<Rightarrow> 0)"
  by (simp_all add: read_live live_world live_obj_def split: option.split)

lemma world_eq_reads:
  assumes "world B db' = world B db"
  shows "GetBalance B db' = GetBalance B db" "GetCode B db' = GetCode B db" "GetState B db' = GetState B db"
  using assms by (simp_all add: fun_eq_iff world_reads)

definition other_change :: "journalEntry \<Rightarrow> bool" where
  "other_change e \<longleftrightarrow> (\<forall>a p. e \<noteq> validatorWrapperChange a p)"

lemma revert_validators:
  assumes "other_change e" "db_ok db" "revert B e db = Inr db'"
  shows "stateValidators db' = stateValidators db"
proof (cases e)
  case (suicideChange a s b)
  obtain r db1 where g: "getStateObject B db a = (r, db1)" by fastforce
  then show ?thesis using assms suicideChange live_obj_load(3) [OF g] by (auto split: option.splits)
qed (use assms live_obj_load(3) in \<open>auto simp: other_change_def on_object_def Let_def split: if_splits option.splits prod.splits\<close>)

lemma undo_validators:
  assumes "list_all other_change es" "db_ok db" "go_fold (undo_entry B) db es = Inr db'"
  shows "stateValidators db' = stateValidators db"
  using assms
proof (induction es arbitrary: db)
  case (Cons e es)
  then obtain db1 where 1: "undo_entry B db e = Inr db1" "go_fold (undo_entry B) db1 es = Inr db'" by auto
  then obtain db0 where 0: "revert B e db = Inr db0" "stateValidators db1 = stateValidators db0" "db_ok db1 = db_ok db0"
    by (auto simp: undo_entry_def split: option.splits)
  then show ?case
    using Cons.IH [OF _ _ 1(2)] Cons.prems(1,2) revert_validators [OF _ Cons.prems(2) 0(1)] revert_ok [OF Cons.prems(2) 0(1)]
    by simp
qed simp


lemma createObject_entries:
  assumes "createObject B db a = (n, p, db')"
  shows "\<exists>es. entries db' = entries db @ es \<and> list_all other_change es"
  using assms
  by (auto simp: createObject_def getDeletedStateObject_def Let_def other_change_def setStateObject_def
      split: option.splits)

lemma load_entries: "getStateObject B db a = (r, db') \<Longrightarrow> entries db' = entries db"
  by (auto simp: getStateObject_def getDeletedStateObject_def split: option.splits)

lemma SetCode_entries: "\<exists>es. entries (SetCode B db a c0 vw) = entries db @ es \<and> list_all other_change es"
proof -
  obtain r db1 where g: "getStateObject B db a = (r, db1)" by fastforce
  obtain n p db2 where c: "createObject B db1 a = (n, p, db2)" by (metis prod_cases3)
  obtain es where "entries db2 = entries db @ es" "list_all other_change es"
    using createObject_entries [OF c] load_entries [OF g] by auto
  then show ?thesis using load_entries [OF g]
    by (cases r) (auto simp: SetCode_def GetOrNewStateObject_def g c other_change_def)
qed

lemma get_entries: "ValidatorWrapper_get B db a orig cp = Inr (p, db') \<Longrightarrow> entries db' = entries db"
  by (auto simp: ValidatorWrapper_get_def dest: load_entries split: if_splits option.splits prod.splits)

text \<open>What a successful update of an existing wrapper leaves in the journal and in the cache.\<close>

lemma UpdateWithRevert_trace:
  assumes inv: "db_inv B db" and w0: "lWrap (ledger B db) a = Some w0"
    and up: "UpdateValidatorWrapperWithRevert B db a w = Inr db1"
  obtains db0 es where "db_inv B db0" "ledger B db0 = ledger B db" "list_all other_change es"
    "entries db1 = entries db @ es @ [validatorWrapperChange a (Some w0)]"
    "stateValidators db1 = (stateValidators db0)(a := Some (Some w))" "world B db0 = world B db"
proof -
  obtain db0 where get: "ValidatorWrapper_get B db a True False = Inr (Some w0, db0)"
    using ValidatorWrapper_get_some [OF inv w0, of True False] by auto
  note l = ValidatorWrapper_get_ledger [OF inv get]
  obtain db2 where u: "UpdateValidatorWrapper B db0 a w = Inr db2" "db1 = journal_append (validatorWrapperChange a (Some w0)) db2"
    using up get by (auto simp: UpdateValidatorWrapperWithRevert_def)
  obtain bs where b: "db2 = (SetCode B db0 a bs True)\<lparr>stateValidators := (stateValidators (SetCode B db0 a bs True))(a := Some (Some w))\<rparr>"
    using u(1) by (auto simp: UpdateValidatorWrapper_def Let_def)
  obtain es where es: "entries (SetCode B db0 a bs True) = entries db0 @ es" "list_all other_change es"
    using SetCode_entries by blast
  have "stateValidators (SetCode B db0 a bs True) = stateValidators db0"
    using SetCode_effect(4) l by (simp add: db_inv_def)
  moreover have "world B db0 = world B db"
    using ValidatorWrapper_get_quiet(1) [OF get] get_entries [OF get] inv by (auto simp: db_inv_def journaled_def)
  ultimately show thesis using that [of db0 es] l es b u(2) get_entries [OF get] by simp
qed

text \<open>
  C36: \<open>UpdateValidatorWrapperWithRevert\<close> of an existing validator stores the new wrapper and nothing
  else changes in the ledger; undoing the journal entries it wrote restores the whole ledger, the old
  wrapper in the cache included.
\<close>

theorem wrapper_update_reverts:
  assumes inv: "db_inv B db" and w0: "lWrap (ledger B db) a = Some w0"
    and up: "UpdateValidatorWrapperWithRevert B db a w = Inr db1"
  shows "ledger B db1 = put_wrap a w (ledger B db)
    \<and> (\<exists>db2. journal_revert B db1 (length (entries db)) = Inr db2 \<and> db_inv B db2 \<and> ledger B db2 = ledger B db)"
proof
  show "ledger B db1 = put_wrap a w (ledger B db)" using UpdateValidatorWrapperWithRevert_ledger [OF inv up] by simp
  from UpdateWithRevert_trace [OF assms] obtain db0 es where t: "db_inv B db0" "ledger B db0 = ledger B db"
    "list_all other_change es" "entries db1 = entries db @ es @ [validatorWrapperChange a (Some w0)]"
    "stateValidators db1 = (stateValidators db0)(a := Some (Some w))" "world B db0 = world B db" by blast
  have j: "journaled B db db1" and ok1: "db_ok db1"
    using UpdateValidatorWrapperWithRevert_journaled(1) [OF up] inv by (auto simp: db_inv_def journaled_def)
  let ?k = "length (entries db)"
  have "undo_all B (world B db1) (drop ?k (entries db1)) = Inr (world B db)" using j by (auto simp: journaled_def)
  from journal_revert_world [OF ok1 this] obtain db2 where
    r: "journal_revert B db1 ?k = Inr db2" "world B db2 = world B db" "db_ok db2" by blast
  obtain db3 where f: "go_fold (undo_entry B) db1 (validatorWrapperChange a (Some w0) # rev es) = Inr db3"
    "db2 = db3\<lparr>entries := take ?k (entries db1)\<rparr>" using r(1) t(4) by (auto simp: journal_revert_def)
  let ?d = "db1\<lparr>stateValidators := (stateValidators db1)(a := Some (Some w0)), dirties := (dirties db1)(a := dirties db1 a - 1)\<rparr>"
  have "go_fold (undo_entry B) ?d (rev es) = Inr db3" using f(1) by (simp add: undo_entry_def)
  then have sv: "stateValidators db2 = (stateValidators db0)(a := Some (Some w0))"
    using undo_validators [of "rev es" ?d B db3] t(3,5) ok1 f(2) by (simp add: list_all_rev)
  have "wrapper_at B db0 a = Inr w0" using w0 t(2) ledger_wrap by metis
  from ledger_cache [OF this] have "ledger B (db0\<lparr>stateValidators := stateValidators db2\<rparr>) = ledger B db" using sv t(2) by simp
  moreover have "ledger B db2 = ledger B (db0\<lparr>stateValidators := stateValidators db2\<rparr>)"
    using world_eq_reads [of B db2 db0] r(2) t(6) by (intro ledger_cong) simp_all
  ultimately have "ledger B db2 = ledger B db" by simp
  then show "\<exists>db2. journal_revert B db1 ?k = Inr db2 \<and> db_inv B db2 \<and> ledger B db2 = ledger B db"
    using r inv t(1) sv by (auto simp: db_inv_def)
qed


definition sample_db :: DB where
  "sample_db = New\<lparr>stateValidators := (\<lambda>a. if a = 9 then Some (Some sample_wrapper) else None)\<rparr>"

lemma sample_trie_ok: "trie_ok sample_backend"
  by (simp add: trie_ok_def sample_backend_def IsValidatorHash_def IsValidatorKey_def FirstElectionEpochKey_def)

lemma sample_db_inv: "db_inv sample_backend sample_db"
  using sample_trie_ok by (simp add: db_inv_def sample_db_def New_def db_ok_def)

lemma sample_db_wrap: "lWrap (ledger sample_backend sample_db) 9 = Some sample_wrapper"
  by (simp add: ledger_wrap wrapper_at_eq sample_db_def)

lemma sample_update:
  assumes "valid_wrapper w" "stateValidators db a = Some (Some w0)"
  shows "\<exists>db1. UpdateValidatorWrapperWithRevert sample_backend db a w = Inr db1"
proof -
  have "SanityCheck w = Inr ()" using assms(1) SanityCheck_iff by simp
  then show ?thesis using assms(2)
    by (simp add: UpdateValidatorWrapperWithRevert_def UpdateValidatorWrapper_def ValidatorWrapper_get_def
        sample_backend_def Let_def)
qed

theorem wrapper_update_reverts_witness:
  "\<exists>db1 db2. UpdateValidatorWrapperWithRevert sample_backend sample_db 9 (sample_wrapper\<lparr>BlockReward := 5\<rparr>) = Inr db1
     \<and> lWrap (ledger sample_backend db1) 9 = Some (sample_wrapper\<lparr>BlockReward := 5\<rparr>)
     \<and> journal_revert sample_backend db1 0 = Inr db2
     \<and> lWrap (ledger sample_backend db2) 9 = Some sample_wrapper"
proof -
  have "valid_wrapper (sample_wrapper\<lparr>BlockReward := 5\<rparr>)"
    using sample_wrapper_valid by (simp add: valid_wrapper_def enough_self_delegation_def TotalDelegation_def)
  then obtain db1 where u: "UpdateValidatorWrapperWithRevert sample_backend sample_db 9 (sample_wrapper\<lparr>BlockReward := 5\<rparr>) = Inr db1"
    using sample_update [of _ sample_db 9 sample_wrapper] by (auto simp: sample_db_def)
  have "entries sample_db = []" by (simp add: sample_db_def New_def)
  then show ?thesis
    using wrapper_update_reverts [OF sample_db_inv sample_db_wrap u] u sample_db_wrap
    by (auto simp: put_wrap_def)
qed

end
