(* ===== verification/Availability.thy ===== *)
theory Availability
  imports Ledger Effective
begin

text \<open>
  Availability of validators (\<open>staking/availability/measure.go\<close>): who signed a block, the counters of
  signed blocks, the threshold that makes a validator inactive, and the limits on commission rates.
  The functions get the cached wrapper itself and write through the pointer; \<open>with_original\<close> models
  that as an update of the cache entry, which no journal entry records.
\<close>

section \<open>Writing through the cached pointer\<close>

definition with_original ::
  "backend \<Rightarrow> DB \<Rightarrow> Address \<Rightarrow> (ValidatorWrapper \<Rightarrow> ValidatorWrapper go) \<Rightarrow> DB go" where
  "with_original B db addr f =
     go_bind (ValidatorWrapper_get B db addr True False) (\<lambda>(p, db).
     go_bind (deref p) (\<lambda>wrapper.
     go_bind (f wrapper) (\<lambda>wrapper'.
       Inr (db\<lparr>stateValidators := (stateValidators db)(addr := Some (Some wrapper'))\<rparr>))))"

lemma cache_write_ledger:
  assumes "db_inv B db"
  shows "db_inv B (db\<lparr>stateValidators := (stateValidators db)(a := Some (Some w))\<rparr>)
    \<and> ledger B (db\<lparr>stateValidators := (stateValidators db)(a := Some (Some w))\<rparr>) = put_wrap a w (ledger B db)"
  using assms by (auto simp: db_inv_def put_wrap_def ledger_def wrapper_at_eq fun_eq_iff)

lemma with_original_ok:
  assumes "db_inv B db" "with_original B db a f = Inr db'"
  shows "\<exists>w w'. lWrap (ledger B db) a = Some w \<and> f w = Inr w' \<and> db_inv B db' \<and> ledger B db' = put_wrap a w' (ledger B db)"
proof -
  obtain p db1 w w' where g: "ValidatorWrapper_get B db a True False = Inr (p, db1)" "p = Some w" "f w = Inr w'"
    "db' = db1\<lparr>stateValidators := (stateValidators db1)(a := Some (Some w'))\<rparr>"
    using assms(2) by (auto simp: with_original_def)
  from ValidatorWrapper_get_ledger [OF assms(1) g(1)] cache_write_ledger [of B db1 a w'] g show ?thesis
    by (intro exI [of _ w] exI [of _ w']) auto
qed

lemma with_original_total:
  assumes "db_inv B db" "lWrap (ledger B db) a = Some w" "f w = Inr w'"
  shows "\<exists>db'. with_original B db a f = Inr db'"
  using ValidatorWrapper_get_some [OF assms(1,2), of True False] assms(3) by (auto simp: with_original_def)

section \<open>Definitions\<close>

definition measure_threshold :: "Dec go" where
  "measure_threshold = Quo (NewDec 2) (NewDec 3)"

definition minCommissionRateEra1 :: "Dec go" where "minCommissionRateEra1 = MustNewDecFromStr ''0.05''"
definition minCommissionRateEra2 :: "Dec go" where "minCommissionRateEra2 = MustNewDecFromStr ''0.07''"

definition MinCommissionRate :: "bool \<Rightarrow> bool \<Rightarrow> Dec go" where
  "MinCommissionRate era1 era2 =
     (if era2 then minCommissionRateEra2 else if era1 then minCommissionRateEra1 else Inr ZeroDec)"

definition BlockSigners ::
  "'pk pk_ops \<Rightarrow> (SerializedPublicKey \<Rightarrow> 'pk go) \<Rightarrow> uint8 list \<Rightarrow> Committee \<Rightarrow> (Slot list \<times> Slot list) go" where
  "BlockSigners ops BytesToPublicKey bitmap parentCommittee =
     go_bind (BLSPublicKeys BytesToPublicKey (Some parentCommittee)) (\<lambda>committerKeys.
     go_bind (SetMask ops (NewMask ops committerKeys) bitmap) (\<lambda>mk.
       go_fold (\<lambda>(payable, missing) (idx, member).
           go_bind (IndexEnabled mk (int idx)) (\<lambda>sgnd.
             Inr (if sgnd then (payable @ [member], missing) else (payable, missing @ [member]))))
         ([], []) (enumerate 0 (Slots parentCommittee))))"

definition BallotResult ::
  "'pk pk_ops \<Rightarrow> (SerializedPublicKey \<Rightarrow> 'pk go) \<Rightarrow> uint8 list \<Rightarrow> State option \<Rightarrow> uint32 \<Rightarrow> (Slot list \<times> Slot list \<times> Slot list) go" where
  "BallotResult ops BytesToPublicKey lastCommitBitmap parentShardState shardID =
     (case FindCommitteeByID parentShardState shardID of
        Inl (Error _) \<Rightarrow> Inl (Error ''cannot find shard in the shard state'')
      | Inl p \<Rightarrow> Inl p
      | Inr parentCommittee \<Rightarrow>
          go_bind (BlockSigners ops BytesToPublicKey lastCommitBitmap parentCommittee) (\<lambda>(payable, missing).
            Inr (Slots parentCommittee, payable, missing)))"

text \<open>One turn of the inner loop of \<open>bumpCount\<close>.\<close>

definition bump_wrapper :: "bool \<Rightarrow> ValidatorWrapper \<Rightarrow> ValidatorWrapper" where
  "bump_wrapper didSign w =
     w\<lparr>Counters := \<lparr>NumBlocksToSign = NumBlocksToSign (Counters w) + 1,
        NumBlocksSigned = NumBlocksSigned (Counters w) + (if didSign then 1 else 0)\<rparr>\<rparr>"

definition bump_slot :: "backend \<Rightarrow> Address set \<Rightarrow> bool \<Rightarrow> DB \<Rightarrow> Slot \<Rightarrow> DB go" where
  "bump_slot B stakedAddrSet didSign db slot =
     (if EcdsaAddress slot \<notin> stakedAddrSet then Inr db
      else with_original B db (EcdsaAddress slot) (\<lambda>w. Inr (bump_wrapper didSign w)))"

definition bumpCount :: "backend \<Rightarrow> DB \<Rightarrow> (bool \<times> Slot list) list \<Rightarrow> Address set \<Rightarrow> DB go" where
  "bumpCount B db signers stakedAddrSet =
     go_fold (\<lambda>db (didSign, committee). go_fold (bump_slot B stakedAddrSet didSign) db committee) db signers"

definition IncrementValidatorSigningCounts ::
  "backend \<Rightarrow> StakedSlots \<Rightarrow> DB \<Rightarrow> Slot list \<Rightarrow> Slot list \<Rightarrow> DB go" where
  "IncrementValidatorSigningCounts B stk db signers missing =
     bumpCount B db [(False, missing), (True, signers)] (LookupSet stk)"

definition IsBelowSigningThreshold :: "Dec \<Rightarrow> bool go" where
  "IsBelowSigningThreshold q = go_bind measure_threshold (\<lambda>m. Inr (LTE q m))"

definition ComputeCurrentSigning :: "ValidatorWrapper \<Rightarrow> ValidatorWrapper \<Rightarrow> Computed go" where
  "ComputeCurrentSigning snapshot wrapper =
     (let sgnd = NumBlocksSigned (Counters wrapper) - NumBlocksSigned (Counters snapshot);
          toSign = NumBlocksToSign (Counters wrapper) - NumBlocksToSign (Counters snapshot);
          computed = NewComputed sgnd toSign 0 ZeroDec True
      in if toSign = 0 then Inr computed
         else
           go_bind (Quo (NewDecFromBigInt sgnd) (NewDecFromBigInt toSign)) (\<lambda>pct.
           go_bind (IsBelowSigningThreshold pct) (\<lambda>below.
             Inr (computed\<lparr>cPercentage := pct, IsBelowThreshold := below\<rparr>))))"

text \<open>
  The wrapper is read, the snapshot is read, and the status is written through the pointer; a banned
  validator is left alone before the snapshot is read.
\<close>

definition epos_status :: "(Address \<Rightarrow> ValidatorSnapshot go) \<Rightarrow> ValidatorWrapper \<Rightarrow> ValidatorWrapper go" where
  "epos_status ReadValidatorSnapshot wrapper =
     (if Status (theValidator wrapper) = Banned then Inr wrapper
      else
        go_bind (ReadValidatorSnapshot (vAddress (theValidator wrapper))) (\<lambda>snapshot.
        go_bind (ComputeCurrentSigning (snapValidator snapshot) wrapper) (\<lambda>computed.
          Inr (if IsBelowThreshold computed
               then wrapper\<lparr>theValidator := (theValidator wrapper)\<lparr>Status := Inactive\<rparr>\<rparr> else wrapper))))"

definition ComputeAndMutateEPOSStatus ::
  "backend \<Rightarrow> (Address \<Rightarrow> ValidatorSnapshot go) \<Rightarrow> DB \<Rightarrow> Address \<Rightarrow> DB go" where
  "ComputeAndMutateEPOSStatus B ReadValidatorSnapshot db addr =
     with_original B db addr (epos_status ReadValidatorSnapshot)"

definition set_max_rate :: "Dec option \<Rightarrow> Validator \<Rightarrow> Validator" where
  "set_max_rate r v = v\<lparr>vCommission := (vCommission v)\<lparr>Rates := (Rates (vCommission v))\<lparr>MaxRate := r\<rparr>\<rparr>\<rparr>"

text \<open>\<open>SetBytes(x.Bytes())\<close> stores the magnitude of \<open>x\<close>.\<close>

definition UpdateMinimumCommissionFee ::
  "backend \<Rightarrow> int \<Rightarrow> DB \<Rightarrow> Address \<Rightarrow> Dec \<Rightarrow> uint64 \<Rightarrow> (bool \<times> DB) go" where
  "UpdateMinimumCommissionFee B electionEpoch db addr minRate promoPeriod =
     go_bind (ValidatorWrapper_get B db addr True False) (\<lambda>(p, db).
     go_bind (GetValidatorFirstElectionEpoch B db addr) (\<lambda>firstElectionEpoch.
       let first = Uint64 firstElectionEpoch; election = Uint64 electionEpoch
       in if first \<noteq> 0 \<and> election - first \<ge> promoPeriod \<and> election \<ge> first
          then go_bind (deref p) (\<lambda>wrapper.
               go_bind (deref (Rate (Rates (vCommission (theValidator wrapper))))) (\<lambda>rate.
                 if LT rate minRate
                 then Inr (True, db\<lparr>stateValidators := (stateValidators db)(addr := Some (Some
                        (wrapper\<lparr>theValidator := set_rate (Some \<bar>minRate\<bar>) (theValidator wrapper)\<rparr>)))\<rparr>)
                 else Inr (False, db)))
          else Inr (False, db)))"

definition raise_max_rate :: "bool \<Rightarrow> Dec \<Rightarrow> ValidatorWrapper \<Rightarrow> ValidatorWrapper go" where
  "raise_max_rate isTopMaxRate curRate wrapper =
     go_bind (deref (MaxChangeRate (Rates (vCommission (theValidator wrapper))))) (\<lambda>maxChange.
     go_bind (Add curRate maxChange) (\<lambda>newRate.
       let newRate = (if isTopMaxRate \<and> GT newRate (NewDec 1) then NewDec 1 else newRate)
       in go_bind (deref (MaxRate (Rates (vCommission (theValidator wrapper))))) (\<lambda>maxRate.
            Inr (if LT maxRate newRate
                 then wrapper\<lparr>theValidator := set_max_rate (Some \<bar>newRate\<bar>) (theValidator wrapper)\<rparr>
                 else wrapper))))"

definition UpdateMaxCommissionFee :: "backend \<Rightarrow> bool \<Rightarrow> DB \<Rightarrow> Address \<Rightarrow> Dec \<Rightarrow> DB go" where
  "UpdateMaxCommissionFee B isTopMaxRate db addr curRate =
     with_original B db addr (raise_max_rate isTopMaxRate curRate)"

section \<open>Constants\<close>

lemma measure_eq: "measure_threshold = Inr 666666666666666667"
  by (simp add: measure_threshold_def dec_eval)

lemma minCommissionRate_values:
  "minCommissionRateEra1 = Inr 50000000000000000" "minCommissionRateEra2 = Inr 70000000000000000"
  using read_literal [of "''0''" "''05''"] read_literal [of "''0''" "''07''"]
  by (simp_all add: minCommissionRateEra1_def minCommissionRateEra2_def MustNewDecFromStr_def is_digit_def digits_val_def digit_val_def)

lemma MinCommissionRate_eq:
  "MinCommissionRate era1 era2 = Inr (if era2 then 70000000000000000 else if era1 then 50000000000000000 else 0)"
  by (simp add: MinCommissionRate_def minCommissionRate_values ZeroDec_def)


section \<open>Counting signatures\<close>

definition slots_of :: "Address \<Rightarrow> Slot list \<Rightarrow> int" where
  "slots_of a xs = int (length (filter (\<lambda>s. EcdsaAddress s = a) xs))"

definition add_counts :: "int \<Rightarrow> int \<Rightarrow> ValidatorWrapper \<Rightarrow> ValidatorWrapper" where
  "add_counts n m w = w\<lparr>Counters := \<lparr>NumBlocksToSign = NumBlocksToSign (Counters w) + n, NumBlocksSigned = NumBlocksSigned (Counters w) + m\<rparr>\<rparr>"

definition count_in :: "Address set \<Rightarrow> (Address \<Rightarrow> int) \<Rightarrow> (Address \<Rightarrow> int) \<Rightarrow> Ledger \<Rightarrow> Ledger" where
  "count_in S n m L = L\<lparr>lWrap := (\<lambda>a. if a \<in> S then map_option (add_counts (n a) (m a)) (lWrap L a) else lWrap L a)\<rparr>"

lemma slots_of_simps [simp]: "slots_of a [] = 0" "slots_of a (s # xs) = (if EcdsaAddress s = a then 1 else 0) + slots_of a xs"
  by (simp_all add: slots_of_def)

lemma add_counts_simps [simp]:
  "add_counts 0 0 w = w" "add_counts n m (add_counts n' m' w) = add_counts (n' + n) (m' + m) w"
  "bump_wrapper d w = add_counts 1 (if d then 1 else 0) w"
  by (simp_all add: add_counts_def bump_wrapper_def)

lemma add_counts_none [simp]: "map_option (add_counts 0 0) x = x"
  by (cases x) simp_all

lemma count_in_simps:
  "count_in S (\<lambda>a. 0) (\<lambda>a. 0) L = L"
  "count_in S n m (count_in S n' m' L) = count_in S (\<lambda>a. n' a + n a) (\<lambda>a. m' a + m a) L"
  by (auto simp: count_in_def fun_eq_iff option.map_comp comp_def option.map_ident cong: option.map_cong)

lemma bump_slot_ledger:
  assumes "db_inv B db" "bump_slot B S d db s = Inr db'"
  shows "db_inv B db' \<and> ledger B db' = count_in S (\<lambda>a. slots_of a [s]) (\<lambda>a. if d then slots_of a [s] else 0) (ledger B db)"
proof (cases "EcdsaAddress s \<in> S")
  case True
  then obtain w where "lWrap (ledger B db) (EcdsaAddress s) = Some w" "db_inv B db'"
    "ledger B db' = put_wrap (EcdsaAddress s) (bump_wrapper d w) (ledger B db)"
    using with_original_ok [OF assms(1), of "EcdsaAddress s" "\<lambda>w. Inr (bump_wrapper d w)" db'] assms(2)
    by (auto simp: bump_slot_def)
  then show ?thesis using True
    by (auto simp: count_in_def put_wrap_def fun_eq_iff option.map_ident intro!: Ledger.equality)
next
  case False
  then show ?thesis using assms
    by (auto simp: bump_slot_def count_in_def fun_eq_iff option.map_ident intro!: Ledger.equality)
qed

lemma bump_slots_ledger:
  assumes "db_inv B db" "go_fold (bump_slot B S d) db xs = Inr db'"
  shows "db_inv B db' \<and> ledger B db' = count_in S (\<lambda>a. slots_of a xs) (\<lambda>a. if d then slots_of a xs else 0) (ledger B db)"
  using assms
proof (induction xs arbitrary: db)
  case Nil
  then show ?case by (simp add: count_in_simps cong: if_cong)
next
  case (Cons s xs)
  then obtain db1 where 1: "bump_slot B S d db s = Inr db1" "go_fold (bump_slot B S d) db1 xs = Inr db'" by auto
  note s = bump_slot_ledger [OF Cons.prems(1) 1(1)]
  have "(\<lambda>a. (if d then slots_of a [s] else 0) + (if d then slots_of a xs else 0)) = (\<lambda>a. if d then slots_of a (s # xs) else 0)"
    by auto
  then show ?case using Cons.IH [OF _ 1(2)] s by (simp add: count_in_simps add.commute)
qed

lemma count_in_present [simp]: "(lWrap (count_in S n m L) a = None) = (lWrap L a = None)"
  by (simp add: count_in_def)

lemma bump_slots_total:
  assumes "db_inv B db" "\<forall>s\<in>set xs. EcdsaAddress s \<in> S \<longrightarrow> lWrap (ledger B db) (EcdsaAddress s) \<noteq> None"
  shows "\<exists>db'. go_fold (bump_slot B S d) db xs = Inr db'"
  using assms
proof (induction xs arbitrary: db)
  case (Cons s xs)
  have "\<exists>db1. bump_slot B S d db s = Inr db1"
    using with_original_total [OF Cons.prems(1)] Cons.prems(2) by (fastforce simp: bump_slot_def)
  then obtain db1 where 1: "bump_slot B S d db s = Inr db1" ..
  note s = bump_slot_ledger [OF Cons.prems(1) 1]
  have "\<exists>db'. go_fold (bump_slot B S d) db1 xs = Inr db'"
    using Cons.IH [of db1] Cons.prems(2) s by simp
  then show ?case using 1 by auto
qed simp

text \<open>
  C38: After a block every staked validator is charged one block to sign for each of its slots and
  credited one signed block for each slot that signed; the rest of the ledger, balances and
  delegations included, is untouched. The update succeeds when all staked slots have wrappers.
\<close>

theorem IncrementValidatorSigningCounts_correct:
  assumes "db_inv B db"
    and "\<forall>s \<in> set signers \<union> set missing. EcdsaAddress s \<in> LookupSet stk \<longrightarrow> lWrap (ledger B db) (EcdsaAddress s) \<noteq> None"
  shows "\<exists>db'. IncrementValidatorSigningCounts B stk db signers missing = Inr db' \<and> db_inv B db'
    \<and> ledger B db' = count_in (LookupSet stk) (\<lambda>a. slots_of a missing + slots_of a signers) (\<lambda>a. slots_of a signers) (ledger B db)"
proof -
  let ?S = "LookupSet stk"
  obtain db1 where 1: "go_fold (bump_slot B ?S False) db missing = Inr db1"
    using bump_slots_total [OF assms(1)] assms(2) by blast
  note l1 = bump_slots_ledger [OF assms(1) 1]
  obtain db2 where 2: "go_fold (bump_slot B ?S True) db1 signers = Inr db2"
    using bump_slots_total [of B db1 signers ?S True] l1 assms(2) by auto
  have "IncrementValidatorSigningCounts B stk db signers missing = Inr db2"
    using 1 2 by (simp add: IncrementValidatorSigningCounts_def bumpCount_def)
  then show ?thesis using l1 bump_slots_ledger [OF _ 2] by (simp add: count_in_simps)
qed


theorem IncrementValidatorSigningCounts_correct_witness:
  "\<exists>db'. IncrementValidatorSigningCounts sample_backend (no_StakedSlots\<lparr>LookupSet := {9}\<rparr>) sample_db
       [sample_slot 9 1 None] [sample_slot 9 2 None, sample_slot 4 3 None] = Inr db'
     \<and> lWrap (ledger sample_backend db') 9 = Some (add_counts 2 1 sample_wrapper)"
proof -
  have "\<forall>s \<in> set [sample_slot 9 1 None] \<union> set [sample_slot 9 2 None, sample_slot 4 3 None].
      EcdsaAddress s \<in> LookupSet (no_StakedSlots\<lparr>LookupSet := {9}\<rparr>) \<longrightarrow> lWrap (ledger sample_backend sample_db) (EcdsaAddress s) \<noteq> None"
    using sample_db_wrap by (simp add: sample_slot_def)
  from IncrementValidatorSigningCounts_correct [OF sample_db_inv this] show ?thesis
    using sample_db_wrap by (auto simp: count_in_def sample_slot_def slots_of_def)
qed

section \<open>Who signed\<close>

lemma collect_signers:
  assumes "\<And>i. i < n + length xs \<Longrightarrow> IndexEnabled mk (int i) = Inr (P i)"
  shows "go_fold (\<lambda>(payable, missing) (idx, member). go_bind (IndexEnabled mk (int idx)) (\<lambda>sgnd.
             Inr (if sgnd then (payable @ [member], missing) else (payable, missing @ [member]))))
           (ps, ms) (enumerate n xs)
       = Inr (ps @ map snd (filter (\<lambda>(i, _). P i) (enumerate n xs)),
              ms @ map snd (filter (\<lambda>(i, _). \<not> P i) (enumerate n xs)))"
  using assms by (induction xs arbitrary: n ps ms) simp_all

lemma BLSPublicKeys_length:
  "BLSPublicKeys f (Some c0) = Inr ks \<Longrightarrow> length ks = length (Slots c0)"
proof -
  have "go_map g xs = Inr ys \<Longrightarrow> length ys = length xs" for g :: "Slot \<Rightarrow> 'a PublicKeyWrapper go" and xs ys
    by (induction xs arbitrary: ys) auto
  then show "BLSPublicKeys f (Some c0) = Inr ks \<Longrightarrow> length ks = length (Slots c0)"
    by (simp add: BLSPublicKeys_def)
qed

lemma BlockSigners_split:
  assumes "pk_group ops" "BLSPublicKeys f (Some committee) = Inr ks"
  shows "BlockSigners ops f bitmap committee =
    (if length bitmap = (length (Slots committee) + 7) div 8
     then Inr (map snd (filter (\<lambda>(i, _). bit_at bitmap i) (enumerate 0 (Slots committee))),
               map snd (filter (\<lambda>(i, _). \<not> bit_at bitmap i) (enumerate 0 (Slots committee))))
     else Inl (Error ''mismatching bitmap lengths''))"
proof -
  note ok = NewMask_ok [OF assms(1), of ks]
  have len: "Mask_Len (NewMask ops ks) = (length (Slots committee) + 7) div 8" "length (Publics (NewMask ops ks)) = length (Slots committee)"
    using BLSPublicKeys_length [OF assms(2)] by (simp_all add: Mask_Len_def NewMask_def drop_bit_eq_div)
  show ?thesis
  proof (cases "length bitmap = (length (Slots committee) + 7) div 8")
    case True
    then obtain m' where m': "SetMask ops (NewMask ops ks) bitmap = Inr m'" "mask_ok ops m'" "same_keys (NewMask ops ks) m'"
      "enabled m' = {i. i < length (Slots committee) \<and> bit_at bitmap i}"
      using SetMask_ok [OF ok, of bitmap] len by auto
    have "IndexEnabled m' (int i) = Inr (bit_at bitmap i)" if "i < 0 + length (Slots committee)" for i
      using IndexEnabled_ok [OF m'(2), of i] m'(3,4) len(2) that by (simp add: same_keys_def)
    then show ?thesis
      using True m'(1) assms(2) collect_signers [of 0 "Slots committee" m' "bit_at bitmap" "[]" "[]"]
      by (simp add: BlockSigners_def)
  next
    case False
    then show ?thesis using assms(2) len(1) by (simp add: BlockSigners_def SetMask_def)
  qed
qed

text \<open>
  When the keys of the committee decode, a commit bitmap of one bit per slot splits the slots,
  in order, into those whose bit is set and those whose bit is clear; any other length is refused.
\<close>

theorem BlockSigners_partition:
  assumes "pk_group ops" "BLSPublicKeys f (Some committee) = Inr ks"
  shows "BlockSigners ops f bitmap committee =
    (if length bitmap = (length (Slots committee) + 7) div 8
     then Inr (map snd (filter (\<lambda>(i, _). bit_at bitmap i) (enumerate 0 (Slots committee))),
               map snd (filter (\<lambda>(i, _). \<not> bit_at bitmap i) (enumerate 0 (Slots committee))))
     else Inl (Error ''mismatching bitmap lengths''))"
  by (rule BlockSigners_split [OF assms])

theorem BlockSigners_partition_witness:
  "BlockSigners int_ops (\<lambda>k. Inr (uint k)) [5] \<lparr>ShardID = 0, Slots = [sample_slot 1 1 None, sample_slot 2 2 None, sample_slot 3 3 None]\<rparr>
   = Inr ([sample_slot 1 1 None, sample_slot 3 3 None], [sample_slot 2 2 None])"
proof -
  let ?c = "\<lparr>ShardID = 0, Slots = [sample_slot 1 1 None, sample_slot 2 2 None, sample_slot 3 3 None]\<rparr>"
  obtain ks where k: "BLSPublicKeys (\<lambda>k. Inr (uint k)) (Some ?c) = Inr ks" by (simp add: BLSPublicKeys_def)
  have "bit_at [5] 0" "\<not> bit_at [5] (Suc 0)" "bit_at [5] (Suc (Suc 0))" by (simp_all add: bit_at_def bit_numeral_rec)
  then show ?thesis using BlockSigners_partition [OF int_ops_group k, of "[5]"] by simp
qed

section \<open>Commission limits\<close>

definition rates_of :: "ValidatorWrapper \<Rightarrow> CommissionRates" where
  "rates_of w = Rates (vCommission (theValidator w))"

lemma rates_of_set [simp]:
  "rates_of (w\<lparr>theValidator := set_rate r (theValidator w)\<rparr>) = (rates_of w)\<lparr>Rate := r\<rparr>"
  "rates_of (w\<lparr>theValidator := set_max_rate r (theValidator w)\<rparr>) = (rates_of w)\<lparr>MaxRate := r\<rparr>"
  by (simp_all add: rates_of_def set_rate_def set_max_rate_def)

lemma UpdateMinimumCommissionFee_ledger:
  assumes inv: "db_inv B db" and up: "UpdateMinimumCommissionFee B ep db a minRate p = Inr (b, db')"
  shows "\<exists>w w'. lWrap (ledger B db) a = Some w \<and> db_inv B db' \<and> ledger B db' = put_wrap a w' (ledger B db)
    \<and> (if b then (\<exists>r. Rate (rates_of w) = Some r \<and> r < minRate)
           \<and> w' = w\<lparr>theValidator := set_rate (Some \<bar>minRate\<bar>) (theValidator w)\<rparr> else w' = w)"
proof -
  obtain q db1 where g: "ValidatorWrapper_get B db a True False = Inr (q, db1)"
    using up by (auto simp: UpdateMinimumCommissionFee_def)
  note l = ValidatorWrapper_get_ledger [OF inv g]
  then obtain w where w: "q = Some w" "lWrap (ledger B db) a = Some w" by auto
  have same: "put_wrap a w (ledger B db) = ledger B db" using w(2) by (simp add: put_wrap_def fun_upd_idem)
  show ?thesis
  proof (cases b)
    case True
    then have "\<exists>r. Rate (rates_of w) = Some r \<and> r < minRate"
      "db' = db1\<lparr>stateValidators := (stateValidators db1)(a := Some (Some (w\<lparr>theValidator := set_rate (Some \<bar>minRate\<bar>) (theValidator w)\<rparr>)))\<rparr>"
      using up g w(1) by (auto simp: UpdateMinimumCommissionFee_def Let_def rates_of_def LT_def split: if_splits)
    then show ?thesis using True w l cache_write_ledger [of B db1 a] by auto
  next
    case False
    then have "db' = db1" using up g w(1) by (auto simp: UpdateMinimumCommissionFee_def Let_def split: if_splits)
    then show ?thesis using False w l same by auto
  qed
qed

text \<open>
  Raising a commission rate to the protocol minimum and then the maximum rate to the minimum plus
  the allowed change, capped at one, keeps the rates fair: rate at most the maximum, maximum at most
  one. The rate becomes the minimum exactly when it was updated, and the other rates and all
  delegations stay.
\<close>

theorem commission_updates_stay_fair:
  assumes inv: "db_inv B db" and w: "lWrap (ledger B db) a = Some w" "fair_rates (rates_of w)"
    and m: "0 \<le> minRate" "minRate \<le> OneDec"
    and up: "UpdateMinimumCommissionFee B ep db a minRate p = Inr (b, db1)" "UpdateMaxCommissionFee B True db1 a minRate = Inr db2"
  shows "\<exists>w2. ledger B db2 = put_wrap a w2 (ledger B db) \<and> Delegations w2 = Delegations w \<and> fair_rates (rates_of w2)
    \<and> Rate (rates_of w2) = (if b then Some minRate else Rate (rates_of w)) \<and> MaxChangeRate (rates_of w2) = MaxChangeRate (rates_of w)"
proof -
  obtain w1 where 1: "db_inv B db1" "ledger B db1 = put_wrap a w1 (ledger B db)"
    "if b then w1 = w\<lparr>theValidator := set_rate (Some minRate) (theValidator w)\<rparr> else w1 = w"
    "b \<Longrightarrow> \<exists>r. Rate (rates_of w) = Some r \<and> r < minRate"
    using UpdateMinimumCommissionFee_ledger [OF inv up(1)] w(1) m(1) by (auto split: if_splits)
  obtain w2 where 2: "raise_max_rate True minRate w1 = Inr w2" "ledger B db2 = put_wrap a w2 (ledger B db)"
    using with_original_ok [OF 1(1), of a "raise_max_rate True minRate" db2] up(2) 1(2)
    by (auto simp: UpdateMaxCommissionFee_def put_wrap_def)
  obtain x y z where r: "Rate (rates_of w) = Some x" "MaxRate (rates_of w) = Some y" "MaxChangeRate (rates_of w) = Some z"
    "0 \<le> x" "x \<le> y" "0 \<le> z" "z \<le> y" "y \<le> OneDec" using w(2) by (auto simp: fair_rates_def)
  have r1: "Rate (rates_of w1) = (if b then Some minRate else Some x)" "MaxRate (rates_of w1) = Some y"
    "MaxChangeRate (rates_of w1) = Some z" "Delegations w1 = Delegations w"
    using 1(3) r by (auto split: if_splits)
  let ?n = "if minRate + z > OneDec then OneDec else minRate + z"
  have one: "NewDec 1 = OneDec" by (simp add: NewDec_def OneDec_def)
  have "0 \<le> OneDec" by (simp add: OneDec_def precisionReuse_def)
  then have w2: "w2 = (if y < ?n then w1\<lparr>theValidator := set_max_rate (Some ?n) (theValidator w1)\<rparr> else w1)"
    using 2(1) r1 m r one by (auto simp: raise_max_rate_def rates_of_def [symmetric] Add_def checkOverflow_def GT_def LT_def Let_def split: if_splits)
  have "fair_rates (rates_of w2)"
    using w2 r1 r m 1(4) by (auto simp: fair_rates_def split: if_splits)
  then show ?thesis using 2(2) w2 r1 r(1,3) by (intro exI [of _ w2]) (auto split: if_splits)
qed


definition sample_elected :: DB where
  "sample_elected = sample_db\<lparr>stateObjects :=
     [9 \<mapsto> (newObject 9 (emptyAccount sample_backend))\<lparr>dirtyStorage := [FirstElectionEpochKey sample_backend \<mapsto> 1]\<rparr>]\<rparr>"

lemma sample_elected_props:
  "db_inv sample_backend sample_elected" "lWrap (ledger sample_backend sample_elected) 9 = Some sample_wrapper"
  "GetValidatorFirstElectionEpoch sample_backend sample_elected 9 = Inr 1"
  using sample_db_inv
  by (simp_all add: sample_elected_def sample_db_def db_inv_def db_ok_def newObject_def ledger_wrap wrapper_at_eq
      GetValidatorFirstElectionEpoch_def getStateObject_def getDeletedStateObject_def Object_GetState_def)

theorem commission_updates_stay_fair_witness:
  "\<exists>db1 db2 w2. UpdateMinimumCommissionFee sample_backend 5 sample_elected 9 500000000000000000 2 = Inr (True, db1)
     \<and> UpdateMaxCommissionFee sample_backend True db1 9 500000000000000000 = Inr db2
     \<and> lWrap (ledger sample_backend db2) 9 = Some w2 \<and> fair_rates (rates_of w2) \<and> Rate (rates_of w2) = Some 500000000000000000"
proof -
  have f: "fair_rates (rates_of sample_wrapper)"
    using sample_wrapper_valid by (simp add: valid_wrapper_def valid_validator_def rates_of_def)
  have "\<exists>db1. UpdateMinimumCommissionFee sample_backend 5 sample_elected 9 500000000000000000 2 = Inr (True, db1)"
    using sample_elected_props(3)
    by (simp add: UpdateMinimumCommissionFee_def ValidatorWrapper_get_def sample_elected_def sample_db_def sample_wrapper_def
        sample_validator_def sample_rates_def LT_def Uint64_def)
  then obtain db1 where 1: "UpdateMinimumCommissionFee sample_backend 5 sample_elected 9 500000000000000000 2 = Inr (True, db1)" ..
  have "\<exists>db2. UpdateMaxCommissionFee sample_backend True db1 9 500000000000000000 = Inr db2"
    unfolding UpdateMaxCommissionFee_def
    using UpdateMinimumCommissionFee_ledger [OF sample_elected_props(1) 1] sample_elected_props(2)
    by (auto intro!: with_original_total simp: put_wrap_def raise_max_rate_def set_rate_def sample_wrapper_def
        sample_validator_def sample_rates_def Add_def checkOverflow_def fitsDec_iff Let_def)
  then obtain db2 where 2: "UpdateMaxCommissionFee sample_backend True db1 9 500000000000000000 = Inr db2" ..
  show ?thesis
    using commission_updates_stay_fair [OF sample_elected_props(1,2) f _ _ 1 2] 1 2
    by (auto simp: put_wrap_def OneDec_def precisionReuse_def)
qed

end
