(* ===== verification/StakingVerifier.thy ===== *)
theory StakingVerifier
  imports Availability
begin

text \<open>
  The checks behind the staking transactions (\<open>core/staking_verifier.go\<close>) and the functions that apply
  them to the state (\<open>CreateValidatorFn\<close>, \<open>EditValidatorFn\<close>, \<open>DelegateFn\<close>, \<open>UndelegateFn\<close> and
  \<open>CollectRewardsFn\<close> of \<open>core/evm.go\<close>).

  The state is any implementation \<open>S\<close> of the interface \<open>vm.StateDB\<close>; reading a wrapper threads the
  state because it fills the cache. The chain is the record \<open>ChainContext\<close>, the BLS library and the
  sharding schedule are parameters. Arguments the code compares with nil are options. The tracer
  that records balance movements for the Rosetta API is left out.

  The results are proved in the locale \<open>vm_state\<close> for every implementation and then stated for the
  account state of \<open>core/state\<close>.
\<close>

section \<open>Chain context\<close>

record ChainContext =
  ReadDelegationsByDelegatorAt :: "Address \<Rightarrow> int \<Rightarrow> DelegationIndex list go"
  ReadValidatorSnapshot :: "Address \<Rightarrow> ValidatorSnapshot go"
  ReadValidatorList :: "Address list go"
  Config :: ChainConfig

record Header =
  hEpoch :: int
  hNumber :: int

definition CanTransfer :: "'s vmStateDB \<Rightarrow> 's \<Rightarrow> Address \<Rightarrow> int \<Rightarrow> bool" where
  "CanTransfer S db addr amount \<longleftrightarrow> vmGetBalance S db addr \<ge> amount"

section \<open>Creating and editing validators\<close>

definition checkDuplicateFields ::
  "'s vmStateDB \<Rightarrow> Address list \<Rightarrow> 's \<Rightarrow> Address \<Rightarrow> string \<Rightarrow> SerializedPublicKey list \<Rightarrow> 's go" where
  "checkDuplicateFields S addrs db validator identity blsKeys =
     go_fold (\<lambda>db addr.
         if validator \<noteq> addr
         then go_bind (vmValidatorWrapper S db addr True False) (\<lambda>(p, db).
              if identity \<noteq> [] \<or> blsKeys \<noteq> []
              then go_bind (deref p) (\<lambda>wrapper.
                   if identity \<noteq> [] \<and> Identity (vDescription (theValidator wrapper)) = identity
                   then Inl (Error ''errDupIdentity'')
                   else if list_ex (\<lambda>existingKey. existingKey \<in> set blsKeys) (SlotPubKeys (theValidator wrapper))
                   then Inl (Error ''errDupBlsKey'')
                   else Inr db)
              else Inr db)
         else Inr db) db addrs"

definition VerifyAndCreateValidatorFromMsg ::
  "('pk, 'sig) bls_lib \<Rightarrow> (int \<Rightarrow> 'pk Instance) \<Rightarrow> 's vmStateDB \<Rightarrow> 's option \<Rightarrow> ChainContext option \<Rightarrow>
     int option \<Rightarrow> int option \<Rightarrow> CreateValidator \<Rightarrow> (ValidatorWrapper \<times> 's) go" where
  "VerifyAndCreateValidatorFromMsg lib instanceForEpoch S stateDB chainContext epoch blockNum msg =
     (case stateDB of None \<Rightarrow> Inl (Error ''errStateDBIsMissing'') | Some db \<Rightarrow>
     (case chainContext of None \<Rightarrow> Inl (Error ''errChainContextMissing'') | Some chain \<Rightarrow>
     (case epoch of None \<Rightarrow> Inl (Error ''errEpochMissing'') | Some ep \<Rightarrow>
     (case blockNum of None \<Rightarrow> Inl (Error ''errBlockNumMissing'') | Some num \<Rightarrow>
       if sgn (cvAmount msg) = -1 then Inl (Error ''errNegativeAmount'')
       else if vmIsValidator S db (cvValidatorAddress msg) then Inl (Error ''errValidatorExist'')
       else
         go_bind (ReadValidatorList chain) (\<lambda>addrs.
         go_bind (checkDuplicateFields S addrs db (cvValidatorAddress msg) (Identity (cvDescription msg)) (cvSlotPubKeys msg)) (\<lambda>db.
         if \<not> CanTransfer S db (cvValidatorAddress msg) (cvAmount msg) then Inl (Error ''errInsufficientBalanceForStake'')
         else
           go_bind (CreateValidatorFromNewMsg lib instanceForEpoch msg num ep) (\<lambda>v.
           let wrapper = \<lparr>theValidator = v, Delegations = [NewDelegation (vAddress v) (cvAmount msg)],
                 Counters = \<lparr>NumBlocksToSign = 0, NumBlocksSigned = 0\<rparr>, BlockReward = 0\<rparr>
           in go_bind (SanityCheck wrapper) (\<lambda>_. Inr (wrapper, db)))))))))"

definition too_low_error :: fault where
  "too_low_error = Error ''errCommissionRateChangeTooLowT''"

definition check_min_rate ::
  "'s vmStateDB \<Rightarrow> 's \<Rightarrow> ChainContext \<Rightarrow> int \<Rightarrow> Address \<Rightarrow> Dec \<Rightarrow> unit go" where
  "check_min_rate S db chain epoch addr newRate =
     go_bind (MinCommissionRate (IsMinCommissionRate (Config chain) (Some epoch)) (IsHIP30 (Config chain) (Some epoch))) (\<lambda>minRate.
     if LT newRate minRate
     then go_bind (vmGetValidatorFirstElectionEpoch S db addr) (\<lambda>firstEpoch.
          go_bind (deref (MinCommissionPromoPeriod (Config chain))) (\<lambda>period.
          if Uint64 firstEpoch \<noteq> 0 \<and> Int64 (epoch - firstEpoch) \<ge> Int64 period
          then Inl too_low_error else Inr ()))
     else Inr ())"

definition VerifyAndEditValidatorFromMsg ::
  "('pk, 'sig) bls_lib \<Rightarrow> (int \<Rightarrow> 'pk Instance) \<Rightarrow> 's vmStateDB \<Rightarrow> 's option \<Rightarrow> ChainContext option \<Rightarrow>
     int \<Rightarrow> int option \<Rightarrow> EditValidator \<Rightarrow> (ValidatorWrapper \<times> 's) go" where
  "VerifyAndEditValidatorFromMsg lib instanceForEpoch S stateDB chainContext epoch blockNum msg =
     (case stateDB of None \<Rightarrow> Inl (Error ''errStateDBIsMissing'') | Some db \<Rightarrow>
     (case chainContext of None \<Rightarrow> Inl (Error ''errChainContextMissing'') | Some chain \<Rightarrow>
     (case blockNum of None \<Rightarrow> Inl (Error ''errBlockNumMissing'') | Some num \<Rightarrow>
       if \<not> vmIsValidator S db (evValidatorAddress msg) then Inl (Error ''errValidatorNotExist'')
       else
         let newBlsKeys = (case SlotKeyToAdd msg of Some k \<Rightarrow> [k] | None \<Rightarrow> [])
         in go_bind (ReadValidatorList chain) (\<lambda>addrs.
            go_bind (checkDuplicateFields S addrs db (evValidatorAddress msg) (Identity (evDescription msg)) newBlsKeys) (\<lambda>db.
            go_bind (vmValidatorWrapper S db (evValidatorAddress msg) False False) (\<lambda>(p, db).
            go_bind (deref p) (\<lambda>wrapper.
            go_bind (UpdateValidatorFromEditMsg lib instanceForEpoch (theValidator wrapper) msg epoch) (\<lambda>v.
            let wrapper = wrapper\<lparr>theValidator := v\<rparr>; rates = Rates (vCommission v)
            in go_bind (deref (Rate rates)) (\<lambda>newRate.
               go_bind (deref (MaxRate rates)) (\<lambda>maxRate.
               if GT newRate maxRate then Inl (Error ''errCommissionRateChangeTooHigh'')
               else
                 go_bind (check_min_rate S db chain epoch (evValidatorAddress msg) newRate) (\<lambda>_.
                 go_bind (ReadValidatorSnapshot chain (vAddress v)) (\<lambda>snapshot.
                 let rateAtBeginning = Rate (Rates (vCommission (theValidator (snapValidator snapshot))));
                     wrapper = (if rateAtBeginning = None \<or> rateAtBeginning \<noteq> Some newRate
                                then wrapper\<lparr>theValidator := v\<lparr>vCommission := (vCommission v)\<lparr>UpdateHeight := num\<rparr>\<rparr>\<rparr> else wrapper)
                 in go_bind (deref rateAtBeginning) (\<lambda>oldRate.
                    go_bind (Sub newRate oldRate) (\<lambda>change.
                    go_bind (deref (MaxChangeRate rates)) (\<lambda>maxChange.
                    if GT (Dec_Abs change) maxChange then Inl (Error ''errCommissionRateChangeTooFast'')
                    else go_bind (SanityCheck wrapper) (\<lambda>_. Inr (wrapper, db)))))))))))))))))"

section \<open>Delegating\<close>

definition oneAsBigInt :: int where "oneAsBigInt = Itc"
definition minimumDelegation :: int where "minimumDelegation = oneAsBigInt * 1000"
definition minimumDelegationV2 :: int where "minimumDelegationV2 = oneAsBigInt * 100"

text \<open>The loop over the oldest undelegations: how many entries are used up, the rest, and what is still to pay.\<close>

fun use_undelegations :: "int \<Rightarrow> int \<Rightarrow> Undelegations \<Rightarrow> int \<times> Undelegations" where
  "use_undelegations epoch balance [] = (balance, [])"
| "use_undelegations epoch balance (u # us) =
     (if uEpoch u \<ge> epoch then (balance, u # us)
      else if uAmount u \<le> balance then use_undelegations epoch (balance - uAmount u) us
      else (0, u\<lparr>uAmount := uAmount u - balance\<rparr> # us))"

text \<open>
  State of the loop over the delegations: the state, what is still to pay, the updated wrappers, the
  position of the wrapper of the delegatee among them, and the tokens taken from each validator.
\<close>

type_synonym 's redelegation = "'s \<times> int \<times> ValidatorWrapper list \<times> nat option \<times> (Address \<times> int) list"

definition redelegate_step ::
  "'s vmStateDB \<Rightarrow> int \<Rightarrow> Address \<Rightarrow> 's redelegation \<Rightarrow> DelegationIndex \<Rightarrow> 's redelegation go" where
  "redelegate_step S epoch validator = (\<lambda>(db, balance, updated, delegatee, fromLocked) di.
     go_bind (vmValidatorWrapper S db (diValidatorAddress di) False True) (\<lambda>(p, db).
     go_bind (deref p) (\<lambda>wrapper.
     if length (Delegations wrapper) \<le> unat (diIndex di) then Inl (Error ''Delegation index out of bound'')
     else
       let i = unat (diIndex di); delegation = Delegations wrapper ! i
       in case use_undelegations epoch balance (Undelegations delegation) of (balance', rest) \<Rightarrow>
          if balance > balance'
          then (let wrapper = wrapper\<lparr>Delegations := (Delegations wrapper)[i := delegation\<lparr>Undelegations := rest\<rparr>]\<rparr>
                in go_bind (SanityCheck wrapper) (\<lambda>_.
                   Inr (db, balance', updated @ [wrapper],
                        if diValidatorAddress di = validator then Some (length updated) else delegatee,
                        AList.update (diValidatorAddress di) (balance - balance') fromLocked)))
          else Inr (db, balance', updated, delegatee, fromLocked))))"

text \<open>
  Adding to the existing delegations of the delegator: the loop adds to each one it finds and checks
  the wrapper after each, and a new delegation is appended when there is none.
\<close>

definition add_step :: "Address \<Rightarrow> int \<Rightarrow> bool \<times> ValidatorWrapper \<Rightarrow> nat \<Rightarrow> (bool \<times> ValidatorWrapper) go" where
  "add_step delegator amount = (\<lambda>(found, w) i.
     if DelegatorAddress (Delegations w ! i) = delegator
     then (let w = w\<lparr>Delegations := (Delegations w)[i := (Delegations w ! i)\<lparr>Amount := Amount (Delegations w ! i) + amount\<rparr>]\<rparr>
           in go_bind (SanityCheck w) (\<lambda>_. Inr (True, w)))
     else Inr (found, w))"

definition add_to_existing :: "Address \<Rightarrow> int \<Rightarrow> ValidatorWrapper \<Rightarrow> (bool \<times> ValidatorWrapper) go" where
  "add_to_existing delegator amount wrapper =
     go_fold (add_step delegator amount) (False, wrapper) [0..<length (Delegations wrapper)]"

definition add_delegation :: "Address \<Rightarrow> int \<Rightarrow> ValidatorWrapper \<Rightarrow> ValidatorWrapper go" where
  "add_delegation delegator amount wrapper =
     go_bind (add_to_existing delegator amount wrapper) (\<lambda>(found, w).
       if \<not> found
       then (let w = w\<lparr>Delegations := Delegations w @ [NewDelegation delegator amount]\<rparr>
             in go_bind (SanityCheck w) (\<lambda>_. Inr w))
       else Inr w)"

definition VerifyAndDelegateFromMsg ::
  "'s vmStateDB \<Rightarrow> 's option \<Rightarrow> int \<Rightarrow> DelegateMsg \<Rightarrow> DelegationIndex list \<Rightarrow> ChainConfig \<Rightarrow>
     (ValidatorWrapper list \<times> int \<times> (Address \<times> int) list \<times> 's) go" where
  "VerifyAndDelegateFromMsg S stateDB epoch msg delegations chainConfig =
     (case stateDB of None \<Rightarrow> Inl (Error ''errStateDBIsMissing'') | Some db \<Rightarrow>
       if \<not> vmIsValidator S db (dValidatorAddress msg) then Inl (Error ''errValidatorNotExist'')
       else
         go_bind (deref (dAmount msg)) (\<lambda>amount.
         if sgn amount = -1 then Inl (Error ''errNegativeAmount'')
         else if amount < minimumDelegation \<and> IsMinDelegation100 chainConfig (Some epoch) \<and> amount < minimumDelegationV2
         then Inl (Error ''errDelegationTooSmallV2'')
         else if amount < minimumDelegation \<and> \<not> IsMinDelegation100 chainConfig (Some epoch)
         then Inl (Error ''errDelegationTooSmall'')
         else
           go_bind (if IsRedelegation chainConfig (Some epoch)
                    then go_fold (redelegate_step S epoch (dValidatorAddress msg)) (db, amount, [], None, []) delegations
                    else Inr (db, amount, [], None, [])) (\<lambda>(db, balance, updated, delegatee, fromLocked).
           go_bind (case delegatee of
                      Some i \<Rightarrow> Inr (db, updated, i)
                    | None \<Rightarrow> go_bind (vmValidatorWrapper S db (dValidatorAddress msg) False True) (\<lambda>(p, db).
                              go_bind (deref p) (\<lambda>w. Inr (db, updated @ [w], length updated)))) (\<lambda>(db, updated, i).
           go_bind (add_delegation (dDelegatorAddress msg) amount (updated ! i)) (\<lambda>w.
           let updated = updated[i := w]
           in if balance = 0 then Inr (updated, 0, fromLocked, db)
              else if \<not> CanTransfer S db (dDelegatorAddress msg) balance then Inl (Error ''errInsufficientBalanceForStake'')
              else Inr (updated, balance, fromLocked, db))))))"


section \<open>Undelegating, migrating and collecting\<close>

definition settle_self_delegation :: "ValidatorWrapper \<Rightarrow> ValidatorWrapper go" where
  "settle_self_delegation wrapper =
     (case SanityCheck wrapper of
        Inr _ \<Rightarrow> Inr wrapper
      | Inl e \<Rightarrow> if e = Error ''ErrInvalidSelfDelegation''
                 then Inr (wrapper\<lparr>theValidator := (theValidator wrapper)\<lparr>Status := Inactive\<rparr>\<rparr>)
                 else Inl e)"

definition VerifyAndUndelegateFromMsg ::
  "'s vmStateDB \<Rightarrow> 's option \<Rightarrow> int option \<Rightarrow> UndelegateMsg \<Rightarrow> (ValidatorWrapper \<times> 's) go" where
  "VerifyAndUndelegateFromMsg S stateDB epoch msg =
     (case stateDB of None \<Rightarrow> Inl (Error ''errStateDBIsMissing'') | Some db \<Rightarrow>
     (case epoch of None \<Rightarrow> Inl (Error ''errEpochMissing'') | Some ep \<Rightarrow>
       go_bind (deref (umAmount msg)) (\<lambda>amount.
       if sgn amount = -1 then Inl (Error ''errNegativeAmount'')
       else if \<not> vmIsValidator S db (uValidatorAddress msg) then Inl (Error ''errValidatorNotExist'')
       else
         go_bind (vmValidatorWrapper S db (uValidatorAddress msg) False True) (\<lambda>(p, db).
         go_bind (deref p) (\<lambda>wrapper.
         case find (\<lambda>i. DelegatorAddress (Delegations wrapper ! i) = uDelegatorAddress msg) [0..<length (Delegations wrapper)] of
           None \<Rightarrow> Inl (Error ''errNoDelegationToUndelegate'')
         | Some i \<Rightarrow>
             go_bind (Undelegate (Delegations wrapper ! i) ep amount) (\<lambda>delegation.
             go_bind (settle_self_delegation (wrapper\<lparr>Delegations := (Delegations wrapper)[i := delegation]\<rparr>)) (\<lambda>wrapper.
               Inr (wrapper, db))))))))"

text \<open>Migrated undelegations join entries of the same epoch or are appended; then the entries are sorted.\<close>

definition migrate_undelegations :: "Undelegations \<Rightarrow> Undelegations \<Rightarrow> Undelegations" where
  "migrate_undelegations toMigrate existing =
     sort_undelegations (fold (\<lambda>u us. case merge_entry (uEpoch u) (uAmount u) us of Some us' \<Rightarrow> us' | None \<Rightarrow> us @ [u])
       toMigrate existing)"

definition migrate_one :: "MigrationMsg \<Rightarrow> nat \<Rightarrow> ValidatorWrapper \<Rightarrow> (ValidatorWrapper \<times> DelegateMsg) go" where
  "migrate_one msg i wrapper =
     (let found = Delegations wrapper ! i; amount = Amount found; undelegations = Undelegations found;
          ds = (Delegations wrapper)[i := found\<lparr>Amount := 0, Undelegations := []\<rparr>]
      in case find (\<lambda>j. DelegatorAddress (ds ! j) = To msg) [0..<length ds] of
           Some j \<Rightarrow>
             (let d = ds ! j; totalAmount = Amount d + amount;
                  ds = ds[j := d\<lparr>Amount := totalAmount, Undelegations := migrate_undelegations undelegations (Undelegations d)\<rparr>]
              in go_bind (settle_self_delegation (wrapper\<lparr>Delegations := ds\<rparr>)) (\<lambda>w.
                 Inr (w, \<lparr>dDelegatorAddress = To msg, dValidatorAddress = vAddress (theValidator w), dAmount = Some totalAmount\<rparr>)))
         | None \<Rightarrow>
             go_bind (settle_self_delegation (wrapper\<lparr>Delegations := ds @ [NewDelegation (To msg) amount]\<rparr>)) (\<lambda>w.
             Inr (w, \<lparr>dDelegatorAddress = To msg, dValidatorAddress = vAddress (theValidator w), dAmount = Some amount\<rparr>)))"

definition VerifyAndMigrateFromMsg ::
  "'s vmStateDB \<Rightarrow> 's \<Rightarrow> MigrationMsg \<Rightarrow> DelegationIndex list \<Rightarrow> (ValidatorWrapper list \<times> DelegateMsg list \<times> 's) go" where
  "VerifyAndMigrateFromMsg S db msg fromDelegations =
     (if From msg = To msg then Inl (Error ''From and To are the same address'')
      else if length fromDelegations = 0 then Inl (Error ''No delegations to migrate'')
      else
        go_fold (\<lambda>(wrappers, msgs, db) di.
            go_bind (vmValidatorWrapper S db (diValidatorAddress di) False True) (\<lambda>(p, db).
            go_bind (deref p) (\<lambda>wrapper.
            if length (Delegations wrapper) \<le> unat (diIndex di) then Inl (Error ''Delegation index out of bound'')
            else
              let found = Delegations wrapper ! unat (diIndex di)
              in if DelegatorAddress found \<noteq> From msg then Inl (Error ''Expected From but got another delegator'')
                 else if Amount found = 0 \<and> length (Undelegations found) = 0 then Inr (wrappers, msgs, db)
                 else go_bind (migrate_one msg (unat (diIndex di)) wrapper) (\<lambda>(w, m). Inr (wrappers @ [w], msgs @ [m], db)))))
          ([], [], db) fromDelegations)"

definition collect_step ::
  "'s vmStateDB \<Rightarrow> 's \<times> ValidatorWrapper list \<times> int \<Rightarrow> DelegationIndex \<Rightarrow> ('s \<times> ValidatorWrapper list \<times> int) go" where
  "collect_step S = (\<lambda>(db, updated, totalRewards) di.
     go_bind (vmValidatorWrapper S db (diValidatorAddress di) False True) (\<lambda>(p, db).
     go_bind (deref p) (\<lambda>wrapper.
     if length (Delegations wrapper) > unat (diIndex di)
     then (let i = unat (diIndex di); d = Delegations wrapper ! i
           in if Reward d > 0
              then Inr (db, updated @ [wrapper\<lparr>Delegations := (Delegations wrapper)[i := d\<lparr>Reward := 0\<rparr>]\<rparr>], totalRewards + Reward d)
              else Inr (db, updated @ [wrapper], totalRewards))
     else Inl (Error ''Delegation index out of bound''))))"

definition VerifyAndCollectRewardsFromDelegation ::
  "'s vmStateDB \<Rightarrow> 's option \<Rightarrow> DelegationIndex list \<Rightarrow> (ValidatorWrapper list \<times> int \<times> 's) go" where
  "VerifyAndCollectRewardsFromDelegation S stateDB delegations =
     (case stateDB of None \<Rightarrow> Inl (Error ''errStateDBIsMissing'') | Some db \<Rightarrow>
       go_bind (go_fold (collect_step S) (db, [], 0) delegations) (\<lambda>(db, updated, totalRewards).
         if Int64 totalRewards = 0 then Inl (Error ''errNoRewardsToCollect'') else Inr (updated, totalRewards, db)))"

section \<open>Applying staking messages\<close>

text \<open>\<open>big.Int.Bytes\<close>: the magnitude, big-endian, without leading zeros.\<close>

fun nat_bytes :: "nat \<Rightarrow> bytes" where
  "nat_bytes n = (if n = 0 then [] else nat_bytes (n div 256) @ [of_nat (n mod 256)])"

declare nat_bytes.simps [simp del]

definition big_Bytes :: "int \<Rightarrow> bytes" where
  "big_Bytes x = nat_bytes (nat \<bar>x\<bar>)"

definition CollectRewardsTopic :: "(bytes \<Rightarrow> Hash) \<Rightarrow> Hash" where
  "CollectRewardsTopic keccak = keccak (map of_char ''Intelchain/CollectRewards'')"

definition DelegateTopic :: "(bytes \<Rightarrow> Hash) \<Rightarrow> Hash" where
  "DelegateTopic keccak = keccak (map of_char ''Intelchain/Delegate'')"

definition staking_log :: "Address \<Rightarrow> Hash \<Rightarrow> bytes \<Rightarrow> int \<Rightarrow> Log" where
  "staking_log addr topic d num =
     \<lparr>lAddress = addr, Topics = [topic], lData = d, BlockNumber = Uint64 num, TxHash = 0, TxIndex = 0, BlockHash = 0, lIndex = 0\<rparr>"

definition CreateValidatorFn ::
  "('pk, 'sig) bls_lib \<Rightarrow> (int \<Rightarrow> 'pk Instance) \<Rightarrow> 's vmStateDB \<Rightarrow> Header \<Rightarrow> ChainContext option \<Rightarrow> 's \<Rightarrow> CreateValidator \<Rightarrow> 's go" where
  "CreateValidatorFn lib instanceForEpoch S ref chain db createValidator =
     go_bind (VerifyAndCreateValidatorFromMsg lib instanceForEpoch S (Some db) chain (Some (hEpoch ref)) (Some (hNumber ref)) createValidator) (\<lambda>(wrapper, db).
     go_bind (vmUpdateValidatorWrapper S db (vAddress (theValidator wrapper)) wrapper) (\<lambda>db.
       let db = vmSetValidatorFlag S db (cvValidatorAddress createValidator)
       in Inr (vmSubBalance S db (cvValidatorAddress createValidator) (cvAmount createValidator))))"

definition EditValidatorFn ::
  "('pk, 'sig) bls_lib \<Rightarrow> (int \<Rightarrow> 'pk Instance) \<Rightarrow> 's vmStateDB \<Rightarrow> Header \<Rightarrow> ChainContext option \<Rightarrow> 's \<Rightarrow> EditValidator \<Rightarrow> 's go" where
  "EditValidatorFn lib instanceForEpoch S ref chain db editValidator =
     go_bind (VerifyAndEditValidatorFromMsg lib instanceForEpoch S (Some db) chain (hEpoch ref) (Some (hNumber ref)) editValidator) (\<lambda>(wrapper, db).
       vmUpdateValidatorWrapper S db (vAddress (theValidator wrapper)) wrapper)"

text \<open>Writing back the updated wrappers, which both delegating and collecting do.\<close>

definition update_wrappers :: "'s vmStateDB \<Rightarrow> 's \<Rightarrow> ValidatorWrapper list \<Rightarrow> 's go" where
  "update_wrappers S db ws =
     go_fold (\<lambda>db w. vmUpdateValidatorWrapperWithRevert S db (vAddress (theValidator w)) w) db ws"

definition redelegation_logs :: "(bytes \<Rightarrow> Hash) \<Rightarrow> 's vmStateDB \<Rightarrow> Header \<Rightarrow> Address \<Rightarrow> (Address \<times> int) list \<Rightarrow> 's \<Rightarrow> 's go" where
  "redelegation_logs keccak S ref delegator fromLocked db =
     go_fold (\<lambda>db key.
         case map_of fromLocked key of
           None \<Rightarrow> Inl (Error ''Key missing for delegation receipt'')
         | Some token \<Rightarrow>
             Inr (vmAddLog S db (staking_log delegator (DelegateTopic keccak) (bytes_be 20 key @ big_Bytes token) (hNumber ref))))
       db (sort (map fst fromLocked))"

definition DelegateFn ::
  "(bytes \<Rightarrow> Hash) \<Rightarrow> 's vmStateDB \<Rightarrow> Header \<Rightarrow> ChainContext \<Rightarrow> 's \<Rightarrow> DelegateMsg \<Rightarrow> 's go" where
  "DelegateFn keccak S ref chain db delegate =
     go_bind (ReadDelegationsByDelegatorAt chain (dDelegatorAddress delegate) (hNumber ref - 1)) (\<lambda>delegations.
     go_bind (VerifyAndDelegateFromMsg S (Some db) (hEpoch ref) delegate delegations (Config chain)) (\<lambda>(updated, balanceToBeDeducted, fromLocked, db).
     go_bind (update_wrappers S db updated) (\<lambda>db.
       let db = vmSubBalance S db (dDelegatorAddress delegate) balanceToBeDeducted
       in if length fromLocked > 0 then redelegation_logs keccak S ref (dDelegatorAddress delegate) fromLocked db else Inr db)))"

definition UndelegateFn :: "'s vmStateDB \<Rightarrow> Header \<Rightarrow> 's \<Rightarrow> UndelegateMsg \<Rightarrow> 's go" where
  "UndelegateFn S ref db undelegate =
     go_bind (VerifyAndUndelegateFromMsg S (Some db) (Some (hEpoch ref)) undelegate) (\<lambda>(wrapper, db).
       vmUpdateValidatorWrapperWithRevert S db (vAddress (theValidator wrapper)) wrapper)"

definition CollectRewardsFn ::
  "(bytes \<Rightarrow> Hash) \<Rightarrow> 's vmStateDB \<Rightarrow> Header \<Rightarrow> ChainContext option \<Rightarrow> 's \<Rightarrow> CollectRewards \<Rightarrow> 's go" where
  "CollectRewardsFn keccak S ref chainOpt db collectRewards =
     (case chainOpt of None \<Rightarrow> Inl (Error ''[CollectRewards] No chain context provided'') | Some chain \<Rightarrow>
       go_bind (ReadDelegationsByDelegatorAt chain (crDelegatorAddress collectRewards) (hNumber ref - 1)) (\<lambda>delegations.
       go_bind (VerifyAndCollectRewardsFromDelegation S (Some db) delegations) (\<lambda>(updated, totalRewards, db).
       go_bind (update_wrappers S db updated) (\<lambda>db.
         let db = vmAddBalance S db (crDelegatorAddress collectRewards) totalRewards
         in Inr (vmAddLog S db (staking_log (crDelegatorAddress collectRewards) (CollectRewardsTopic keccak)
              (big_Bytes totalRewards) (hNumber ref)))))))"

end
