(* ===== verification/Staking.thy ===== *)
theory Staking
  imports StakingVerifier
begin

text \<open>
  What the staking transactions do to the ledger. Every token is in a balance or behind a delegation
  (staked, waiting to be unlocked, or a reward to collect); \<open>total_tokens\<close> adds them all up. A ledger
  is in order (\<open>ledger_ok\<close>) when every wrapper is marked as validator, belongs to its address, passes
  the sanity checks, names each delegator once and has valid delegations.

  The lemmas about each operation are proved in the locale \<open>vm_state\<close>, for any state that implements
  the interface. The step relation \<open>staking_step\<close> over the account state then gives the invariants of
  every sequence of staking transactions.
\<close>

section \<open>Tokens\<close>

definition wrapper_tokens :: "ValidatorWrapper \<Rightarrow> int" where
  "wrapper_tokens w = sum_list (map delegation_tokens (Delegations w))"

definition held :: "Ledger \<Rightarrow> Address \<Rightarrow> int" where
  "held L a = (case lWrap L a of None \<Rightarrow> 0 | Some w \<Rightarrow> wrapper_tokens w)"

definition total_tokens :: "Ledger \<Rightarrow> int" where
  "total_tokens L = (\<Sum>a\<in>UNIV. lBal L a + held L a)"

text \<open>What a delegator has staked with a validator.\<close>

definition staked_in :: "ValidatorWrapper \<Rightarrow> Address \<Rightarrow> int" where
  "staked_in w a = sum_list (map (\<lambda>d. if DelegatorAddress d = a then Amount d else 0) (Delegations w))"

definition wrapper_addr :: "ValidatorWrapper \<Rightarrow> Address" where
  "wrapper_addr w = vAddress (theValidator w)"

definition wrapper_ok :: "Address \<Rightarrow> ValidatorWrapper \<Rightarrow> bool" where
  "wrapper_ok a w \<longleftrightarrow> wrapper_addr w = a \<and> valid_wrapper w \<and> distinct (map DelegatorAddress (Delegations w))
     \<and> (\<forall>d\<in>set (Delegations w). valid_delegation d)"

definition ledger_ok :: "Ledger \<Rightarrow> bool" where
  "ledger_ok L \<longleftrightarrow> (\<forall>a w. lWrap L a = Some w \<longrightarrow> lFlag L a \<and> wrapper_ok a w)"

lemma put_sel [simp]:
  "lBal (put_wrap a w L) = lBal L" "lFlag (put_wrap a w L) = lFlag L" "lWrap (put_wrap a w L) = (lWrap L)(a \<mapsto> w)"
  "lBal (put_bal a x L) = (lBal L)(a := x)" "lFlag (put_bal a x L) = lFlag L" "lWrap (put_bal a x L) = lWrap L"
  "lBal (put_flag a L) = lBal L" "lFlag (put_flag a L) = (lFlag L)(a := True)" "lWrap (put_flag a L) = lWrap L"
  by (simp_all add: put_wrap_def put_bal_def put_flag_def)

lemma held_put [simp]:
  "held (put_wrap a w L) = (held L)(a := wrapper_tokens w)" "held (put_bal a x L) = held L" "held (put_flag a L) = held L"
  by (simp_all add: held_def fun_eq_iff)

lemma sum_upd: "(\<Sum>a\<in>UNIV. (f(b := x)) a + g a) = (\<Sum>a\<in>UNIV. f a + g a) + x - f b"
  for f g :: "Address \<Rightarrow> int"
proof -
  have "(\<Sum>a\<in>UNIV. (f(b := x)) a + g a) = (\<Sum>a\<in>UNIV. (f a + g a) + (if a = b then x - f b else 0))"
    by (intro sum.cong) auto
  then show ?thesis by (simp add: sum.distrib)
qed

lemma total_put [token_simps]:
  "total_tokens (put_wrap a w L) = total_tokens L + wrapper_tokens w - held L a"
  "total_tokens (put_bal a x L) = total_tokens L + x - lBal L a"
  "total_tokens (put_flag a L) = total_tokens L"
proof -
  show "total_tokens (put_wrap a w L) = total_tokens L + wrapper_tokens w - held L a"
    unfolding total_tokens_def held_put put_sel
    using sum_upd [of "held L" a "wrapper_tokens w" "lBal L"] by (simp add: add.commute)
  show "total_tokens (put_bal a x L) = total_tokens L + x - lBal L a"
    unfolding total_tokens_def held_put put_sel by (rule sum_upd)
qed (simp add: total_tokens_def)

lemma ledger_ok_put_wrap: "ledger_ok L \<Longrightarrow> lFlag L a \<Longrightarrow> wrapper_ok a w \<Longrightarrow> ledger_ok (put_wrap a w L)"
  by (simp add: ledger_ok_def)

lemma ledger_ok_put_bal [simp]: "ledger_ok (put_bal a x L) = ledger_ok L"
  by (simp add: ledger_ok_def)

lemma ledger_okD: "ledger_ok L \<Longrightarrow> lWrap L a = Some w \<Longrightarrow> lFlag L a \<and> wrapper_ok a w"
  by (simp add: ledger_ok_def)

text \<open>Replacing one delegation of a wrapper.\<close>

lemma sum_list_replace: "i < length xs \<Longrightarrow> sum_list (map f (xs[i := y])) = sum_list (map f xs) + f y - (f (xs ! i) :: int)"
proof (induction xs arbitrary: i)
  case (Cons x xs)
  then show ?case by (cases i) simp_all
qed simp

lemma wrapper_tokens_replace [token_simps]:
  "i < length (Delegations w) \<Longrightarrow>
   wrapper_tokens (w\<lparr>Delegations := (Delegations w)[i := d]\<rparr>) = wrapper_tokens w + delegation_tokens d - delegation_tokens (Delegations w ! i)"
  by (simp add: wrapper_tokens_def sum_list_replace)

lemma staked_in_replace:
  "i < length (Delegations w) \<Longrightarrow> DelegatorAddress d = DelegatorAddress (Delegations w ! i) \<Longrightarrow>
   staked_in (w\<lparr>Delegations := (Delegations w)[i := d]\<rparr>) a
     = staked_in w a + (if DelegatorAddress d = a then Amount d - Amount (Delegations w ! i) else 0)"
  by (simp add: staked_in_def sum_list_replace)

lemma wrapper_tokens_validator [simp]: "wrapper_tokens (w\<lparr>theValidator := v\<rparr>) = wrapper_tokens w"
  by (simp add: wrapper_tokens_def)

lemma wrapper_addr_simps [simp]:
  "wrapper_addr (w\<lparr>Delegations := ds\<rparr>) = wrapper_addr w" "wrapper_addr (w\<lparr>theValidator := v\<rparr>) = vAddress v"
  by (simp_all add: wrapper_addr_def)

lemma delegations_replace_ok:
  assumes "distinct (map DelegatorAddress ds)" "\<forall>d\<in>set ds. valid_delegation d" "i < length ds"
    "DelegatorAddress d = DelegatorAddress (ds ! i)" "valid_delegation d"
  shows "distinct (map DelegatorAddress (ds[i := d]))" "\<forall>d\<in>set (ds[i := d]). valid_delegation d"
proof -
  have "map DelegatorAddress (ds[i := d]) = map DelegatorAddress ds"
    using assms(3,4) by (simp add: map_update list_update_same_conv)
  then show "distinct (map DelegatorAddress (ds[i := d]))" using assms(1) by simp
  show "\<forall>d\<in>set (ds[i := d]). valid_delegation d"
    using assms(2,5) by (auto dest: set_update_subset_insert [THEN subsetD])
qed

section \<open>Redelegating locked tokens\<close>

lemma use_undelegations_ok:
  assumes "use_undelegations e b us = (b', rest)" "0 \<le> b" "valid_undelegations us"
  shows "0 \<le> b' \<and> b' \<le> b \<and> undelegation_total rest = undelegation_total us - (b - b') \<and> valid_undelegations rest"
  using assms
proof (induction us arbitrary: b)
  case (Cons u us)
  have v: "valid_undelegations us" "0 \<le> uAmount u" "\<forall>x\<in>set us. uEpoch u \<le> uEpoch x" "uEpoch u \<notin> uEpoch ` set us"
    using Cons.prems(3) by (auto simp: valid_undelegations_def)
  show ?case
  proof (cases "uEpoch u < e \<and> uAmount u \<le> b")
    case True
    then show ?thesis using Cons.IH [of "b - uAmount u"] Cons.prems(1) v(1,2) by auto
  next
    case False
    then show ?thesis using Cons.prems v(2) by (auto simp: valid_undelegations_def split: if_splits)
  qed
qed simp

text \<open>Only tokens undelegated in earlier epochs can be used, the oldest first, as many as needed.\<close>

lemma use_undelegations_amount:
  assumes "use_undelegations e b us = (b', rest)" "0 \<le> b" "valid_undelegations us"
  shows "b' = max 0 (b - undelegation_total (filter (\<lambda>u. uEpoch u < e) us))"
  using assms
proof (induction us arbitrary: b)
  case (Cons u us)
  have v: "valid_undelegations us" "0 \<le> uAmount u" "\<forall>x\<in>set us. uEpoch u \<le> uEpoch x"
    using Cons.prems(3) by (auto simp: valid_undelegations_def)
  have nonneg: "0 \<le> undelegation_total (filter P us)" for P
    unfolding undelegation_total_def
    by (rule sum_list_nonneg) (use v(1) in \<open>fastforce simp: valid_undelegations_def\<close>)
  show ?case
  proof (cases "uEpoch u < e")
    case True
    then show ?thesis
      using Cons.IH [of "b - uAmount u"] Cons.prems(1,2) v(1,2) nonneg [of "\<lambda>u. uEpoch u < e"] by (auto split: if_splits)
  next
    case False
    then have "filter (\<lambda>u. uEpoch u < e) us = []" using v(3) by (force simp: filter_empty_conv)
    then show ?thesis using False Cons.prems(1,2) by auto
  qed
qed (simp add: max_def)


section \<open>Adding to a delegation\<close>

definition bump_delegation :: "Address \<Rightarrow> int \<Rightarrow> Delegation \<Rightarrow> Delegation" where
  "bump_delegation a x d = (if DelegatorAddress d = a then d\<lparr>Amount := Amount d + x\<rparr> else d)"

lemma bump_delegation_simps [simp]:
  "DelegatorAddress (bump_delegation a x d) = DelegatorAddress d"
  "DelegatorAddress d \<noteq> a \<Longrightarrow> bump_delegation a x d = d"
  by (simp_all add: bump_delegation_def)

lemma bump_delegation_tokens:
  "delegation_tokens (bump_delegation a x d) = delegation_tokens d + (if DelegatorAddress d = a then x else 0)"
  by (simp add: bump_delegation_def delegation_tokens_eq)

lemma bump_delegation_valid: "0 \<le> x \<Longrightarrow> valid_delegation d \<Longrightarrow> valid_delegation (bump_delegation a x d)"
  by (simp add: bump_delegation_def valid_delegation_def)

lemma bump_delegations_staked:
  "distinct (map DelegatorAddress ds) \<Longrightarrow>
   sum_list (map (\<lambda>d. if DelegatorAddress d = b then Amount (bump_delegation a x d) else 0) ds)
     = sum_list (map (\<lambda>d. if DelegatorAddress d = b then Amount d else 0) ds) + (if b = a \<and> a \<in> DelegatorAddress ` set ds then x else 0)"
  by (induction ds) (auto simp: bump_delegation_def)

lemma bump_delegations_tokens:
  "distinct (map DelegatorAddress ds) \<Longrightarrow>
   sum_list (map (\<lambda>d. delegation_tokens (bump_delegation a x d)) ds)
     = sum_list (map delegation_tokens ds) + (if a \<in> DelegatorAddress ` set ds then x else 0)"
  by (induction ds) (auto simp: bump_delegation_tokens)

text \<open>After \<open>k\<close> turns of the loop the first \<open>k\<close> delegations are bumped.\<close>

definition bumped :: "Address \<Rightarrow> int \<Rightarrow> ValidatorWrapper \<Rightarrow> nat \<Rightarrow> bool \<times> ValidatorWrapper \<Rightarrow> bool" where
  "bumped a x w k st \<longleftrightarrow>
     snd st = w\<lparr>Delegations := map (bump_delegation a x) (take k (Delegations w)) @ drop k (Delegations w)\<rparr>
     \<and> (fst st \<longleftrightarrow> a \<in> DelegatorAddress ` set (take k (Delegations w))) \<and> (fst st \<longrightarrow> valid_wrapper (snd st))"

lemma bumped_step:
  assumes "bumped a x w k st" "k < length (Delegations w)" "add_step a x st k = Inr st'"
  shows "bumped a x w (Suc k) st'"
proof -
  let ?ds = "Delegations w"
  obtain found v where st: "st = (found, v)" by fastforce
  have v: "Delegations v = map (bump_delegation a x) (take k ?ds) @ drop k ?ds" "v = w\<lparr>Delegations := Delegations v\<rparr>"
    using assms(1) by (auto simp: bumped_def st)
  have at: "Delegations v ! k = ?ds ! k" using v(1) assms(2) by (simp add: nth_append)
  have take: "take (Suc k) ?ds = take k ?ds @ [?ds ! k]" "drop k ?ds = ?ds ! k # drop (Suc k) ?ds"
    using assms(2) by (simp_all add: take_Suc_conv_app_nth Cons_nth_drop_Suc)
  show ?thesis
  proof (cases "DelegatorAddress (?ds ! k) = a")
    case True
    let ?v = "v\<lparr>Delegations := (Delegations v)[k := (?ds ! k)\<lparr>Amount := Amount (?ds ! k) + x\<rparr>]\<rparr>"
    have "SanityCheck ?v = Inr ()" "st' = (True, ?v)" using assms(3) True at by (auto simp: st add_step_def Let_def)
    moreover have "(Delegations v)[k := (?ds ! k)\<lparr>Amount := Amount (?ds ! k) + x\<rparr>]
        = map (bump_delegation a x) (take (Suc k) ?ds) @ drop (Suc k) ?ds"
      using v(1) take True assms(2) by (simp add: list_update_append bump_delegation_def)
    moreover have "?v = w\<lparr>Delegations := (Delegations v)[k := (?ds ! k)\<lparr>Amount := Amount (?ds ! k) + x\<rparr>]\<rparr>"
      using v(2) by (metis ValidatorWrapper.fold_congs(2) ValidatorWrapper.unfold_congs(2) ValidatorWrapper.update_convs(2) ValidatorWrapper.cases_scheme)
    ultimately show ?thesis using True take(1) by (simp add: bumped_def SanityCheck_iff)
  next
    case False
    then have "st' = st" using assms(3) at by (simp add: st add_step_def)
    then show ?thesis using assms(1) False take unfolding bumped_def by auto
  qed
qed

lemma upt_split:
  assumes "[0..<n] = ys @ i # zs"
  shows "i = length ys \<and> length ys < n"
proof -
  have "length ys < n" using arg_cong [OF assms, of length] by simp
  moreover have "[0..<n] ! length ys = i" using assms by simp
  ultimately show ?thesis by simp
qed

lemma add_to_existing_ok:
  assumes "add_to_existing a x w = Inr (found, w')"
  shows "w' = w\<lparr>Delegations := map (bump_delegation a x) (Delegations w)\<rparr>"
    "found \<longleftrightarrow> a \<in> DelegatorAddress ` set (Delegations w)" "found \<Longrightarrow> valid_wrapper w'"
proof -
  let ?n = "length (Delegations w)"
  have "bumped a x w (length [0..<?n]) (found, w')"
  proof (rule go_fold_prefix_invariant [where I = "\<lambda>is. bumped a x w (length is)", OF assms [unfolded add_to_existing_def]])
    show "bumped a x w (length []) (False, w)" by (simp add: bumped_def)
  next
    fix ys st i st'
    assume p: "\<exists>zs. [0..<?n] = ys @ i # zs" and b: "bumped a x w (length ys) st" and s: "add_step a x st i = Inr st'"
    have "i = length ys \<and> length ys < ?n" using p upt_split by blast
    then show "bumped a x w (length (ys @ [i])) st'" using bumped_step [OF b] s by simp
  qed
  then show "w' = w\<lparr>Delegations := map (bump_delegation a x) (Delegations w)\<rparr>"
    "found \<longleftrightarrow> a \<in> DelegatorAddress ` set (Delegations w)" "found \<Longrightarrow> valid_wrapper w'"
    unfolding bumped_def by auto
qed


lemma add_delegation_ok:
  assumes "add_delegation a x w = Inr w'" "0 \<le> x" "distinct (map DelegatorAddress (Delegations w))"
    "\<forall>d\<in>set (Delegations w). valid_delegation d"
  shows "wrapper_ok (wrapper_addr w) w'" "wrapper_tokens w' = wrapper_tokens w + x" "theValidator w' = theValidator w"
    "staked_in w' b = staked_in w b + (if b = a then x else 0)"
proof -
  obtain found v where e: "add_to_existing a x w = Inr (found, v)"
    "if found then w' = v else (valid_wrapper w' \<and> w' = v\<lparr>Delegations := Delegations v @ [NewDelegation a x]\<rparr>)"
    using assms(1) by (auto simp: add_delegation_def Let_def SanityCheck_iff split: if_splits)
  note ok = add_to_existing_ok [OF e(1)]
  have same: "bump_delegation a x d = d" if "\<not> found" "d \<in> set (Delegations w)" for d
    using that ok(2) by (auto simp: image_iff)
  have ds: "Delegations w' = (if found then map (bump_delegation a x) (Delegations w) else Delegations w @ [NewDelegation a x])"
    "theValidator w' = theValidator w" "valid_wrapper w'"
    using e(2) ok(1,3) same by (auto simp: map_idI split: if_splits)
  then show "theValidator w' = theValidator w" by simp
  have new: "valid_delegation (NewDelegation a x)" "delegation_tokens (NewDelegation a x) = x" "DelegatorAddress (NewDelegation a x) = a"
    using assms(2) by (simp_all add: NewDelegation_def valid_delegation_def valid_undelegations_def delegation_tokens_eq)
  show "wrapper_tokens w' = wrapper_tokens w + x"
    using ds(1) new(2) ok(2) bump_delegations_tokens [OF assms(3), of a x]
    by (simp add: wrapper_tokens_def comp_def)
  have "Amount (NewDelegation a x) = x" by (simp add: NewDelegation_def)
  then show "staked_in w' b = staked_in w b + (if b = a then x else 0)"
    using ds(1) new(3) ok(2) bump_delegations_staked [OF assms(3), of b a x] by (auto simp: staked_in_def comp_def)
  have "distinct (map DelegatorAddress (Delegations w'))" "\<forall>d\<in>set (Delegations w'). valid_delegation d"
    using ds(1) new assms(2-4) ok(2) bump_delegation_valid by (auto simp: comp_def split: if_splits)
  then show "wrapper_ok (wrapper_addr w) w'"
    using ds(2,3) by (simp add: wrapper_ok_def wrapper_addr_def)
qed

text \<open>Forgiving a small self delegation only turns an active validator inactive.\<close>

lemma settle_self_delegation_ok:
  assumes "settle_self_delegation w = Inr w'" "Delegations w \<noteq> []"
  shows "Delegations w' = Delegations w" "wrapper_addr w' = wrapper_addr w"
    "Status (theValidator w') = Status (theValidator w) \<or> Status (theValidator w) = Active \<and> Status (theValidator w') = Inactive"
    "SlotPubKeys (theValidator w') = SlotPubKeys (theValidator w)"
proof -
  consider (fine) "w' = w" | (small) "SanityCheck w = Inl (Error ''ErrInvalidSelfDelegation'')"
      "w' = w\<lparr>theValidator := (theValidator w)\<lparr>Status := Inactive\<rparr>\<rparr>"
    using assms(1) by (auto simp: settle_self_delegation_def split: sum.splits if_splits)
  then have "Delegations w' = Delegations w \<and> wrapper_addr w' = wrapper_addr w \<and> SlotPubKeys (theValidator w') = SlotPubKeys (theValidator w) \<and>
    (Status (theValidator w') = Status (theValidator w) \<or> Status (theValidator w) = Active \<and> Status (theValidator w') = Inactive)"
  proof cases
    case small
    then have "Status (theValidator w) = Active"
      using assms(2) by (auto simp: SanityCheck_self_iff enough_self_delegation_def)
    then show ?thesis using small(2) by (simp add: wrapper_addr_def)
  qed simp
  then show "Delegations w' = Delegations w" "wrapper_addr w' = wrapper_addr w"
    "Status (theValidator w') = Status (theValidator w) \<or> Status (theValidator w) = Active \<and> Status (theValidator w') = Inactive"
    "SlotPubKeys (theValidator w') = SlotPubKeys (theValidator w)"
    by auto
qed

section \<open>Writing wrappers back\<close>

definition put_wraps :: "ValidatorWrapper list \<Rightarrow> Ledger \<Rightarrow> Ledger" where
  "put_wraps ws L = fold (\<lambda>w. put_wrap (wrapper_addr w) w) ws L"

lemma put_wraps_simps [simp]: "put_wraps [] L = L" "put_wraps (w # ws) L = put_wraps ws (put_wrap (wrapper_addr w) w L)"
  by (simp_all add: put_wraps_def)

lemma put_wraps_sel [simp]: "lBal (put_wraps ws L) = lBal L" "lFlag (put_wraps ws L) = lFlag L"
  by (induction ws arbitrary: L) simp_all

lemma put_wraps_at:
  "distinct (map wrapper_addr ws) \<Longrightarrow> lWrap (put_wraps ws L) a = (case find (\<lambda>w. wrapper_addr w = a) ws of Some w \<Rightarrow> Some w | None \<Rightarrow> lWrap L a)"
proof (induction ws arbitrary: L)
  case (Cons w ws)
  then have "find (\<lambda>v. wrapper_addr v = wrapper_addr w) ws = None"
    by (auto simp: find_None_iff image_iff)
  then show ?case using Cons by (auto split: option.split)
qed simp

lemma put_wraps_total:
  "distinct (map wrapper_addr ws) \<Longrightarrow>
   total_tokens (put_wraps ws L) = total_tokens L + sum_list (map wrapper_tokens ws) - sum_list (map (\<lambda>w. held L (wrapper_addr w)) ws)"
proof (induction ws arbitrary: L)
  case (Cons w ws)
  have "sum_list (map (\<lambda>v. held (put_wrap (wrapper_addr w) w L) (wrapper_addr v)) ws) = sum_list (map (\<lambda>v. held L (wrapper_addr v)) ws)"
    using Cons.prems by (intro arg_cong [where f = sum_list] map_cong) (auto simp: image_iff)
  then show ?case using Cons by (simp add: token_simps del: held_put)
qed simp

lemma put_wraps_ok:
  "ledger_ok L \<Longrightarrow> \<forall>w\<in>set ws. wrapper_ok (wrapper_addr w) w \<and> lFlag L (wrapper_addr w) \<Longrightarrow> ledger_ok (put_wraps ws L)"
  by (induction ws arbitrary: L) (simp_all add: ledger_ok_put_wrap)

definition set_option_list :: "'a option \<Rightarrow> 'a list" where
  "set_option_list x = (case x of Some k \<Rightarrow> [k] | None \<Rightarrow> [])"

text \<open>Keys that no other listed validator uses.\<close>

definition keys_free :: "Ledger \<Rightarrow> Address list \<Rightarrow> Address \<Rightarrow> SerializedPublicKey list \<Rightarrow> bool" where
  "keys_free L addrs v ks \<longleftrightarrow> (\<forall>a\<in>set addrs. a \<noteq> v \<longrightarrow> (\<forall>w. lWrap L a = Some w \<longrightarrow> set (SlotPubKeys (theValidator w)) \<inter> set ks = {}))"

text \<open>The reward behind a delegation index, and updated wrappers that keep the validator and valid delegations.\<close>

definition reward_at :: "Ledger \<Rightarrow> DelegationIndex \<Rightarrow> int" where
  "reward_at L di = (case lWrap L (diValidatorAddress di) of
     None \<Rightarrow> 0 | Some w \<Rightarrow> Reward (Delegations w ! unat (diIndex di)))"

definition settled :: "Ledger \<Rightarrow> ValidatorWrapper \<Rightarrow> bool" where
  "settled L w \<longleftrightarrow> (\<exists>w0. lWrap L (wrapper_addr w) = Some w0 \<and> theValidator w = theValidator w0 \<and> staked_in w = staked_in w0)
     \<and> distinct (map DelegatorAddress (Delegations w)) \<and> (\<forall>d\<in>set (Delegations w). valid_delegation d)"

text \<open>The wrappers a delegation of \<open>amount\<close> to \<open>v\<close> leaves: the stake grows with that validator only.\<close>

definition delegated :: "Ledger \<Rightarrow> Address \<Rightarrow> Address \<Rightarrow> int \<Rightarrow> ValidatorWrapper \<Rightarrow> bool" where
  "delegated L v a amount w \<longleftrightarrow> wrapper_ok (wrapper_addr w) w
     \<and> (\<exists>w0. lWrap L (wrapper_addr w) = Some w0 \<and> theValidator w = theValidator w0
          \<and> (\<forall>b. staked_in w b = staked_in w0 b + (if wrapper_addr w = v \<and> b = a then amount else 0)))"

lemma settled_delegated: "settled L w \<Longrightarrow> valid_wrapper w \<Longrightarrow> wrapper_addr w \<noteq> v \<Longrightarrow> delegated L v a x w"
  by (auto simp: settled_def delegated_def wrapper_ok_def)

lemma settled_self: "ledger_ok L \<Longrightarrow> lWrap L a = Some w \<Longrightarrow> settled L w \<and> wrapper_addr w = a"
  by (auto simp: settled_def wrapper_ok_def dest!: ledger_okD)

lemma add_delegation_delegated:
  assumes "settled L w" "wrapper_addr w = v" "add_delegation a x w = Inr w'" "0 \<le> x"
  shows "delegated L v a x w'" "wrapper_tokens w' = wrapper_tokens w + x" "wrapper_addr w' = v"
proof -
  have o: "distinct (map DelegatorAddress (Delegations w))" "\<forall>d\<in>set (Delegations w). valid_delegation d"
    using assms(1) by (auto simp: settled_def)
  note k = add_delegation_ok [OF assms(3,4) o]
  show "wrapper_tokens w' = wrapper_tokens w + x" by (rule k(2))
  show addr: "wrapper_addr w' = v" using k(3) assms(2) by (simp add: wrapper_addr_def)
  show "delegated L v a x w'" using assms(1,2) k(1,3,4) addr by (auto simp: delegated_def settled_def)
qed

lemma sum_list_held_replace:
  "i < length us \<Longrightarrow> wrapper_addr w = wrapper_addr (us ! i) \<Longrightarrow>
   sum_list (map (\<lambda>w. held L (wrapper_addr w)) (us[i := w])) = sum_list (map (\<lambda>w. held L (wrapper_addr w)) us)"
  by (simp add: sum_list_replace)

context vm_state
begin

lemma update_wrappers_led:
  "inv s \<Longrightarrow> update_wrappers S s ws = Inr s' \<Longrightarrow> inv s' \<and> led s' = put_wraps ws (led s) \<and> (\<forall>w\<in>set ws. valid_wrapper w)"
proof (induction ws arbitrary: s)
  case (Cons w ws)
  then obtain s1 where s1: "vmUpdateValidatorWrapperWithRevert S s (vAddress (theValidator w)) w = Inr s1" "update_wrappers S s1 ws = Inr s'"
    by (auto simp: update_wrappers_def)
  then show ?case using update_revert [OF Cons.prems(1) s1(1)] Cons.IH [OF _ s1(2)]
    by (simp add: SanityCheck_iff wrapper_addr_def)
qed (simp add: update_wrappers_def)

lemma checkDuplicateFields_led:
  "inv s \<Longrightarrow> checkDuplicateFields S addrs s v idn ks = Inr s' \<Longrightarrow> inv s' \<and> led s' = led s \<and> keys_free (led s) addrs v ks"
proof (induction addrs arbitrary: s)
  case (Cons a addrs)
  then obtain s1 where s1: "checkDuplicateFields S addrs s1 v idn ks = Inr s'"
    "if v = a then s1 = s else (\<exists>p. vmValidatorWrapper S s a True False = Inr (p, s1)
       \<and> (ks \<noteq> [] \<longrightarrow> (\<exists>w. p = Some w \<and> \<not> list_ex (\<lambda>k. k \<in> set ks) (SlotPubKeys (theValidator w)))))"
    by (auto simp: checkDuplicateFields_def split: if_splits)
  show ?case
  proof (cases "v = a")
    case True
    then show ?thesis using Cons.IH [OF _ s1(1)] s1(2) Cons.prems(1) by (simp add: keys_free_def)
  next
    case False
    then obtain p where p: "vmValidatorWrapper S s a True False = Inr (p, s1)"
      "ks \<noteq> [] \<longrightarrow> (\<exists>w. p = Some w \<and> \<not> list_ex (\<lambda>k. k \<in> set ks) (SlotPubKeys (theValidator w)))" using s1(2) by auto
    note g = get [OF Cons.prems(1) p(1)]
    have "set (SlotPubKeys (theValidator w)) \<inter> set ks = {}" if "lWrap (led s) a = Some w" for w
      using that g p(2) by (cases "ks = []") (auto simp: list_ex_iff)
    then show ?thesis using Cons.IH [OF _ s1(1)] g by (simp add: keys_free_def)
  qed
qed (simp add: checkDuplicateFields_def keys_free_def)

lemma CreateValidatorFn_led:
  assumes "inv s" "CreateValidatorFn lib inst S ref chain s msg = Inr s'"
  obtains w ch addrs where "inv s'" "led s' = put_bal (cvValidatorAddress msg) (lBal (led s) (cvValidatorAddress msg) - cvAmount msg)
      (put_flag (cvValidatorAddress msg) (put_wrap (cvValidatorAddress msg) w (led s)))"
    "\<not> lFlag (led s) (cvValidatorAddress msg)" "0 \<le> cvAmount msg" "cvAmount msg \<le> lBal (led s) (cvValidatorAddress msg)"
    "Delegations w = [NewDelegation (cvValidatorAddress msg) (cvAmount msg)]" "wrapper_addr w = cvValidatorAddress msg"
    "valid_wrapper w" "Status (theValidator w) = Active" "chain = Some ch" "ReadValidatorList ch = Inr addrs"
    "keys_free (led s) addrs (cvValidatorAddress msg) (SlotPubKeys (theValidator w))"
proof -
  let ?a = "cvValidatorAddress msg"
  obtain w s1 s2 where v: "VerifyAndCreateValidatorFromMsg lib inst S (Some s) chain (Some (hEpoch ref)) (Some (hNumber ref)) msg = Inr (w, s1)"
    and u: "vmUpdateValidatorWrapper S s1 (vAddress (theValidator w)) w = Inr s2"
    and s': "s' = vmSubBalance S (vmSetValidatorFlag S s2 ?a) ?a (cvAmount msg)"
    using assms(2) by (auto simp: CreateValidatorFn_def Let_def)
  from v obtain addrs ch vd where c: "chain = Some ch" "0 \<le> cvAmount msg" "\<not> vmIsValidator S s ?a"
    "checkDuplicateFields S addrs s ?a (Identity (cvDescription msg)) (cvSlotPubKeys msg) = Inr s1"
    "CanTransfer S s1 ?a (cvAmount msg)" "CreateValidatorFromNewMsg lib inst msg (hNumber ref) (hEpoch ref) = Inr vd"
    "w = \<lparr>theValidator = vd, Delegations = [NewDelegation (vAddress vd) (cvAmount msg)], Counters = \<lparr>NumBlocksToSign = 0, NumBlocksSigned = 0\<rparr>, BlockReward = 0\<rparr>"
    "ReadValidatorList ch = Inr addrs"
    by (auto simp: VerifyAndCreateValidatorFromMsg_def Let_def sgn_if split: option.splits if_splits)
  have vd: "vAddress vd = ?a" "Status vd = Active" "SlotPubKeys vd = cvSlotPubKeys msg" using c(6) by (auto simp: CreateValidatorFromNewMsg_def Let_def)
  note d = checkDuplicateFields_led [OF assms(1) c(4)]
  note l = update [OF conjunct1 [OF d] u]
  have m: "inv (vmSetValidatorFlag S s2 ?a)" "led (vmSetValidatorFlag S s2 ?a) = put_flag ?a (put_wrap ?a w (led s))"
    using mark [of s2 ?a] l d vd(1) c(7) by simp_all
  show thesis
  proof (rule that [of w ch addrs])
    show "inv s'" "led s' = put_bal ?a (lBal (led s) ?a - cvAmount msg) (put_flag ?a (put_wrap ?a w (led s)))"
      using sub [OF m(1), of ?a "cvAmount msg"] m(2) s' by simp_all
    show "\<not> lFlag (led s) ?a" using c(3) flag [OF assms(1)] by simp
    show "cvAmount msg \<le> lBal (led s) ?a" using c(5) d balance [of s1 ?a] by (simp add: CanTransfer_def)
    show "valid_wrapper w" using l by (simp add: SanityCheck_iff)
    show "keys_free (led s) addrs ?a (SlotPubKeys (theValidator w))" using d c(7) vd(3) by simp
  qed (use c vd in \<open>simp_all add: wrapper_addr_def\<close>)
qed

lemma EditValidatorFn_led:
  assumes "inv s" "EditValidatorFn lib inst S ref chain s msg = Inr s'"
  obtains w0 w ch addrs where "inv s'" "lWrap (led s) (evValidatorAddress msg) = Some w0" "led s' = put_wrap (evValidatorAddress msg) w (led s)"
    "Delegations w = Delegations w0" "wrapper_addr w = evValidatorAddress msg" "valid_wrapper w"
    "Status (theValidator w0) \<noteq> Banned" "lFlag (led s) (evValidatorAddress msg)"
    "chain = Some ch" "ReadValidatorList ch = Inr addrs" "keys_free (led s) addrs (evValidatorAddress msg) (set_option_list (SlotKeyToAdd msg))"
    "distinct (SlotPubKeys (theValidator w0)) \<longrightarrow> set (SlotPubKeys (theValidator w)) \<subseteq> set (SlotPubKeys (theValidator w0)) \<union> set_option (SlotKeyToAdd msg)"
proof -
  let ?a = "evValidatorAddress msg"
  obtain w s1 where v: "VerifyAndEditValidatorFromMsg lib inst S (Some s) chain (hEpoch ref) (Some (hNumber ref)) msg = Inr (w, s1)"
    and u: "vmUpdateValidatorWrapper S s1 (vAddress (theValidator w)) w = Inr s'"
    using assms(2) by (auto simp: EditValidatorFn_def)
  from v obtain addrs ch p s2 w0 vd where c: "vmIsValidator S s ?a"
    "checkDuplicateFields S addrs s ?a (Identity (evDescription msg)) (set_option_list (SlotKeyToAdd msg)) = Inr s2"
    "vmValidatorWrapper S s2 ?a False False = Inr (p, s1)" "p = Some w0"
    "UpdateValidatorFromEditMsg lib inst (theValidator w0) msg (hEpoch ref) = Inr vd"
    "w = w0\<lparr>theValidator := vd\<rparr> \<or> w = w0\<lparr>theValidator := vd\<lparr>vCommission := (vCommission vd)\<lparr>UpdateHeight := hNumber ref\<rparr>\<rparr>\<rparr>"
    "chain = Some ch" "ReadValidatorList ch = Inr addrs"
    by (auto simp: set_option_list_def VerifyAndEditValidatorFromMsg_def Let_def split: option.splits if_splits)
  note d = checkDuplicateFields_led [OF assms(1) c(2)]
  note g = get [OF conjunct1 [OF d] c(3)]
  have e: "vAddress (theValidator w0) = ?a" "vAddress vd = ?a" "Status (theValidator w0) \<noteq> Banned"
    using UpdateValidatorFromEditMsg_ok(1,3) [OF c(5)] c(5) by (auto simp: UpdateValidatorFromEditMsg_def split: if_splits)
  have w: "wrapper_addr w = ?a" "Delegations w = Delegations w0" "SlotPubKeys (theValidator w) = SlotPubKeys vd"
    using c(6) e(2) by (auto simp: wrapper_addr_def)
  note l = update [OF _ u]
  show thesis
  proof (rule that [of w0 w ch addrs])
    show "keys_free (led s) addrs ?a (set_option_list (SlotKeyToAdd msg))" using d by simp
    show "distinct (SlotPubKeys (theValidator w0)) \<longrightarrow> set (SlotPubKeys (theValidator w)) \<subseteq> set (SlotPubKeys (theValidator w0)) \<union> set_option (SlotKeyToAdd msg)"
      using UpdateValidatorFromEditMsg_ok(6) [OF c(5)] w(3) by auto
  qed (use l g d c(1,4,7,8) w e(3) flag [OF assms(1)] in \<open>auto simp: SanityCheck_iff wrapper_addr_def\<close>)
qed

lemma UndelegateFn_led:
  assumes "inv s" "ledger_ok (led s)" "UndelegateFn S ref s msg = Inr s'"
  obtains w0 w amt i d where "inv s'" "lWrap (led s) (uValidatorAddress msg) = Some w0" "umAmount msg = Some amt" "0 < amt"
    "i < length (Delegations w0)" "DelegatorAddress (Delegations w0 ! i) = uDelegatorAddress msg"
    "Undelegate (Delegations w0 ! i) (hEpoch ref) amt = Inr d" "Delegations w = (Delegations w0)[i := d]"
    "led s' = put_wrap (uValidatorAddress msg) w (led s)" "wrapper_ok (uValidatorAddress msg) w"
    "Status (theValidator w) = Status (theValidator w0) \<or> Status (theValidator w0) = Active \<and> Status (theValidator w) = Inactive"
    "SlotPubKeys (theValidator w) = SlotPubKeys (theValidator w0)"
proof -
  let ?a = "uValidatorAddress msg"
  obtain w s1 where v: "VerifyAndUndelegateFromMsg S (Some s) (Some (hEpoch ref)) msg = Inr (w, s1)"
    and u: "vmUpdateValidatorWrapperWithRevert S s1 (vAddress (theValidator w)) w = Inr s'"
    using assms(3) by (auto simp: UndelegateFn_def)
  from v obtain amt p w0 i d where c: "umAmount msg = Some amt" "vmValidatorWrapper S s ?a False True = Inr (p, s1)" "p = Some w0"
    "find (\<lambda>i. DelegatorAddress (Delegations w0 ! i) = uDelegatorAddress msg) [0..<length (Delegations w0)] = Some i"
    "Undelegate (Delegations w0 ! i) (hEpoch ref) amt = Inr d"
    "settle_self_delegation (w0\<lparr>Delegations := (Delegations w0)[i := d]\<rparr>) = Inr w"
    by (auto simp: VerifyAndUndelegateFromMsg_def split: option.splits if_splits)
  note g = get [OF assms(1) c(2)]
  have w0: "lWrap (led s) ?a = Some w0" "inv s1" "led s1 = led s" using g c(3) by auto
  have ok: "wrapper_ok ?a w0" "lFlag (led s) ?a" using ledger_okD [OF assms(2) w0(1)] by auto
  have i: "i < length (Delegations w0)" "DelegatorAddress (Delegations w0 ! i) = uDelegatorAddress msg"
    using c(4) by (auto simp: find_Some_iff)
  have ne: "Delegations w0 \<noteq> []" using i(1) by auto
  have amt: "0 < amt" using Undelegate_frame(4) [OF c(5)] .
  have d: "DelegatorAddress d = DelegatorAddress (Delegations w0 ! i)" "valid_delegation d"
    using Undelegate_frame(1) [OF c(5)] Undelegate_valid [OF c(5)] ok(1) i(1) by (auto simp: wrapper_ok_def)
  have w: "Delegations w = (Delegations w0)[i := d]" "wrapper_addr w = ?a"
    "Status (theValidator w) = Status (theValidator w0) \<or> Status (theValidator w0) = Active \<and> Status (theValidator w) = Inactive"
    "SlotPubKeys (theValidator w) = SlotPubKeys (theValidator w0)"
    using settle_self_delegation_ok [OF c(6)] ok(1) ne by (auto simp: wrapper_ok_def)
  note l = update_revert [OF w0(2) u]
  have o: "distinct (map DelegatorAddress (Delegations w0))" "\<forall>d\<in>set (Delegations w0). valid_delegation d"
    using ok(1) by (auto simp: wrapper_ok_def)
  have "wrapper_ok ?a w"
    unfolding wrapper_ok_def w(1) using delegations_replace_ok [OF o i(1) d] w(2) l by (simp add: SanityCheck_iff)
  then show thesis using that [of w0 amt i d w] l w0 c i amt w by (auto simp: wrapper_addr_def)
qed

lemma collect_step_led:
  assumes "inv s" "ledger_ok (led s)" "collect_step S (s, ws, t) di = Inr (s', ws', t')"
  obtains w w0 where "inv s'" "led s' = led s" "ws' = ws @ [w]" "lWrap (led s) (diValidatorAddress di) = Some w0"
    "settled (led s) w" "wrapper_addr w = diValidatorAddress di" "wrapper_tokens w + (t' - t) = wrapper_tokens w0"
    "t' - t = reward_at (led s) di" "0 \<le> reward_at (led s) di"
proof -
  let ?i = "unat (diIndex di)"
  from assms(3) obtain p w0 where g: "vmValidatorWrapper S s (diValidatorAddress di) False True = Inr (p, s')" "p = Some w0"
    "?i < length (Delegations w0)"
    and r: "(ws', t') = (if Reward (Delegations w0 ! ?i) > 0
       then (ws @ [w0\<lparr>Delegations := (Delegations w0)[?i := (Delegations w0 ! ?i)\<lparr>Reward := 0\<rparr>]\<rparr>], t + Reward (Delegations w0 ! ?i))
       else (ws @ [w0], t))"
    by (auto simp: collect_step_def Let_def split: if_splits)
  note l = get [OF assms(1) g(1)]
  have w0: "lWrap (led s) (diValidatorAddress di) = Some w0" using l g(2) by simp
  let ?d = "Delegations w0 ! ?i"
  have ok: "distinct (map DelegatorAddress (Delegations w0))" "\<forall>d\<in>set (Delegations w0). valid_delegation d" "wrapper_addr w0 = diValidatorAddress di"
    using ledger_okD [OF assms(2) w0] by (auto simp: wrapper_ok_def)
  have v: "valid_delegation ?d" using ok(2) g(3) by simp
  then have pos: "0 \<le> Reward ?d" "valid_delegation (?d\<lparr>Reward := 0\<rparr>)" by (auto simp: valid_delegation_def)
  define w where "w = (if Reward ?d > 0 then w0\<lparr>Delegations := (Delegations w0)[?i := ?d\<lparr>Reward := 0\<rparr>]\<rparr> else w0)"
  have e: "ws' = ws @ [w]" "t' - t = Reward ?d" using r pos(1) by (auto simp: w_def split: if_splits)
  have tok: "wrapper_tokens w = wrapper_tokens w0 - Reward ?d"
    using g(3) pos(1) by (simp add: w_def token_simps delegation_tokens_eq)
  have "reward_at (led s) di = Reward ?d" using w0 by (simp add: reward_at_def)
  moreover have "settled (led s) w" "wrapper_addr w = diValidatorAddress di"
    using w0 ok pos(2) delegations_replace_ok [OF ok(1,2) g(3), of "?d\<lparr>Reward := 0\<rparr>"] g(3)
    by (auto simp: w_def settled_def staked_in_replace fun_eq_iff)
  ultimately show thesis using that [of w w0] l w0 e tok pos(1) by simp
qed

lemma collect_fold_led:
  assumes "inv s" "ledger_ok (led s)" "go_fold (collect_step S) (s, ws, t) dis = Inr (s', ws', t')"
  shows "\<exists>us. ws' = ws @ us \<and> inv s' \<and> led s' = led s \<and> map wrapper_addr us = map diValidatorAddress dis
    \<and> (\<forall>w\<in>set us. settled (led s) w) \<and> sum_list (map wrapper_tokens us) + (t' - t) = sum_list (map (\<lambda>w. held (led s) (wrapper_addr w)) us)
    \<and> t' - t = sum_list (map (reward_at (led s)) dis) \<and> t \<le> t'"
  using assms
proof (induction dis arbitrary: s ws t)
  case Nil
  then show ?case by simp
next
  case (Cons di dis)
  then obtain s1 ws1 t1 where 1: "collect_step S (s, ws, t) di = Inr (s1, ws1, t1)" "go_fold (collect_step S) (s1, ws1, t1) dis = Inr (s', ws', t')"
    by auto
  from collect_step_led [OF Cons.prems(1,2) 1(1)] obtain w w0 where
    w: "inv s1" "led s1 = led s" "ws1 = ws @ [w]" "lWrap (led s) (diValidatorAddress di) = Some w0"
    "settled (led s) w" "wrapper_addr w = diValidatorAddress di" "wrapper_tokens w + (t1 - t) = wrapper_tokens w0"
    "t1 - t = reward_at (led s) di" "0 \<le> reward_at (led s) di" by blast
  from Cons.IH [of s1 ws1 t1] w 1(2) Cons.prems(2) obtain us where
    us: "ws' = ws1 @ us" "inv s'" "led s' = led s" "map wrapper_addr us = map diValidatorAddress dis" "\<forall>w\<in>set us. settled (led s) w"
    "sum_list (map wrapper_tokens us) + (t' - t1) = sum_list (map (\<lambda>w. held (led s) (wrapper_addr w)) us)"
    "t' - t1 = sum_list (map (reward_at (led s)) dis)" "t1 \<le> t'" by auto
  have "held (led s) (wrapper_addr w) = wrapper_tokens w0" using w(4,6) by (simp add: held_def)
  then show ?case using us w by (intro exI [of _ "w # us"]) simp
qed

lemma redelegate_step_led:
  assumes "inv s" "ledger_ok (led s)" "0 \<le> b" "redelegate_step S ep v (s, b, ws, dl, fl) di = Inr (s', b', ws', dl', fl')"
  shows "inv s' \<and> led s' = led s \<and> 0 \<le> b' \<and> b' \<le> b \<and>
    (if b' < b then (\<exists>w. ws' = ws @ [w] \<and> wrapper_addr w = diValidatorAddress di \<and> settled (led s) w \<and> valid_wrapper w
        \<and> wrapper_tokens w = held (led s) (diValidatorAddress di) - (b - b'))
        \<and> dl' = (if diValidatorAddress di = v then Some (length ws) else dl) \<and> fl' = AList.update (diValidatorAddress di) (b - b') fl
     else ws' = ws \<and> dl' = dl \<and> fl' = fl)"
proof -
  let ?i = "unat (diIndex di)" and ?a = "diValidatorAddress di"
  from assms(4) obtain p w0 rest where g: "vmValidatorWrapper S s ?a False True = Inr (p, s')" "p = Some w0" "?i < length (Delegations w0)"
    and u: "use_undelegations ep b (Undelegations (Delegations w0 ! ?i)) = (b', rest)"
    and r: "if b' < b then SanityCheck (w0\<lparr>Delegations := (Delegations w0)[?i := (Delegations w0 ! ?i)\<lparr>Undelegations := rest\<rparr>]\<rparr>) = Inr ()
        \<and> ws' = ws @ [w0\<lparr>Delegations := (Delegations w0)[?i := (Delegations w0 ! ?i)\<lparr>Undelegations := rest\<rparr>]\<rparr>]
        \<and> dl' = (if ?a = v then Some (length ws) else dl) \<and> fl' = AList.update ?a (b - b') fl
      else ws' = ws \<and> dl' = dl \<and> fl' = fl"
    by (auto simp: redelegate_step_def Let_def split: if_splits prod.splits)
  note l = get [OF assms(1) g(1)]
  have w0: "lWrap (led s) ?a = Some w0" using l g(2) by simp
  let ?d = "Delegations w0 ! ?i" and ?w = "w0\<lparr>Delegations := (Delegations w0)[?i := (Delegations w0 ! ?i)\<lparr>Undelegations := rest\<rparr>]\<rparr>"
  have ok: "distinct (map DelegatorAddress (Delegations w0))" "\<forall>d\<in>set (Delegations w0). valid_delegation d" "wrapper_addr w0 = ?a"
    using ledger_okD [OF assms(2) w0] by (auto simp: wrapper_ok_def)
  have v: "valid_delegation ?d" using ok(2) g(3) by simp
  note uo = use_undelegations_ok [OF u assms(3)]
  have d: "valid_delegation (?d\<lparr>Undelegations := rest\<rparr>)" "0 \<le> b'" "b' \<le> b"
    "delegation_tokens (?d\<lparr>Undelegations := rest\<rparr>) = delegation_tokens ?d - (b - b')"
    using uo v by (auto simp: valid_delegation_def delegation_tokens_eq)
  have "settled (led s) ?w"
    using delegations_replace_ok [OF ok(1,2) g(3), of "?d\<lparr>Undelegations := rest\<rparr>"] d(1) w0 ok(3) g(3)
    by (auto simp: settled_def staked_in_replace fun_eq_iff)
  moreover have "wrapper_tokens ?w = held (led s) ?a - (b - b')"
    using g(3) d(4) w0 by (simp add: token_simps held_def)
  ultimately show ?thesis using l d r ok(3) by (auto simp: SanityCheck_iff)
qed

lemma redelegate_fold_led:
  assumes "inv s" "ledger_ok (led s)" "0 \<le> b" "distinct (map diValidatorAddress dis)"
    "fst ` set fl \<inter> diValidatorAddress ` set dis = {}"
    "go_fold (redelegate_step S ep v) (s, b, ws, dl, fl) dis = Inr (s', b', ws', dl', fl')"
  shows "\<exists>us fs. ws' = ws @ us \<and> fl' = fl @ fs \<and> inv s' \<and> led s' = led s \<and> 0 \<le> b' \<and> b' \<le> b
    \<and> distinct (map wrapper_addr us) \<and> wrapper_addr ` set us \<subseteq> diValidatorAddress ` set dis
    \<and> (\<forall>w\<in>set us. settled (led s) w \<and> valid_wrapper w)
    \<and> sum_list (map wrapper_tokens us) = sum_list (map (\<lambda>w. held (led s) (wrapper_addr w)) us) - (b - b')
    \<and> sum_list (map snd fs) = b - b' \<and> map fst fs = map wrapper_addr us
    \<and> (case dl' of None \<Rightarrow> dl = None \<and> v \<notin> wrapper_addr ` set us
       | Some i \<Rightarrow> dl' = dl \<and> v \<notin> wrapper_addr ` set us \<or> length ws \<le> i \<and> i < length ws' \<and> wrapper_addr (ws' ! i) = v)"
  using assms
proof (induction dis arbitrary: s b ws dl fl)
  case Nil
  then show ?case by (auto split: option.splits)
next
  case (Cons di dis)
  let ?a = "diValidatorAddress di"
  obtain s1 b1 ws1 dl1 fl1 where 1: "redelegate_step S ep v (s, b, ws, dl, fl) di = Inr (s1, b1, ws1, dl1, fl1)"
    "go_fold (redelegate_step S ep v) (s1, b1, ws1, dl1, fl1) dis = Inr (s', b', ws', dl', fl')" using Cons.prems(6) by auto
  note st = redelegate_step_led [OF Cons.prems(1-3) 1(1)]
  have fresh: "?a \<notin> fst ` set fl" "?a \<notin> diValidatorAddress ` set dis" "distinct (map diValidatorAddress dis)"
    using Cons.prems(4,5) by auto
  show ?case
  proof (cases "b1 < b")
    case False
    then have e: "ws1 = ws" "dl1 = dl" "fl1 = fl" "b1 = b" "inv s1" "led s1 = led s" using st by auto
    have dj: "fst ` set fl \<inter> diValidatorAddress ` set dis = {}" using Cons.prems(5) by auto
    from Cons.IH [of s1 b1 fl1 ws1 dl1] e Cons.prems(2,3) fresh(3) dj 1(2)
    obtain us fs where "ws' = ws @ us" "fl' = fl @ fs" "inv s'" "led s' = led s" "0 \<le> b'" "b' \<le> b" "distinct (map wrapper_addr us)"
      "wrapper_addr ` set us \<subseteq> diValidatorAddress ` set dis" "\<forall>w\<in>set us. settled (led s) w \<and> valid_wrapper w"
      "sum_list (map wrapper_tokens us) = sum_list (map (\<lambda>w. held (led s) (wrapper_addr w)) us) - (b - b')"
      "sum_list (map snd fs) = b - b'" "map fst fs = map wrapper_addr us"
      "case dl' of None \<Rightarrow> dl = None \<and> v \<notin> wrapper_addr ` set us
       | Some i \<Rightarrow> dl' = dl \<and> v \<notin> wrapper_addr ` set us \<or> length ws \<le> i \<and> i < length ws' \<and> wrapper_addr (ws' ! i) = v" by auto
    then show ?thesis by (intro exI [of _ us] exI [of _ fs]) auto
  next
    case True
    then obtain w where w: "ws1 = ws @ [w]" "wrapper_addr w = ?a" "settled (led s) w" "valid_wrapper w"
      "wrapper_tokens w = held (led s) ?a - (b - b1)" "dl1 = (if ?a = v then Some (length ws) else dl)" "fl1 = fl @ [(?a, b - b1)]"
      "inv s1" "led s1 = led s" "0 \<le> b1" "b1 \<le> b" using st fresh(1) by (auto simp: update_new)
    have dj: "fst ` set fl1 \<inter> diValidatorAddress ` set dis = {}" using Cons.prems(5) w(7) fresh(2) by auto
    from Cons.IH [of s1 b1 fl1 ws1 dl1] w(8-10) Cons.prems(2) fresh(3) dj 1(2)
    obtain us fs where us: "ws' = ws1 @ us" "fl' = fl1 @ fs" "inv s'" "led s' = led s" "0 \<le> b'" "b' \<le> b1" "distinct (map wrapper_addr us)"
      "wrapper_addr ` set us \<subseteq> diValidatorAddress ` set dis" "\<forall>w\<in>set us. settled (led s) w \<and> valid_wrapper w"
      "sum_list (map wrapper_tokens us) = sum_list (map (\<lambda>w. held (led s) (wrapper_addr w)) us) - (b1 - b')"
      "sum_list (map snd fs) = b1 - b'" "map fst fs = map wrapper_addr us"
      and dl: "case dl' of None \<Rightarrow> dl1 = None \<and> v \<notin> wrapper_addr ` set us
       | Some i \<Rightarrow> dl' = dl1 \<and> v \<notin> wrapper_addr ` set us \<or> length ws1 \<le> i \<and> i < length ws' \<and> wrapper_addr (ws' ! i) = v" by auto
    have "?a \<notin> wrapper_addr ` set us" using us(8) fresh(2) by auto
    then have "case dl' of None \<Rightarrow> dl = None \<and> v \<notin> wrapper_addr ` set (w # us)
       | Some i \<Rightarrow> dl' = dl \<and> v \<notin> wrapper_addr ` set (w # us) \<or> length ws \<le> i \<and> i < length ws' \<and> wrapper_addr (ws' ! i) = v"
      using dl w(1,2,6) us(1) by (auto simp: nth_append split: option.splits if_splits)
    then show ?thesis using us w \<open>?a \<notin> wrapper_addr ` set us\<close>
      by (intro exI [of _ "w # us"] exI [of _ "(?a, b - b1) # fs"]) auto
  qed
qed

lemma VerifyAndDelegate_led:
  assumes inv: "inv s" "ledger_ok (led s)" and dis: "distinct (map diValidatorAddress dis)"
    and run: "VerifyAndDelegateFromMsg S (Some s) ep msg dis cfg = Inr (ws, bal, fl, s')"
  obtains amount where "dAmount msg = Some amount" "minimumDelegationV2 \<le> amount" "inv s'" "led s' = led s"
    "distinct (map wrapper_addr ws)" "\<forall>w\<in>set ws. delegated (led s) (dValidatorAddress msg) (dDelegatorAddress msg) amount w"
    "dValidatorAddress msg \<in> wrapper_addr ` set ws" "0 \<le> bal" "bal \<le> amount" "bal = 0 \<or> bal \<le> lBal (led s) (dDelegatorAddress msg)"
    "sum_list (map wrapper_tokens ws) = sum_list (map (\<lambda>w. held (led s) (wrapper_addr w)) ws) + bal"
    "sum_list (map snd fl) = amount - bal"
proof -
  let ?v = "dValidatorAddress msg" and ?a = "dDelegatorAddress msg"
  from run obtain amount s1 us dl fs s2 us2 i w b where amt: "dAmount msg = Some amount" "minimumDelegationV2 \<le> amount"
    and f: "(if IsRedelegation cfg (Some ep) then go_fold (redelegate_step S ep ?v) (s, amount, [], None, []) dis
       else Inr (s, amount, [], None, [])) = Inr (s1, b, us, dl, fs)"
    and sel: "(case dl of Some i \<Rightarrow> Inr (s1, us, i) | None \<Rightarrow> go_bind (vmValidatorWrapper S s1 ?v False True) (\<lambda>(p, db).
         go_bind (deref p) (\<lambda>w. Inr (db, us @ [w], length us)))) = Inr (s2, us2, i)"
    and ad: "add_delegation ?a amount (us2 ! i) = Inr w"
    and res: "ws = us2[i := w]" "fl = fs" "s' = s2" "bal = b" "b = 0 \<or> CanTransfer S s2 ?a b"
    by (auto simp: VerifyAndDelegateFromMsg_def minimumDelegation_def minimumDelegationV2_def oneAsBigInt_def Itc_def Let_def
        split: if_splits option.splits)
  have pos: "0 \<le> amount" using amt(2) by (simp add: minimumDelegationV2_def oneAsBigInt_def Itc_def)
  have r: "inv s1 \<and> led s1 = led s \<and> 0 \<le> b \<and> b \<le> amount \<and> distinct (map wrapper_addr us)
    \<and> (\<forall>w\<in>set us. settled (led s) w \<and> valid_wrapper w)
    \<and> sum_list (map wrapper_tokens us) = sum_list (map (\<lambda>w. held (led s) (wrapper_addr w)) us) - (amount - b)
    \<and> sum_list (map snd fs) = amount - b
    \<and> (case dl of None \<Rightarrow> ?v \<notin> wrapper_addr ` set us | Some i \<Rightarrow> i < length us \<and> wrapper_addr (us ! i) = ?v)"
  proof (cases "IsRedelegation cfg (Some ep)")
    case True
    then show ?thesis using redelegate_fold_led [OF inv pos dis, of "[]" ep ?v "[]" None s1 b us dl fs] f by (auto split: option.splits)
  next
    case False
    then show ?thesis using f inv pos by auto
  qed
  have q: "inv s2 \<and> led s2 = led s \<and> i < length us2 \<and> wrapper_addr (us2 ! i) = ?v \<and> distinct (map wrapper_addr us2)
    \<and> (\<forall>j < length us2. settled (led s) (us2 ! j) \<and> (j \<noteq> i \<longrightarrow> valid_wrapper (us2 ! j)))
    \<and> sum_list (map wrapper_tokens us2) = sum_list (map (\<lambda>w. held (led s) (wrapper_addr w)) us2) - (amount - b)"
  proof (cases dl)
    case (Some j)
    then show ?thesis using sel r by auto
  next
    case None
    then obtain w0 where g: "vmValidatorWrapper S s1 ?v False True = Inr (Some w0, s2)" "us2 = us @ [w0]" "i = length us"
      using sel by auto
    note l = get [OF conjunct1 [OF r] g(1)]
    have w0: "lWrap (led s) ?v = Some w0" and l2: "inv s2" "led s2 = led s" using l r by auto
    have h: "held (led s) ?v = wrapper_tokens w0" using w0 by (simp add: held_def)
    show ?thesis using settled_self [OF inv(2) w0] h l2 r g(2,3) None by (auto simp: nth_append)
  qed
  have i: "i < length us2" "wrapper_addr (us2 ! i) = ?v" "settled (led s) (us2 ! i)" using q by auto
  note d = add_delegation_delegated [OF i(3,2) ad pos]
  have others: "wrapper_addr (us2 ! j) \<noteq> ?v" if "j < length us2" "j \<noteq> i" for j
    using q that i nth_eq_iff_index_eq [of "map wrapper_addr us2" j i] by auto
  show thesis
  proof (rule that [OF amt])
    have "map wrapper_addr ws = map wrapper_addr us2" using res(1) d(3) i by (simp add: map_update list_update_same_conv)
    then show "distinct (map wrapper_addr ws)" using q by simp
    show "\<forall>w\<in>set ws. delegated (led s) ?v ?a amount w"
      using q d(1) others settled_delegated res(1) by (auto simp: in_set_conv_nth nth_list_update)
    have "w \<in> set ws" using set_update_memI [OF i(1), of w] res(1) by simp
    then show "?v \<in> wrapper_addr ` set ws" using d(3) by (metis imageI)
    have "sum_list (map wrapper_tokens ws) = sum_list (map wrapper_tokens us2) + amount"
      using res(1) i(1) d(2) by (simp add: sum_list_replace)
    then show "sum_list (map wrapper_tokens ws) = sum_list (map (\<lambda>w. held (led s) (wrapper_addr w)) ws) + bal"
      using q res(1,4) sum_list_held_replace [OF i(1), of w] d(3) i(2) by simp
    show "bal = 0 \<or> bal \<le> lBal (led s) ?a" using res(4,5) q balance [of s2 ?a] by (auto simp: CanTransfer_def)
  qed (use q r res in auto)
qed

lemma redelegation_logs_led:
  "inv s \<Longrightarrow> redelegation_logs keccak S ref a fl s = Inr s' \<Longrightarrow> inv s' \<and> led s' = led s"
  unfolding redelegation_logs_def
  by (rule go_fold_invariant [where I = "\<lambda>x. inv x \<and> led x = led s"]) (auto simp: log split: option.splits)

lemma DelegateFn_led:
  assumes inv: "inv s" "ledger_ok (led s)"
    and dis: "\<And>dis. ReadDelegationsByDelegatorAt chain (dDelegatorAddress msg) (hNumber ref - 1) = Inr dis \<Longrightarrow> distinct (map diValidatorAddress dis)"
    and run: "DelegateFn keccak S ref chain s msg = Inr s'"
  obtains amount ws bal where "inv s'" "dAmount msg = Some amount" "minimumDelegationV2 \<le> amount"
    "led s' = put_bal (dDelegatorAddress msg) (lBal (led s) (dDelegatorAddress msg) - bal) (put_wraps ws (led s))"
    "distinct (map wrapper_addr ws)" "\<forall>w\<in>set ws. delegated (led s) (dValidatorAddress msg) (dDelegatorAddress msg) amount w"
    "dValidatorAddress msg \<in> wrapper_addr ` set ws" "0 \<le> bal" "bal \<le> amount" "bal = 0 \<or> bal \<le> lBal (led s) (dDelegatorAddress msg)"
    "sum_list (map wrapper_tokens ws) = sum_list (map (\<lambda>w. held (led s) (wrapper_addr w)) ws) + bal"
proof -
  let ?a = "dDelegatorAddress msg"
  from run obtain ds ws bal fl s1 s2 where r: "ReadDelegationsByDelegatorAt chain ?a (hNumber ref - 1) = Inr ds"
    "VerifyAndDelegateFromMsg S (Some s) (hEpoch ref) msg ds (Config chain) = Inr (ws, bal, fl, s1)"
    "update_wrappers S s1 ws = Inr s2"
    "if length fl > 0 then redelegation_logs keccak S ref ?a fl (vmSubBalance S s2 ?a bal) = Inr s' else s' = vmSubBalance S s2 ?a bal"
    by (auto simp: DelegateFn_def Let_def split: if_splits)
  obtain amount where
    v: "dAmount msg = Some amount" "minimumDelegationV2 \<le> amount" "inv s1" "led s1 = led s" "distinct (map wrapper_addr ws)"
    "\<forall>w\<in>set ws. delegated (led s) (dValidatorAddress msg) ?a amount w" "dValidatorAddress msg \<in> wrapper_addr ` set ws"
    "0 \<le> bal" "bal \<le> amount" "bal = 0 \<or> bal \<le> lBal (led s) ?a"
    "sum_list (map wrapper_tokens ws) = sum_list (map (\<lambda>w. held (led s) (wrapper_addr w)) ws) + bal"
    "sum_list (map snd fl) = amount - bal" by (rule VerifyAndDelegate_led [OF inv dis [OF r(1)] r(2)])
  note u = update_wrappers_led [OF v(3) r(3)]
  have b: "inv (vmSubBalance S s2 ?a bal)" "led (vmSubBalance S s2 ?a bal) = put_bal ?a (lBal (led s) ?a - bal) (put_wraps ws (led s))"
    using sub [of s2 ?a bal] u v(4) by simp_all
  have "inv s' \<and> led s' = led (vmSubBalance S s2 ?a bal)"
    using r(4) redelegation_logs_led [OF b(1)] b(1) by (auto split: if_splits)
  then show thesis using that [of amount bal ws] v b(2) by simp
qed

lemma CollectRewardsFn_led:
  assumes inv: "inv s" "ledger_ok (led s)" and run: "CollectRewardsFn keccak S ref (Some chain) s msg = Inr s'"
    and dis: "\<And>dis. ReadDelegationsByDelegatorAt chain (crDelegatorAddress msg) (hNumber ref - 1) = Inr dis \<Longrightarrow> distinct (map diValidatorAddress dis)"
  obtains ds ws t where "inv s'" "ReadDelegationsByDelegatorAt chain (crDelegatorAddress msg) (hNumber ref - 1) = Inr ds"
    "led s' = put_bal (crDelegatorAddress msg) (lBal (led s) (crDelegatorAddress msg) + t) (put_wraps ws (led s))"
    "map wrapper_addr ws = map diValidatorAddress ds" "distinct (map wrapper_addr ws)"
    "\<forall>w\<in>set ws. settled (led s) w \<and> valid_wrapper w" "t = sum_list (map (reward_at (led s)) ds)"
    "sum_list (map wrapper_tokens ws) + t = sum_list (map (\<lambda>w. held (led s) (wrapper_addr w)) ws)" "0 \<le> t"
proof -
  let ?a = "crDelegatorAddress msg"
  from run obtain ds ws t s1 s2 l where r: "ReadDelegationsByDelegatorAt chain ?a (hNumber ref - 1) = Inr ds"
    "go_fold (collect_step S) (s, [], 0) ds = Inr (s1, ws, t)" "update_wrappers S s1 ws = Inr s2"
    "s' = vmAddLog S (vmAddBalance S s2 ?a t) l"
    by (auto simp: CollectRewardsFn_def VerifyAndCollectRewardsFromDelegation_def Let_def split: if_splits)
  from collect_fold_led [OF inv r(2)] have c: "inv s1" "led s1 = led s" "map wrapper_addr ws = map diValidatorAddress ds"
    "\<forall>w\<in>set ws. settled (led s) w" "sum_list (map wrapper_tokens ws) + t = sum_list (map (\<lambda>w. held (led s) (wrapper_addr w)) ws)"
    "t = sum_list (map (reward_at (led s)) ds)" "0 \<le> t" by auto
  note u = update_wrappers_led [OF c(1) r(3)]
  have b: "inv (vmAddBalance S s2 ?a t)" "led (vmAddBalance S s2 ?a t) = put_bal ?a (lBal (led s) ?a + t) (put_wraps ws (led s))"
    using add [of s2 ?a t] u c(2) by simp_all
  show thesis using that [of ds t ws] b log [OF b(1), of l] r(1,4) c u dis [OF r(1)] by auto
qed

end

section \<open>Invariants of staking transactions\<close>

definition banned_at :: "Ledger \<Rightarrow> Address \<Rightarrow> bool" where
  "banned_at L a \<longleftrightarrow> (\<exists>w. lWrap L a = Some w \<and> Status (theValidator w) = Banned)"

definition keeps :: "Ledger \<Rightarrow> Ledger \<Rightarrow> bool" where
  "keeps L L' \<longleftrightarrow> ledger_ok L' \<and> total_tokens L' = total_tokens L \<and> ((\<forall>a. 0 \<le> lBal L a) \<longrightarrow> (\<forall>a. 0 \<le> lBal L' a))
     \<and> (\<forall>a. lFlag L a \<longrightarrow> lFlag L' a) \<and> (\<forall>a. banned_at L a \<longrightarrow> banned_at L' a)"

lemma keeps_refl: "ledger_ok L \<Longrightarrow> keeps L L"
  by (simp add: keeps_def)

lemma keeps_trans: "keeps L L' \<Longrightarrow> keeps L' L'' \<Longrightarrow> keeps L L''"
  by (simp add: keeps_def)

lemma put_wraps_banned:
  assumes "distinct (map wrapper_addr ws)" "banned_at L a"
    "\<forall>w\<in>set ws. \<exists>w0. lWrap L (wrapper_addr w) = Some w0 \<and> theValidator w = theValidator w0"
  shows "banned_at (put_wraps ws L) a"
proof (cases "find (\<lambda>w. wrapper_addr w = a) ws")
  case None
  then show ?thesis using assms(2) put_wraps_at [OF assms(1), of L a] by (simp add: banned_at_def)
next
  case (Some w)
  then have "w \<in> set ws" "wrapper_addr w = a" by (auto simp: find_Some_iff)
  then show ?thesis using assms(2,3) Some put_wraps_at [OF assms(1), of L a] by (auto simp: banned_at_def)
qed

text \<open>No two validators share a BLS key.\<close>

definition keys_at :: "Ledger \<Rightarrow> Address \<Rightarrow> SerializedPublicKey set" where
  "keys_at L a = (case lWrap L a of None \<Rightarrow> {} | Some w \<Rightarrow> set (SlotPubKeys (theValidator w)))"

definition keys_unique :: "Ledger \<Rightarrow> bool" where
  "keys_unique L \<longleftrightarrow> (\<forall>a b. a \<noteq> b \<longrightarrow> keys_at L a \<inter> keys_at L b = {})"

lemma keys_at_put [simp]:
  "keys_at (put_wrap a w L) = (keys_at L)(a := set (SlotPubKeys (theValidator w)))"
  "keys_at (put_bal a x L) = keys_at L" "keys_at (put_flag a L) = keys_at L"
  by (simp_all add: keys_at_def fun_eq_iff)

lemma keys_unique_subset:
  assumes "keys_unique L" "\<And>a. keys_at L' a \<subseteq> keys_at L a"
  shows "keys_unique L'"
  unfolding keys_unique_def
proof (intro allI impI)
  fix a b :: Address
  assume "a \<noteq> b"
  then have "keys_at L a \<inter> keys_at L b = {}" using assms(1) by (simp add: keys_unique_def)
  then show "keys_at L' a \<inter> keys_at L' b = {}" using assms(2) [of a] assms(2) [of b] by auto
qed

lemma keys_at_put_wraps:
  assumes "distinct (map wrapper_addr ws)" "\<forall>w\<in>set ws. \<exists>w0. lWrap L (wrapper_addr w) = Some w0 \<and> theValidator w = theValidator w0"
  shows "keys_at (put_wraps ws L) a = keys_at L a"
proof (cases "find (\<lambda>w. wrapper_addr w = a) ws")
  case None
  then show ?thesis using put_wraps_at [OF assms(1), of L a] by (simp add: keys_at_def)
next
  case (Some w)
  then have "w \<in> set ws" "wrapper_addr w = a" by (auto simp: find_Some_iff)
  then show ?thesis using assms(2) Some put_wraps_at [OF assms(1), of L a] by (auto simp: keys_at_def)
qed

lemma keys_free_at:
  "keys_free L addrs v ks \<Longrightarrow> (\<And>a. lWrap L a \<noteq> None \<Longrightarrow> a \<in> set addrs) \<Longrightarrow> a \<noteq> v \<Longrightarrow> keys_at L a \<inter> set ks = {}"
  by (cases "lWrap L a") (auto simp: keys_free_def keys_at_def)

lemma keys_unique_put:
  assumes "keys_unique L" "\<And>b. b \<noteq> a \<Longrightarrow> keys_at L b \<inter> set (SlotPubKeys (theValidator w)) = {}"
  shows "keys_unique (put_wrap a w L)"
  using assms unfolding keys_unique_def keys_at_put by (auto simp: Int_commute)

lemma settled_ok: "settled L w \<Longrightarrow> valid_wrapper w \<Longrightarrow> wrapper_ok (wrapper_addr w) w"
  by (auto simp: settled_def wrapper_ok_def)

context vm_state
begin

lemma create_keeps:
  assumes "inv s" "ledger_ok (led s)" "CreateValidatorFn lib inst S ref chain s msg = Inr s'"
  shows "inv s' \<and> keeps (led s) (led s')"
proof -
  let ?a = "cvValidatorAddress msg"
  obtain w ch addrs where w: "inv s'" "led s' = put_bal ?a (lBal (led s) ?a - cvAmount msg) (put_flag ?a (put_wrap ?a w (led s)))"
    "\<not> lFlag (led s) ?a" "0 \<le> cvAmount msg" "cvAmount msg \<le> lBal (led s) ?a"
    "Delegations w = [NewDelegation ?a (cvAmount msg)]" "wrapper_addr w = ?a" "valid_wrapper w" "Status (theValidator w) = Active"
    "chain = Some ch" "ReadValidatorList ch = Inr addrs" "keys_free (led s) addrs ?a (SlotPubKeys (theValidator w))"
    by (rule CreateValidatorFn_led [OF assms(1,3)])
  have none: "lWrap (led s) ?a = None" using w(3) ledger_okD [OF assms(2), of ?a] by (cases "lWrap (led s) ?a") auto
  have ok: "wrapper_ok ?a w" using w(4,6,7,8) by (simp add: wrapper_ok_def NewDelegation_def valid_delegation_def valid_undelegations_def)
  have tok: "wrapper_tokens w = cvAmount msg" "held (led s) ?a = 0"
    using w(6) none by (simp_all add: wrapper_tokens_def held_def NewDelegation_def delegation_tokens_eq)
  have "ledger_ok (led s')" using assms(2) ok by (auto simp: w(2) ledger_ok_def)
  moreover have "total_tokens (led s') = total_tokens (led s)" by (simp add: w(2) token_simps tok)
  moreover have "banned_at (led s') a" if "banned_at (led s) a" for a using that none by (auto simp: w(2) banned_at_def)
  ultimately show ?thesis using w(1,5) by (auto simp: keeps_def w(2))
qed

lemma edit_keeps:
  assumes "inv s" "ledger_ok (led s)" "EditValidatorFn lib inst S ref chain s msg = Inr s'"
  shows "inv s' \<and> keeps (led s) (led s')"
proof -
  let ?a = "evValidatorAddress msg"
  obtain w0 w ch addrs where w: "inv s'" "lWrap (led s) ?a = Some w0" "led s' = put_wrap ?a w (led s)" "Delegations w = Delegations w0"
    "wrapper_addr w = ?a" "valid_wrapper w" "Status (theValidator w0) \<noteq> Banned" "lFlag (led s) ?a"
    "chain = Some ch" "ReadValidatorList ch = Inr addrs" "keys_free (led s) addrs ?a (set_option_list (SlotKeyToAdd msg))"
    "distinct (SlotPubKeys (theValidator w0)) \<longrightarrow> set (SlotPubKeys (theValidator w)) \<subseteq> set (SlotPubKeys (theValidator w0)) \<union> set_option (SlotKeyToAdd msg)"
    by (rule EditValidatorFn_led [OF assms(1,3)])
  have "wrapper_ok ?a w" using ledger_okD [OF assms(2) w(2)] w(4-6) by (simp add: wrapper_ok_def)
  then have "ledger_ok (led s')" using w(3,8) assms(2) ledger_ok_put_wrap by simp
  moreover have "total_tokens (led s') = total_tokens (led s)"
    using w(2-4) by (simp add: token_simps held_def wrapper_tokens_def)
  ultimately show ?thesis using w(1,2,7) by (auto simp: keeps_def w(3) banned_at_def)
qed

lemma undelegate_keeps:
  assumes "inv s" "ledger_ok (led s)" "UndelegateFn S ref s msg = Inr s'"
  shows "inv s' \<and> keeps (led s) (led s')"
proof -
  let ?a = "uValidatorAddress msg"
  obtain w0 w amt i d where w: "inv s'" "lWrap (led s) ?a = Some w0" "umAmount msg = Some amt" "0 < amt"
    "i < length (Delegations w0)" "DelegatorAddress (Delegations w0 ! i) = uDelegatorAddress msg"
    "Undelegate (Delegations w0 ! i) (hEpoch ref) amt = Inr d" "Delegations w = (Delegations w0)[i := d]"
    "led s' = put_wrap ?a w (led s)" "wrapper_ok ?a w"
    "Status (theValidator w) = Status (theValidator w0) \<or> Status (theValidator w0) = Active \<and> Status (theValidator w) = Inactive"
    "SlotPubKeys (theValidator w) = SlotPubKeys (theValidator w0)"
    by (rule UndelegateFn_led [OF assms])
  have "ledger_ok (led s')" using w(2,9,10) assms(2) ledger_ok_put_wrap ledger_okD by metis
  moreover have "wrapper_tokens w = wrapper_tokens w0"
    using w(5,7,8) by (simp add: wrapper_tokens_def sum_list_replace token_simps)
  then have "total_tokens (led s') = total_tokens (led s)" using w(2,9) by (simp add: token_simps held_def)
  ultimately show ?thesis using w(1,2,11) by (auto simp: keeps_def w(9) banned_at_def)
qed

lemma delegate_keeps:
  assumes "inv s" "ledger_ok (led s)"
    "\<And>dis. ReadDelegationsByDelegatorAt chain (dDelegatorAddress msg) (hNumber ref - 1) = Inr dis \<Longrightarrow> distinct (map diValidatorAddress dis)"
    "DelegateFn keccak S ref chain s msg = Inr s'"
  shows "inv s' \<and> keeps (led s) (led s')"
proof -
  let ?a = "dDelegatorAddress msg"
  obtain amount ws bal where w: "inv s'" "dAmount msg = Some amount" "minimumDelegationV2 \<le> amount"
    "led s' = put_bal ?a (lBal (led s) ?a - bal) (put_wraps ws (led s))"
    "distinct (map wrapper_addr ws)" "\<forall>w\<in>set ws. delegated (led s) (dValidatorAddress msg) ?a amount w"
    "dValidatorAddress msg \<in> wrapper_addr ` set ws" "0 \<le> bal" "bal \<le> amount" "bal = 0 \<or> bal \<le> lBal (led s) ?a"
    "sum_list (map wrapper_tokens ws) = sum_list (map (\<lambda>w. held (led s) (wrapper_addr w)) ws) + bal"
    by (rule DelegateFn_led [OF assms])
  have "\<forall>w\<in>set ws. wrapper_ok (wrapper_addr w) w \<and> lFlag (led s) (wrapper_addr w)"
    using w(6) assms(2) by (fastforce simp: delegated_def dest: ledger_okD)
  then have "ledger_ok (led s')" using put_wraps_ok [OF assms(2)] by (simp add: w(4))
  moreover have "total_tokens (led s') = total_tokens (led s)"
    using w(5,11) by (simp add: w(4) token_simps put_wraps_total)
  moreover have "banned_at (led s') a" if "banned_at (led s) a" for a
  proof -
    have "\<forall>w\<in>set ws. \<exists>w0. lWrap (led s) (wrapper_addr w) = Some w0 \<and> theValidator w = theValidator w0"
      using w(6) unfolding delegated_def by blast
    from put_wraps_banned [OF w(5) that this] show ?thesis by (simp add: w(4) banned_at_def)
  qed
  ultimately show ?thesis using w(1,10) by (auto simp: keeps_def w(4))
qed

lemma collect_keeps:
  assumes "inv s" "ledger_ok (led s)" "CollectRewardsFn keccak S ref (Some chain) s msg = Inr s'"
    "\<And>dis. ReadDelegationsByDelegatorAt chain (crDelegatorAddress msg) (hNumber ref - 1) = Inr dis \<Longrightarrow> distinct (map diValidatorAddress dis)"
  shows "inv s' \<and> keeps (led s) (led s')"
proof -
  let ?a = "crDelegatorAddress msg"
  obtain ds ws t where w: "inv s'" "ReadDelegationsByDelegatorAt chain ?a (hNumber ref - 1) = Inr ds"
    "led s' = put_bal ?a (lBal (led s) ?a + t) (put_wraps ws (led s))" "map wrapper_addr ws = map diValidatorAddress ds"
    "distinct (map wrapper_addr ws)" "\<forall>w\<in>set ws. settled (led s) w \<and> valid_wrapper w" "t = sum_list (map (reward_at (led s)) ds)"
    "sum_list (map wrapper_tokens ws) + t = sum_list (map (\<lambda>w. held (led s) (wrapper_addr w)) ws)" "0 \<le> t"
    by (rule CollectRewardsFn_led [OF assms])
  have "\<forall>w\<in>set ws. wrapper_ok (wrapper_addr w) w \<and> lFlag (led s) (wrapper_addr w)"
    using w(6) assms(2) by (fastforce simp: settled_def wrapper_ok_def dest: ledger_okD)
  then have "ledger_ok (led s')" using put_wraps_ok [OF assms(2)] by (simp add: w(3))
  moreover have "total_tokens (led s') = total_tokens (led s)"
    using w(5,8) by (simp add: w(3) token_simps put_wraps_total)
  moreover have "banned_at (led s') a" if "banned_at (led s) a" for a
  proof -
    have "\<forall>w\<in>set ws. \<exists>w0. lWrap (led s) (wrapper_addr w) = Some w0 \<and> theValidator w = theValidator w0"
      using w(6) unfolding settled_def by blast
    from put_wraps_banned [OF w(5) that this] show ?thesis by (simp add: w(3) banned_at_def)
  qed
  ultimately show ?thesis using w(1,9) by (auto simp: keeps_def w(3))
qed

lemma create_keys:
  assumes "inv s" "keys_unique (led s)" "CreateValidatorFn lib inst S ref (Some ch) s msg = Inr s'"
    "\<And>addrs a. ReadValidatorList ch = Inr addrs \<Longrightarrow> lWrap (led s) a \<noteq> None \<Longrightarrow> a \<in> set addrs"
  shows "keys_unique (led s')"
proof -
  let ?a = "cvValidatorAddress msg"
  obtain w c2 addrs where w: "led s' = put_bal ?a (lBal (led s) ?a - cvAmount msg) (put_flag ?a (put_wrap ?a w (led s)))"
    "Some ch = Some c2" "ReadValidatorList c2 = Inr addrs" "keys_free (led s) addrs ?a (SlotPubKeys (theValidator w))"
    using CreateValidatorFn_led [OF assms(1,3)] by metis
  have "keys_at (led s) b \<inter> set (SlotPubKeys (theValidator w)) = {}" if "b \<noteq> ?a" for b
    using keys_free_at [OF w(4) _ that] assms(4) w(2,3) by auto
  then have "keys_unique (put_wrap ?a w (led s))" using keys_unique_put [OF assms(2)] by blast
  then show ?thesis using w(1) by (simp add: keys_unique_def)
qed

lemma edit_keys:
  assumes "inv s" "ledger_ok (led s)" "keys_unique (led s)" "EditValidatorFn lib inst S ref (Some ch) s msg = Inr s'"
    "\<And>addrs a. ReadValidatorList ch = Inr addrs \<Longrightarrow> lWrap (led s) a \<noteq> None \<Longrightarrow> a \<in> set addrs"
  shows "keys_unique (led s')"
proof -
  let ?a = "evValidatorAddress msg"
  obtain w0 w c2 addrs where w: "lWrap (led s) ?a = Some w0" "led s' = put_wrap ?a w (led s)"
    "Some ch = Some c2" "ReadValidatorList c2 = Inr addrs" "keys_free (led s) addrs ?a (set_option_list (SlotKeyToAdd msg))"
    "distinct (SlotPubKeys (theValidator w0)) \<longrightarrow> set (SlotPubKeys (theValidator w)) \<subseteq> set (SlotPubKeys (theValidator w0)) \<union> set_option (SlotKeyToAdd msg)"
    by (rule EditValidatorFn_led [OF assms(1,4)])
  have old: "distinct (SlotPubKeys (theValidator w0))" "keys_at (led s) ?a = set (SlotPubKeys (theValidator w0))"
    using ledger_okD [OF assms(2) w(1)] w(1) by (auto simp: wrapper_ok_def valid_wrapper_def valid_validator_def keys_at_def)
  have add: "set_option (SlotKeyToAdd msg) = set (set_option_list (SlotKeyToAdd msg))"
    by (cases "SlotKeyToAdd msg") (simp_all add: set_option_list_def)
  have "keys_at (led s) b \<inter> set (SlotPubKeys (theValidator w)) = {}" if "b \<noteq> ?a" for b
  proof -
    have "keys_at (led s) b \<inter> keys_at (led s) ?a = {}" using assms(3) that by (simp add: keys_unique_def)
    moreover have "keys_at (led s) b \<inter> set_option (SlotKeyToAdd msg) = {}"
      using keys_free_at [OF w(5) _ that] assms(5) w(3,4) add by auto
    ultimately show ?thesis using w(6) old by auto
  qed
  then show ?thesis using keys_unique_put [OF assms(3)] w(2) by simp
qed

lemma undelegate_keys:
  assumes "inv s" "ledger_ok (led s)" "keys_unique (led s)" "UndelegateFn S ref s msg = Inr s'"
  shows "keys_unique (led s')"
proof -
  let ?a = "uValidatorAddress msg"
  obtain w0 w where w: "lWrap (led s) ?a = Some w0" "led s' = put_wrap ?a w (led s)"
    "SlotPubKeys (theValidator w) = SlotPubKeys (theValidator w0)" by (rule UndelegateFn_led [OF assms(1,2,4)])
  show ?thesis by (rule keys_unique_subset [OF assms(3)]) (use w in \<open>auto simp: keys_at_def split: if_splits\<close>)
qed

lemma delegate_keys:
  assumes "inv s" "ledger_ok (led s)" "keys_unique (led s)"
    "\<And>dis. ReadDelegationsByDelegatorAt chain (dDelegatorAddress msg) (hNumber ref - 1) = Inr dis \<Longrightarrow> distinct (map diValidatorAddress dis)"
    "DelegateFn keccak S ref chain s msg = Inr s'"
  shows "keys_unique (led s')"
proof -
  let ?a = "dDelegatorAddress msg"
  obtain amount ws bal where w: "led s' = put_bal ?a (lBal (led s) ?a - bal) (put_wraps ws (led s))"
    "distinct (map wrapper_addr ws)" "\<forall>w\<in>set ws. delegated (led s) (dValidatorAddress msg) ?a amount w"
    by (rule DelegateFn_led [OF assms(1,2,4,5)])
  have "\<forall>w\<in>set ws. \<exists>w0. lWrap (led s) (wrapper_addr w) = Some w0 \<and> theValidator w = theValidator w0"
    using w(3) unfolding delegated_def by blast
  from keys_at_put_wraps [OF w(2) this] show ?thesis using assms(3) by (simp add: keys_unique_def w(1))
qed

lemma collect_keys:
  assumes "inv s" "ledger_ok (led s)" "keys_unique (led s)" "CollectRewardsFn keccak S ref (Some chain) s msg = Inr s'"
    "\<And>dis. ReadDelegationsByDelegatorAt chain (crDelegatorAddress msg) (hNumber ref - 1) = Inr dis \<Longrightarrow> distinct (map diValidatorAddress dis)"
  shows "keys_unique (led s')"
proof -
  let ?a = "crDelegatorAddress msg"
  obtain ws t where w: "led s' = put_bal ?a (lBal (led s) ?a + t) (put_wraps ws (led s))" "distinct (map wrapper_addr ws)"
    "\<forall>w\<in>set ws. settled (led s) w \<and> valid_wrapper w" by (rule CollectRewardsFn_led [OF assms(1,2,4,5)])
  have "\<forall>w\<in>set ws. \<exists>w0. lWrap (led s) (wrapper_addr w) = Some w0 \<and> theValidator w = theValidator w0"
    using w(3) unfolding settled_def by blast
  from keys_at_put_wraps [OF w(2) this] show ?thesis using assms(3) by (simp add: keys_unique_def w(1))
qed

end


section \<open>What a delegation takes from locked tokens\<close>

definition redelegatable :: "Ledger \<Rightarrow> int \<Rightarrow> DelegationIndex \<Rightarrow> int" where
  "redelegatable L ep di = (case lWrap L (diValidatorAddress di) of
     None \<Rightarrow> 0 | Some w \<Rightarrow> undelegation_total (filter (\<lambda>u. uEpoch u < ep) (Undelegations (Delegations w ! unat (diIndex di)))))"

lemma undelegation_total_nonneg: "valid_undelegations us \<Longrightarrow> 0 \<le> undelegation_total (filter P us)"
  unfolding undelegation_total_def by (rule sum_list_nonneg) (fastforce simp: valid_undelegations_def)

context vm_state
begin

lemma redelegate_step_amount:
  assumes "inv s" "ledger_ok (led s)" "0 \<le> b" "redelegate_step S ep v (s, b, ws, dl, fl) di = Inr (s', b', ws', dl', fl')"
  shows "b' = max 0 (b - redelegatable (led s) ep di)" "0 \<le> redelegatable (led s) ep di"
proof -
  let ?i = "unat (diIndex di)" and ?a = "diValidatorAddress di"
  from assms(4) obtain p w0 rest where g: "vmValidatorWrapper S s ?a False True = Inr (p, s')" "p = Some w0" "?i < length (Delegations w0)"
    and u: "use_undelegations ep b (Undelegations (Delegations w0 ! ?i)) = (b', rest)"
    by (auto simp: redelegate_step_def Let_def split: if_splits prod.splits)
  have w0: "lWrap (led s) ?a = Some w0" using get [OF assms(1) g(1)] g(2) by simp
  have "valid_undelegations (Undelegations (Delegations w0 ! ?i))"
    using ledger_okD [OF assms(2) w0] g(3) by (auto simp: wrapper_ok_def valid_delegation_def)
  then show "b' = max 0 (b - redelegatable (led s) ep di)" "0 \<le> redelegatable (led s) ep di"
    using use_undelegations_amount [OF u assms(3)] undelegation_total_nonneg w0 by (simp_all add: redelegatable_def)
qed

lemma redelegate_fold_amount:
  assumes "inv s" "ledger_ok (led s)" "0 \<le> b" "go_fold (redelegate_step S ep v) (s, b, ws, dl, fl) dis = Inr (s', b', ws', dl', fl')"
  shows "b' = max 0 (b - sum_list (map (redelegatable (led s) ep) dis)) \<and> 0 \<le> sum_list (map (redelegatable (led s) ep) dis)"
  using assms
proof (induction dis arbitrary: s b ws dl fl)
  case Nil
  then show ?case by (simp add: max_def)
next
  case (Cons di dis)
  obtain s1 b1 ws1 dl1 fl1 where 1: "redelegate_step S ep v (s, b, ws, dl, fl) di = Inr (s1, b1, ws1, dl1, fl1)"
    "go_fold (redelegate_step S ep v) (s1, b1, ws1, dl1, fl1) dis = Inr (s', b', ws', dl', fl')" using Cons.prems(4) by auto
  note st = redelegate_step_led [OF Cons.prems(1-3) 1(1)] and am = redelegate_step_amount [OF Cons.prems(1-3) 1(1)]
  have "b' = max 0 (b1 - sum_list (map (redelegatable (led s) ep) dis)) \<and> 0 \<le> sum_list (map (redelegatable (led s) ep) dis)"
    using Cons.IH [OF _ _ _ 1(2)] st Cons.prems(2) by simp
  then show ?case using am by (auto simp: max_def)
qed

lemma DelegateFn_amount:
  assumes "inv s" "ledger_ok (led s)" "ReadDelegationsByDelegatorAt chain (dDelegatorAddress msg) (hNumber ref - 1) = Inr dis"
    "distinct (map diValidatorAddress dis)" "dAmount msg = Some amount" "DelegateFn keccak S ref chain s msg = Inr s'"
  shows "lBal (led s') = (lBal (led s))(dDelegatorAddress msg := lBal (led s) (dDelegatorAddress msg)
    - (if IsRedelegation (Config chain) (Some (hEpoch ref)) then max 0 (amount - sum_list (map (redelegatable (led s) (hEpoch ref)) dis)) else amount))"
proof -
  let ?a = "dDelegatorAddress msg" and ?v = "dValidatorAddress msg" and ?ep = "hEpoch ref"
  from assms(3,6) obtain ws bal fl s1 s2 where r:
    "VerifyAndDelegateFromMsg S (Some s) ?ep msg dis (Config chain) = Inr (ws, bal, fl, s1)"
    "update_wrappers S s1 ws = Inr s2"
    "if length fl > 0 then redelegation_logs keccak S ref ?a fl (vmSubBalance S s2 ?a bal) = Inr s' else s' = vmSubBalance S s2 ?a bal"
    by (auto simp: DelegateFn_def Let_def split: if_splits)
  from r(1) assms(5) obtain s0 us dl fs where f: "(if IsRedelegation (Config chain) (Some ?ep) then go_fold (redelegate_step S ?ep ?v) (s, amount, [], None, []) dis
       else Inr (s, amount, [], None, [])) = Inr (s0, bal, us, dl, fs)" and pos: "0 \<le> amount"
    by (auto simp: VerifyAndDelegateFromMsg_def sgn_if Let_def split: if_splits option.splits)
  have "bal = (if IsRedelegation (Config chain) (Some ?ep) then max 0 (amount - sum_list (map (redelegatable (led s) ?ep) dis)) else amount)"
    using f redelegate_fold_amount [OF assms(1,2) pos, of ?ep ?v "[]" None "[]" dis s0 bal us dl fs] by (auto split: if_splits)
  moreover obtain am where v: "inv s1" "led s1 = led s" using VerifyAndDelegate_led [OF assms(1,2,4) r(1)] by blast
  have u: "inv s2" "led s2 = put_wraps ws (led s)" using update_wrappers_led [OF v(1) r(2)] v(2) by auto
  have b: "inv (vmSubBalance S s2 ?a bal)" "lBal (led (vmSubBalance S s2 ?a bal)) = (lBal (led s))(?a := lBal (led s) ?a - bal)"
    using sub [OF u(1), of ?a bal] u(2) by simp_all
  have "led s' = led (vmSubBalance S s2 ?a bal)" using r(3) redelegation_logs_led [OF b(1)] by (auto split: if_splits)
  ultimately show ?thesis using b(2) by simp
qed

end

text \<open>The stake of a delegator with a validator, in the whole ledger.\<close>

definition staked_with :: "Ledger \<Rightarrow> Address \<Rightarrow> Address \<Rightarrow> int" where
  "staked_with L v a = (case lWrap L v of None \<Rightarrow> 0 | Some w \<Rightarrow> staked_in w a)"

lemma staked_with_put_wraps:
  assumes "distinct (map wrapper_addr ws)" "\<forall>w\<in>set ws. delegated L v a amount w" "v \<in> wrapper_addr ` set ws"
  shows "staked_with (put_wraps ws L) x b = staked_with L x b + (if x = v \<and> b = a then amount else 0)"
proof (cases "find (\<lambda>w. wrapper_addr w = x) ws")
  case None
  then have "x \<notin> wrapper_addr ` set ws" by (auto simp: find_None_iff)
  then show ?thesis using None put_wraps_at [OF assms(1), of L x] assms(3) by (auto simp: staked_with_def)
next
  case (Some w)
  then have "w \<in> set ws" "wrapper_addr w = x" by (auto simp: find_Some_iff)
  then show ?thesis using assms(2) Some put_wraps_at [OF assms(1), of L x] by (auto simp: staked_with_def delegated_def)
qed

section \<open>Runs of staking transactions\<close>

text \<open>The dispatch of \<open>StakingTransitionDb\<close>, which also checks that the sender signs for itself.\<close>

definition stake_call ::
  "('pk, 'sig) bls_lib \<Rightarrow> (int \<Rightarrow> 'pk Instance) \<Rightarrow> (bytes \<Rightarrow> Hash) \<Rightarrow> 's vmStateDB \<Rightarrow> Header \<Rightarrow> ChainContext \<Rightarrow>
     Address \<Rightarrow> 's \<Rightarrow> StakeMsg \<Rightarrow> 's go" where
  "stake_call lib inst keccak S ref chain sender db msg =
     (case msg of
        MsgCreate m \<Rightarrow> if sender \<noteq> cvValidatorAddress m then Inl (Error ''errInvalidSigner'')
                       else CreateValidatorFn lib inst S ref (Some chain) db m
      | MsgEdit m \<Rightarrow> if sender \<noteq> evValidatorAddress m then Inl (Error ''errInvalidSigner'')
                     else EditValidatorFn lib inst S ref (Some chain) db m
      | MsgDelegate m \<Rightarrow> if sender \<noteq> dDelegatorAddress m then Inl (Error ''errInvalidSigner'')
                         else DelegateFn keccak S ref chain db m
      | MsgUndelegate m \<Rightarrow> if sender \<noteq> uDelegatorAddress m then Inl (Error ''errInvalidSigner'')
                           else UndelegateFn S ref db m
      | MsgCollect m \<Rightarrow> if sender \<noteq> crDelegatorAddress m then Inl (Error ''errInvalidSigner'')
                        else CollectRewardsFn keccak S ref (Some chain) db m)"

text \<open>
  What the chain index promises: it lists a delegator's delegations once per validator, and the list
  of validators has every address that holds a wrapper.
\<close>

definition chain_ok :: "Ledger \<Rightarrow> ChainContext \<Rightarrow> bool" where
  "chain_ok L chain \<longleftrightarrow>
     (\<forall>a n dis. ReadDelegationsByDelegatorAt chain a n = Inr dis \<longrightarrow> distinct (map diValidatorAddress dis))
     \<and> (\<forall>addrs a. ReadValidatorList chain = Inr addrs \<longrightarrow> lWrap L a \<noteq> None \<longrightarrow> a \<in> set addrs)"

inductive staking_run ::
  "('pk, 'sig) bls_lib \<Rightarrow> (int \<Rightarrow> 'pk Instance) \<Rightarrow> (bytes \<Rightarrow> Hash) \<Rightarrow> backend \<Rightarrow> DB \<Rightarrow> DB \<Rightarrow> bool"
  for lib inst keccak B where
  start: "staking_run lib inst keccak B db db"
| stake: "staking_run lib inst keccak B db db1 \<Longrightarrow> chain_ok (ledger B db1) chain \<Longrightarrow>
    stake_call lib inst keccak (DB_ops B) ref chain sender db1 msg = Inr db2 \<Longrightarrow> staking_run lib inst keccak B db db2"

lemma stake_call_keeps:
  assumes inv: "db_inv B db" "ledger_ok (ledger B db)" and chain: "chain_ok (ledger B db) chain"
    and run: "stake_call lib inst keccak (DB_ops B) ref chain sender db msg = Inr db'"
  shows "db_inv B db' \<and> keeps (ledger B db) (ledger B db') \<and> (keys_unique (ledger B db) \<longrightarrow> keys_unique (ledger B db'))"
proof -
  have del: "\<And>a n dis. ReadDelegationsByDelegatorAt chain a n = Inr dis \<Longrightarrow> distinct (map diValidatorAddress dis)"
    and all: "\<And>addrs a. ReadValidatorList chain = Inr addrs \<Longrightarrow> lWrap (ledger B db) a \<noteq> None \<Longrightarrow> a \<in> set addrs"
    using chain by (auto simp: chain_ok_def)
  show ?thesis
  proof (cases msg)
    case (MsgCreate m)
    then have c: "CreateValidatorFn lib inst (DB_ops B) ref (Some chain) db m = Inr db'" using run by (auto simp: stake_call_def split: if_splits)
    show ?thesis using account_state.create_keeps [OF inv c] account_state.create_keys [OF inv(1) _ c all] by blast
  next
    case (MsgEdit m)
    then have c: "EditValidatorFn lib inst (DB_ops B) ref (Some chain) db m = Inr db'" using run by (auto simp: stake_call_def split: if_splits)
    show ?thesis using account_state.edit_keeps [OF inv c] account_state.edit_keys [OF inv _ c all] by blast
  next
    case (MsgDelegate m)
    then have c: "DelegateFn keccak (DB_ops B) ref chain db m = Inr db'" using run by (auto simp: stake_call_def split: if_splits)
    show ?thesis using account_state.delegate_keeps [OF inv del [of "dDelegatorAddress m" "hNumber ref - 1"] c]
      account_state.delegate_keys [OF inv _ del [of "dDelegatorAddress m" "hNumber ref - 1"] c] by blast
  next
    case (MsgUndelegate m)
    then have c: "UndelegateFn (DB_ops B) ref db m = Inr db'" using run by (auto simp: stake_call_def split: if_splits)
    show ?thesis using account_state.undelegate_keeps [OF inv c] account_state.undelegate_keys [OF inv _ c] by blast
  next
    case (MsgCollect m)
    then have c: "CollectRewardsFn keccak (DB_ops B) ref (Some chain) db m = Inr db'" using run by (auto simp: stake_call_def split: if_splits)
    show ?thesis using account_state.collect_keeps [OF inv c del [of "crDelegatorAddress m" "hNumber ref - 1"]]
      account_state.collect_keys [OF inv _ c del [of "crDelegatorAddress m" "hNumber ref - 1"]] by blast
  qed
qed

lemma staking_run_keeps:
  "staking_run lib inst keccak B db db' \<Longrightarrow> db_inv B db \<Longrightarrow> ledger_ok (ledger B db) \<Longrightarrow>
   db_inv B db' \<and> keeps (ledger B db) (ledger B db') \<and> (keys_unique (ledger B db) \<longrightarrow> keys_unique (ledger B db'))"
proof (induction rule: staking_run.induct)
  case (start db)
  then show ?case by (simp add: keeps_refl)
next
  case (stake db db1 chain ref sender msg db2)
  have 1: "db_inv B db1" "keeps (ledger B db) (ledger B db1)" "keys_unique (ledger B db) \<longrightarrow> keys_unique (ledger B db1)"
    using stake.IH [OF stake.prems] by auto
  have "ledger_ok (ledger B db1)" using 1(2) by (simp add: keeps_def)
  from stake_call_keeps [OF 1(1) this stake.hyps(2,3)] show ?case using 1(2,3) keeps_trans by blast
qed



text \<open>A state with one validator, its mark set, and a delegator.\<close>

definition sample_staking :: DB where
  "sample_staking = sample_db\<lparr>stateObjects :=
     [9 \<mapsto> (newObject 9 (emptyAccount sample_backend))\<lparr>dirtyStorage := [IsValidatorKey sample_backend \<mapsto> IsValidatorHash sample_backend]\<rparr>]\<rparr>"

definition sample_lib :: "(unit, unit) bls_lib" where
  "sample_lib = \<lparr>BytesToBLSPublicKey = (\<lambda>_. Inr ()), Sign_Deserialize = (\<lambda>_. Inr ()), VerifyHash = (\<lambda>_ _ _. True), Keccak256 = (\<lambda>_. 0)\<rparr>"

definition sample_chain :: ChainContext where
  "sample_chain = \<lparr>ReadDelegationsByDelegatorAt = (\<lambda>_ _. Inr [\<lparr>diValidatorAddress = 9, diIndex = 1, diBlockNum = 0\<rparr>]),
     ReadValidatorSnapshot = (\<lambda>_. Inr \<lparr>snapValidator = sample_wrapper, snapEpoch = 1\<rparr>), ReadValidatorList = Inr [9],
     Config = MainnetChainConfig\<rparr>"

lemma sample_code: "GetCode sample_backend sample_staking a = None"
  by (auto simp: read_live live_obj_def obj_at_def sample_staking_def sample_db_def New_def sample_backend_def newObject_def
      emptyAccount_def Object_Code_def EmptyCodeHash_def split: option.splits)

lemma sample_staking_ledger:
  "lWrap (ledger sample_backend sample_staking) a = (if a = 9 then Some sample_wrapper else None)"
  "lFlag (ledger sample_backend sample_staking) 9" "0 \<le> lBal (ledger sample_backend sample_staking) a"
proof -
  show "lWrap (ledger sample_backend sample_staking) a = (if a = 9 then Some sample_wrapper else None)"
    using sample_code [of a] by (simp add: ledger_def wrapper_at_eq) (simp add: sample_staking_def sample_db_def)
  have "live_obj sample_backend sample_staking 9 = Some ((newObject 9 (emptyAccount sample_backend))\<lparr>dirtyStorage := [IsValidatorKey sample_backend \<mapsto> IsValidatorHash sample_backend]\<rparr>)"
    by (simp add: live_obj_def obj_at_def sample_staking_def newObject_def)
  then show "lFlag (ledger sample_backend sample_staking) 9"
    using sample_trie_ok by (simp add: ledger_def read_live obj_view_def trie_ok_def)
  show "0 \<le> lBal (ledger sample_backend sample_staking) a"
    by (auto simp: ledger_def read_live live_obj_def obj_at_def sample_staking_def sample_db_def New_def newObject_def
        emptyAccount_def sample_backend_def split: option.splits if_splits)
qed

lemma sample_staking_ok:
  "db_inv sample_backend sample_staking" "ledger_ok (ledger sample_backend sample_staking)"
  "keys_unique (ledger sample_backend sample_staking)" "chain_ok (ledger sample_backend sample_staking) sample_chain"
proof -
  show "db_inv sample_backend sample_staking"
    using sample_db_inv by (simp add: sample_staking_def db_inv_def db_ok_def newObject_def)
  show "ledger_ok (ledger sample_backend sample_staking)"
    using sample_staking_ledger(1,2) sample_wrapper_valid sample_delegation_valid minimumStake_pos
    by (auto simp: ledger_ok_def wrapper_ok_def wrapper_addr_def sample_wrapper_def sample_validator_def NewDelegation_def
        valid_delegation_def valid_undelegations_def sample_delegation_def)
  show "keys_unique (ledger sample_backend sample_staking)"
    using sample_staking_ledger(1) by (simp add: keys_unique_def keys_at_def)
  show "chain_ok (ledger sample_backend sample_staking) sample_chain"
    using sample_staking_ledger(1) by (simp add: chain_ok_def sample_chain_def)
qed

lemma sample_undelegate:
  "\<exists>db'. stake_call sample_lib (\<lambda>_. sample_instance) (Keccak256Hash sample_backend) (DB_ops sample_backend) \<lparr>hEpoch = 8, hNumber = 100\<rparr> sample_chain
     (DelegatorAddress sample_delegation) sample_staking
     (MsgUndelegate \<lparr>uDelegatorAddress = DelegatorAddress sample_delegation, uValidatorAddress = 9, umAmount = Some 40\<rparr>) = Inr db'"
proof -
  let ?d = "sample_delegation\<lparr>Amount := 60, Undelegations := [\<lparr>uAmount = 10, uEpoch = 3\<rparr>, \<lparr>uAmount = 60, uEpoch = 8\<rparr>]\<rparr>"
  let ?w = "sample_wrapper\<lparr>Delegations := (Delegations sample_wrapper)[1 := ?d]\<rparr>"
  have u: "Undelegate sample_delegation 8 40 = Inr ?d" by (simp add: Undelegate_def sample_delegation_def)
  have w: "valid_wrapper ?w"
    using sample_wrapper_valid minimumStake_pos
    by (simp add: valid_wrapper_def enough_self_delegation_def TotalDelegation_sum sample_wrapper_def sample_delegation_def sample_validator_def NewDelegation_def)
  have "SanityCheck ?w = Inr ()" using w by (rule SanityCheck_iff [THEN iffD2])
  then have settle: "settle_self_delegation ?w = Inr ?w" by (simp add: settle_self_delegation_def)
  have cached: "stateValidators sample_staking 9 = Some (Some sample_wrapper)" by (simp add: sample_staking_def sample_db_def)
  obtain db' where up: "UpdateValidatorWrapperWithRevert sample_backend sample_staking 9 ?w = Inr db'"
    using sample_update [OF w cached] by blast
  have len: "length (Delegations sample_wrapper) = 2" "Delegations sample_wrapper ! 1 = sample_delegation" "DelegatorAddress (Delegations sample_wrapper ! 0) = 9"
    "vAddress (theValidator ?w) = 9" by (simp_all add: sample_wrapper_def sample_validator_def NewDelegation_def)
  have "find (\<lambda>i. DelegatorAddress (Delegations sample_wrapper ! i) = DelegatorAddress sample_delegation) [0..<2] = Some 1"
    using len by (simp add: upt_rec sample_delegation_def)
  then show ?thesis
    using sample_staking_ledger(2) cached u settle up len
    by (simp add: stake_call_def UndelegateFn_def VerifyAndUndelegateFromMsg_def IsValidator_flag ValidatorWrapper_get_def)
qed


end
