(* ===== verification/StakeEffects.thy ===== *)
theory StakeEffects
  imports Staking
begin

text \<open>
  What the single staking transactions do to the ledger, and when they go through: the effect of a
  delegation, an undelegation and a collection of rewards on stakes and balances. Progress is proved
  in the locale \<open>vm_store\<close>, for any state that stores the wrappers it can encode.
\<close>

section \<open>Undelegating goes through\<close>

lemma settle_total:
  assumes "valid_wrapper w" "i < length (Delegations w)" "Amount d \<le> Amount (Delegations w ! i)"
  shows "\<exists>w'. settle_self_delegation (w\<lparr>Delegations := (Delegations w)[i := d]\<rparr>) = Inr w' \<and> SanityCheck w' = Inr () \<and> wrapper_addr w' = wrapper_addr w"
proof -
  let ?w = "w\<lparr>Delegations := (Delegations w)[i := d]\<rparr>" and ?v = "theValidator w"
  have v: "valid_validator ?v" and tot: "TotalDelegation w \<le> the (MaxTotalDelegation ?v)" using assms(1) by (auto simp: valid_wrapper_def)
  have ne: "(Delegations w)[i := d] \<noteq> []" using assms(2) by auto
  have small: "TotalDelegation ?w \<le> the (MaxTotalDelegation ?v)"
    using tot assms(2,3) sum_list_replace [of i "Delegations w" Amount d] by (simp add: TotalDelegation_sum)
  show ?thesis
  proof (cases "enough_self_delegation ?w")
    case True
    then have "SanityCheck ?w = Inr ()" using v small by (simp add: SanityCheck_iff valid_wrapper_def)
    then show ?thesis by (simp add: settle_self_delegation_def)
  next
    case False
    then have s: "SanityCheck ?w = Inl (Error ''ErrInvalidSelfDelegation'')" using v ne by (simp add: SanityCheck_self_iff)
    have "valid_validator (?v\<lparr>Status := Inactive\<rparr>)" using v by (simp add: valid_validator_def)
    then have "SanityCheck (?w\<lparr>theValidator := ?v\<lparr>Status := Inactive\<rparr>\<rparr>) = Inr ()"
      using small ne by (simp add: SanityCheck_iff valid_wrapper_def enough_self_delegation_def TotalDelegation_sum)
    then show ?thesis using s by (simp add: settle_self_delegation_def wrapper_addr_def)
  qed
qed

context vm_store
begin

lemma UndelegateFn_total:
  assumes inv: "inv s" "ledger_ok (led s)" and enc: "\<And>w. can_encode w"
    and w0: "lWrap (led s) (uValidatorAddress msg) = Some w0" and amt: "umAmount msg = Some amt" "0 < amt"
    and i: "i < length (Delegations w0)" "DelegatorAddress (Delegations w0 ! i) = uDelegatorAddress msg" "amt \<le> Amount (Delegations w0 ! i)"
  shows "\<exists>s'. UndelegateFn S ref s msg = Inr s'"
proof -
  let ?a = "uValidatorAddress msg" and ?P = "\<lambda>i. DelegatorAddress (Delegations w0 ! i) = uDelegatorAddress msg"
  have ok: "lFlag (led s) ?a" "wrapper_ok ?a w0" using ledger_okD [OF inv(2) w0] by auto
  then have dist: "distinct (map DelegatorAddress (Delegations w0))" "valid_wrapper w0" "wrapper_addr w0 = ?a" by (auto simp: wrapper_ok_def)
  obtain s1 where g: "vmValidatorWrapper S s ?a False True = Inr (Some w0, s1)" using get_some [OF inv(1) w0, of False True] by auto
  have s1: "inv s1" "led s1 = led s" using get [OF inv(1) g] by auto
  have "find ?P [0..<length (Delegations w0)] \<noteq> None" using i by (auto simp: find_None_iff)
  then obtain j where f: "find ?P [0..<length (Delegations w0)] = Some j" by auto
  then have "j < length (Delegations w0)" "?P j" by (auto simp: find_Some_iff)
  then have j: "j = i" using dist(1) i by (simp add: distinct_conv_nth) metis
  obtain d where d: "Undelegate (Delegations w0 ! i) (hEpoch ref) amt = Inr d"
    using Undelegate_ok_iff [of "Delegations w0 ! i" "hEpoch ref" amt] amt(2) i(3) by (auto simp: is_ok_iff)
  have "Amount d \<le> Amount (Delegations w0 ! i)" using Undelegate_frame [OF d] by simp
  from settle_total [OF dist(2) i(1) this] obtain w where
    w: "settle_self_delegation (w0\<lparr>Delegations := (Delegations w0)[i := d]\<rparr>) = Inr w" "SanityCheck w = Inr ()" "wrapper_addr w = ?a"
    using dist(3) by auto
  obtain s2 where "vmUpdateValidatorWrapperWithRevert S s1 ?a w = Inr s2"
    using update_revert_ok [OF s1(1) _ w(2) enc, of ?a w0] w0 s1(2) by auto
  then show ?thesis using f g d w ok(1) flag [OF inv(1)] amt j
    by (simp add: UndelegateFn_def VerifyAndUndelegateFromMsg_def sgn_if wrapper_addr_def)
qed

end

text \<open>What a delegator has locked with a validator until an epoch.\<close>

definition locked_in :: "ValidatorWrapper \<Rightarrow> Address \<Rightarrow> int \<Rightarrow> int" where
  "locked_in w a e = sum_list (map (\<lambda>d. if DelegatorAddress d = a then locked_at (Undelegations d) e else 0) (Delegations w))"

definition locked_with :: "Ledger \<Rightarrow> Address \<Rightarrow> Address \<Rightarrow> int \<Rightarrow> int" where
  "locked_with L v a e = (case lWrap L v of None \<Rightarrow> 0 | Some w \<Rightarrow> locked_in w a e)"

lemma undelegated_amounts:
  assumes "i < length (Delegations w0)" "DelegatorAddress (Delegations w0 ! i) = a" "Undelegate (Delegations w0 ! i) ep amt = Inr d"
    "Delegations w = (Delegations w0)[i := d]"
  shows "staked_in w b = staked_in w0 b - (if b = a then amt else 0)"
    "locked_in w b e = locked_in w0 b e + (if b = a \<and> e = ep then amt else 0)"
  using assms(1,2,4) Undelegate_frame [OF assms(3)] Undelegate_effect(2) [OF assms(3), of e]
  by (auto simp: staked_in_def locked_in_def sum_list_replace)


lemma valid_wrapper_more:
  assumes "valid_wrapper w" "theValidator w' = theValidator w" "Delegations w' \<noteq> []" "Amount (hd (Delegations w)) \<le> Amount (hd (Delegations w'))"
    "TotalDelegation w' \<le> the (MaxTotalDelegation (theValidator w))"
  shows "valid_wrapper w'"
  using assms by (auto simp: valid_wrapper_def enough_self_delegation_def)

lemma valid_wrapper_replace:
  assumes "valid_wrapper w" "i < length (Delegations w)" "Amount (Delegations w ! i) \<le> Amount d"
    "TotalDelegation w + Amount d - Amount (Delegations w ! i) \<le> the (MaxTotalDelegation (theValidator w))"
  shows "valid_wrapper (w\<lparr>Delegations := (Delegations w)[i := d]\<rparr>)"
proof (rule valid_wrapper_more [OF assms(1)])
  show "Amount (hd (Delegations w)) \<le> Amount (hd (Delegations (w\<lparr>Delegations := (Delegations w)[i := d]\<rparr>)))" 
    using assms(2,3) by (cases "Delegations w"; cases i) auto
  show "TotalDelegation (w\<lparr>Delegations := (Delegations w)[i := d]\<rparr>) \<le> the (MaxTotalDelegation (theValidator w))"
    using assms(2,4) by (simp add: TotalDelegation_sum sum_list_replace)
qed (use assms(2) in auto)

section \<open>Collecting rewards\<close>

text \<open>The wrapper behind a delegation index after its reward was paid out.\<close>

definition paid_out :: "Ledger \<Rightarrow> DelegationIndex \<Rightarrow> ValidatorWrapper" where
  "paid_out L di = (let w = the (lWrap L (diValidatorAddress di)); i = unat (diIndex di)
     in w\<lparr>Delegations := (Delegations w)[i := (Delegations w ! i)\<lparr>Reward := 0\<rparr>]\<rparr>)"

definition indexed :: "Ledger \<Rightarrow> DelegationIndex \<Rightarrow> bool" where
  "indexed L di \<longleftrightarrow> (\<exists>w. lWrap L (diValidatorAddress di) = Some w \<and> unat (diIndex di) < length (Delegations w))"

lemma paid_out_ok:
  assumes "ledger_ok L" "indexed L di"
  shows "wrapper_addr (paid_out L di) = diValidatorAddress di" "SanityCheck (paid_out L di) = Inr ()"
    "staked_in (paid_out L di) = staked_in (the (lWrap L (diValidatorAddress di)))"
    "Reward (Delegations (paid_out L di) ! unat (diIndex di)) = 0" "0 \<le> reward_at L di"
proof -
  obtain w where w: "lWrap L (diValidatorAddress di) = Some w" "unat (diIndex di) < length (Delegations w)" using assms(2) by (auto simp: indexed_def)
  have ok: "wrapper_addr w = diValidatorAddress di" "valid_wrapper w" "valid_delegation (Delegations w ! unat (diIndex di))"
    using ledger_okD [OF assms(1) w(1)] w(2) by (auto simp: wrapper_ok_def)
  let ?i = "unat (diIndex di)"
  let ?d = "(Delegations w ! ?i)\<lparr>Reward := 0\<rparr>"
  show "wrapper_addr (paid_out L di) = diValidatorAddress di" using ok(1) w(1) by (simp add: paid_out_def Let_def)
  show "SanityCheck (paid_out L di) = Inr ()"
    using valid_wrapper_replace [OF ok(2) w(2), of ?d] ok(2) w(1) by (simp add: paid_out_def SanityCheck_iff valid_wrapper_def Let_def)
  show "staked_in (paid_out L di) = staked_in (the (lWrap L (diValidatorAddress di)))"
    using w by (simp add: paid_out_def staked_in_replace fun_eq_iff Let_def)
  show "Reward (Delegations (paid_out L di) ! ?i) = 0" using w by (simp add: paid_out_def Let_def)
  show "0 \<le> reward_at L di" using w(1) ok(3) by (simp add: reward_at_def valid_delegation_def)
qed

lemma unchanged_reward:
  fixes w :: ValidatorWrapper
  assumes "Reward (Delegations w ! i) = 0"
  shows "w\<lparr>Delegations := (Delegations w)[i := (Delegations w ! i)\<lparr>Reward := 0\<rparr>]\<rparr> = w"
proof -
  have "(Delegations w ! i)\<lparr>Reward := 0\<rparr> = Delegations w ! i" using assms by (cases "Delegations w ! i") simp
  then show ?thesis by (cases w) simp
qed

context vm_state
begin

lemma collect_fold_total:
  assumes "inv s" "ledger_ok (led s)" "\<forall>di\<in>set dis. indexed (led s) di"
  shows "\<exists>s'. go_fold (collect_step S) (s, ws, t) dis
       = Inr (s', ws @ map (paid_out (led s)) dis, t + sum_list (map (reward_at (led s)) dis)) \<and> inv s' \<and> led s' = led s"
  using assms
proof (induction dis arbitrary: s ws t)
  case (Cons di dis)
  obtain w where w: "lWrap (led s) (diValidatorAddress di) = Some w" "unat (diIndex di) < length (Delegations w)"
    using Cons.prems(3) by (auto simp: indexed_def)
  obtain s1 where g: "vmValidatorWrapper S s (diValidatorAddress di) False True = Inr (Some w, s1)"
    using get_some [OF Cons.prems(1) w(1), of False True] by auto
  have s1: "inv s1" "led s1 = led s" using get [OF Cons.prems(1) g] by auto
  let ?d = "Delegations w ! unat (diIndex di)"
  have "0 \<le> Reward ?d" using paid_out_ok(5) [OF Cons.prems(2), of di] Cons.prems(3) w(1) by (simp add: reward_at_def)
  moreover have "w\<lparr>Delegations := (Delegations w)[unat (diIndex di) := ?d\<lparr>Reward := 0\<rparr>]\<rparr> = w" if "Reward ?d = 0"
    using that by (simp add: unchanged_reward)
  ultimately have "collect_step S (s, ws, t) di = Inr (s1, ws @ [paid_out (led s) di], t + reward_at (led s) di)"
    using g w by (auto simp: collect_step_def paid_out_def reward_at_def not_less Let_def)
  moreover obtain s' where "go_fold (collect_step S) (s1, ws @ [paid_out (led s) di], t + reward_at (led s) di) dis
      = Inr (s', (ws @ [paid_out (led s) di]) @ map (paid_out (led s1)) dis, t + reward_at (led s) di + sum_list (map (reward_at (led s1)) dis))"
    "inv s'" "led s' = led s1"
    using Cons.IH [of s1 "ws @ [paid_out (led s) di]" "t + reward_at (led s) di"] s1 Cons.prems(2,3) by auto
  ultimately show ?case using s1(2) by (simp add: add.assoc)
qed simp

end

context vm_store
begin

lemma update_wrappers_total:
  assumes "inv s" "\<forall>w\<in>set ws. lWrap (led s) (wrapper_addr w) \<noteq> None \<and> SanityCheck w = Inr ()" "\<And>w. can_encode w"
  shows "\<exists>s'. update_wrappers S s ws = Inr s'"
  using assms(1,2)
proof (induction ws arbitrary: s)
  case (Cons w ws)
  obtain s1 where 1: "vmUpdateValidatorWrapperWithRevert S s (wrapper_addr w) w = Inr s1"
    using update_revert_ok [OF Cons.prems(1) _ _ assms(3)] Cons.prems(2) by fastforce
  have s1: "inv s1" "led s1 = put_wrap (wrapper_addr w) w (led s)" using update_revert [OF Cons.prems(1) 1] by auto
  have "\<forall>v\<in>set ws. lWrap (led s1) (wrapper_addr v) \<noteq> None \<and> SanityCheck v = Inr ()" using Cons.prems(2) s1(2) by auto
  from Cons.IH [OF s1(1) this] show ?case using 1 by (simp add: update_wrappers_def wrapper_addr_def)
qed (simp add: update_wrappers_def)

lemma CollectRewardsFn_total:
  assumes inv: "inv s" "ledger_ok (led s)" and enc: "\<And>w. can_encode w"
    and dis: "ReadDelegationsByDelegatorAt chain (crDelegatorAddress msg) (hNumber ref - 1) = Inr dis" "\<forall>di\<in>set dis. indexed (led s) di"
    and some: "Int64 (sum_list (map (reward_at (led s)) dis)) \<noteq> 0"
  shows "\<exists>s'. CollectRewardsFn keccak S ref (Some chain) s msg = Inr s'
    \<and> led s' = put_bal (crDelegatorAddress msg) (lBal (led s) (crDelegatorAddress msg) + sum_list (map (reward_at (led s)) dis))
         (put_wraps (map (paid_out (led s)) dis) (led s))"
proof -
  let ?a = "crDelegatorAddress msg" and ?t = "sum_list (map (reward_at (led s)) dis)" and ?ws = "map (paid_out (led s)) dis"
  obtain s1 where f: "go_fold (collect_step S) (s, [], 0) dis = Inr (s1, ?ws, ?t)" "inv s1" "led s1 = led s"
    using collect_fold_total [OF inv dis(2), of "[]" 0] by auto
  have "\<forall>w\<in>set ?ws. lWrap (led s1) (wrapper_addr w) \<noteq> None \<and> SanityCheck w = Inr ()"
    using paid_out_ok(1,2) [OF inv(2)] dis(2) f(3) by (auto simp: indexed_def)
  from update_wrappers_total [OF f(2) this enc] obtain s2 where u: "update_wrappers S s1 ?ws = Inr s2" by auto
  have s2: "inv s2" "led s2 = put_wraps ?ws (led s)" using update_wrappers_led [OF f(2) u] f(3) by auto
  have "CollectRewardsFn keccak S ref (Some chain) s msg
      = Inr (vmAddLog S (vmAddBalance S s2 ?a ?t) (staking_log ?a (CollectRewardsTopic keccak) (big_Bytes ?t) (hNumber ref)))"
    using dis(1) f(1) u some by (simp add: CollectRewardsFn_def VerifyAndCollectRewardsFromDelegation_def Let_def)
  then show ?thesis using add [OF s2(1), of ?a ?t] log s2 by simp
qed

end

lemma paid_out_reads:
  assumes "ledger_ok L" "\<forall>di\<in>set dis. indexed L di" "distinct (map diValidatorAddress dis)"
  shows "staked_with (put_wraps (map (paid_out L) dis) L) v b = staked_with L v b"
    "di \<in> set dis \<Longrightarrow> reward_at (put_wraps (map (paid_out L) dis) L) di = 0"
proof -
  have e: "map wrapper_addr (map (paid_out L) dis) = map diValidatorAddress dis" using paid_out_ok(1) [OF assms(1)] assms(2) by simp
  then have at: "lWrap (put_wraps (map (paid_out L) dis) L) a = (case find (\<lambda>w. wrapper_addr w = a) (map (paid_out L) dis) of Some w \<Rightarrow> Some w | None \<Rightarrow> lWrap L a)" for a
    using put_wraps_at assms(3) by metis
  show "staked_with (put_wraps (map (paid_out L) dis) L) v b = staked_with L v b"
  proof (cases "find (\<lambda>w. wrapper_addr w = v) (map (paid_out L) dis)")
    case (Some w)
    then obtain di where di: "di \<in> set dis" "w = paid_out L di" "wrapper_addr w = v" by (auto simp: find_Some_iff) (metis nth_mem)
    then have v: "diValidatorAddress di = v" using paid_out_ok(1) [OF assms(1)] assms(2) by auto
    obtain w0 where "lWrap L v = Some w0" using assms(2) di(1) v by (auto simp: indexed_def)
    then show ?thesis using at [of v] Some paid_out_ok(3) [OF assms(1), of di] assms(2) di v by (auto simp: staked_with_def)
  qed (simp add: staked_with_def at)
  assume di: "di \<in> set dis"
  have "find (\<lambda>w. wrapper_addr w = diValidatorAddress di) (map (paid_out L) dis) = Some (paid_out L di)"
  proof -
    obtain k where k: "k < length dis" "dis ! k = di" using di by (auto simp: in_set_conv_nth)
    have "wrapper_addr (paid_out L (dis ! j)) \<noteq> diValidatorAddress di" if "j < k" for j
      using that k assms paid_out_ok(1) [OF assms(1), of "dis ! j"] by (auto simp: distinct_conv_nth) 
    then show ?thesis using k paid_out_ok(1) [OF assms(1)] assms(2) di by (auto simp: find_Some_iff intro!: exI [of _ k])
  qed
  then show "reward_at (put_wraps (map (paid_out L) dis) L) di = 0"
    using at paid_out_ok(4) [OF assms(1)] assms(2) di by (simp add: reward_at_def)
qed


section \<open>Delegating goes through\<close>

lemma go_fold_idle: "\<forall>x\<in>set xs. f s x = Inr s \<Longrightarrow> go_fold f s xs = Inr s"
  by (induction xs) auto

lemma add_delegation_total:
  assumes "valid_wrapper w" "distinct (map DelegatorAddress (Delegations w))" "0 \<le> x"
    "TotalDelegation w + x \<le> the (MaxTotalDelegation (theValidator w))"
  shows "\<exists>w'. add_delegation a x w = Inr w'"
proof (cases "a \<in> DelegatorAddress ` set (Delegations w)")
  case False
  then have "go_fold (add_step a x) (False, w) [0..<length (Delegations w)] = Inr (False, w)"
    by (intro go_fold_idle) (auto simp: add_step_def)
  moreover have "valid_wrapper (w\<lparr>Delegations := Delegations w @ [NewDelegation a x]\<rparr>)"
    using assms(1,4) by (intro valid_wrapper_more [OF assms(1)]) (auto simp: TotalDelegation_sum NewDelegation_def valid_wrapper_def enough_self_delegation_def)
  ultimately show ?thesis by (simp add: add_delegation_def add_to_existing_def SanityCheck_iff Let_def)
next
  case True
  let ?ds = "Delegations w"
  obtain k where k: "k < length ?ds" "DelegatorAddress (?ds ! k) = a" using True by (auto simp: in_set_conv_nth)
  have other: "DelegatorAddress (?ds ! j) \<noteq> a" if "j < length ?ds" "j \<noteq> k" for j using assms(2) k that by (auto simp: distinct_conv_nth)
  let ?d = "(?ds ! k)\<lparr>Amount := Amount (?ds ! k) + x\<rparr>"
  let ?w = "w\<lparr>Delegations := ?ds[k := ?d]\<rparr>"
  have "valid_wrapper ?w" by (rule valid_wrapper_replace [OF assms(1) k(1)]) (use assms(3,4) in auto)
  then have s: "SanityCheck ?w = Inr ()" by (simp add: SanityCheck_iff)
  have 1: "go_fold (add_step a x) (False, w) [0..<k] = Inr (False, w)"
    using k(1) other by (intro go_fold_idle) (auto simp: add_step_def)
  have 2: "go_fold (add_step a x) (True, ?w) [Suc k..<length ?ds] = Inr (True, ?w)"
    using other by (intro go_fold_idle) (auto simp: add_step_def)
  have "[0..<length ?ds] = [0..<k] @ k # [Suc k..<length ?ds]" using k(1) upt_add_eq_append [of 0 k "length ?ds - k"] by (simp add: upt_conv_Cons)
  then have "add_to_existing a x w = Inr (True, ?w)" using 1 2 s k by (simp add: add_to_existing_def go_fold_append add_step_def Let_def)
  then show ?thesis by (simp add: add_delegation_def)
qed

lemma TotalDelegation_staked: "TotalDelegation w = (\<Sum>a\<in>UNIV. staked_in w a)"
proof -
  have "sum_list (map Amount ds) = (\<Sum>a\<in>UNIV. sum_list (map (\<lambda>d. if DelegatorAddress d = a then Amount d else 0) ds))" for ds :: "Delegation list"
    by (induction ds) (simp_all add: sum.distrib)
  then show ?thesis by (simp add: TotalDelegation_sum staked_in_def)
qed

text \<open>What the delegator pays from its balance: what the unlocked part of its undelegations does not cover.\<close>

definition payable :: "Ledger \<Rightarrow> ChainConfig \<Rightarrow> int \<Rightarrow> DelegationIndex list \<Rightarrow> int \<Rightarrow> int" where
  "payable L cfg ep dis amount =
     (if IsRedelegation cfg (Some ep) then max 0 (amount - sum_list (map (redelegatable L ep) dis)) else amount)"

context vm_store
begin

lemma redelegate_step_total:
  assumes "inv s" "ledger_ok (led s)" "indexed (led s) di"
  shows "\<exists>r. redelegate_step S ep v (s, b, ws, dl, fl) di = Inr r"
proof -
  let ?i = "unat (diIndex di)"
  obtain w where w: "lWrap (led s) (diValidatorAddress di) = Some w" "?i < length (Delegations w)" using assms(3) by (auto simp: indexed_def)
  obtain s1 where g: "vmValidatorWrapper S s (diValidatorAddress di) False True = Inr (Some w, s1)"
    using get_some [OF assms(1) w(1), of False True] by auto
  have "valid_wrapper w" using ledger_okD [OF assms(2) w(1)] by (simp add: wrapper_ok_def)
  then have "valid_wrapper (w\<lparr>Delegations := (Delegations w)[?i := (Delegations w ! ?i)\<lparr>Undelegations := us\<rparr>]\<rparr>)" for us
    using w(2) by (intro valid_wrapper_replace) (auto simp: valid_wrapper_def)
  then show ?thesis using g w(2) by (simp add: redelegate_step_def SanityCheck_iff Let_def split: prod.split)
qed

lemma redelegate_fold_total:
  assumes "inv s" "ledger_ok (led s)" "0 \<le> b" "\<forall>di\<in>set dis. indexed (led s) di"
  shows "\<exists>s' b' ws' dl' fl'. go_fold (redelegate_step S ep v) (s, b, ws, dl, fl) dis = Inr (s', b', ws', dl', fl')"
proof -
  let ?I = "\<lambda>(t, x :: int, _ :: ValidatorWrapper list, _ :: nat option, _ :: (Address \<times> int) list). inv t \<and> led t = led s \<and> 0 \<le> x"
  have "\<exists>r. go_fold (redelegate_step S ep v) (s, b, ws, dl, fl) dis = Inr r \<and> ?I r"
  proof (rule go_fold_total)
    fix r di
    assume I: "?I r" and di: "di \<in> set dis"
    obtain t x us d f where r: "r = (t, x, us, d, f)" by (cases r) auto
    obtain t' x' us' d' f' where step: "redelegate_step S ep v r di = Inr (t', x', us', d', f')"
      using redelegate_step_total [of t di ep v x us d f] I r assms(2,4) di by (auto simp: split_paired_Ex)
    have "inv t' \<and> led t' = led s \<and> 0 \<le> x'" using redelegate_step_led [of t x ep v us d f di] I assms(2) step r by (auto split: if_splits)
    then show "\<exists>r'. redelegate_step S ep v r di = Inr r' \<and> ?I r'" using step by simp
  qed (use assms in simp)
  then show ?thesis by auto
qed

lemma settled_total:
  assumes "settled L w" "lWrap L (wrapper_addr w) = Some w0"
  shows "TotalDelegation w = TotalDelegation w0" "theValidator w = theValidator w0"
  using assms by (auto simp: settled_def TotalDelegation_staked)

lemma VerifyAndDelegate_total:
  assumes inv: "inv s" "ledger_ok (led s)"
    and dis: "\<forall>di\<in>set dis. indexed (led s) di" "distinct (map diValidatorAddress dis)"
    and w0: "lWrap (led s) (dValidatorAddress msg) = Some w0" and amt: "dAmount msg = Some amount"
    and min: "minimumDelegation \<le> amount \<or> IsMinDelegation100 cfg (Some ep) \<and> minimumDelegationV2 \<le> amount"
    and max: "TotalDelegation w0 + amount \<le> the (MaxTotalDelegation (theValidator w0))"
    and bal: "payable (led s) cfg ep dis amount = 0 \<or> payable (led s) cfg ep dis amount \<le> lBal (led s) (dDelegatorAddress msg)"
  shows "\<exists>r. VerifyAndDelegateFromMsg S (Some s) ep msg dis cfg = Inr r"
proof -
  let ?v = "dValidatorAddress msg" and ?a = "dDelegatorAddress msg"
  have pos: "0 \<le> amount" using min by (auto simp: minimumDelegation_def minimumDelegationV2_def oneAsBigInt_def Itc_def)
  let ?fold = "if IsRedelegation cfg (Some ep) then go_fold (redelegate_step S ep ?v) (s, amount, [], None, []) dis else Inr (s, amount, [], None, [])"
  obtain s1 b us dl fs where f: "?fold = Inr (s1, b, us, dl, fs)"
    using redelegate_fold_total [OF inv pos dis(1), of ep ?v "[]" None "[]"] by (cases "IsRedelegation cfg (Some ep)") auto
  have b: "b = payable (led s) cfg ep dis amount"
    using f redelegate_fold_amount [OF inv pos, of ep ?v "[]" None "[]" dis s1 b us dl fs] by (auto simp: payable_def split: if_splits)
  have r: "inv s1 \<and> led s1 = led s \<and> (\<forall>w\<in>set us. settled (led s) w \<and> valid_wrapper w)
    \<and> (case dl of None \<Rightarrow> True | Some i \<Rightarrow> i < length us \<and> wrapper_addr (us ! i) = ?v)"
  proof (cases "IsRedelegation cfg (Some ep)")
    case True
    then show ?thesis using redelegate_fold_led [OF inv pos dis(2), of "[]" ep ?v "[]" None s1 b us dl fs] f by (auto split: option.splits)
  qed (use f inv in auto)
  define sel where "sel = (case dl of Some i \<Rightarrow> Inr (s1, us, i) | None \<Rightarrow> go_bind (vmValidatorWrapper S s1 ?v False True) (\<lambda>(p, db).
         go_bind (deref p) (\<lambda>w. Inr (db, us @ [w], length us))))"
  obtain s2 us2 i where se: "sel = Inr (s2, us2, i)" and q: "inv s2" "led s2 = led s" "settled (led s) (us2 ! i)" "valid_wrapper (us2 ! i)" "wrapper_addr (us2 ! i) = ?v"
  proof (cases dl)
    case (Some i)
    then show thesis using that [of s1 us i] r by (simp add: sel_def)
  next
    case None
    obtain s2 where g: "vmValidatorWrapper S s1 ?v False True = Inr (Some w0, s2)" using get_some [of s1 ?v w0 False True] r w0 by auto
    have "inv s2" "led s2 = led s" using get [OF _ g] r by auto
    moreover have "valid_wrapper w0" using ledger_okD [OF inv(2) w0] by (simp add: wrapper_ok_def)
    ultimately show thesis using that [of s2 "us @ [w0]" "length us"] g None settled_self [OF inv(2) w0] by (simp add: sel_def)
  qed
  have "TotalDelegation (us2 ! i) + amount \<le> the (MaxTotalDelegation (theValidator (us2 ! i)))"
    using settled_total [OF q(3), of w0] q(5) w0 max by simp
  then obtain w where w: "add_delegation ?a amount (us2 ! i) = Inr w" using add_delegation_total [OF q(4) _ pos] q(3) by (auto simp: settled_def)
  have can: "b = 0 \<or> CanTransfer S s2 ?a b" using bal b balance [OF q(1)] q(2) by (auto simp: CanTransfer_def)
  have "vmIsValidator S s ?v" using flag [OF inv(1)] ledger_okD [OF inv(2) w0] by simp
  moreover have "\<not> (amount < minimumDelegation \<and> IsMinDelegation100 cfg (Some ep) \<and> amount < minimumDelegationV2)"
    "\<not> (amount < minimumDelegation \<and> \<not> IsMinDelegation100 cfg (Some ep))" "sgn amount \<noteq> -1" using min pos by (auto simp: sgn_if)
  ultimately show ?thesis using f se w can amt unfolding sel_def by (simp add: VerifyAndDelegateFromMsg_def Let_def) blast
qed

lemma DelegateFn_total:
  assumes inv: "inv s" "ledger_ok (led s)" and enc: "\<And>w. can_encode w"
    and read: "ReadDelegationsByDelegatorAt chain (dDelegatorAddress msg) (hNumber ref - 1) = Inr dis"
    and dis: "\<forall>di\<in>set dis. indexed (led s) di" "distinct (map diValidatorAddress dis)"
    and w0: "lWrap (led s) (dValidatorAddress msg) = Some w0" "dAmount msg = Some amount"
      "minimumDelegation \<le> amount \<or> IsMinDelegation100 (Config chain) (Some (hEpoch ref)) \<and> minimumDelegationV2 \<le> amount"
      "TotalDelegation w0 + amount \<le> the (MaxTotalDelegation (theValidator w0))"
      "payable (led s) (Config chain) (hEpoch ref) dis amount = 0 \<or> payable (led s) (Config chain) (hEpoch ref) dis amount \<le> lBal (led s) (dDelegatorAddress msg)"
  shows "\<exists>s'. DelegateFn keccak S ref chain s msg = Inr s'"
proof -
  let ?a = "dDelegatorAddress msg"
  obtain ws bal fl s1 where v: "VerifyAndDelegateFromMsg S (Some s) (hEpoch ref) msg dis (Config chain) = Inr (ws, bal, fl, s1)"
    using VerifyAndDelegate_total [OF inv dis w0] by auto
  have l: "inv s1" "led s1 = led s" "\<forall>w\<in>set ws. delegated (led s) (dValidatorAddress msg) ?a amount w"
    using VerifyAndDelegate_led [OF inv dis(2) v] w0(2) by (metis option.inject)+
  have "\<forall>w\<in>set ws. lWrap (led s1) (wrapper_addr w) \<noteq> None \<and> SanityCheck w = Inr ()"
    using l(2,3) by (auto simp: delegated_def wrapper_ok_def SanityCheck_iff)
  from update_wrappers_total [OF l(1) this enc] obtain s2 where u: "update_wrappers S s1 ws = Inr s2" by auto
  have "\<exists>s'. redelegation_logs keccak S ref ?a fl t = Inr s' \<and> True" for t
    unfolding redelegation_logs_def by (rule go_fold_total) (auto split: option.split simp: map_of_eq_None_iff)
  then show ?thesis using read v u by (simp add: DelegateFn_def Let_def)
qed

end


section \<open>Concrete runs\<close>

lemma sample_encodable: "encodable sample_backend w"
  by (simp add: encodable_def is_ok_iff sample_backend_def)

lemma sample_reads:
  "lWrap (ledger sample_backend sample_staking) 9 = Some sample_wrapper"
  "Delegations sample_wrapper ! 1 = sample_delegation" "length (Delegations sample_wrapper) = 2" "DelegatorAddress sample_delegation = 7"
  "Amount sample_delegation = 100" "Reward sample_delegation = 5"
  using sample_staking_ledger(1) [of 9] by (simp_all add: sample_wrapper_def sample_delegation_def)

lemma sample_indexed:
  "indexed (ledger sample_backend sample_staking) \<lparr>diValidatorAddress = 9, diIndex = 1, diBlockNum = 0\<rparr>"
  "reward_at (ledger sample_backend sample_staking) \<lparr>diValidatorAddress = 9, diIndex = 1, diBlockNum = 0\<rparr> = 5"
  using sample_reads by (simp_all add: indexed_def reward_at_def)



text \<open>The same state after the delegator received tokens.\<close>

definition sample_funded :: DB where
  "sample_funded = AddBalance sample_backend sample_staking 7 (1000 * Itc)"

lemma sample_funded_ledger:
  "db_inv sample_backend sample_funded"
  "ledger sample_backend sample_funded = put_bal 7 (lBal (ledger sample_backend sample_staking) 7 + 1000 * Itc) (ledger sample_backend sample_staking)"
  using account_state.add [OF sample_staking_ok(1), of 7 "1000 * Itc"] by (simp_all add: sample_funded_def)


end
