(* ===== verification/Slash.thy ===== *)
theory Slash
  imports StakeEffects
begin

text \<open>
  Slashing of double signers (\<open>staking/slash/double-sign.go\<close>) and the commit payload it checks
  (\<open>consensus/signature/signature.go\<close>): the verification of a record, the debt of the validator and
  of its delegators, and the application to the state.

  The wrapper is the cached one, written through its pointer. The BLS library, the hash of a vote,
  the shard states and the validator snapshots are parameters.
\<close>

section \<open>Evidence\<close>

record Moment =
  mEpoch :: int
  mShardID :: uint32
  mHeight :: uint64
  mViewID :: uint64

record SlashVote =
  SignerPubKeys :: "SerializedPublicKey list"
  BlockHeaderHash :: Hash
  Signature :: bytes

record ConflictingVotes =
  FirstVote :: SlashVote
  SecondVote :: SlashVote

record Evidence =
  theMoment :: Moment
  theVotes :: ConflictingVotes
  Offender :: Address

record Record =
  theEvidence :: Evidence
  Reporter :: Address

record Application =
  TotalSlashed :: int
  TotalBeneficiaryReward :: int

record ('pk, 'sig) slash_env =
  sl_ops :: "'pk pk_ops"
  sl_key :: "SerializedPublicKey \<Rightarrow> 'pk go"
  sl_sig :: "bytes \<Rightarrow> 'sig go"
  sl_verify :: "'sig \<Rightarrow> 'pk \<Rightarrow> bytes \<Rightarrow> bool"
  sl_vote_hash :: "SlashVote \<Rightarrow> Hash"
  sl_config :: ChainConfig
  sl_current_epoch :: int
  ReadShardState :: "int \<Rightarrow> State go"

section \<open>Verification\<close>

definition bytes_le :: "nat \<Rightarrow> 'a::len word \<Rightarrow> bytes" where
  "bytes_le n w = map (\<lambda>i. ucast (drop_bit (8 * i) w)) [0..<n]"

definition ConstructCommitPayload :: "ChainConfig \<Rightarrow> int \<Rightarrow> Hash \<Rightarrow> uint64 \<Rightarrow> uint64 \<Rightarrow> bytes" where
  "ConstructCommitPayload config epoch blockHash blockNum viewID =
     (let commitPayload = bytes_le 8 blockNum @ bytes_be 32 blockHash
      in if \<not> IsStaking config (Some epoch) then commitPayload else commitPayload @ bytes_le 8 viewID)"

definition doubleSignKeys :: "SlashVote \<Rightarrow> SlashVote \<Rightarrow> SerializedPublicKey list" where
  "doubleSignKeys first second =
     filter (\<lambda>pubKey1. list_ex (\<lambda>pubKey2. CompareBLSPublicKey pubKey1 pubKey2 = 0) (SignerPubKeys second)) (SignerPubKeys first)"

text \<open>The loop that looks up the owners of the keys, with the flag whether the offender is among them.\<close>

definition signer_addresses :: "Committee \<Rightarrow> Address \<Rightarrow> SerializedPublicKey list \<Rightarrow> (bool \<times> Address list) go" where
  "signer_addresses subCommittee offender ks =
     go_fold (\<lambda>(signerFound, addrs) pubKey.
         go_bind (AddressForBLSKey (Some subCommittee) pubKey) (\<lambda>addr.
           Inr (signerFound \<or> addr = offender, addrs @ [addr]))) (False, []) ks"

definition verify_ballot :: "('pk, 'sig) slash_env \<Rightarrow> Moment \<Rightarrow> SlashVote \<Rightarrow> unit go" where
  "verify_ballot E m ballot =
     go_bind (sl_sig E (Signature ballot)) (\<lambda>signature.
     go_bind (go_fold (\<lambda>publicKey pubKey. go_bind (sl_key E pubKey) (\<lambda>k. Inr (pkAdd (sl_ops E) publicKey k)))
                (pkZero (sl_ops E)) (SignerPubKeys ballot)) (\<lambda>publicKey.
       if \<not> sl_verify E signature publicKey
              (ConstructCommitPayload (sl_config E) (mEpoch m) (BlockHeaderHash ballot) (mHeight m) (mViewID m))
       then Inl (Error ''errFailVerifySlash'') else Inr ()))"

definition Verify :: "('pk, 'sig) slash_env \<Rightarrow> backend \<Rightarrow> DB \<Rightarrow> Record \<Rightarrow> DB go" where
  "Verify E B db candidate =
     (let e = theEvidence candidate; m = theMoment e; first = FirstVote (theVotes e); second = SecondVote (theVotes e)
      in go_bind (ValidatorWrapper_get B db (Offender e) True False) (\<lambda>(p, db).
         if \<not> IsStaking (sl_config E) (Some (mEpoch m)) then Inl (Error ''errSlashBeforeStakingEpoch'')
         else
           go_bind (deref p) (\<lambda>wrapper.
           if Status (theValidator wrapper) = Banned then Inl (Error ''errAlreadyBannedValidator'')
           else if Offender e = Reporter candidate then Inl (Error ''errReporterAndOffenderSame'')
           else if BlockHeaderHash first = BlockHeaderHash second then Inl (Error ''errSlashBlockNoConflict'')
           else if length (doubleSignKeys first second) = 0 then Inl (Error ''errNoMatchingDoubleSignKeys'')
           else if mEpoch m > sl_current_epoch E then Inl (Error ''errSlashFromFutureEpoch'')
           else
             go_bind (ReadShardState E (mEpoch m)) (\<lambda>superCommittee.
             go_bind (FindCommitteeByID (Some superCommittee) (mShardID m)) (\<lambda>subCommittee.
             go_bind (signer_addresses subCommittee (Offender e) (doubleSignKeys first second)) (\<lambda>(signerFound, addrs).
             if length addrs > 1 then Inl (Error ''multiple double signer addresses found'')
             else if \<not> signerFound then Inl (Error ''offender address does not match the signer's address'')
             else if sl_vote_hash E first = sl_vote_hash E second then Inl (Error ''errBallotsNotDiff'')
             else
               go_bind (verify_ballot E m first) (\<lambda>_.
               go_bind (verify_ballot E m second) (\<lambda>_. Inr db))))))))"

section \<open>Application\<close>

definition applySlashRate :: "int \<Rightarrow> Dec \<Rightarrow> int go" where
  "applySlashRate amount rate = go_bind (Mul (NewDecFromBigInt amount) rate) (\<lambda>d. Inr (TruncateInt d))"

text \<open>\<open>payDown\<close> changes its three arguments: the balance, the debt and the total.\<close>

definition payDown :: "int \<Rightarrow> int \<Rightarrow> int \<Rightarrow> int \<times> int \<times> int" where
  "payDown balance debt total_slashed =
     (let slashAmount = (if balance < debt then balance else debt)
      in (balance - slashAmount, debt - slashAmount, total_slashed + slashAmount))"

fun pay_undelegations :: "int \<Rightarrow> Undelegations \<Rightarrow> int \<Rightarrow> int \<Rightarrow> Undelegations \<times> int \<times> int" where
  "pay_undelegations doubleSignEpoch [] debt slashed = ([], debt, slashed)"
| "pay_undelegations doubleSignEpoch (u # us) debt slashed =
     (if sgn debt = 0 then (u # us, debt, slashed)
      else
        (case (if uEpoch u \<ge> doubleSignEpoch then payDown (uAmount u) debt slashed else (uAmount u, debt, slashed)) of
           (amt, debt, slashed) \<Rightarrow>
             (case pay_undelegations doubleSignEpoch us debt slashed of
                (us, debt, slashed) \<Rightarrow> (u\<lparr>uAmount := amt\<rparr> # us, debt, slashed))))"

definition applySlashingToDelegation :: "Delegation \<Rightarrow> int \<Rightarrow> int \<Rightarrow> Delegation \<times> int" where
  "applySlashingToDelegation d doubleSignEpoch slashDebt =
     (case payDown (Amount d) slashDebt 0 of (amt, debt, slashed) \<Rightarrow>
     (case pay_undelegations doubleSignEpoch (Undelegations d) debt slashed of (us, debt, slashed) \<Rightarrow>
     (case (if sgn debt = 1 then payDown (Reward d) debt slashed else (Reward d, debt, slashed)) of (rew, debt, slashed) \<Rightarrow>
       (d\<lparr>Amount := amt, Undelegations := us, Reward := rew\<rparr>, slashed))))"

definition makeSlashList :: "ValidatorWrapper \<Rightarrow> ValidatorWrapper \<Rightarrow> (nat \<times> nat) list \<times> int" where
  "makeSlashList snapshot current =
     (let (slashDelegations, totalStake) =
            fold (\<lambda>(i, d) (m, t). (m(DelegatorAddress d \<mapsto> i), t + Amount d)) (enumerate 0 (Delegations snapshot)) (Map.empty, 0)
      in (List.map_filter (\<lambda>(i, d). map_option (\<lambda>old. (old, i)) (slashDelegations (DelegatorAddress d))) (enumerate 0 (Delegations current)),
          totalStake))"

text \<open>One turn of the loop over the delegators, on the wrapper and the total slashed.\<close>

definition slash_delegator ::
  "ValidatorWrapper \<Rightarrow> int \<Rightarrow> int \<Rightarrow> int \<Rightarrow> ValidatorWrapper \<times> int \<Rightarrow> nat \<times> nat \<Rightarrow> (ValidatorWrapper \<times> int) go" where
  "slash_delegator snapshot aggregateDebt totalExternalStake doubleSignEpoch = (\<lambda>(current, total_slashed) (snapshotIndex, currentIndex).
     if totalExternalStake = 0 then Inl (Panic ''division by zero'')
     else
       let slashDebt = ediv (Amount (Delegations snapshot ! snapshotIndex) * aggregateDebt) totalExternalStake
       in case applySlashingToDelegation (Delegations current ! currentIndex) doubleSignEpoch slashDebt of
            (d, slashed) \<Rightarrow> Inr (current\<lparr>Delegations := (Delegations current)[currentIndex := d]\<rparr>, total_slashed + slashed))"

text \<open>The part of \<open>delegatorSlashApplyDebt\<close> that works on the wrapper: the slashed wrapper and the amount.\<close>

definition slash_wrapper :: "ValidatorWrapper \<Rightarrow> ValidatorWrapper \<Rightarrow> int \<Rightarrow> int \<Rightarrow> (ValidatorWrapper \<times> int) go" where
  "slash_wrapper snapshot current validatorDebt doubleSignEpoch =
     (let (slashIndexPairs, totalStake) = makeSlashList snapshot current
      in if length (Delegations current) = 0 then Inl (Panic ''index out of range'')
         else
           let totalExternalStake = totalStake - Amount (Delegations current ! 0);
               (d, validatorSlashed) = applySlashingToDelegation (Delegations current ! 0) doubleSignEpoch validatorDebt;
               current = current\<lparr>Delegations := (Delegations current)[0 := d]\<rparr>
           in go_bind (go_bind (MustNewDecFromStr ''0.8'') (applySlashRate validatorSlashed)) (\<lambda>aggregateDebt.
              if length slashIndexPairs = 0 then Inl (Panic ''slice bounds out of range'')
              else
                go_bind (go_fold (slash_delegator snapshot aggregateDebt totalExternalStake doubleSignEpoch)
                           (current, validatorSlashed) (tl slashIndexPairs)) (\<lambda>(current, total_slashed).
                  let current = current\<lparr>theValidator := (theValidator current)\<lparr>Status := Banned\<rparr>\<rparr>
                  in go_bind (SanityCheck current) (\<lambda>_. Inr (current, total_slashed)))))"

definition delegatorSlashApplyDebt ::
  "backend \<Rightarrow> DB \<Rightarrow> Address \<Rightarrow> ValidatorWrapper \<Rightarrow> ValidatorWrapper \<Rightarrow> int \<Rightarrow> Address \<Rightarrow> int \<Rightarrow> Application \<Rightarrow> (DB \<times> Application) go" where
  "delegatorSlashApplyDebt B db offender snapshot current validatorDebt rewardBeneficiary doubleSignEpoch slashTrack =
     go_bind (slash_wrapper snapshot current validatorDebt doubleSignEpoch) (\<lambda>(current, total_slashed).
       let db = db\<lparr>stateValidators := (stateValidators db)(offender := Some (Some current))\<rparr>;
           db = (case UpdateValidatorWrapper B db (vAddress (theValidator current)) current of Inr db' \<Rightarrow> db' | Inl _ \<Rightarrow> db);
           beneficiaryReward = ediv total_slashed 2;
           db = AddBalance B db rewardBeneficiary beneficiaryReward
       in Inr (db, \<lparr>TotalSlashed = TotalSlashed slashTrack + total_slashed,
                    TotalBeneficiaryReward = TotalBeneficiaryReward slashTrack + beneficiaryReward\<rparr>))"

definition delegatorSlashApply ::
  "backend \<Rightarrow> DB \<Rightarrow> Address \<Rightarrow> ValidatorWrapper \<Rightarrow> ValidatorWrapper \<Rightarrow> Address \<Rightarrow> int \<Rightarrow> Application \<Rightarrow> (DB \<times> Application) go" where
  "delegatorSlashApply B db offender snapshot current rewardBeneficiary doubleSignEpoch slashTrack =
     (if length (Delegations snapshot) = 0 then Inl (Panic ''index out of range'')
      else delegatorSlashApplyDebt B db offender snapshot current (ediv (Amount (Delegations snapshot ! 0)) 2)
             rewardBeneficiary doubleSignEpoch slashTrack)"

definition apply_slash ::
  "backend \<Rightarrow> (int \<Rightarrow> Address \<Rightarrow> ValidatorSnapshot go) \<Rightarrow> Address \<Rightarrow> DB \<times> Application \<Rightarrow> Record \<Rightarrow> (DB \<times> Application) go" where
  "apply_slash B ReadValidatorSnapshotAtEpoch rewardBeneficiary = (\<lambda>(db, slashDiff) slash.
     let ep = mEpoch (theMoment (theEvidence slash)); offender = Offender (theEvidence slash)
     in case ReadValidatorSnapshotAtEpoch ep offender of
          Inl (Panic e) \<Rightarrow> Inl (Panic e)
        | Inl (Error _) \<Rightarrow> Inl (Error ''could not find validator'')
        | Inr snapshot \<Rightarrow>
            (case ValidatorWrapper_get B db offender True False of
               Inl (Panic e) \<Rightarrow> Inl (Panic e)
             | Inl (Error _) \<Rightarrow> Inl (Error ''errValidatorNotFoundDuringSlash'')
             | Inr (p, db) \<Rightarrow>
                 go_bind (deref p) (\<lambda>current.
                   delegatorSlashApply B db offender (snapValidator snapshot) current rewardBeneficiary ep slashDiff)))"

definition Slash_Apply ::
  "backend \<Rightarrow> (int \<Rightarrow> Address \<Rightarrow> ValidatorSnapshot go) \<Rightarrow> DB \<Rightarrow> Record list \<Rightarrow> Address \<Rightarrow> (DB \<times> Application) go" where
  "Slash_Apply B ReadValidatorSnapshotAtEpoch db slashes rewardBeneficiary =
     go_fold (apply_slash B ReadValidatorSnapshotAtEpoch rewardBeneficiary) (db, \<lparr>TotalSlashed = 0, TotalBeneficiaryReward = 0\<rparr>) slashes"

definition Records_SetDifference :: "(Record \<Rightarrow> Hash) \<Rightarrow> Record list \<Rightarrow> Record list \<Rightarrow> Record list" where
  "Records_SetDifference Record_Hash r ys =
     (let known = fold (\<lambda>x s. insert (Record_Hash x) s) r {}
      in filter (\<lambda>y. Record_Hash y \<notin> known) ys)"

definition IsBanned :: "ValidatorWrapper \<Rightarrow> bool" where
  "IsBanned wrapper \<longleftrightarrow> Status (theValidator wrapper) = Banned"

section \<open>Paying down a debt\<close>

lemma payDown_eq:
  assumes "0 \<le> b" "0 \<le> debt"
  shows "payDown b debt t = (b - min b debt, debt - min b debt, t + min b debt)"
  using assms by (auto simp: payDown_def Let_def)

lemma pay_undelegations_eq:
  assumes "\<forall>u\<in>set us. 0 \<le> uAmount u" "0 \<le> debt" "pay_undelegations e us debt t = (us', debt', t')"
  shows "map uEpoch us' = map uEpoch us \<and> (\<forall>u\<in>set us'. 0 \<le> uAmount u)
    \<and> debt' = debt - min debt (undelegation_total (filter (\<lambda>u. e \<le> uEpoch u) us))
    \<and> t' = t + (debt - debt') \<and> undelegation_total us' = undelegation_total us - (debt - debt')"
  using assms
proof (induction us arbitrary: us' debt t debt' t')
  case (Cons u us)
  have nonneg: "0 \<le> undelegation_total (filter (\<lambda>u. e \<le> uEpoch u) us)"
    unfolding undelegation_total_def using Cons.prems(1) by (intro sum_list_nonneg) auto
  show ?case
  proof (cases "debt = 0")
    case True
    then show ?thesis using Cons.prems(1,3) nonneg by (auto simp: min_def)
  next
    case False
    define pay where "pay = (if e \<le> uEpoch u then min (uAmount u) debt else 0)"
    have b: "0 \<le> pay" "pay \<le> debt" "pay \<le> uAmount u" using Cons.prems(1,2) by (auto simp: pay_def)
    have s: "(if e \<le> uEpoch u then payDown (uAmount u) debt t else (uAmount u, debt, t)) = (uAmount u - pay, debt - pay, t + pay)"
      using Cons.prems(1,2) by (simp add: pay_def payDown_eq)
    obtain vs d1 t1 where r: "pay_undelegations e us (debt - pay) (t + pay) = (vs, d1, t1)" by (metis prod_cases3)
    have e: "us' = u\<lparr>uAmount := uAmount u - pay\<rparr> # vs" "debt' = d1" "t' = t1"
      using Cons.prems(3) False r by (simp_all add: s sgn_eq_0_iff del: if_split)
    have IH: "map uEpoch vs = map uEpoch us \<and> (\<forall>u\<in>set vs. 0 \<le> uAmount u)
      \<and> d1 = debt - pay - min (debt - pay) (undelegation_total (filter (\<lambda>u. e \<le> uEpoch u) us))
      \<and> t1 = t + pay + (debt - pay - d1) \<and> undelegation_total vs = undelegation_total us - (debt - pay - d1)"
      using Cons.IH [OF _ _ r] Cons.prems(1) b(2) by simp
    have "d1 = debt - min debt (undelegation_total (filter (\<lambda>u. e \<le> uEpoch u) (u # us)))"
      using IH nonneg Cons.prems(1,2) by (auto simp: pay_def min_def)
    then show ?thesis using IH e b by simp
  qed
qed auto

text \<open>What of a delegation can be slashed for an offence of an epoch: the stake, the undelegations since and the reward.\<close>

definition slashable :: "int \<Rightarrow> Delegation \<Rightarrow> int" where
  "slashable e d = Amount d + undelegation_total (filter (\<lambda>u. e \<le> uEpoch u) (Undelegations d)) + Reward d"

lemma applySlashing_eq:
  assumes "valid_delegation d" "0 \<le> debt" "applySlashingToDelegation d e debt = (d', s)"
  shows "s = min debt (slashable e d)" "valid_delegation d'" "DelegatorAddress d' = DelegatorAddress d"
    "delegation_tokens d' = delegation_tokens d - s" "Amount d' = Amount d - min (Amount d) debt" "0 \<le> s"
proof -
  have v: "0 \<le> Amount d" "0 \<le> Reward d" "\<forall>u\<in>set (Undelegations d). 0 \<le> uAmount u"
    "sorted (map uEpoch (Undelegations d))" "distinct (map uEpoch (Undelegations d))"
    using assms(1) by (auto simp: valid_delegation_def valid_undelegations_def)
  let ?f = "undelegation_total (filter (\<lambda>u. e \<le> uEpoch u) (Undelegations d))"
  let ?debt = "debt - min (Amount d) debt"
  obtain us d1 t1 where p: "pay_undelegations e (Undelegations d) ?debt (min (Amount d) debt) = (us, d1, t1)" by (metis prod_cases3)
  have f: "0 \<le> ?f" unfolding undelegation_total_def using v(3) by (intro sum_list_nonneg) auto
  have u: "map uEpoch us = map uEpoch (Undelegations d)" "\<forall>u\<in>set us. 0 \<le> uAmount u" "d1 = ?debt - min ?debt ?f"
    "t1 = min (Amount d) debt + (?debt - d1)" "undelegation_total us = undelegation_total (Undelegations d) - (?debt - d1)"
    using pay_undelegations_eq [OF v(3) _ p] assms(2) by auto
  have d1: "0 \<le> d1" using u(3) by simp
  have "(if sgn d1 = 1 then payDown (Reward d) d1 t1 else (Reward d, d1, t1)) = (Reward d - min (Reward d) d1, d1 - min (Reward d) d1, t1 + min (Reward d) d1)"
    using v(2) d1 by (auto simp: sgn_if payDown_eq)
  then have e: "d' = d\<lparr>Amount := Amount d - min (Amount d) debt, Undelegations := us, Reward := Reward d - min (Reward d) d1\<rparr>" "s = t1 + min (Reward d) d1"
    using assms(3) v(1) assms(2) p by (auto simp: applySlashingToDelegation_def payDown_eq)
  show "s = min debt (slashable e d)" using e(2) u(3,4) f v(1,2) assms(2) by (auto simp: slashable_def min_def)
  then show "0 \<le> s" using assms(2) v(1,2) f by (simp add: slashable_def)
  show "valid_delegation d'" using e(1) u(1,2) v by (auto simp: valid_delegation_def valid_undelegations_def)
  show "DelegatorAddress d' = DelegatorAddress d" "Amount d' = Amount d - min (Amount d) debt" using e(1) by simp_all
  show "delegation_tokens d' = delegation_tokens d - s" using e u(4,5) by (simp add: delegation_tokens_eq)
qed

section \<open>Slashing a wrapper\<close>

lemma external_rate:
  assumes "0 \<le> a" "a < 2 ^ 190"
  shows "go_bind (MustNewDecFromStr ''0.8'') (applySlashRate a) = Inr (8 * a div 10)"
proof -
  have "NewDecFromStr ''0.8'' = Inr 800000000000000000"
    using read_literal [of "''0''" "''8''"] by (simp add: is_digit_def digits_val_def digit_val_def)
  moreover have "chopPrecisionAndRound (NewDecFromBigInt a * 800000000000000000) = a * 800000000000000000"
    using chop_round_exact [of "a * 800000000000000000"] by (simp add: NewDecFromBigInt_def NewDecFromBigIntWithPrec_def precisionReuse_def dec_eval algebra_simps)
  moreover have "fitsDec (a * 800000000000000000)" using assms by (simp add: fitsDec_iff)
  moreover have "quo (a * 800000000000000000) 1000000000000000000 = 8 * a div 10"
    using assms(1) div_mult_mult1 [of 100000000000000000 "8 * a" 10] by (simp add: quo_simps)
  ultimately show ?thesis
    by (simp add: MustNewDecFromStr_def applySlashRate_def Mul_def TruncateInt_def chopPrecisionAndTruncateNonMutative_def
        chopPrecisionAndTruncate_def dec_eval precisionReuse_def algebra_simps)
qed

definition shrinks :: "ValidatorWrapper \<Rightarrow> ValidatorWrapper \<Rightarrow> bool" where
  "shrinks w w' \<longleftrightarrow> theValidator w' = theValidator w \<and> map DelegatorAddress (Delegations w') = map DelegatorAddress (Delegations w)
     \<and> (\<forall>d\<in>set (Delegations w'). valid_delegation d) \<and> list_all2 (\<lambda>d d'. Amount d' \<le> Amount d) (Delegations w) (Delegations w')"

lemma shrinks_refl: "\<forall>d\<in>set (Delegations w). valid_delegation d \<Longrightarrow> shrinks w w"
  by (simp add: shrinks_def list_all2_refl)

lemma shrinks_trans: "shrinks w1 w2 \<Longrightarrow> shrinks w2 w3 \<Longrightarrow> shrinks w1 w3"
  unfolding shrinks_def by (auto elim: list_all2_trans [rotated])

lemma shrinks_total:
  assumes "shrinks w w'"
  shows "TotalDelegation w' \<le> TotalDelegation w" "length (Delegations w') = length (Delegations w)"
proof -
  have "list_all2 (\<lambda>d d'. Amount d' \<le> Amount d) (Delegations w) (Delegations w')" using assms by (simp add: shrinks_def)
  then have "sum_list (map Amount (Delegations w')) \<le> sum_list (map Amount (Delegations w)) \<and> length (Delegations w') = length (Delegations w)"
    by (induction rule: list_all2_induct) auto
  then show "TotalDelegation w' \<le> TotalDelegation w" "length (Delegations w') = length (Delegations w)" by (simp_all add: TotalDelegation_sum)
qed

lemma slash_one:
  assumes "\<forall>d\<in>set (Delegations w). valid_delegation d" "i < length (Delegations w)" "0 \<le> debt"
    "applySlashingToDelegation (Delegations w ! i) e debt = (d, s)"
  shows "shrinks w (w\<lparr>Delegations := (Delegations w)[i := d]\<rparr>)" "s = min debt (slashable e (Delegations w ! i))" "0 \<le> s"
    "wrapper_tokens (w\<lparr>Delegations := (Delegations w)[i := d]\<rparr>) = wrapper_tokens w - s"
proof -
  have v: "valid_delegation (Delegations w ! i)" using assms(1,2) by simp
  note a = applySlashing_eq [OF v assms(3,4)]
  have "Amount d \<le> Amount (Delegations w ! i)" using a(5) v assms(3) by (simp add: valid_delegation_def)
  then have "list_all2 (\<lambda>d d'. Amount d' \<le> Amount d) (Delegations w) ((Delegations w)[i := d])"
    using assms(2) by (auto simp: list_all2_conv_all_nth nth_list_update)
  moreover have "\<forall>x\<in>set ((Delegations w)[i := d]). valid_delegation x"
    using assms(1) a(2) by (auto dest: set_update_subset_insert [THEN subsetD])
  ultimately show "shrinks w (w\<lparr>Delegations := (Delegations w)[i := d]\<rparr>)"
    using assms(2) a(3) by (simp add: shrinks_def map_update list_update_same_conv)
  show "s = min debt (slashable e (Delegations w ! i))" "0 \<le> s" by (fact a)+
  show "wrapper_tokens (w\<lparr>Delegations := (Delegations w)[i := d]\<rparr>) = wrapper_tokens w - s" using assms(2) a(4) by (simp add: token_simps)
qed

lemma slash_fold:
  assumes "0 < ext" "0 \<le> agg" "distinct (map snd ps)" "\<forall>d\<in>set (Delegations w). valid_delegation d"
    "\<forall>(s, c)\<in>set ps. c < length (Delegations w) \<and> 0 \<le> Amount (Delegations snapshot ! s)"
  shows "\<exists>w' t'. go_fold (slash_delegator snapshot agg ext e) (w, t) ps = Inr (w', t') \<and> shrinks w w'
    \<and> t' = t + (\<Sum>(s, c)\<leftarrow>ps. min (Amount (Delegations snapshot ! s) * agg div ext) (slashable e (Delegations w ! c)))
    \<and> wrapper_tokens w' = wrapper_tokens w - (t' - t) \<and> t \<le> t'"
  using assms(3-5)
proof (induction ps arbitrary: w t)
  case Nil
  then show ?case by (simp add: shrinks_refl)
next
  case (Cons p ps)
  obtain s c where p: "p = (s, c)" by fastforce
  let ?debt = "Amount (Delegations snapshot ! s) * agg div ext"
  have debt: "0 \<le> ?debt" using Cons.prems(3) assms(1,2) p by (simp add: pos_imp_zdiv_nonneg_iff)
  obtain d x where a: "applySlashingToDelegation (Delegations w ! c) e ?debt = (d, x)" by fastforce
  have c: "c < length (Delegations w)" using Cons.prems(3) p by auto
  let ?w = "w\<lparr>Delegations := (Delegations w)[c := d]\<rparr>"
  note one = slash_one [OF Cons.prems(2) c debt a]
  have step: "slash_delegator snapshot agg ext e (w, t) p = Inr (?w, t + x)"
    using a assms(1) p by (simp add: slash_delegator_def ediv_pos)
  have same: "(\<Sum>(s, c)\<leftarrow>ps. min (Amount (Delegations snapshot ! s) * agg div ext) (slashable e (Delegations ?w ! c)))
      = (\<Sum>(s, c)\<leftarrow>ps. min (Amount (Delegations snapshot ! s) * agg div ext) (slashable e (Delegations w ! c)))"
    using Cons.prems(1) p by (intro arg_cong [where f = sum_list] map_cong) (auto simp: image_iff nth_list_update)
  have valid: "\<forall>d\<in>set (Delegations ?w). valid_delegation d" using one(1) by (simp add: shrinks_def)
  obtain w' t' where r: "go_fold (slash_delegator snapshot agg ext e) (?w, t + x) ps = Inr (w', t')" "shrinks ?w w'"
    "t' = t + x + (\<Sum>(s, c)\<leftarrow>ps. min (Amount (Delegations snapshot ! s) * agg div ext) (slashable e (Delegations ?w ! c)))"
    "wrapper_tokens w' = wrapper_tokens ?w - (t' - (t + x))" "t + x \<le> t'"
    using Cons.IH [OF _ valid, of "t + x"] Cons.prems(1,3) by auto
  show ?case using step r one same p by (auto intro: shrinks_trans)
qed

lemma slash_map_inv:
  "case fold (\<lambda>(i, d) (m, t). (m(DelegatorAddress d \<mapsto> i), t + Amount d)) (enumerate 0 ds) (Map.empty, 0) of (m, t) \<Rightarrow>
     t = sum_list (map Amount ds) \<and> (\<forall>a. m a \<noteq> None \<longleftrightarrow> a \<in> DelegatorAddress ` set ds)
     \<and> (\<forall>a i. m a = Some i \<longrightarrow> i < length ds \<and> DelegatorAddress (ds ! i) = a)"
proof (induction ds rule: rev_induct)
  case (snoc d ds)
  then show ?case by (auto simp: enumerate_append_eq nth_append split: prod.splits if_splits)
qed simp

lemma set_map_filter_iff: "y \<in> set (List.map_filter g xs) \<longleftrightarrow> (\<exists>x\<in>set xs. g x = Some y)"
  by (force simp: List.map_filter_def)

lemma makeSlashList_eq:
  assumes "makeSlashList snapshot current = (ps, t)"
  shows "t = TotalDelegation snapshot" "distinct (map snd ps)" "sorted_wrt (<) (map snd ps)"
    "set (map snd ps) = {i. i < length (Delegations current) \<and> DelegatorAddress (Delegations current ! i) \<in> DelegatorAddress ` set (Delegations snapshot)}"
    "\<forall>(s, c)\<in>set ps. s < length (Delegations snapshot) \<and> DelegatorAddress (Delegations snapshot ! s) = DelegatorAddress (Delegations current ! c)"
proof -
  obtain m x where f: "fold (\<lambda>(i, d) (m, t). (m(DelegatorAddress d \<mapsto> i), t + Amount d)) (enumerate 0 (Delegations snapshot)) (Map.empty, 0) = (m, x)"
    by fastforce
  note i = slash_map_inv [of "Delegations snapshot", unfolded f, simplified]
  let ?g = "\<lambda>(i, d). map_option (\<lambda>old. (old, i)) (m (DelegatorAddress d))"
  have ps: "ps = List.map_filter ?g (enumerate 0 (Delegations current))" "t = x" using assms f by (auto simp: makeSlashList_def)
  have snd: "map snd (List.map_filter ?g es) = map fst (filter (\<lambda>(i, d). m (DelegatorAddress d) \<noteq> None) es)" for es
    by (induction es) (auto simp: List.map_filter_def split: prod.splits)
  show "t = TotalDelegation snapshot" using ps(2) i by (simp add: TotalDelegation_sum)
  have e: "map fst (enumerate 0 (Delegations current)) = [0..<length (Delegations current)]" by simp
  have "sorted_wrt (<) (map fst (enumerate 0 (Delegations current)))" unfolding e by (rule sorted_wrt_upt)
  then show "sorted_wrt (<) (map snd ps)" unfolding ps(1) snd sorted_wrt_map by (rule sorted_wrt_filter)
  then show "distinct (map snd ps)" by (simp add: strict_sorted_iff)
  have "set (map snd ps) = fst ` {(i, d). (i, d) \<in> set (enumerate 0 (Delegations current)) \<and> DelegatorAddress d \<in> DelegatorAddress ` set (Delegations snapshot)}"
    unfolding ps(1) snd using i by auto
  also have "\<dots> = {i. i < length (Delegations current) \<and> DelegatorAddress (Delegations current ! i) \<in> DelegatorAddress ` set (Delegations snapshot)}"
    by (auto simp: in_set_enumerate_eq image_iff)
  finally show "set (map snd ps) = {i. i < length (Delegations current) \<and> DelegatorAddress (Delegations current ! i) \<in> DelegatorAddress ` set (Delegations snapshot)}" .
  show "\<forall>(s, c)\<in>set ps. s < length (Delegations snapshot) \<and> DelegatorAddress (Delegations snapshot ! s) = DelegatorAddress (Delegations current ! c)"
    unfolding ps(1) using i by (auto simp: in_set_enumerate_eq set_map_filter_iff)
qed

text \<open>
  When slashing works as meant: the snapshot and the current wrapper start with the validator's own
  delegation, and the current self stake is below the total stake of the snapshot, or nobody else
  of the snapshot still delegates.
\<close>

definition slash_pre :: "ValidatorWrapper \<Rightarrow> ValidatorWrapper \<Rightarrow> bool" where
  "slash_pre snapshot current \<longleftrightarrow>
     Delegations snapshot \<noteq> [] \<and> Delegations current \<noteq> []
     \<and> DelegatorAddress (hd (Delegations snapshot)) = DelegatorAddress (hd (Delegations current))
     \<and> distinct (map DelegatorAddress (Delegations snapshot))
     \<and> (\<forall>d\<in>set (Delegations snapshot). 0 \<le> Amount d) \<and> Amount (hd (Delegations snapshot)) < 2 ^ 190
     \<and> (Amount (hd (Delegations current)) < TotalDelegation snapshot
        \<or> DelegatorAddress ` set (Delegations snapshot) \<inter> DelegatorAddress ` set (tl (Delegations current)) = {})"

text \<open>The amounts: what the validator loses, and what each delegator of the snapshot loses.\<close>

definition self_loss :: "ValidatorWrapper \<Rightarrow> ValidatorWrapper \<Rightarrow> int \<Rightarrow> int" where
  "self_loss snapshot current e = min (Amount (hd (Delegations snapshot)) div 2) (slashable e (hd (Delegations current)))"

definition delegator_loss :: "ValidatorWrapper \<Rightarrow> ValidatorWrapper \<Rightarrow> int \<Rightarrow> nat \<times> nat \<Rightarrow> int" where
  "delegator_loss snapshot current e = (\<lambda>(s, c).
     min (Amount (Delegations snapshot ! s) * (8 * self_loss snapshot current e div 10) div (TotalDelegation snapshot - Amount (hd (Delegations current))))
         (slashable e (Delegations current ! c)))"

definition total_loss :: "ValidatorWrapper \<Rightarrow> ValidatorWrapper \<Rightarrow> int \<Rightarrow> int" where
  "total_loss snapshot current e =
     self_loss snapshot current e + sum_list (map (delegator_loss snapshot current e) (tl (fst (makeSlashList snapshot current))))"

lemma slash_pairs:
  assumes "slash_pre snapshot current" "distinct (map DelegatorAddress (Delegations current))" "makeSlashList snapshot current = (ps, t)"
  obtains qs where "ps = (0, 0) # qs" "\<forall>(s, c)\<in>set qs. 0 < c \<and> c < length (Delegations current) \<and> 0 < s \<and> s < length (Delegations snapshot)
      \<and> DelegatorAddress (Delegations snapshot ! s) = DelegatorAddress (Delegations current ! c)"
    "distinct (map snd qs)" "distinct (map fst qs)" "qs = [] \<or> Amount (hd (Delegations current)) < TotalDelegation snapshot"
proof -
  let ?S = "Delegations snapshot" and ?C = "Delegations current"
  note pre = assms(1) [unfolded slash_pre_def]
  note m = makeSlashList_eq [OF assms(3)]
  have h: "DelegatorAddress (?S ! 0) = DelegatorAddress (?C ! 0)" using pre hd_conv_nth [of ?S] hd_conv_nth [of ?C] by auto
  have C0: "0 < length ?C" using pre by auto
  have "DelegatorAddress (?C ! 0) \<in> DelegatorAddress ` set ?S" "0 < length ?C" using pre imageI [of "?S ! 0" "set ?S" DelegatorAddress] h by auto
  then have "0 \<in> set (map snd ps)" by (simp only: m(4) mem_Collect_eq conj_ac)
  then obtain p qs where ps: "ps = p # qs" by (cases ps) auto
  have "snd p = 0" using m(3) \<open>0 \<in> set (map snd ps)\<close> by (auto simp: ps)
  have in_ps: "s < length ?S \<and> c < length ?C \<and> DelegatorAddress (?S ! s) = DelegatorAddress (?C ! c)" if "(s, c) \<in> set ps" for s c
  proof -
    have "c \<in> set (map snd ps)" using that by force
    then show ?thesis using m(4,5) that by auto
  qed
  have inj: "s = s'" if "s < length ?S" "s' < length ?S" "DelegatorAddress (?S ! s) = DelegatorAddress (?S ! s')" for s s'
    using that pre by (auto simp: distinct_conv_nth)
  have injC: "c = c'" if "c < length ?C" "c' < length ?C" "DelegatorAddress (?C ! c) = DelegatorAddress (?C ! c')" for c c'
    using that assms(2) by (auto simp: distinct_conv_nth)
  have "fst p = 0" using in_ps [of "fst p" "snd p"] inj [of "fst p" 0] h pre \<open>snd p = 0\<close> by (cases p) (auto simp: ps)
  then have p: "p = (0, 0)" using \<open>snd p = 0\<close> by (cases p) simp
  have qs: "0 < c \<and> c < length ?C \<and> 0 < s \<and> s < length ?S \<and> DelegatorAddress (?S ! s) = DelegatorAddress (?C ! c)" if "(s, c) \<in> set qs" for s c
  proof -
    have "0 < c" using m(3) that ps p by force
    moreover have "s < length ?S \<and> c < length ?C \<and> DelegatorAddress (?S ! s) = DelegatorAddress (?C ! c)" using in_ps that by (auto simp: ps)
    moreover have "s \<noteq> 0"
    proof
      assume "s = 0"
      then have "c = 0" using calculation injC [of c 0] h C0 by auto
      then show False using calculation(1) by simp
    qed
    ultimately show ?thesis by simp
  qed
  have "inj_on fst (set qs)"
  proof (rule inj_onI)
    fix x y
    assume xy: "x \<in> set qs" "y \<in> set qs" "fst x = fst y"
    obtain s c c' where e: "x = (s, c)" "y = (s, c')" using xy(3) by (metis prod.collapse)
    have "c = c'" using qs [of s c] qs [of s c'] xy(1,2) by (intro injC) (auto simp: e)
    then show "x = y" by (simp add: e)
  qed
  then have df: "distinct (map fst qs)" using m(2) by (simp add: ps distinct_map)
  have last: "qs = [] \<or> Amount (hd ?C) < TotalDelegation snapshot"
  proof (cases qs)
    case (Cons q qs')
    obtain s c where q: "q = (s, c)" by fastforce
    then have 1: "0 < c" "c < length ?C" "s < length ?S" "DelegatorAddress (?S ! s) = DelegatorAddress (?C ! c)" using qs [of s c] Cons by auto
    have "?C ! c \<in> set (tl ?C)" using 1(1,2) by (cases ?C; cases c) auto
    then have "DelegatorAddress ` set ?S \<inter> DelegatorAddress ` set (tl ?C) \<noteq> {}" using 1(3,4) by (metis disjoint_iff imageI nth_mem)
    then show ?thesis using pre by blast
  qed simp
  show thesis using that [of qs] ps p qs df last m(2) by auto
qed

lemma slash_wrapper_total:
  assumes pre: "slash_pre snapshot current" and ok: "wrapper_ok a current"
  shows "\<exists>w. slash_wrapper snapshot current (ediv (Amount (Delegations snapshot ! 0)) 2) e = Inr (w, total_loss snapshot current e)
    \<and> wrapper_ok a w \<and> Status (theValidator w) = Banned \<and> SlotPubKeys (theValidator w) = SlotPubKeys (theValidator current)
    \<and> wrapper_tokens w = wrapper_tokens current - total_loss snapshot current e \<and> 0 \<le> total_loss snapshot current e
    \<and> list_all2 (\<lambda>d d'. Amount d' \<le> Amount d) (Delegations current) (Delegations w)
    \<and> map DelegatorAddress (Delegations w) = map DelegatorAddress (Delegations current)"
proof -
  let ?S = "Delegations snapshot" and ?C = "Delegations current"
  have o: "distinct (map DelegatorAddress ?C)" "\<forall>d\<in>set ?C. valid_delegation d" "valid_wrapper current" "wrapper_addr current = a"
    using ok by (auto simp: wrapper_ok_def)
  have nonneg: "\<forall>d\<in>set ?S. 0 \<le> Amount d" and ne: "?S \<noteq> []" "?C \<noteq> []" and small: "Amount (hd ?S) < 2 ^ 190"
    using pre by (auto simp: slash_pre_def)
  have hd: "hd ?S = ?S ! 0" "hd ?C = ?C ! 0" "?S ! 0 \<in> set ?S" using ne by (auto simp: hd_conv_nth)
  obtain ps t where m: "makeSlashList snapshot current = (ps, t)" by fastforce
  obtain qs where q: "ps = (0, 0) # qs" "\<forall>(s, c)\<in>set qs. 0 < c \<and> c < length ?C \<and> 0 < s \<and> s < length ?S \<and> DelegatorAddress (?S ! s) = DelegatorAddress (?C ! c)"
    "distinct (map snd qs)" "distinct (map fst qs)" "qs = [] \<or> Amount (hd ?C) < TotalDelegation snapshot"
    by (rule slash_pairs [OF pre o(1) m])
  have t: "t = TotalDelegation snapshot" using makeSlashList_eq(1) [OF m] .
  let ?debt = "ediv (Amount (?S ! 0)) 2" and ?ext = "TotalDelegation snapshot - Amount (?C ! 0)" and ?self = "self_loss snapshot current e"
  have debt: "?debt = Amount (hd ?S) div 2" "0 \<le> ?debt" using nonneg hd by (simp_all add: ediv_pos)
  obtain d x where a: "applySlashingToDelegation (?C ! 0) e ?debt = (d, x)" by fastforce
  let ?w = "current\<lparr>Delegations := ?C[0 := d]\<rparr>"
  have C: "0 < length ?C" using ne(2) by simp
  note one = slash_one [OF o(2) C debt(2) a]
  have x: "x = ?self" "0 \<le> ?self" using one(2,3) debt(1) hd by (simp_all add: self_loss_def)
  have "0 \<le> Amount (hd ?S)" using nonneg hd(1,3) by simp
  then have "Amount (hd ?S) div 2 \<le> Amount (hd ?S)" by linarith
  then have "x \<le> Amount (hd ?S)" using one(2) debt(1) by simp
  then have agg: "go_bind (MustNewDecFromStr ''0.8'') (applySlashRate x) = Inr (8 * ?self div 10)" using external_rate [of x] x small by simp
  have later: "(\<Sum>(s, c)\<leftarrow>qs. min (Amount (?S ! s) * (8 * ?self div 10) div ?ext) (slashable e (Delegations ?w ! c))) = sum_list (map (delegator_loss snapshot current e) qs)"
    using q(2) hd by (intro arg_cong [where f = sum_list] map_cong) (auto simp: delegator_loss_def)
  have "\<exists>w' t'. go_fold (slash_delegator snapshot (8 * ?self div 10) ?ext e) (?w, x) qs = Inr (w', t') \<and> shrinks ?w w'
      \<and> t' = x + sum_list (map (delegator_loss snapshot current e) qs) \<and> wrapper_tokens w' = wrapper_tokens ?w - (t' - x) \<and> x \<le> t'"
  proof (cases "qs = []")
    case True
    have "shrinks ?w ?w" using one(1) by (intro shrinks_refl) (simp add: shrinks_def)
    then show ?thesis using True by simp
  next
    case False
    then have "0 < ?ext" using q(5) hd by simp
    moreover have "\<forall>(s, c)\<in>set qs. c < length (Delegations ?w) \<and> 0 \<le> Amount (?S ! s)" using q(2) nonneg by auto
    ultimately show ?thesis using slash_fold [of ?ext "8 * ?self div 10" qs ?w snapshot e x] q(3) one(1) x later by (simp add: shrinks_def)
  qed
  then obtain w' where f: "go_fold (slash_delegator snapshot (8 * ?self div 10) ?ext e) (?w, x) qs = Inr (w', total_loss snapshot current e)"
    "shrinks current w'" "wrapper_tokens w' = wrapper_tokens current - total_loss snapshot current e" "0 \<le> total_loss snapshot current e"
    using one x shrinks_trans by (auto simp: total_loss_def m q(1))
  let ?b = "w'\<lparr>theValidator := (theValidator w')\<lparr>Status := Banned\<rparr>\<rparr>"
  have v: "valid_wrapper ?b"
    using shrinks_total [OF f(2)] o(3) f(2) ne(2) by (auto simp: valid_wrapper_def enough_self_delegation_def valid_validator_def shrinks_def TotalDelegation_sum)
  then have "slash_wrapper snapshot current ?debt e = Inr (?b, total_loss snapshot current e)"
    using m t q(1) a agg f(1) C by (simp add: slash_wrapper_def SanityCheck_iff Let_def) blast
  then show ?thesis using v f o by (intro exI [of _ ?b]) (auto simp: wrapper_ok_def shrinks_def wrapper_addr_def)
qed

section \<open>Applying slashes to the state\<close>

text \<open>A record that can be applied: its snapshot and the current wrapper of the offender fit.\<close>

definition slash_ready :: "(int \<Rightarrow> Address \<Rightarrow> ValidatorSnapshot go) \<Rightarrow> Ledger \<Rightarrow> Record \<Rightarrow> bool" where
  "slash_ready Read L r \<longleftrightarrow> (\<exists>snap w. Read (mEpoch (theMoment (theEvidence r))) (Offender (theEvidence r)) = Inr snap
     \<and> lWrap L (Offender (theEvidence r)) = Some w \<and> slash_pre (snapValidator snap) w)"

definition slash_loss :: "(int \<Rightarrow> Address \<Rightarrow> ValidatorSnapshot go) \<Rightarrow> Ledger \<Rightarrow> Record \<Rightarrow> int" where
  "slash_loss Read L r =
     (case (Read (mEpoch (theMoment (theEvidence r))) (Offender (theEvidence r)), lWrap L (Offender (theEvidence r))) of
        (Inr snap, Some w) \<Rightarrow> total_loss (snapValidator snap) w (mEpoch (theMoment (theEvidence r))) | _ \<Rightarrow> 0)"

lemma apply_slash_step:
  assumes inv: "db_inv B db" "ledger_ok (ledger B db)" and enc: "\<forall>w. encodable B w" and ready: "slash_ready Read (ledger B db) r"
  shows "\<exists>db' w w'. apply_slash B Read benef (db, app) r = Inr (db', \<lparr>TotalSlashed = TotalSlashed app + slash_loss Read (ledger B db) r,
        TotalBeneficiaryReward = TotalBeneficiaryReward app + slash_loss Read (ledger B db) r div 2\<rparr>)
    \<and> db_inv B db' \<and> lWrap (ledger B db) (Offender (theEvidence r)) = Some w
    \<and> ledger B db' = put_bal benef (lBal (ledger B db) benef + slash_loss Read (ledger B db) r div 2) (put_wrap (Offender (theEvidence r)) w' (ledger B db))
    \<and> wrapper_ok (Offender (theEvidence r)) w' \<and> Status (theValidator w') = Banned \<and> SlotPubKeys (theValidator w') = SlotPubKeys (theValidator w)
    \<and> wrapper_tokens w' = wrapper_tokens w - slash_loss Read (ledger B db) r \<and> 0 \<le> slash_loss Read (ledger B db) r
    \<and> list_all2 (\<lambda>d d'. Amount d' \<le> Amount d) (Delegations w) (Delegations w') \<and> map DelegatorAddress (Delegations w') = map DelegatorAddress (Delegations w)"
proof -
  let ?a = "Offender (theEvidence r)" and ?e = "mEpoch (theMoment (theEvidence r))" and ?L = "ledger B db"
  obtain snap w where p: "Read ?e ?a = Inr snap" "lWrap ?L ?a = Some w" "slash_pre (snapValidator snap) w" using ready by (auto simp: slash_ready_def)
  have loss: "slash_loss Read ?L r = total_loss (snapValidator snap) w ?e" using p by (simp add: slash_loss_def)
  have ok: "wrapper_ok ?a w" using ledger_okD [OF inv(2) p(2)] by simp
  obtain w' where w: "slash_wrapper (snapValidator snap) w (ediv (Amount (Delegations (snapValidator snap) ! 0)) 2) ?e = Inr (w', slash_loss Read ?L r)"
    "wrapper_ok ?a w'" "Status (theValidator w') = Banned" "SlotPubKeys (theValidator w') = SlotPubKeys (theValidator w)"
    "wrapper_tokens w' = wrapper_tokens w - slash_loss Read ?L r" "0 \<le> slash_loss Read ?L r"
    "list_all2 (\<lambda>d d'. Amount d' \<le> Amount d) (Delegations w) (Delegations w')" "map DelegatorAddress (Delegations w') = map DelegatorAddress (Delegations w)"
    using slash_wrapper_total [OF p(3) ok, of ?e] loss by auto
  obtain db1 where g: "ValidatorWrapper_get B db ?a True False = Inr (Some w, db1)" using ValidatorWrapper_get_some [OF inv(1) p(2), of True False] by auto
  have 1: "db_inv B db1" "ledger B db1 = ?L" using ValidatorWrapper_get_ledger [OF inv(1) g] by auto
  let ?db2 = "db1\<lparr>stateValidators := (stateValidators db1)(?a := Some (Some w'))\<rparr>"
  have 2: "db_inv B ?db2" "ledger B ?db2 = put_wrap ?a w' ?L" using cache_write_ledger [OF 1(1), of ?a w'] 1(2) by auto
  have v: "SanityCheck w' = Inr ()" "vAddress (theValidator w') = ?a" using w(2) by (auto simp: wrapper_ok_def SanityCheck_iff wrapper_addr_def)
  obtain by' where "encodeWrapper B w' = Inr by'" using enc by (auto simp: encodable_def is_ok_iff)
  then obtain db3 where u: "UpdateValidatorWrapper B ?db2 ?a w' = Inr db3"
    using v(1) by (simp add: UpdateValidatorWrapper_def Let_def)
  have 3: "db_inv B db3" "ledger B db3 = put_wrap ?a w' ?L"
    using UpdateValidatorWrapper_ledger [OF 2(1) u] 2(2) by (auto simp: put_wrap_def)
  have 4: "db_inv B (AddBalance B db3 benef (slash_loss Read ?L r div 2))"
    "ledger B (AddBalance B db3 benef (slash_loss Read ?L r div 2)) = put_bal benef (lBal ?L benef + slash_loss Read ?L r div 2) (put_wrap ?a w' ?L)"
    using account_state.add [OF 3(1), of benef "slash_loss Read ?L r div 2"] 3(2) by simp_all
  have "Delegations (snapValidator snap) \<noteq> []" using p(3) by (simp add: slash_pre_def)
  then have "apply_slash B Read benef (db, app) r = Inr (AddBalance B db3 benef (slash_loss Read ?L r div 2),
      \<lparr>TotalSlashed = TotalSlashed app + slash_loss Read ?L r, TotalBeneficiaryReward = TotalBeneficiaryReward app + slash_loss Read ?L r div 2\<rparr>)"
    using p(1) g w(1) u v(2) by (simp add: apply_slash_def delegatorSlashApply_def delegatorSlashApplyDebt_def ediv_pos Let_def)
  then show ?thesis using 4 p(2) w by blast
qed

lemma slash_pre_shrinks:
  assumes "slash_pre snapshot w" "list_all2 (\<lambda>d d'. Amount d' \<le> Amount d) (Delegations w) (Delegations w')"
    "map DelegatorAddress (Delegations w') = map DelegatorAddress (Delegations w)"
  shows "slash_pre snapshot w'"
proof -
  have ne: "Delegations w' \<noteq> []" "Delegations w \<noteq> []" using assms(1,3) by (auto simp: slash_pre_def)
  have hd: "DelegatorAddress (hd (Delegations w')) = DelegatorAddress (hd (Delegations w))" using assms(3) ne by (metis list.map_sel(1))
  have tl: "map DelegatorAddress (tl (Delegations w')) = map DelegatorAddress (tl (Delegations w))" using assms(3) by (metis map_tl)
  have "DelegatorAddress ` set (tl (Delegations w')) = DelegatorAddress ` set (tl (Delegations w))" using arg_cong [OF tl, of set] by simp
  moreover have "Amount (hd (Delegations w')) \<le> Amount (hd (Delegations w))" using assms(2) ne by (cases "Delegations w"; cases "Delegations w'") auto
  ultimately show ?thesis using assms(1) ne hd unfolding slash_pre_def by auto
qed

lemma slash_ready_step:
  assumes "slash_ready Read L r" "lWrap L a = Some w" "list_all2 (\<lambda>d d'. Amount d' \<le> Amount d) (Delegations w) (Delegations w')"
    "map DelegatorAddress (Delegations w') = map DelegatorAddress (Delegations w)"
  shows "slash_ready Read (put_bal b x (put_wrap a w' L)) r"
  using assms slash_pre_shrinks by (auto simp: slash_ready_def)

definition slashed_ledger :: "Address \<Rightarrow> Address set \<Rightarrow> int \<Rightarrow> int \<Rightarrow> Ledger \<Rightarrow> Ledger \<Rightarrow> bool" where
  "slashed_ledger benef offenders burnt paid_to L L' \<longleftrightarrow>
     ledger_ok L' \<and> total_tokens L' = total_tokens L - burnt + paid_to \<and> 0 \<le> paid_to \<and> 2 * paid_to \<le> burnt
     \<and> lBal L' = (lBal L)(benef := lBal L benef + paid_to) \<and> lFlag L' = lFlag L
     \<and> (\<forall>a\<in>offenders. banned_at L' a) \<and> (\<forall>a. a \<notin> offenders \<longrightarrow> lWrap L' a = lWrap L a)
     \<and> (\<forall>a. keys_at L' a = keys_at L a)"

lemma apply_slashes:
  assumes "db_inv B db" "ledger_ok (ledger B db)" "\<forall>w. encodable B w" "\<forall>r\<in>set slashes. slash_ready Read (ledger B db) r"
  shows "\<exists>db' app'. go_fold (apply_slash B Read benef) (db, app) slashes = Inr (db', app') \<and> db_inv B db'
    \<and> slashed_ledger benef ((Offender \<circ> theEvidence) ` set slashes) (TotalSlashed app' - TotalSlashed app)
         (TotalBeneficiaryReward app' - TotalBeneficiaryReward app) (ledger B db) (ledger B db')"
  using assms
proof (induction slashes arbitrary: db app)
  case Nil
  then show ?case by (simp add: slashed_ledger_def)
next
  case (Cons r rs)
  let ?a = "Offender (theEvidence r)" and ?x = "slash_loss Read (ledger B db) r"
  obtain db1 w w' where s: "apply_slash B Read benef (db, app) r = Inr (db1, \<lparr>TotalSlashed = TotalSlashed app + ?x, TotalBeneficiaryReward = TotalBeneficiaryReward app + ?x div 2\<rparr>)"
    "db_inv B db1" "lWrap (ledger B db) ?a = Some w" "ledger B db1 = put_bal benef (lBal (ledger B db) benef + ?x div 2) (put_wrap ?a w' (ledger B db))"
    "wrapper_ok ?a w'" "Status (theValidator w') = Banned" "SlotPubKeys (theValidator w') = SlotPubKeys (theValidator w)"
    "wrapper_tokens w' = wrapper_tokens w - ?x" "0 \<le> ?x" "list_all2 (\<lambda>d d'. Amount d' \<le> Amount d) (Delegations w) (Delegations w')"
    "map DelegatorAddress (Delegations w') = map DelegatorAddress (Delegations w)"
    using apply_slash_step [OF Cons.prems(1-3), of Read r benef app] Cons.prems(4) by auto
  have ok: "ledger_ok (ledger B db1)" using s(3-5) ledger_ok_put_wrap [OF Cons.prems(2)] ledger_okD [OF Cons.prems(2) s(3)] by simp
  have "\<forall>q\<in>set rs. slash_ready Read (ledger B db1) q" using Cons.prems(4) slash_ready_step [OF _ s(3,10,11)] by (simp add: s(4))
  from Cons.IH [OF s(2) ok Cons.prems(3) this] obtain db' app' where
    f: "go_fold (apply_slash B Read benef) (db1, \<lparr>TotalSlashed = TotalSlashed app + ?x, TotalBeneficiaryReward = TotalBeneficiaryReward app + ?x div 2\<rparr>) rs = Inr (db', app')" "db_inv B db'"
    "slashed_ledger benef ((Offender \<circ> theEvidence) ` set rs) (TotalSlashed app' - (TotalSlashed app + ?x))
         (TotalBeneficiaryReward app' - (TotalBeneficiaryReward app + ?x div 2)) (ledger B db1) (ledger B db')" by fastforce
  note l = f(3) [unfolded slashed_ledger_def]
  have tot: "total_tokens (ledger B db1) = total_tokens (ledger B db) - ?x + ?x div 2"
    using s(3,8) by (simp add: s(4) token_simps held_def)
  have keys: "keys_at (ledger B db1) b = keys_at (ledger B db) b" for b using s(3,7) by (simp add: s(4) keys_at_def)
  have ban: "banned_at (ledger B db1) ?a" using s(6) by (simp add: s(4) banned_at_def)
  have "banned_at (ledger B db') ?a"
  proof (cases "?a \<in> (Offender \<circ> theEvidence) ` set rs")
    case False
    then show ?thesis using l ban by (auto simp: banned_at_def)
  qed (use l in blast)
  moreover have "2 * (?x div 2) \<le> ?x" "0 \<le> ?x div 2" using s(9) by linarith+
  ultimately show ?case using s(1) f l tot keys by (auto simp: slashed_ledger_def s(4) fun_eq_iff)
qed


section \<open>How much a slash can take\<close>

lemma sum_div_le:
  fixes f :: "'a \<Rightarrow> int"
  assumes "0 < k"
  shows "(\<Sum>x\<leftarrow>xs. f x div k) \<le> (\<Sum>x\<leftarrow>xs. f x) div k"
proof (induction xs)
  case (Cons x xs)
  have "f x div k + (\<Sum>x\<leftarrow>xs. f x) div k \<le> (f x + (\<Sum>x\<leftarrow>xs. f x)) div k"
    using assms by (simp add: div_add1_eq [of "f x"] pos_imp_zdiv_nonneg_iff)
  then show ?case using Cons by simp
qed simp

lemma distinct_nth_sum_le:
  fixes g :: "'a \<Rightarrow> int"
  assumes "distinct is" "\<forall>i\<in>set is. 0 < i \<and> i < length xs" "\<forall>x\<in>set xs. 0 \<le> g x" "xs \<noteq> []"
  shows "(\<Sum>i\<leftarrow>is. g (xs ! i)) \<le> sum_list (map g xs) - g (xs ! 0)"
proof -
  have "(\<Sum>i\<leftarrow>is. g (xs ! i)) = (\<Sum>i\<in>set is. g (xs ! i))" using assms(1) by (simp add: sum_list_distinct_conv_sum_set)
  also have "\<dots> \<le> (\<Sum>i\<in>{0<..<length xs}. g (xs ! i))" using assms(2,3) by (intro sum_mono2) auto
  also have "\<dots> = (\<Sum>i<length xs. g (xs ! i)) - g (xs ! 0)"
  proof -
    have "{..<length xs} = insert 0 {0<..<length xs}" using assms(4) by auto
    then show ?thesis by simp
  qed
  also have "(\<Sum>i<length xs. g (xs ! i)) = sum_list (map g xs)" by (simp add: sum_list_sum_nth atLeast0LessThan)
  finally show ?thesis .
qed

lemma total_loss_le:
  assumes pre: "slash_pre snapshot current" and ok: "wrapper_ok a current" and same: "Amount (hd (Delegations current)) \<le> Amount (hd (Delegations snapshot))"
  shows "total_loss snapshot current e \<le> self_loss snapshot current e + 8 * self_loss snapshot current e div 10"
    "0 \<le> self_loss snapshot current e" "2 * self_loss snapshot current e \<le> Amount (hd (Delegations snapshot))"
proof -
  let ?S = "Delegations snapshot" and ?C = "Delegations current" and ?x = "self_loss snapshot current e"
  have nonneg: "\<forall>d\<in>set ?S. 0 \<le> Amount d" and ne: "?S \<noteq> []" "?C \<noteq> []" using pre by (auto simp: slash_pre_def)
  have "valid_delegation (hd ?C)" using ok ne(2) by (simp add: wrapper_ok_def)
  then have "0 \<le> slashable e (hd ?C)"
    using undelegation_total_nonneg [of "Undelegations (hd ?C)"] by (auto simp: slashable_def valid_delegation_def intro!: add_nonneg_nonneg)
  then show x: "0 \<le> ?x" using nonneg ne(1) by (simp add: self_loss_def)
  show "2 * ?x \<le> Amount (hd ?S)" by (simp add: self_loss_def min_def) linarith
  obtain ps t where m: "makeSlashList snapshot current = (ps, t)" by fastforce
  obtain qs where q: "ps = (0, 0) # qs" "\<forall>(s, c)\<in>set qs. 0 < c \<and> c < length ?C \<and> 0 < s \<and> s < length ?S \<and> DelegatorAddress (?S ! s) = DelegatorAddress (?C ! c)"
    "distinct (map snd qs)" "distinct (map fst qs)" "qs = [] \<or> Amount (hd ?C) < TotalDelegation snapshot"
    by (rule slash_pairs [OF pre _ m]) (use ok in \<open>simp add: wrapper_ok_def\<close>)
  show "total_loss snapshot current e \<le> ?x + 8 * ?x div 10"
  proof (cases "qs = []")
    case True
    then show ?thesis using x m q(1) by (simp add: total_loss_def)
  next
    case False
    define ext where "ext = TotalDelegation snapshot - Amount (hd ?C)"
    define agg where "agg = 8 * ?x div 10"
    have ext: "0 < ext" using q(5) False by (simp add: ext_def)
    have agg: "0 \<le> agg" using x by (simp add: agg_def)
    have "sum_list (map (delegator_loss snapshot current e) qs) \<le> (\<Sum>p\<leftarrow>qs. Amount (?S ! fst p) * agg div ext)"
      by (rule sum_list_mono) (auto simp: delegator_loss_def ext_def agg_def split: prod.splits)
    also have "\<dots> \<le> (\<Sum>p\<leftarrow>qs. Amount (?S ! fst p) * agg) div ext" by (rule sum_div_le [OF ext])
    also have "(\<Sum>p\<leftarrow>qs. Amount (?S ! fst p) * agg) = (\<Sum>i\<leftarrow>map fst qs. Amount (?S ! i)) * agg" by (simp add: sum_list_mult_const comp_def)
    also have "\<dots> div ext \<le> ext * agg div ext"
    proof (rule zdiv_mono1 [OF mult_right_mono [OF _ agg] ext])
      have "(\<Sum>i\<leftarrow>map fst qs. Amount (?S ! i)) \<le> TotalDelegation snapshot - Amount (?S ! 0)"
        unfolding TotalDelegation_sum by (rule distinct_nth_sum_le [OF q(4) _ nonneg ne(1)]) (use q(2) in fastforce)
      then show "(\<Sum>i\<leftarrow>map fst qs. Amount (?S ! i)) \<le> ext" using same ne by (simp add: ext_def hd_conv_nth)
    qed
    also have "\<dots> = agg" using ext by simp
    finally show ?thesis using m q(1) by (simp add: total_loss_def agg_def)
  qed
qed

text \<open>
  A validator that has not raised its own stake since the snapshot loses at most half of the stake
  it had, and it and its delegators together lose at most nine tenths of it: the debt of the
  delegators is four fifths of what the validator lost, split by their stake in the snapshot.
\<close>

theorem slash_wrapper_bounded:
  assumes "slash_pre snapshot current" "wrapper_ok a current" "Amount (hd (Delegations current)) \<le> Amount (hd (Delegations snapshot))"
  shows "\<exists>w t. slash_wrapper snapshot current (ediv (Amount (Delegations snapshot ! 0)) 2) e = Inr (w, t)
    \<and> wrapper_tokens w = wrapper_tokens current - t \<and> 0 \<le> t \<and> 10 * t \<le> 9 * Amount (hd (Delegations snapshot))
    \<and> (\<forall>i < length (Delegations current). Amount (Delegations w ! i) \<le> Amount (Delegations current ! i) \<and> 0 \<le> Amount (Delegations w ! i))"
proof -
  let ?x = "self_loss snapshot current e"
  obtain w where w: "slash_wrapper snapshot current (ediv (Amount (Delegations snapshot ! 0)) 2) e = Inr (w, total_loss snapshot current e)"
    "wrapper_ok a w" "wrapper_tokens w = wrapper_tokens current - total_loss snapshot current e" "0 \<le> total_loss snapshot current e"
    "list_all2 (\<lambda>d d'. Amount d' \<le> Amount d) (Delegations current) (Delegations w)" using slash_wrapper_total [OF assms(1,2), of e] by auto
  have "10 * (8 * ?x div 10) \<le> 8 * ?x" by linarith
  then have "10 * total_loss snapshot current e \<le> 9 * Amount (hd (Delegations snapshot))" using total_loss_le [OF assms, of e] by linarith
  moreover have "Amount (Delegations w ! i) \<le> Amount (Delegations current ! i) \<and> 0 \<le> Amount (Delegations w ! i)" if "i < length (Delegations current)" for i
    using w(2,5) that by (auto simp: list_all2_conv_all_nth wrapper_ok_def valid_delegation_def)
  ultimately show ?thesis using w by blast
qed

text \<open>
  The total external stake is computed from the snapshot but the validator's own part from the
  current wrapper, so a validator that raised its own stake after the snapshot turns the debt of its
  delegators negative: slashing then credits a delegator instead of charging it.
\<close>

theorem slash_can_credit_delegators:
  "\<exists>snapshot current w t. slash_wrapper snapshot current (ediv (Amount (Delegations snapshot ! 0)) 2) 5 = Inr (w, t)
     \<and> valid_wrapper snapshot \<and> valid_wrapper current \<and> Amount (Delegations current ! 1) < Amount (Delegations w ! 1)
     \<and> wrapper_tokens current < wrapper_tokens w"
proof -
  let ?m = minimumStake
  let ?c = "sample_wrapper\<lparr>Delegations := (Delegations sample_wrapper)[0 := NewDelegation 9 (2 * ?m + 150)]\<rparr>"
  have min: "?m = 10000000000000000000000" by (simp add: minimumStake_def Itc_def TenThousand_def)
  have ds: "Delegations sample_wrapper = [NewDelegation 9 (2 * ?m), sample_delegation]" by (simp add: sample_wrapper_def)
  have list: "makeSlashList sample_wrapper ?c = ([(0, 0), (1, 1)], 2 * ?m + 100)"
    by (simp add: makeSlashList_def ds NewDelegation_def sample_delegation_def List.map_filter_def)
  have self: "applySlashingToDelegation (NewDelegation 9 (2 * ?m + 150)) 5 (ediv (2 * ?m) 2) = (NewDelegation 9 (?m + 150), ?m)"
    by (simp add: applySlashingToDelegation_def NewDelegation_def payDown_def min ediv_def)
  have other: "applySlashingToDelegation sample_delegation 5 (- 16000000000000000000000) = (sample_delegation\<lparr>Amount := 16000000000000000000100\<rparr>, - 16000000000000000000000)"
    by (simp add: applySlashingToDelegation_def sample_delegation_def payDown_def)
  have rate: "go_bind (MustNewDecFromStr ''0.8'') (applySlashRate ?m) = Inr 8000000000000000000000" using external_rate [of ?m] by (simp add: min)
  let ?w = "sample_wrapper\<lparr>Delegations := [NewDelegation 9 (?m + 150), sample_delegation\<lparr>Amount := 16000000000000000000100\<rparr>],
     theValidator := (theValidator sample_wrapper)\<lparr>Status := Banned\<rparr>\<rparr>"
  have v: "valid_wrapper sample_wrapper" "valid_wrapper ?c" "SanityCheck ?w = Inr ()"
    using sample_wrapper_valid
    by (auto simp: SanityCheck_iff valid_wrapper_def valid_validator_def enough_self_delegation_def TotalDelegation_sum ds NewDelegation_def min
        sample_wrapper_def sample_validator_def sample_delegation_def)
  have "slash_wrapper sample_wrapper ?c (ediv (Amount (Delegations sample_wrapper ! 0)) 2) 5 = Inr (?w, - 6000000000000000000000)"
    using rate v(3) self other unfolding slash_wrapper_def list
    by (simp add: ds slash_delegator_def min ediv_def NewDelegation_def sample_delegation_def del: go_bind_eq_Inr)
  moreover have "wrapper_tokens ?c < wrapper_tokens ?w"
    by (simp add: wrapper_tokens_def ds delegation_tokens_eq NewDelegation_def sample_delegation_def min)
  ultimately show ?thesis using v(1,2) by (intro exI [of _ sample_wrapper] exI [of _ ?c] exI [of _ ?w] exI [of _ "- 6000000000000000000000"])
      (simp add: ds sample_delegation_def)
qed

text \<open>
  When the delegators of the snapshot have nothing staked any more, the total external stake is zero
  and the division by it panics.
\<close>

theorem slash_panics_on_idle_delegators:
  assumes "makeSlashList snapshot current = (p # q # ps, t)" "t = Amount (Delegations current ! 0)" "Delegations current \<noteq> []"
    "0 \<le> Amount (Delegations current ! 0)" "\<forall>d\<in>set (Delegations current). valid_delegation d" "0 \<le> debt" "debt < 2 ^ 190"
  shows "slash_wrapper snapshot current debt e = Inl (Panic ''division by zero'')"
proof -
  obtain d x where a: "applySlashingToDelegation (Delegations current ! 0) e debt = (d, x)" by fastforce
  have "valid_delegation (Delegations current ! 0)" using assms(3,5) by simp
  from applySlashing_eq [OF this assms(6) a] have "0 \<le> x" "x \<le> debt" by auto
  then have r: "go_bind (MustNewDecFromStr ''0.8'') (applySlashRate x) = Inr (8 * x div 10)" using external_rate [of x] assms(7) by linarith
  have "go_fold (slash_delegator snapshot (8 * x div 10) 0 e) st (q # ps) = Inl (Panic ''division by zero'')" for st
    by (cases st; cases q) (simp add: slash_delegator_def)
  then show ?thesis using assms(1-3) a r unfolding slash_wrapper_def by (simp del: go_bind_eq_Inr go_fold.simps)
qed

section \<open>Verifying evidence\<close>

lemma doubleSignKeys_set: "set (doubleSignKeys first second) = set (SignerPubKeys first) \<inter> set (SignerPubKeys second)"
  by (auto simp: doubleSignKeys_def CompareBLSPublicKey_def list_ex_iff)

lemma signer_addresses_run:
  "go_fold (\<lambda>(signerFound, addrs) pubKey. go_bind (AddressForBLSKey (Some sub) pubKey) (\<lambda>addr. Inr (signerFound \<or> addr = off, addrs @ [addr])))
     (b, as) ks = Inr (b', as') \<Longrightarrow>
   length as' = length as + length ks \<and> (b' \<longleftrightarrow> b \<or> (\<exists>k\<in>set ks. AddressForBLSKey (Some sub) k = Inr off))"
proof (induction ks arbitrary: b as)
  case (Cons k ks)
  then obtain a where "AddressForBLSKey (Some sub) k = Inr a" by auto
  then show ?case using Cons by fastforce
qed simp

lemma AddressForBLSKey_slot:
  assumes "AddressForBLSKey (Some sub) k = Inr a"
  shows "\<exists>s\<in>set (Slots sub). BLSPublicKey s = k \<and> EcdsaAddress s = a"
  using assms by (auto simp: AddressForBLSKey_def CompareBLSPublicKey_def find_Some_iff split: option.splits)

text \<open>
  C24: evidence that passes verification names a validator that is not banned and not the reporter,
  dates from a staking epoch that is not in the future, and holds two votes for different headers
  with valid signatures for the same height and view by key sets that share exactly one key, which
  a slot of the offender in that shard's committee owns.
\<close>

theorem Verify_sound:
  assumes "db_inv B db" "Verify E B db r = Inr db'"
  shows "\<exists>w st sub s k. lWrap (ledger B db) (Offender (theEvidence r)) = Some w \<and> Status (theValidator w) \<noteq> Banned
    \<and> Offender (theEvidence r) \<noteq> Reporter r \<and> IsStaking (sl_config E) (Some (mEpoch (theMoment (theEvidence r))))
    \<and> mEpoch (theMoment (theEvidence r)) \<le> sl_current_epoch E
    \<and> BlockHeaderHash (FirstVote (theVotes (theEvidence r))) \<noteq> BlockHeaderHash (SecondVote (theVotes (theEvidence r)))
    \<and> ReadShardState E (mEpoch (theMoment (theEvidence r))) = Inr st \<and> sub \<in> set (Shards st) \<and> ShardID sub = mShardID (theMoment (theEvidence r))
    \<and> s \<in> set (Slots sub) \<and> EcdsaAddress s = Offender (theEvidence r) \<and> BLSPublicKey s = k
    \<and> set (SignerPubKeys (FirstVote (theVotes (theEvidence r)))) \<inter> set (SignerPubKeys (SecondVote (theVotes (theEvidence r)))) = {k}
    \<and> verify_ballot E (theMoment (theEvidence r)) (FirstVote (theVotes (theEvidence r))) = Inr ()
    \<and> verify_ballot E (theMoment (theEvidence r)) (SecondVote (theVotes (theEvidence r))) = Inr ()
    \<and> db_inv B db' \<and> ledger B db' = ledger B db"
proof -
  let ?e = "theEvidence r" and ?m = "theMoment (theEvidence r)" and ?f = "FirstVote (theVotes (theEvidence r))" and ?s = "SecondVote (theVotes (theEvidence r))"
  from assms(2) obtain p w st sub as where v: "ValidatorWrapper_get B db (Offender ?e) True False = Inr (p, db')" "p = Some w" "Status (theValidator w) \<noteq> Banned"
    "Offender ?e \<noteq> Reporter r" "IsStaking (sl_config E) (Some (mEpoch ?m))" "mEpoch ?m \<le> sl_current_epoch E" "BlockHeaderHash ?f \<noteq> BlockHeaderHash ?s"
    "doubleSignKeys ?f ?s \<noteq> []" "ReadShardState E (mEpoch ?m) = Inr st" "FindCommitteeByID (Some st) (mShardID ?m) = Inr sub"
    "signer_addresses sub (Offender ?e) (doubleSignKeys ?f ?s) = Inr (True, as)" "\<not> length as > 1"
    "verify_ballot E ?m ?f = Inr ()" "verify_ballot E ?m ?s = Inr ()"
    by (auto simp: Verify_def Let_def split: if_splits)
  note run = signer_addresses_run [OF v(11) [unfolded signer_addresses_def]]
  have "length (doubleSignKeys ?f ?s) = 1" using run v(8,12) by (cases "doubleSignKeys ?f ?s") auto
  then obtain k where k: "doubleSignKeys ?f ?s = [k]" by (auto simp: length_Suc_conv)
  obtain s where s: "s \<in> set (Slots sub)" "BLSPublicKey s = k" "EcdsaAddress s = Offender ?e" using run k AddressForBLSKey_slot [of sub k] by auto
  have sub: "sub \<in> set (Shards st)" "ShardID sub = mShardID ?m"
    using v(10) by (auto simp: FindCommitteeByID_def find_Some_iff split: option.splits)
  have "set (SignerPubKeys ?f) \<inter> set (SignerPubKeys ?s) = {k}" using doubleSignKeys_set [of ?f ?s] k by simp
  then show ?thesis using ValidatorWrapper_get_ledger [OF assms(1) v(1)] v s sub by blast
qed

text \<open>
  The addresses of the common keys are counted per key, not per address, so evidence that a validator
  double-signed with two of its keys at once is refused as if several validators were accused.
\<close>

theorem Verify_refuses_two_keys:
  assumes "distinct (SignerPubKeys (FirstVote (theVotes (theEvidence r))))"
    "1 < card (set (SignerPubKeys (FirstVote (theVotes (theEvidence r)))) \<inter> set (SignerPubKeys (SecondVote (theVotes (theEvidence r)))))"
  shows "Verify E B db r \<noteq> Inr db'"
proof
  let ?f = "FirstVote (theVotes (theEvidence r))" and ?s = "SecondVote (theVotes (theEvidence r))"
  assume "Verify E B db r = Inr db'"
  then obtain sub b as where v: "signer_addresses sub (Offender (theEvidence r)) (doubleSignKeys ?f ?s) = Inr (b, as)" "\<not> length as > 1"
    by (auto simp: Verify_def Let_def split: if_splits)
  have "length as = length (doubleSignKeys ?f ?s)" using signer_addresses_run [OF v(1) [unfolded signer_addresses_def]] by simp
  moreover have "distinct (doubleSignKeys ?f ?s)" using assms(1) by (simp add: doubleSignKeys_def)
  then have "length (doubleSignKeys ?f ?s) = card (set (SignerPubKeys ?f) \<inter> set (SignerPubKeys ?s))"
    using doubleSignKeys_set [of ?f ?s] distinct_card by metis
  ultimately show False using v(2) assms(2) by simp
qed

section \<open>A concrete slash\<close>

definition sample_evidence :: Record where
  "sample_evidence = \<lparr>theEvidence = \<lparr>theMoment = \<lparr>mEpoch = 300, mShardID = 0, mHeight = 40, mViewID = 40\<rparr>,
     theVotes = \<lparr>FirstVote = \<lparr>SignerPubKeys = [4], BlockHeaderHash = 1, Signature = []\<rparr>, SecondVote = \<lparr>SignerPubKeys = [6, 4], BlockHeaderHash = 2, Signature = []\<rparr>\<rparr>,
     Offender = 9\<rparr>, Reporter = 7\<rparr>"

definition sample_slash_env :: "(int, unit) slash_env" where
  "sample_slash_env = \<lparr>sl_ops = int_ops, sl_key = (\<lambda>k. Inr (uint k)), sl_sig = (\<lambda>_. Inr ()), sl_verify = (\<lambda>_ _ _. True),
     sl_vote_hash = BlockHeaderHash, sl_config = MainnetChainConfig, sl_current_epoch = 300,
     ReadShardState = (\<lambda>_. Inr \<lparr>Epoch = Some 300, Shards = [\<lparr>ShardID = 0, Slots = [\<lparr>EcdsaAddress = 9, BLSPublicKey = 4, EffectiveStake = None\<rparr>]\<rparr>]\<rparr>)\<rparr>"

definition sample_snapshots :: "int \<Rightarrow> Address \<Rightarrow> ValidatorSnapshot go" where
  "sample_snapshots = (\<lambda>_ _. Inr \<lparr>snapValidator = sample_wrapper, snapEpoch = 1\<rparr>)"

lemma sample_slash_pre: "slash_pre sample_wrapper sample_wrapper"
  using minimumStake_pos by (auto simp: slash_pre_def sample_wrapper_def NewDelegation_def sample_delegation_def TotalDelegation_sum
      minimumStake_def Itc_def TenThousand_def)


theorem slash_wrapper_bounded_witness:
  "\<exists>w t. slash_wrapper sample_wrapper sample_wrapper (ediv (Amount (Delegations sample_wrapper ! 0)) 2) 300 = Inr (w, t)
     \<and> 10 * t \<le> 9 * Amount (hd (Delegations sample_wrapper))"
proof -
  have "wrapper_ok 9 sample_wrapper" using ledger_okD [OF sample_staking_ok(2) sample_reads(1)] by simp
  from slash_wrapper_bounded [OF sample_slash_pre this, of 300] show ?thesis by auto
qed

theorem Verify_sound_witness:
  "\<exists>db'. Verify sample_slash_env sample_backend sample_staking sample_evidence = Inr db'
     \<and> set (SignerPubKeys (FirstVote (theVotes (theEvidence sample_evidence)))) \<inter> set (SignerPubKeys (SecondVote (theVotes (theEvidence sample_evidence)))) = {4}
     \<and> ledger sample_backend db' = ledger sample_backend sample_staking"
proof -
  have "stateValidators sample_staking 9 = Some (Some sample_wrapper)" by (simp add: sample_staking_def sample_db_def)
  then have run: "Verify sample_slash_env sample_backend sample_staking sample_evidence = Inr sample_staking"
    by (simp add: Verify_def sample_evidence_def sample_slash_env_def ValidatorWrapper_get_def doubleSignKeys_def CompareBLSPublicKey_def
        signer_addresses_def AddressForBLSKey_def FindCommitteeByID_def verify_ballot_def IsStaking_def isForked_def MainnetChainConfig_def
        sample_wrapper_def sample_validator_def compare_words_def Let_def)
  show ?thesis using run Verify_sound [OF sample_staking_ok(1) run] by (auto simp: sample_evidence_def)
qed

end
