(* ===== verification/Headers.thy ===== *)
theory Headers
  imports StakingVerifier "HOL-Library.Product_Lexorder"
begin

text \<open>
  Block headers as the engine reads them (\<open>block/header.go\<close>) and cross links, the signed references the
  beacon chain keeps to blocks of other shards (\<open>core/types/crosslink.go\<close>). A header is the record of what
  its accessors return; \<open>bhShardState\<close> is the result of decoding the shard state bytes, and
  \<open>bhHash\<close> the hash of the encoding.
\<close>

section \<open>Headers\<close>

record BlockHeader = Header +
  bhShardID :: uint32
  bhViewID :: int
  bhParentHash :: Hash
  bhLastCommitSignature :: bytes
  bhLastCommitBitmap :: bytes
  bhCrossLinks :: bytes
  bhCoinbase :: Address
  bhShardStateBytes :: bytes
  bhShardState :: "State go"
  bhHash :: Hash
  bhVrf :: bytes

definition IsLastBlockInEpoch :: "BlockHeader \<Rightarrow> bool" where
  "IsLastBlockInEpoch h \<longleftrightarrow> length (bhShardStateBytes h) > 0"

definition NumberU64 :: "BlockHeader \<Rightarrow> uint64" where
  "NumberU64 h = Uint64 (hNumber h)"

section \<open>Cross links\<close>

record CrossLink =
  HashF :: Hash
  BlockNumberF :: int
  ViewIDF :: int
  SignatureF :: bytes
  BitmapF :: bytes
  ShardIDF :: uint32
  EpochF :: int

definition NewCrossLink :: "BlockHeader \<Rightarrow> BlockHeader option \<Rightarrow> CrossLink" where
  "NewCrossLink header parentHeader =
     \<lparr>HashF = bhParentHash header,
      BlockNumberF = (case parentHeader of Some h \<Rightarrow> hNumber h | None \<Rightarrow> 0),
      ViewIDF = (case parentHeader of Some h \<Rightarrow> bhViewID h | None \<Rightarrow> 0),
      SignatureF = bhLastCommitSignature header, BitmapF = bhLastCommitBitmap header, ShardIDF = bhShardID header,
      EpochF = (case parentHeader of Some h \<Rightarrow> hEpoch h | None \<Rightarrow> 0)\<rparr>"

definition crosslink_less :: "CrossLink \<Rightarrow> CrossLink \<Rightarrow> bool" where
  "crosslink_less a b =
     (if ShardIDF a \<noteq> ShardIDF b then ShardIDF a < ShardIDF b
      else if BlockNumberF a \<noteq> BlockNumberF b then BlockNumberF a < BlockNumberF b
      else ViewIDF a < ViewIDF b)"

definition CrossLinks_IsSorted :: "CrossLink list \<Rightarrow> bool" where
  "CrossLinks_IsSorted cls \<longleftrightarrow> list_all (\<lambda>i. \<not> crosslink_less (cls ! Suc i) (cls ! i)) [0..<length cls - 1]"

definition CrossLink_BlockNum :: "CrossLink \<Rightarrow> uint64" where
  "CrossLink_BlockNum cl = Uint64 (BlockNumberF cl)"

text \<open>The order of cross links is the lexicographic order of shard, block number and view.\<close>

definition crosslink_key :: "CrossLink \<Rightarrow> uint32 \<times> int \<times> int" where
  "crosslink_key cl = (ShardIDF cl, BlockNumberF cl, ViewIDF cl)"

lemma crosslink_less_iff: "crosslink_less a b \<longleftrightarrow> crosslink_key a < crosslink_key b"
  by (auto simp: crosslink_less_def crosslink_key_def less_prod_simp)

lemma IsSorted_iff: "CrossLinks_IsSorted cls \<longleftrightarrow> sorted (map crosslink_key cls)"
  by (auto simp: CrossLinks_IsSorted_def crosslink_less_iff not_less sorted_iff_nth_Suc list_all_iff)

end
