(* ===== verification/Seal.thy ===== *)
theory Seal
  imports Quorum Slash Headers
begin

text \<open>
  Verification of sealed blocks: the engine's checks of headers, commit signatures and cross links
  (\<open>internal/chain/engine.go\<close>) and the decoding of signature and bitmap (\<open>internal/chain/sig.go\<close>).

  The chain is what its reader interface returns. The BLS library, the proof function of the VRF, the
  computation of a foreign shard state and the two LRU caches are parameters; of a cache only a
  lookup and an insertion are used.
\<close>

section \<open>Signature and bitmap\<close>

definition ParseCommitSigAndBitmap :: "bytes \<Rightarrow> (bytes \<times> bytes) go" where
  "ParseCommitSigAndBitmap pl =
     (if length pl < BLSSignatureSizeInBytes then Inl (Error ''payload not have enough length'')
      else Inr (take BLSSignatureSizeInBytes pl, drop BLSSignatureSizeInBytes pl))"

definition DecodeSigBitmap ::
  "'pk pk_ops \<Rightarrow> (bytes \<Rightarrow> 'sig go) \<Rightarrow> bytes \<Rightarrow> bytes \<Rightarrow> 'pk PublicKeyWrapper list \<Rightarrow> ('sig \<times> 'pk Mask) go" where
  "DecodeSigBitmap ops deser sigBytes bm pubKeys =
     (case deser sigBytes of
        Inl (Panic e) \<Rightarrow> Inl (Panic e)
      | Inl (Error _) \<Rightarrow> Inl (Error ''unable to deserialize multi-signature from payload'')
      | Inr aggSig \<Rightarrow>
          (case SetMask ops (NewMask ops pubKeys) bm of
             Inl (Panic e) \<Rightarrow> Inl (Panic e)
           | Inl (Error _) \<Rightarrow> Inl (Error ''mask.SetMask failed'')
           | Inr mk \<Rightarrow> Inr (aggSig, mk)))"

definition ReadSignatureBitmapByPublicKeys ::
  "'pk pk_ops \<Rightarrow> (bytes \<Rightarrow> 'sig go) \<Rightarrow> bytes \<Rightarrow> 'pk PublicKeyWrapper list \<Rightarrow> ('sig \<times> 'pk Mask) go" where
  "ReadSignatureBitmapByPublicKeys ops deser recvPayload keys =
     go_bind (ParseCommitSigAndBitmap recvPayload) (\<lambda>(sig, bm). DecodeSigBitmap ops deser sig bm keys)"

section \<open>What the engine reads\<close>

record ('pk, 'sig) engineChain =
  ecConfig :: ChainConfig
  ecShardID :: uint32
  ecCurrentNumber :: uint64
  ecHeader :: "Hash \<Rightarrow> uint64 \<Rightarrow> BlockHeader option"
  ecHeaderByNumber :: "uint64 \<Rightarrow> BlockHeader option"
  ecShardState :: "int \<Rightarrow> State go"
  ecCompute :: "int \<Rightarrow> State go"
  ecInstance :: "int \<Rightarrow> 'pk Instance"
  ecOps :: "'pk pk_ops"
  ecKey :: "SerializedPublicKey \<Rightarrow> 'pk go"
  ecAddress :: "'pk \<Rightarrow> Address"
  ecSig :: "bytes \<Rightarrow> 'sig go"
  ecVerifyHash :: "'sig \<Rightarrow> 'pk \<Rightarrow> bytes \<Rightarrow> bool"
  ecProofToHash :: "'pk \<Rightarrow> Hash \<Rightarrow> bytes \<Rightarrow> bytes go"
  ecNextCommittee :: "BlockHeader \<Rightarrow> State go"
  ecEncode :: "State \<Rightarrow> bool \<Rightarrow> bytes go"

section \<open>Epoch context\<close>

definition needRecalculateStateShard :: "('pk, 'sig) engineChain \<Rightarrow> int \<Rightarrow> uint32 \<Rightarrow> bool" where
  "needRecalculateStateShard chain epoch targetShardID =
     (if IsStaking (ecConfig chain) (Some epoch) then False else targetShardID \<noteq> ecShardID chain)"

definition readShardState :: "('pk, 'sig) engineChain \<Rightarrow> int \<Rightarrow> uint32 \<Rightarrow> State go" where
  "readShardState chain epoch targetShardID =
     (if needRecalculateStateShard chain epoch targetShardID then ecCompute chain epoch else ecShardState chain epoch)"

record 'pk epochCtx =
  qrVerifier :: verifier
  pubKeys :: "'pk PublicKeyWrapper list"

definition readEpochCtxFromChain :: "('pk, 'sig) engineChain \<Rightarrow> uint32 \<Rightarrow> uint64 \<Rightarrow> 'pk epochCtx go" where
  "readEpochCtxFromChain chain targetShardID keyEpoch =
     (let epoch = uint keyEpoch in
      go_bind (readShardState chain epoch targetShardID) (\<lambda>ss.
      go_bind (FindCommitteeByID (Some ss) targetShardID) (\<lambda>shardComm.
      go_bind (BLSPublicKeys (ecKey chain) (Some shardComm)) (\<lambda>keys.
      go_bind (NewVerifier (ecInstance chain) (ecKey chain) shardComm (Some epoch) (IsStaking (ecConfig chain) (Some epoch))) (\<lambda>qr.
        Inr \<lparr>qrVerifier = qr, pubKeys = keys\<rparr>)))))"

section \<open>Signatures of blocks\<close>

record payloadArgs =
  blockHash :: Hash
  paShardID :: uint32
  paEpoch :: int
  paNumber :: uint64
  paViewID :: uint64

record sigArgs =
  sig :: bytes
  saBitmap :: bytes

definition payloadArgsFromHeader :: "BlockHeader \<Rightarrow> payloadArgs" where
  "payloadArgsFromHeader header =
     \<lparr>blockHash = bhHash header, paShardID = bhShardID header, paEpoch = hEpoch header,
      paNumber = Uint64 (hNumber header), paViewID = Uint64 (bhViewID header)\<rparr>"

definition payloadArgsFromCrossLink :: "CrossLink \<Rightarrow> payloadArgs" where
  "payloadArgsFromCrossLink cl =
     \<lparr>blockHash = HashF cl, paShardID = ShardIDF cl, paEpoch = EpochF cl,
      paNumber = Uint64 (BlockNumberF cl), paViewID = Uint64 (ViewIDF cl)\<rparr>"

definition constructPayload :: "('pk, 'sig) engineChain \<Rightarrow> payloadArgs \<Rightarrow> bytes" where
  "constructPayload chain args = ConstructCommitPayload (ecConfig chain) (paEpoch args) (blockHash args) (paNumber args) (paViewID args)"

definition verifier_quorum :: "verifier \<Rightarrow> 'pk Mask \<Rightarrow> bool go" where
  "verifier_quorum v mk =
     (case v of
        StakeVerifier r \<Rightarrow> stakeVerifier_IsQuorumAchievedByMask r (Some mk)
      | UniformVerifier u \<Rightarrow> Inr (uniformVerifier_IsQuorumAchievedByMask u mk))"

text \<open>The epoch context is fixed for an epoch and a shard, so reading it through its cache is computing it.\<close>

definition verifySignature :: "('pk, 'sig) engineChain \<Rightarrow> payloadArgs \<Rightarrow> sigArgs \<Rightarrow> unit go" where
  "verifySignature chain pas sas =
     go_bind (readEpochCtxFromChain chain (paShardID pas) (Uint64 (paEpoch pas))) (\<lambda>ec.
     go_bind (DecodeSigBitmap (ecOps chain) (ecSig chain) (sig sas) (saBitmap sas) (pubKeys ec)) (\<lambda>(aggSig, mk).
     go_bind (verifier_quorum (qrVerifier ec) mk) (\<lambda>reached.
     if \<not> reached then Inl (Error ''not enough signature collected'')
     else go_check (ecVerifyHash chain aggSig (AggregatePublic mk) (constructPayload chain pas))
            (Error ''Unable to verify aggregated signature for block''))))"

definition bitmapKeyBytes :: nat where "bitmapKeyBytes = 64"

record verifiedSigKey =
  vkBlockHash :: Hash
  vkSignature :: bytes
  vkBitmap :: bytes

definition newVerifiedSigKey :: "Hash \<Rightarrow> bytes \<Rightarrow> bytes \<Rightarrow> verifiedSigKey" where
  "newVerifiedSigKey h s bm =
     \<lparr>vkBlockHash = h, vkSignature = s, vkBitmap = take bitmapKeyBytes (bm @ replicate bitmapKeyBytes 0)\<rparr>"

text \<open>A cache of the engine: a lookup, which may reorder the entries, and an insertion, which may evict some.\<close>

record 'c lru_ops =
  lruGet :: "'c \<Rightarrow> verifiedSigKey \<Rightarrow> bool \<times> 'c"
  lruAdd :: "'c \<Rightarrow> verifiedSigKey \<Rightarrow> 'c"

definition verifySignatureCached ::
  "'c lru_ops \<Rightarrow> ('pk, 'sig) engineChain \<Rightarrow> 'c \<Rightarrow> payloadArgs \<Rightarrow> sigArgs \<Rightarrow> 'c \<times> unit go" where
  "verifySignatureCached L chain cache pas sas =
     (let verifiedKey = newVerifiedSigKey (blockHash pas) (sig sas) (saBitmap sas)
      in case lruGet L cache verifiedKey of
           (True, cache) \<Rightarrow> (cache, Inr ())
         | (False, cache) \<Rightarrow>
             (case verifySignature chain pas sas of
                Inl e \<Rightarrow> (cache, Inl e)
              | Inr _ \<Rightarrow> (lruAdd L cache verifiedKey, Inr ())))"

section \<open>Headers and cross links\<close>

definition VerifySeal :: "'c lru_ops \<Rightarrow> ('pk, 'sig) engineChain \<Rightarrow> 'c \<Rightarrow> BlockHeader option \<Rightarrow> 'c \<times> unit go" where
  "VerifySeal L chain cache header =
     (if ecCurrentNumber chain \<le> 1 then (cache, Inr ())
      else case header of
        None \<Rightarrow> (cache, Inl (Error ''[VerifySeal] nil block header''))
      | Some h \<Rightarrow>
          (case ecHeader chain (bhParentHash h) (Uint64 (hNumber h) - 1) of
             None \<Rightarrow> (cache, Inl (Error ''[VerifySeal] no parent header found''))
           | Some parentHeader \<Rightarrow>
               verifySignatureCached L chain cache (payloadArgsFromHeader parentHeader)
                 \<lparr>sig = bhLastCommitSignature h, saBitmap = bhLastCommitBitmap h\<rparr>))"

definition VerifyHeader :: "'c lru_ops \<Rightarrow> ('pk, 'sig) engineChain \<Rightarrow> 'c \<Rightarrow> BlockHeader \<Rightarrow> bool \<Rightarrow> 'c \<times> unit go" where
  "VerifyHeader L chain cache header seal =
     (case ecHeader chain (bhParentHash header) (Uint64 (hNumber header) - 1) of
        None \<Rightarrow> (cache, Inl (Error ''ErrUnknownAncestor''))
      | Some _ \<Rightarrow> if seal then VerifySeal L chain cache (Some header) else (cache, Inr ()))"

definition VerifyHeaderSignature ::
  "'c lru_ops \<Rightarrow> ('pk, 'sig) engineChain \<Rightarrow> 'c \<Rightarrow> BlockHeader \<Rightarrow> bytes \<Rightarrow> bytes \<Rightarrow> 'c \<times> unit go" where
  "VerifyHeaderSignature L chain cache header commitSig commitBitmap =
     (if ecCurrentNumber chain \<le> 1 then (cache, Inr ())
      else verifySignatureCached L chain cache (payloadArgsFromHeader header) \<lparr>sig = commitSig, saBitmap = commitBitmap\<rparr>)"

definition VerifyCrossLink :: "'c lru_ops \<Rightarrow> ('pk, 'sig) engineChain \<Rightarrow> 'c \<Rightarrow> CrossLink \<Rightarrow> 'c \<times> unit go" where
  "VerifyCrossLink L chain cache cl =
     (if CrossLink_BlockNum cl \<le> 1 then (cache, Inl (Error ''crossLink BlockNumber should greater than 1''))
      else if \<not> IsCrossLink (ecConfig chain) (Some (EpochF cl)) then (cache, Inl (Error ''not cross-link epoch''))
      else verifySignatureCached L chain cache (payloadArgsFromCrossLink cl) \<lparr>sig = SignatureF cl, saBitmap = BitmapF cl\<rparr>)"

definition VerifyShardState :: "('pk, 'sig) engineChain \<Rightarrow> BlockHeader \<Rightarrow> unit go" where
  "VerifyShardState bc header =
     (if ecShardID bc \<noteq> bhShardID header then Inl (Error ''[VerifyShardState] shardID not match'')
      else if length (bhShardStateBytes header) = 0 then Inr ()
      else
        go_bind (ecNextCommittee bc header) (\<lambda>shardState.
        let isStaking = (case Epoch shardState of Some e \<Rightarrow> IsStaking (ecConfig bc) (Some e) | None \<Rightarrow> False) in
        go_bind (ecEncode bc shardState isStaking) (\<lambda>shardStateBytes.
          go_check (shardStateBytes = bhShardStateBytes header) (Error ''shard state header did not match as expected''))))"

definition GetAddressFromBLSPubKeyBytes :: "('pk, 'sig) engineChain \<Rightarrow> SerializedPublicKey \<Rightarrow> Address" where
  "GetAddressFromBLSPubKeyBytes bc k = (case ecKey bc k of Inr pk \<Rightarrow> ecAddress bc pk | Inl _ \<Rightarrow> 0)"

definition GetLeaderPubKeyFromCoinbase :: "('pk, 'sig) engineChain \<Rightarrow> BlockHeader \<Rightarrow> 'pk PublicKeyWrapper go" where
  "GetLeaderPubKeyFromCoinbase bc h =
     go_bind (ecShardState bc (hEpoch h)) (\<lambda>shardState.
     go_bind (FindCommitteeByID (Some shardState) (bhShardID h)) (\<lambda>committee.
     let isStaking = IsStaking (ecConfig bc) (Some (hEpoch h)) in
     case find (\<lambda>member. if isStaking then GetAddressFromBLSPubKeyBytes bc (BLSPublicKey member) = bhCoinbase h
                         else EcdsaAddress member = bhCoinbase h) (Slots committee) of
       None \<Rightarrow> Inl (Error ''cannot find corresponding BLS Public Key coinbase'')
     | Some member \<Rightarrow>
         go_bind (ecKey bc (BLSPublicKey member)) (\<lambda>committerKey. Inr \<lparr>Bytes = BLSPublicKey member, Object = committerKey\<rparr>)))"

definition vrfBeta :: nat where "vrfBeta = 32"
definition vrfProof :: nat where "vrfProof = 96"

definition VerifyVRF :: "('pk, 'sig) engineChain \<Rightarrow> BlockHeader \<Rightarrow> unit go" where
  "VerifyVRF bc header =
     (if ecShardID bc \<noteq> bhShardID header then Inl (Error ''[VerifyVRF] shardID not match'')
      else if IsVRF (ecConfig bc) (Some (hEpoch header)) \<and> length (bhVrf header) \<noteq> vrfBeta + vrfProof
      then Inl (Error ''[VerifyVRF] invalid vrf data format or no vrf proposed'')
      else if \<not> IsVRF (ecConfig bc) (Some (hEpoch header))
      then go_check (length (bhVrf header) = 0) (Error ''[VerifyVRF] vrf data present in pre-vrf epoch'')
      else
        go_bind (GetLeaderPubKeyFromCoinbase bc header) (\<lambda>leaderPubKey.
        case ecHeaderByNumber bc (Uint64 (hNumber header) - 1) of
          None \<Rightarrow> Inl (Error ''[VerifyVRF] no parent header found'')
        | Some previousHeader \<Rightarrow>
            (case ecProofToHash bc (Object leaderPubKey) (bhHash previousHeader) (drop vrfBeta (bhVrf header)) of
               Inl (Panic e) \<Rightarrow> Inl (Panic e)
             | Inl (Error _) \<Rightarrow> Inl (Error ''[VerifyVRF] Failed VRF verification'')
             | Inr hash \<Rightarrow> go_check (hash = take vrfBeta (bhVrf header)) (Error ''[VerifyVRF] VRF proof is not valid''))))"

section \<open>What an accepted signature means\<close>

text \<open>The keys whose bit is set in a bitmap over a committee.\<close>

definition signing_keys :: "bytes \<Rightarrow> Committee \<Rightarrow> SerializedPublicKey set" where
  "signing_keys bm c = {BLSPublicKey (Slots c ! i) | i. i < length (Slots c) \<and> bit_at bm i}"

lemma BLSPublicKeys_bytes:
  assumes "BLSPublicKeys f (Some c) = Inr ks"
  shows "map Bytes ks = map BLSPublicKey (Slots c)"
proof -
  have "go_map (\<lambda>s. go_bind (f (BLSPublicKey s)) (\<lambda>pk. Inr \<lparr>Bytes = BLSPublicKey s, Object = pk\<rparr>)) xs = Inr ys
      \<Longrightarrow> map Bytes ys = map BLSPublicKey xs" for xs ys
    by (induction xs arbitrary: ys) auto
  then show ?thesis using assms by (simp add: BLSPublicKeys_def)
qed

lemma DecodeSigBitmap_ok:
  assumes "pk_group ops" "DecodeSigBitmap ops deser s bm ks = Inr (a, mk)"
  shows "deser s = Inr a" "mask_ok ops mk" "Publics mk = ks" "PublicsIndex mk = publics_index ks"
    "enabled mk = {i. i < length ks \<and> bit_at bm i}" "length bm = (length ks + 7) div 8"
proof -
  note ok = NewMask_ok [OF assms(1), of ks]
  have m: "SetMask ops (NewMask ops ks) bm = Inr mk" "deser s = Inr a"
    using assms(2) by (auto simp: DecodeSigBitmap_def split: sum.splits fault.splits)
  show "deser s = Inr a" by (fact m(2))
  have len: "length bm = Mask_Len (NewMask ops ks)" using m(1) by (auto simp: SetMask_def split: if_splits)
  then show "length bm = (length ks + 7) div 8" by (simp add: Mask_Len_def NewMask_def drop_bit_eq_div)
  show "mask_ok ops mk" "Publics mk = ks" "PublicsIndex mk = publics_index ks" "enabled mk = {i. i < length ks \<and> bit_at bm i}"
    using SetMask_ok [OF ok len] m(1) by (auto simp: same_keys_def NewMask_def)
qed

lemma DecodeSigBitmap_run:
  assumes "pk_group ops" "deser s = Inr a"
  shows "DecodeSigBitmap ops deser s bm ks =
    (if length bm = (length ks + 7) div 8 then
       Inr (a, THE mk. SetMask ops (NewMask ops ks) bm = Inr mk) else Inl (Error ''mask.SetMask failed''))"
proof (cases "length bm = (length ks + 7) div 8")
  case True
  then have "length bm = Mask_Len (NewMask ops ks)" by (simp add: Mask_Len_def NewMask_def drop_bit_eq_div)
  from SetMask_ok [OF NewMask_ok [OF assms(1)] this] obtain mk where "SetMask ops (NewMask ops ks) bm = Inr mk" by blast
  then show ?thesis using assms(2) True by (simp add: DecodeSigBitmap_def)
next
  case False
  then show ?thesis using assms(2) by (simp add: DecodeSigBitmap_def SetMask_def Mask_Len_def NewMask_def drop_bit_eq_div)
qed

lemma verifySignature_staking:
  assumes g: "pk_group (ecOps chain)" and st: "IsStaking (ecConfig chain) (Some (uint (Uint64 (paEpoch pas))))"
    and ss: "ecShardState chain (uint (Uint64 (paEpoch pas))) = Inr ss" "FindCommitteeByID (Some ss) (paShardID pas) = Inr c"
    and ks: "BLSPublicKeys (ecKey chain) (Some c) = Inr ks"
    and r: "Roster_Compute (ecInstance chain) c (Some (uint (Uint64 (paEpoch pas)))) = Inr r" "valid_roster r"
    and d: "distinct (map BLSPublicKey (Slots c))" and a: "ecSig chain (sig sas) = Inr a"
  shows "verifySignature chain pas sas = Inr () \<longleftrightarrow>
    length (saBitmap sas) = (length (Slots c) + 7) div 8 \<and> sum (power_of r) (signing_keys (saBitmap sas) c) > 666666666666666667
    \<and> ecVerifyHash chain a (aggregate (ecOps chain) (bit_at (saBitmap sas)) (map Object ks) [0..<length (Slots c)]) (constructPayload chain pas)"
proof -
  have ec: "readEpochCtxFromChain chain (paShardID pas) (Uint64 (paEpoch pas)) = Inr \<lparr>qrVerifier = StakeVerifier r, pubKeys = ks\<rparr>"
    using st ss ks r(1) by (simp add: readEpochCtxFromChain_def readShardState_def needRecalculateStateShard_def NewVerifier_def newStakeVerifier_def Let_def)
  have len: "length ks = length (Slots c)" and b: "map Bytes ks = map BLSPublicKey (Slots c)"
    using BLSPublicKeys_length [OF ks] BLSPublicKeys_bytes [OF ks] by simp_all
  show ?thesis
  proof (cases "length (saBitmap sas) = (length (Slots c) + 7) div 8")
    case True
    then obtain mk where dec: "DecodeSigBitmap (ecOps chain) (ecSig chain) (sig sas) (saBitmap sas) ks = Inr (a, mk)"
      using DecodeSigBitmap_run [where ops = "ecOps chain" and deser = "ecSig chain" and s = "sig sas" and a = a and bm = "saBitmap sas" and ks = ks] g a len by simp
    note m = DecodeSigBitmap_ok [OF g dec]
    have "mask_for (ecOps chain) mk" using m d b by (simp add: mask_for_def)
    then have q: "stakeVerifier_IsQuorumAchievedByMask r (Some mk) = Inr (sum (power_of r) (mask_keys mk) > 666666666666666667)"
      using verifier_power r(2) by blast
    have "Bytes (ks ! i) = BLSPublicKey (Slots c ! i)" if "i < length (Slots c)" for i
      using b that len by (metis length_map nth_map)
    then have keys: "mask_keys mk = signing_keys (saBitmap sas) c" using m(3,5) len by (auto simp: mask_keys_def signing_keys_def)
    have "bit_at (Bitmap mk) i = bit_at (saBitmap sas) i" if "i < length ks" for i
      using m(3,5) that by (auto simp: enabled_def)
    then have agg: "AggregatePublic mk = aggregate (ecOps chain) (bit_at (saBitmap sas)) (map Object ks) [0..<length (Slots c)]"
      using m(2,3) len by (auto simp: mask_ok_def intro!: aggregate_cong)
    show ?thesis using True keys agg by (simp add: verifySignature_def ec dec verifier_quorum_def q)
  next
    case False
    then show ?thesis using DecodeSigBitmap_run [where ops = "ecOps chain" and deser = "ecSig chain" and s = "sig sas" and a = a and bm = "saBitmap sas" and ks = ks] g a len
      by (simp add: verifySignature_def ec)
  qed
qed

text \<open>
  C3: In a staking epoch the engine accepts a commit signature exactly when the bitmap has one bit per
  committee slot, the members whose bit is set hold more than two thirds of the voting power, and the
  signature verifies on the commit payload against the aggregate of exactly their keys.
\<close>

theorem verifySignature_needs_quorum:
  assumes "pk_group (ecOps chain)" "IsStaking (ecConfig chain) (Some (uint (Uint64 (paEpoch pas))))"
    "ecShardState chain (uint (Uint64 (paEpoch pas))) = Inr ss" "FindCommitteeByID (Some ss) (paShardID pas) = Inr c"
    "BLSPublicKeys (ecKey chain) (Some c) = Inr ks"
    "Roster_Compute (ecInstance chain) c (Some (uint (Uint64 (paEpoch pas)))) = Inr r" "valid_roster r"
    "distinct (map BLSPublicKey (Slots c))" "ecSig chain (sig sas) = Inr a"
  shows "verifySignature chain pas sas = Inr () \<longleftrightarrow>
    length (saBitmap sas) = (length (Slots c) + 7) div 8 \<and> sum (power_of r) (signing_keys (saBitmap sas) c) > 666666666666666667
    \<and> ecVerifyHash chain a (aggregate (ecOps chain) (bit_at (saBitmap sas)) (map Object ks) [0..<length (Slots c)]) (constructPayload chain pas)"
  by (rule verifySignature_staking [OF assms])

section \<open>The cache of verified signatures\<close>

text \<open>What the engine relies on: a hit is for a key that was inserted, and a fresh entry is found.\<close>

definition lru_law :: "'c lru_ops \<Rightarrow> bool" where
  "lru_law L \<longleftrightarrow> (\<forall>c k k'. fst (lruGet L (lruAdd L c k) k') \<longrightarrow> k' = k \<or> fst (lruGet L c k'))
     \<and> (\<forall>c k k'. fst (lruGet L (snd (lruGet L c k)) k') = fst (lruGet L c k'))
     \<and> (\<forall>c k. fst (lruGet L (lruAdd L c k) k))"

definition cache_sound :: "'c lru_ops \<Rightarrow> ('pk, 'sig) engineChain \<Rightarrow> 'c \<Rightarrow> bool" where
  "cache_sound L chain c \<longleftrightarrow> (\<forall>k. fst (lruGet L c k) \<longrightarrow>
     (\<exists>pas sas. verifySignature chain pas sas = Inr () \<and> k = newVerifiedSigKey (blockHash pas) (sig sas) (saBitmap sas)))"

lemma verifySignatureCached_inv:
  assumes "lru_law L" "cache_sound L chain c" "verifySignatureCached L chain c pas sas = (c', r)"
  shows "cache_sound L chain c'"
    "r = Inr () \<Longrightarrow> \<exists>pas' sas'. verifySignature chain pas' sas' = Inr ()
       \<and> newVerifiedSigKey (blockHash pas') (sig sas') (saBitmap sas') = newVerifiedSigKey (blockHash pas) (sig sas) (saBitmap sas)"
    "r = Inr () \<Longrightarrow> fst (lruGet L c' (newVerifiedSigKey (blockHash pas) (sig sas) (saBitmap sas)))"
proof -
  let ?k = "newVerifiedSigKey (blockHash pas) (sig sas) (saBitmap sas)"
  obtain hit c1 where g: "lruGet L c ?k = (hit, c1)" by fastforce
  have same: "fst (lruGet L c1 k) = fst (lruGet L c k)" for k
    using assms(1) g unfolding lru_law_def by (metis snd_conv)
  then have s1: "cache_sound L chain c1" using assms(2) by (simp add: cache_sound_def)
  have hit: "hit = fst (lruGet L c ?k)" using g by simp
  have fresh: "fst (lruGet L (lruAdd L c1 ?k) k) \<Longrightarrow> k = ?k \<or> fst (lruGet L c1 k)" "fst (lruGet L (lruAdd L c1 ?k) ?k)" for k
    using assms(1) by (auto simp: lru_law_def)
  have "cache_sound L chain c' \<and> (r = Inr () \<longrightarrow> (\<exists>pas' sas'. verifySignature chain pas' sas' = Inr ()
       \<and> newVerifiedSigKey (blockHash pas') (sig sas') (saBitmap sas') = ?k) \<and> fst (lruGet L c' ?k))"
  proof (cases hit)
    case True
    then have "c' = c1" "r = Inr ()" using assms(3) g by (simp_all add: verifySignatureCached_def Let_def)
    then show ?thesis using s1 assms(2) hit True same unfolding cache_sound_def by metis
  next
    case False
    show ?thesis
    proof (cases "verifySignature chain pas sas")
      case (Inl e)
      then have "c' = c1" "r = Inl e" using assms(3) g False by (simp_all add: verifySignatureCached_def Let_def)
      then show ?thesis using s1 by simp
    next
      case (Inr u)
      then have "c' = lruAdd L c1 ?k" "r = Inr ()" using assms(3) g False by (simp_all add: verifySignatureCached_def Let_def)
      moreover have "cache_sound L chain (lruAdd L c1 ?k)"
        using s1 fresh(1) Inr unfolding cache_sound_def by (metis (full_types) old.unit.exhaust)
      ultimately show ?thesis using Inr fresh(2) by auto
    qed
  qed
  then show "cache_sound L chain c'" "r = Inr () \<Longrightarrow> \<exists>pas' sas'. verifySignature chain pas' sas' = Inr ()
       \<and> newVerifiedSigKey (blockHash pas') (sig sas') (saBitmap sas') = ?k" "r = Inr () \<Longrightarrow> fst (lruGet L c' ?k)" by auto
qed

text \<open>A run of the engine: signatures of headers and cross links checked one after the other.\<close>

fun check_all :: "'c lru_ops \<Rightarrow> ('pk, 'sig) engineChain \<Rightarrow> 'c \<Rightarrow> (payloadArgs \<times> sigArgs) list \<Rightarrow> 'c \<times> bool list" where
  "check_all L chain c [] = (c, [])"
| "check_all L chain c ((pas, sas) # rest) =
     (case verifySignatureCached L chain c pas sas of
        (c', r) \<Rightarrow> (case check_all L chain c' rest of (c'', rs) \<Rightarrow> (c'', (r = Inr ()) # rs)))"

lemma check_all_sound:
  assumes "lru_law L" "cache_sound L chain c" "check_all L chain c qs = (c', rs)"
  shows "cache_sound L chain c' \<and> length rs = length qs \<and> (\<forall>i<length qs. rs ! i \<longrightarrow>
    (\<exists>pas sas. verifySignature chain pas sas = Inr () \<and> newVerifiedSigKey (blockHash pas) (sig sas) (saBitmap sas)
       = newVerifiedSigKey (blockHash (fst (qs ! i))) (sig (snd (qs ! i))) (saBitmap (snd (qs ! i)))))"
  using assms(2,3)
proof (induction qs arbitrary: c rs)
  case (Cons q qs)
  obtain pas sas where q: "q = (pas, sas)" by fastforce
  obtain c1 r where v: "verifySignatureCached L chain c pas sas = (c1, r)" by fastforce
  obtain c2 rs2 where rest: "check_all L chain c1 qs = (c2, rs2)" by fastforce
  have e: "c' = c2" "rs = (r = Inr ()) # rs2" using Cons.prems(2) q v rest by simp_all
  note one = verifySignatureCached_inv [OF assms(1) Cons.prems(1) v]
  note IH = Cons.IH [OF one(1) rest [folded e(1)]]
  show ?case using IH one(2) by (auto simp: e q nth_Cons' less_Suc_eq_0_disj)
qed simp

text \<open>
  C25: Whatever headers and cross links the engine is asked about, in whatever order, it accepts a
  signature only when some payload with the same block hash and the same signature has been verified
  in full, for a bitmap with the same first 64 bytes.
\<close>

theorem engine_accepts_only_verified:
  assumes "lru_law L" "\<forall>k. \<not> fst (lruGet L c k)" "check_all L chain c qs = (c', rs)" "i < length qs" "rs ! i"
  shows "\<exists>pas sas. verifySignature chain pas sas = Inr () \<and> blockHash pas = blockHash (fst (qs ! i)) \<and> sig sas = sig (snd (qs ! i))
    \<and> take bitmapKeyBytes (saBitmap sas @ replicate bitmapKeyBytes 0) = take bitmapKeyBytes (saBitmap (snd (qs ! i)) @ replicate bitmapKeyBytes 0)"
proof -
  have "cache_sound L chain c" using assms(2) by (simp add: cache_sound_def)
  from check_all_sound [OF assms(1) this assms(3)] assms(4,5) show ?thesis by (auto simp: newVerifiedSigKey_def)
qed

lemma cached_accepts:
  assumes "lru_law L" "fst (lruGet L c (newVerifiedSigKey (blockHash pas) (sig sas) (saBitmap sas)))"
  shows "snd (verifySignatureCached L chain c pas sas) = Inr ()"
  using assms(2) by (auto simp: verifySignatureCached_def Let_def split: prod.split bool.split)

text \<open>
  The cache forgets what was signed: once a cross link has been accepted, a second one with the same
  hash, signature and bitmap is accepted too, whatever shard, block number, view and epoch it claims,
  although the commit payload contains the number and the view.
\<close>

theorem crosslink_cache_ignores_payload:
  assumes "lru_law L" "cache_sound L chain c" "VerifyCrossLink L chain c cl = (c', Inr ())"
    "HashF cl' = HashF cl" "SignatureF cl' = SignatureF cl" "BitmapF cl' = BitmapF cl"
    "CrossLink_BlockNum cl' > 1" "IsCrossLink (ecConfig chain) (Some (EpochF cl'))"
  shows "snd (VerifyCrossLink L chain c' cl') = Inr ()"
proof -
  have v: "verifySignatureCached L chain c (payloadArgsFromCrossLink cl) \<lparr>sig = SignatureF cl, saBitmap = BitmapF cl\<rparr> = (c', Inr ())"
    using assms(3) by (auto simp: VerifyCrossLink_def split: if_splits)
  have "fst (lruGet L c' (newVerifiedSigKey (HashF cl) (SignatureF cl) (BitmapF cl)))"
    using verifySignatureCached_inv(3) [OF assms(1,2) v] by (simp add: payloadArgsFromCrossLink_def)
  then have "snd (verifySignatureCached L chain c' (payloadArgsFromCrossLink cl') \<lparr>sig = SignatureF cl', saBitmap = BitmapF cl'\<rparr>) = Inr ()"
    using assms(4-6) by (intro cached_accepts [OF assms(1)]) (simp add: payloadArgsFromCrossLink_def)
  then show ?thesis using assms(7,8) by (auto simp: VerifyCrossLink_def)
qed

section \<open>Samples\<close>

text \<open>A cache that never evicts, and a chain on which a signature is the signed message itself.\<close>

definition sample_lru :: "verifiedSigKey list lru_ops" where
  "sample_lru = \<lparr>lruGet = (\<lambda>c k. (k \<in> set c, c)), lruAdd = (\<lambda>c k. k # c)\<rparr>"

lemma sample_lru_law: "lru_law sample_lru"
  by (simp add: lru_law_def sample_lru_def)

definition sample_engine :: "(int, bytes) engineChain" where
  "sample_engine = \<lparr>ecConfig = MainnetChainConfig, ecShardID = 0, ecCurrentNumber = 100, ecHeader = (\<lambda>_ _. None),
     ecHeaderByNumber = (\<lambda>_. None), ecShardState = (\<lambda>e. Inr \<lparr>Epoch = Some e, Shards = [sample_committee]\<rparr>),
     ecCompute = (\<lambda>_. Inl (Error ''none'')), ecInstance = Votepower.sample_schedule, ecOps = int_ops, ecKey = (\<lambda>k. Inr (uint k)),
     ecAddress = (\<lambda>_. 0), ecSig = Inr, ecVerifyHash = (\<lambda>s pk m. m = s), ecProofToHash = (\<lambda>_ _ _. Inl (Error ''none'')),
     ecNextCommittee = (\<lambda>_. Inl (Error ''none'')), ecEncode = (\<lambda>_ _. Inl (Error ''none''))\<rparr>"

definition sample_crosslink :: "uint64 \<Rightarrow> CrossLink" where
  "sample_crosslink n = \<lparr>HashF = 7, BlockNumberF = uint n, ViewIDF = 5, SignatureF = ConstructCommitPayload MainnetChainConfig 200 7 50 5,
     BitmapF = [7], ShardIDF = 0, EpochF = 200\<rparr>"

lemma sample_engine_roster:
  "\<exists>r. Roster_Compute Votepower.sample_schedule sample_committee (Some e) = Inr r \<and> valid_roster r \<and> fst ` set (Voters r) = {10, 20, 30}"
proof -
  have ours: "our_member (NewDec 1) 490000000000000000 s =
      Inr ((new_member s)\<lparr>IsIntelchainNode := True, OverallPercent := 490000000000000000, GroupPercent := 1000000000000000000\<rparr>)" for s
    by (simp add: our_member_def sample_ops)
  have stk: "staked_member 7000000000000000000 510000000000000000 3000000000000000000 s = Inr ((new_member s)\<lparr>voteEffectiveStake := 3000000000000000000,
        GroupPercent := 428571428571428571, OverallPercent := 218571428571428571\<rparr>)"
      "staked_member 7000000000000000000 510000000000000000 4000000000000000000 s = Inr ((new_member s)\<lparr>voteEffectiveStake := 4000000000000000000,
        GroupPercent := 571428571428571429, OverallPercent := 291428571428571429\<rparr>)" for s
    by (simp_all add: staked_member_def sample_ops Add_small new_member_def ZeroDec_def)
  show ?thesis
    by (simp add: Roster_Compute_def Votepower.sample_schedule_def Votepower.sample_instance_def sample_committee_def
        sample_slot_def count_stakes_def NewRoster_def compute_step_def stk ours add_voter_def valid_roster_def
        give_diff_def Add_small Sub_small Equal_def ZeroDec_def OneDec_def precisionReuse_def)
qed

definition sample_super :: State where
  "sample_super = \<lparr>Epoch = Some 200, Shards = [sample_committee]\<rparr>"

lemma sample_engine_reads:
  "pk_group (ecOps sample_engine)" "IsStaking MainnetChainConfig (Some 200)"
  "ecShardState sample_engine 200 = Inr sample_super" "FindCommitteeByID (Some sample_super) 0 = Inr sample_committee"
  "distinct (map BLSPublicKey (Slots sample_committee))" "ecSig sample_engine s = Inr s" "length (Slots sample_committee) = 3"
  "ecKey sample_engine = (\<lambda>k. Inr (uint k))" "ecInstance sample_engine = Votepower.sample_schedule" "uint (Uint64 200) = 200"
  "ecVerifyHash sample_engine s pk m = (m = s)" "ecConfig sample_engine = MainnetChainConfig"
  using int_ops_group
  by (simp_all add: sample_engine_def sample_super_def Uint64_def IsStaking_def isForked_def MainnetChainConfig_def FindCommitteeByID_def
      sample_committee_def sample_slot_def)

lemma sample_setting:
  obtains r ks where "Roster_Compute Votepower.sample_schedule sample_committee (Some 200) = Inr r" "valid_roster r"
    "BLSPublicKeys (\<lambda>k. Inr (uint k)) (Some sample_committee) = Inr (ks :: int PublicKeyWrapper list)"
    "sum (power_of r) (signing_keys [7] sample_committee) = 1000000000000000000"
proof -
  obtain r where r: "Roster_Compute Votepower.sample_schedule sample_committee (Some 200) = Inr r" "valid_roster r" "fst ` set (Voters r) = {10, 20, 30}"
    using sample_engine_roster by blast
  obtain ks where ks: "BLSPublicKeys (\<lambda>k. Inr (uint k)) (Some sample_committee) = Inr (ks :: int PublicKeyWrapper list)"
    by (simp add: BLSPublicKeys_def sample_committee_def)
  have b: "bit_at [7] 0" "bit_at [7] (Suc 0)" "bit_at [7] (Suc (Suc 0))" by (simp_all add: bit_at_def bit_numeral_rec)
  have "signing_keys [7] sample_committee = {10, 20, 30}"
    using b by (auto simp: signing_keys_def sample_committee_def sample_slot_def less_Suc_eq numeral_3_eq_3 intro: exI [of _ 0] exI [of _ "Suc 0"]
        exI [of _ "Suc (Suc 0)"])
  then have "sum (power_of r) (signing_keys [7] sample_committee) = 1000000000000000000"
    using power_everyone [OF r(2), of "{10, 20, 30}"] r(3) by (simp add: OneDec_def precisionReuse_def)
  then show thesis using that r ks by blast
qed

definition sample_pas :: "uint64 \<Rightarrow> payloadArgs" where
  "sample_pas n = \<lparr>blockHash = 7, paShardID = 0, paEpoch = 200, paNumber = n, paViewID = 5\<rparr>"

definition sample_sas :: sigArgs where
  "sample_sas = \<lparr>sig = ConstructCommitPayload MainnetChainConfig 200 7 50 5, saBitmap = [7]\<rparr>"

lemma sample_sel [simp]:
  "paEpoch (sample_pas n) = 200" "paShardID (sample_pas n) = 0" "saBitmap sample_sas = [7]" "blockHash (sample_pas n) = 7"
  "constructPayload sample_engine (sample_pas n) = ConstructCommitPayload MainnetChainConfig 200 7 n 5"
  "sig sample_sas = ConstructCommitPayload MainnetChainConfig 200 7 50 5"
  by (simp_all add: sample_pas_def sample_sas_def constructPayload_def sample_engine_reads)

theorem verifySignature_needs_quorum_witness:
  "verifySignature sample_engine (sample_pas 50) sample_sas = Inr ()"
proof -
  obtain r ks where r: "Roster_Compute Votepower.sample_schedule sample_committee (Some 200) = Inr r" "valid_roster r"
    "BLSPublicKeys (\<lambda>k. Inr (uint k)) (Some sample_committee) = Inr (ks :: int PublicKeyWrapper list)"
    "sum (power_of r) (signing_keys [7] sample_committee) = 1000000000000000000" by (rule sample_setting)
  show ?thesis
    using verifySignature_needs_quorum [of sample_engine "sample_pas 50" sample_super sample_committee ks r sample_sas "sig sample_sas"] r
    by (simp add: sample_engine_reads)
qed

lemma sample_verifies:
  "verifySignature sample_engine (sample_pas n) sample_sas = Inr () \<longleftrightarrow>
     ConstructCommitPayload MainnetChainConfig 200 7 n 5 = ConstructCommitPayload MainnetChainConfig 200 7 50 5"
proof -
  obtain r ks where r: "Roster_Compute Votepower.sample_schedule sample_committee (Some 200) = Inr r" "valid_roster r"
    "BLSPublicKeys (\<lambda>k. Inr (uint k)) (Some sample_committee) = Inr (ks :: int PublicKeyWrapper list)"
    "sum (power_of r) (signing_keys [7] sample_committee) = 1000000000000000000" by (rule sample_setting)
  show ?thesis
    using verifySignature_staking [of sample_engine "sample_pas n" sample_super sample_committee ks r sample_sas "sig sample_sas"] r
    by (simp add: sample_engine_reads)
qed

theorem engine_accepts_only_verified_witness:
  "\<exists>c' pas sas. check_all sample_lru sample_engine [] [(sample_pas 50, sample_sas), (sample_pas 51, sample_sas)] = (c', [True, True])
     \<and> verifySignature sample_engine pas sas = Inr () \<and> blockHash pas = blockHash (sample_pas 51)"
proof -
  let ?qs = "[(sample_pas 50, sample_sas), (sample_pas 51, sample_sas)]"
  have "verifySignature sample_engine (sample_pas 50) sample_sas = Inr ()" by (simp add: sample_verifies)
  then obtain c' where run: "check_all sample_lru sample_engine [] ?qs = (c', [True, True])"
    by (simp add: sample_lru_def verifySignatureCached_def Let_def)
  have "\<forall>k. \<not> fst (lruGet sample_lru [] k)" by (simp add: sample_lru_def)
  from engine_accepts_only_verified [OF sample_lru_law this run, of 1] run show ?thesis by auto
qed

text \<open>The forged link claims block 51 for the signature of block 50; verified in full it is refused.\<close>

lemma payload_numbers: "ConstructCommitPayload MainnetChainConfig 200 7 51 5 \<noteq> ConstructCommitPayload MainnetChainConfig 200 7 50 5"
  by (simp add: ConstructCommitPayload_def bytes_le_def upt_conv_Cons Let_def)

theorem crosslink_cache_ignores_payload_witness:
  "\<exists>c'. VerifyCrossLink sample_lru sample_engine [] (sample_crosslink 50) = (c', Inr ())
     \<and> snd (VerifyCrossLink sample_lru sample_engine c' (sample_crosslink 51)) = Inr ()
     \<and> snd (VerifyCrossLink sample_lru sample_engine [] (sample_crosslink 51)) \<noteq> Inr ()"
proof -
  have pas: "payloadArgsFromCrossLink (sample_crosslink n) = sample_pas n" "\<lparr>sig = SignatureF (sample_crosslink n), saBitmap = BitmapF (sample_crosslink n)\<rparr> = sample_sas"
    "IsCrossLink MainnetChainConfig (Some (EpochF (sample_crosslink n)))" "CrossLink_BlockNum (sample_crosslink n) = n" for n
    by (simp_all add: payloadArgsFromCrossLink_def sample_crosslink_def sample_pas_def sample_sas_def Uint64_def IsCrossLink_def isForked_def
        MainnetChainConfig_def CrossLink_BlockNum_def)
  have ok: "verifySignature sample_engine (sample_pas 50) sample_sas = Inr ()" "verifySignature sample_engine (sample_pas 51) sample_sas \<noteq> Inr ()"
    using payload_numbers by (simp_all add: sample_verifies)
  have big: "\<not> (50 :: uint64) \<le> 1" "\<not> (51 :: uint64) \<le> 1" by (simp_all add: word_le_def)
  obtain c' where 1: "VerifyCrossLink sample_lru sample_engine [] (sample_crosslink 50) = (c', Inr ())"
    using ok(1) big by (simp add: VerifyCrossLink_def pas sample_engine_reads sample_lru_def verifySignatureCached_def Let_def)
  have 2: "snd (VerifyCrossLink sample_lru sample_engine [] (sample_crosslink 51)) \<noteq> Inr ()"
    using ok(2) big by (auto simp: VerifyCrossLink_def pas sample_engine_reads sample_lru_def verifySignatureCached_def Let_def split: sum.split)
  have "cache_sound sample_lru sample_engine []" by (simp add: cache_sound_def sample_lru_def)
  moreover have "HashF (sample_crosslink 51) = HashF (sample_crosslink 50)" "SignatureF (sample_crosslink 51) = SignatureF (sample_crosslink 50)"
    "BitmapF (sample_crosslink 51) = BitmapF (sample_crosslink 50)" by (simp_all add: sample_crosslink_def)
  ultimately show ?thesis
    using crosslink_cache_ignores_payload [OF sample_lru_law _ 1, of "sample_crosslink 51"] 1 2 big
    by (auto simp: pas sample_engine_reads not_le)
qed

end
