(* ===== verification/Assignment.thy ===== *)
theory Assignment
  imports Availability Votepower
begin

text \<open>
  Election of the committees of an epoch (\<open>shard/committee/assignment.go\<close>): the eligible candidates, their
  orders, the auction, and the assignment of the slots to shards. The states and snapshots the reader
  returns, the parsing of keys and addresses of the configured accounts and the schedule are parameters.
\<close>

section \<open>Definitions\<close>

record 'pk DataProvider =
  dpInstance :: "int \<Rightarrow> 'pk Instance"
  dpHexKey :: "string \<Rightarrow> SerializedPublicKey go"
  dpHexKeyOrZero :: "string \<Rightarrow> SerializedPublicKey"
  dpParseAddr :: "string \<Rightarrow> Address go"
  dpConfig :: ChainConfig
  dpBlockEpoch :: int
  dpHeaderEpoch :: int
  dpStateAt :: "unit go"
  dpCandidates :: "Address list"
  dpValidator :: "Address \<Rightarrow> ValidatorWrapper go"
  dpSnapshot :: "Address \<Rightarrow> ValidatorSnapshot go"
  dpShardState :: "int \<Rightarrow> State go"
  dpTestnet :: bool

definition IsEligibleForEPoSAuction :: "ValidatorSnapshot \<Rightarrow> ValidatorWrapper \<Rightarrow> bool go" where
  "IsEligibleForEPoSAuction snapshot validator =
     go_bind (if LastEpochInCommittee (theValidator validator) = snapEpoch snapshot
              then go_bind (ComputeCurrentSigning (snapValidator snapshot) validator) (\<lambda>computed. Inr (IsBelowThreshold computed))
              else Inr False) (\<lambda>below.
       Inr (\<not> below \<and> Status (theValidator validator) = Active))"

text \<open>
  The keys of a validator that count: those not seen before, at most \<open>limit\<close> per shard when the
  limit is not zero. A key seen before is remembered as \<open>found\<close>.
\<close>

definition limit_key ::
  "int \<Rightarrow> nat \<Rightarrow> SerializedPublicKey set \<times> SerializedPublicKey list \<times> bool \<times> int list \<Rightarrow> SerializedPublicKey \<Rightarrow>
   (SerializedPublicKey set \<times> SerializedPublicKey list \<times> bool \<times> int list) go" where
  "limit_key limit shardCount = (\<lambda>(blsKeys, limited, found, shardSlotsCount) key.
     if key \<in> blsKeys then Inr (blsKeys, limited, True, shardSlotsCount)
     else if shardCount = 0 then Inl (Panic ''division by zero'')
     else let shard = nat (uint key mod int shardCount)
          in Inr (insert key blsKeys,
                  (if limit = 0 \<or> shardSlotsCount ! shard < limit then limited @ [key] else limited),
                  found, shardSlotsCount[shard := shardSlotsCount ! shard + 1]))"

definition order_step ::
  "'pk DataProvider \<Rightarrow> int \<Rightarrow> nat \<Rightarrow> SerializedPublicKey set \<times> orders \<times> int \<Rightarrow> Address \<Rightarrow> (SerializedPublicKey set \<times> orders \<times> int) go" where
  "order_step stakedReader limit shardCount = (\<lambda>(blsKeys, essentials, totalStaked) candidate.
     go_bind (dpValidator stakedReader candidate) (\<lambda>validator.
     go_bind (dpSnapshot stakedReader candidate) (\<lambda>snapshot.
     go_bind (IsEligibleForEPoSAuction snapshot validator) (\<lambda>eligible.
     if \<not> eligible then Inr (blsKeys, essentials, totalStaked)
     else
       go_bind (go_fold (limit_key limit shardCount) (blsKeys, [], False, replicate shardCount 0) (SlotPubKeys (theValidator validator)))
         (\<lambda>(blsKeys, slotPubKeysLimited, found, _).
            if found then Inr (blsKeys, essentials, totalStaked)
            else let validatorStake = fold (\<lambda>d t. t + Amount d) (Delegations validator) 0
                 in Inr (blsKeys,
                         AList.update (vAddress (theValidator validator))
                           \<lparr>oStake = validatorStake, SpreadAmong = slotPubKeysLimited, Percentage = ZeroDec\<rparr> essentials,
                         totalStaked + validatorStake))))))"

definition network_keys :: "'pk DataProvider \<Rightarrow> int \<Rightarrow> SerializedPublicKey set" where
  "network_keys r epoch =
     fold (\<lambda>account keys. case dpHexKey r (daBLSPublicKey account) of Inl _ \<Rightarrow> keys | Inr k \<Rightarrow> insert k keys)
       (itcAccounts (dpInstance r epoch)) {}"

definition prepareOrders :: "'pk DataProvider \<Rightarrow> int \<Rightarrow> nat \<Rightarrow> orders go" where
  "prepareOrders stakedReader limit shardCount =
     go_bind (dpStateAt stakedReader) (\<lambda>_.
     go_bind (go_fold (order_step stakedReader limit shardCount) (network_keys stakedReader (dpBlockEpoch stakedReader), [], 0)
                (dpCandidates stakedReader)) (\<lambda>(_, essentials, totalStaked).
       go_map (\<lambda>(a, value). go_bind (Quo (NewDecFromBigInt (oStake value)) (NewDecFromBigInt totalStaked))
                 (\<lambda>p. Inr (a, value\<lparr>Percentage := p\<rparr>))) essentials))"

record CandidateOrder =
  coSlotOrder :: SlotOrder
  StakePerKey :: int
  coValidator :: Address

record CompletedEPoSRound =
  MedianStake :: Dec
  MaximumExternalSlot :: int
  AuctionWinners :: "SlotPurchase list"
  AuctionCandidates :: "CandidateOrder list"

definition NewEPoSRound :: "int \<Rightarrow> 'pk DataProvider \<Rightarrow> bool \<Rightarrow> int \<Rightarrow> nat \<Rightarrow> CompletedEPoSRound go" where
  "NewEPoSRound epoch stakedReader isExtendedBound limit shardCount =
     go_bind (prepareOrders stakedReader limit shardCount) (\<lambda>eligibleCandidate.
     let maxExternalSlots = ExternalSlotsAvailableForEpoch (dpInstance stakedReader) epoch in
     go_bind (Apply eligibleCandidate maxExternalSlots isExtendedBound) (\<lambda>(median, winners).
       Inr \<lparr>MedianStake = median, MaximumExternalSlot = maxExternalSlots, AuctionWinners = winners,
            AuctionCandidates = map (\<lambda>(key, order). \<lparr>coSlotOrder = order,
              StakePerKey = (let l = int (length (SpreadAmong order)) in if l > 0 then ediv (oStake order) l else 0),
              coValidator = key\<rparr>) eligibleCandidate\<rparr>))"

definition account_at :: "DeployAccount list \<Rightarrow> nat \<Rightarrow> DeployAccount go" where
  "account_at accounts index =
     (if index < length accounts then Inr (accounts ! index) else Inl (Panic ''index out of range''))"

text \<open>A slot of a configured account before staking; errors of the key are ignored there.\<close>

definition pre_slot :: "'pk DataProvider \<Rightarrow> DeployAccount list \<Rightarrow> nat \<Rightarrow> Slot go" where
  "pre_slot r accounts index =
     go_bind (account_at accounts index) (\<lambda>account.
     go_bind (dpParseAddr r (daAddress account)) (\<lambda>addr.
       Inr \<lparr>EcdsaAddress = addr, BLSPublicKey = dpHexKeyOrZero r (daBLSPublicKey account), EffectiveStake = None\<rparr>))"

definition preStakingEnabledCommittee :: "'pk DataProvider \<Rightarrow> 'pk Instance \<Rightarrow> State go" where
  "preStakingEnabledCommittee r s =
     (let shardNum = unat (numShards s);
          shardIntelchainNodes = nat (numIntelchainOperatedNodesPerShard s);
          shardSize = nat (numNodesPerShard s)
      in go_bind (go_map (\<lambda>i.
             go_bind (go_map (\<lambda>j. pre_slot r (itcAccounts s) (i + j * shardNum)) [0..<shardIntelchainNodes]) (\<lambda>itcSlots.
             go_bind (go_map (\<lambda>j. pre_slot r (fnAccounts s) (i + (j - shardIntelchainNodes) * shardNum))
                        [shardIntelchainNodes..<shardSize]) (\<lambda>fnSlots.
               Inr \<lparr>ShardID = of_nat i, Slots = itcSlots @ fnSlots\<rparr>))) [0..<shardNum])
           (\<lambda>coms. Inr \<lparr>Epoch = None, Shards = coms\<rparr>))"

definition itc_slot :: "'pk DataProvider \<Rightarrow> DeployAccount list \<Rightarrow> nat \<Rightarrow> Slot go" where
  "itc_slot r accounts index =
     go_bind (account_at accounts index) (\<lambda>account.
     go_bind (dpHexKey r (daBLSPublicKey account)) (\<lambda>pubKey.
     go_bind (dpParseAddr r (daAddress account)) (\<lambda>addr.
       Inr \<lparr>EcdsaAddress = addr, BLSPublicKey = pubKey, EffectiveStake = None\<rparr>)))"

definition winner_slot :: "SlotPurchase \<Rightarrow> Slot" where
  "winner_slot p = \<lparr>EcdsaAddress = pAddr p, BLSPublicKey = pKey p, EffectiveStake = Some (EPoSStake p)\<rparr>"

definition seat_winner :: "nat \<Rightarrow> Committee list \<Rightarrow> SlotPurchase \<Rightarrow> Committee list go" where
  "seat_winner shardCount shards p =
     (if shardCount = 0 then Inl (Panic ''division by zero'')
      else let shardID = nat (uint (pKey p) mod int shardCount)
           in Inr (shards[shardID := (shards ! shardID)\<lparr>Slots := Slots (shards ! shardID) @ [winner_slot p]\<rparr>]))"

definition network_shards :: "'pk DataProvider \<Rightarrow> 'pk Instance \<Rightarrow> Committee list go" where
  "network_shards r s =
     go_map (\<lambda>i. go_bind (go_map (\<lambda>j. itc_slot r (itcAccounts s) (i + j * unat (numShards s)))
                          [0..<nat (numIntelchainOperatedNodesPerShard s)])
                   (\<lambda>slots. Inr \<lparr>ShardID = of_nat i, Slots = slots\<rparr>)) [0..<unat (numShards s)]"

definition eposStakedCommittee :: "int \<Rightarrow> 'pk Instance \<Rightarrow> 'pk DataProvider \<Rightarrow> State go" where
  "eposStakedCommittee epoch s stakerReader =
     (let shardCount = unat (numShards s) in
      go_bind (network_shards stakerReader s) (\<lambda>shards.
      go_bind (NewEPoSRound epoch stakerReader (IsEPoSBound35 (dpConfig stakerReader) (Some epoch)) (slotsLimit s) shardCount) (\<lambda>rnd.
      go_bind (go_fold (seat_winner shardCount) shards (AuctionWinners rnd)) (\<lambda>seated.
      if length (AuctionWinners rnd) = 0
      then let isShardReduction = numShards (dpInstance stakerReader (epoch - 1)) \<noteq> numShards (dpInstance stakerReader epoch)
           in if dpTestnet stakerReader \<and> isShardReduction then Inr \<lparr>Epoch = None, Shards = seated\<rparr>
              else dpShardState stakerReader (epoch - 1)
      else Inr \<lparr>Epoch = None, Shards = seated\<rparr>))))"

definition Committee_ReadFromDB :: "int \<Rightarrow> 'pk DataProvider \<Rightarrow> State go" where
  "Committee_ReadFromDB epoch reader = dpShardState reader epoch"

text \<open>Before staking the reader may be missing.\<close>

definition Committee_Compute :: "'pk DataProvider \<Rightarrow> bool \<Rightarrow> int \<Rightarrow> State go" where
  "Committee_Compute stakerReader present epoch =
     (if \<not> (present \<and> IsStaking (dpConfig stakerReader) (Some epoch))
      then preStakingEnabledCommittee stakerReader (dpInstance stakerReader epoch)
      else if epoch < dpHeaderEpoch stakerReader then Inl (Error ''ErrComputeForEpochInPast'')
      else go_bind (eposStakedCommittee epoch (dpInstance stakerReader epoch) stakerReader) (\<lambda>shardState.
             Inr (shardState\<lparr>Epoch := Some epoch\<rparr>)))"

section \<open>Orders have distinct keys\<close>

lemma limit_key_fold:
  assumes "0 < n" "go_fold (limit_key limit n) (S, L, f, cs) keys = Inr (S', L', f', cs')" "length cs = n"
    "distinct L" "set L \<subseteq> S" "\<forall>s<n. int (on_shard n s L) \<le> cs ! s \<and> (0 < limit \<longrightarrow> int (on_shard n s L) \<le> limit)"
  shows "S' = S \<union> set keys \<and> distinct L' \<and> set L' \<subseteq> S' \<and> set L' \<subseteq> set L \<union> (set keys - S) \<and> (f' \<longleftrightarrow> f \<or> \<not> distinct keys \<or> set keys \<inter> S \<noteq> {})
    \<and> (limit = 0 \<longrightarrow> \<not> f' \<longrightarrow> L' = L @ keys) \<and> (\<forall>s<n. 0 < limit \<longrightarrow> int (on_shard n s L') \<le> limit)"
  using assms(2-)
proof (induction keys arbitrary: S L f cs)
  case (Cons k keys)
  show ?case
  proof (cases "k \<in> S")
    case True
    then have "go_fold (limit_key limit n) (S, L, True, cs) keys = Inr (S', L', f', cs')" using Cons.prems(1) by (simp add: limit_key_def)
    from Cons.IH [OF this Cons.prems(2-5)] show ?thesis using True by auto
  next
    case False
    define s where "s = nat (uint k mod int n)"
    have s: "s < n" using assms(1) by (simp add: s_def nat_less_iff)
    let ?L = "if limit = 0 \<or> cs ! s < limit then L @ [k] else L"
    let ?cs = "cs[s := cs ! s + 1]"
    have run: "go_fold (limit_key limit n) (insert k S, ?L, f, ?cs) keys = Inr (S', L', f', cs')"
      using Cons.prems(1) False assms(1) by (simp add: limit_key_def Let_def s_def [symmetric])
    have L: "length ?cs = n" "distinct ?L" "set ?L \<subseteq> insert k S" using Cons.prems(2-4) False by auto
    have b: "\<forall>t<n. int (on_shard n t ?L) \<le> ?cs ! t \<and> (0 < limit \<longrightarrow> int (on_shard n t ?L) \<le> limit)"
    proof (intro allI impI)
      fix t assume t: "t < n"
      have "int (on_shard n t L) \<le> cs ! t" "0 < limit \<longrightarrow> int (on_shard n t L) \<le> limit" using Cons.prems(5) t by auto
      then show "int (on_shard n t ?L) \<le> ?cs ! t \<and> (0 < limit \<longrightarrow> int (on_shard n t ?L) \<le> limit)"
        using t Cons.prems(2) by (auto simp: nth_list_update s_def)
    qed
    note IH = Cons.IH [OF run L b]
    then show ?thesis using False by (auto split: if_splits)
  qed
qed auto

definition orders_ok :: "SerializedPublicKey set \<Rightarrow> SerializedPublicKey set \<Rightarrow> orders \<Rightarrow> bool" where
  "orders_ok N S es \<longleftrightarrow> N \<subseteq> S \<and> distinct (map fst es)
     \<and> (\<forall>a ord. map_of es a = Some ord \<longrightarrow> distinct (SpreadAmong ord) \<and> set (SpreadAmong ord) \<subseteq> S - N)
     \<and> (\<forall>a b ord ord'. map_of es a = Some ord \<longrightarrow> map_of es b = Some ord' \<longrightarrow> a \<noteq> b \<longrightarrow> set (SpreadAmong ord) \<inter> set (SpreadAmong ord') = {})"

lemma orders_ok_update:
  assumes "orders_ok N S es" "S \<subseteq> S'" "distinct (SpreadAmong ord)" "set (SpreadAmong ord) \<subseteq> S' - S"
  shows "orders_ok N S' (AList.update a ord es)"
  using assms unfolding orders_ok_def update_conv' by (auto simp: distinct_update split: if_splits) blast+

text \<open>What stands behind an order: an eligible candidate, its whole stake and some of its keys.\<close>

definition order_of :: "'pk DataProvider \<Rightarrow> int \<Rightarrow> nat \<Rightarrow> Address \<Rightarrow> SlotOrder \<Rightarrow> bool" where
  "order_of r limit n a ord \<longleftrightarrow> (\<exists>c\<in>set (dpCandidates r). \<exists>w snap. dpValidator r c = Inr w \<and> dpSnapshot r c = Inr snap
     \<and> IsEligibleForEPoSAuction snap w = Inr True \<and> a = vAddress (theValidator w) \<and> oStake ord = TotalDelegation w
     \<and> distinct (SlotPubKeys (theValidator w)) \<and> set (SpreadAmong ord) \<subseteq> set (SlotPubKeys (theValidator w))
     \<and> (limit = 0 \<longrightarrow> SpreadAmong ord = SlotPubKeys (theValidator w)) \<and> (\<forall>s<n. 0 < limit \<longrightarrow> int (on_shard n s (SpreadAmong ord)) \<le> limit))"

lemma order_step_inv:
  assumes "0 < n" "c \<in> set (dpCandidates r)" "orders_ok N S es" "\<forall>a ord. map_of es a = Some ord \<longrightarrow> order_of r limit n a ord"
    "order_step r limit n (S, es, t) c = Inr (S', es', t')"
  shows "orders_ok N S' es' \<and> (\<forall>a ord. map_of es' a = Some ord \<longrightarrow> order_of r limit n a ord)"
proof -
  obtain w snap b where c: "dpValidator r c = Inr w" "dpSnapshot r c = Inr snap" "IsEligibleForEPoSAuction snap w = Inr b"
    using assms(5) by (auto simp: order_step_def)
  show ?thesis
  proof (cases b)
    case False
    then show ?thesis using assms c by (simp add: order_step_def)
  next
    case True
    let ?keys = "SlotPubKeys (theValidator w)"
    obtain S1 L f cs where run: "go_fold (limit_key limit n) (S, [], False, replicate n 0) ?keys = Inr (S1, L, f, cs)"
      using assms(5) c True by (auto simp: order_step_def)
    have l: "S1 = S \<union> set ?keys" "distinct L" "set L \<subseteq> set ?keys - S" "f \<longleftrightarrow> \<not> distinct ?keys \<or> set ?keys \<inter> S \<noteq> {}"
      "limit = 0 \<longrightarrow> \<not> f \<longrightarrow> L = ?keys" "\<forall>s<n. 0 < limit \<longrightarrow> int (on_shard n s L) \<le> limit"
      using limit_key_fold [OF assms(1) run] by auto
    let ?ord = "\<lparr>oStake = fold (\<lambda>d t. t + Amount d) (Delegations w) 0, SpreadAmong = L, Percentage = ZeroDec\<rparr>"
    have res: "(S', es') = (if f then (S1, es) else (S1, AList.update (vAddress (theValidator w)) ?ord es))"
      using assms(5) c True run by (auto simp: order_step_def Let_def split: if_splits)
    have mono: "orders_ok N S1 es" using assms(3) l(1) unfolding orders_ok_def by blast
    show ?thesis
    proof (cases f)
      case True
      then show ?thesis using res mono assms(4) by simp
    next
      case False
      have "fold (\<lambda>d t. t + Amount d) ds t = t + sum_list (map Amount ds)" for ds :: "Delegation list" and t
        by (induction ds arbitrary: t) simp_all
      then have "order_of r limit n (vAddress (theValidator w)) ?ord"
        using assms(2) c True False l by (auto simp: order_of_def TotalDelegation_sum intro!: bexI [of _ c])
      moreover have "orders_ok N S1 (AList.update (vAddress (theValidator w)) ?ord es)"
        using l by (intro orders_ok_update [OF assms(3)]) auto
      ultimately show ?thesis using res False assms(4) by (auto simp: update_conv')
    qed
  qed
qed

lemma order_fold_inv:
  assumes "0 < n" "set cs \<subseteq> set (dpCandidates r)" "orders_ok N S es" "\<forall>a ord. map_of es a = Some ord \<longrightarrow> order_of r limit n a ord"
    "go_fold (order_step r limit n) (S, es, t) cs = Inr (S', es', t')"
  shows "orders_ok N S' es' \<and> (\<forall>a ord. map_of es' a = Some ord \<longrightarrow> order_of r limit n a ord)"
  using assms(2-)
proof (induction cs arbitrary: S es t)
  case (Cons c cs)
  obtain S1 es1 t1 where 1: "order_step r limit n (S, es, t) c = Inr (S1, es1, t1)" "go_fold (order_step r limit n) (S1, es1, t1) cs = Inr (S', es', t')"
    using Cons.prems(4) by auto
  note step = order_step_inv [OF assms(1) _ Cons.prems(2,3) 1(1)]
  show ?case using Cons.IH [OF _ _ _ 1(2)] step Cons.prems(1) by auto
qed simp

lemma percent_map:
  assumes "go_map (\<lambda>(a, value). go_bind (Quo (NewDecFromBigInt (oStake value)) t) (\<lambda>p. Inr (a, value\<lparr>Percentage := p\<rparr>))) es = Inr es'"
  shows "map fst es' = map fst es" "map (SpreadAmong \<circ> snd) es' = map (SpreadAmong \<circ> snd) es"
    "map (oStake \<circ> snd) es' = map (oStake \<circ> snd) es"
  using assms by (induction es arbitrary: es') auto

lemma order_of_cong:
  "SpreadAmong x = SpreadAmong y \<Longrightarrow> oStake x = oStake y \<Longrightarrow> order_of r limit n a x = order_of r limit n a y"
  by (simp add: order_of_def)

lemma prepareOrders_ok:
  assumes "0 < n" "prepareOrders r limit n = Inr es"
  shows "distinct (map fst es)" "distinct (concat (map (SpreadAmong \<circ> snd) es))"
    "set (concat (map (SpreadAmong \<circ> snd) es)) \<inter> network_keys r (dpBlockEpoch r) = {}"
    "\<forall>(a, ord)\<in>set es. order_of r limit n a ord"
proof -
  let ?N = "network_keys r (dpBlockEpoch r)"
  obtain S es1 t where run: "go_fold (order_step r limit n) (?N, [], 0) (dpCandidates r) = Inr (S, es1, t)"
    and pc: "go_map (\<lambda>(a, value). go_bind (Quo (NewDecFromBigInt (oStake value)) (NewDecFromBigInt t)) (\<lambda>p. Inr (a, value\<lparr>Percentage := p\<rparr>))) es1 = Inr es"
    using assms(2) by (auto simp: prepareOrders_def)
  have "orders_ok ?N ?N []" by (simp add: orders_ok_def)
  then have ok: "orders_ok ?N S es1" "\<forall>a ord. map_of es1 a = Some ord \<longrightarrow> order_of r limit n a ord"
    using order_fold_inv [OF assms(1) _ _ _ run] by auto
  note same = percent_map [OF pc]
  have d: "distinct (map fst es1)" using ok(1) by (simp add: orders_ok_def)
  then show "distinct (map fst es)" using same(1) by simp
  have in1: "(a, ord) \<in> set es1 \<Longrightarrow> map_of es1 a = Some ord" for a ord using d by simp
  have "distinct (concat (map (SpreadAmong \<circ> snd) xs))"
    if "distinct (map fst xs)" "set xs \<subseteq> set es1" for xs
    using that
  proof (induction xs)
    case (Cons x xs)
    obtain a ord where x: "x = (a, ord)" by fastforce
    have "set (SpreadAmong ord) \<inter> set (SpreadAmong ord') = {}" if "(b, ord') \<in> set xs" for b ord'
    proof -
      have "b \<noteq> a" using that Cons.prems(1) x by (auto intro: rev_image_eqI)
      moreover have "map_of es1 a = Some ord" "map_of es1 b = Some ord'" using in1 that Cons.prems(2) x by auto
      ultimately show ?thesis using ok(1) unfolding orders_ok_def by blast
    qed
    then have "set (SpreadAmong ord) \<inter> set (concat (map (SpreadAmong \<circ> snd) xs)) = {}" by fastforce
    moreover have "map_of es1 a = Some ord" using in1 Cons.prems(2) x by auto
    then have "distinct (SpreadAmong ord)" using ok(1) unfolding orders_ok_def by blast
    ultimately show ?case using Cons x by simp
  qed simp
  then show "distinct (concat (map (SpreadAmong \<circ> snd) es))" using d same(2) by simp
  have "set (SpreadAmong ord) \<inter> ?N = {}" if "(a, ord) \<in> set es1" for a ord
    using ok(1) in1 [OF that] unfolding orders_ok_def by blast
  then show "set (concat (map (SpreadAmong \<circ> snd) es)) \<inter> ?N = {}" unfolding same(2) by fastforce
  show "\<forall>(a, ord)\<in>set es. order_of r limit n a ord"
  proof clarify
    fix a ord assume "(a, ord) \<in> set es"
    then obtain i where i: "i < length es" "es ! i = (a, ord)" by (auto simp: in_set_conv_nth)
    have len: "length es = length es1" using same(1) by (metis length_map)
    obtain b ord1 where b: "es1 ! i = (b, ord1)" by fastforce
    have "b = a" "SpreadAmong ord1 = SpreadAmong ord" "oStake ord1 = oStake ord"
      using arg_cong [OF same(1), of "\<lambda>l. l ! i"] arg_cong [OF same(2), of "\<lambda>l. l ! i"] arg_cong [OF same(3), of "\<lambda>l. l ! i"] i b len by auto
    moreover have "(b, ord1) \<in> set es1" using i(1) b len by (metis nth_mem)
    ultimately show "order_of r limit n a ord" using ok(2) in1 order_of_cong by metis
  qed
qed

lemma purchase_keys: "map pKey (all_purchases sh) = concat (map (SpreadAmong \<circ> snd) sh)"
proof -
  have "map pKey (purchases st) = SpreadAmong (snd st)" for st :: "Address \<times> SlotOrder" by (simp add: purchases_def Let_def comp_def)
  then show ?thesis by (induction sh) (simp_all add: all_purchases_def)
qed

lemma winners_ok:
  assumes "Apply es pull ext = Inr (m, ws)" "distinct (concat (map (SpreadAmong \<circ> snd) es))"
  shows "distinct (map pKey ws)" "set (map pKey ws) \<subseteq> set (concat (map (SpreadAmong \<circ> snd) es))" "length ws \<le> nat pull"
proof -
  obtain lo hi where ws: "ws = map (\<lambda>p. p\<lparr>EPoSStake := effectiveStake lo hi (SlotPurchase.RawStake p)\<rparr>) (take (nat pull) (auction_order es))"
    using Apply_inv [OF assms(1)] by blast
  have keys: "map pKey ws = take (nat pull) (map pKey (auction_order es))" by (simp add: ws comp_def take_map)
  have m: "mset (map pKey (auction_order es)) = mset (concat (map (SpreadAmong \<circ> snd) es))"
    by (simp add: mset_auction_order flip: purchase_keys)
  then have "distinct (map pKey (auction_order es))" using assms(2) mset_eq_imp_distinct_iff by blast
  then show "distinct (map pKey ws)" unfolding keys by simp
  show "set (map pKey ws) \<subseteq> set (concat (map (SpreadAmong \<circ> snd) es))"
    unfolding keys using set_take_subset mset_eq_setD [OF m] by metis
  show "length ws \<le> nat pull" by (simp add: ws)
qed

lemma go_map_list_all2: "go_map f xs = Inr ys \<longleftrightarrow> list_all2 (\<lambda>x y. f x = Inr y) xs ys"
proof
  show "go_map f xs = Inr ys \<Longrightarrow> list_all2 (\<lambda>x y. f x = Inr y) xs ys" by (simp add: list_all2_conv_all_nth go_map_length go_map_nth)
  show "list_all2 (\<lambda>x y. f x = Inr y) xs ys \<Longrightarrow> go_map f xs = Inr ys" by (induction rule: list_all2_induct) simp_all
qed

section \<open>Seating the winners\<close>

lemma seat_winners:
  assumes "0 < n" "length shards = n"
  shows "go_fold (seat_winner n) shards ws =
    Inr (map (\<lambda>i. (shards ! i)\<lparr>Slots := Slots (shards ! i) @ map winner_slot (filter (\<lambda>p. nat (uint (pKey p) mod int n) = i) ws)\<rparr>) [0..<n])"
  using assms(2)
proof (induction ws arbitrary: shards)
  case Nil
  then show ?case by (auto intro!: nth_equalityI)
next
  case (Cons p ws)
  define s where "s = nat (uint (pKey p) mod int n)"
  have s: "s < n" using assms(1) by (simp add: s_def nat_less_iff)
  let ?shards = "shards[s := (shards ! s)\<lparr>Slots := Slots (shards ! s) @ [winner_slot p]\<rparr>]"
  have "go_fold (seat_winner n) shards (p # ws) = go_fold (seat_winner n) ?shards ws"
    using assms(1) by (simp add: seat_winner_def Let_def s_def)
  also have "\<dots> = Inr (map (\<lambda>i. (?shards ! i)\<lparr>Slots := Slots (?shards ! i) @ map winner_slot (filter (\<lambda>p. nat (uint (pKey p) mod int n) = i) ws)\<rparr>) [0..<n])"
    using Cons.prems by (intro Cons.IH) simp
  finally show ?case using Cons.prems s by (auto simp: nth_list_update s_def)
qed

text \<open>The keys of all slots, committee by committee.\<close>

definition committee_keys :: "Committee list \<Rightarrow> SerializedPublicKey list" where
  "committee_keys cs = concat (map (\<lambda>c. map BLSPublicKey (Slots c)) cs)"

lemma mset_filter_classes:
  assumes "\<forall>x\<in>set xs. g x < (n :: nat)"
  shows "(\<Sum>i\<leftarrow>[0..<n]. mset (filter (\<lambda>x. g x = i) xs)) = mset xs"
proof -
  have "(\<Sum>i\<leftarrow>[0..<m]. filter_mset (\<lambda>x. g x = i) M) = filter_mset (\<lambda>x. g x < m) M" for m M
    by (induction m) (auto simp: multiset_eq_iff)
  then show ?thesis using assms by (simp add: mset_filter filter_mset_eq_conv)
qed

lemma image_mset_sum_list: "image_mset g (\<Sum>i\<leftarrow>is. f i) = (\<Sum>i\<leftarrow>is. image_mset g (f i))"
  by (induction "is") simp_all

lemma seated_keys:
  assumes "0 < n" "length shards = n" "go_fold (seat_winner n) shards ws = Inr seated"
  shows "mset (committee_keys seated) = mset (committee_keys shards) + mset (map pKey ws)"
proof -
  let ?f = "\<lambda>i. filter (\<lambda>p. nat (uint (pKey p) mod int n) = i) ws"
  have seated: "seated = map (\<lambda>i. (shards ! i)\<lparr>Slots := Slots (shards ! i) @ map winner_slot (?f i)\<rparr>) [0..<n]"
    using assms seat_winners by simp
  have k: "map BLSPublicKey (map winner_slot ps) = map pKey ps" for ps by (simp add: winner_slot_def)
  have "mset (committee_keys seated) = (\<Sum>i\<leftarrow>[0..<n]. mset (map BLSPublicKey (Slots (shards ! i))) + mset (map pKey (?f i)))"
    unfolding seated committee_keys_def mset_concat by (simp add: comp_def k del: map_map flip: map_map [unfolded comp_def]) (simp add: winner_slot_def comp_def)
  also have "\<dots> = (\<Sum>i\<leftarrow>[0..<n]. mset (map BLSPublicKey (Slots (shards ! i)))) + (\<Sum>i\<leftarrow>[0..<n]. mset (map pKey (?f i)))"
    by (simp add: sum_list_addf)
  also have "(\<Sum>i\<leftarrow>[0..<n]. mset (map BLSPublicKey (Slots (shards ! i)))) = mset (committee_keys shards)"
    unfolding committee_keys_def mset_concat using assms(2) map_nth [of shards] by (metis (no_types, lifting) map_map comp_def map_cong)
  also have "(\<Sum>i\<leftarrow>[0..<n]. mset (map pKey (?f i))) = image_mset pKey (\<Sum>i\<leftarrow>[0..<n]. mset (?f i))"
    by (simp add: image_mset_sum_list comp_def)
  also have "(\<Sum>i\<leftarrow>[0..<n]. mset (?f i)) = mset ws"
    using assms(1) by (intro mset_filter_classes) (simp add: nat_less_iff)
  finally show ?thesis by simp
qed

lemma network_shards_shape:
  assumes "network_shards r s = Inr base"
  shows "length base = unat (numShards s)" "i < length base \<Longrightarrow> ShardID (base ! i) = of_nat i"
    "set (committee_keys base) \<subseteq> {k. \<exists>a\<in>set (itcAccounts s). dpHexKey r (daBLSPublicKey a) = Inr k}"
proof -
  let ?slots = "\<lambda>i. go_map (\<lambda>j. itc_slot r (itcAccounts s) (i + j * unat (numShards s))) [0..<nat (numIntelchainOperatedNodesPerShard s)]"
  have all: "list_all2 (\<lambda>i c. go_bind (?slots i) (\<lambda>sl. Inr \<lparr>ShardID = of_nat i, Slots = sl\<rparr>) = Inr c) [0..<unat (numShards s)] base"
    using assms unfolding network_shards_def by (simp add: go_map_list_all2)
  then show len: "length base = unat (numShards s)" by (auto dest: list_all2_lengthD)
  have at: "\<exists>sl. ?slots i = Inr sl \<and> base ! i = \<lparr>ShardID = of_nat i, Slots = sl\<rparr>" if "i < length base" for i
    using list_all2_nthD2 [OF all that] that len by auto
  then show "i < length base \<Longrightarrow> ShardID (base ! i) = of_nat i" by force
  have slot: "\<exists>a\<in>set (itcAccounts s). dpHexKey r (daBLSPublicKey a) = Inr (BLSPublicKey x)" if "itc_slot r (itcAccounts s) j = Inr x" for j x
    using that by (auto simp: itc_slot_def account_at_def split: if_splits)
  show "set (committee_keys base) \<subseteq> {k. \<exists>a\<in>set (itcAccounts s). dpHexKey r (daBLSPublicKey a) = Inr k}"
  proof
    fix k assume "k \<in> set (committee_keys base)"
    then obtain i x where i: "i < length base" "x \<in> set (Slots (base ! i))" "k = BLSPublicKey x"
      by (auto simp: committee_keys_def in_set_conv_nth [of _ base])
    then obtain sl where sl: "?slots i = Inr sl" "x \<in> set sl" using at by fastforce
    then have "\<exists>j. itc_slot r (itcAccounts s) j = Inr x"
      by (auto simp: go_map_list_all2 list_all2_conv_all_nth in_set_conv_nth)
    then show "k \<in> {k. \<exists>a\<in>set (itcAccounts s). dpHexKey r (daBLSPublicKey a) = Inr k}" using slot i(3) by auto
  qed
qed

lemma network_keys_eq: "network_keys r e = {k. \<exists>a\<in>set (itcAccounts (dpInstance r e)). dpHexKey r (daBLSPublicKey a) = Inr k}"
proof -
  have "fold (\<lambda>account keys. case dpHexKey r (daBLSPublicKey account) of Inl _ \<Rightarrow> keys | Inr k \<Rightarrow> insert k keys) as K
      = K \<union> {k. \<exists>a\<in>set as. dpHexKey r (daBLSPublicKey a) = Inr k}" for as K
    by (induction as arbitrary: K) (auto split: sum.splits)
  from this [of "itcAccounts (dpInstance r e)" "{}"] show ?thesis by (simp add: network_keys_def)
qed


section \<open>Samples\<close>

text \<open>
  One shard with one slot of the network and one for sale. The network's account of the new epoch has
  key \<open>k\<close>; the accounts of the current epoch are given.
\<close>

definition sample_account :: DeployAccount where
  "sample_account = \<lparr>daIndex = ''0'', daAddress = ''a'', daBLSPublicKey = ''k'', daShardID = 0\<rparr>"

definition sample_shard :: "int Instance" where
  "sample_shard = Votepower.sample_instance\<lparr>numShards := 1, numNodesPerShard := 2, itcAccounts := [sample_account]\<rparr>"

definition sample_provider :: "SerializedPublicKey \<Rightarrow> DeployAccount list \<Rightarrow> int DataProvider" where
  "sample_provider k now = \<lparr>dpInstance = (\<lambda>e. if e = 200 then sample_shard\<lparr>itcAccounts := now\<rparr> else sample_shard),
     dpHexKey = (\<lambda>_. Inr k), dpHexKeyOrZero = (\<lambda>_. k), dpParseAddr = (\<lambda>_. Inr 1), dpConfig = MainnetChainConfig,
     dpBlockEpoch = 200, dpHeaderEpoch = 200, dpStateAt = Inr (), dpCandidates = [9], dpValidator = (\<lambda>_. Inr sample_wrapper),
     dpSnapshot = (\<lambda>_. Inr \<lparr>snapValidator = sample_wrapper, snapEpoch = 199\<rparr>), dpShardState = (\<lambda>_. Inl (Error ''none'')), dpTestnet = False\<rparr>"

lemma sample_prepare:
  assumes "network_keys (sample_provider k now) 200 \<inter> {4, 6, 8, 5} = {}"
  shows "\<exists>p. prepareOrders (sample_provider k now) 0 1 =
    Inr [(9, \<lparr>oStake = TotalDelegation sample_wrapper, SpreadAmong = [4, 6, 8, 5], Percentage = p\<rparr>)]"
proof -
  let ?T = "TotalDelegation sample_wrapper"
  have T: "0 < ?T" using minimumStake_pos by (simp add: TotalDelegation_sum sample_wrapper_def NewDelegation_def sample_delegation_def)
  have e: "IsEligibleForEPoSAuction \<lparr>snapValidator = sample_wrapper, snapEpoch = 199\<rparr> sample_wrapper = Inr True"
    by (simp add: IsEligibleForEPoSAuction_def sample_wrapper_def sample_validator_def)
  have keys: "SlotPubKeys (theValidator sample_wrapper) = [4, 6, 8, 5]" "vAddress (theValidator sample_wrapper) = 9"
    by (simp_all add: sample_wrapper_def sample_validator_def)
  have stake: "fold (\<lambda>d t. t + Amount d) (Delegations sample_wrapper) 0 = ?T" by (simp add: TotalDelegation_sum sample_wrapper_def)
  have run: "go_fold (order_step (sample_provider k now) 0 1) (network_keys (sample_provider k now) 200, [], 0) [9]
      = Inr (network_keys (sample_provider k now) 200 \<union> {4, 6, 8, 5}, [(9, \<lparr>oStake = ?T, SpreadAmong = [4, 6, 8, 5], Percentage = ZeroDec\<rparr>)], ?T)"
    using assms by (simp add: order_step_def sample_provider_def e keys stake limit_key_def Let_def del: fold_simps) (auto simp: insert_commute)
  obtain q where "Quo (NewDecFromBigInt ?T) (NewDecFromBigInt ?T) = Inr q"
  proof -
    have "chopPrecisionAndRound (quo (?T * precisionReuse * precisionReuse * precisionReuse) (?T * precisionReuse)) = precisionReuse"
      using quo_exact [of "?T * precisionReuse" "precisionReuse * precisionReuse"] chop_round_exact [of precisionReuse] T by (simp add: mult.assoc mult.left_commute)
    then have "Quo (NewDecFromBigInt ?T) (NewDecFromBigInt ?T) = Inr precisionReuse"
      using T by (simp add: Quo_def NewDecFromBigInt_def Let_def fitsDec_iff precisionReuse_def)
    then show thesis using that by blast
  qed
  then show ?thesis using run by (simp add: prepareOrders_def sample_provider_def)
qed

lemma sample_total: "TotalDelegation sample_wrapper = 20000000000000000000100"
  by (simp add: TotalDelegation_sum sample_wrapper_def NewDelegation_def sample_delegation_def minimumStake_def Itc_def TenThousand_def)

lemma sample_round:
  assumes "network_keys (sample_provider k now) 200 \<inter> {4, 6, 8, 5} = {}"
  shows "\<exists>rnd. NewEPoSRound 201 (sample_provider k now) ext 0 1 = Inr rnd \<and> map pKey (AuctionWinners rnd) = [4]"
proof -
  obtain p where es: "prepareOrders (sample_provider k now) 0 1 = Inr [(9, \<lparr>oStake = TotalDelegation sample_wrapper, SpreadAmong = [4, 6, 8, 5], Percentage = p\<rparr>)]"
    using sample_prepare [OF assms] by blast
  have slots: "ExternalSlotsAvailableForEpoch (dpInstance (sample_provider k now)) 201 = 1"
    by (simp add: ExternalSlotsAvailableForEpoch_def sample_provider_def sample_shard_def Votepower.sample_instance_def Let_def)
  have "\<exists>m ws. Apply [(9, \<lparr>oStake = 20000000000000000000100, SpreadAmong = [4, 6, 8, 5], Percentage = p\<rparr>)] 1 ext = Inr (m, ws) \<and> map pKey ws = [4]"
    by (cases ext) (simp_all add: Apply_def Compute_def expand_staker_def by_stake_def Median_def band_factors dec_consts QuoInt64_def quo_nonneg
        precisionReuse_def Mul_def chop_round_nonneg fitsDec_iff Let_def)
  then show ?thesis using es slots by (auto simp: NewEPoSRound_def sample_total Let_def)
qed

lemma sample_network: "network_shards (sample_provider k now) sample_shard = Inr [\<lparr>ShardID = 0, Slots = [\<lparr>EcdsaAddress = 1, BLSPublicKey = k, EffectiveStake = None\<rparr>]\<rparr>]"
  by (simp add: network_shards_def itc_slot_def account_at_def sample_provider_def sample_shard_def Votepower.sample_instance_def)

lemma sample_committees:
  assumes "network_keys (sample_provider k now) 200 \<inter> {4, 6, 8, 5} = {}"
  shows "\<exists>ss rnd. eposStakedCommittee 201 sample_shard (sample_provider k now) = Inr ss
    \<and> NewEPoSRound 201 (sample_provider k now) (IsEPoSBound35 (dpConfig (sample_provider k now)) (Some 201)) (slotsLimit sample_shard) (unat (numShards sample_shard)) = Inr rnd
    \<and> AuctionWinners rnd \<noteq> [] \<and> committee_keys (Shards ss) = [k, 4]"
proof -
  let ?ext = "IsEPoSBound35 (dpConfig (sample_provider k now)) (Some 201)"
  have i: "slotsLimit sample_shard = 0" "unat (numShards sample_shard) = 1" by (simp_all add: sample_shard_def Votepower.sample_instance_def)
  obtain rnd where r: "NewEPoSRound 201 (sample_provider k now) ?ext 0 1 = Inr rnd" "map pKey (AuctionWinners rnd) = [4]"
    using sample_round [OF assms, of ?ext] by (elim exE conjE)
  then obtain p where p: "AuctionWinners rnd = [p]" "pKey p = 4" by auto
  show ?thesis using r p i by (simp add: eposStakedCommittee_def sample_network seat_winner_def Let_def committee_keys_def winner_slot_def)
qed


text \<open>
  The keys an auction avoids are those of the accounts of the current epoch, not of the epoch the
  committee is for. When the next epoch adds an account whose key a validator holds, that key can be
  elected beside it and sits twice in one committee.
\<close>

theorem election_may_repeat_network_key:
  "\<exists>ss. eposStakedCommittee 201 sample_shard (sample_provider 4 []) = Inr ss \<and> committee_keys (Shards ss) = [4, 4]"
proof -
  have "network_keys (sample_provider 4 []) 200 \<inter> {4, 6, 8, 5} = {}" by (simp add: network_keys_eq sample_provider_def sample_shard_def)
  from sample_committees [OF this] show ?thesis by (elim exE conjE) (intro exI conjI)
qed

end
