(* ===== verification/Transition.thy ===== *)
theory Transition
  imports StakeEffects
begin

text \<open>
  Applying one transaction to the state (\<open>core/state_transition.go\<close>): buying and refunding gas, the nonce,
  the value transfer and the fee, around an execution by the virtual machine or a staking message. The
  entry points \<open>Call\<close> and \<open>create\<close> of the machine (\<open>core/vm/evm.go\<close>) are modelled with their snapshot and
  revert; the byte code interpreter and the precompiled contracts they run are a parameter, as are the
  address of a new contract and the RLP decoding of staking messages.
\<close>

section \<open>Gas\<close>

definition MaxUint64 :: uint64 where "MaxUint64 = - 1"

definition TxGas :: uint64 where "TxGas = 21000"
definition TxGasXShard :: uint64 where "TxGasXShard = 23000"
definition TxGasContractCreation :: uint64 where "TxGasContractCreation = 53000"
definition TxGasValidatorCreation :: uint64 where "TxGasValidatorCreation = 5300000"
definition TxDataZeroGas :: uint64 where "TxDataZeroGas = 4"
definition CreateDataGas :: uint64 where "CreateDataGas = 200"
definition CallCreateDepth :: nat where "CallCreateDepth = 1024"
definition TxDataNonZeroGasFrontier :: uint64 where "TxDataNonZeroGasFrontier = 68"
definition TxDataNonZeroGasEIP2028 :: uint64 where "TxDataNonZeroGasEIP2028 = 16"
definition MaxCodeSize :: nat where "MaxCodeSize = 24576"

definition IntrinsicGas :: "bytes \<Rightarrow> bool \<Rightarrow> bool \<Rightarrow> bool \<Rightarrow> bool \<Rightarrow> uint64 go" where
  "IntrinsicGas dat contractCreation homestead istanbul isValidatorCreation =
     (let gas = (if contractCreation \<and> homestead then TxGasContractCreation
                 else if isValidatorCreation then TxGasValidatorCreation else TxGas)
      in if length dat > 0
         then let nz = of_nat (length (filter (\<lambda>byt. byt \<noteq> 0) dat));
                  nonZeroGas = (if istanbul then TxDataNonZeroGasEIP2028 else TxDataNonZeroGasFrontier)
              in if (MaxUint64 - gas) div nonZeroGas < nz then Inl (Error ''ErrOutOfGas'')
                 else let gas = gas + nz * nonZeroGas; z = of_nat (length dat) - nz
                      in if (MaxUint64 - gas) div TxDataZeroGas < z then Inl (Error ''ErrOutOfGas'')
                         else Inr (gas + z * TxDataZeroGas)
         else Inr gas)"

definition AddGas :: "uint64 \<Rightarrow> uint64 \<Rightarrow> uint64 go" where
  "AddGas gp amount = (if gp > MaxUint64 - amount then Inl (Panic ''gas pool pushed above uint64'') else Inr (gp + amount))"

definition SubGas :: "uint64 \<Rightarrow> uint64 \<Rightarrow> uint64 go" where
  "SubGas gp amount = (if gp < amount then Inl (Error ''ErrGasLimitReached'') else Inr (gp - amount))"

section \<open>Messages and the machine\<close>

datatype TransactionType =
    SameShardTx | SubtractionOnly | InvalidTx | StakeCreateVal | StakeEditVal | DelegateTx | UndelegateTx | CollectRewardsTx

record Message =
  msgFrom :: Address
  msgTo :: "Address option"
  msgGasPrice :: int
  msgGas :: uint64
  msgValue :: int
  msgNonce :: uint64
  msgCheckNonce :: bool
  msgData :: bytes
  msgType :: TransactionType

record CXReceipt =
  cxTxHash :: Hash
  cxFrom :: Address
  cxTo :: "Address option"
  cxShardID :: uint32
  cxToShardID :: uint32
  cxAmount :: int

datatype vmError =
    ErrDepth | ErrInsufficientBalance | ErrExecutionReverted | ErrContractAddressCollision
  | ErrCodeStoreOutOfGas | ErrMaxCodeSizeExceeded | ErrOther string

record Contract =
  cCaller :: Address
  cSelf :: Address
  cValue :: int
  cGas :: uint64
  cCodeAddr :: Address
  cCodeHash :: Hash
  cCode :: "bytes option"

text \<open>What an execution leaves: output, gas, error, the receipt a precompile may have made, and the state.\<close>

record RunResult =
  rRet :: bytes
  rGas :: uint64
  rErr :: "vmError option"
  rCX :: "CXReceipt option"
  rDB :: DB

record 'pk EVM =
  evConfig :: ChainConfig
  evEpoch :: int
  evCoinbase :: Address
  evTxType :: TransactionType
  evInstance :: "int \<Rightarrow> 'pk Instance"
  evDepth :: nat
  evNoRecursion :: bool
  evRun :: "Contract \<Rightarrow> bytes \<Rightarrow> bool \<Rightarrow> DB \<Rightarrow> RunResult"
  evCreateAddress :: "Address \<Rightarrow> uint64 \<Rightarrow> Address"

definition Transfer :: "backend \<Rightarrow> DB \<Rightarrow> Address \<Rightarrow> Address \<Rightarrow> int \<Rightarrow> TransactionType \<Rightarrow> DB" where
  "Transfer B db sender recipient amount txType =
     (let db = (if txType = SameShardTx \<or> txType = SubtractionOnly then SubBalance B db sender amount else db)
      in if txType = SameShardTx then AddBalance B db recipient amount else db)"

text \<open>The addresses of the precompiled contracts of an epoch; the entry 252 of the read-only table is nil.\<close>

definition precompiles :: "Rules \<Rightarrow> Address set" where
  "precompiles r =
     (let basic = {1, 2, 3, 4} :: Address set; byzantium = basic \<union> {5, 6, 7, 8}; istanbul = insert 9 byzantium;
          vrf = insert 255 istanbul; sha3 = vrf \<union> {253, 254}; staking = sha3 \<union> {251}
      in if rulesIsStakingPrecompile r then staking
         else if rulesIsSHA3 r then sha3
         else if rulesIsVRF r then vrf
         else if rulesIsIstanbul r then istanbul
         else if rulesIsS3 r then byzantium else basic)"

definition writeCapablePrecompiles :: "Rules \<Rightarrow> Address set" where
  "writeCapablePrecompiles r =
     (if rulesIsCrossShardXferPrecompile r then {249, 252} else if rulesIsStakingPrecompile r then {252} else {})"

text \<open>After an execution: an error takes the state back to the snapshot and, unless the code asked for it, all gas.\<close>

definition settle_run :: "backend \<Rightarrow> int \<Rightarrow> RunResult \<Rightarrow> RunResult go" where
  "settle_run B snapshot r =
     (case rErr r of
        None \<Rightarrow> Inr r
      | Some err \<Rightarrow> go_bind (RevertToSnapshot B (rDB r) snapshot) (\<lambda>db.
          Inr (r\<lparr>rDB := db, rGas := (if err \<noteq> ErrExecutionReverted then 0 else rGas r)\<rparr>)))"

definition enter_call :: "'pk EVM \<Rightarrow> backend \<Rightarrow> DB \<Rightarrow> bool \<Rightarrow> Address \<Rightarrow> Address \<Rightarrow> int \<Rightarrow> DB" where
  "enter_call evm B db absent caller addr value =
     Transfer B (if absent then CreateAccount B db addr else db) caller addr value (evTxType evm)"

text \<open>The code of a validator account is its wrapper and is not run.\<close>

definition call_contract :: "backend \<Rightarrow> DB \<Rightarrow> Address \<Rightarrow> Address \<Rightarrow> uint64 \<Rightarrow> int \<Rightarrow> Contract" where
  "call_contract B db caller addr gas value =
     (let validator = IsValidator B db addr
      in \<lparr>cCaller = caller, cSelf = addr, cValue = value, cGas = gas, cCodeAddr = addr,
          cCodeHash = (if validator then EmptyCodeHash B else GetCodeHash B db addr),
          cCode = (if validator then None else GetCode B db addr)\<rparr>)"

definition Call :: "'pk EVM \<Rightarrow> backend \<Rightarrow> DB \<Rightarrow> Address \<Rightarrow> Address \<Rightarrow> bytes \<Rightarrow> uint64 \<Rightarrow> int \<Rightarrow> RunResult go" where
  "Call evm B db caller addr input gas value =
     (let rules = ChainConfig_Rules (evConfig evm) (Some (evEpoch evm));
          stop = (\<lambda>db err. Inr \<lparr>rRet = [], rGas = gas, rErr = err, rCX = None, rDB = db\<rparr>)
      in if evNoRecursion evm \<and> evDepth evm > 0 then stop db None
         else if evDepth evm > CallCreateDepth then stop db (Some ErrDepth)
         else if \<not> CanTransfer (DB_ops B) db caller value then stop db (Some ErrInsufficientBalance)
         else case Snapshot db of (snapshot, db) \<Rightarrow>
           let absent = (\<not> Exist B db addr \<and> evTxType evm \<noteq> SubtractionOnly)
           in if absent \<and> addr \<notin> writeCapablePrecompiles rules \<and> addr \<notin> precompiles rules
                 \<and> IsS3 (evConfig evm) (Some (evEpoch evm)) \<and> sgn value = 0
              then stop db None
              else
                let db = enter_call evm B db absent caller addr value
                in settle_run B snapshot (evRun evm (call_contract B db caller addr gas value) input False db))"

definition store_code :: "'pk EVM \<Rightarrow> backend \<Rightarrow> Address \<Rightarrow> RunResult \<Rightarrow> RunResult" where
  "store_code evm B addr r =
     (if rErr r = None \<and> \<not> (IsEIP155 (evConfig evm) (Some (evEpoch evm)) \<and> length (rRet r) > MaxCodeSize)
      then let createDataGas = of_nat (length (rRet r)) * CreateDataGas
           in if rGas r \<ge> createDataGas
              then r\<lparr>rGas := rGas r - createDataGas, rDB := SetCode B (rDB r) addr (rRet r) False\<rparr>
              else r\<lparr>rErr := Some ErrCodeStoreOutOfGas\<rparr>
      else r)"

definition evm_create :: "'pk EVM \<Rightarrow> backend \<Rightarrow> DB \<Rightarrow> Address \<Rightarrow> bytes \<Rightarrow> uint64 \<Rightarrow> int \<Rightarrow> Address \<Rightarrow> RunResult go" where
  "evm_create evm B db caller codeBytes gas value addr =
     (let stop = (\<lambda>db left err. Inr \<lparr>rRet = [], rGas = left, rErr = err, rCX = None, rDB = db\<rparr>);
          epoch = Some (evEpoch evm)
      in if evDepth evm > CallCreateDepth then stop db gas (Some ErrDepth)
         else if \<not> CanTransfer (DB_ops B) db caller value then stop db gas (Some ErrInsufficientBalance)
         else
           let db = SetNonce B db caller (GetNonce B db caller + 1); contractHash = GetCodeHash B db addr
           in if GetNonce B db addr \<noteq> 0 \<or> (contractHash \<noteq> 0 \<and> contractHash \<noteq> EmptyCodeHash B)
              then stop db 0 (Some ErrContractAddressCollision)
              else case Snapshot db of (snapshot, db) \<Rightarrow>
                let db = CreateAccount B db addr;
                    db = (if IsEIP155 (evConfig evm) epoch then SetNonce B db addr 1 else db);
                    db = Transfer B db caller addr value SameShardTx
                in if evNoRecursion evm \<and> evDepth evm > 0 then stop db gas None
                   else
                     let contract = \<lparr>cCaller = caller, cSelf = addr, cValue = value, cGas = gas, cCodeAddr = addr,
                           cCodeHash = Keccak256Hash B codeBytes, cCode = Some codeBytes\<rparr>;
                         r = store_code evm B addr (evRun evm contract [] False db);
                         maxCodeSizeExceeded = (IsEIP155 (evConfig evm) epoch \<and> length (rRet r) > MaxCodeSize)
                     in if maxCodeSizeExceeded \<or> (rErr r \<noteq> None \<and> (IsS3 (evConfig evm) epoch \<or> rErr r \<noteq> Some ErrCodeStoreOutOfGas))
                        then go_bind (RevertToSnapshot B (rDB r) snapshot) (\<lambda>db.
                             Inr (r\<lparr>rDB := db, rGas := (if rErr r \<noteq> Some ErrExecutionReverted then 0 else rGas r),
                                    rErr := (if maxCodeSizeExceeded \<and> rErr r = None then Some ErrMaxCodeSizeExceeded else rErr r)\<rparr>))
                        else Inr r)"

definition Create :: "'pk EVM \<Rightarrow> backend \<Rightarrow> DB \<Rightarrow> Address \<Rightarrow> bytes \<Rightarrow> uint64 \<Rightarrow> int \<Rightarrow> RunResult go" where
  "Create evm B db caller codeBytes gas value =
     evm_create evm B db caller codeBytes gas value (evCreateAddress evm caller (GetNonce B db caller))"

section \<open>State transitions\<close>

record StateTransition =
  stGp :: uint64
  stGas :: uint64
  stInitialGas :: uint64
  stDB :: DB

record ExecutionResult =
  ReturnData :: bytes
  UsedGas :: uint64
  VMErr :: "vmError option"
  exCX :: "CXReceipt option"

definition NewStateTransition :: "DB \<Rightarrow> uint64 \<Rightarrow> StateTransition" where
  "NewStateTransition db gp = \<lparr>stGp = gp, stGas = 0, stInitialGas = 0, stDB = db\<rparr>"

definition gasUsed :: "StateTransition \<Rightarrow> uint64" where
  "gasUsed st = stInitialGas st - stGas st"

definition useGas :: "StateTransition \<Rightarrow> uint64 \<Rightarrow> StateTransition go" where
  "useGas st amount = (if stGas st < amount then Inl (Error ''ErrOutOfGas'') else Inr (st\<lparr>stGas := stGas st - amount\<rparr>))"

definition buyGas :: "backend \<Rightarrow> Message \<Rightarrow> StateTransition \<Rightarrow> StateTransition go" where
  "buyGas B msg st =
     (let mgval = uint (msgGas msg) * msgGasPrice msg
      in if GetBalance B (stDB st) (msgFrom msg) < mgval then Inl (Error ''errInsufficientBalanceForGas'')
         else go_bind (SubGas (stGp st) (msgGas msg)) (\<lambda>gp.
              Inr \<lparr>stGp = gp, stGas = stGas st + msgGas msg, stInitialGas = msgGas msg,
                   stDB = SubBalance B (stDB st) (msgFrom msg) mgval\<rparr>))"

definition preCheck :: "backend \<Rightarrow> Message \<Rightarrow> StateTransition \<Rightarrow> StateTransition go" where
  "preCheck B msg st =
     (let nonce = GetNonce B (stDB st) (msgFrom msg)
      in if msgCheckNonce msg \<and> nonce < msgNonce msg then Inl (Error ''ErrNonceTooHigh'')
         else if msgCheckNonce msg \<and> nonce > msgNonce msg then Inl (Error ''ErrNonceTooLow'')
         else buyGas B msg st)"

definition refundGas :: "backend \<Rightarrow> Message \<Rightarrow> StateTransition \<Rightarrow> StateTransition go" where
  "refundGas B msg st =
     (let half = gasUsed st div 2;
          extra = (if half > refund (stDB st) then refund (stDB st) else half);
          gas = stGas st + extra
      in go_bind (AddGas (stGp st) gas) (\<lambda>gp.
           Inr (st\<lparr>stGas := gas, stGp := gp, stDB := AddBalance B (stDB st) (msgFrom msg) (uint gas * msgGasPrice msg)\<rparr>)))"

text \<open>The fee goes to the block producer before staking and to the fee collectors, if there are any, afterwards.\<close>

definition collect_fee :: "backend \<Rightarrow> Dec \<Rightarrow> DB \<Rightarrow> Address \<times> Dec \<Rightarrow> DB go" where
  "collect_fee B txFee db = (\<lambda>(addr, percent).
     go_bind (Mul percent txFee) (\<lambda>collectedFee. Inr (AddBalance B db addr (TruncateInt collectedFee))))"

definition collectGas :: "'pk EVM \<Rightarrow> backend \<Rightarrow> Message \<Rightarrow> StateTransition \<Rightarrow> StateTransition go" where
  "collectGas evm B msg st =
     (let txFee = uint (gasUsed st) * msgGasPrice msg; collectors = feeCollectors (evInstance evm (evEpoch evm))
      in if \<not> IsStaking (evConfig evm) (Some (evEpoch evm))
         then Inr (st\<lparr>stDB := AddBalance B (stDB st) (evCoinbase evm) txFee\<rparr>)
         else if length collectors > 0
         then go_bind (go_fold (collect_fee B (NewDecFromBigInt txFee)) (stDB st) collectors) (\<lambda>db. Inr (st\<lparr>stDB := db\<rparr>))
         else Inr st)"

definition run_message :: "'pk EVM \<Rightarrow> backend \<Rightarrow> Message \<Rightarrow> StateTransition \<Rightarrow> RunResult go" where
  "run_message evm B msg st =
     (case msgTo msg of
        None \<Rightarrow> Create evm B (stDB st) (msgFrom msg) (msgData msg) (stGas st) (msgValue msg)
      | Some to \<Rightarrow>
          let db = SetNonce B (stDB st) (msgFrom msg) (GetNonce B (stDB st) (msgFrom msg) + 1)
          in Call evm B db (msgFrom msg) to (msgData msg) (stGas st) (msgValue msg))"

definition settle :: "'pk EVM \<Rightarrow> backend \<Rightarrow> Message \<Rightarrow> StateTransition \<Rightarrow> StateTransition go" where
  "settle evm B msg st = go_bind (refundGas B msg st) (collectGas evm B msg)"

definition TransitionDb :: "'pk EVM \<Rightarrow> backend \<Rightarrow> Message \<Rightarrow> StateTransition \<Rightarrow> (ExecutionResult \<times> StateTransition) go" where
  "TransitionDb evm B msg st =
     go_bind (preCheck B msg st) (\<lambda>st.
     go_bind (IntrinsicGas (msgData msg) (msgTo msg = None) (IsS3 (evConfig evm) (Some (evEpoch evm)))
                (IsIstanbul (evConfig evm) (Some (evEpoch evm))) False) (\<lambda>gas.
     go_bind (case useGas st gas of Inl (Error _) \<Rightarrow> Inl (Error ''ErrIntrinsicGas'') | r \<Rightarrow> r) (\<lambda>st.
     go_bind (run_message evm B msg st) (\<lambda>r.
     if rErr r = Some ErrInsufficientBalance then Inl (Error ''ErrInsufficientBalance'')
     else go_bind (settle evm B msg (st\<lparr>stGas := rGas r, stDB := rDB r\<rparr>)) (\<lambda>st.
            Inr (\<lparr>ReturnData = rRet r, UsedGas = gasUsed st, VMErr = rErr r, exCX = rCX r\<rparr>, st))))))"

text \<open>
  A failed staking message makes the whole transaction fail; its caller drops the state it left, so
  the fee that the code still charges then has no effect.
\<close>

definition StakingTransitionDb ::
  "('pk, 'sig) bls_lib \<Rightarrow> (bytes \<Rightarrow> TransactionType \<Rightarrow> StakeMsg go) \<Rightarrow> 'pk EVM \<Rightarrow> backend \<Rightarrow> Header \<Rightarrow> ChainContext \<Rightarrow> Message \<Rightarrow> StateTransition \<Rightarrow>
   (uint64 \<times> StateTransition) go" where
  "StakingTransitionDb lib decode evm B ref chain msg st =
     go_bind (preCheck B msg st) (\<lambda>st.
     go_bind (IntrinsicGas (msgData msg) False (IsS3 (evConfig evm) (Some (evEpoch evm)))
                (IsIstanbul (evConfig evm) (Some (evEpoch evm))) (msgType msg = StakeCreateVal)) (\<lambda>gas.
     go_bind (useGas st gas) (\<lambda>st.
     let db = SetNonce B (stDB st) (msgFrom msg) (GetNonce B (stDB st) (msgFrom msg) + 1) in
     if msgType msg \<notin> {StakeCreateVal, StakeEditVal, DelegateTx, UndelegateTx, CollectRewardsTx}
     then Inl (Error ''ErrInvalidStakingKind'')
     else go_bind (decode (msgData msg) (msgType msg)) (\<lambda>stkMsg.
          go_bind (stake_call lib (evInstance evm) (Keccak256Hash B) (DB_ops B) ref chain (msgFrom msg) db stkMsg) (\<lambda>db.
          go_bind (settle evm B msg (st\<lparr>stDB := db\<rparr>)) (\<lambda>st.
            Inr (gasUsed st, st)))))))"

section \<open>Intrinsic gas\<close>

definition intrinsic_cost :: "bytes \<Rightarrow> bool \<Rightarrow> bool \<Rightarrow> bool \<Rightarrow> bool \<Rightarrow> nat" where
  "intrinsic_cost dat contractCreation homestead istanbul isValidatorCreation =
     (if contractCreation \<and> homestead then 53000 else if isValidatorCreation then 5300000 else 21000)
     + length (filter (\<lambda>b. b \<noteq> 0) dat) * (if istanbul then 16 else 68)
     + length (filter (\<lambda>b. b = 0) dat) * 4"

lemma max_minus: "unat (MaxUint64 - g) = 2 ^ 64 - 1 - unat g"
proof -
  have max: "unat MaxUint64 = 2 ^ 64 - 1" by (simp add: MaxUint64_def unsigned_minus_1_eq_mask mask_eq_exp_minus_1)
  have "g \<le> MaxUint64" using max unsigned_less [of g, where 'a = nat] by (simp add: word_le_nat_alt)
  then show ?thesis using max by (simp add: unat_sub)
qed

lemma gas_fits:
  fixes g c n :: uint64
  assumes "0 < c"
  shows "(MaxUint64 - g) div c < n \<longleftrightarrow> 2 ^ 64 \<le> unat g + unat n * unat c"
proof -
  have "(MaxUint64 - g) div c < n \<longleftrightarrow> unat (MaxUint64 - g) div unat c < unat n" by (simp add: word_less_nat_alt unat_div)
  also have "\<dots> \<longleftrightarrow> unat (MaxUint64 - g) < unat n * unat c"
    using assms by (simp add: div_less_iff_less_mult word_less_nat_alt)
  also have "\<dots> \<longleftrightarrow> 2 ^ 64 \<le> unat g + unat n * unat c" using max_minus [of g] unsigned_less [of g, where 'a = nat] by auto
  finally show ?thesis .
qed

lemma unat_step:
  fixes g c n :: uint64
  assumes "unat g + unat n * unat c < 2 ^ 64"
  shows "unat (g + n * c) = unat g + unat n * unat c"
proof -
  have "unat (n * c) = unat n * unat c" using assms by (subst unat_mult_lem [THEN iffD1]) simp_all
  then show ?thesis using assms by (subst unat_add_lem [THEN iffD1]) simp_all
qed

text \<open>
  C33: The intrinsic gas of a message is its base cost plus sixteen or sixty-eight units per non-zero
  byte and four per zero byte, computed without wrap-around: the check reports an error exactly when
  the true cost does not fit into 64 bits.
\<close>

theorem IntrinsicGas_exact:
  assumes "length dat < 2 ^ 64"
  shows "IntrinsicGas dat contractCreation homestead istanbul isValidatorCreation =
    (let cost = intrinsic_cost dat contractCreation homestead istanbul isValidatorCreation
     in if cost < 2 ^ 64 then Inr (of_nat cost) else Inl (Error ''ErrOutOfGas''))"
proof -
  let ?g = "if contractCreation \<and> homestead then TxGasContractCreation else if isValidatorCreation then TxGasValidatorCreation else TxGas"
  let ?c = "if istanbul then TxDataNonZeroGasEIP2028 else TxDataNonZeroGasFrontier"
  let ?n = "length (filter (\<lambda>b. b \<noteq> 0) dat)" and ?m = "length (filter (\<lambda>b. b = 0) dat)"
  have len: "length dat = ?n + ?m" using sum_length_filter_compl [of "\<lambda>b. b = 0" dat] by simp
  have g: "unat ?g = (if contractCreation \<and> homestead then 53000 else if isValidatorCreation then 5300000 else 21000)"
    by (simp add: TxGas_def TxGasContractCreation_def TxGasValidatorCreation_def)
  have c: "unat ?c = (if istanbul then 16 else 68)" "0 < ?c" by (simp_all add: TxDataNonZeroGasEIP2028_def TxDataNonZeroGasFrontier_def)
  have z: "unat TxDataZeroGas = 4" "0 < TxDataZeroGas" by (simp_all add: TxDataZeroGas_def)
  have n: "unat (of_nat ?n :: uint64) = ?n" "unat (of_nat ?m :: uint64) = ?m" using len assms by (simp_all add: unat_of_nat)
  have sub: "of_nat (length dat) - of_nat ?n = (of_nat ?m :: uint64)" by (simp add: len)
  let ?g1 = "?g + of_nat ?n * ?c"
  have cost: "intrinsic_cost dat contractCreation homestead istanbul isValidatorCreation = unat ?g + ?n * unat ?c + ?m * 4"
    using g c by (simp add: intrinsic_cost_def)
  show ?thesis
  proof (cases "2 ^ 64 \<le> unat ?g + ?n * unat ?c")
    case True
    then have "(MaxUint64 - ?g) div ?c < of_nat ?n" using gas_fits [OF c(2)] n by simp
    moreover have "dat \<noteq> []" using True g by (auto split: if_splits)
    ultimately show ?thesis using True cost by (simp add: IntrinsicGas_def Let_def)
  next
    case False
    then have f: "\<not> (MaxUint64 - ?g) div ?c < of_nat ?n" using gas_fits [OF c(2)] n by simp
    have u: "unat ?g1 = unat ?g + ?n * unat ?c" using unat_step [of ?g "of_nat ?n" ?c] False n by simp
    have k: "(MaxUint64 - ?g1) div TxDataZeroGas < of_nat ?m \<longleftrightarrow> 2 ^ 64 \<le> unat ?g1 + ?m * 4"
      using gas_fits [OF z(2), of ?g1 "of_nat ?m"] n z by simp
    have r: "unat (?g1 + of_nat ?m * TxDataZeroGas) = unat ?g1 + ?m * 4" if "unat ?g1 + ?m * 4 < 2 ^ 64"
      using unat_step [of ?g1 "of_nat ?m" TxDataZeroGas] that n z by simp
    show ?thesis
    proof (cases "dat = []")
      case True
      then show ?thesis by (simp add: IntrinsicGas_def Let_def intrinsic_cost_def TxGas_def TxGasContractCreation_def TxGasValidatorCreation_def)
    next
      case d: False
      show ?thesis
      proof (cases "unat ?g1 + ?m * 4 < 2 ^ 64")
        case True
        have "?g1 + of_nat ?m * TxDataZeroGas = of_nat (unat (?g1 + of_nat ?m * TxDataZeroGas))" by simp
        also have "\<dots> = of_nat (intrinsic_cost dat contractCreation homestead istanbul isValidatorCreation)" unfolding r [OF True] u cost ..
        finally show ?thesis using d f k u cost True sub by (simp add: IntrinsicGas_def Let_def)
      next
        case False
        then show ?thesis using d f k u cost sub by (simp add: IntrinsicGas_def Let_def)
      qed
    qed
  qed
qed

theorem IntrinsicGas_exact_witness: "IntrinsicGas [0, 7, 9] False True True False = Inr 21036"
  using IntrinsicGas_exact [of "[0, 7, 9]" False True True False] by (simp add: intrinsic_cost_def)

section \<open>Nonces and accounts\<close>

lemma GetNonce_live: "GetNonce B db a = (case live_obj B db a of Some s \<Rightarrow> Nonce (data s) | None \<Rightarrow> 0)"
  by (simp add: GetNonce_def getStateObject_live)

lemma GetNonce_upd [simp]:
  "GetNonce B (journal_append e db) = GetNonce B db" "GetNonce B (db\<lparr>dirties := x\<rparr>) = GetNonce B db"
  by (simp_all add: fun_eq_iff GetNonce_live)

lemma GetOrNew_nonce:
  assumes "GetOrNewStateObject B db a = (s, db')" "db_ok db"
  shows "GetNonce B db' = GetNonce B db" "Nonce (data s) = GetNonce B db a"
  using GetOrNew_live(1,2) [OF assms]
  by (auto simp: fun_eq_iff GetNonce_live newObject_def emptyAccount_def split: option.splits)

lemma setObject_nonce:
  "address s' = a \<Longrightarrow> \<not> deleted s' \<Longrightarrow> GetNonce B (setStateObject s' db) = (GetNonce B db)(a := Nonce (data s'))"
  by (auto simp: fun_eq_iff GetNonce_live live_obj_set cong: option.case_cong)

lemma balance_nonce:
  assumes "db_ok db"
  shows "GetNonce B (AddBalance B db a x) = GetNonce B db" "GetNonce B (SubBalance B db a x) = GetNonce B db"
proof -
  obtain s db1 where g: "GetOrNewStateObject B db a = (s, db1)" by fastforce
  note l = GetOrNew_live(4,5) [OF g assms] and n = GetOrNew_nonce [OF g assms]
  have "Nonce (data (Object_setBalance y s)) = GetNonce B db a" for y using n by (simp add: Object_setBalance_def)
  then show "GetNonce B (AddBalance B db a x) = GetNonce B db" "GetNonce B (SubBalance B db a x) = GetNonce B db"
    using l n by (auto simp: AddBalance_def SubBalance_def g Let_def setObject_nonce)
qed

lemma SetNonce_effect:
  assumes "db_ok db"
  shows "GetNonce B (SetNonce B db a n) = (GetNonce B db)(a := n)" "GetBalance B (SetNonce B db a n) = GetBalance B db"
    "GetCode B (SetNonce B db a n) = GetCode B db" "trie_ok B \<Longrightarrow> GetState B (SetNonce B db a n) = GetState B db"
    "stateValidators (SetNonce B db a n) = stateValidators db" "Exist B (SetNonce B db a n) a"
proof -
  obtain s db1 where g: "GetOrNewStateObject B db a = (s, db1)" by fastforce
  note r = GetOrNew_reads [OF g assms] and l = GetOrNew_live [OF g assms] and m = GetOrNew_nonce [OF g assms]
  have s: "live_obj B db1 a = Some s" using l(2) [of a] by simp
  let ?s = "Object_setNonce n s" and ?db = "journal_append (nonceChange a (Nonce (data s))) db1"
  have c: "Object_Code B ?s = Object_Code B s" by (rule Object_Code_cong) (simp_all add: Object_setNonce_def)
  have v: "vState (obj_view B d ?s) = vState (obj_view B d s)" for d by (simp add: obj_view_put put_nonce_def)
  have e: "SetNonce B db a n = setStateObject ?s ?db" using l(4) by (simp add: SetNonce_def g)
  have "live_obj B ?db a = Some s" "address ?s = a" "\<not> deleted ?s" using s l(4,5) by simp_all
  note w = setObject_reads [OF this]
  show "GetNonce B (SetNonce B db a n) = (GetNonce B db)(a := n)"
    using l(4,5) m(1) by (simp add: e setObject_nonce Object_setNonce_def)
  have b: "Balance (data s) = GetBalance B db a" "Object_Code B s = GetCode B db a" using fun_cong [OF r(1), of a] fun_cong [OF r(2), of a] s by (simp_all add: read_live(1,2) [of B db1])
  show "GetBalance B (SetNonce B db a n) = GetBalance B db" "GetCode B (SetNonce B db a n) = GetCode B db"
    "stateValidators (SetNonce B db a n) = stateValidators db"
    using w(1,2) l(3) r(1,2) b c by (auto simp: e)
  have st: "vState (obj_view B (a \<in> stateObjectsDestruct db1) s) = GetState B db1 a" using s by (simp add: fun_eq_iff read_live)
  show "GetState B (SetNonce B db a n) = GetState B db" if "trie_ok B" using w(3) r(3) [OF that] st v by (auto simp: e)
  show "Exist B (SetNonce B db a n) a" using l(4,5) by (simp add: e Exist_def getStateObject_live live_obj_set)
qed

section \<open>Payments\<close>

text \<open>A change of the state in which only balances move, account \<open>a\<close> by \<open>f a\<close>.\<close>

definition pays :: "backend \<Rightarrow> (Address \<Rightarrow> int) \<Rightarrow> DB \<Rightarrow> DB \<Rightarrow> bool" where
  "pays B f db db' \<longleftrightarrow> db_ok db' \<and> GetBalance B db' = (\<lambda>a. GetBalance B db a + f a) \<and> GetNonce B db' = GetNonce B db
     \<and> GetCode B db' = GetCode B db \<and> GetState B db' = GetState B db \<and> stateValidators db' = stateValidators db"

definition at_only :: "Address \<Rightarrow> int \<Rightarrow> Address \<Rightarrow> int" where
  "at_only a x b = (if b = a then x else 0)"

lemma pays_none: "db_ok db \<Longrightarrow> pays B (\<lambda>_. 0) db db" by (simp add: pays_def)

lemma pays_trans: "pays B f db db1 \<Longrightarrow> pays B g db1 db2 \<Longrightarrow> pays B (\<lambda>a. f a + g a) db db2"
  by (simp add: pays_def fun_eq_iff)

lemma pays_add: "trie_ok B \<Longrightarrow> db_ok db \<Longrightarrow> pays B (at_only a x) db (AddBalance B db a x)"
  using AddBalance_journaled [of db B a x] by (simp add: pays_def at_only_def AddBalance_effect balance_nonce journaled_def fun_eq_iff)

lemma pays_sub: "trie_ok B \<Longrightarrow> db_ok db \<Longrightarrow> pays B (at_only a (- x)) db (SubBalance B db a x)"
  using SubBalance_journaled [of db B a x] by (simp add: pays_def at_only_def SubBalance_effect balance_nonce journaled_def fun_eq_iff)

lemma sum_at_only [simp]: "(\<Sum>a\<in>UNIV. at_only b x a) = x"
  by (simp add: at_only_def)

lemma pays_ledger:
  assumes "pays B f db db'" "db_inv B db"
  shows "db_inv B db'" "lWrap (ledger B db') = lWrap (ledger B db)" "lFlag (ledger B db') = lFlag (ledger B db)"
    "total_tokens (ledger B db') = total_tokens (ledger B db) + (\<Sum>a\<in>UNIV. f a)"
proof -
  have p: "db_ok db'" "GetBalance B db' = (\<lambda>a. GetBalance B db a + f a)" "GetCode B db' = GetCode B db" "GetState B db' = GetState B db"
    "stateValidators db' = stateValidators db" using assms(1) by (simp_all add: pays_def)
  show "db_inv B db'" using p(1,5) assms(2) by (simp add: db_inv_def)
  show w: "lWrap (ledger B db') = lWrap (ledger B db)" "lFlag (ledger B db') = lFlag (ledger B db)"
    using p(3-5) by (simp_all add: ledger_def wrapper_at_eq)
  show "total_tokens (ledger B db') = total_tokens (ledger B db) + (\<Sum>a\<in>UNIV. f a)"
    using w p(2) by (simp add: total_tokens_def held_def ledger_sel sum.distrib [symmetric] algebra_simps)
qed

section \<open>Fees\<close>

text \<open>What account \<open>a\<close> receives of a fee; a collector gets its percentage, cut down to a whole unit.\<close>

definition fee_to :: "'pk EVM \<Rightarrow> int \<Rightarrow> Address \<Rightarrow> int" where
  "fee_to evm fee a =
     (if \<not> IsStaking (evConfig evm) (Some (evEpoch evm)) then at_only (evCoinbase evm) fee a
      else sum_list (map (\<lambda>(addr, percent). at_only addr (quo (percent * fee) precisionReuse) a)
             (feeCollectors (evInstance evm (evEpoch evm)))))"

lemma collect_fee_pays:
  assumes "trie_ok B" "db_ok db" "collect_fee B (NewDecFromBigInt fee) db (addr, percent) = Inr db'"
  shows "pays B (at_only addr (quo (percent * fee) precisionReuse)) db db'"
proof -
  have "chopPrecisionAndRound (percent * (fee * precisionReuse)) = percent * fee"
    using bankers.exact [of "percent * fee"] by (simp add: mult.assoc)
  then show ?thesis using assms pays_add [OF assms(1,2)]
    by (auto simp: collect_fee_def Mul_def NewDecFromBigInt_def TruncateInt_def chopPrecisionAndTruncateNonMutative_def chopPrecisionAndTruncate_def)
qed

lemma collect_fees_pay:
  assumes "trie_ok B" "db_ok db" "go_fold (collect_fee B (NewDecFromBigInt fee)) db cs = Inr db'"
  shows "pays B (\<lambda>a. sum_list (map (\<lambda>(addr, percent). at_only addr (quo (percent * fee) precisionReuse) a) cs)) db db'"
  using assms(2,3)
proof (induction cs arbitrary: db)
  case (Cons c0 cs)
  obtain addr percent where c: "c0 = (addr, percent)" by fastforce
  obtain db1 where 1: "collect_fee B (NewDecFromBigInt fee) db (addr, percent) = Inr db1" "go_fold (collect_fee B (NewDecFromBigInt fee)) db1 cs = Inr db'"
    using Cons.prems c by auto
  note p = collect_fee_pays [OF assms(1) Cons.prems(1) 1(1)]
  then have "db_ok db1" by (simp add: pays_def)
  from pays_trans [OF p Cons.IH [OF this 1(2)]] show ?case by (simp add: c)
qed (simp add: pays_none)

lemma collectGas_pays:
  assumes "trie_ok B" "db_ok (stDB st)" "collectGas evm B msg st = Inr st'"
  shows "pays B (fee_to evm (uint (gasUsed st) * msgGasPrice msg)) (stDB st) (stDB st')
    \<and> stGp st' = stGp st \<and> stGas st' = stGas st \<and> stInitialGas st' = stInitialGas st"
proof (cases "IsStaking (evConfig evm) (Some (evEpoch evm))")
  case False
  then show ?thesis using assms pays_add [OF assms(1,2)] by (auto simp: collectGas_def fee_to_def [abs_def])
next
  case True
  let ?cs = "feeCollectors (evInstance evm (evEpoch evm))"
  show ?thesis
  proof (cases "?cs = []")
    case True
    then show ?thesis using \<open>IsStaking _ _\<close> assms by (auto simp: collectGas_def fee_to_def [abs_def] pays_none)
  next
    case False
    then obtain db' where "go_fold (collect_fee B (NewDecFromBigInt (uint (gasUsed st) * msgGasPrice msg))) (stDB st) ?cs = Inr db'" "st' = st\<lparr>stDB := db'\<rparr>"
      using \<open>IsStaking _ _\<close> assms(3) by (auto simp: collectGas_def)
    then show ?thesis using collect_fees_pay [OF assms(1,2)] \<open>IsStaking _ _\<close> by (simp add: fee_to_def [abs_def])
  qed
qed

lemma refundGas_gas:
  assumes "stGas st \<le> stInitialGas st" "refundGas B msg st = Inr st'"
  shows "stGas st \<le> stGas st' \<and> stGas st' \<le> stInitialGas st \<and> stInitialGas st' = stInitialGas st
    \<and> unat (stGp st') = unat (stGp st) + unat (stGas st')
    \<and> stDB st' = AddBalance B (stDB st) (msgFrom msg) (uint (stGas st') * msgGasPrice msg)"
proof -
  let ?half = "gasUsed st div 2"
  let ?extra = "if ?half > refund (stDB st) then refund (stDB st) else ?half"
  let ?gas = "stGas st + ?extra"
  obtain gp where gp: "AddGas (stGp st) ?gas = Inr gp"
    "st' = st\<lparr>stGas := ?gas, stGp := gp, stDB := AddBalance B (stDB st) (msgFrom msg) (uint ?gas * msgGasPrice msg)\<rparr>"
    using assms(2) by (auto simp: refundGas_def Let_def)
  have u: "unat (gasUsed st) = unat (stInitialGas st) - unat (stGas st)" using assms(1) by (simp add: gasUsed_def unat_sub)
  have b: "unat ?extra \<le> unat (gasUsed st) div 2" by (auto simp: word_less_nat_alt unat_div not_less)
  have le: "unat (stGas st) \<le> unat (stInitialGas st)" using assms(1) by (simp add: word_le_nat_alt)
  have g: "unat ?gas = unat (stGas st) + unat ?extra" "unat ?gas \<le> unat (stInitialGas st)"
  proof -
    have s: "unat (stGas st) + unat ?extra \<le> unat (stInitialGas st)" using u b le by linarith
    then have "unat (stGas st) + unat ?extra < 2 ^ 64" using unsigned_less [of "stInitialGas st", where 'a = nat] by simp
    then show "unat ?gas = unat (stGas st) + unat ?extra" by (subst unat_add_lem [THEN iffD1]) simp_all
    then show "unat ?gas \<le> unat (stInitialGas st)" using s by simp
  qed
  have "unat gp = unat (stGp st) + unat ?gas"
    using gp(1) max_minus [of ?gas] unsigned_less [of ?gas, where 'a = nat]
    by (auto simp: AddGas_def word_less_nat_alt not_less split: if_splits intro!: unat_add_lem [THEN iffD1])
  then show ?thesis using gp(2) g by (simp add: word_le_nat_alt)
qed

lemma collectGas_gas:
  assumes "collectGas evm B msg st = Inr st'"
  shows "stGp st' = stGp st" "stGas st' = stGas st" "stInitialGas st' = stInitialGas st"
  using assms by (auto simp: collectGas_def Let_def split: if_splits)

lemma refundGas_pays:
  assumes "trie_ok B" "db_ok (stDB st)" "stGas st \<le> stInitialGas st" "refundGas B msg st = Inr st'"
  shows "pays B (at_only (msgFrom msg) (uint (stGas st') * msgGasPrice msg)) (stDB st) (stDB st')
    \<and> stGas st \<le> stGas st' \<and> stGas st' \<le> stInitialGas st \<and> stInitialGas st' = stInitialGas st
    \<and> unat (stGp st') = unat (stGp st) + unat (stGas st')"
  using refundGas_gas [OF assms(3,4)] pays_add [OF assms(1,2)] by simp

section \<open>Buying and settling gas\<close>

lemma preCheck_pays:
  assumes "trie_ok B" "db_ok db" "preCheck B msg (NewStateTransition db gp) = Inr st"
  shows "pays B (at_only (msgFrom msg) (- (uint (msgGas msg) * msgGasPrice msg))) db (stDB st)"
    "stGas st = msgGas msg" "stInitialGas st = msgGas msg" "unat (stGp st) + unat (msgGas msg) = unat gp"
    "uint (msgGas msg) * msgGasPrice msg \<le> GetBalance B db (msgFrom msg)" "msgCheckNonce msg \<Longrightarrow> GetNonce B db (msgFrom msg) = msgNonce msg"
    "journaled B db (stDB st)" "\<And>base. db_run B base db (stDB st)"
proof -
  let ?cost = "uint (msgGas msg) * msgGasPrice msg"
  have b: "buyGas B msg (NewStateTransition db gp) = Inr st" and n: "msgCheckNonce msg \<Longrightarrow> GetNonce B db (msgFrom msg) = msgNonce msg"
    using assms(3) by (auto simp: preCheck_def NewStateTransition_def Let_def split: if_splits)
  have "\<not> GetBalance B db (msgFrom msg) < ?cost" "\<not> gp < msgGas msg"
    "st = \<lparr>stGp = gp - msgGas msg, stGas = msgGas msg, stInitialGas = msgGas msg, stDB = SubBalance B db (msgFrom msg) ?cost\<rparr>"
    using b by (auto simp: buyGas_def SubGas_def NewStateTransition_def Let_def split: if_splits)
  then show "pays B (at_only (msgFrom msg) (- ?cost)) db (stDB st)" "stGas st = msgGas msg" "stInitialGas st = msgGas msg"
    "unat (stGp st) + unat (msgGas msg) = unat gp" "?cost \<le> GetBalance B db (msgFrom msg)" "journaled B db (stDB st)"
    using pays_sub [OF assms(1,2)] SubBalance_journaled [OF assms(2)] by (simp_all add: unat_sub not_less word_le_nat_alt)
  show "db_run B base db (stDB st)" for base
    using \<open>st = _\<close> db_run.step [OF db_run.refl db_step.op [where c = "OpSubBalance (msgFrom msg) ?cost"]] by simp
  show "GetNonce B db (msgFrom msg) = msgNonce msg" if "msgCheckNonce msg" using that by (rule n)
qed

lemma preCheck_gas:
  assumes "preCheck B msg (NewStateTransition db gp) = Inr st"
  shows "stGas st = msgGas msg" "stInitialGas st = msgGas msg" "unat (stGp st) + unat (msgGas msg) = unat gp"
  using assms by (auto simp: preCheck_def buyGas_def SubGas_def NewStateTransition_def Let_def not_less unat_sub word_le_nat_alt split: if_splits)

lemma settle_gas:
  assumes "settle evm B msg st = Inr st'" "stGas st \<le> stInitialGas st"
  shows "stGas st' \<le> stInitialGas st" "stInitialGas st' = stInitialGas st" "unat (stGp st') = unat (stGp st) + unat (stGas st')"
proof -
  obtain st1 where 1: "refundGas B msg st = Inr st1" "collectGas evm B msg st1 = Inr st'" using assms(1) by (auto simp: settle_def)
  show "stGas st' \<le> stInitialGas st" "stInitialGas st' = stInitialGas st" "unat (stGp st') = unat (stGp st) + unat (stGas st')"
    using refundGas_gas [OF assms(2) 1(1)] collectGas_gas [OF 1(2)] by simp_all
qed

lemma gas_sum:
  assumes "preCheck B msg (NewStateTransition db gp) = Inr st1" "settle evm B msg st2 = Inr st'"
    "stGas st2 \<le> msgGas msg" "stInitialGas st2 = msgGas msg" "stGp st2 = stGp st1"
  shows "gasUsed st' \<le> msgGas msg" "unat (stGp st') + unat (gasUsed st') = unat gp" "unat (stGas st') + unat (gasUsed st') = unat (msgGas msg)"
proof -
  have le: "stGas st2 \<le> stInitialGas st2" using assms(3,4) by simp
  note s = settle_gas [OF assms(2) le] and p = preCheck_gas [OF assms(1)]
  have u: "unat (gasUsed st') = unat (msgGas msg) - unat (stGas st')" using s(1,2) assms(4) by (simp add: gasUsed_def unat_sub)
  have g: "unat (stGas st') \<le> unat (msgGas msg)" using s(1) assms(4) by (simp add: word_le_nat_alt)
  show "gasUsed st' \<le> msgGas msg" "unat (stGp st') + unat (gasUsed st') = unat gp" "unat (stGas st') + unat (gasUsed st') = unat (msgGas msg)"
    using u g p(3) s(3) assms(5) by (simp_all add: word_le_nat_alt)
qed

lemma settle_pays:
  assumes "trie_ok B" "db_ok (stDB st)" "stGas st \<le> stInitialGas st" "settle evm B msg st = Inr st'"
  shows "pays B (\<lambda>a. at_only (msgFrom msg) (uint (stGas st') * msgGasPrice msg) a + fee_to evm (uint (gasUsed st') * msgGasPrice msg) a) (stDB st) (stDB st')"
    "stGas st \<le> stGas st'" "stGas st' \<le> stInitialGas st" "stInitialGas st' = stInitialGas st" "unat (stGp st') = unat (stGp st) + unat (stGas st')"
proof -
  obtain st1 where 1: "refundGas B msg st = Inr st1" "collectGas evm B msg st1 = Inr st'" using assms(4) by (auto simp: settle_def)
  note r = refundGas_pays [OF assms(1-3) 1(1)]
  have ok: "db_ok (stDB st1)" using r by (simp add: pays_def)
  note c = collectGas_pays [OF assms(1) ok 1(2)]
  have "gasUsed st1 = gasUsed st'" using c by (simp add: gasUsed_def)
  then show "pays B (\<lambda>a. at_only (msgFrom msg) (uint (stGas st') * msgGasPrice msg) a + fee_to evm (uint (gasUsed st') * msgGasPrice msg) a) (stDB st) (stDB st')"
    using pays_trans [of B _ "stDB st" "stDB st1" _ "stDB st'"] r c by metis
  show "stGas st \<le> stGas st'" "stGas st' \<le> stInitialGas st" "stInitialGas st' = stInitialGas st" "unat (stGp st') = unat (stGp st) + unat (stGas st')"
    using r c by simp_all
qed

text \<open>Buying at the start and settling at the end: the sender is out of pocket for the gas used.\<close>

lemma gas_balance:
  assumes "preCheck B msg (NewStateTransition db gp) = Inr st1" "trie_ok B" "db_ok db"
    "settle evm B msg st2 = Inr st'" "db_ok (stDB st2)" "stGas st2 \<le> msgGas msg" "stInitialGas st2 = msgGas msg" "stGp st2 = stGp st1"
  shows "gasUsed st' \<le> msgGas msg" "unat (stGp st') + unat (gasUsed st') = unat gp"
    "pays B (\<lambda>a. at_only (msgFrom msg) (uint (msgGas msg) * msgGasPrice msg - uint (gasUsed st') * msgGasPrice msg) a
       + fee_to evm (uint (gasUsed st') * msgGasPrice msg) a) (stDB st2) (stDB st')"
proof -
  have le: "stGas st2 \<le> stInitialGas st2" using assms(6,7) by simp
  note g = gas_sum [OF assms(1,4,6-8)] and s = settle_pays [OF assms(2,5) le assms(4)]
  show "gasUsed st' \<le> msgGas msg" "unat (stGp st') + unat (gasUsed st') = unat gp" by (rule g(1,2))+
  have "uint (stGas st') = uint (msgGas msg) - uint (gasUsed st')" unfolding uint_nat using g(3) by linarith
  then have "uint (stGas st') * msgGasPrice msg = uint (msgGas msg) * msgGasPrice msg - uint (gasUsed st') * msgGasPrice msg"
    by (simp add: left_diff_distrib)
  then show "pays B (\<lambda>a. at_only (msgFrom msg) (uint (msgGas msg) * msgGasPrice msg - uint (gasUsed st') * msgGasPrice msg) a
       + fee_to evm (uint (gasUsed st') * msgGasPrice msg) a) (stDB st2) (stDB st')" using s(1) by simp
qed

section \<open>Executions that fail\<close>

text \<open>
  What the interpreter promises: it changes the state only through operations of the state, takes
  back only snapshots of its own, and returns no more gas than it was given.
\<close>

definition run_journaled :: "backend \<Rightarrow> (Contract \<Rightarrow> bytes \<Rightarrow> bool \<Rightarrow> DB \<Rightarrow> RunResult) \<Rightarrow> bool" where
  "run_journaled B run \<longleftrightarrow> (\<forall>contract input readOnly db. rGas (run contract input readOnly db) \<le> cGas contract
     \<and> (\<forall>base < nextRevisionId db. db_run B base db (rDB (run contract input readOnly db))))"

lemma db_run_trans: "db_run B base db1 db2 \<Longrightarrow> db_run B base db db1 \<Longrightarrow> db_run B base db db2"
  by (induction rule: db_run.induct) (auto intro: db_run.step)

text \<open>Steps before the interpreter starts, which take no snapshot.\<close>

definition plain :: "backend \<Rightarrow> DB \<Rightarrow> DB \<Rightarrow> bool" where
  "plain B db db' \<longleftrightarrow> (\<forall>base. db_run B base db db') \<and> journaled B db db'"

lemma plain_refl: "db_ok db \<Longrightarrow> plain B db db" by (auto simp: plain_def intro: db_run.refl journaled_refl)

lemma plain_trans: "plain B db db1 \<Longrightarrow> plain B db1 db2 \<Longrightarrow> plain B db db2"
  by (auto simp: plain_def intro: db_run_trans journaled_trans)

lemma plain_op: "exec B cmd db = Inr db' \<Longrightarrow> journaled B db db' \<Longrightarrow> plain B db db'"
  by (auto simp: plain_def intro: db_run.step [OF db_run.refl db_step.op])

lemma plain_ops:
  assumes "db_ok db"
  shows "plain B db (SetNonce B db a n)" "plain B db (CreateAccount B db a)" "plain B db (AddBalance B db a x)" "plain B db (SubBalance B db a x)"
    "plain B db (SetCode B db a c0 v)"
  using plain_op [where cmd = "OpSetNonce a n" and B = B and db = db] plain_op [where cmd = "OpCreateAccount a" and B = B and db = db]
    plain_op [where cmd = "OpAddBalance a x" and B = B and db = db] plain_op [where cmd = "OpSubBalance a x" and B = B and db = db]
    plain_op [where cmd = "OpSetCode a c0 v" and B = B and db = db]
    SetNonce_journaled CreateAccount_journaled AddBalance_journaled SubBalance_journaled SetCode_journaled assms by simp_all

lemma plain_ok: "plain B db db' \<Longrightarrow> db_ok db'" by (simp add: plain_def journaled_def)

lemma plain_Transfer: "db_ok db \<Longrightarrow> plain B db (Transfer B db s r x t)"
  using plain_ops(3,4) plain_trans plain_ok plain_refl unfolding Transfer_def Let_def by (smt (verit))

lemma run_after_snapshot:
  assumes "run_journaled B run" "Snapshot db = (revid, db1)" "plain B db1 db2"
  shows "db_run B revid db1 (rDB (run contract input readOnly db2))"
proof -
  have "revid < nextRevisionId db2" using assms(2,3) by (auto simp: Snapshot_def plain_def journaled_def)
  then have "db_run B revid db2 (rDB (run contract input readOnly db2))" using assms(1) by (simp add: run_journaled_def)
  moreover have "db_run B revid db1 db2" using assms(3) by (simp add: plain_def)
  ultimately show ?thesis by (rule db_run_trans)
qed

lemma run_gas: "run_journaled B run \<Longrightarrow> rGas (run contract input readOnly db) \<le> cGas contract"
  unfolding run_journaled_def by blast

lemma revertible_op:
  assumes "rev_inv B db ws" "exec B cmd db = Inr db'"
  shows "rev_inv B db' ws"
proof -
  have ok: "db_ok db" "access_ok (theAccessList db)" using assms(1) by (simp_all add: rev_inv_def)
  show ?thesis by (rule rev_inv_journaled [OF assms(1) exec_journaled [OF assms(2) ok] exec_access [OF assms(2) ok]])
qed

lemma failed_run_reverts:
  assumes "rev_inv B db ws" "run_journaled B run" "Snapshot db = (revid, db1)" "plain B db1 db2"
  shows "\<exists>db3. RevertToSnapshot B (rDB (run contract input readOnly db2)) revid = Inr db3 \<and> world B db3 = world B db \<and> db_ok db3"
  using revert_restores [OF run_inv_any [OF assms(1)] assms(3) run_after_snapshot [OF assms(2-4)]] by (fastforce simp: rev_inv_def)

lemma Snapshot_ok: "Snapshot db = (revid, db1) \<Longrightarrow> db_ok db1 = db_ok db"
  by (auto simp: Snapshot_def db_ok_def)

lemma Call_cases:
  assumes "evDepth evm = 0" "Call evm B db caller addr input gas value = Inr r" "Snapshot db = (revid, db1)"
  obtains (poor) "rErr r = Some ErrInsufficientBalance"
  | (nothing) "r = \<lparr>rRet = [], rGas = gas, rErr = None, rCX = None, rDB = db1\<rparr>" "value = 0"
  | (run) absent where "settle_run B revid (evRun evm (call_contract B (enter_call evm B db1 absent caller addr value) caller addr gas value)
        input False (enter_call evm B db1 absent caller addr value)) = Inr r"
      "absent = (\<not> Exist B db1 addr \<and> evTxType evm \<noteq> SubtractionOnly)" "value \<le> GetBalance B db caller"
proof -
  let ?absent = "\<not> Exist B db1 addr \<and> evTxType evm \<noteq> SubtractionOnly"
  show thesis
  proof (cases "CanTransfer (DB_ops B) db caller value")
    case False
    then show thesis using poor assms by (auto simp: Call_def Let_def CallCreateDepth_def)
  next
    case True
    then have "settle_run B revid (evRun evm (call_contract B (enter_call evm B db1 ?absent caller addr value) caller addr gas value)
        input False (enter_call evm B db1 ?absent caller addr value)) = Inr r \<or> r = \<lparr>rRet = [], rGas = gas, rErr = None, rCX = None, rDB = db1\<rparr> \<and> value = 0"
      using assms by (simp add: Call_def Let_def CallCreateDepth_def sgn_0_0 split: if_split_asm)
    then show thesis
    proof (elim disjE conjE)
      assume "settle_run B revid (evRun evm (call_contract B (enter_call evm B db1 ?absent caller addr value) caller addr gas value)
        input False (enter_call evm B db1 ?absent caller addr value)) = Inr r"
      then show thesis using run [OF _ HOL.refl] True by (simp add: CanTransfer_def)
    qed (rule nothing)
  qed
qed

lemma enter_call_plain: "db_ok db \<Longrightarrow> plain B db (enter_call evm B db absent caller addr value)"
proof -
  assume ok: "db_ok db"
  have p: "plain B db (if absent then CreateAccount B db addr else db)" using plain_ops(2) plain_refl ok by simp
  show ?thesis unfolding enter_call_def by (rule plain_trans [OF p plain_Transfer [OF plain_ok [OF p]]])
qed

lemma call_contract_gas [simp]: "cGas (call_contract B db caller addr gas value) = gas"
  by (simp add: call_contract_def Let_def)

lemma settle_run_failed:
  assumes "settle_run B revid r0 = Inr r" "rErr r \<noteq> None"
  shows "RevertToSnapshot B (rDB r0) revid = Inr (rDB r) \<and> rGas r \<le> rGas r0 \<and> rErr r0 = rErr r"
  using assms by (cases "rErr r0") (auto simp: settle_run_def)

lemma Call_failed:
  assumes "rev_inv B db ws" "run_journaled B (evRun evm)" "evDepth evm = 0"
    "Call evm B db caller addr input gas value = Inr r" "rErr r \<noteq> None" "rErr r \<noteq> Some ErrInsufficientBalance"
  shows "world B (rDB r) = world B db \<and> db_ok (rDB r) \<and> rGas r \<le> gas"
proof -
  obtain revid db1 where s: "Snapshot db = (revid, db1)" by fastforce
  have ok: "db_ok db1" using assms(1) Snapshot_ok [OF s] by (simp add: rev_inv_def)
  from assms(3,4) s show ?thesis
  proof (cases rule: Call_cases)
    case (run absent)
    let ?db2 = "enter_call evm B db1 absent caller addr value"
    let ?c = "call_contract B ?db2 caller addr gas value"
    note f = settle_run_failed [OF run(1) assms(5)]
    have "rGas (evRun evm ?c input False ?db2) \<le> gas" using run_gas [OF assms(2), of ?c] by simp
    then show ?thesis using f failed_run_reverts [OF assms(1,2) s enter_call_plain [OF ok, of B evm absent caller addr "value"], of ?c input False] by auto
  qed (use assms(5,6) in auto)
qed

lemma store_code_shape:
  "store_code evm B addr r = r \<or> (\<exists>g. store_code evm B addr r = r\<lparr>rGas := g, rDB := SetCode B (rDB r) addr (rRet r) False\<rparr> \<and> g \<le> rGas r \<and> rErr r = None
       \<and> \<not> (IsEIP155 (evConfig evm) (Some (evEpoch evm)) \<and> length (rRet r) > MaxCodeSize))
   \<or> store_code evm B addr r = r\<lparr>rErr := Some ErrCodeStoreOutOfGas\<rparr>"
  by (auto simp: store_code_def Let_def word_sub_le)

lemma create_failed:
  assumes "rev_inv B db ws" "run_journaled B (evRun evm)" "evDepth evm = 0" "IsS3 (evConfig evm) (Some (evEpoch evm))"
    "evm_create evm B db caller codeBytes gas value addr = Inr r" "rErr r \<noteq> None" "rErr r \<noteq> Some ErrInsufficientBalance"
  shows "world B (rDB r) = world B (SetNonce B db caller (GetNonce B db caller + 1)) \<and> db_ok (rDB r) \<and> rGas r \<le> gas"
proof -
  let ?db = "SetNonce B db caller (GetNonce B db caller + 1)"
  have inv: "rev_inv B ?db ws" by (rule revertible_op [OF assms(1), where cmd = "OpSetNonce caller (GetNonce B db caller + 1)"]) simp
  obtain revid db1 where s: "Snapshot ?db = (revid, db1)" by fastforce
  have ok: "db_ok db1" "db_ok ?db" using inv Snapshot_ok [OF s] by (simp_all add: rev_inv_def)
  let ?db2 = "CreateAccount B db1 addr"
  let ?db3 = "if IsEIP155 (evConfig evm) (Some (evEpoch evm)) then SetNonce B ?db2 addr 1 else ?db2"
  let ?db4 = "Transfer B ?db3 caller addr value SameShardTx"
  have p2: "plain B db1 ?db2" by (rule plain_ops(2) [OF ok(1)])
  have p3: "plain B db1 ?db3" using plain_trans [OF p2 plain_ops(1) [OF plain_ok [OF p2]]] p2 by simp
  have p4: "plain B db1 ?db4" by (rule plain_trans [OF p3 plain_Transfer [OF plain_ok [OF p3]]])
  define contract where "contract = \<lparr>cCaller = caller, cSelf = addr, cValue = value, cGas = gas, cCodeAddr = addr, cCodeHash = Keccak256Hash B codeBytes, cCode = Some codeBytes\<rparr>"
  let ?run = "evRun evm contract [] False ?db4"
  let ?s = "store_code evm B addr ?run"
  let ?big = "IsEIP155 (evConfig evm) (Some (evEpoch evm)) \<and> length (rRet ?s) > MaxCodeSize"
  have g: "rGas ?run \<le> gas" using run_gas [OF assms(2), of contract] by (simp add: contract_def)
  obtain db5 where 5: "RevertToSnapshot B (rDB ?run) revid = Inr db5" "world B db5 = world B ?db" "db_ok db5"
    using failed_run_reverts [OF inv assms(2) s p4] by blast
  have cases: "r = \<lparr>rRet = [], rGas = 0, rErr = Some ErrContractAddressCollision, rCX = None, rDB = ?db\<rparr>
      \<or> (?big \<or> rErr ?s \<noteq> None) \<and> (\<exists>db6. RevertToSnapshot B (rDB ?s) revid = Inr db6 \<and> rDB r = db6 \<and> rGas r \<le> rGas ?s)"
    using assms(3-7) s
    by (auto simp: evm_create_def Let_def CallCreateDepth_def contract_def [symmetric] split: if_splits)
  show ?thesis
  proof (cases "?big \<or> rErr ?s \<noteq> None")
    case True
    then have "rDB ?s = rDB ?run" "rGas ?s \<le> gas" using store_code_shape [of evm B addr ?run] g by auto
    then show ?thesis using cases 5 ok(2) by auto
  next
    case False
    then show ?thesis using cases ok(2) by auto
  qed
qed

lemma run_message_failed:
  assumes "rev_inv B (stDB st) ws" "run_journaled B (evRun evm)" "evDepth evm = 0" "IsS3 (evConfig evm) (Some (evEpoch evm))"
    "run_message evm B msg st = Inr r" "rErr r \<noteq> None" "rErr r \<noteq> Some ErrInsufficientBalance"
  shows "world B (rDB r) = world B (SetNonce B (stDB st) (msgFrom msg) (GetNonce B (stDB st) (msgFrom msg) + 1)) \<and> db_ok (rDB r) \<and> rGas r \<le> stGas st"
proof (cases "msgTo msg")
  case None
  then show ?thesis using assms(5) create_failed [OF assms(1-4) _ assms(6,7)] by (auto simp: run_message_def Create_def)
next
  case (Some to)
  let ?db = "SetNonce B (stDB st) (msgFrom msg) (GetNonce B (stDB st) (msgFrom msg) + 1)"
  have inv: "rev_inv B ?db ws"
    by (rule revertible_op [OF assms(1), where cmd = "OpSetNonce (msgFrom msg) (GetNonce B (stDB st) (msgFrom msg) + 1)"]) simp
  show ?thesis using assms(5) Some Call_failed [OF inv assms(2,3) _ assms(6,7)] by (auto simp: run_message_def Let_def)
qed

lemma world_nonce: "GetNonce B db a = (case live (world B db) a of Some v \<Rightarrow> Nonce (vData v) | None \<Rightarrow> 0)"
  by (simp add: GetNonce_live live_world live_obj_def obj_view_def split: option.split)

lemma TransitionDb_parts:
  assumes "TransitionDb evm B msg (NewStateTransition db gp) = Inr (res, st)"
  obtains st1 gas r where "preCheck B msg (NewStateTransition db gp) = Inr st1" "gas \<le> msgGas msg"
    "run_message evm B msg (st1\<lparr>stGas := msgGas msg - gas\<rparr>) = Inr r" "rErr r \<noteq> Some ErrInsufficientBalance"
    "settle evm B msg (st1\<lparr>stGas := rGas r, stDB := rDB r\<rparr>) = Inr st"
    "res = \<lparr>ReturnData = rRet r, UsedGas = gasUsed st, VMErr = rErr r, exCX = rCX r\<rparr>"
    "IntrinsicGas (msgData msg) (msgTo msg = None) (IsS3 (evConfig evm) (Some (evEpoch evm))) (IsIstanbul (evConfig evm) (Some (evEpoch evm))) False = Inr gas"
proof -
  obtain st1 where 1: "preCheck B msg (NewStateTransition db gp) = Inr st1" using assms by (auto simp: TransitionDb_def)
  note p = preCheck_gas [OF 1]
  obtain gas where g: "IntrinsicGas (msgData msg) (msgTo msg = None) (IsS3 (evConfig evm) (Some (evEpoch evm))) (IsIstanbul (evConfig evm) (Some (evEpoch evm))) False = Inr gas"
    using assms 1 by (auto simp: TransitionDb_def)
  have le: "gas \<le> msgGas msg" using assms 1 g p(1) by (auto simp: TransitionDb_def useGas_def split: if_splits)
  have u: "useGas st1 gas = Inr (st1\<lparr>stGas := msgGas msg - gas\<rparr>)" using le p(1) by (simp add: useGas_def)
  obtain r where r: "run_message evm B msg (st1\<lparr>stGas := msgGas msg - gas\<rparr>) = Inr r" using assms 1 g u by (auto simp: TransitionDb_def)
  then have "rErr r \<noteq> Some ErrInsufficientBalance" "settle evm B msg (st1\<lparr>stGas := rGas r, stDB := rDB r\<rparr>) = Inr st"
    "res = \<lparr>ReturnData = rRet r, UsedGas = gasUsed st, VMErr = rErr r, exCX = rCX r\<rparr>"
    using assms 1 g u by (auto simp: TransitionDb_def split: if_splits)
  then show thesis using that 1 le r g by blast
qed


section \<open>Calls that succeed\<close>

lemma Snapshot_pays: "db_ok db \<Longrightarrow> Snapshot db = (revid, db1) \<Longrightarrow> pays B (\<lambda>_. 0) db db1"
  by (auto simp: pays_def Snapshot_def db_ok_def fun_eq_iff read_live GetNonce_live live_obj_def obj_at_def cong: option.case_cong)

lemma CreateAccount_pays:
  assumes "db_ok db" "trie_ok B" "\<not> Exist B db a"
  shows "pays B (\<lambda>_. 0) db (CreateAccount B db a)"
proof -
  obtain n p db1 where c: "createObject B db a = (n, p, db1)" by (metis prod_cases3)
  note l = createObject_live [OF c]
  have none: "live_obj B db a = None" using assms(3) by (simp add: Exist_def getStateObject_live)
  then have "p = None" using c
    by (auto simp: createObject_def getDeletedStateObject_def live_obj_def obj_at_def Let_def split: option.splits if_splits)
  then have e: "CreateAccount B db a = db1" by (simp add: CreateAccount_def c)
  have ok: "db_ok db1" using CreateAccount_journaled [OF assms(1), of B a] e by (simp add: journaled_def)
  have d: "b \<noteq> a \<Longrightarrow> (b \<in> stateObjectsDestruct db1) = (b \<in> stateObjectsDestruct db)" for b
    using l(4) l(5) [OF assms(1)] by (cases "obj_at B db a") auto
  have "GetState B db1 b k = GetState B db b k" for b k
    using l(1) l(2) [of b] none d newObject_state [OF assms(2)] by (cases "b = a") (auto simp: read_live split: option.split)
  moreover have "GetBalance B db1 b = GetBalance B db b" "GetCode B db1 b = GetCode B db b" "GetNonce B db1 b = GetNonce B db b" for b
    using l(1) l(2) [of b] none by (auto simp: read_live GetNonce_live newObject_def emptyAccount_def Object_Code_def split: option.split)
  ultimately show ?thesis using ok l(3) e by (simp add: pays_def fun_eq_iff)
qed

text \<open>What a value transfer of a kind moves.\<close>

definition moved :: "TransactionType \<Rightarrow> Address \<Rightarrow> Address \<Rightarrow> int \<Rightarrow> Address \<Rightarrow> int" where
  "moved t s r x a = (if t = SameShardTx \<or> t = SubtractionOnly then at_only s (- x) a else 0) + (if t = SameShardTx then at_only r x a else 0)"

lemma sum_moved: "(\<Sum>a\<in>UNIV. moved t s r x a) = (if t = SubtractionOnly then - x else 0)"
  by (cases t) (simp_all add: moved_def sum.distrib)

lemma Transfer_pays:
  assumes "trie_ok B" "db_ok db"
  shows "pays B (moved t s r x) db (Transfer B db s r x t)"
proof -
  note p = pays_sub [OF assms, of s x]
  then have "db_ok (SubBalance B db s x)" by (simp add: pays_def)
  note q = pays_trans [OF p pays_add [OF assms(1) this]]
  show ?thesis using p q pays_none [OF assms(2)] by (cases t) (simp_all add: Transfer_def moved_def [abs_def])
qed

lemma enter_call_pays:
  assumes "trie_ok B" "db_ok db" "Snapshot db = (revid, db1)" "absent \<Longrightarrow> \<not> Exist B db1 addr"
  shows "pays B (moved (evTxType evm) caller addr x) db (enter_call evm B db1 absent caller addr x)"
proof -
  have s: "pays B (\<lambda>_. 0) db db1" by (rule Snapshot_pays [OF assms(2,3)])
  then have ok: "db_ok db1" by (simp add: pays_def)
  have c: "pays B (\<lambda>_. 0) db1 (if absent then CreateAccount B db1 addr else db1)"
    using CreateAccount_pays [OF ok assms(1)] pays_none [OF ok] assms(4) by simp
  then have ok2: "db_ok (if absent then CreateAccount B db1 addr else db1)" unfolding pays_def by simp
  from pays_trans [OF pays_trans [OF s c] Transfer_pays [OF assms(1) ok2]] show ?thesis by (simp add: enter_call_def)
qed

text \<open>What the interpreter promises of tokens and nonces when it succeeds.\<close>

definition run_frugal :: "backend \<Rightarrow> (Contract \<Rightarrow> bytes \<Rightarrow> bool \<Rightarrow> DB \<Rightarrow> RunResult) \<Rightarrow> bool" where
  "run_frugal B run \<longleftrightarrow> (\<forall>contract input readOnly db. db_inv B db \<longrightarrow> rErr (run contract input readOnly db) = None \<longrightarrow>
     db_inv B (rDB (run contract input readOnly db))
     \<and> total_tokens (ledger B (rDB (run contract input readOnly db))) \<le> total_tokens (ledger B db)
     \<and> (\<forall>a. GetNonce B db a \<le> GetNonce B (rDB (run contract input readOnly db)) a))"

lemma Call_succeeded:
  assumes "db_inv B db" "run_journaled B (evRun evm)" "run_frugal B (evRun evm)" "evDepth evm = 0"
    "Call evm B db caller addr input gas x = Inr r" "rErr r = None"
  shows "db_inv B (rDB r) \<and> rGas r \<le> gas \<and> (\<forall>a. GetNonce B db a \<le> GetNonce B (rDB r) a)
    \<and> total_tokens (ledger B (rDB r)) \<le> total_tokens (ledger B db) - (if evTxType evm = SubtractionOnly then x else 0)"
proof -
  obtain revid db1 where s: "Snapshot db = (revid, db1)" by fastforce
  have ok: "trie_ok B" "db_ok db" using assms(1) by (simp_all add: db_inv_def)
  from assms(4,5) s show ?thesis
  proof (cases rule: Call_cases)
    case nothing
    then show ?thesis using Snapshot_pays [OF ok(2) s, of B] pays_ledger [OF Snapshot_pays [OF ok(2) s] assms(1)] by (simp add: pays_def)
  next
    case (run absent)
    let ?db2 = "enter_call evm B db1 absent caller addr x"
    let ?c = "call_contract B ?db2 caller addr gas x"
    let ?r = "evRun evm ?c input False ?db2"
    have r: "r = ?r" "rErr ?r = None" using run(1) assms(6) by (cases "rErr ?r"; auto simp: settle_run_def)+
    have p: "pays B (moved (evTxType evm) caller addr x) db ?db2"
      by (rule enter_call_pays [OF ok s]) (use run(2) in simp)
    note l = pays_ledger [OF p assms(1)]
    have f: "db_inv B (rDB ?r)" "total_tokens (ledger B (rDB ?r)) \<le> total_tokens (ledger B ?db2)" "\<forall>a. GetNonce B ?db2 a \<le> GetNonce B (rDB ?r) a"
      using assms(3) l(1) r(2) by (simp_all add: run_frugal_def)
    have "GetNonce B ?db2 = GetNonce B db" using p by (simp add: pays_def)
    then show ?thesis using f l(4) r(1) run_gas [OF assms(2), of ?c input False ?db2] by (auto simp: sum_moved)
  qed (use assms(6) in simp)
qed

lemma SetNonce_ledger:
  assumes "db_inv B db"
  shows "db_inv B (SetNonce B db a n)" "ledger B (SetNonce B db a n) = ledger B db"
proof -
  have ok: "db_ok db" "trie_ok B" using assms by (simp_all add: db_inv_def)
  note e = SetNonce_effect [OF ok(1), of B a n]
  show "db_inv B (SetNonce B db a n)" using assms plain_ok [OF plain_ops(1) [OF ok(1)]] e(5) by (simp add: db_inv_def)
  show "ledger B (SetNonce B db a n) = ledger B db" using e(2,3,5) e(4) [OF ok(2)] by (simp add: ledger_def wrapper_at_eq)
qed

text \<open>The shares of the fee collectors are not negative and add up to at most the whole fee.\<close>

definition fair_fees :: "'pk EVM \<Rightarrow> bool" where
  "fair_fees evm \<longleftrightarrow> (\<forall>percent\<in>set (map snd (feeCollectors (evInstance evm (evEpoch evm)))). 0 \<le> percent)
     \<and> sum_list (map snd (feeCollectors (evInstance evm (evEpoch evm)))) \<le> precisionReuse"

lemma sum_shares_le:
  assumes "\<forall>percent\<in>set (map snd cs). 0 \<le> percent" "0 \<le> fee"
  shows "sum_list (map (\<lambda>(addr, percent). quo (percent * fee) precisionReuse) cs) * precisionReuse \<le> sum_list (map snd cs) * fee"
  using assms(1)
proof (induction cs)
  case (Cons c0 cs)
  obtain addr percent where c: "c0 = (addr, percent)" by fastforce
  have pos: "0 \<le> percent * fee" "0 < precisionReuse" using Cons.prems assms(2) c by (simp_all add: precisionReuse_def)
  then have "quo (percent * fee) precisionReuse * precisionReuse \<le> percent * fee"
    by (simp add: quo_nonneg minus_mod_eq_div_mult [symmetric])
  then show ?case using Cons.IH Cons.prems c by (simp add: distrib_right)
qed simp

lemma fee_to_sum: "(\<Sum>a\<in>UNIV. sum_list (map (\<lambda>(addr, percent). at_only addr (f percent) a) cs)) = sum_list (map (\<lambda>(addr, percent). f percent) cs)"
  by (induction cs) (auto simp: sum.distrib)

lemma fee_to_nonneg:
  assumes "fair_fees evm" "0 \<le> fee"
  shows "0 \<le> fee_to evm fee a"
proof -
  have "0 \<le> quo (percent * fee) precisionReuse" if "0 \<le> percent" for percent
    using that assms(2) by (simp add: quo_nonneg precisionReuse_def pos_imp_zdiv_nonneg_iff)
  then show ?thesis using assms by (fastforce simp: fee_to_def at_only_def fair_fees_def intro!: sum_list_nonneg)
qed

lemma fees_paid_le:
  assumes "fair_fees evm" "0 \<le> fee"
  shows "(\<Sum>a\<in>UNIV. fee_to evm fee a) \<le> fee"
proof (cases "IsStaking (evConfig evm) (Some (evEpoch evm))")
  case True
  let ?cs = "feeCollectors (evInstance evm (evEpoch evm))"
  let ?s = "sum_list (map (\<lambda>(addr, percent). quo (percent * fee) precisionReuse) ?cs)"
  have "?s * precisionReuse \<le> sum_list (map snd ?cs) * fee"
    by (rule sum_shares_le) (use assms in \<open>simp_all add: fair_fees_def\<close>)
  also have "\<dots> \<le> precisionReuse * fee" using assms by (intro mult_right_mono) (simp_all add: fair_fees_def)
  finally have "?s \<le> fee" by (simp add: mult.commute precisionReuse_def)
  then show ?thesis using True fee_to_sum [of "\<lambda>percent. quo (percent * fee) precisionReuse" ?cs] by (simp add: fee_to_def)
next
  case False
  then show ?thesis by (simp add: fee_to_def)
qed

lemma next_nonce:
  assumes "n \<noteq> MaxUint64"
  shows "n < n + 1"
proof -
  have "unat n \<noteq> unat MaxUint64" using assms by (simp add: word_unat_eq_iff)
  moreover have "unat MaxUint64 = 2 ^ 64 - 1" using max_minus [of 0] by simp
  ultimately have "unat n + 1 < 2 ^ 64" using unsigned_less [of n, where 'a = nat] by simp
  then have "unat (n + 1) = unat n + 1" using unat_add_lem [of n 1] by simp
  then show ?thesis by (simp add: word_less_nat_alt)
qed


section \<open>Staking transactions\<close>

text \<open>A payment that leaves no account with a negative balance keeps the books.\<close>

lemma pays_keeps:
  assumes "pays B f db db'" "db_inv B db" "ledger_ok (ledger B db)"
  shows "ledger_ok (ledger B db')" "keys_unique (ledger B db') = keys_unique (ledger B db)"
    "chain_ok (ledger B db') chain = chain_ok (ledger B db) chain"
    "lBal (ledger B db') a = lBal (ledger B db) a + f a" "banned_at (ledger B db') a = banned_at (ledger B db) a"
proof -
  note l = pays_ledger [OF assms(1,2)]
  show "ledger_ok (ledger B db')" "keys_unique (ledger B db') = keys_unique (ledger B db)"
    "chain_ok (ledger B db') chain = chain_ok (ledger B db) chain" "banned_at (ledger B db') a = banned_at (ledger B db) a"
    using l(2,3) assms(3) by (simp_all add: ledger_ok_def keys_unique_def keys_at_def chain_ok_def banned_at_def)
  show "lBal (ledger B db') a = lBal (ledger B db) a + f a" using assms(1) by (simp add: pays_def ledger_sel)
qed

lemma StakingTransitionDb_parts:
  assumes "StakingTransitionDb lib decode evm B ref chain msg (NewStateTransition db gp) = Inr (used, st)"
  obtains st1 gas stkMsg db2 where "preCheck B msg (NewStateTransition db gp) = Inr st1" "gas \<le> msgGas msg"
    "decode (msgData msg) (msgType msg) = Inr stkMsg"
    "stake_call lib (evInstance evm) (Keccak256Hash B) (DB_ops B) ref chain (msgFrom msg)
       (SetNonce B (stDB st1) (msgFrom msg) (GetNonce B (stDB st1) (msgFrom msg) + 1)) stkMsg = Inr db2"
    "settle evm B msg (st1\<lparr>stGas := msgGas msg - gas, stDB := db2\<rparr>) = Inr st" "used = gasUsed st"
proof -
  obtain st1 where 1: "preCheck B msg (NewStateTransition db gp) = Inr st1" using assms by (auto simp: StakingTransitionDb_def)
  note p = preCheck_gas [OF 1]
  from assms 1 p(1) show thesis
    by (auto simp: StakingTransitionDb_def useGas_def Let_def not_less split: if_splits intro: that)
qed

section \<open>Gas alone\<close>

text \<open>The interpreter gives back no more gas than it got; then so do the entry points.\<close>

definition run_bounded :: "(Contract \<Rightarrow> bytes \<Rightarrow> bool \<Rightarrow> DB \<Rightarrow> RunResult) \<Rightarrow> bool" where
  "run_bounded run \<longleftrightarrow> (\<forall>contract input readOnly db. rGas (run contract input readOnly db) \<le> cGas contract)"

lemma settle_run_gas: "settle_run B revid r0 = Inr r \<Longrightarrow> rGas r \<le> rGas r0"
  by (auto simp: settle_run_def split: option.split_asm if_splits)

lemma Call_gas:
  assumes "run_bounded (evRun evm)" "Call evm B db caller addr input gas x = Inr r"
  shows "rGas r \<le> gas"
proof -
  obtain revid db1 where s: "Snapshot db = (revid, db1)" by fastforce
  have "rGas r = gas \<or> (\<exists>db2. settle_run B revid (evRun evm (call_contract B db2 caller addr gas x) input False db2) = Inr r)"
    using assms(2) s by (auto simp: Call_def Let_def split: if_splits)
  then show ?thesis
  proof (elim disjE exE)
    fix db2 assume "settle_run B revid (evRun evm (call_contract B db2 caller addr gas x) input False db2) = Inr r"
    then show ?thesis using settle_run_gas assms(1) unfolding run_bounded_def by (metis call_contract_gas order_trans)
  qed simp
qed

lemma create_gas:
  assumes "run_bounded (evRun evm)" "evm_create evm B db caller codeBytes gas x addr = Inr r"
  shows "rGas r \<le> gas"
proof -
  obtain revid db1 where s: "Snapshot (SetNonce B db caller (GetNonce B db caller + 1)) = (revid, db1)" by fastforce
  have run: "rGas (evRun evm c [] False db2) \<le> cGas c" for c db2 using assms(1) by (simp add: run_bounded_def)
  have "rGas (store_code evm B addr r0) \<le> rGas r0" for r0 using store_code_shape [of evm B addr r0] by auto
  then have "rGas (store_code evm B addr (evRun evm c [] False db2)) \<le> cGas c" for c db2 using run order_trans by blast
  then have st: "rGas (store_code evm B addr (evRun evm c [] False db2)) \<le> gas" if "cGas c = gas" for c db2 using that by metis
  show ?thesis using assms(2) s by (auto simp: evm_create_def Let_def st split: if_splits)
qed

lemma run_message_gas:
  assumes "run_bounded (evRun evm)" "run_message evm B msg st = Inr r"
  shows "rGas r \<le> stGas st"
  using assms Call_gas create_gas by (fastforce simp: run_message_def Create_def Let_def split: option.splits)

lemma TransitionDb_gas:
  assumes "TransitionDb evm B msg (NewStateTransition db gp) = Inr (res, st)" "run_bounded (evRun evm)"
  shows "UsedGas res \<le> msgGas msg" "unat (stGp st) + unat (UsedGas res) = unat gp"
proof -
  from assms(1) obtain st1 gas r where 1: "preCheck B msg (NewStateTransition db gp) = Inr st1" "gas \<le> msgGas msg"
    "run_message evm B msg (st1\<lparr>stGas := msgGas msg - gas\<rparr>) = Inr r"
    "settle evm B msg (st1\<lparr>stGas := rGas r, stDB := rDB r\<rparr>) = Inr st"
    "res = \<lparr>ReturnData = rRet r, UsedGas = gasUsed st, VMErr = rErr r, exCX = rCX r\<rparr>" by (rule TransitionDb_parts)
  have "rGas r \<le> msgGas msg - gas" using run_message_gas [OF assms(2) 1(3)] by simp
  then have "rGas r \<le> msgGas msg" using word_sub_le [OF 1(2)] by (rule order_trans)
  then show "UsedGas res \<le> msgGas msg" "unat (stGp st) + unat (UsedGas res) = unat gp"
    using gas_sum [OF 1(1,4)] preCheck_gas [OF 1(1)] 1(5) by simp_all
qed

lemma StakingTransitionDb_gas:
  assumes "StakingTransitionDb lib decode evm B ref chain msg (NewStateTransition db gp) = Inr (used, st)"
  shows "used \<le> msgGas msg" "unat (stGp st) + unat used = unat gp"
proof -
  from assms obtain st1 gas stkMsg db2 where 1: "preCheck B msg (NewStateTransition db gp) = Inr st1" "gas \<le> msgGas msg"
    "decode (msgData msg) (msgType msg) = Inr stkMsg"
    "settle evm B msg (st1\<lparr>stGas := msgGas msg - gas, stDB := db2\<rparr>) = Inr st" "used = gasUsed st" by (rule StakingTransitionDb_parts)
  show "used \<le> msgGas msg" "unat (stGp st) + unat used = unat gp"
    using gas_sum [OF 1(1,4)] word_sub_le [OF 1(2)] preCheck_gas [OF 1(1)] 1(5) by simp_all
qed

section \<open>Staking transactions keep the books\<close>


section \<open>Calls go through\<close>

lemma refundGas_total:
  assumes "stGas st \<le> stInitialGas st" "unat (stGp st) + unat (stInitialGas st) < 2 ^ 64"
  shows "\<exists>st'. refundGas B msg st = Inr st'"
proof -
  let ?half = "gasUsed st div 2"
  let ?extra = "if ?half > refund (stDB st) then refund (stDB st) else ?half"
  have u: "unat (gasUsed st) = unat (stInitialGas st) - unat (stGas st)" using assms(1) by (simp add: gasUsed_def unat_sub)
  have "unat ?extra \<le> unat (gasUsed st) div 2" by (auto simp: word_less_nat_alt unat_div not_less)
  moreover have "unat (stGas st) \<le> unat (stInitialGas st)" using assms(1) by (simp add: word_le_nat_alt)
  ultimately have "unat (stGas st) + unat ?extra \<le> unat (stInitialGas st)" using u by linarith
  then have "unat (stGas st + ?extra) \<le> unat (stInitialGas st)" using unat_add_lem [of "stGas st" ?extra] assms(2) by simp
  then have "\<not> stGp st > MaxUint64 - (stGas st + ?extra)" using assms(2) max_minus [of "stGas st + ?extra"] by (simp add: word_less_nat_alt)
  then show ?thesis by (simp add: refundGas_def AddGas_def Let_def)
qed

lemma collect_fees_total:
  assumes "\<forall>percent\<in>set (map snd cs). 0 \<le> percent \<and> percent \<le> precisionReuse" "0 \<le> fee" "fee < 2 ^ 255"
  shows "\<exists>db'. go_fold (collect_fee B (NewDecFromBigInt fee)) db cs = Inr db'"
  using assms(1)
proof (induction cs arbitrary: db)
  case (Cons c0 cs)
  obtain addr percent where c: "c0 = (addr, percent)" by fastforce
  have p: "0 \<le> percent" "percent \<le> precisionReuse" using Cons.prems c by simp_all
  have "percent * fee \<le> precisionReuse * fee" using p assms(2) by (intro mult_right_mono)
  also have "\<dots> < 2 ^ 315" using assms(3) by (simp add: precisionReuse_def)
  finally have "fitsDec (percent * fee)" using p(1) assms(2) by (simp add: fitsDec_iff)
  moreover have "chopPrecisionAndRound (percent * (fee * precisionReuse)) = percent * fee"
    using bankers.exact [of "percent * fee"] by (simp add: mult.assoc)
  ultimately have "\<exists>db1. collect_fee B (NewDecFromBigInt fee) db c0 = Inr db1"
    by (simp add: c collect_fee_def Mul_def NewDecFromBigInt_def checkOverflow_fits)
  then show ?case using Cons.IH Cons.prems by auto
qed simp

lemma fair_share:
  assumes "fair_fees evm" "percent \<in> set (map snd (feeCollectors (evInstance evm (evEpoch evm))))"
  shows "0 \<le> percent \<and> percent \<le> precisionReuse"
  using member_le_sum_list [OF assms(2)] assms by (fastforce simp: fair_fees_def)

lemma settle_succeeds:
  assumes "fair_fees evm" "stGas st \<le> stInitialGas st" "unat (stGp st) + unat (stInitialGas st) < 2 ^ 64"
    "0 \<le> msgGasPrice msg" "msgGasPrice msg < 2 ^ 190" "trie_ok B" "db_ok (stDB st)"
  shows "\<exists>st'. settle evm B msg st = Inr st'"
proof -
  obtain st1 where 1: "refundGas B msg st = Inr st1" using refundGas_total [OF assms(2,3)] by blast
  let ?fee = "uint (gasUsed st1) * msgGasPrice msg"
  have "?fee \<le> 2 ^ 64 * msgGasPrice msg" using assms(4) unsigned_less [of "gasUsed st1", where 'a = int] by (intro mult_right_mono) simp_all
  then have fee: "0 \<le> ?fee" "?fee < 2 ^ 255" using assms(4,5) by simp_all
  obtain db' where "go_fold (collect_fee B (NewDecFromBigInt ?fee)) (stDB st1) (feeCollectors (evInstance evm (evEpoch evm))) = Inr db'"
    using collect_fees_total [OF _ fee] fair_share [OF assms(1)] by blast
  then show ?thesis using 1 by (auto simp: settle_def collectGas_def Let_def)
qed

lemma Call_goes_through:
  assumes "rev_inv B db ws" "run_journaled B (evRun evm)" "evDepth evm = 0" "x \<le> GetBalance B db caller"
  obtains r contract db2 where "Call evm B db caller addr input gas x = Inr r"
    "rErr r = None \<and> x = 0 \<or> cSelf contract = addr \<and> cCaller contract = caller \<and> cValue contract = x \<and> rErr r = rErr (evRun evm contract input False db2)"
proof -
  obtain revid db1 where s: "Snapshot db = (revid, db1)" by fastforce
  have ok: "db_ok db1" using assms(1) Snapshot_ok [OF s] by (simp add: rev_inv_def)
  let ?absent = "\<not> Exist B db1 addr \<and> evTxType evm \<noteq> SubtractionOnly"
  let ?db2 = "enter_call evm B db1 ?absent caller addr x"
  let ?c = "call_contract B ?db2 caller addr gas x"
  let ?r = "evRun evm ?c input False ?db2"
  obtain db3 where "RevertToSnapshot B (rDB ?r) revid = Inr db3"
    using failed_run_reverts [OF assms(1,2) s enter_call_plain [OF ok]] by blast
  then obtain r where r: "settle_run B revid ?r = Inr r" "rErr r = rErr ?r" by (cases "rErr ?r") (auto simp: settle_run_def)
  have can: "CanTransfer (DB_ops B) db caller x" using assms(4) by (simp add: CanTransfer_def)
  have "Call evm B db caller addr input gas x = Inr r \<or> x = 0 \<and> Call evm B db caller addr input gas x = Inr \<lparr>rRet = [], rGas = gas, rErr = None, rCX = None, rDB = db1\<rparr>"
    using assms(3) can s r(1) by (simp add: Call_def Let_def CallCreateDepth_def sgn_0_0)
  then show thesis
  proof (elim disjE conjE)
    assume "Call evm B db caller addr input gas x = Inr r"
    then show thesis by (rule that [of r ?c ?db2]) (simp add: r(2), simp add: call_contract_def Let_def)
  qed (auto intro: that)
qed

lemma run_inv_ok: "run_inv B base es vs ws db \<Longrightarrow> db_ok db" by (auto simp: run_inv_def rev_inv_def)

lemma Call_kept:
  assumes "rev_inv B db ws" "run_journaled B (evRun evm)" "evDepth evm = 0" "Call evm B db caller addr input gas x = Inr r" "rErr r \<noteq> Some ErrInsufficientBalance"
  shows "db_ok (rDB r) \<and> rGas r \<le> gas"
proof (cases "rErr r")
  case None
  obtain revid db1 where s: "Snapshot db = (revid, db1)" by fastforce
  have ok: "db_ok db1" using assms(1) Snapshot_ok [OF s] by (simp add: rev_inv_def)
  from assms(3,4) s show ?thesis
  proof (cases rule: Call_cases)
    case (run absent)
    let ?db2 = "enter_call evm B db1 absent caller addr x"
    let ?c = "call_contract B ?db2 caller addr gas x"
    let ?r = "evRun evm ?c input False ?db2"
    have r: "r = ?r" using run(1) None by (cases "rErr ?r"; auto simp: settle_run_def)
    have base: "run_inv B (nextRevisionId db - 1) [] (validRevisions db) ws db" by (rule run_inv_any [OF assms(1)])
    obtain ws' where "run_inv B revid (entries db) (validRevisions db @ [(revid, length (entries db))]) (ws' @ [world B db]) db1"
      by (rule run_inv_base [OF base s]) blast
    from run_inv_run [OF run_after_snapshot [OF assms(2) s enter_call_plain [OF ok]] this]
    have "db_ok (rDB ?r)" by (rule run_inv_ok)
    then show ?thesis using r run_gas [OF assms(2), of ?c input False ?db2] by simp
  qed (use None ok in auto)
next
  case (Some err)
  then show ?thesis using Call_failed [OF assms(1-4)] assms(5) by simp
qed

lemma TransitionDb_total:
  assumes "msgTo msg = Some to" "msgCheckNonce msg \<longrightarrow> GetNonce B db (msgFrom msg) = msgNonce msg"
    "uint (msgGas msg) * msgGasPrice msg + msgValue msg \<le> GetBalance B db (msgFrom msg)" "msgGas msg \<le> gp"
    "IntrinsicGas (msgData msg) False (IsS3 (evConfig evm) (Some (evEpoch evm))) (IsIstanbul (evConfig evm) (Some (evEpoch evm))) False = Inr gas"
    "gas \<le> msgGas msg" "0 \<le> msgValue msg" "0 \<le> msgGasPrice msg" "msgGasPrice msg < 2 ^ 190" "fair_fees evm" "evDepth evm = 0"
    "run_journaled B (evRun evm)" "\<forall>contract input readOnly db. rErr (evRun evm contract input readOnly db) \<noteq> Some ErrInsufficientBalance"
    "trie_ok B" "rev_inv B db ws"
  shows "\<exists>res st contract db'. TransitionDb evm B msg (NewStateTransition db gp) = Inr (res, st)
    \<and> (VMErr res = None \<and> msgValue msg = 0
       \<or> cSelf contract = to \<and> cCaller contract = msgFrom msg \<and> cValue contract = msgValue msg
         \<and> VMErr res = rErr (evRun evm contract (msgData msg) False db'))"
proof -
  let ?cost = "uint (msgGas msg) * msgGasPrice msg"
  define st1 where "st1 = \<lparr>stGp = gp - msgGas msg, stGas = msgGas msg, stInitialGas = msgGas msg, stDB = SubBalance B db (msgFrom msg) ?cost\<rparr>"
  have ok: "db_ok db" using assms(15) by (simp add: rev_inv_def)
  have 1: "preCheck B msg (NewStateTransition db gp) = Inr st1"
    using assms(2-4,7) by (auto simp: preCheck_def buyGas_def SubGas_def NewStateTransition_def st1_def Let_def)
  note p = preCheck_pays [OF assms(14) ok 1]
  let ?db = "SetNonce B (stDB st1) (msgFrom msg) (GetNonce B (stDB st1) (msgFrom msg) + 1)"
  have inv1: "rev_inv B (stDB st1) ws"
    by (rule revertible_op [OF assms(15), where cmd = "OpSubBalance (msgFrom msg) ?cost"]) (simp add: st1_def)
  have inv: "rev_inv B ?db ws"
    by (rule revertible_op [OF inv1, where cmd = "OpSetNonce (msgFrom msg) (GetNonce B (stDB st1) (msgFrom msg) + 1)"]) simp
  have ok1: "db_ok (stDB st1)" "db_ok ?db" using inv1 inv by (simp_all add: rev_inv_def)
  have bal: "msgValue msg \<le> GetBalance B ?db (msgFrom msg)" using p(1) assms(3) SetNonce_effect(2) [OF ok1(1)] by (simp add: pays_def at_only_def)
  obtain r contract db2 where r: "Call evm B ?db (msgFrom msg) to (msgData msg) (msgGas msg - gas) (msgValue msg) = Inr r"
    "rErr r = None \<and> msgValue msg = 0 \<or> cSelf contract = to \<and> cCaller contract = msgFrom msg \<and> cValue contract = msgValue msg
       \<and> rErr r = rErr (evRun evm contract (msgData msg) False db2)"
    using Call_goes_through [OF inv assms(12,11) bal] by blast
  have poor: "rErr r \<noteq> Some ErrInsufficientBalance" using r(2) assms(13) by auto
  have g: "db_ok (rDB r)" "rGas r \<le> msgGas msg - gas" using Call_kept [OF inv assms(12,11) r(1) poor] by simp_all
  have run: "run_message evm B msg (st1\<lparr>stGas := msgGas msg - gas\<rparr>) = Inr r" using r(1) assms(1) by (simp add: run_message_def Let_def)
  have "rGas r \<le> msgGas msg" using g(2) word_sub_le [OF assms(6)] by (rule order_trans)
  moreover have "unat (stGp st1) + unat (msgGas msg) < 2 ^ 64" using p(4) unsigned_less [of gp, where 'a = nat] by simp
  ultimately obtain st where st: "settle evm B msg (st1\<lparr>stGas := rGas r, stDB := rDB r\<rparr>) = Inr st"
    using settle_succeeds [OF assms(10), of "st1\<lparr>stGas := rGas r, stDB := rDB r\<rparr>" msg B] assms(8,9,14) g(1) p(3) by auto
  have "TransitionDb evm B msg (NewStateTransition db gp) = Inr (\<lparr>ReturnData = rRet r, UsedGas = gasUsed st, VMErr = rErr r, exCX = rCX r\<rparr>, st)"
    using 1 assms(1,5,6) p(2) run poor st by (simp add: TransitionDb_def useGas_def)
  then show ?thesis using r(2) by (intro exI conjI) (assumption, simp)
qed

text \<open>
  C14: A call is never held up once its sender can pay: with the right nonce, a balance that covers value
  and gas, room in the block gas pool and at least the intrinsic gas, the transaction is executed and
  settled, whatever the code does; the only error it can report is the one of the code it ran.
\<close>

theorem call_goes_through:
  assumes "msgTo msg = Some to" "msgCheckNonce msg \<longrightarrow> GetNonce B db (msgFrom msg) = msgNonce msg"
    "uint (msgGas msg) * msgGasPrice msg + msgValue msg \<le> GetBalance B db (msgFrom msg)" "msgGas msg \<le> gp"
    "IntrinsicGas (msgData msg) False (IsS3 (evConfig evm) (Some (evEpoch evm))) (IsIstanbul (evConfig evm) (Some (evEpoch evm))) False = Inr gas"
    "gas \<le> msgGas msg" "0 \<le> msgValue msg" "0 \<le> msgGasPrice msg" "msgGasPrice msg < 2 ^ 190" "fair_fees evm" "evDepth evm = 0"
    "run_journaled B (evRun evm)" "\<forall>contract input readOnly db. rErr (evRun evm contract input readOnly db) \<noteq> Some ErrInsufficientBalance"
    "trie_ok B" "rev_inv B db ws"
  shows "\<exists>res st contract db'. TransitionDb evm B msg (NewStateTransition db gp) = Inr (res, st)
    \<and> (VMErr res = None \<and> msgValue msg = 0
       \<or> cSelf contract = to \<and> cCaller contract = msgFrom msg \<and> cValue contract = msgValue msg
         \<and> VMErr res = rErr (evRun evm contract (msgData msg) False db'))"
  by (rule TransitionDb_total [OF assms])

section \<open>Concrete transactions\<close>

text \<open>A machine whose code reverts or stops at once; half of a fee goes to account 5 and half to account 6.\<close>

definition sample_run :: "vmError option \<Rightarrow> Contract \<Rightarrow> bytes \<Rightarrow> bool \<Rightarrow> DB \<Rightarrow> RunResult" where
  "sample_run err contract input readOnly db = \<lparr>rRet = [], rGas = cGas contract, rErr = err, rCX = None, rDB = db\<rparr>"

definition sample_evm :: "vmError option \<Rightarrow> TransactionType \<Rightarrow> unit EVM" where
  "sample_evm err t = \<lparr>evConfig = MainnetChainConfig, evEpoch = 2000, evCoinbase = 3, evTxType = t,
     evInstance = (\<lambda>_. Validators.sample_instance\<lparr>feeCollectors := [(5, 500000000000000000), (6, 500000000000000000)]\<rparr>),
     evDepth = 0, evNoRecursion = False, evRun = sample_run err, evCreateAddress = (\<lambda>a n. a + ucast n)\<rparr>"

definition sample_message :: Message where
  "sample_message = \<lparr>msgFrom = 7, msgTo = Some 1, msgGasPrice = 2, msgGas = 25000, msgValue = 10, msgNonce = 0,
     msgCheckNonce = True, msgData = [], msgType = SameShardTx\<rparr>"

definition sample_rich :: DB where
  "sample_rich = AddBalance sample_backend New 7 100000"

lemma sample_rich_ok:
  "rev_inv sample_backend sample_rich []" "db_inv sample_backend sample_rich" "GetBalance sample_backend sample_rich 7 = 100000"
  "GetNonce sample_backend sample_rich 7 = 0"
proof -
  have new: "rev_inv sample_backend New []" "db_ok New" "db_inv sample_backend New"
    using sample_trie_ok by (simp_all add: rev_inv_def New_def db_ok_def access_ok_def newAccessList_def db_inv_def)
  show "rev_inv sample_backend sample_rich []"
    by (rule revertible_op [OF new(1), where cmd = "OpAddBalance 7 100000"]) (simp add: sample_rich_def)
  note p = pays_add [OF sample_trie_ok new(2), of 7 100000, folded sample_rich_def]
  show "db_inv sample_backend sample_rich" by (rule pays_ledger(1) [OF p new(3)])
  have "GetBalance sample_backend New 7 = 0" "GetNonce sample_backend New 7 = 0"
    by (simp_all add: read_live GetNonce_live live_obj_def obj_at_def New_def sample_backend_def)
  then show "GetBalance sample_backend sample_rich 7 = 100000" "GetNonce sample_backend sample_rich 7 = 0"
    using p by (simp_all add: pays_def at_only_def)
qed

lemma sample_evm_ok:
  "run_journaled sample_backend (evRun (sample_evm err t))" "run_frugal sample_backend (evRun (sample_evm err t))" "fair_fees (sample_evm err t)"
  "evDepth (sample_evm err t) = 0" "evTxType (sample_evm err t) = t" "IsS3 (evConfig (sample_evm err t)) (Some (evEpoch (sample_evm err t)))"
  "rErr (evRun (sample_evm err t) contract input readOnly db) = err"
  by (simp_all add: run_journaled_def run_frugal_def fair_fees_def sample_evm_def sample_run_def db_run.refl precisionReuse_def
      IsS3_def isForked_def MainnetChainConfig_def)

lemma sample_transition:
  assumes "err \<noteq> Some ErrInsufficientBalance"
  shows "\<exists>res st. TransitionDb (sample_evm err t) sample_backend sample_message (NewStateTransition sample_rich 1000000) = Inr (res, st) \<and> VMErr res = err"
proof -
  have "\<exists>res st contract db'. TransitionDb (sample_evm err t) sample_backend sample_message (NewStateTransition sample_rich 1000000) = Inr (res, st)
    \<and> (VMErr res = None \<and> msgValue sample_message = 0
       \<or> cSelf contract = 1 \<and> cCaller contract = msgFrom sample_message \<and> cValue contract = msgValue sample_message
         \<and> VMErr res = rErr (evRun (sample_evm err t) contract (msgData sample_message) False db'))"
    by (rule TransitionDb_total [where gas = 21000 and ws = "[]"])
      (use assms sample_rich_ok sample_evm_ok sample_trie_ok in
        \<open>simp_all add: sample_message_def IntrinsicGas_def TxGas_def\<close>)
  then show ?thesis using sample_evm_ok(7) by (auto simp: sample_message_def)
qed

theorem call_goes_through_witness:
  "\<exists>res st. TransitionDb (sample_evm (Some ErrExecutionReverted) SameShardTx) sample_backend sample_message (NewStateTransition sample_rich 1000000) = Inr (res, st)
     \<and> VMErr res = Some ErrExecutionReverted"
proof -
  let ?evm = "sample_evm (Some ErrExecutionReverted) SameShardTx"
  have "\<exists>res st contract db'. TransitionDb ?evm sample_backend sample_message (NewStateTransition sample_rich 1000000) = Inr (res, st)
    \<and> (VMErr res = None \<and> msgValue sample_message = 0
       \<or> cSelf contract = 1 \<and> cCaller contract = msgFrom sample_message \<and> cValue contract = msgValue sample_message
         \<and> VMErr res = rErr (evRun ?evm contract (msgData sample_message) False db'))"
    by (rule call_goes_through [where gas = 21000 and ws = "[]"])
      (use sample_rich_ok sample_evm_ok sample_trie_ok in \<open>simp_all add: sample_message_def IntrinsicGas_def TxGas_def\<close>)
  then show ?thesis using sample_evm_ok(7) by (auto simp: sample_message_def)
qed



lemma StakingTransitionDb_total:
  assumes "msgCheckNonce msg \<longrightarrow> GetNonce B db (msgFrom msg) = msgNonce msg"
    "uint (msgGas msg) * msgGasPrice msg \<le> GetBalance B db (msgFrom msg)" "msgGas msg \<le> gp"
    "IntrinsicGas (msgData msg) False (IsS3 (evConfig evm) (Some (evEpoch evm))) (IsIstanbul (evConfig evm) (Some (evEpoch evm))) (msgType msg = StakeCreateVal) = Inr gas"
    "gas \<le> msgGas msg" "0 \<le> msgGasPrice msg" "msgGasPrice msg < 2 ^ 190" "fair_fees evm" "trie_ok B" "db_ok db"
    "msgType msg \<in> {StakeCreateVal, StakeEditVal, DelegateTx, UndelegateTx, CollectRewardsTx}" "decode (msgData msg) (msgType msg) = Inr stkMsg"
    "stake_call lib (evInstance evm) (Keccak256Hash B) (DB_ops B) ref chain (msgFrom msg)
       (SetNonce B (SubBalance B db (msgFrom msg) (uint (msgGas msg) * msgGasPrice msg)) (msgFrom msg) (GetNonce B db (msgFrom msg) + 1)) stkMsg = Inr db2"
    "db_ok db2"
  shows "\<exists>used st. StakingTransitionDb lib decode evm B ref chain msg (NewStateTransition db gp) = Inr (used, st)"
proof -
  let ?cost = "uint (msgGas msg) * msgGasPrice msg"
  define st1 where "st1 = \<lparr>stGp = gp - msgGas msg, stGas = msgGas msg, stInitialGas = msgGas msg, stDB = SubBalance B db (msgFrom msg) ?cost\<rparr>"
  have 1: "preCheck B msg (NewStateTransition db gp) = Inr st1"
    using assms(1-3) by (auto simp: preCheck_def buyGas_def SubGas_def NewStateTransition_def st1_def Let_def)
  note p = preCheck_pays [OF assms(9,10) 1]
  have n: "GetNonce B (stDB st1) = GetNonce B db" using p(1) by (simp add: pays_def)
  have "unat (stGp st1) + unat (msgGas msg) < 2 ^ 64" using p(4) unsigned_less [of gp, where 'a = nat] by simp
  then obtain st where st: "settle evm B msg (st1\<lparr>stGas := msgGas msg - gas, stDB := db2\<rparr>) = Inr st"
    using settle_succeeds [OF assms(8), of "st1\<lparr>stGas := msgGas msg - gas, stDB := db2\<rparr>" msg B] assms(6,7,9,14) p(3) word_sub_le [OF assms(5)] by auto
  have "stake_call lib (evInstance evm) (Keccak256Hash B) (DB_ops B) ref chain (msgFrom msg)
      (SetNonce B (stDB st1) (msgFrom msg) (GetNonce B (stDB st1) (msgFrom msg) + 1)) stkMsg = Inr db2"
    using assms(13) n by (simp add: st1_def)
  then show ?thesis using 1 assms(4,5,11,12) p(2) st by (simp add: StakingTransitionDb_def useGas_def)
qed

definition sample_stake_message :: Message where
  "sample_stake_message = \<lparr>msgFrom = 7, msgTo = None, msgGasPrice = 2, msgGas = 25000, msgValue = 0, msgNonce = 0,
     msgCheckNonce = True, msgData = [], msgType = UndelegateTx\<rparr>"

definition sample_decode :: "bytes \<Rightarrow> TransactionType \<Rightarrow> StakeMsg go" where
  "sample_decode dat t = Inr (MsgUndelegate \<lparr>uDelegatorAddress = 7, uValidatorAddress = 9, umAmount = Some 40\<rparr>)"


end
