(* ===== verification/Flush.thy ===== *)
theory Flush
  imports Transition
begin

text \<open>
  The end of a transaction in the account state: \<open>Finalise\<close> of \<open>core/state/statedb.go\<close> writes the cached
  validator wrappers back into their accounts, removes the accounts that destroyed themselves or became
  empty, settles the storage of the others and forgets the journal. Go visits its maps in any order;
  the order is a parameter.
\<close>

section \<open>Finalise\<close>

record map_order =
  validators_of :: "DB \<Rightarrow> Address list"
  dirties_of :: "DB \<Rightarrow> Address list"

text \<open>An update that fails is only logged.\<close>

definition flush_validator :: "backend \<Rightarrow> DB \<Rightarrow> Address \<Rightarrow> DB go" where
  "flush_validator B db addr =
     (case stateValidators db addr of
        None \<Rightarrow> Inr db
      | Some wrapper \<Rightarrow> go_bind (deref wrapper) (\<lambda>w.
          case UpdateValidatorWrapper B db addr w of
            Inl (Error _) \<Rightarrow> Inr db
          | r \<Rightarrow> r))"

definition finalise_object :: "backend \<Rightarrow> bool \<Rightarrow> Address \<Rightarrow> DB \<Rightarrow> DB" where
  "finalise_object B deleteEmptyObjects addr db =
     (case stateObjects db addr of
        None \<Rightarrow> db
      | Some obj \<Rightarrow>
          (let db = (if suicided obj \<or> deleteEmptyObjects \<and> Object_empty B obj
                     then db\<lparr>stateObjects := (stateObjects db)(addr \<mapsto> obj\<lparr>deleted := True\<rparr>),
                             stateObjectsDestruct := insert (address obj) (stateObjectsDestruct db)\<rparr>
                     else db\<lparr>stateObjects := (stateObjects db)(addr \<mapsto> Object_finalise obj)\<rparr>)
           in db\<lparr>stateObjectsPending := insert addr (stateObjectsPending db),
                 stateObjectsDirty := insert addr (stateObjectsDirty db)\<rparr>))"

definition clearJournalAndRefund :: "DB \<Rightarrow> DB" where
  "clearJournalAndRefund db =
     (let db = (if length (entries db) > 0 then db\<lparr>entries := [], dirties := (\<lambda>_. 0), refund := 0\<rparr> else db)
      in db\<lparr>validRevisions := []\<rparr>)"

definition Finalise :: "map_order \<Rightarrow> backend \<Rightarrow> DB \<Rightarrow> bool \<Rightarrow> DB go" where
  "Finalise visit B db deleteEmptyObjects =
     go_bind (go_fold (flush_validator B) db (validators_of visit db)) (\<lambda>db.
       Inr (clearJournalAndRefund (fold (finalise_object B deleteEmptyObjects) (dirties_of visit db) db)))"

text \<open>Each map is visited completely.\<close>

definition visits_all :: "map_order \<Rightarrow> bool" where
  "visits_all visit \<longleftrightarrow> (\<forall>db. set (validators_of visit db) = {a. stateValidators db a \<noteq> None}
     \<and> set (dirties_of visit db) = {a. dirties db a > 0})"

section \<open>Validators outlive a transaction\<close>

text \<open>
  An account that holds a wrapper has not destroyed itself, and either the wrapper is cached or the
  account has code. The code of validators is not run, so they cannot destroy themselves.
\<close>

definition solid :: "backend \<Rightarrow> DB \<Rightarrow> bool" where
  "solid B db \<longleftrightarrow> (\<forall>a s. live_obj B db a = Some s \<longrightarrow> lWrap (ledger B db) a \<noteq> None \<longrightarrow>
     \<not> suicided s \<and> (stateValidators db a \<noteq> None \<or> CodeHash (data s) \<noteq> EmptyCodeHash B))"

text \<open>What RLP and the hash promise of the code of a wrapper.\<close>

definition code_law :: "backend \<Rightarrow> bool" where
  "code_law B \<longleftrightarrow> (\<forall>w. encodable B w) \<and> (\<forall>w bs. encodeWrapper B w = Inr bs \<longrightarrow> Keccak256Hash B bs \<noteq> EmptyCodeHash B)"

lemma no_code_no_wrapper: "stateValidators db a = None \<Longrightarrow> GetCode B db a = None \<Longrightarrow> lWrap (ledger B db) a = None"
  by (simp add: ledger_def wrapper_at_eq)

lemma solid_one:
  assumes "solid B db" "\<And>b. live_obj B db' b = (if b = a then Some s' else live_obj B db b)" "stateValidators db' = stateValidators db"
    "lWrap (ledger B db') = lWrap (ledger B db)"
    "case live_obj B db a of Some s \<Rightarrow> suicided s' = suicided s \<and> CodeHash (data s') = CodeHash (data s) | None \<Rightarrow> \<not> suicided s'"
  shows "solid B db'"
  unfolding solid_def
proof (intro allI impI)
  fix b s assume l: "live_obj B db' b = Some s" and w: "lWrap (ledger B db') b \<noteq> None"
  show "\<not> suicided s \<and> (stateValidators db' b \<noteq> None \<or> CodeHash (data s) \<noteq> EmptyCodeHash B)"
  proof (cases "b = a")
    case False
    then show ?thesis using assms(1-4) l w by (simp add: solid_def)
  next
    case True
    show ?thesis
    proof (cases "live_obj B db a")
      case None
      then have "stateValidators db a \<noteq> None" using no_code_no_wrapper [of db a B] w True assms(4) by (cases "stateValidators db a") (auto simp: read_live)
      then show ?thesis using None True l assms(2,3,5) by simp
    next
      case (Some s0)
      then show ?thesis using True l w assms by (auto simp: solid_def)
    qed
  qed
qed

lemma HasSuicided_live: "HasSuicided B db a = (case live_obj B db a of Some s \<Rightarrow> suicided s | None \<Rightarrow> False)"
  by (simp add: HasSuicided_def getStateObject_live)

text \<open>Payments, nonces and snapshots keep validators in place.\<close>

lemma balance_live:
  assumes "db_ok db"
  obtains s1 s2 where "live_obj B (AddBalance B db a x) = (live_obj B db)(a \<mapsto> s1)" "live_obj B (SubBalance B db a x) = (live_obj B db)(a \<mapsto> s2)"
    "\<forall>s\<in>{s1, s2}. case live_obj B db a of Some s0 \<Rightarrow> suicided s = suicided s0 \<and> CodeHash (data s) = CodeHash (data s0) | None \<Rightarrow> \<not> suicided s"
proof -
  obtain s db1 where g: "GetOrNewStateObject B db a = (s, db1)" by fastforce
  note l = GetOrNew_live [OF g assms]
  let ?s = "\<lambda>y. Object_setBalance y s"
  have s: "case live_obj B db a of Some s0 \<Rightarrow> suicided t = suicided s0 \<and> CodeHash (data t) = CodeHash (data s0) | None \<Rightarrow> \<not> suicided t"
    if "t \<in> {s} \<union> range ?s" for t using that l(1) by (auto simp: Object_setBalance_def newObject_def split: option.split)
  have "\<not> deleted (?s y)" for y using l(5) by (simp add: Object_setBalance_def)
  then have "live_obj B (AddBalance B db a x) = (live_obj B db)(a \<mapsto> if sgn x = 0 then s else ?s (Balance (data s) + x))"
    "live_obj B (SubBalance B db a x) = (live_obj B db)(a \<mapsto> if sgn x = 0 then s else ?s (Balance (data s) - x))"
    using l(2,4) by (auto simp: fun_eq_iff AddBalance_def SubBalance_def g Let_def live_obj_set)
  then show thesis by (rule that) (use s in auto)
qed

lemma nonce_live:
  assumes "db_ok db"
  obtains s where "live_obj B (SetNonce B db a n) = (live_obj B db)(a \<mapsto> s)"
    "case live_obj B db a of Some s0 \<Rightarrow> suicided s = suicided s0 \<and> CodeHash (data s) = CodeHash (data s0) | None \<Rightarrow> \<not> suicided s"
proof -
  obtain s db1 where g: "GetOrNewStateObject B db a = (s, db1)" by fastforce
  note l = GetOrNew_live [OF g assms]
  show thesis
    by (rule that [of "Object_setNonce n s"]) (use l in \<open>auto simp: fun_eq_iff SetNonce_def g live_obj_set Object_setNonce_def newObject_def split: option.split\<close>)
qed

lemma solid_ops:
  assumes "solid B db" "db_inv B db"
  shows "solid B (AddBalance B db a x)" "solid B (SubBalance B db a x)" "solid B (SetNonce B db a n)" "Snapshot db = (revid, db1) \<Longrightarrow> solid B db1"
    "\<not> Exist B db a \<Longrightarrow> solid B (CreateAccount B db a)"
proof -
  have ok: "db_ok db" "trie_ok B" using assms(2) by (simp_all add: db_inv_def)
  obtain s1 s2 where b: "live_obj B (AddBalance B db a x) = (live_obj B db)(a \<mapsto> s1)" "live_obj B (SubBalance B db a x) = (live_obj B db)(a \<mapsto> s2)"
    "\<forall>s\<in>{s1, s2}. case live_obj B db a of Some s0 \<Rightarrow> suicided s = suicided s0 \<and> CodeHash (data s) = CodeHash (data s0) | None \<Rightarrow> \<not> suicided s"
    by (rule balance_live [OF ok(1)])
  note p = pays_add [OF ok(2,1), of a x] pays_sub [OF ok(2,1), of a x]
  show "solid B (AddBalance B db a x)"
    by (rule solid_one [OF assms(1), of _ a s1]) (use b pays_ledger(2) [OF p(1) assms(2)] p(1) in \<open>auto simp: pays_def\<close>)
  show "solid B (SubBalance B db a x)"
    by (rule solid_one [OF assms(1), of _ a s2]) (use b pays_ledger(2) [OF p(2) assms(2)] p(2) in \<open>auto simp: pays_def\<close>)
  obtain s3 where n: "live_obj B (SetNonce B db a n) = (live_obj B db)(a \<mapsto> s3)"
    "case live_obj B db a of Some s0 \<Rightarrow> suicided s3 = suicided s0 \<and> CodeHash (data s3) = CodeHash (data s0) | None \<Rightarrow> \<not> suicided s3"
    by (rule nonce_live [OF ok(1)])
  show "solid B (SetNonce B db a n)"
    by (rule solid_one [OF assms(1), of _ a s3]) (use n SetNonce_ledger(2) [OF assms(2)] SetNonce_effect(5) [OF ok(1)] in auto)
  show "solid B db1" if "Snapshot db = (revid, db1)"
  proof -
    have "live_obj B db1 = live_obj B db" "stateValidators db1 = stateValidators db" using that by (auto simp: Snapshot_def live_obj_def obj_at_def fun_eq_iff)
    then show ?thesis using assms(1) pays_ledger(2) [OF Snapshot_pays [OF ok(1) that] assms(2)] by (simp add: solid_def)
  qed
  show "solid B (CreateAccount B db a)" if absent: "\<not> Exist B db a"
  proof -
    obtain n p db1 where c: "createObject B db a = (n, p, db1)" by (metis prod_cases3)
    note l = createObject_live [OF c] and q = CreateAccount_pays [OF ok absent]
    have none: "live_obj B db a = None" using absent by (simp add: Exist_def getStateObject_live)
    then have "p = None" using c
      by (auto simp: createObject_def getDeletedStateObject_def live_obj_def obj_at_def Let_def split: option.splits if_splits)
    then have "CreateAccount B db a = db1" by (simp add: CreateAccount_def c)
    then show ?thesis
      using solid_one [OF assms(1), of "CreateAccount B db a" a n] l(1-3) none pays_ledger(2) [OF q assms(2)] by (simp add: newObject_def)
  qed
qed

section \<open>Writing back the wrappers\<close>

lemma UpdateValidatorWrapper_live:
  assumes "UpdateValidatorWrapper B db a w = Inr db'" "db_ok db"
  obtains bs s where "encodeWrapper B w = Inr bs" "CodeHash (data s) = Keccak256Hash B bs" "suicided s = HasSuicided B db a"
    "live_obj B db' = (live_obj B db)(a \<mapsto> s)" "stateValidators db' = (stateValidators db)(a := Some (Some w))"
proof -
  obtain bs where bs: "encodeWrapper B w = Inr bs"
    "db' = (SetCode B db a bs True)\<lparr>stateValidators := (stateValidators (SetCode B db a bs True))(a := Some (Some w))\<rparr>"
    using assms(1) by (auto simp: UpdateValidatorWrapper_def Let_def)
  obtain s db1 where g: "GetOrNewStateObject B db a = (s, db1)" by fastforce
  note l = GetOrNew_live [OF g assms(2)]
  let ?s = "Object_setCode (Keccak256Hash B bs) (Some bs) True s"
  have "live_obj B db' = (live_obj B db)(a \<mapsto> ?s)"
    using l(2,4,5) by (simp add: fun_eq_iff bs(2) SetCode_def g live_obj_set Object_setCode_def)
  moreover have "suicided ?s = HasSuicided B db a" using l(1) by (simp add: HasSuicided_live Object_setCode_def newObject_def split: option.split)
  moreover have "stateValidators db' = (stateValidators db)(a := Some (Some w))" using SetCode_effect(4) [OF assms(2)] by (simp add: bs(2))
  ultimately show thesis by (intro that [OF bs(1), of ?s]) (simp_all add: Object_setCode_def)
qed

definition written_back :: "backend \<Rightarrow> DB \<Rightarrow> Address set \<Rightarrow> DB \<Rightarrow> bool" where
  "written_back B db visited db' \<longleftrightarrow> db_inv B db' \<and> ledger B db' = ledger B db \<and> stateValidators db' = stateValidators db
     \<and> HasSuicided B db' = HasSuicided B db \<and> (\<forall>a. stateValidators db a = None \<longrightarrow> live_obj B db' a = live_obj B db a)
     \<and> (\<forall>a s. a \<in> visited \<longrightarrow> stateValidators db a \<noteq> None \<longrightarrow> live_obj B db' a = Some s \<longrightarrow> CodeHash (data s) \<noteq> EmptyCodeHash B)"

lemma put_wrap_same: "lWrap L a = Some w \<Longrightarrow> put_wrap a w L = L"
  by (simp add: put_wrap_def fun_upd_idem)

lemma flush_validator_step:
  assumes "written_back B db visited db1" "flush_validator B db1 a = Inr db2" "code_law B" "ledger_ok (ledger B db)"
  shows "written_back B db (insert a visited) db2"
proof (cases "stateValidators db1 a")
  case None
  then show ?thesis using assms(1,2) by (auto simp: written_back_def flush_validator_def)
next
  case (Some p)
  have inv: "db_inv B db1" "ledger B db1 = ledger B db" "stateValidators db1 = stateValidators db" using assms(1) by (simp_all add: written_back_def)
  then obtain w where p: "p = Some w" using Some by (cases p) (auto simp: db_inv_def)
  have "lWrap (ledger B db1) a = Some w" using Some p by (simp add: ledger_def wrapper_at_eq)
  then have w: "lWrap (ledger B db) a = Some w" using inv(2) by simp
  then have "SanityCheck w = Inr ()" using ledger_okD [OF assms(4) w] by (simp add: wrapper_ok_def SanityCheck_iff)
  moreover obtain by' where "encodeWrapper B w = Inr by'" using assms(3) unfolding code_law_def encodable_def is_ok_iff by blast
  ultimately have "UpdateValidatorWrapper B db1 a w \<noteq> Inl e" for e by (simp add: UpdateValidatorWrapper_def Let_def)
  then have u: "UpdateValidatorWrapper B db1 a w = Inr db2"
    using assms(2) Some p by (cases "UpdateValidatorWrapper B db1 a w") (auto simp: flush_validator_def)
  have ok: "db_ok db1" using inv(1) by (simp add: db_inv_def)
  obtain bs s where s: "encodeWrapper B w = Inr bs" "CodeHash (data s) = Keccak256Hash B bs" "suicided s = HasSuicided B db1 a"
    "live_obj B db2 = (live_obj B db1)(a \<mapsto> s)" "stateValidators db2 = (stateValidators db1)(a := Some (Some w))"
    by (rule UpdateValidatorWrapper_live [OF u ok])
  have "db_inv B db2 \<and> ledger B db2 = ledger B db"
    using UpdateValidatorWrapper_ledger [OF inv(1) u] inv(2) put_wrap_same [OF w] by simp
  moreover have "stateValidators db2 = stateValidators db" using s(5) Some p inv(3) by (simp add: fun_upd_idem)
  moreover have "HasSuicided B db2 b = HasSuicided B db1 b" for b using s(3,4) by (simp add: HasSuicided_live)
  moreover have "CodeHash (data s) \<noteq> EmptyCodeHash B" using assms(3) s(1,2) by (simp add: code_law_def)
  ultimately show ?thesis using assms(1) s(4) Some inv(3) by (auto simp: written_back_def fun_eq_iff)
qed

lemma flush_validator_total:
  assumes "written_back B db visited db1" "code_law B" "ledger_ok (ledger B db)"
  shows "\<exists>db2. flush_validator B db1 a = Inr db2"
proof (cases "stateValidators db1 a")
  case (Some p)
  have inv: "db_inv B db1" "ledger B db1 = ledger B db" using assms(1) by (simp_all add: written_back_def)
  then obtain w where p: "p = Some w" using Some by (cases p) (auto simp: db_inv_def)
  have "lWrap (ledger B db1) a = Some w" using Some p by (simp add: ledger_def wrapper_at_eq)
  then have "SanityCheck w = Inr ()" using ledger_okD [OF assms(3)] inv(2) by (simp add: wrapper_ok_def SanityCheck_iff)
  moreover obtain by' where "encodeWrapper B w = Inr by'" using assms(2) unfolding code_law_def encodable_def is_ok_iff by blast
  ultimately show ?thesis using Some p by (simp add: flush_validator_def UpdateValidatorWrapper_def Let_def)
qed (simp add: flush_validator_def)

lemma flush_validators:
  assumes "written_back B db visited db1" "go_fold (flush_validator B) db1 xs = Inr db2" "code_law B" "ledger_ok (ledger B db)"
  shows "written_back B db (visited \<union> set xs) db2"
  using assms(1,2)
proof (induction xs arbitrary: visited db1)
  case (Cons a xs)
  then obtain db3 where 3: "flush_validator B db1 a = Inr db3" "go_fold (flush_validator B) db3 xs = Inr db2" by auto
  from Cons.IH [OF flush_validator_step [OF Cons.prems(1) 3(1) assms(3,4)] 3(2)] show ?case by simp
qed simp

section \<open>Settling the accounts\<close>

definition removed :: "backend \<Rightarrow> bool \<Rightarrow> DB \<Rightarrow> Address \<Rightarrow> bool" where
  "removed B deleteEmptyObjects db a \<longleftrightarrow>
     (\<exists>s. stateObjects db a = Some s \<and> (suicided s \<or> deleteEmptyObjects \<and> Object_empty B s))"

lemma finalise_object_live:
  assumes "db_ok db"
  shows "live_obj B (finalise_object B del a db) b =
      (if b = a \<and> removed B del db a then None else if b = a \<and> stateObjects db a \<noteq> None then map_option Object_finalise (live_obj B db a) else live_obj B db b)"
    "b \<in> stateObjectsDestruct (finalise_object B del a db) \<longleftrightarrow> b \<in> stateObjectsDestruct db \<or> b = a \<and> removed B del db a"
    "stateValidators (finalise_object B del a db) = stateValidators db" "db_ok (finalise_object B del a db)"
    "removed B del (finalise_object B del a db) b = removed B del db b"
  using assms
  by (auto simp: finalise_object_def removed_def live_obj_def obj_at_def Let_def db_ok_def Object_finalise_def Object_empty_def split: option.splits)

lemma Object_finalise_reads [simp]:
  "data (Object_finalise s) = data s" "suicided (Object_finalise s) = suicided s" "Object_Code B (Object_finalise s) = Object_Code B s"
  "vState (obj_view B d (Object_finalise s)) = vState (obj_view B d s)"
proof -
  show "data (Object_finalise s) = data s" "suicided (Object_finalise s) = suicided s" by (simp_all add: Object_finalise_def)
  show "Object_Code B (Object_finalise s) = Object_Code B s" by (rule Object_Code_cong) (simp_all add: Object_finalise_def)
  show "vState (obj_view B d (Object_finalise s)) = vState (obj_view B d s)"
    by (auto simp: Object_finalise_def obj_view_def committed_at_def fun_eq_iff map_add_def split: option.split)
qed

text \<open>The accounts visited and removed read as if they had never been; all others read as before.\<close>

definition settles :: "backend \<Rightarrow> bool \<Rightarrow> Address set \<Rightarrow> DB \<Rightarrow> DB \<Rightarrow> bool" where
  "settles B del visited db db' \<longleftrightarrow> db_ok db' \<and> stateValidators db' = stateValidators db \<and> removed B del db' = removed B del db
     \<and> (\<forall>a. a \<in> visited \<and> removed B del db a \<longrightarrow> live_obj B db' a = None)
     \<and> (\<forall>a. \<not> (a \<in> visited \<and> removed B del db a) \<longrightarrow> GetBalance B db' a = GetBalance B db a \<and> GetCode B db' a = GetCode B db a \<and> GetState B db' a = GetState B db a)
     \<and> (\<forall>a s'. live_obj B db' a = Some s' \<longrightarrow> (\<exists>s. live_obj B db a = Some s \<and> suicided s' = suicided s \<and> data s' = data s))"

lemma finalise_object_settles:
  assumes "settles B del visited db db1"
  shows "settles B del (insert a visited) db (finalise_object B del a db1)"
proof -
  have s: "db_ok db1" "stateValidators db1 = stateValidators db" "removed B del db1 = removed B del db"
    "\<And>a. a \<in> visited \<and> removed B del db a \<Longrightarrow> live_obj B db1 a = None"
    "\<And>a. \<not> (a \<in> visited \<and> removed B del db a) \<Longrightarrow> GetBalance B db1 a = GetBalance B db a \<and> GetCode B db1 a = GetCode B db a \<and> GetState B db1 a = GetState B db a"
    "\<And>a s'. live_obj B db1 a = Some s' \<Longrightarrow> \<exists>s. live_obj B db a = Some s \<and> suicided s' = suicided s \<and> data s' = data s"
    using assms by (auto simp: settles_def)
  note f = finalise_object_live [OF s(1), where B = B and del = del and a = a]
  let ?db = "finalise_object B del a db1"
  have r: "removed B del ?db = removed B del db" using f(5) s(3) by auto
  have keep: "GetBalance B ?db b = GetBalance B db1 b \<and> GetCode B ?db b = GetCode B db1 b \<and> GetState B ?db b = GetState B db1 b"
    if "\<not> (b = a \<and> removed B del db1 b)" for b
    using that f(1,2) [of b] by (auto simp: fun_eq_iff read_live split: option.splits)
  have reads: "GetBalance B ?db b = GetBalance B db b \<and> GetCode B ?db b = GetCode B db b \<and> GetState B ?db b = GetState B db b"
    if "\<not> (b \<in> insert a visited \<and> removed B del db b)" for b
  proof -
    have "\<not> (b = a \<and> removed B del db1 b)" using that s(3) by auto
    then show ?thesis using keep [of b] s(5) [of b] that by auto
  qed
  have none: "live_obj B ?db b = None" if "b \<in> insert a visited \<and> removed B del db b" for b
    using that s(3) s(4) [of b] f(1) [of b] by auto
  have some: "\<exists>s. live_obj B db b = Some s \<and> suicided s' = suicided s \<and> data s' = data s" if "live_obj B ?db b = Some s'" for b s'
    using that f(1) [of b] s(6) [of b] by (auto split: if_splits)
  show ?thesis unfolding settles_def using f(3,4) s(2) r reads none some by auto
qed

lemma finalise_objects_settle:
  "settles B del visited db db1 \<Longrightarrow> settles B del (visited \<union> set xs) db (fold (finalise_object B del) xs db1)"
proof (induction xs arbitrary: visited db1)
  case (Cons a xs)
  from Cons.IH [OF finalise_object_settles [OF Cons.prems, of a]] show ?case by simp
qed simp

lemma settles_start: "db_ok db \<Longrightarrow> settles B del {} db db" by (auto simp: settles_def)

lemma clear_reads [simp]:
  "live_obj B (clearJournalAndRefund db) = live_obj B db" "stateValidators (clearJournalAndRefund db) = stateValidators db"
  "stateObjectsDestruct (clearJournalAndRefund db) = stateObjectsDestruct db" "db_ok (clearJournalAndRefund db) = db_ok db"
  "entries (clearJournalAndRefund db) = []" "validRevisions (clearJournalAndRefund db) = []"
  by (auto simp: clearJournalAndRefund_def Let_def live_obj_def obj_at_def db_ok_def)

lemma clear_ledger [simp]:
  "GetBalance B (clearJournalAndRefund db) = GetBalance B db" "GetCode B (clearJournalAndRefund db) = GetCode B db"
  "GetState B (clearJournalAndRefund db) = GetState B db" "ledger B (clearJournalAndRefund db) = ledger B db"
proof -
  show "GetBalance B (clearJournalAndRefund db) = GetBalance B db" "GetCode B (clearJournalAndRefund db) = GetCode B db"
    "GetState B (clearJournalAndRefund db) = GetState B db" by (simp_all add: fun_eq_iff read_live cong: option.case_cong)
  then show "ledger B (clearJournalAndRefund db) = ledger B db" by (rule ledger_cong) simp
qed

section \<open>What a transaction leaves\<close>

text \<open>Accounts that held nothing and had no wrapper may be gone; everything else is as before.\<close>

lemma Finalise_ledger:
  assumes "Finalise visit B db del = Inr db'" "visits_all visit" "db_inv B db" "ledger_ok (ledger B db)" "code_law B" "solid B db"
  shows "db_inv B db' \<and> solid B db' \<and> ledger_ok (ledger B db') \<and> lWrap (ledger B db') = lWrap (ledger B db)
    \<and> (\<forall>a. HasSuicided B db' a \<longrightarrow> HasSuicided B db a)
    \<and> (\<forall>a. lBal (ledger B db') a = lBal (ledger B db) a \<or> HasSuicided B db a \<and> lBal (ledger B db') a = 0)"
proof -
  obtain db1 where 1: "go_fold (flush_validator B) db (validators_of visit db) = Inr db1"
    "db' = clearJournalAndRefund (fold (finalise_object B del) (dirties_of visit db1) db1)" using assms(1) by (auto simp: Finalise_def)
  let ?xs = "set (dirties_of visit db1)" and ?db2 = "fold (finalise_object B del) (dirties_of visit db1) db1"
  have "written_back B db {} db" using assms(3) by (simp add: written_back_def)
  from flush_validators [OF this 1(1) assms(5,4)] have w: "written_back B db {a. stateValidators db a \<noteq> None} db1"
    using assms(2) by (simp add: visits_all_def)
  have inv: "db_inv B db1" "ledger B db1 = ledger B db" "stateValidators db1 = stateValidators db" "HasSuicided B db1 = HasSuicided B db"
    using w by (simp_all add: written_back_def)
  have firm: "\<not> suicided s \<and> CodeHash (data s) \<noteq> EmptyCodeHash B" if "live_obj B db1 a = Some s" "lWrap (ledger B db) a \<noteq> None" for a s
  proof -
    have h: "HasSuicided B db a = suicided s" using inv(4) that(1) by (metis HasSuicided_live option.simps(5))
    show ?thesis
    proof (cases "stateValidators db a")
      case None
      then have "live_obj B db a = Some s" using w that(1) by (simp add: written_back_def)
      then show ?thesis using assms(6) that(2) None unfolding solid_def by blast
    next
      case (Some p)
      then have "CodeHash (data s) \<noteq> EmptyCodeHash B" using w that(1) by (auto simp: written_back_def)
      moreover have "\<not> HasSuicided B db a" using assms(6) that(2) by (auto simp: solid_def HasSuicided_live split: option.split)
      ultimately show ?thesis using h by simp
    qed
  qed
  have ok: "db_ok db1" using inv(1) by (simp add: db_inv_def)
  have s: "settles B del ?xs db1 ?db2" using finalise_objects_settle [OF settles_start [OF ok]] by simp
  have gone: "live_obj B db1 a = None \<or> (\<exists>s. live_obj B db1 a = Some s \<and> (suicided s \<or> Object_empty B s))" if "removed B del db1 a" for a
  proof -
    obtain s where "stateObjects db1 a = Some s" "suicided s \<or> Object_empty B s" using \<open>removed B del db1 a\<close> by (auto simp: removed_def)
    then show ?thesis by (cases "deleted s") (simp_all add: live_obj_def obj_at_def)
  qed
  have bare: "lWrap (ledger B db) a = None" if "removed B del db1 a" "live_obj B db1 a \<noteq> None" for a
    using gone [OF that(1)] that(2) firm [of a] by (cases "lWrap (ledger B db) a") (auto simp: Object_empty_def)
  have cached: "lWrap (ledger B db) a \<noteq> None" if "stateValidators db a \<noteq> None" for a
  proof -
    obtain w where "stateValidators db a = Some (Some w)" using \<open>stateValidators db a \<noteq> None\<close> assms(3) by (fastforce simp: db_inv_def)
    then show ?thesis by (simp add: ledger_def wrapper_at_eq)
  qed
  have inv2: "db_inv B ?db2" using s inv(1) by (simp add: settles_def db_inv_def)
  have reads: "GetBalance B ?db2 a = GetBalance B db1 a" "GetCode B ?db2 a = GetCode B db1 a" "GetState B ?db2 a = GetState B db1 a"
    if "\<not> (a \<in> ?xs \<and> removed B del db1 a)" for a using s that by (auto simp: settles_def)
  have none: "live_obj B ?db2 a = None" if "a \<in> ?xs" "removed B del db1 a" for a using s that by (auto simp: settles_def)
  have val: "stateValidators ?db2 = stateValidators db" using s inv(3) by (simp add: settles_def)
  have wrap: "lWrap (ledger B ?db2) a = lWrap (ledger B db1) a" for a
  proof (cases "a \<in> ?xs \<and> removed B del db1 a")
    case False
    then show ?thesis using reads(2) [of a] val inv(3) by (simp add: ledger_def wrapper_at_eq)
  next
    case True
    then have c: "GetCode B ?db2 a = None" using none by (simp add: read_live)
    show ?thesis
    proof (cases "live_obj B db1 a")
      case None
      then have "GetCode B db1 a = None" by (simp add: read_live)
      then show ?thesis using c val inv(3) by (simp add: ledger_def wrapper_at_eq)
    next
      case (Some s0)
      then have "lWrap (ledger B db) a = None" using bare True by simp
      then show ?thesis using c cached [of a] val inv(2) no_code_no_wrapper [of ?db2 a B] by (cases "stateValidators db a") auto
    qed
  qed
  have flag: "lFlag (ledger B ?db2) a" if "lWrap (ledger B db) a \<noteq> None" for a
  proof -
    have f: "lFlag (ledger B db1) a" using that assms(4) inv(2) by (auto simp: ledger_ok_def)
    then have "live_obj B db1 a \<noteq> None" by (auto simp: ledger_def read_live split: option.splits)
    then have "\<not> (a \<in> ?xs \<and> removed B del db1 a)" using bare [of a] that by auto
    then show ?thesis using reads(3) [of a] f by (simp add: ledger_def)
  qed
  have bal: "lBal (ledger B ?db2) a = lBal (ledger B db) a \<or> HasSuicided B db a \<and> lBal (ledger B ?db2) a = 0" for a
  proof (cases "a \<in> ?xs \<and> removed B del db1 a")
    case False
    then show ?thesis using reads(1) [of a] inv(2) by (simp add: inv(2) [symmetric] ledger_sel)
  next
    case True
    then have "GetBalance B ?db2 a = 0" using none by (simp add: read_live)
    moreover have "GetBalance B db1 a = 0 \<or> HasSuicided B db1 a"
      using gone [of a] True by (auto simp: read_live HasSuicided_live Object_empty_def sgn_0_0)
    ultimately show ?thesis using inv(4) by (simp add: inv(2) [symmetric] ledger_sel)
  qed
  have dead: "HasSuicided B db a" if "HasSuicided B db' a" for a
  proof -
    obtain s' where s': "live_obj B ?db2 a = Some s'" "suicided s'" using \<open>HasSuicided B db' a\<close> by (auto simp: 1(2) HasSuicided_live split: option.splits)
    then obtain s0 where "live_obj B db1 a = Some s0" "suicided s0" using s unfolding settles_def by blast
    then show ?thesis using inv(4) by (metis HasSuicided_live option.simps(5))
  qed
  have "solid B ?db2" unfolding solid_def
  proof (intro allI impI)
    fix a s' assume "live_obj B ?db2 a = Some s'" "lWrap (ledger B ?db2) a \<noteq> None"
    then show "\<not> suicided s' \<and> (stateValidators ?db2 a \<noteq> None \<or> CodeHash (data s') \<noteq> EmptyCodeHash B)"
      using s firm [of a] wrap [of a] inv(2) by (fastforce simp: settles_def)
  qed
  then have "solid B db'" by (simp add: 1(2) solid_def)
  moreover have "ledger_ok (ledger B ?db2)" using assms(4) wrap flag inv(2) by (auto simp: ledger_ok_def)
  moreover have "lWrap (ledger B ?db2) = lWrap (ledger B db)" using wrap inv(2) by auto
  moreover have "db_inv B db'" using inv2 by (simp add: 1(2) db_inv_def)
  ultimately show ?thesis using bal dead by (simp add: 1(2))
qed

lemma Finalise_total:
  assumes "db_inv B db" "ledger_ok (ledger B db)" "code_law B"
  shows "\<exists>db'. Finalise visit B db del = Inr db'"
proof -
  have "\<exists>db2. go_fold (flush_validator B) db1 xs = Inr db2" if "written_back B db visited db1" for visited db1 xs
    using that
  proof (induction xs arbitrary: visited db1)
    case (Cons a xs)
    then show ?case using flush_validator_total [OF Cons.prems assms(3,2), of a] flush_validator_step [OF Cons.prems _ assms(3,2), of a] by fastforce
  qed simp
  then show ?thesis using assms(1) by (fastforce simp: Finalise_def written_back_def)
qed


text \<open>The maps visited in the order of the addresses.\<close>

definition sorted_visit :: map_order where
  "sorted_visit = \<lparr>validators_of = (\<lambda>db. sorted_list_of_set {a. stateValidators db a \<noteq> None}), dirties_of = (\<lambda>db. sorted_list_of_set {a. dirties db a > 0})\<rparr>"

lemma sorted_visits_all: "visits_all sorted_visit"
  by (simp add: visits_all_def sorted_visit_def)

lemma sample_code_law: "code_law sample_backend"
  using sample_encodable by (auto simp: code_law_def sample_backend_def EmptyCodeHash_def)

lemma sample_staking_live:
  "live_obj sample_backend sample_staking a =
     (if a = 9 then Some ((newObject 9 (emptyAccount sample_backend))\<lparr>dirtyStorage := [IsValidatorKey sample_backend \<mapsto> IsValidatorHash sample_backend]\<rparr>)
      else map_option (newObject a) (trieAccount sample_backend a))"
  by (simp add: live_obj_def obj_at_def sample_staking_def sample_db_def New_def newObject_def split: option.split)

lemma sample_funded_solid: "solid sample_backend sample_funded"
proof -
  have "solid sample_backend sample_staking"
    unfolding solid_def using sample_staking_ledger(1)
    by (auto simp: sample_staking_live newObject_def) (simp add: sample_staking_def sample_db_def)
  then show ?thesis unfolding sample_funded_def by (rule solid_ops(1)) (rule sample_staking_ok(1))
qed

lemma sample_funded_ok: "ledger_ok (ledger sample_backend sample_funded)"
  using sample_funded_ledger(2) sample_staking_ok(2) by simp


end
