(* ===== verification/Machine.thy ===== *)
theory Machine
  imports Transition
begin

text \<open>
  The other entry points of the virtual machine (\<open>core/vm/evm.go\<close>), which the interpreter uses for calls
  between contracts: \<open>CallCode\<close>, \<open>DelegateCall\<close>, \<open>StaticCall\<close> and \<open>Create2\<close>. The interpreter itself stays a
  parameter; what is shown is that no call that fails leaves a trace, at any depth.
\<close>

section \<open>Entry points\<close>

definition NewContract :: "Address \<Rightarrow> Address \<Rightarrow> int \<Rightarrow> uint64 \<Rightarrow> Contract" where
  "NewContract caller self val gas =
     \<lparr>cCaller = caller, cSelf = self, cValue = val, cGas = gas, cCodeAddr = 0, cCodeHash = 0, cCode = None\<rparr>"

definition SetCallCode :: "Contract \<Rightarrow> Address \<Rightarrow> Hash \<Rightarrow> bytes option \<Rightarrow> Contract" where
  "SetCallCode contract addr codehash byts = contract\<lparr>cCodeAddr := addr, cCodeHash := codehash, cCode := byts\<rparr>"

text \<open>A delegate call keeps the caller and the value of the contract that makes it.\<close>

definition AsDelegate :: "Contract \<Rightarrow> Contract \<Rightarrow> Contract" where
  "AsDelegate parent contract = contract\<lparr>cCaller := cCaller parent, cValue := cValue parent\<rparr>"

definition CallCode :: "'pk EVM \<Rightarrow> backend \<Rightarrow> DB \<Rightarrow> Address \<Rightarrow> Address \<Rightarrow> bytes \<Rightarrow> uint64 \<Rightarrow> int \<Rightarrow> RunResult go" where
  "CallCode evm B db caller addr input gas val =
     (let stop = (\<lambda>err. Inr \<lparr>rRet = [], rGas = gas, rErr = err, rCX = None, rDB = db\<rparr>)
      in if evNoRecursion evm \<and> evDepth evm > 0 then stop None
         else if evDepth evm > CallCreateDepth then stop (Some ErrDepth)
         else if \<not> CanTransfer (DB_ops B) db caller val then stop (Some ErrInsufficientBalance)
         else case Snapshot db of (snapshot, db) \<Rightarrow>
           let contract = SetCallCode (NewContract caller caller val gas) addr (GetCodeHash B db addr) (GetCode B db addr)
           in settle_run B snapshot (evRun evm contract input False db))"

definition DelegateCall :: "'pk EVM \<Rightarrow> backend \<Rightarrow> DB \<Rightarrow> Contract \<Rightarrow> Address \<Rightarrow> bytes \<Rightarrow> uint64 \<Rightarrow> RunResult go" where
  "DelegateCall evm B db caller addr input gas =
     (let stop = (\<lambda>err. Inr \<lparr>rRet = [], rGas = gas, rErr = err, rCX = None, rDB = db\<rparr>)
      in if evNoRecursion evm \<and> evDepth evm > 0 then stop None
         else if evDepth evm > CallCreateDepth then stop (Some ErrDepth)
         else case Snapshot db of (snapshot, db) \<Rightarrow>
           let contract = SetCallCode (AsDelegate caller (NewContract (cSelf caller) (cSelf caller) 0 gas)) addr
                            (GetCodeHash B db addr) (GetCode B db addr)
           in settle_run B snapshot (evRun evm contract input False db))"

text \<open>The zero added to the balance only touches the account.\<close>

definition StaticCall :: "'pk EVM \<Rightarrow> backend \<Rightarrow> DB \<Rightarrow> Address \<Rightarrow> Address \<Rightarrow> bytes \<Rightarrow> uint64 \<Rightarrow> RunResult go" where
  "StaticCall evm B db caller addr input gas =
     (let stop = (\<lambda>err. Inr \<lparr>rRet = [], rGas = gas, rErr = err, rCX = None, rDB = db\<rparr>)
      in if evNoRecursion evm \<and> evDepth evm > 0 then stop None
         else if evDepth evm > CallCreateDepth then stop (Some ErrDepth)
         else case Snapshot db of (snapshot, db) \<Rightarrow>
           let contract = SetCallCode (NewContract caller addr 0 gas) addr (GetCodeHash B db addr) (GetCode B db addr);
               db = AddBalance B db addr 0
           in settle_run B snapshot (evRun evm contract input True db))"

text \<open>The address of a contract made by \<open>Create2\<close> depends on the creator, a salt and the hash of the code.\<close>

definition Create2 ::
  "(Address \<Rightarrow> Hash \<Rightarrow> Hash \<Rightarrow> Address) \<Rightarrow> 'pk EVM \<Rightarrow> backend \<Rightarrow> DB \<Rightarrow> Address \<Rightarrow> bytes \<Rightarrow> uint64 \<Rightarrow> int \<Rightarrow> int \<Rightarrow> RunResult go" where
  "Create2 createAddress2 evm B db caller codeBytes gas endowment salt =
     evm_create evm B db caller codeBytes gas endowment (createAddress2 caller (word_of_int salt) (Keccak256Hash B codeBytes))"

section \<open>Failed calls leave no trace\<close>

text \<open>The errors after which the caller gets its gas back.\<close>

definition keeps_gas :: "vmError option \<Rightarrow> bool" where
  "keeps_gas err \<longleftrightarrow> err \<in> {Some ErrExecutionReverted, Some ErrDepth, Some ErrInsufficientBalance}"

definition no_trace :: "backend \<Rightarrow> DB \<Rightarrow> uint64 \<Rightarrow> RunResult \<Rightarrow> bool" where
  "no_trace B db gas r \<longleftrightarrow> world B (rDB r) = world B db \<and> db_ok (rDB r) \<and> rGas r \<le> gas \<and> (\<not> keeps_gas (rErr r) \<longrightarrow> rGas r = 0)"

lemma no_trace_stop [simp]:
  "db_ok db \<Longrightarrow> keeps_gas err \<Longrightarrow> no_trace B db gas \<lparr>rRet = [], rGas = gas, rErr = err, rCX = None, rDB = db\<rparr>"
  "db_ok db \<Longrightarrow> no_trace B db gas \<lparr>rRet = [], rGas = gas, rErr = Some ErrDepth, rCX = None, rDB = db\<rparr>"
  "db_ok db \<Longrightarrow> no_trace B db gas \<lparr>rRet = [], rGas = gas, rErr = Some ErrInsufficientBalance, rCX = None, rDB = db\<rparr>"
  by (simp_all add: no_trace_def keeps_gas_def)

lemma settle_run_no_trace:
  assumes "rev_inv B db ws" "run_journaled B run" "Snapshot db = (revid, db1)" "plain B db1 db2"
    "settle_run B revid (run contract input readOnly db2) = Inr r" "rErr r \<noteq> None"
  shows "no_trace B db (cGas contract) r"
proof -
  let ?r = "run contract input readOnly db2"
  obtain db3 where 3: "RevertToSnapshot B (rDB ?r) revid = Inr db3" "world B db3 = world B db" "db_ok db3"
    using failed_run_reverts [OF assms(1-4)] by blast
  obtain err where "rErr ?r = Some err" "r = ?r\<lparr>rDB := db3, rGas := (if err \<noteq> ErrExecutionReverted then 0 else rGas ?r)\<rparr>"
    using assms(5,6) 3(1) by (cases "rErr ?r") (auto simp: settle_run_def)
  then show ?thesis using 3 run_gas [OF assms(2), of contract input readOnly db2] by (auto simp: no_trace_def keeps_gas_def)
qed

lemma contract_gas [simp]:
  "cGas (NewContract a b v gas) = gas" "cGas (SetCallCode contract addr h byts) = cGas contract" "cGas (AsDelegate p contract) = cGas contract"
  by (simp_all add: NewContract_def SetCallCode_def AsDelegate_def)

lemma Call_no_trace:
  assumes "rev_inv B db ws" "run_journaled B (evRun evm)" "Call evm B db caller addr input gas val = Inr r" "rErr r \<noteq> None"
  shows "no_trace B db gas r"
proof -
  obtain revid db1 where s: "Snapshot db = (revid, db1)" by fastforce
  have ok: "db_ok db" "db_ok db1" using assms(1) Snapshot_ok [OF s] by (simp_all add: rev_inv_def)
  let ?absent = "\<not> Exist B db1 addr \<and> evTxType evm \<noteq> SubtractionOnly"
  let ?db2 = "enter_call evm B db1 ?absent caller addr val"
  let ?c = "call_contract B ?db2 caller addr gas val"
  have "no_trace B db gas r \<or> settle_run B revid (evRun evm ?c input False ?db2) = Inr r"
    using assms(3,4) s ok(1) by (auto simp: Call_def Let_def split: if_splits)
  then show ?thesis using settle_run_no_trace [OF assms(1,2) s enter_call_plain [OF ok(2)] _ assms(4), of ?c input False evm ?absent caller addr val] by auto
qed

lemma subcalls_no_trace:
  assumes "rev_inv B db ws" "run_journaled B (evRun evm)" "rErr r \<noteq> None"
  shows "CallCode evm B db caller addr input gas val = Inr r \<Longrightarrow> no_trace B db gas r"
    "DelegateCall evm B db parent addr input gas = Inr r \<Longrightarrow> no_trace B db gas r"
    "StaticCall evm B db caller addr input gas = Inr r \<Longrightarrow> no_trace B db gas r"
proof -
  obtain revid db1 where s: "Snapshot db = (revid, db1)" by fastforce
  have ok: "db_ok db" "db_ok db1" using assms(1) Snapshot_ok [OF s] by (simp_all add: rev_inv_def)
  note n = settle_run_no_trace [OF assms(1,2) s _ _ assms(3)]
  have p: "plain B db1 db1" "plain B db1 (AddBalance B db1 addr 0)" by (rule plain_refl [OF ok(2)], rule plain_ops(3) [OF ok(2)])
  show "no_trace B db gas r" if "CallCode evm B db caller addr input gas val = Inr r"
    using that s ok(1) assms(3) by (auto simp: CallCode_def Let_def split: if_splits dest!: n [OF p(1)])
  show "no_trace B db gas r" if "DelegateCall evm B db parent addr input gas = Inr r"
    using that s ok(1) assms(3) by (auto simp: DelegateCall_def Let_def split: if_splits dest!: n [OF p(1)])
  show "no_trace B db gas r" if "StaticCall evm B db caller addr input gas = Inr r"
    using that s ok(1) assms(3) by (auto simp: StaticCall_def Let_def split: if_splits dest!: n [OF p(2)])
qed

text \<open>
  C18: A call between contracts that fails leaves no trace, at any depth and for every kind of call: the
  state is the one before the call, and unless the code asked for the revert or was never started, all
  the gas it was given is used up.
\<close>

theorem failed_calls_leave_no_trace:
  assumes "rev_inv B db ws" "run_journaled B (evRun evm)" "rErr r \<noteq> None"
    "Inr r \<in> {Call evm B db caller addr input gas val, CallCode evm B db caller addr input gas val,
       DelegateCall evm B db parent addr input gas, StaticCall evm B db caller addr input gas}"
  shows "world B (rDB r) = world B db \<and> rGas r \<le> gas
    \<and> (rErr r \<notin> {Some ErrExecutionReverted, Some ErrDepth, Some ErrInsufficientBalance} \<longrightarrow> rGas r = 0)"
proof -
  have "no_trace B db gas r" using assms(4) Call_no_trace [OF assms(1,2) _ assms(3)] subcalls_no_trace [OF assms(1-3)] by fastforce
  then show ?thesis by (simp add: no_trace_def keeps_gas_def)
qed

lemma sample_static:
  "\<exists>r. StaticCall (sample_evm (Some (ErrOther ''stack underflow'')) SameShardTx) sample_backend sample_rich 7 1 [] 5000 = Inr r
     \<and> rErr r = Some (ErrOther ''stack underflow'')"
proof -
  let ?evm = "sample_evm (Some (ErrOther ''stack underflow'')) SameShardTx"
  obtain revid db1 where s: "Snapshot sample_rich = (revid, db1)" by fastforce
  have "db_ok db1" using sample_rich_ok(1) Snapshot_ok [OF s] by (simp add: rev_inv_def)
  from failed_run_reverts [OF sample_rich_ok(1) sample_evm_ok(1) s plain_ops(3) [OF this]]
  obtain db3 where "RevertToSnapshot sample_backend (rDB (evRun ?evm (SetCallCode (NewContract 7 1 0 5000) 1 (GetCodeHash sample_backend db1 1) (GetCode sample_backend db1 1))
      [] True (AddBalance sample_backend db1 1 0))) revid = Inr db3" by blast
  then show ?thesis using s sample_evm_ok(7) [of "Some (ErrOther ''stack underflow'')" SameShardTx]
    by (simp add: StaticCall_def settle_run_def Let_def CallCreateDepth_def sample_evm_ok(4))
qed

theorem failed_calls_leave_no_trace_witness:
  "\<exists>r. StaticCall (sample_evm (Some (ErrOther ''stack underflow'')) SameShardTx) sample_backend sample_rich 7 1 [] 5000 = Inr r
     \<and> world sample_backend (rDB r) = world sample_backend sample_rich \<and> rGas r = 0"
proof -
  let ?evm = "sample_evm (Some (ErrOther ''stack underflow'')) SameShardTx"
  obtain r where r: "StaticCall ?evm sample_backend sample_rich 7 1 [] 5000 = Inr r" "rErr r = Some (ErrOther ''stack underflow'')"
    using sample_static by blast
  have "rErr r \<noteq> None" "Inr r \<in> {Call ?evm sample_backend sample_rich 7 1 [] 5000 0, CallCode ?evm sample_backend sample_rich 7 1 [] 5000 0,
      DelegateCall ?evm sample_backend sample_rich (NewContract 7 7 0 0) 1 [] 5000, StaticCall ?evm sample_backend sample_rich 7 1 [] 5000}"
    using r by simp_all
  from failed_calls_leave_no_trace [OF sample_rich_ok(1) sample_evm_ok(1) this] r show ?thesis by simp
qed

end
