(* ===== verification/Rewards.thy ===== *)
theory Rewards
  imports StakeEffects Votepower Headers
begin

text \<open>
  Block rewards: the amounts (\<open>staking/reward/values.go\<close>), the shares of the delegators and the payout
  of a block (\<open>internal/chain/reward.go\<close>), and the distribution
  to one validator (\<open>AddReward\<close> of \<open>core/state/statedb.go\<close>).

  The two caches of \<open>reward.go\<close> are keyed by epoch and shard or validator, for which committee and
  snapshot are fixed, so a lookup is the computation it stands for. The wait for the commit
  signatures is its result, a boolean. Headers, shard states and snapshots come from the chain.
\<close>

section \<open>Amounts\<close>

definition Intello :: int where "Intello = 10 ^ 9"
definition PreStakedBlocks :: int where "PreStakedBlocks = 24 * Itc"
definition StakedBlocks :: Dec where "StakedBlocks = NewDecFromBigInt (28 * Itc)"
definition FiveSecStakedBlocks :: Dec where "FiveSecStakedBlocks = NewDecFromBigInt (17500000000 * Intello)"
definition TwoSecStakedBlocks :: Dec where "TwoSecStakedBlocks = NewDecFromBigInt (7 * Intello * Intello)"
definition HIP30StakedBlocks :: Dec where "HIP30StakedBlocks = NewDecFromBigInt (14 * Intello * Intello)"

text \<open>The comparison of the chain id with the testnet's is one of pointers and is a parameter.\<close>

definition getDefaultStakingReward :: "ChainConfig \<Rightarrow> bool \<Rightarrow> int \<Rightarrow> uint64 \<Rightarrow> Dec" where
  "getDefaultStakingReward cfg isTestnetID epoch blockNum =
     (if isTestnetID \<and> FiveSecondsEpoch cfg = Some 16500
      then if IsTwoSeconds cfg (Some epoch) then TwoSecStakedBlocks
           else if blockNum > 634644
           then if blockNum > 636507
                then if blockNum > 639341 then FiveSecStakedBlocks else StakedBlocks
                else FiveSecStakedBlocks
           else StakedBlocks
      else if IsHIP30 cfg (Some epoch) then HIP30StakedBlocks
      else if IsTwoSeconds cfg (Some epoch) then TwoSecStakedBlocks
      else if IsFiveSeconds cfg (Some epoch) then FiveSecStakedBlocks
      else StakedBlocks)"

section \<open>Rewarding a validator\<close>

definition lookupDelegatorShares :: "ValidatorSnapshot \<Rightarrow> (Address \<rightharpoonup> Dec) go" where
  "lookupDelegatorShares snapshot =
     (let totalDelegationDec = NewDecFromBigInt (TotalDelegation (snapValidator snapshot))
      in if IsZero totalDelegationDec then Inr Map.empty
         else go_fold (\<lambda>result d. go_bind (Quo (NewDecFromBigInt (Amount d)) totalDelegationDec)
                (\<lambda>percentage. Inr (result(DelegatorAddress d \<mapsto> percentage))))
              Map.empty (Delegations (snapValidator snapshot)))"

definition credit_reward :: "nat \<Rightarrow> int \<Rightarrow> ValidatorWrapper \<Rightarrow> ValidatorWrapper go" where
  "credit_reward i x w =
     (if i < length (Delegations w)
      then Inr (w\<lparr>Delegations := (Delegations w)[i := (Delegations w ! i)\<lparr>Reward := Reward (Delegations w ! i) + x\<rparr>]\<rparr>)
      else Inl (Panic ''index out of range''))"

text \<open>
  The loop over the delegators. A missing share ends the function early, and because the error it
  wraps is nil it does so without an error; the remaining pool is then \<open>None\<close>.
\<close>

fun pay_delegators :: "(Address \<rightharpoonup> Dec) \<Rightarrow> int \<Rightarrow> nat \<Rightarrow> Delegation list \<Rightarrow> ValidatorWrapper \<Rightarrow> int \<Rightarrow> (ValidatorWrapper \<times> int option) go" where
  "pay_delegators shareLookup total_pool i [] w pool = Inr (w, Some pool)"
| "pay_delegators shareLookup total_pool i (d # ds) w pool =
     (case shareLookup (DelegatorAddress d) of
        None \<Rightarrow> Inr (w, None)
      | Some percentage \<Rightarrow>
          go_bind (MulInt percentage total_pool) (\<lambda>m.
          go_bind (credit_reward i (RoundInt m) w) (\<lambda>w.
            pay_delegators shareLookup total_pool (Suc i) ds w (pool - RoundInt m))))"

definition pay_commission :: "Dec \<Rightarrow> int \<Rightarrow> ValidatorWrapper \<Rightarrow> (ValidatorWrapper \<times> int) go" where
  "pay_commission r rwd w =
     (if GT r ZeroDec
      then go_bind (MulInt r rwd) (\<lambda>m. go_bind (credit_reward 0 (RoundInt m) w) (\<lambda>w. Inr (w, rwd - RoundInt m)))
      else Inr (w, rwd))"

definition reward_wrapper :: "ValidatorWrapper \<Rightarrow> int \<Rightarrow> (Address \<rightharpoonup> Dec) \<Rightarrow> ValidatorWrapper \<Rightarrow> ValidatorWrapper go" where
  "reward_wrapper snapshot rwd shareLookup w =
     go_bind (deref (Rate (Rates (vCommission (theValidator snapshot))))) (\<lambda>r.
     go_bind (pay_commission r rwd (w\<lparr>BlockReward := BlockReward w + rwd\<rparr>)) (\<lambda>(w, pool).
     go_bind (pay_delegators shareLookup pool 0 (Delegations snapshot) w pool) (\<lambda>(w, rest).
       case rest of
         None \<Rightarrow> Inr w
       | Some pool \<Rightarrow> if pool > 0 then credit_reward 0 pool w else Inr w)))"

definition AddReward :: "backend \<Rightarrow> DB \<Rightarrow> ValidatorWrapper \<Rightarrow> int \<Rightarrow> (Address \<rightharpoonup> Dec) \<Rightarrow> DB go" where
  "AddReward B db snapshot rwd shareLookup =
     (if rwd = 0 then Inr db
      else
        let addr = vAddress (theValidator snapshot)
        in case ValidatorWrapper_get B db addr True False of
             Inl (Panic e) \<Rightarrow> Inl (Panic e)
           | Inl (Error _) \<Rightarrow> Inl (Error ''failed to distribute rewards: validator does not exist'')
           | Inr (p, db) \<Rightarrow>
               go_bind (deref p) (\<lambda>curValidator.
               if Status (theValidator curValidator) = Banned then Inr db
               else go_bind (reward_wrapper snapshot rwd shareLookup curValidator) (\<lambda>w.
                      Inr (db\<lparr>stateValidators := (stateValidators db)(addr := Some (Some w))\<rparr>))))"

section \<open>Paying the signers of a block\<close>

record 'pk rewardChain =
  rcConfig :: ChainConfig
  rcTestnetID :: bool
  rcShardID :: uint32
  rcShardState :: "int \<Rightarrow> State go"
  rcSnapshot :: "Address \<Rightarrow> ValidatorSnapshot go"
  rcHeaderByHash :: "Hash \<Rightarrow> BlockHeader option"
  rcHeaderByNumber :: "uint64 \<Rightarrow> BlockHeader option"
  rcDecodeCrossLinks :: "bytes \<Rightarrow> CrossLink list go"
  rcOps :: "'pk pk_ops"
  rcKey :: "SerializedPublicKey \<Rightarrow> 'pk go"
  rcInstance :: "int \<Rightarrow> 'pk Instance"
  rcRewardFrequency :: uint64

record slotPayable =
  payableSlot :: Slot
  payout :: int
  bucket :: nat
  pindex :: nat
  payableShard :: uint32

record slotMissing =
  missingSlot :: Slot
  mbucket :: nat
  mindex :: nat

definition lookupVotingPower :: "'pk rewardChain \<Rightarrow> int \<Rightarrow> Committee \<Rightarrow> Roster go" where
  "lookupVotingPower bc epoch subComm = Roster_Compute (rcInstance bc) subComm (Some epoch)"

definition voter_of :: "Roster \<Rightarrow> Slot \<Rightarrow> AccommodateIntelchainVote go" where
  "voter_of votingPower slot = deref (map_of (Voters votingPower) (BLSPublicKey slot))"

definition allSignersShare :: "Roster \<Rightarrow> Slot list \<Rightarrow> Dec go" where
  "allSignersShare votingPower signers =
     go_fold (\<lambda>share slot. go_bind (voter_of votingPower slot) (\<lambda>voter.
         if \<not> IsIntelchainNode voter then Add share (OverallPercent voter) else Inr share)) ZeroDec signers"

definition due_to :: "Dec \<Rightarrow> Dec \<Rightarrow> AccommodateIntelchainVote \<Rightarrow> Dec go" where
  "due_to defaultReward allShare voter =
     go_bind (Quo (OverallPercent voter) allShare) (\<lambda>q. Mul defaultReward q)"

definition payables_of :: "Dec \<Rightarrow> Roster \<Rightarrow> Dec \<Rightarrow> nat \<Rightarrow> uint32 \<Rightarrow> Slot list \<Rightarrow> slotPayable list go" where
  "payables_of defaultReward votingPower allShare bkt shardID payableSigners =
     go_fold (\<lambda>acc (j, slot).
         go_bind (voter_of votingPower slot) (\<lambda>voter.
         if \<not> IsIntelchainNode voter \<and> \<not> IsZero (OverallPercent voter)
         then go_bind (due_to defaultReward allShare voter) (\<lambda>due.
              Inr (acc @ [\<lparr>payableSlot = slot, payout = TruncateInt due, bucket = bkt, pindex = j, payableShard = shardID\<rparr>]))
         else Inr acc)) [] (enumerate 0 payableSigners)"

definition processOneCrossLink ::
  "'pk rewardChain \<Rightarrow> backend \<Rightarrow> DB \<Rightarrow> CrossLink \<Rightarrow> Dec \<Rightarrow> nat \<Rightarrow> (DB \<times> slotPayable list \<times> slotMissing list) go" where
  "processOneCrossLink bc B db cxLink defaultReward bkt =
     (if \<not> IsStaking (rcConfig bc) (Some (EpochF cxLink)) then Inr (db, [], [])
      else
        go_bind (rcShardState bc (EpochF cxLink)) (\<lambda>shardState.
        go_bind (FindCommitteeByID (Some shardState) (ShardIDF cxLink)) (\<lambda>subComm.
        go_bind (BlockSigners (rcOps bc) (rcKey bc) (BitmapF cxLink) subComm) (\<lambda>(payableSigners, missing).
        go_bind (Committee_StakedValidators subComm) (\<lambda>stk.
        go_bind (IncrementValidatorSigningCounts B stk db payableSigners missing) (\<lambda>db.
        go_bind (lookupVotingPower bc (EpochF cxLink) subComm) (\<lambda>votingPower.
        go_bind (allSignersShare votingPower payableSigners) (\<lambda>allShare.
        go_bind (payables_of defaultReward votingPower allShare bkt (ShardIDF cxLink) payableSigners) (\<lambda>allPayables.
          Inr (db, allPayables, map (\<lambda>(j, s). \<lparr>missingSlot = s, mbucket = bkt, mindex = j\<rparr>) (enumerate 0 missing)))))))))))"

section \<open>Paying the validators of a block\<close>

text \<open>What a round reports (\<open>consensus/reward/schedule.go\<close>, \<open>staking/network/reward.go\<close>).\<close>

record Payout =
  Addr :: Address
  NewlyEarned :: int
  EarningKey :: SerializedPublicKey

record CompletedRound =
  Total :: int
  Payouts :: "Payout list"

definition EmptyPayout :: CompletedRound where "EmptyPayout = \<lparr>Total = 0, Payouts = []\<rparr>"

definition NewPreStakingEraRewarded :: "int \<Rightarrow> CompletedRound" where
  "NewPreStakingEraRewarded totalAmount = \<lparr>Total = totalAmount, Payouts = []\<rparr>"

definition NewStakingEraRewardForRound :: "int \<Rightarrow> Payout list \<Rightarrow> CompletedRound" where
  "NewStakingEraRewardForRound totalPayout ps = \<lparr>Total = totalPayout, Payouts = ps\<rparr>"

definition waitForCommitSigs :: "bool \<Rightarrow> unit go" where
  "waitForCommitSigs sigsReady = go_check sigsReady (Error ''Failed to get commit sigs'')"

definition ballotResultBeaconchain ::
  "'pk rewardChain \<Rightarrow> BlockHeader \<Rightarrow> (int \<times> Slot list \<times> Slot list \<times> Slot list) go" where
  "ballotResultBeaconchain bc header =
     (case rcHeaderByHash bc (bhParentHash header) of
        None \<Rightarrow> Inl (Error ''cannot find parent block header in DB'')
      | Some parentHeader \<Rightarrow>
          (case rcShardState bc (hEpoch parentHeader) of
             Inl (Error _) \<Rightarrow> Inl (Error ''cannot read shard state'')
           | Inl p \<Rightarrow> Inl p
           | Inr parentShardState \<Rightarrow>
               go_bind (BallotResult (rcOps bc) (rcKey bc) (bhLastCommitBitmap header) (Some parentShardState) 0)
                 (\<lambda>(members, paid, missing). Inr (hEpoch parentHeader, members, paid, missing))))"

text \<open>The equal split among the signers before staking: signer \<open>i\<close> gets the difference of two quotients.\<close>

fun split_reward :: "backend \<Rightarrow> int \<Rightarrow> nat \<Rightarrow> int \<Rightarrow> int \<Rightarrow> DB \<Rightarrow> Slot list \<Rightarrow> DB \<times> int" where
  "split_reward B n i prev totalAmount db [] = (db, totalAmount)"
| "split_reward B n i prev totalAmount db (account # rest) =
     (let cur = ediv (PreStakedBlocks * int (i + 1)) n; diff = cur - prev
      in split_reward B n (Suc i) cur (totalAmount + diff) (AddBalance B db (EcdsaAddress account) diff) rest)"

definition accumulateRewardsAndCountSigsBeforeStaking ::
  "'pk rewardChain \<Rightarrow> backend \<Rightarrow> DB \<Rightarrow> BlockHeader \<Rightarrow> bool \<Rightarrow> (DB \<times> Dec \<times> CompletedRound) go" where
  "accumulateRewardsAndCountSigsBeforeStaking bc B db header sigsReady =
     (case rcHeaderByHash bc (bhParentHash header) of
        None \<Rightarrow> Inl (Error ''cannot find parent block header in DB at parent hash'')
      | Some parentHeader \<Rightarrow>
          if hNumber parentHeader = 0 then Inr (db, ZeroDec, EmptyPayout)
          else
            go_bind (rcShardState bc (hEpoch parentHeader)) (\<lambda>parentShardState.
            go_bind (waitForCommitSigs sigsReady) (\<lambda>_.
            go_bind (BallotResult (rcOps bc) (rcKey bc) (bhLastCommitBitmap header) (Some parentShardState) (bhShardID header)) (\<lambda>(_, signers, _).
              case split_reward B (int (length signers)) 0 0 0 db signers of
                (db, totalAmount) \<Rightarrow>
                  if totalAmount \<noteq> PreStakedBlocks then Inl (Error ''ErrPayoutNotEqualBlockReward'')
                  else Inr (db, ZeroDec, NewPreStakingEraRewarded totalAmount)))))"

text \<open>One payment: read the snapshot, look up the shares, add the reward.\<close>

definition pay_validator :: "'pk rewardChain \<Rightarrow> backend \<Rightarrow> DB \<Rightarrow> Address \<Rightarrow> int \<Rightarrow> DB go" where
  "pay_validator bc B db addr due =
     go_bind (rcSnapshot bc addr) (\<lambda>snapshot.
     go_bind (lookupDelegatorShares snapshot) (\<lambda>shares.
       AddReward B db (snapValidator snapshot) due shares))"

definition payout_of :: "slotPayable \<Rightarrow> Payout" where
  "payout_of payThem =
     \<lparr>Addr = EcdsaAddress (payableSlot payThem), NewlyEarned = payout payThem, EarningKey = BLSPublicKey (payableSlot payThem)\<rparr>"

definition process_crosslinks :: "'pk rewardChain \<Rightarrow> backend \<Rightarrow> DB \<Rightarrow> Dec \<Rightarrow> CrossLink list \<Rightarrow> (DB \<times> slotPayable list) go" where
  "process_crosslinks bc B db defaultReward crossLinks =
     go_fold (\<lambda>(db, allPayables) (i, cxLink).
         go_bind (processOneCrossLink bc B db cxLink defaultReward i) (\<lambda>(db, payables, _).
           Inr (db, allPayables @ payables)))
       (db, []) (enumerate 0 crossLinks)"

definition pay_slot ::
  "'pk rewardChain \<Rightarrow> backend \<Rightarrow> (DB \<times> int \<times> Payout list) \<Rightarrow> slotPayable \<Rightarrow> (DB \<times> int \<times> Payout list) go" where
  "pay_slot bc B = (\<lambda>(db, newRewards, payouts) payThem.
     go_bind (pay_validator bc B db (EcdsaAddress (payableSlot payThem)) (payout payThem)) (\<lambda>db.
       Inr (db, newRewards + payout payThem, payouts @ [payout_of payThem])))"

text \<open>The members of the beacon committee; the amount due is rounded here and cut off for the cross links.\<close>

definition pay_beacon_member ::
  "'pk rewardChain \<Rightarrow> backend \<Rightarrow> Dec \<Rightarrow> Roster \<Rightarrow> Dec \<Rightarrow> (DB \<times> int \<times> Payout list) \<Rightarrow> Slot \<Rightarrow> (DB \<times> int \<times> Payout list) go" where
  "pay_beacon_member bc B defaultReward votingPower allShare = (\<lambda>(db, newRewards, payouts) slot.
     go_bind (voter_of votingPower slot) (\<lambda>voter.
     if IsIntelchainNode voter then Inr (db, newRewards, payouts)
     else
       go_bind (rcSnapshot bc (EarningAccount voter)) (\<lambda>snapshot.
       go_bind (due_to defaultReward allShare voter) (\<lambda>d.
       let due = RoundInt d in
       go_bind (lookupDelegatorShares snapshot) (\<lambda>shares.
       go_bind (AddReward B db (snapValidator snapshot) due shares) (\<lambda>db.
         Inr (db, newRewards + due, payouts @ [\<lparr>Addr = EarningAccount voter, NewlyEarned = due, EarningKey = Identity voter\<rparr>])))))))"

definition bucket_order :: "nat \<Rightarrow> slotPayable list \<Rightarrow> slotPayable list" where
  "bucket_order n allPayables = concat (map (\<lambda>b. sort_key pindex (filter (\<lambda>p. bucket p = b) allPayables)) [0..<n])"

definition distributeRewardBeforeAggregateEpoch ::
  "'pk rewardChain \<Rightarrow> 'pk rewardChain \<Rightarrow> backend \<Rightarrow> DB \<Rightarrow> BlockHeader \<Rightarrow> Dec \<Rightarrow> bool \<Rightarrow> (DB \<times> Dec \<times> CompletedRound) go" where
  "distributeRewardBeforeAggregateEpoch bc beaconChain B db header defaultReward sigsReady =
     go_bind (if bhCrossLinks header = [] then Inr (db, 0, [])
              else go_bind (rcDecodeCrossLinks bc (bhCrossLinks header)) (\<lambda>crossLinks.
                   go_bind (process_crosslinks bc B db defaultReward crossLinks) (\<lambda>(db, allPayables).
                     go_fold (pay_slot bc B) (db, 0, []) (bucket_order (length crossLinks) allPayables)))) (\<lambda>(db, newRewards, payouts).
     go_bind (waitForCommitSigs sigsReady) (\<lambda>_.
     go_bind (ballotResultBeaconchain beaconChain header) (\<lambda>(parentE, members, paid, missing).
     let subComm = \<lparr>ShardID = 0, Slots = members\<rparr> in
     go_bind (Committee_StakedValidators subComm) (\<lambda>stk.
     go_bind (IncrementValidatorSigningCounts B stk db paid missing) (\<lambda>db.
     go_bind (lookupVotingPower bc parentE subComm) (\<lambda>votingPower.
     go_bind (allSignersShare votingPower paid) (\<lambda>allShare.
     go_bind (go_fold (pay_beacon_member bc B defaultReward votingPower allShare) (db, newRewards, payouts) paid) (\<lambda>(db, newRewards, payouts).
       Inr (db, ZeroDec, NewStakingEraRewardForRound newRewards payouts)))))))))"

section \<open>Aggregated rewards\<close>

text \<open>
  The blocks of the window that ends with the current one. Block numbers stay below the largest
  \<open>uint64\<close>, where the loop of the code would not end; the number does not wrap below zero because
  the window is only paid at its last block.
\<close>

definition reward_window :: "uint64 \<Rightarrow> uint64 \<Rightarrow> uint64 list" where
  "reward_window curBlockNum frequency =
     map of_nat [unat (curBlockNum - frequency + 1)..<Suc (unat curBlockNum)]"

definition window_crosslinks :: "'pk rewardChain \<Rightarrow> BlockHeader \<Rightarrow> uint64 \<Rightarrow> CrossLink list go" where
  "window_crosslinks bc header curBlockNum =
     go_fold (\<lambda>allCrossLinks i.
         go_bind (if i = curBlockNum then Inr header else deref (rcHeaderByNumber bc i)) (\<lambda>curHeader.
         let own = NewCrossLink curHeader (rcHeaderByHash bc (bhParentHash curHeader)) in
         go_bind (if bhCrossLinks curHeader = [] then Inr [] else rcDecodeCrossLinks bc (bhCrossLinks curHeader)) (\<lambda>crossLinks.
           Inr (allCrossLinks @ [own] @ crossLinks))))
       [] (reward_window curBlockNum (rcRewardFrequency bc))"

text \<open>The map from validator to its sum; the first amount goes through its magnitude.\<close>

definition aggregate_payables :: "slotPayable list \<Rightarrow> (Address \<rightharpoonup> int)" where
  "aggregate_payables allPayables =
     fold (\<lambda>payThem m. m(EcdsaAddress (payableSlot payThem) \<mapsto>
             (case m (EcdsaAddress (payableSlot payThem)) of
                None \<Rightarrow> \<bar>payout payThem\<bar> | Some x \<Rightarrow> x + payout payThem)))
       allPayables Map.empty"

definition sorted_validators :: "slotPayable list \<Rightarrow> Address list" where
  "sorted_validators allPayables = sort (remdups (map (\<lambda>p. EcdsaAddress (payableSlot p)) allPayables))"

definition distributeRewardAfterAggregateEpoch ::
  "'pk rewardChain \<Rightarrow> backend \<Rightarrow> DB \<Rightarrow> BlockHeader \<Rightarrow> Dec \<Rightarrow> (DB \<times> Dec \<times> CompletedRound) go" where
  "distributeRewardAfterAggregateEpoch bc B db header rewardToDistribute =
     (let epoch = hEpoch header in
      go_bind (if IsHIP30 (rcConfig bc) (Some epoch)
               then let fractionToRecovery = emissionFraction (rcInstance bc epoch) in
                    go_bind (Sub OneDec fractionToRecovery) (\<lambda>fractionToValidators.
                    go_bind (Mul rewardToDistribute fractionToValidators) (\<lambda>defaultReward.
                    go_bind (Mul rewardToDistribute fractionToRecovery) (\<lambda>remainingReward.
                      Inr (defaultReward, remainingReward))))
               else Inr (rewardToDistribute, ZeroDec)) (\<lambda>(defaultReward, remainingReward).
      go_bind (window_crosslinks bc header (of_int (hNumber header))) (\<lambda>allCrossLinks.
      go_bind (process_crosslinks bc B db defaultReward allCrossLinks) (\<lambda>(db, allPayables).
      let allValidatorPayable = aggregate_payables allPayables in
      go_bind (go_fold (\<lambda>(db, newRewards) addr.
                  go_bind (deref (allValidatorPayable addr)) (\<lambda>due.
                  go_bind (pay_validator bc B db addr due) (\<lambda>db. Inr (db, newRewards + due))))
                (db, 0) (sorted_validators allPayables)) (\<lambda>(db, newRewards).
      go_bind (MulInt remainingReward (int (length allCrossLinks))) (\<lambda>left.
        Inr (db, left, NewStakingEraRewardForRound newRewards (map payout_of allPayables))))))))"

definition AccumulateRewardsAndCountSigs ::
  "'pk rewardChain \<Rightarrow> 'pk rewardChain \<Rightarrow> backend \<Rightarrow> DB \<Rightarrow> BlockHeader \<Rightarrow> bool \<Rightarrow> (DB \<times> Dec \<times> CompletedRound) go" where
  "AccumulateRewardsAndCountSigs bc beaconChain B db header sigsReady =
     (let blockNum = of_int (hNumber header) :: uint64; epoch = hEpoch header; nothing = (db, ZeroDec, EmptyPayout)
      in if blockNum = 0 then go_bind (waitForCommitSigs sigsReady) (\<lambda>_. Inr nothing)
         else if \<not> IsStaking (rcConfig bc) (Some epoch)
         then accumulateRewardsAndCountSigsBeforeStaking bc B db header sigsReady
         else if rcShardID bc \<noteq> 0 then go_bind (waitForCommitSigs sigsReady) (\<lambda>_. Inr nothing)
         else
           let defaultReward = getDefaultStakingReward (rcConfig bc) (rcTestnetID bc) epoch blockNum
           in if IsNegative defaultReward then Inr nothing
              else if \<not> IsAggregatedRewardEpoch (rcConfig bc) (Some epoch)
              then distributeRewardBeforeAggregateEpoch bc beaconChain B db header defaultReward sigsReady
              else go_bind (waitForCommitSigs sigsReady) (\<lambda>_.
                   if rcRewardFrequency bc = 0 then Inl (Panic ''integer divide by zero'')
                   else if blockNum mod rcRewardFrequency bc \<noteq> rcRewardFrequency bc - 1 then Inr nothing
                   else distributeRewardAfterAggregateEpoch bc B db header defaultReward))"

section \<open>The equal split before staking\<close>

text \<open>What the \<open>i\<close>-th of \<open>n\<close> signers gets.\<close>

definition equal_share :: "nat \<Rightarrow> nat \<Rightarrow> int" where
  "equal_share n i = PreStakedBlocks * int (i + 1) div int n - PreStakedBlocks * int i div int n"

lemma PreStakedBlocks_pos: "0 < PreStakedBlocks" by (simp add: PreStakedBlocks_def Itc_def)

lemma equal_share_nonneg: "0 < n \<Longrightarrow> 0 \<le> equal_share n i"
  using PreStakedBlocks_pos by (auto simp: equal_share_def intro!: zdiv_mono1 mult_left_mono)

lemma equal_share_near: "0 < n \<Longrightarrow> \<bar>int n * equal_share n i - PreStakedBlocks\<bar> < int n"
proof -
  assume n: "0 < n"
  let ?a = "PreStakedBlocks * int (i + 1)" and ?b = "PreStakedBlocks * int i"
  have "int n * equal_share n i - PreStakedBlocks = ?b mod int n - ?a mod int n"
    unfolding equal_share_def right_diff_distrib minus_mod_eq_mult_div [symmetric] by (simp add: algebra_simps)
  moreover have "0 \<le> ?a mod int n" "?a mod int n < int n" "0 \<le> ?b mod int n" "?b mod int n < int n" using n by simp_all
  ultimately show ?thesis by linarith
qed

lemma split_reward_run:
  assumes "0 < n" "db_inv B db"
    "split_reward B (int n) i (PreStakedBlocks * int i div int n) t db signers = (db', t')"
  shows "t' = t + PreStakedBlocks * int (i + length signers) div int n - PreStakedBlocks * int i div int n
    \<and> db_inv B db' \<and> lWrap (ledger B db') = lWrap (ledger B db) \<and> lFlag (ledger B db') = lFlag (ledger B db)
    \<and> lBal (ledger B db') = (\<lambda>a. lBal (ledger B db) a
        + (\<Sum>k<length signers. if EcdsaAddress (signers ! k) = a then equal_share n (i + k) else 0))"
  using assms(2,3)
proof (induction signers arbitrary: i t db)
  case (Cons s signers)
  let ?x = "equal_share n i" and ?db = "AddBalance B db (EcdsaAddress s) (equal_share n i)"
  have a: "db_inv B ?db" "ledger B ?db = put_bal (EcdsaAddress s) (lBal (ledger B db) (EcdsaAddress s) + ?x) (ledger B db)"
    using account_state.add [OF Cons.prems(1)] by simp_all
  have "split_reward B (int n) (Suc i) (PreStakedBlocks * int (Suc i) div int n) (t + ?x) ?db signers = (db', t')"
    using Cons.prems(2) assms(1) by (simp add: Let_def ediv_pos equal_share_def)
  from Cons.IH [OF a(1) this] show ?case
    using a(2) by (auto simp: fun_eq_iff equal_share_def sum.lessThan_Suc_shift ac_simps simp del: sum.lessThan_Suc cong: if_cong)
qed auto

text \<open>
  C30: Before staking, a block whose parent was signed by at least one committee member pays out exactly
  the block reward of 24 tokens: every signing slot gets an equal share up to one base unit, nothing
  else changes, and the check on the total never fails. 
\<close>

theorem pre_staking_reward_exact:
  assumes "db_inv B db" "rcHeaderByHash bc (bhParentHash header) = Some parent" "hNumber parent \<noteq> 0"
    "rcShardState bc (hEpoch parent) = Inr ss" "signers \<noteq> []"
    "BallotResult (rcOps bc) (rcKey bc) (bhLastCommitBitmap header) (Some ss) (bhShardID header) = Inr (members, signers, missing)"
  shows "\<exists>db'. accumulateRewardsAndCountSigsBeforeStaking bc B db header True = Inr (db', ZeroDec, \<lparr>Total = PreStakedBlocks, Payouts = []\<rparr>)
    \<and> lWrap (ledger B db') = lWrap (ledger B db) \<and> total_tokens (ledger B db') = total_tokens (ledger B db) + PreStakedBlocks
    \<and> (\<forall>a. lBal (ledger B db) a \<le> lBal (ledger B db') a
        \<and> \<bar>int (length signers) * (lBal (ledger B db') a - lBal (ledger B db) a) - int (length (filter (\<lambda>s. EcdsaAddress s = a) signers)) * PreStakedBlocks\<bar>
           \<le> int (length signers) * int (length (filter (\<lambda>s. EcdsaAddress s = a) signers)))"
proof -
  let ?n = "length signers" and ?L = "ledger B db"
  have n: "0 < ?n" using assms(5) by simp
  obtain db' t where run: "split_reward B (int ?n) 0 0 0 db signers = (db', t)" by fastforce
  have r: "t = PreStakedBlocks" "lWrap (ledger B db') = lWrap ?L"
    "lBal (ledger B db') = (\<lambda>a. lBal ?L a + (\<Sum>k<?n. if EcdsaAddress (signers ! k) = a then equal_share ?n k else 0))"
    using split_reward_run [OF n assms(1), of 0 0 signers db' t] run n by (simp_all add: equal_share_def cong: if_cong)
  let ?c = "\<lambda>a. \<Sum>k<?n. if EcdsaAddress (signers ! k) = a then equal_share ?n k else 0"
  have nn: "0 \<le> ?c a" for a using equal_share_nonneg [OF n] by (intro sum_nonneg) auto
  have card: "int (length (filter (\<lambda>s. EcdsaAddress s = a) signers)) = (\<Sum>k<?n. if EcdsaAddress (signers ! k) = a then 1 else 0)" for a
    by (simp add: length_filter_conv_card sum.If_cases Collect_conj_eq [symmetric] lessThan_def Int_def)
  have near: "\<bar>int ?n * ?c a - int (length (filter (\<lambda>s. EcdsaAddress s = a) signers)) * PreStakedBlocks\<bar>
      \<le> int ?n * int (length (filter (\<lambda>s. EcdsaAddress s = a) signers))" for a
  proof -
    have "int ?n * ?c a - (\<Sum>k<?n. if EcdsaAddress (signers ! k) = a then 1 else 0) * PreStakedBlocks
        = (\<Sum>k<?n. if EcdsaAddress (signers ! k) = a then int ?n * equal_share ?n k - PreStakedBlocks else 0)"
      by (simp add: sum_distrib_left sum_distrib_right sum_subtractf [symmetric]) (auto intro!: sum.cong)
    moreover have "\<bar>\<Sum>k<?n. if EcdsaAddress (signers ! k) = a then int ?n * equal_share ?n k - PreStakedBlocks else 0\<bar>
        \<le> (\<Sum>k<?n. if EcdsaAddress (signers ! k) = a then int ?n else 0)"
      by (rule order_trans [OF sum_abs], rule sum_mono) (use equal_share_near [OF n] in \<open>auto intro: less_imp_le\<close>)
    moreover have "(\<Sum>k<?n. if EcdsaAddress (signers ! k) = a then int ?n else 0) = int ?n * (\<Sum>k<?n. if EcdsaAddress (signers ! k) = a then 1 else 0)"
      by (simp add: sum_distrib_left) (auto intro!: sum.cong)
    ultimately show ?thesis unfolding card by simp
  qed
  have all: "(\<Sum>a\<in>UNIV. ?c a) = PreStakedBlocks"
  proof -
    have "(\<Sum>a\<in>UNIV. ?c a) = (\<Sum>k<?n. equal_share ?n k)" by (subst sum.swap) simp
    also have "\<dots> = PreStakedBlocks * int ?n div int ?n - PreStakedBlocks * int 0 div int ?n"
      using sum_lessThan_telescope [of "\<lambda>k. PreStakedBlocks * int k div int ?n" ?n] by (simp add: equal_share_def)
    finally show ?thesis using n by simp
  qed
  have "total_tokens (ledger B db') = total_tokens ?L + PreStakedBlocks"
    using all by (simp add: total_tokens_def held_def r(2,3) sum.distrib)
  moreover have "accumulateRewardsAndCountSigsBeforeStaking bc B db header True = Inr (db', ZeroDec, \<lparr>Total = PreStakedBlocks, Payouts = []\<rparr>)"
    using assms run r(1) by (simp add: accumulateRewardsAndCountSigsBeforeStaking_def waitForCommitSigs_def NewPreStakingEraRewarded_def)
  ultimately show ?thesis using nn near r(2,3) by (intro exI [of _ db']) simp
qed

text \<open>A chain with one committee of two validators that sign every block.\<close>

definition sample_parent :: BlockHeader where
  "sample_parent = \<lparr>hEpoch = 0, hNumber = 7, bhShardID = 0, bhViewID = 7, bhParentHash = 0, bhLastCommitSignature = [],
     bhLastCommitBitmap = [3], bhCrossLinks = [], bhCoinbase = 0, bhShardStateBytes = [], bhShardState = Inl (Error ''none''), bhHash = 2, bhVrf = []\<rparr>"

definition sample_reward_chain :: "int rewardChain" where
  "sample_reward_chain = \<lparr>rcConfig = MainnetChainConfig, rcTestnetID = False, rcShardID = 0,
     rcShardState = (\<lambda>e. Inr \<lparr>Epoch = Some e, Shards = [\<lparr>ShardID = 0, Slots = [sample_slot 1 1 None, sample_slot 2 2 None]\<rparr>]\<rparr>),
     rcSnapshot = (\<lambda>_. Inr \<lparr>snapValidator = sample_wrapper, snapEpoch = 1\<rparr>),
     rcHeaderByHash = (\<lambda>h. Some sample_parent),
     rcHeaderByNumber = (\<lambda>_. None), rcDecodeCrossLinks = (\<lambda>_. Inr []), rcOps = int_ops, rcKey = (\<lambda>k. Inr (uint k)),
     rcInstance = Votepower.sample_schedule, rcRewardFrequency = 64\<rparr>"

definition sample_header :: BlockHeader where
  "sample_header = sample_parent\<lparr>hNumber := 8, bhViewID := 8, bhParentHash := 1\<rparr>"

theorem pre_staking_reward_exact_witness:
  "\<exists>db'. accumulateRewardsAndCountSigsBeforeStaking sample_reward_chain sample_backend sample_staking sample_header True
      = Inr (db', ZeroDec, \<lparr>Total = PreStakedBlocks, Payouts = []\<rparr>)
    \<and> total_tokens (ledger sample_backend db') = total_tokens (ledger sample_backend sample_staking) + PreStakedBlocks"
proof -
  let ?ss = "\<lparr>Epoch = Some 0, Shards = [\<lparr>ShardID = 0, Slots = [sample_slot 1 1 None, sample_slot 2 2 None]\<rparr>]\<rparr>"
  have "BallotResult int_ops (\<lambda>k. Inr (uint k)) [3] (Some ?ss) 0
      = Inr ([sample_slot 1 1 None, sample_slot 2 2 None], [sample_slot 1 1 None, sample_slot 2 2 None], [])"
    using BlockSigners_split [OF int_ops_group, of "\<lambda>k. Inr (uint k)" "hd (Shards ?ss)" _ "[3]"]
    by (simp add: BallotResult_def FindCommitteeByID_def BLSPublicKeys_def bit_at_def bit_numeral_rec)
  then have b: "BallotResult (rcOps sample_reward_chain) (rcKey sample_reward_chain) (bhLastCommitBitmap sample_header) (Some ?ss) (bhShardID sample_header)
      = Inr ([sample_slot 1 1 None, sample_slot 2 2 None], [sample_slot 1 1 None, sample_slot 2 2 None], [])"
    by (simp add: sample_reward_chain_def sample_header_def sample_parent_def)
  have "rcHeaderByHash sample_reward_chain (bhParentHash sample_header) = Some sample_parent" "hNumber sample_parent \<noteq> 0"
    "rcShardState sample_reward_chain (hEpoch sample_parent) = Inr ?ss"
    by (simp_all add: sample_reward_chain_def sample_parent_def)
  from pre_staking_reward_exact [OF sample_staking_ok(1) this _ b] show ?thesis by auto
qed

section \<open>Distributing a reward\<close>

text \<open>Adding an amount to the reward of every delegation.\<close>

definition credit :: "(nat \<Rightarrow> int) \<Rightarrow> ValidatorWrapper \<Rightarrow> ValidatorWrapper" where
  "credit f w = w\<lparr>Delegations := map (\<lambda>(i, d). d\<lparr>Reward := Reward d + f i\<rparr>) (enumerate 0 (Delegations w))\<rparr>"

lemma credit_sel [simp]:
  "theValidator (credit f w) = theValidator w" "length (Delegations (credit f w)) = length (Delegations w)"
  "BlockReward (credit f w) = BlockReward w" "Counters (credit f w) = Counters w"
  "i < length (Delegations w) \<Longrightarrow> Delegations (credit f w) ! i = (Delegations w ! i)\<lparr>Reward := Reward (Delegations w ! i) + f i\<rparr>"
  by (simp_all add: credit_def nth_enumerate_eq)

lemma credit_nil [simp]: "Delegations (credit f w) = [] \<longleftrightarrow> Delegations w = []"
  by (simp add: credit_def flip: length_0_conv)

lemma credit_credit: "credit g (credit f w) = credit (\<lambda>i. f i + g i) w"
  by (cases w) (auto simp: credit_def intro!: nth_equalityI simp: nth_enumerate_eq)

lemma credit_zero: "(\<And>i. i < length (Delegations w) \<Longrightarrow> f i = 0) \<Longrightarrow> credit f w = w"
  by (cases w) (auto simp: credit_def intro!: nth_equalityI simp: nth_enumerate_eq)

lemma credit_reward_eq:
  "credit_reward i x w = (if i < length (Delegations w) then Inr (credit (\<lambda>j. if j = i then x else 0) w) else Inl (Panic ''index out of range''))"
  by (cases w) (auto simp: credit_reward_def credit_def intro!: nth_equalityI simp: nth_enumerate_eq nth_list_update)

lemma credit_amounts:
  "map Amount (Delegations (credit f w)) = map Amount (Delegations w)"
  "map DelegatorAddress (Delegations (credit f w)) = map DelegatorAddress (Delegations w)"
  "map Undelegations (Delegations (credit f w)) = map Undelegations (Delegations w)"
  by (auto intro!: nth_equalityI)

lemma credit_tokens: "wrapper_tokens (credit f w) = wrapper_tokens w + (\<Sum>i<length (Delegations w). f i)"
proof -
  have "delegation_tokens (Delegations (credit f w) ! i) = delegation_tokens (Delegations w ! i) + f i" if "i < length (Delegations w)" for i
    using that by (simp add: delegation_tokens_eq)
  then show ?thesis by (simp add: wrapper_tokens_def sum_list_sum_nth sum.distrib lessThan_atLeast0)
qed

lemma credit_ok:
  assumes "wrapper_ok a w" "\<And>i. 0 \<le> f i"
  shows "wrapper_ok a (credit f w\<lparr>BlockReward := x\<rparr>)" "staked_in (credit f w) b = staked_in w b"
proof -
  have v: "valid_wrapper w" "Delegations w \<noteq> []" "TotalDelegation w \<le> the (MaxTotalDelegation (theValidator w))"
    using assms(1) by (auto simp: wrapper_ok_def valid_wrapper_def enough_self_delegation_def)
  have hd: "Amount (hd (Delegations (credit f w))) = Amount (hd (Delegations w))"
    using v(2) credit_amounts(1) [of f w] by (cases "Delegations w"; cases "Delegations (credit f w)") auto
  have "TotalDelegation (credit f w\<lparr>BlockReward := x\<rparr>) = TotalDelegation w" by (simp add: TotalDelegation_sum credit_amounts)
  then have "valid_wrapper (credit f w\<lparr>BlockReward := x\<rparr>)"
    using v(2,3) hd by (intro valid_wrapper_more [OF v(1)]) (simp_all flip: length_greater_0_conv)
  moreover have "\<forall>d\<in>set (Delegations (credit f w)). valid_delegation d"
  proof
    fix d assume "d \<in> set (Delegations (credit f w))"
    then obtain i where i: "i < length (Delegations w)" "d = (Delegations w ! i)\<lparr>Reward := Reward (Delegations w ! i) + f i\<rparr>"
      by (auto simp: in_set_conv_nth)
    then have "valid_delegation (Delegations w ! i)" using assms(1) by (simp add: wrapper_ok_def)
    then show "valid_delegation d" using i(2) assms(2) [of i] by (simp add: valid_delegation_def)
  qed
  ultimately show "wrapper_ok a (credit f w\<lparr>BlockReward := x\<rparr>)"
    using assms(1) by (simp add: wrapper_ok_def wrapper_addr_def credit_amounts)
  show "staked_in (credit f w) b = staked_in w b"
    by (simp add: staked_in_def sum_list_sum_nth cong: if_cong)
qed

text \<open>The share of an amount in a total, as a decimal between zero and one.\<close>

lemma share_of:
  assumes "0 \<le> x" "x \<le> T" "0 < T"
  shows "\<exists>q. Quo (NewDecFromBigInt x) (NewDecFromBigInt T) = Inr q \<and> 0 \<le> q \<and> q \<le> OneDec
    \<and> 2 * precisionReuse * \<bar>q * T - x * precisionReuse\<bar> \<le> T * (precisionReuse + 2)"
proof -
  let ?P = precisionReuse
  let ?m = "x * ?P * ?P * ?P" and ?b = "T * ?P"
  have b: "0 < ?b" and m: "0 \<le> ?m" using assms by simp_all
  have "?m \<le> ?P * ?P * ?b" using assms(2) by (simp add: mult.assoc mult.left_commute mult_right_mono)
  then have "quo ?m ?b \<le> ?P * ?P" using b m assms(3) zdiv_mono1 [of ?m "?P * ?P * ?b" ?b] by (simp add: quo_nonneg)
  moreover have "0 \<le> quo ?m ?b" using b m pos_imp_zdiv_nonneg_iff [OF b, of ?m] quo_nonneg [OF m] by simp
  ultimately have q: "0 \<le> chopPrecisionAndRound (quo ?m ?b)" "chopPrecisionAndRound (quo ?m ?b) \<le> ?P"
    using bankers.nonneg bankers.le by auto
  then have "fitsDec (chopPrecisionAndRound (quo ?m ?b))" by (simp add: fitsDec_iff precisionReuse_def)
  then have Q: "Quo (x * ?P) ?b = Inr (chopPrecisionAndRound (quo ?m ?b))" using assms(3) by (simp add: Quo_def Let_def)
  have "2 * ?P * \<bar>chopPrecisionAndRound (quo ?m ?b) * ?b - x * ?P * ?P\<bar> < ?b * (?P + 2)" using Quo_error [OF Q] b by simp
  moreover have "\<bar>chopPrecisionAndRound (quo ?m ?b) * ?b - x * ?P * ?P\<bar> = ?P * \<bar>chopPrecisionAndRound (quo ?m ?b) * T - x * ?P\<bar>"
    using abs_mult [of ?P "chopPrecisionAndRound (quo ?m ?b) * T - x * ?P"] by (simp add: algebra_simps)
  ultimately have "?P * (2 * ?P * \<bar>chopPrecisionAndRound (quo ?m ?b) * T - x * ?P\<bar>) < ?P * (T * (?P + 2))" by (simp add: algebra_simps)
  then have "2 * ?P * \<bar>chopPrecisionAndRound (quo ?m ?b) * T - x * ?P\<bar> < T * (?P + 2)" by (simp only: mult_less_cancel_left_pos [OF precisionReuse_pos])
  then show ?thesis using Q q by (auto simp: NewDecFromBigInt_def OneDec_def)
qed

lemma shares_fold:
  assumes "distinct (map DelegatorAddress ds)" "\<forall>d\<in>set ds. \<exists>q. Quo (NewDecFromBigInt (Amount d)) t = Inr q"
  shows "\<exists>m. go_fold (\<lambda>result d. go_bind (Quo (NewDecFromBigInt (Amount d)) t) (\<lambda>percentage.
           Inr (result(DelegatorAddress d \<mapsto> percentage)))) m0 ds = Inr m
    \<and> (\<forall>d\<in>set ds. \<exists>q. m (DelegatorAddress d) = Some q \<and> Quo (NewDecFromBigInt (Amount d)) t = Inr q)
    \<and> (\<forall>a. a \<notin> DelegatorAddress ` set ds \<longrightarrow> m a = m0 a)"
  using assms
proof (induction ds arbitrary: m0)
  case (Cons d ds)
  obtain q where q: "Quo (NewDecFromBigInt (Amount d)) t = Inr q" using Cons.prems(2) by auto
  from Cons.IH [of "m0(DelegatorAddress d \<mapsto> q)"] Cons.prems show ?case by (auto simp: q)
qed simp

text \<open>What a delegator of the snapshot gets out of the pool.\<close>

definition pool_cut :: "(Address \<rightharpoonup> Dec) \<Rightarrow> int \<Rightarrow> Delegation \<Rightarrow> int" where
  "pool_cut shares pool d = chopPrecisionAndRound (the (shares (DelegatorAddress d)) * pool)"

lemma unit_times_fits: "0 \<le> q \<Longrightarrow> q \<le> OneDec \<Longrightarrow> 0 \<le> x \<Longrightarrow> x < 2 ^ 250 \<Longrightarrow> fitsDec (q * x)"
proof -
  assume a: "0 \<le> q" "q \<le> OneDec" "0 \<le> x" "x < 2 ^ 250"
  then have "q * x \<le> OneDec * 2 ^ 250" by (intro mult_mono) auto
  then show ?thesis using a by (simp add: fitsDec_iff OneDec_def precisionReuse_def)
qed

lemma pay_delegators_run:
  assumes "\<forall>d\<in>set ds. \<exists>q. shares (DelegatorAddress d) = Some q \<and> 0 \<le> q \<and> q \<le> OneDec" "0 \<le> total_pool" "total_pool < 2 ^ 250"
    "i + length ds \<le> length (Delegations w)"
  shows "pay_delegators shares total_pool i ds w pool =
    Inr (credit (\<lambda>j. if i \<le> j \<and> j < i + length ds then pool_cut shares total_pool (ds ! (j - i)) else 0) w,
         Some (pool - sum_list (map (pool_cut shares total_pool) ds)))"
  using assms(1,4)
proof (induction ds arbitrary: i w pool)
  case Nil
  then show ?case by (simp add: credit_zero)
next
  case (Cons d ds)
  obtain q where q: "shares (DelegatorAddress d) = Some q" "0 \<le> q" "q \<le> OneDec" using Cons.prems(1) by auto
  let ?x = "pool_cut shares total_pool d"
  have m: "MulInt q total_pool = Inr (q * total_pool)" using unit_times_fits [OF q(2,3) assms(2,3)] by (simp add: MulInt_def checkOverflow_def)
  have r: "RoundInt (q * total_pool) = ?x" using q(1) by (simp add: pool_cut_def RoundInt_def chopPrecisionAndRoundNonMutative_def)
  let ?w = "credit (\<lambda>j. if j = i then ?x else 0) w"
  have "pay_delegators shares total_pool (Suc i) ds ?w (pool - ?x) =
      Inr (credit (\<lambda>j. if Suc i \<le> j \<and> j < Suc i + length ds then pool_cut shares total_pool (ds ! (j - Suc i)) else 0) ?w,
           Some (pool - ?x - sum_list (map (pool_cut shares total_pool) ds)))"
    using Cons.prems by (intro Cons.IH) auto
  moreover have "(\<lambda>j. (if j = i then ?x else 0) + (if Suc i \<le> j \<and> j < Suc i + length ds then pool_cut shares total_pool (ds ! (j - Suc i)) else 0))
      = (\<lambda>j. if i \<le> j \<and> j < i + length (d # ds) then pool_cut shares total_pool ((d # ds) ! (j - i)) else 0)"
    by (auto simp: fun_eq_iff nth_Cons' Suc_le_eq)
  ultimately show ?case using q(1) Cons.prems(2) by (simp add: m r credit_reward_eq credit_credit cong: if_cong)
qed

text \<open>The commission and the reward of delegation \<open>j\<close>; the validator's own delegation also gets what is left.\<close>

definition commission_of :: "Dec \<Rightarrow> int \<Rightarrow> int" where
  "commission_of r rwd = chopPrecisionAndRound (r * rwd)"

definition earned :: "(Address \<rightharpoonup> Dec) \<Rightarrow> Dec \<Rightarrow> int \<Rightarrow> Delegation list \<Rightarrow> nat \<Rightarrow> int" where
  "earned shares r rwd ds j =
     (let pool = rwd - commission_of r rwd
      in (if j < length ds then pool_cut shares pool (ds ! j) else 0)
         + (if j = 0 then commission_of r rwd + max 0 (pool - sum_list (map (pool_cut shares pool) ds)) else 0))"

lemma commission_bounds: "0 \<le> r \<Longrightarrow> r \<le> OneDec \<Longrightarrow> 0 \<le> rwd \<Longrightarrow> 0 \<le> commission_of r rwd \<and> commission_of r rwd \<le> rwd"
  using bankers.nonneg [of "r * rwd"] bankers.product_le_factor [of rwd r] by (simp add: commission_of_def OneDec_def mult.commute)

lemma reward_wrapper_run:
  assumes "Rate (Rates (vCommission (theValidator snap))) = Some r" "0 \<le> r" "r \<le> OneDec" "0 < rwd" "rwd < 2 ^ 250"
    "\<forall>d\<in>set (Delegations snap). \<exists>q. shares (DelegatorAddress d) = Some q \<and> 0 \<le> q \<and> q \<le> OneDec"
    "length (Delegations snap) \<le> length (Delegations w)" "Delegations w \<noteq> []"
  shows "reward_wrapper snap rwd shares w = Inr (credit (earned shares r rwd (Delegations snap)) w\<lparr>BlockReward := BlockReward w + rwd\<rparr>)"
proof -
  let ?c = "commission_of r rwd" and ?w = "w\<lparr>BlockReward := BlockReward w + rwd\<rparr>"
  let ?p = "rwd - ?c" and ?ds = "Delegations snap"
  have c: "0 \<le> ?c" "?c \<le> rwd" using commission_bounds assms(2,3,4) by simp_all
  let ?w1 = "credit (\<lambda>j. if j = 0 then ?c else 0) ?w"
  have 1: "pay_commission r rwd ?w = Inr (?w1, ?p)"
  proof (cases "r = 0")
    case True
    then have "?c = 0" using bankers.zero by (simp add: commission_of_def)
    then show ?thesis using True by (simp add: pay_commission_def GT_def ZeroDec_def credit_zero)
  next
    case False
    moreover have "MulInt r rwd = Inr (r * rwd)" using unit_times_fits [OF assms(2,3)] assms(4,5) by (simp add: MulInt_def checkOverflow_def)
    ultimately show ?thesis using assms(2,8)
      by (simp add: pay_commission_def GT_def ZeroDec_def credit_reward_eq commission_of_def RoundInt_def chopPrecisionAndRoundNonMutative_def cong: if_cong)
  qed
  let ?f = "\<lambda>j. if 0 \<le> j \<and> j < 0 + length ?ds then pool_cut shares ?p (?ds ! (j - 0)) else 0"
  let ?rest = "?p - sum_list (map (pool_cut shares ?p) ?ds)"
  have 2: "pay_delegators shares ?p 0 ?ds ?w1 ?p = Inr (credit ?f ?w1, Some ?rest)"
    using assms(5,7) c by (intro pay_delegators_run [OF assms(6)]) (auto simp: credit_def)
  have f: "(\<lambda>j. (if j = 0 then ?c else 0) + ?f j + (if j = 0 then max 0 ?rest else 0)) = earned shares r rwd ?ds"
    by (auto simp: fun_eq_iff earned_def Let_def)
  have upd: "credit g ?w = credit g w\<lparr>BlockReward := BlockReward w + rwd\<rparr>" for g by (simp add: credit_def)
  have "reward_wrapper snap rwd shares w = Inr (credit (\<lambda>j. if j = 0 then max 0 ?rest else 0) (credit ?f ?w1))"
    using assms(1,8) 1 2 by (auto simp: reward_wrapper_def deref_def credit_reward_eq credit_zero max_def cong: if_cong)
  also have "\<dots> = Inr (credit (earned shares r rwd ?ds) ?w)" by (simp only: credit_credit f)
  finally show ?thesis by (simp only: upd)
qed

text \<open>The rounding error of one share of a pool, and of the sum of all shares.\<close>

definition rounding_slack :: "int \<Rightarrow> int" where
  "rounding_slack pool = precisionReuse * precisionReuse + pool * (precisionReuse + 2)"

lemma pool_cut_near:
  assumes "shares (DelegatorAddress d) = Some q" "2 * precisionReuse * \<bar>q * T - Amount d * precisionReuse\<bar> \<le> T * (precisionReuse + 2)" "0 \<le> T" "0 \<le> pool"
  shows "2 * (precisionReuse * precisionReuse) * \<bar>pool_cut shares pool d * T - Amount d * pool\<bar> \<le> T * rounding_slack pool"
proof -
  let ?P = precisionReuse and ?c = "pool_cut shares pool d" and ?x = "Amount d"
  have 1: "2 * \<bar>?c * ?P - q * pool\<bar> \<le> ?P" using chop_round_half [of "q * pool"] assms(1) by (simp add: pool_cut_def)
  have "?P * ?P * (?c * T - ?x * pool) = ?P * T * (?c * ?P - q * pool) + ?P * pool * (q * T - ?x * ?P)" by algebra
  then have "\<bar>?P * ?P * (?c * T - ?x * pool)\<bar> \<le> \<bar>?P * T * (?c * ?P - q * pool)\<bar> + \<bar>?P * pool * (q * T - ?x * ?P)\<bar>" by (metis abs_triangle_ineq)
  then have "?P * ?P * \<bar>?c * T - ?x * pool\<bar> \<le> ?P * T * \<bar>?c * ?P - q * pool\<bar> + ?P * pool * \<bar>q * T - ?x * ?P\<bar>"
    using assms(3,4) by (simp add: abs_mult)
  moreover have "2 * (?P * T * \<bar>?c * ?P - q * pool\<bar>) \<le> ?P * T * ?P"
    using mult_left_mono [OF 1, of "?P * T"] assms(3) by (simp only: mult.left_commute [of 2]) simp
  moreover have "2 * (?P * pool * \<bar>q * T - ?x * ?P\<bar>) \<le> pool * (T * (?P + 2))"
    using mult_left_mono [OF assms(2,4)] by (simp only: mult_ac)
  moreover have "2 * (?P * ?P) * \<bar>?c * T - ?x * pool\<bar> = 2 * (?P * ?P * \<bar>?c * T - ?x * pool\<bar>)" by (rule mult.assoc)
  ultimately have "2 * (?P * ?P) * \<bar>?c * T - ?x * pool\<bar> \<le> ?P * T * ?P + pool * (T * (?P + 2))" by linarith
  then show ?thesis by (simp add: rounding_slack_def algebra_simps)
qed

lemma abs_sum_near:
  assumes "\<forall>d\<in>set ds. K * \<bar>f d * T - g d * p\<bar> \<le> E" "0 \<le> K"
  shows "K * \<bar>sum_list (map f ds) * T - sum_list (map g ds) * p\<bar> \<le> int (length ds) * (E :: int)"
  using assms(1)
proof (induction ds)
  case (Cons d ds)
  have "K * \<bar>(f d + sum_list (map f ds)) * T - (g d + sum_list (map g ds)) * p\<bar>
      \<le> K * (\<bar>f d * T - g d * p\<bar> + \<bar>sum_list (map f ds) * T - sum_list (map g ds) * p\<bar>)"
    using assms(2) by (intro mult_left_mono) (auto simp: algebra_simps)
  then show ?case using Cons by (simp add: algebra_simps)
qed simp

lemma pool_cut_sum:
  assumes "\<forall>d\<in>set ds. 2 * (precisionReuse * precisionReuse) * \<bar>pool_cut shares pool d * T - Amount d * pool\<bar> \<le> T * rounding_slack pool"
    "sum_list (map Amount ds) = T" "0 < T"
  shows "2 * (precisionReuse * precisionReuse) * \<bar>sum_list (map (pool_cut shares pool) ds) - pool\<bar> \<le> int (length ds) * rounding_slack pool"
proof -
  let ?K = "2 * (precisionReuse * precisionReuse)" and ?s = "sum_list (map (pool_cut shares pool) ds)"
  have "?K * \<bar>?s * T - T * pool\<bar> \<le> int (length ds) * (T * rounding_slack pool)"
    using abs_sum_near [OF assms(1)] assms(2) by simp
  moreover have "\<bar>?s * T - T * pool\<bar> = T * \<bar>?s - pool\<bar>"
    using assms(3) abs_mult [of T "?s - pool"] by (simp add: right_diff_distrib mult.commute)
  ultimately have "T * (?K * \<bar>?s - pool\<bar>) \<le> T * (int (length ds) * rounding_slack pool)" by (simp add: mult.left_commute)
  then show ?thesis using assms(3) by simp
qed

lemma earned_sum:
  assumes "length ds \<le> n" "0 < n"
  shows "(\<Sum>j<n. earned shares r rwd ds j) = rwd + max 0 (sum_list (map (pool_cut shares (rwd - commission_of r rwd)) ds) - (rwd - commission_of r rwd))"
proof -
  let ?p = "rwd - commission_of r rwd"
  have "(\<Sum>j<n. if j < length ds then pool_cut shares ?p (ds ! j) else 0) = (\<Sum>j<length ds. pool_cut shares ?p (ds ! j))"
    using assms(1) by (intro sum.mono_neutral_cong_right) auto
  also have "\<dots> = sum_list (map (pool_cut shares ?p) ds)" by (simp add: sum_list_sum_nth lessThan_atLeast0)
  finally show ?thesis using assms(2) by (simp add: earned_def Let_def sum.distrib max_def)
qed

lemma lookupDelegatorShares_run:
  assumes "distinct (map DelegatorAddress (Delegations snap))" "\<forall>d\<in>set (Delegations snap). 0 \<le> Amount d" "0 < TotalDelegation snap"
  shows "\<exists>shares. lookupDelegatorShares \<lparr>snapValidator = snap, snapEpoch = e\<rparr> = Inr shares
    \<and> (\<forall>d\<in>set (Delegations snap). \<exists>q. shares (DelegatorAddress d) = Some q \<and> 0 \<le> q \<and> q \<le> OneDec
         \<and> 2 * precisionReuse * \<bar>q * TotalDelegation snap - Amount d * precisionReuse\<bar> \<le> TotalDelegation snap * (precisionReuse + 2))"
proof -
  let ?T = "TotalDelegation snap" and ?ds = "Delegations snap"
  have le: "Amount d \<le> ?T" if "d \<in> set ?ds" for d
    using that assms(2) by (auto simp: TotalDelegation_sum intro!: member_le_sum_list)
  note s = share_of [OF _ le assms(3)]
  have "\<forall>d\<in>set ?ds. \<exists>q. Quo (NewDecFromBigInt (Amount d)) (NewDecFromBigInt ?T) = Inr q" using s assms(2) by blast
  from shares_fold [OF assms(1) this, of Map.empty] obtain m where m:
    "go_fold (\<lambda>result d. go_bind (Quo (NewDecFromBigInt (Amount d)) (NewDecFromBigInt ?T)) (\<lambda>percentage.
           Inr (result(DelegatorAddress d \<mapsto> percentage)))) Map.empty ?ds = Inr m"
    "\<forall>d\<in>set ?ds. \<exists>q. m (DelegatorAddress d) = Some q \<and> Quo (NewDecFromBigInt (Amount d)) (NewDecFromBigInt ?T) = Inr q"
    by blast
  have "\<not> IsZero (NewDecFromBigInt ?T)" using assms(3) by (simp add: NewDecFromBigInt_def)
  then have "lookupDelegatorShares \<lparr>snapValidator = snap, snapEpoch = e\<rparr> = Inr m" using m(1) by (simp add: lookupDelegatorShares_def Let_def)
  moreover have "\<exists>q. m (DelegatorAddress d) = Some q \<and> 0 \<le> q \<and> q \<le> OneDec
      \<and> 2 * precisionReuse * \<bar>q * ?T - Amount d * precisionReuse\<bar> \<le> ?T * (precisionReuse + 2)" if d: "d \<in> set ?ds" for d
    using bspec [OF m(2) d] s [OF _ d] assms(2) d by auto
  ultimately show ?thesis by blast
qed

lemma AddReward_run:
  assumes "db_inv B db" "vAddress (theValidator snap) = a" "lWrap (ledger B db) a = Some w" "Status (theValidator w) \<noteq> Banned"
    "0 < rwd" "reward_wrapper snap rwd shares w = Inr w'"
  shows "\<exists>db'. AddReward B db snap rwd shares = Inr db' \<and> db_inv B db' \<and> ledger B db' = put_wrap a w' (ledger B db)"
proof -
  obtain db1 where g: "ValidatorWrapper_get B db a True False = Inr (Some w, db1)"
    using ValidatorWrapper_get_some [OF assms(1,3), of True False] by auto
  note l = ValidatorWrapper_get_ledger [OF assms(1) g]
  let ?db = "db1\<lparr>stateValidators := (stateValidators db1)(a := Some (Some w'))\<rparr>"
  have "AddReward B db snap rwd shares = Inr ?db" using g assms(2,4,5,6) by (simp add: AddReward_def Let_def deref_def)
  then show ?thesis using cache_write_ledger [of B db1 a w'] l by auto
qed

text \<open>
  C12: Paying a validator that is not banned goes through and only adds to the rewards of its
  delegations and to its block reward. Delegator \<open>i\<close> gets its part of the pool that the commission
  leaves, in proportion to its stake in the snapshot and up to rounding; delegations that are not in
  the snapshot get nothing. At least the whole amount is paid out. The shares are rounded one by
  one, so that more can be paid than was due, by about half a base unit for each delegator.
\<close>

theorem pay_validator_distributes:
  assumes "db_inv B db" "ledger_ok (ledger B db)" "lWrap (ledger B db) a = Some w" "Status (theValidator w) \<noteq> Banned"
    "rcSnapshot bc a = Inr \<lparr>snapValidator = snap, snapEpoch = e\<rparr>" "wrapper_ok a snap" "0 < TotalDelegation snap"
    "length (Delegations snap) \<le> length (Delegations w)" "0 < due" "due < 2 ^ 250"
    "pool = due - commission_of (the (Rate (rates_of snap))) due"
  shows "\<exists>db' f. pay_validator bc B db a due = Inr db' \<and> db_inv B db' \<and> ledger_ok (ledger B db')
    \<and> ledger B db' = put_wrap a (credit f w\<lparr>BlockReward := BlockReward w + due\<rparr>) (ledger B db)
    \<and> (\<forall>i. 0 \<le> f i) \<and> (\<forall>i. length (Delegations snap) \<le> i \<longrightarrow> f i = 0)
    \<and> (\<forall>i. 0 < i \<and> i < length (Delegations snap) \<longrightarrow>
         2 * (precisionReuse * precisionReuse) * \<bar>f i * TotalDelegation snap - Amount (Delegations snap ! i) * pool\<bar> \<le> TotalDelegation snap * rounding_slack pool)
    \<and> total_tokens (ledger B db) + due \<le> total_tokens (ledger B db')
    \<and> 2 * (precisionReuse * precisionReuse) * (total_tokens (ledger B db') - total_tokens (ledger B db) - due)
        \<le> int (length (Delegations snap)) * rounding_slack pool"
proof -
  let ?T = "TotalDelegation snap" and ?ds = "Delegations snap" and ?L = "ledger B db"
  have s: "distinct (map DelegatorAddress ?ds)" "\<forall>d\<in>set ?ds. 0 \<le> Amount d" "vAddress (theValidator snap) = a" "?ds \<noteq> []"
    "fair_rates (rates_of snap)"
    using assms(6) by (auto simp: wrapper_ok_def valid_delegation_def wrapper_addr_def valid_wrapper_def valid_validator_def
        enough_self_delegation_def rates_of_def)
  obtain r where r: "Rate (rates_of snap) = Some r" "0 \<le> r" "r \<le> OneDec" using s(5) by (auto simp: fair_rates_def)
  obtain shares where sh: "lookupDelegatorShares \<lparr>snapValidator = snap, snapEpoch = e\<rparr> = Inr shares"
    "\<forall>d\<in>set ?ds. \<exists>q. shares (DelegatorAddress d) = Some q \<and> 0 \<le> q \<and> q \<le> OneDec
         \<and> 2 * precisionReuse * \<bar>q * ?T - Amount d * precisionReuse\<bar> \<le> ?T * (precisionReuse + 2)"
    using lookupDelegatorShares_run [OF s(1,2) assms(7)] by blast
  let ?f = "earned shares r due ?ds"
  let ?w = "credit ?f w\<lparr>BlockReward := BlockReward w + due\<rparr>"
  have p: "pool = due - commission_of r due" "0 \<le> pool" using assms(9,11) r commission_bounds [of r due] by auto
  have dw: "Delegations w \<noteq> []" using s(4) assms(8) by auto
  have "reward_wrapper snap due shares w = Inr ?w"
    using r sh(2) by (intro reward_wrapper_run [OF _ r(2,3) assms(9,10) _ assms(8) dw]) (auto simp: rates_of_def)
  from AddReward_run [OF assms(1) s(3) assms(3,4,9) this] obtain db' where
    db': "AddReward B db snap due shares = Inr db'" "db_inv B db'" "ledger B db' = put_wrap a ?w ?L" by auto
  have near: "\<forall>d\<in>set ?ds. 2 * (precisionReuse * precisionReuse) * \<bar>pool_cut shares pool d * ?T - Amount d * pool\<bar> \<le> ?T * rounding_slack pool"
    using sh(2) p(2) assms(7) pool_cut_near [where shares = shares and T = ?T and pool = pool] by (meson less_imp_le)
  have cut: "0 \<le> pool_cut shares pool d" if "d \<in> set ?ds" for d
    using bspec [OF sh(2) that] p(2) by (auto simp: pool_cut_def intro!: bankers.nonneg)
  have f: "0 \<le> ?f i" for i
    using cut commission_bounds [OF r(2,3)] assms(9) by (simp add: earned_def Let_def flip: p(1))
  have ok: "wrapper_ok a w" "lFlag ?L a" using ledger_okD [OF assms(2,3)] by auto
  have "ledger_ok (ledger B db')" using assms(2) ok credit_ok(1) [OF ok(1) f] by (auto simp: db'(3) ledger_ok_def)
  moreover have gain: "total_tokens (ledger B db') = total_tokens ?L + due + max 0 (sum_list (map (pool_cut shares pool) ?ds) - pool)"
  proof -
    have "wrapper_tokens ?w = wrapper_tokens w + (\<Sum>j<length (Delegations w). ?f j)" using credit_tokens [of ?f w] by (simp add: wrapper_tokens_def)
    then show ?thesis using earned_sum [OF assms(8), of shares r due] dw assms(3) by (simp add: db'(3) total_put held_def flip: p(1))
  qed
  moreover have "2 * (precisionReuse * precisionReuse) * max 0 (sum_list (map (pool_cut shares pool) ?ds) - pool) \<le> int (length ?ds) * rounding_slack pool"
  proof -
    have "2 * (precisionReuse * precisionReuse) * max 0 (sum_list (map (pool_cut shares pool) ?ds) - pool)
        \<le> 2 * (precisionReuse * precisionReuse) * \<bar>sum_list (map (pool_cut shares pool) ?ds) - pool\<bar>" by (intro mult_left_mono) auto
    also have "\<dots> \<le> int (length ?ds) * rounding_slack pool" using pool_cut_sum [OF near _ assms(7)] by (simp add: TotalDelegation_sum)
    finally show ?thesis .
  qed
  moreover have "pay_validator bc B db a due = Inr db'" using assms(5) sh(1) db'(1) by (simp add: pay_validator_def)
  moreover have "?f i = 0" if "length ?ds \<le> i" for i using that s(4) by (auto simp: earned_def Let_def)
  moreover have "2 * (precisionReuse * precisionReuse) * \<bar>?f i * ?T - Amount (?ds ! i) * pool\<bar> \<le> ?T * rounding_slack pool"
    if "0 < i" "i < length ?ds" for i
    using near that by (simp add: earned_def Let_def flip: p(1))
  ultimately show ?thesis using db'(2,3) f by (intro exI [of _ db'] exI [of _ ?f]) auto
qed

theorem pay_validator_distributes_witness:
  "\<exists>db'. pay_validator sample_reward_chain sample_backend sample_staking 9 1000000 = Inr db'
    \<and> ledger_ok (ledger sample_backend db') \<and> total_tokens (ledger sample_backend sample_staking) + 1000000 \<le> total_tokens (ledger sample_backend db')"
proof -
  have w: "lWrap (ledger sample_backend sample_staking) 9 = Some sample_wrapper" by (simp add: sample_staking_ledger)
  have ok: "wrapper_ok 9 sample_wrapper" using ledger_okD [OF sample_staking_ok(2) w] by simp
  have "0 < TotalDelegation sample_wrapper" "Status (theValidator sample_wrapper) \<noteq> Banned"
    using minimumStake_pos by (simp_all add: TotalDelegation_sum sample_wrapper_def sample_validator_def NewDelegation_def sample_delegation_def)
  moreover have "rcSnapshot sample_reward_chain 9 = Inr \<lparr>snapValidator = sample_wrapper, snapEpoch = 1\<rparr>" by (simp add: sample_reward_chain_def)
  ultimately show ?thesis
    using pay_validator_distributes [OF sample_staking_ok(1,2) w _ _ ok, of sample_reward_chain 1 1000000
        "1000000 - commission_of (the (Rate (rates_of sample_wrapper))) 1000000"] by auto
qed

section \<open>Aggregated payouts\<close>

definition payout_addr :: "slotPayable \<Rightarrow> Address" where
  "payout_addr p = EcdsaAddress (payableSlot p)"

definition due_sum :: "slotPayable list \<Rightarrow> Address \<Rightarrow> int" where
  "due_sum ps a = sum_list (map (\<lambda>p. if payout_addr p = a then payout p else 0) ps)"

lemma aggregate_payables_eq:
  assumes "\<forall>p\<in>set ps. 0 \<le> payout p"
  shows "aggregate_payables ps a = (if a \<in> payout_addr ` set ps then Some (due_sum ps a) else None)"
  using assms
proof (induction ps rule: rev_induct)
  case (snoc p ps)
  have "a \<notin> payout_addr ` set ps \<Longrightarrow> due_sum ps a = 0" for a unfolding due_sum_def by (induction ps) auto
  then show ?case using snoc by (auto simp: aggregate_payables_def payout_addr_def due_sum_def)
qed (simp add: aggregate_payables_def)

lemma due_sum_total: "(\<Sum>a\<leftarrow>sorted_validators ps. due_sum ps a) = sum_list (map payout ps)"
proof -
  have d: "distinct (sorted_validators ps)" and s: "set (sorted_validators ps) = payout_addr ` set ps"
    by (simp_all add: sorted_validators_def payout_addr_def)
  have "(\<Sum>a\<leftarrow>sorted_validators ps. due_sum ps a) = (\<Sum>a\<in>payout_addr ` set ps. due_sum ps a)"
    using d s by (simp add: sum_list_distinct_conv_sum_set)
  also have "\<dots> = sum_list (map payout ps)"
  proof -
    have "finite A \<Longrightarrow> payout_addr ` set qs \<subseteq> A \<Longrightarrow> (\<Sum>a\<in>A. due_sum qs a) = sum_list (map payout qs)" for A and qs :: "slotPayable list"
      by (induction qs) (auto simp: due_sum_def sum.distrib)
    then show ?thesis by blast
  qed
  finally show ?thesis .
qed

text \<open>
  Rewards are aggregated by validator: every validator that some slot earned for is paid once, in
  the order of addresses, and gets the sum of what its slots earned; all sums together are the
  sum of all slots.
\<close>

theorem aggregate_payables_partition:
  assumes "\<forall>p\<in>set ps. 0 \<le> payout p"
  shows "(\<forall>a. aggregate_payables ps a = (if a \<in> payout_addr ` set ps then Some (due_sum ps a) else None))
    \<and> sorted_wrt (<) (sorted_validators ps) \<and> set (sorted_validators ps) = payout_addr ` set ps
    \<and> (\<Sum>a\<leftarrow>sorted_validators ps. the (aggregate_payables ps a)) = sum_list (map payout ps)"
proof -
  have set: "set (sorted_validators ps) = payout_addr ` set ps" by (simp add: sorted_validators_def payout_addr_def)
  have "(\<Sum>a\<leftarrow>sorted_validators ps. the (aggregate_payables ps a)) = (\<Sum>a\<leftarrow>sorted_validators ps. due_sum ps a)"
    using set by (intro arg_cong [where f = sum_list] map_cong) (auto simp: aggregate_payables_eq [OF assms])
  then show ?thesis
    using aggregate_payables_eq [OF assms] due_sum_total [of ps] set by (simp add: strict_sorted_iff sorted_validators_def)
qed

theorem aggregate_payables_partition_witness:
  "let p = (\<lambda>a x. \<lparr>payableSlot = sample_slot a 1 None, payout = x, bucket = 0, pindex = 0, payableShard = 0\<rparr>);
       ps = [p 5 3, p 2 4, p 5 6]
   in sorted_validators ps = [2, 5] \<and> (\<Sum>a\<leftarrow>sorted_validators ps. the (aggregate_payables ps a)) = 13"
proof -
  let ?p = "\<lambda>a x. \<lparr>payableSlot = sample_slot a 1 None, payout = x, bucket = 0, pindex = 0, payableShard = 0\<rparr>"
  have "\<forall>p\<in>set [?p 5 3, ?p 2 4, ?p 5 6]. 0 \<le> payout p" by simp
  note r = aggregate_payables_partition [OF this, THEN conjunct2, THEN conjunct2, THEN conjunct2]
  have "sum_list (map payout [?p 5 3, ?p 2 4, ?p 5 6]) = 13" by simp
  moreover have "sorted_validators [?p 5 3, ?p 2 4, ?p 5 6] = [2, 5]" by (simp add: sorted_validators_def sample_slot_def)
  ultimately show ?thesis using r unfolding Let_def by simp
qed

end
