(* ===== verification/Finalize.thy ===== *)
theory Finalize
  imports Rewards Slash
begin

text \<open>
  Finalising a block (\<open>internal/chain/engine.go\<close>): at the end of an epoch the matured undelegations
  are paid out and commissions and election epochs are set, then the rewards are accumulated, the
  slashes applied and the emission that is not for validators is credited. The hash of the resulting
  state and its tries are a parameter, as is the view number the proposer reports.
\<close>

section \<open>The end of an epoch\<close>

record 'pk finalChain = "'pk rewardChain" +
  fcValidatorList :: "Address list go"
  fcCandidates :: "Address list"
  fcCurrentEpoch :: int
  fcSnapshotAt :: "int \<Rightarrow> Address \<Rightarrow> ValidatorSnapshot go"
  fcIntermediateRoot :: "DB \<Rightarrow> bool \<Rightarrow> DB \<times> Hash"

definition GetLockPeriodInEpoch :: "ChainConfig \<Rightarrow> int \<Rightarrow> int" where
  "GetLockPeriodInEpoch config epoch =
     (if IsRedelegation config (Some epoch) then LockPeriodInEpoch
      else if IsQuickUnlock config (Some epoch) then LockPeriodInEpochV2
      else LockPeriodInEpoch)"

definition IsCommitteeSelectionBlock :: "ChainConfig \<Rightarrow> BlockHeader \<Rightarrow> bool" where
  "IsCommitteeSelectionBlock config header \<longleftrightarrow>
     bhShardID header = 0 \<and> IsLastBlockInEpoch header \<and> IsPreStaking config (Some (hEpoch header))"

text \<open>The delegations of one validator: unlocked entries are removed and paid to the delegator.\<close>

fun payout_delegations ::
  "backend \<Rightarrow> int \<Rightarrow> int \<Rightarrow> int \<Rightarrow> bool \<Rightarrow> bool \<Rightarrow> DB \<Rightarrow> Delegation list \<Rightarrow> DB \<times> Delegation list" where
  "payout_delegations B epoch lastEpoch lockPeriod noEarlyUnlock isMaxRate db [] = (db, [])"
| "payout_delegations B epoch lastEpoch lockPeriod noEarlyUnlock isMaxRate db (d # ds) =
     (case RemoveUnlockedUndelegations d epoch lastEpoch lockPeriod noEarlyUnlock isMaxRate of
        (totalWithdraw, d') \<Rightarrow>
          let db = (if sgn totalWithdraw \<noteq> 0 then AddBalance B db (DelegatorAddress d) totalWithdraw else db)
          in case payout_delegations B epoch lastEpoch lockPeriod noEarlyUnlock isMaxRate db ds of
               (db, ds') \<Rightarrow> (db, d' # ds'))"

definition payout_validator :: "backend \<Rightarrow> int \<Rightarrow> int \<Rightarrow> bool \<Rightarrow> bool \<Rightarrow> DB \<Rightarrow> Address \<Rightarrow> DB go" where
  "payout_validator B epoch lockPeriod noEarlyUnlock isMaxRate db validator =
     (case ValidatorWrapper_get B db validator True False of
        Inl (Panic e) \<Rightarrow> Inl (Panic e)
      | Inl (Error _) \<Rightarrow> Inl (Error ''[Finalize] failed to get validator from state to finalize'')
      | Inr (p, db) \<Rightarrow>
          go_bind (deref p) (\<lambda>wrapper.
          case payout_delegations B epoch (LastEpochInCommittee (theValidator wrapper)) lockPeriod noEarlyUnlock isMaxRate db (Delegations wrapper) of
            (db, ds) \<Rightarrow> Inr (db\<lparr>stateValidators := (stateValidators db)(validator := Some (Some (wrapper\<lparr>Delegations := ds\<rparr>)))\<rparr>)))"

definition payoutUndelegations :: "'pk finalChain \<Rightarrow> backend \<Rightarrow> BlockHeader \<Rightarrow> DB \<Rightarrow> DB go" where
  "payoutUndelegations chain B header db =
     (case fcValidatorList chain of
        Inl (Panic e) \<Rightarrow> Inl (Panic e)
      | Inl (Error _) \<Rightarrow> Inl (Error ''[Finalize] failed to read all validators'')
      | Inr validators \<Rightarrow>
          let lockPeriod = GetLockPeriodInEpoch (rcConfig chain) (hEpoch header);
              noEarlyUnlock = IsNoEarlyUnlock (rcConfig chain) (Some (hEpoch header))
          in (case bhShardState header of
                Inl (Panic e) \<Rightarrow> Inl (Panic e)
              | Inl (Error _) \<Rightarrow> Inl (Error ''[Finalize] failed to read shard state'')
              | Inr newShardState \<Rightarrow>
                  let isMaxRate = IsMaxRate (rcConfig chain) (Epoch newShardState)
                  in go_fold (payout_validator B (hEpoch header) lockPeriod noEarlyUnlock isMaxRate) db validators))"

section \<open>Elections and commissions\<close>

definition set_last_epoch :: "backend \<Rightarrow> int \<Rightarrow> DB \<Rightarrow> Address \<Rightarrow> DB go" where
  "set_last_epoch B epoch db addr =
     (case with_original B db addr (\<lambda>w. Inr (w\<lparr>theValidator := (theValidator w)\<lparr>LastEpochInCommittee := epoch\<rparr>\<rparr>)) of
        Inl (Error _) \<Rightarrow> Inl (Error ''[Finalize] failed to get validator from state to finalize'')
      | r \<Rightarrow> r)"

definition update_min_fee :: "backend \<Rightarrow> ChainConfig \<Rightarrow> int \<Rightarrow> Dec \<Rightarrow> DB \<Rightarrow> Address \<Rightarrow> DB go" where
  "update_min_fee B config epoch minRate db addr =
     go_bind (deref (MinCommissionPromoPeriod config)) (\<lambda>period.
     go_bind (UpdateMinimumCommissionFee B epoch db addr minRate (Uint64 period)) (\<lambda>(_, db). Inr db))"

definition elect_validator :: "backend \<Rightarrow> ChainConfig \<Rightarrow> int \<Rightarrow> Dec \<Rightarrow> DB \<Rightarrow> Address \<Rightarrow> DB go" where
  "elect_validator B config epoch minRate db addr =
     go_bind (set_last_epoch B epoch db addr) (\<lambda>db.
     if Equal minRate ZeroDec then Inr db
     else go_bind (SetValidatorFirstElectionEpoch B db addr epoch) (\<lambda>db. update_min_fee B config epoch minRate db addr))"

text \<open>The epoch of the new shard state is set in staking epochs, the only ones with elected validators or rates.\<close>

definition setElectionEpochAndMinFee :: "'pk finalChain \<Rightarrow> backend \<Rightarrow> BlockHeader \<Rightarrow> DB \<Rightarrow> ChainConfig \<Rightarrow> DB go" where
  "setElectionEpochAndMinFee chain B header db config =
     (case bhShardState header of
        Inl (Panic e) \<Rightarrow> Inl (Panic e)
      | Inl (Error _) \<Rightarrow> Inl (Error ''[Finalize] failed to read shard state'')
      | Inr newShardState \<Rightarrow>
          let ep = Epoch newShardState; epoch = (case ep of Some e \<Rightarrow> e | None \<Rightarrow> 0) in
          go_bind (MinCommissionRate (IsMinCommissionRate config ep) (IsHIP30 config ep)) (\<lambda>minRate.
          let minRateNotZero = (\<not> Equal minRate ZeroDec) in
          go_bind (State_StakedValidators newShardState) (\<lambda>stk.
          go_bind (go_fold (elect_validator B config epoch minRate) db (Addrs stk)) (\<lambda>db.
          go_bind (if IsMaxRate config ep
                   then go_fold (\<lambda>db addr. UpdateMaxCommissionFee B (IsTopMaxRate config ep) db addr minRate) db (fcCandidates chain)
                   else Inr db) (\<lambda>db.
          go_bind (if IsHIP30 config ep \<and> minRateNotZero
                   then go_fold (\<lambda>db addr. if addr \<in> set (Addrs stk) then Inr db else update_min_fee B config epoch minRate db addr)
                          db (fcCandidates chain)
                   else Inr db) (\<lambda>db.
            if IsMaxRate config ep \<and> minRateNotZero
            then go_fold (\<lambda>db addr. UpdateMaxCommissionFee B (IsTopMaxRate config ep) db addr minRate) db (fcCandidates chain)
            else Inr db))))))"

section \<open>Slashes of a block\<close>

record keyStruct =
  kHeight :: uint64
  kViewID :: uint64
  kShardID :: uint32
  kEpoch :: uint64

definition slash_key :: "Record \<Rightarrow> keyStruct" where
  "slash_key r = (let m = theMoment (theEvidence r) in
     \<lparr>kHeight = mHeight m, kViewID = mViewID m, kShardID = mShardID m, kEpoch = Uint64 (mEpoch m)\<rparr>)"

definition key_less :: "keyStruct \<Rightarrow> keyStruct \<Rightarrow> bool" where
  "key_less a b =
     (if kShardID a < kShardID b then True
      else if kHeight a < kHeight b then True
      else if kViewID a < kViewID b then True
      else False)"

text \<open>
  \<open>sort.SliceStable\<close> on at most twenty keys, a plain insertion sort: every element sinks to the left as
  long as it is less than its neighbour. The sorted prefix is kept reversed.
\<close>

fun sink :: "('a \<Rightarrow> 'a \<Rightarrow> bool) \<Rightarrow> 'a \<Rightarrow> 'a list \<Rightarrow> 'a list" where
  "sink lt x [] = [x]"
| "sink lt x (y # ys) = (if lt x y then y # sink lt x ys else x # y # ys)"

definition SliceStable :: "('a \<Rightarrow> 'a \<Rightarrow> bool) \<Rightarrow> 'a list \<Rightarrow> 'a list" where
  "SliceStable lt xs = rev (foldl (\<lambda>prefix x. sink lt x prefix) [] xs)"

text \<open>\<open>visit\<close> is the order in which the runtime happens to visit the keys of the map of groups.\<close>

definition applySlashes ::
  "'pk finalChain \<Rightarrow> backend \<Rightarrow> BlockHeader \<Rightarrow> DB \<Rightarrow> Record list \<Rightarrow> keyStruct list \<Rightarrow> DB go" where
  "applySlashes chain B header db doubleSigners visit =
     go_fold (\<lambda>db key.
         case Slash_Apply B (fcSnapshotAt chain) db (filter (\<lambda>r. slash_key r = key) doubleSigners) (bhCoinbase header) of
           Inl (Panic e) \<Rightarrow> Inl (Panic e)
         | Inl (Error _) \<Rightarrow> Inl (Error ''[Finalize] could not apply slash'')
         | Inr (db, _) \<Rightarrow> Inr db)
       db (SliceStable key_less visit)"

section \<open>Finalising\<close>

definition epoch_end :: "'pk finalChain \<Rightarrow> backend \<Rightarrow> BlockHeader \<Rightarrow> DB \<Rightarrow> DB go" where
  "epoch_end chain B header db =
     go_bind (payoutUndelegations chain B header db) (\<lambda>db.
     go_bind (setElectionEpochAndMinFee chain B header db (rcConfig chain)) (\<lambda>db.
     go_bind (rcShardState chain (fcCurrentEpoch chain)) (\<lambda>curShardState.
     go_bind (State_StakedValidators curShardState) (\<lambda>stk.
       go_fold (ComputeAndMutateEPOSStatus B (rcSnapshot chain)) db (Addrs stk)))))"

definition Finalize ::
  "'pk finalChain \<Rightarrow> 'pk rewardChain \<Rightarrow> backend \<Rightarrow> BlockHeader \<Rightarrow> DB \<Rightarrow> Record list \<Rightarrow> keyStruct list \<Rightarrow> bool \<Rightarrow> uint64 \<Rightarrow>
   (BlockHeader \<times> Hash \<times> DB \<times> CompletedRound) go" where
  "Finalize chain beacon B header db doubleSigners visit sigsReady viewID =
     go_bind (if IsCommitteeSelectionBlock (rcConfig chain) header then epoch_end chain B header db else Inr db) (\<lambda>db.
     go_bind (AccumulateRewardsAndCountSigs (rewardChain.truncate chain) beacon B db header sigsReady) (\<lambda>(db, remainder, paidOut).
     go_bind (if bhShardID header = 0 \<and> IsStaking (rcConfig chain) (Some (hEpoch header)) \<and> length doubleSigners > 0
              then applySlashes chain B header db doubleSigners visit
              else if length doubleSigners > 0
              then Inl (Error ''slashes proposed in non-beacon chain or non-staking epoch'')
              else Inr db) (\<lambda>db.
     let header = header\<lparr>bhViewID := uint viewID\<rparr>;
         db = (if IsHIP30 (rcConfig chain) (Some (hEpoch header))
               then AddBalance B db (recoveryAddress (rcInstance chain (hEpoch header))) (ediv remainder Itc)
               else db)
     in case fcIntermediateRoot chain db (IsS3 (rcConfig chain) (Some (hEpoch header))) of
          (db, root) \<Rightarrow> Inr (header, root, db, paidOut))))"

section \<open>Paying out\<close>

text \<open>The rules of one payout: the epoch, the lock period, whether early unlocking is off and whether old entries expire.\<close>

record payout_rule =
  prEpoch :: int
  prLock :: int
  prNoEarly :: bool
  prMaxRate :: bool

definition matured :: "payout_rule \<Rightarrow> int \<Rightarrow> Undelegation \<Rightarrow> bool" where
  "matured R lastE = released (prEpoch R) lastE (prLock R) (prNoEarly R)"

definition kept :: "payout_rule \<Rightarrow> int \<Rightarrow> Delegation \<Rightarrow> Delegation" where
  "kept R lastE d = d\<lparr>Undelegations := filter (\<lambda>u. \<not> matured R lastE u) (Undelegations d)\<rparr>"

definition withdrawn :: "payout_rule \<Rightarrow> int \<Rightarrow> Delegation \<Rightarrow> int" where
  "withdrawn R lastE d = undelegation_total (filter (\<lambda>u. matured R lastE u \<and> paid (prEpoch R) (prLock R) (prMaxRate R) u) (Undelegations d))"

definition expired :: "payout_rule \<Rightarrow> int \<Rightarrow> Delegation \<Rightarrow> int" where
  "expired R lastE d = undelegation_total (filter (\<lambda>u. matured R lastE u \<and> \<not> paid (prEpoch R) (prLock R) (prMaxRate R) u) (Undelegations d))"

lemma kept_sel [simp]:
  "Amount (kept R e d) = Amount d" "Reward (kept R e d) = Reward d" "DelegatorAddress (kept R e d) = DelegatorAddress d"
  "valid_delegation d \<Longrightarrow> valid_delegation (kept R e d)"
  by (simp_all add: kept_def valid_delegation_def valid_undelegations_filter)

lemma kept_tokens: "delegation_tokens (kept R e d) = delegation_tokens d - withdrawn R e d - expired R e d"
proof -
  have "undelegation_total us = undelegation_total (filter (\<lambda>u. \<not> P u) us) + undelegation_total (filter (\<lambda>u. P u \<and> Q u) us)
      + undelegation_total (filter (\<lambda>u. P u \<and> \<not> Q u) us)" for P Q us
    by (induction us) auto
  from this [of "Undelegations d" "matured R e" "paid (prEpoch R) (prLock R) (prMaxRate R)"] show ?thesis
    by (simp add: delegation_tokens_eq kept_def withdrawn_def expired_def)
qed

lemma withdrawn_nonneg: "valid_delegation d \<Longrightarrow> 0 \<le> withdrawn R e d" "valid_delegation d \<Longrightarrow> 0 \<le> expired R e d"
  "\<not> prMaxRate R \<Longrightarrow> expired R e d = 0"
  by (auto simp: withdrawn_def expired_def undelegation_total_def valid_delegation_def valid_undelegations_def paid_def intro!: sum_list_nonneg)

lemma payout_delegations_run:
  assumes "db_inv B db" "\<forall>d\<in>set ds. valid_delegation d \<and> epochs_fit (prEpoch R) lastE (Undelegations d)"
    "payout_delegations B (prEpoch R) lastE (prLock R) (prNoEarly R) (prMaxRate R) db ds = (db', ds')"
  shows "ds' = map (kept R lastE) ds \<and> db_inv B db' \<and> lWrap (ledger B db') = lWrap (ledger B db) \<and> lFlag (ledger B db') = lFlag (ledger B db)
    \<and> lBal (ledger B db') = (\<lambda>a. lBal (ledger B db) a + (\<Sum>d\<leftarrow>ds. if DelegatorAddress d = a then withdrawn R lastE d else 0))"
  using assms
proof (induction ds arbitrary: db ds')
  case (Cons d ds)
  have s: "sorted (map uEpoch (Undelegations d))" "epochs_fit (prEpoch R) lastE (Undelegations d)"
    using Cons.prems(2) by (auto simp: valid_delegation_def valid_undelegations_def)
  have rm: "RemoveUnlockedUndelegations d (prEpoch R) lastE (prLock R) (prNoEarly R) (prMaxRate R) = (withdrawn R lastE d, kept R lastE d)"
    using RemoveUnlocked_eq [OF s] by (simp add: withdrawn_def kept_def matured_def)
  let ?x = "withdrawn R lastE d"
  define db1 where "db1 = (if sgn ?x \<noteq> 0 then AddBalance B db (DelegatorAddress d) ?x else db)"
  have 1: "db_inv B db1" "lWrap (ledger B db1) = lWrap (ledger B db)" "lFlag (ledger B db1) = lFlag (ledger B db)"
    "lBal (ledger B db1) = (lBal (ledger B db))(DelegatorAddress d := lBal (ledger B db) (DelegatorAddress d) + ?x)"
    using account_state.add [OF Cons.prems(1)] Cons.prems(1) by (auto simp: db1_def sgn_eq_0_iff)
  obtain db2 ds2 where r: "payout_delegations B (prEpoch R) lastE (prLock R) (prNoEarly R) (prMaxRate R) db1 ds = (db2, ds2)" by fastforce
  have e: "db' = db2" "ds' = kept R lastE d # ds2" using Cons.prems(3) r by (simp_all add: rm db1_def Let_def)
  note IH = Cons.IH [OF 1(1) _ r [folded e(1)]]
  show ?case using IH Cons.prems(2) 1 e by (auto simp: fun_eq_iff)
qed simp

definition payout_ready :: "payout_rule \<Rightarrow> Ledger \<Rightarrow> Address \<Rightarrow> bool" where
  "payout_ready R L v \<longleftrightarrow> (\<exists>w. lWrap L v = Some w \<and>
     (\<forall>d\<in>set (Delegations w). epochs_fit (prEpoch R) (LastEpochInCommittee (theValidator w)) (Undelegations d)))"

text \<open>What a payout leaves of a ledger.\<close>

definition paid_ledger :: "payout_rule \<Rightarrow> Address set \<Rightarrow> Ledger \<Rightarrow> Ledger \<Rightarrow> bool" where
  "paid_ledger R vs L L' \<longleftrightarrow> ledger_ok L' \<and> (\<forall>v b. staked_with L' v b = staked_with L v b) \<and> lFlag L' = lFlag L
     \<and> (\<forall>a. lBal L a \<le> lBal L' a) \<and> total_tokens L' \<le> total_tokens L \<and> (\<not> prMaxRate R \<longrightarrow> total_tokens L' = total_tokens L)
     \<and> (\<forall>v. payout_ready R L v \<longrightarrow> payout_ready R L' v)
     \<and> (\<forall>v\<in>vs. \<forall>w. lWrap L' v = Some w \<longrightarrow> (\<forall>d\<in>set (Delegations w). \<forall>u\<in>set (Undelegations d). \<not> matured R (LastEpochInCommittee (theValidator w)) u))"

lemma wrapper_ok_kept:
  assumes "wrapper_ok a w"
  shows "wrapper_ok a (w\<lparr>Delegations := map (kept R e) (Delegations w)\<rparr>)" "staked_in (w\<lparr>Delegations := map (kept R e) (Delegations w)\<rparr>) b = staked_in w b"
proof -
  let ?w = "w\<lparr>Delegations := map (kept R e) (Delegations w)\<rparr>"
  have v: "valid_wrapper w" "Delegations w \<noteq> []" "TotalDelegation w \<le> the (MaxTotalDelegation (theValidator w))"
    using assms by (auto simp: wrapper_ok_def valid_wrapper_def enough_self_delegation_def)
  have c: "map Amount (map (kept R e) (Delegations w)) = map Amount (Delegations w)"
    "map DelegatorAddress (map (kept R e) (Delegations w)) = map DelegatorAddress (Delegations w)" by simp_all
  have "valid_wrapper ?w"
    using v by (intro valid_wrapper_more [OF v(1)]) (simp_all add: TotalDelegation_sum c del: map_map, simp add: list.map_sel)
  then show "wrapper_ok a ?w" using assms by (auto simp: wrapper_ok_def wrapper_addr_def c simp del: map_map)
  show "staked_in ?w b = staked_in w b" by (simp add: staked_in_def comp_def cong: if_cong)
qed

lemma payout_validator_run:
  assumes "db_inv B db" "ledger_ok (ledger B db)" "payout_ready R (ledger B db) v"
  shows "\<exists>db'. payout_validator B (prEpoch R) (prLock R) (prNoEarly R) (prMaxRate R) db v = Inr db' \<and> db_inv B db'
    \<and> paid_ledger R {v} (ledger B db) (ledger B db')
    \<and> (\<forall>x. x \<noteq> v \<longrightarrow> lWrap (ledger B db') x = lWrap (ledger B db) x)"
proof -
  let ?L = "ledger B db"
  obtain w where w: "lWrap ?L v = Some w" and fit: "\<forall>d\<in>set (Delegations w). epochs_fit (prEpoch R) (LastEpochInCommittee (theValidator w)) (Undelegations d)"
    using assms(3) by (auto simp: payout_ready_def)
  define e where "e = LastEpochInCommittee (theValidator w)"
  have ok: "lFlag ?L v" "wrapper_ok v w" using ledger_okD [OF assms(2) w] by auto
  obtain db1 where g: "ValidatorWrapper_get B db v True False = Inr (Some w, db1)" using ValidatorWrapper_get_some [OF assms(1) w, of True False] by auto
  have l1: "db_inv B db1" "ledger B db1 = ?L" using ValidatorWrapper_get_ledger [OF assms(1) g] by auto
  obtain db2 ds where p: "payout_delegations B (prEpoch R) e (prLock R) (prNoEarly R) (prMaxRate R) db1 (Delegations w) = (db2, ds)" by fastforce
  have valid: "\<forall>d\<in>set (Delegations w). valid_delegation d" using ok(2) by (simp add: wrapper_ok_def)
  have r: "ds = map (kept R e) (Delegations w)" "db_inv B db2" "lWrap (ledger B db2) = lWrap ?L" "lFlag (ledger B db2) = lFlag ?L"
    "lBal (ledger B db2) = (\<lambda>a. lBal ?L a + (\<Sum>d\<leftarrow>Delegations w. if DelegatorAddress d = a then withdrawn R e d else 0))"
    using payout_delegations_run [OF l1(1) _ p] valid fit l1(2) by (auto simp: e_def)
  let ?w = "w\<lparr>Delegations := map (kept R e) (Delegations w)\<rparr>"
  let ?db = "db2\<lparr>stateValidators := (stateValidators db2)(v := Some (Some ?w))\<rparr>"
  have run: "payout_validator B (prEpoch R) (prLock R) (prNoEarly R) (prMaxRate R) db v = Inr ?db"
    using g p r(1) by (simp add: payout_validator_def deref_def e_def)
  have inv: "db_inv B ?db" and L: "ledger B ?db = put_wrap v ?w (ledger B db2)" using cache_write_ledger [OF r(2)] by auto
  have bal: "lBal ?L a \<le> lBal (ledger B ?db) a" for a
    using valid withdrawn_nonneg(1) by (auto simp: L r(5) intro!: sum_list_nonneg)
  let ?out = "\<Sum>d\<leftarrow>Delegations w. withdrawn R e d" and ?gone = "\<Sum>d\<leftarrow>Delegations w. expired R e d"
  have "total_tokens (ledger B db2) = total_tokens ?L + ?out"
  proof -
    have "(\<Sum>a\<in>UNIV. \<Sum>d\<leftarrow>ds. if DelegatorAddress d = a then withdrawn R e d else 0) = (\<Sum>d\<leftarrow>ds. withdrawn R e d)" for ds
      by (induction ds) (simp_all add: sum.distrib)
    then show ?thesis by (simp add: total_tokens_def held_def r(3,5) sum.distrib algebra_simps)
  qed
  moreover have "wrapper_tokens ?w = wrapper_tokens w - ?out - ?gone"
  proof -
    have "(\<Sum>d\<leftarrow>ds. delegation_tokens (kept R e d)) = sum_list (map delegation_tokens ds) - (\<Sum>d\<leftarrow>ds. withdrawn R e d) - (\<Sum>d\<leftarrow>ds. expired R e d)" for ds
      by (induction ds) (simp_all add: kept_tokens)
    then show ?thesis by (simp add: wrapper_tokens_def comp_def)
  qed
  ultimately have tok: "total_tokens (ledger B ?db) = total_tokens ?L - ?gone" by (simp add: L total_put held_def r(3) w)
  have gone: "0 \<le> ?gone" "\<not> prMaxRate R \<Longrightarrow> ?gone = 0" using valid withdrawn_nonneg(2,3) by (auto intro!: sum_list_nonneg)
  have led: "ledger_ok (ledger B ?db)" using assms(2) ok wrapper_ok_kept(1) [OF ok(2)] by (auto simp: ledger_ok_def L r(3,4))
  have stk: "staked_with (ledger B ?db) x b = staked_with ?L x b" for x b
    using wrapper_ok_kept(2) [OF ok(2)] w by (simp add: staked_with_def L r(3))
  have ready: "payout_ready R ?L x \<Longrightarrow> payout_ready R (ledger B ?db) x" for x
  proof -
    have "\<forall>d\<in>set (Delegations ?w). epochs_fit (prEpoch R) (LastEpochInCommittee (theValidator ?w)) (Undelegations d)"
      using fit by (auto simp: kept_def epochs_fit_def)
    then show "payout_ready R ?L x \<Longrightarrow> payout_ready R (ledger B ?db) x" by (auto simp: payout_ready_def L r(3))
  qed
  have "\<forall>d\<in>set (Delegations ?w). \<forall>u\<in>set (Undelegations d). \<not> matured R (LastEpochInCommittee (theValidator ?w)) u"
    by (auto simp: kept_def e_def)
  then have "paid_ledger R {v} ?L (ledger B ?db)"
    using led stk bal tok gone ready unfolding paid_ledger_def by (auto simp: L r(3,4))
  then show ?thesis using run inv by (intro exI [of _ ?db]) (simp add: L r(3))
qed

lemma paid_ledger_trans:
  assumes "paid_ledger R V L L1" "paid_ledger R W L1 L2" "\<forall>x. x \<notin> W \<longrightarrow> lWrap L2 x = lWrap L1 x"
  shows "paid_ledger R (V \<union> W) L L2"
proof -
  have "\<not> matured R (LastEpochInCommittee (theValidator w)) u"
    if "v \<in> V \<union> W" "lWrap L2 v = Some w" "d \<in> set (Delegations w)" "u \<in> set (Undelegations d)" for v w d u
    using that assms unfolding paid_ledger_def by (cases "v \<in> W") auto
  then show ?thesis using assms unfolding paid_ledger_def by (auto intro: order_trans)
qed

lemma payout_all:
  assumes "db_inv B db" "ledger_ok (ledger B db)" "\<forall>v\<in>set vs. payout_ready R (ledger B db) v"
  shows "\<exists>db'. go_fold (payout_validator B (prEpoch R) (prLock R) (prNoEarly R) (prMaxRate R)) db vs = Inr db' \<and> db_inv B db'
    \<and> paid_ledger R (set vs) (ledger B db) (ledger B db') \<and> (\<forall>x. x \<notin> set vs \<longrightarrow> lWrap (ledger B db') x = lWrap (ledger B db) x)"
  using assms
proof (induction vs arbitrary: db)
  case Nil
  then show ?case by (simp add: paid_ledger_def)
next
  case (Cons v vs)
  obtain db1 where 1: "payout_validator B (prEpoch R) (prLock R) (prNoEarly R) (prMaxRate R) db v = Inr db1" "db_inv B db1"
    "paid_ledger R {v} (ledger B db) (ledger B db1)" "\<forall>x. x \<noteq> v \<longrightarrow> lWrap (ledger B db1) x = lWrap (ledger B db) x"
    using payout_validator_run [OF Cons.prems(1,2), of R v] Cons.prems(3) by auto
  have "ledger_ok (ledger B db1)" "\<forall>v\<in>set vs. payout_ready R (ledger B db1) v" using 1(3) Cons.prems(3) by (auto simp: paid_ledger_def)
  from Cons.IH [OF 1(2) this] obtain db2 where 2: "go_fold (payout_validator B (prEpoch R) (prLock R) (prNoEarly R) (prMaxRate R)) db1 vs = Inr db2"
    "db_inv B db2" "paid_ledger R (set vs) (ledger B db1) (ledger B db2)" "\<forall>x. x \<notin> set vs \<longrightarrow> lWrap (ledger B db2) x = lWrap (ledger B db1) x" by blast
  show ?case using 1 2 paid_ledger_trans [OF 1(3) 2(3,4)] by auto
qed

definition header_rule :: "'pk finalChain \<Rightarrow> BlockHeader \<Rightarrow> State \<Rightarrow> payout_rule" where
  "header_rule chain header ss =
     \<lparr>prEpoch = hEpoch header, prLock = GetLockPeriodInEpoch (rcConfig chain) (hEpoch header),
      prNoEarly = IsNoEarlyUnlock (rcConfig chain) (Some (hEpoch header)), prMaxRate = IsMaxRate (rcConfig chain) (Epoch ss)\<rparr>"


definition sample_final :: "int finalChain" where
  "sample_final = rewardChain.extend sample_reward_chain
     \<lparr>fcValidatorList = Inr [9], fcCandidates = [9], fcCurrentEpoch = 12, fcSnapshotAt = (\<lambda>_ _. Inl (Error ''none'')),
      fcIntermediateRoot = (\<lambda>db _. (db, 0))\<rparr>"


section \<open>Elections\<close>

lemma set_last_epoch_ledger:
  assumes "db_inv B db" "set_last_epoch B e db a = Inr db'"
  shows "\<exists>w. lWrap (ledger B db) a = Some w \<and> db_inv B db'
    \<and> ledger B db' = put_wrap a (w\<lparr>theValidator := (theValidator w)\<lparr>LastEpochInCommittee := e\<rparr>\<rparr>) (ledger B db)"
proof -
  have "with_original B db a (\<lambda>w. Inr (w\<lparr>theValidator := (theValidator w)\<lparr>LastEpochInCommittee := e\<rparr>\<rparr>)) = Inr db'"
    using assms(2) by (auto simp: set_last_epoch_def split: sum.splits fault.splits)
  from with_original_ok [OF assms(1) this] show ?thesis by auto
qed

text \<open>The order of the slashes.\<close>

text \<open>
  The comparison that is meant to put the groups of slashes into one order is not an order: of two
  groups each can be less than the other. What the sort returns then depends on the order in which
  the runtime visits the map of groups.
\<close>

theorem slash_groups_order_depends_on_map:
  "let a = \<lparr>kHeight = 2, kViewID = 0, kShardID = 0, kEpoch = 0\<rparr>; b = \<lparr>kHeight = 1, kViewID = 0, kShardID = 1, kEpoch = 0\<rparr>
   in key_less a b \<and> key_less b a \<and> SliceStable key_less [a, b] = [b, a] \<and> SliceStable key_less [b, a] = [a, b]"
  by (simp add: key_less_def SliceStable_def Let_def)

section \<open>Elections keep the books\<close>

text \<open>Same balances, marks and delegations; of a validator only its rates, election epoch and status may change.\<close>

definition same_books :: "Ledger \<Rightarrow> Ledger \<Rightarrow> bool" where
  "same_books L L' \<longleftrightarrow> lBal L' = lBal L \<and> lFlag L' = lFlag L \<and> (\<forall>a. lWrap L' a = None \<longleftrightarrow> lWrap L a = None)
     \<and> (\<forall>a w w'. lWrap L a = Some w \<longrightarrow> lWrap L' a = Some w' \<longrightarrow> Delegations w' = Delegations w)"

lemma same_books_refl: "same_books L L" by (simp add: same_books_def)

lemma same_books_trans: "same_books L1 L2 \<Longrightarrow> same_books L2 L3 \<Longrightarrow> same_books L1 L3"
  unfolding same_books_def by (auto) (metis option.exhaust option.distinct(1))

lemma same_books_put: "lWrap L a = Some w \<Longrightarrow> Delegations w' = Delegations w \<Longrightarrow> same_books L (put_wrap a w' L)"
  by (auto simp: same_books_def)

lemma same_books_total: "same_books L L' \<Longrightarrow> total_tokens L' = total_tokens L \<and> staked_with L' = staked_with L"
proof -
  assume s: "same_books L L'"
  have "held L' a = held L a \<and> staked_with L' a b = staked_with L a b" for a b
  proof (cases "lWrap L a")
    case None
    then have "lWrap L' a = None" using s by (auto simp: same_books_def)
    then show ?thesis using None by (simp add: held_def staked_with_def)
  next
    case (Some w)
    then obtain w' where "lWrap L' a = Some w'" "Delegations w' = Delegations w" using s by (cases "lWrap L' a") (auto simp: same_books_def)
    then show ?thesis using Some by (simp add: held_def staked_with_def wrapper_tokens_def staked_in_def)
  qed
  then show ?thesis using s by (simp add: total_tokens_def same_books_def fun_eq_iff)
qed

lemma first_election_ledger:
  assumes "db_inv B db" "SetValidatorFirstElectionEpoch B db a e = Inr db'"
  shows "db_inv B db' \<and> ledger B db' = ledger B db"
proof -
  have ok: "trie_ok B" "db_ok db" using assms(1) by (auto simp: db_inv_def)
  let ?db = "SetState B db a (FirstElectionEpochKey B) (word_of_int e)"
  note f = SetState_effect [OF ok(2), of B a "FirstElectionEpochKey B" "word_of_int e"]
  have "ledger B ?db = ledger B db" using f ok(1) by (auto simp: ledger_def wrapper_at_eq fun_eq_iff trie_ok_def)
  moreover have "db_inv B ?db" using SetState_journaled [OF ok(2)] assms(1) f(4) by (simp add: db_inv_def journaled_def)
  ultimately show ?thesis using assms by (auto simp: SetValidatorFirstElectionEpoch_def split: if_splits)
qed

lemma books_of_put:
  assumes "lWrap (ledger B db) a = Some w" "db_inv B db'" "ledger B db' = put_wrap a w' (ledger B db)"
    "Delegations w' = Delegations w" "LastEpochInCommittee (theValidator w') = LastEpochInCommittee (theValidator w)"
  shows "db_inv B db' \<and> same_books (ledger B db) (ledger B db')
    \<and> (\<forall>x w'. lWrap (ledger B db') x = Some w' \<longrightarrow> (\<exists>w. lWrap (ledger B db) x = Some w \<and> LastEpochInCommittee (theValidator w') = LastEpochInCommittee (theValidator w)))"
  using assms(2) same_books_put [OF assms(1,4)] assms(1,5) unfolding assms(3) by (simp split: if_splits)

lemma raise_max_rate_shape:
  assumes "raise_max_rate isTop r w = Inr w'"
  shows "w' = w \<or> (\<exists>x. w' = w\<lparr>theValidator := set_max_rate x (theValidator w)\<rparr>)"
proof -
  obtain b x where "w' = (if b then w\<lparr>theValidator := set_max_rate x (theValidator w)\<rparr> else w)"
    using assms unfolding raise_max_rate_def Let_def go_bind_eq_Inr by (elim exE conjE) (drule sym, simp)
  then show ?thesis by (cases b) (simp_all, blast)
qed

lemma max_fee_books:
  assumes "db_inv B db" "UpdateMaxCommissionFee B isTop db a r = Inr db'"
  shows "db_inv B db' \<and> same_books (ledger B db) (ledger B db')
    \<and> (\<forall>x w'. lWrap (ledger B db') x = Some w' \<longrightarrow> (\<exists>w. lWrap (ledger B db) x = Some w \<and> LastEpochInCommittee (theValidator w') = LastEpochInCommittee (theValidator w)))"
proof -
  obtain w w' where w: "lWrap (ledger B db) a = Some w" "raise_max_rate isTop r w = Inr w'" "db_inv B db'" "ledger B db' = put_wrap a w' (ledger B db)"
    using with_original_ok [OF assms(1), of a "raise_max_rate isTop r" db'] assms(2) by (auto simp: UpdateMaxCommissionFee_def)
  have k: "Delegations w' = Delegations w" "LastEpochInCommittee (theValidator w') = LastEpochInCommittee (theValidator w)"
    using raise_max_rate_shape [OF w(2)] by (auto simp: set_max_rate_def)
  from books_of_put [OF w(1,3,4) k] show ?thesis .
qed

lemma min_fee_books:
  assumes "db_inv B db" "update_min_fee B cfg e r db a = Inr db'"
  shows "db_inv B db' \<and> same_books (ledger B db) (ledger B db')
    \<and> (\<forall>x w'. lWrap (ledger B db') x = Some w' \<longrightarrow> (\<exists>w. lWrap (ledger B db) x = Some w \<and> LastEpochInCommittee (theValidator w') = LastEpochInCommittee (theValidator w)))"
proof -
  obtain p b where u: "UpdateMinimumCommissionFee B e db a r p = Inr (b, db')" using assms(2) by (auto simp: update_min_fee_def)
  obtain w w' where w: "lWrap (ledger B db) a = Some w" "db_inv B db'" "ledger B db' = put_wrap a w' (ledger B db)"
    "if b then (\<exists>x. Rate (rates_of w) = Some x \<and> x < r) \<and> w' = w\<lparr>theValidator := set_rate (Some \<bar>r\<bar>) (theValidator w)\<rparr> else w' = w"
    using UpdateMinimumCommissionFee_ledger [OF assms(1) u] by blast
  have k: "Delegations w' = Delegations w" "LastEpochInCommittee (theValidator w') = LastEpochInCommittee (theValidator w)"
    using w(4) by (auto simp: set_rate_def split: if_splits)
  from books_of_put [OF w(1-3) k] show ?thesis .
qed

text \<open>What holds between two states of the loops: the books, and the election epoch of the elected.\<close>

definition elect_inv :: "backend \<Rightarrow> DB \<Rightarrow> int \<Rightarrow> Address set \<Rightarrow> DB \<Rightarrow> bool" where
  "elect_inv B db0 e done db \<longleftrightarrow> db_inv B db \<and> same_books (ledger B db0) (ledger B db)
     \<and> (\<forall>a\<in>done. \<exists>w. lWrap (ledger B db) a = Some w \<and> LastEpochInCommittee (theValidator w) = e)"

lemma elect_inv_keep:
  assumes "elect_inv B db0 e A db" "db_inv B db' \<and> same_books (ledger B db) (ledger B db')
    \<and> (\<forall>x w'. lWrap (ledger B db') x = Some w' \<longrightarrow> (\<exists>w. lWrap (ledger B db) x = Some w \<and> LastEpochInCommittee (theValidator w') = LastEpochInCommittee (theValidator w)))"
  shows "elect_inv B db0 e A db'"
  unfolding elect_inv_def
proof (intro conjI ballI)
  show "db_inv B db'" "same_books (ledger B db0) (ledger B db')" using assms same_books_trans by (auto simp: elect_inv_def)
  fix a assume "a \<in> A"
  then obtain w where w: "lWrap (ledger B db) a = Some w" "LastEpochInCommittee (theValidator w) = e" using assms(1) by (auto simp: elect_inv_def)
  then obtain w' where "lWrap (ledger B db') a = Some w'" using assms(2) by (cases "lWrap (ledger B db') a") (auto simp: same_books_def)
  then show "\<exists>w. lWrap (ledger B db') a = Some w \<and> LastEpochInCommittee (theValidator w) = e" using assms(2) w by force
qed

lemma elect_validator_inv:
  assumes "elect_inv B db0 e A db" "elect_validator B cfg e r db a = Inr db'"
  shows "elect_inv B db0 e (insert a A) db'"
proof -
  obtain db1 where 1: "set_last_epoch B e db a = Inr db1" using assms(2) by (auto simp: elect_validator_def)
  have inv: "db_inv B db" using assms(1) by (simp add: elect_inv_def)
  obtain w where w: "lWrap (ledger B db) a = Some w" "db_inv B db1"
    "ledger B db1 = put_wrap a (w\<lparr>theValidator := (theValidator w)\<lparr>LastEpochInCommittee := e\<rparr>\<rparr>) (ledger B db)"
    using set_last_epoch_ledger [OF inv 1] by blast
  have i1: "elect_inv B db0 e (insert a A) db1"
    using assms(1) w same_books_trans [OF _ same_books_put [OF w(1)], of "ledger B db0" "w\<lparr>theValidator := (theValidator w)\<lparr>LastEpochInCommittee := e\<rparr>\<rparr>"]
    by (auto simp: elect_inv_def)
  show ?thesis
  proof (cases "Equal r ZeroDec")
    case True
    then show ?thesis using assms(2) 1 i1 by (simp add: elect_validator_def)
  next
    case False
    then obtain db2 where 2: "SetValidatorFirstElectionEpoch B db1 a e = Inr db2" "update_min_fee B cfg e r db2 a = Inr db'"
      using assms(2) 1 by (auto simp: elect_validator_def)
    have f: "db_inv B db2 \<and> ledger B db2 = ledger B db1" by (rule first_election_ledger [OF w(2) 2(1)])
    then have "elect_inv B db0 e (insert a A) db2" using i1 by (simp add: elect_inv_def)
    then show ?thesis by (rule elect_inv_keep) (use min_fee_books [OF _ 2(2)] f in blast)
  qed
qed

lemma go_fold_keep:
  assumes "P s" "go_fold f s xs = Inr s'" "\<And>s x s'. P s \<Longrightarrow> f s x = Inr s' \<Longrightarrow> P s'"
  shows "P s'"
  using assms(1,2) by (induction xs arbitrary: s) (auto dest: assms(3))

lemma guarded_fold_keep:
  assumes "P s" "(if b then go_fold f s xs else Inr s) = Inr s'" "\<And>s x s'. P s \<Longrightarrow> f s x = Inr s' \<Longrightarrow> P s'"
  shows "P s'"
proof (cases b)
  case True
  then show ?thesis using assms(2) go_fold_keep [where P = P, OF assms(1) _ assms(3)] by simp
qed (use assms(1,2) in simp)

lemma elect_all:
  assumes "elect_inv B db0 e A db" "go_fold (elect_validator B cfg e r) db as = Inr db'"
  shows "elect_inv B db0 e (A \<union> set as) db'"
  using assms
proof (induction as arbitrary: A db)
  case (Cons a as)
  then obtain db1 where 1: "elect_validator B cfg e r db a = Inr db1" "go_fold (elect_validator B cfg e r) db1 as = Inr db'" by auto
  from Cons.IH [OF elect_validator_inv [OF Cons.prems(1) 1(1)] 1(2)] show ?case by (simp add: insert_commute)
qed simp

text \<open>
  Setting the election epoch and the commissions at the end of an epoch touches no balance, no
  stake and no token of any delegation; every validator of the new committees carries the new
  epoch afterwards.
\<close>

theorem setElectionEpochAndMinFee_keeps_books:
  assumes "db_inv B db" "bhShardState header = Inr ss" "Epoch ss = Some e" "State_StakedValidators ss = Inr stk"
    "setElectionEpochAndMinFee chain B header db cfg = Inr db'"
  shows "same_books (ledger B db) (ledger B db') \<and> total_tokens (ledger B db') = total_tokens (ledger B db)
    \<and> (\<forall>a\<in>set (Addrs stk). \<exists>w. lWrap (ledger B db') a = Some w \<and> LastEpochInCommittee (theValidator w) = e)"
proof -
  let ?A = "set (Addrs stk)"
  let ?I = "elect_inv B db e ?A"
  obtain r where r: "MinCommissionRate (IsMinCommissionRate cfg (Some e)) (IsHIP30 cfg (Some e)) = Inr r"
    using assms(2,3,5) by (auto simp: setElectionEpochAndMinFee_def Let_def)
  let ?top = "IsTopMaxRate cfg (Some e)"
  let ?max = "\<lambda>db addr. UpdateMaxCommissionFee B ?top db addr r"
  let ?min = "\<lambda>db addr. if addr \<in> ?A then Inr db else update_min_fee B cfg e r db addr"
  obtain db1 db2 db3 where d: "go_fold (elect_validator B cfg e r) db (Addrs stk) = Inr db1"
    "(if IsMaxRate cfg (Some e) then go_fold ?max db1 (fcCandidates chain) else Inr db1) = Inr db2"
    "(if IsHIP30 cfg (Some e) \<and> \<not> Equal r ZeroDec then go_fold ?min db2 (fcCandidates chain) else Inr db2) = Inr db3"
    "(if IsMaxRate cfg (Some e) \<and> \<not> Equal r ZeroDec then go_fold ?max db3 (fcCandidates chain) else Inr db3) = Inr db'"
    using assms(2-5) r by (auto simp: setElectionEpochAndMinFee_def Let_def cong: if_cong)
  have max: "?I s \<Longrightarrow> ?max s x = Inr s' \<Longrightarrow> ?I s'" for s x s'
    by (rule elect_inv_keep, assumption, rule max_fee_books) (simp_all add: elect_inv_def)
  have low: "?I s \<Longrightarrow> update_min_fee B cfg e r s x = Inr s' \<Longrightarrow> ?I s'" for s x s'
    by (rule elect_inv_keep, assumption, rule min_fee_books) (simp_all add: elect_inv_def)
  have min: "?I s \<Longrightarrow> ?min s x = Inr s' \<Longrightarrow> ?I s'" for s x s'
    using low [of s x s'] by (simp split: if_splits)
  have "elect_inv B db e {} db" using assms(1) same_books_refl by (simp add: elect_inv_def)
  from elect_all [OF this d(1)] have "?I db1" by simp
  then have "?I db2" by (rule guarded_fold_keep [OF _ d(2)]) (rule max)
  then have "?I db3" by (rule guarded_fold_keep [OF _ d(3)]) (rule min)
  then have "?I db'" by (rule guarded_fold_keep [OF _ d(4)]) (rule max)
  then show ?thesis using same_books_total [of "ledger B db" "ledger B db'"] by (simp add: elect_inv_def)
qed

definition sample_elects :: State where
  "sample_elects = \<lparr>Epoch = Some 13, Shards = [\<lparr>ShardID = 0, Slots = [sample_slot 9 4 (Some 5)]\<rparr>]\<rparr>"

theorem setElectionEpochAndMinFee_keeps_books_witness:
  "\<exists>db'. setElectionEpochAndMinFee sample_final sample_backend (sample_parent\<lparr>bhShardState := Inr sample_elects\<rparr>) sample_staking MainnetChainConfig = Inr db'
     \<and> total_tokens (ledger sample_backend db') = total_tokens (ledger sample_backend sample_staking)
     \<and> (\<exists>w. lWrap (ledger sample_backend db') 9 = Some w \<and> LastEpochInCommittee (theValidator w) = 13)"
proof -
  let ?h = "sample_parent\<lparr>bhShardState := Inr sample_elects\<rparr>"
  obtain stk where stk: "State_StakedValidators sample_elects = Inr stk" "Addrs stk = [9]"
    by (simp add: State_StakedValidators_def sample_elects_def count_slot_def no_StakedSlots_def sample_slot_def ZeroDec_def Let_def fitsDec_iff)
  have cfg: "\<not> IsMaxRate MainnetChainConfig (Some 13)" "\<not> IsHIP30 MainnetChainConfig (Some 13)" "\<not> IsMinCommissionRate MainnetChainConfig (Some 13)"
    by (simp_all add: IsMaxRate_def IsHIP30_def IsMinCommissionRate_def isForked_def MainnetChainConfig_def)
  have w: "lWrap (ledger sample_backend sample_staking) 9 = Some sample_wrapper" by (simp add: sample_staking_ledger)
  obtain db1 where 1: "set_last_epoch sample_backend 13 sample_staking 9 = Inr db1"
    using with_original_total [OF sample_staking_ok(1) w, of "\<lambda>w. Inr (w\<lparr>theValidator := (theValidator w)\<lparr>LastEpochInCommittee := 13\<rparr>\<rparr>)"]
    by (auto simp: set_last_epoch_def)
  have run: "setElectionEpochAndMinFee sample_final sample_backend ?h sample_staking MainnetChainConfig = Inr db1"
    using stk cfg 1 by (simp add: setElectionEpochAndMinFee_def sample_elects_def MinCommissionRate_def elect_validator_def Equal_def Let_def)
  have e: "Epoch sample_elects = Some 13" "bhShardState ?h = Inr sample_elects" by (simp_all add: sample_elects_def)
  show ?thesis using setElectionEpochAndMinFee_keeps_books [OF sample_staking_ok(1) e(2,1) stk(1) run] run stk(2) by auto
qed

end
