(* ===== verification/Processor.thy ===== *)
theory Processor
  imports Flush Machine Finalize
begin

text \<open>
  Processing a block (\<open>core/state_processor.go\<close>): its transactions and staking transactions, the receipts
  that arrive from other shards, the reduction of the number of shards and the migration of balances
  between shards. A transaction is the record of what its accessors return; the recovery of the sender
  from a signature, the writes into the tries with their root hash and the iteration over a trie are
  parameters.
\<close>

section \<open>Transactions and receipts\<close>

record Tx =
  txHash :: Hash
  txHashByType :: Hash
  txChainID :: int
  txNonce :: uint64
  txGasPrice :: int
  txGasLimit :: uint64
  txShardID :: uint32
  txToShardID :: uint32
  txRecipient :: "Address option"
  txAmount :: int
  txPayload :: bytes

datatype Signer = EIP155Signer "int option" | FrontierSigner

definition MakeSigner :: "ChainConfig \<Rightarrow> int \<Rightarrow> Signer" where
  "MakeSigner config epoch = (if IsEIP155 config (Some epoch) then EIP155Signer (ChainID config) else FrontierSigner)"

definition AsMessage :: "(Signer \<Rightarrow> Tx \<Rightarrow> Address go) \<Rightarrow> Tx \<Rightarrow> Signer \<Rightarrow> Message go" where
  "AsMessage Sender tx signer =
     go_bind (Sender signer tx) (\<lambda>from.
       Inr \<lparr>msgFrom = from, msgTo = txRecipient tx, msgGasPrice = txGasPrice tx, msgGas = txGasLimit tx, msgValue = txAmount tx,
            msgNonce = txNonce tx, msgCheckNonce = True, msgData = txPayload tx, msgType = SameShardTx\<rparr>)"

record Receipt =
  PostState :: "Hash option"
  rcStatus :: uint64
  CumulativeGasUsed :: uint64
  rcLogs :: "Log list"
  rcTxHash :: Hash
  ContractAddress :: Address
  GasUsed :: uint64

definition NewReceipt :: "Hash option \<Rightarrow> bool \<Rightarrow> uint64 \<Rightarrow> Receipt" where
  "NewReceipt root failed cumulativeGasUsed =
     \<lparr>PostState = root, rcStatus = (if failed then 0 else 1), CumulativeGasUsed = cumulativeGasUsed, rcLogs = [],
      rcTxHash = 0, ContractAddress = 0, GasUsed = 0\<rparr>"

text \<open>The state root: the tries are written and hashed by \<open>hashTries\<close>.\<close>

definition IntermediateRoot :: "map_order \<Rightarrow> (DB \<Rightarrow> Hash \<times> DB) \<Rightarrow> backend \<Rightarrow> DB \<Rightarrow> bool \<Rightarrow> (Hash \<times> DB) go" where
  "IntermediateRoot visit hashTries B db deleteEmptyObjects =
     go_bind (Finalise visit B db deleteEmptyObjects) (\<lambda>db.
       case hashTries db of (root, db) \<Rightarrow> Inr (root, db\<lparr>stateObjectsPending := {}\<rparr>))"

text \<open>The logs of a transaction get the number and the hash of the block, in place.\<close>

definition GetLogs :: "DB \<Rightarrow> Hash \<Rightarrow> uint64 \<Rightarrow> Hash \<Rightarrow> Log list \<times> DB" where
  "GetLogs db h blockNumber blockHash =
     (case logs db h of
        None \<Rightarrow> ([], db)
      | Some ls \<Rightarrow>
          let ls = map (\<lambda>l. l\<lparr>BlockNumber := blockNumber, BlockHash := blockHash\<rparr>) ls
          in (ls, db\<lparr>logs := (logs db)(h \<mapsto> ls)\<rparr>))"

definition Prepare :: "DB \<Rightarrow> Hash \<Rightarrow> Hash \<Rightarrow> int \<Rightarrow> DB" where
  "Prepare db th bh ti = db\<lparr>thash := th, bhash := bh, txIndex := ti\<rparr>"

text \<open>What the processor of a chain knows: its configuration, and the parameters of the machine and the state.\<close>

record 'pk processor =
  pConfig :: ChainConfig
  pInstance :: "int \<Rightarrow> 'pk Instance"
  pShardID :: uint32
  pSender :: "Signer \<Rightarrow> Tx \<Rightarrow> Address go"
  pRun :: "Contract \<Rightarrow> bytes \<Rightarrow> bool \<Rightarrow> DB \<Rightarrow> RunResult"
  pCreateAddress :: "Address \<Rightarrow> uint64 \<Rightarrow> Address"
  pVisit :: map_order
  pHashTries :: "DB \<Rightarrow> Hash \<times> DB"

definition NewEVMContext :: "'pk processor \<Rightarrow> BlockHeader \<Rightarrow> Address option \<Rightarrow> 'pk EVM" where
  "NewEVMContext P header author =
     \<lparr>evConfig = pConfig P, evEpoch = hEpoch header, evCoinbase = (case author of None \<Rightarrow> 0 | Some a \<Rightarrow> a),
      evTxType = SameShardTx, evInstance = pInstance P, evDepth = 0, evNoRecursion = False, evRun = pRun P,
      evCreateAddress = pCreateAddress P\<rparr>"

section \<open>Applying transactions\<close>

definition getTransactionType :: "'pk processor \<Rightarrow> BlockHeader \<Rightarrow> Tx \<Rightarrow> TransactionType go" where
  "getTransactionType P header tx =
     (let cross = (if txShardID tx \<noteq> txToShardID tx \<and> bhShardID header = txShardID tx
                      \<and> txToShardID tx < numShards (pInstance P (hEpoch header))
                   then SubtractionOnly else InvalidTx)
      in if bhShardID header = txShardID tx
         then go_bind (AcceptsCrossTx (pConfig P) (Some (hEpoch header))) (\<lambda>accepts.
                Inr (if \<not> accepts \<or> txShardID tx = txToShardID tx then SameShardTx else cross))
         else Inr cross)"

text \<open>The end of a transaction: from epoch S3 on only the journal is closed, before that the root goes into the receipt.\<close>

definition close_transaction :: "'pk processor \<Rightarrow> backend \<Rightarrow> BlockHeader \<Rightarrow> DB \<Rightarrow> (Hash option \<times> DB) go" where
  "close_transaction P B header db =
     (if IsS3 (pConfig P) (Some (hEpoch header))
      then go_bind (Finalise (pVisit P) B db True) (\<lambda>db. Inr (None, db))
      else go_bind (IntermediateRoot (pVisit P) (pHashTries P) B db False) (\<lambda>(root, db). Inr (Some root, db)))"

definition receipt_logs :: "'pk processor \<Rightarrow> BlockHeader \<Rightarrow> DB \<Rightarrow> Hash \<Rightarrow> Log list \<times> DB" where
  "receipt_logs P header db h =
     (if IsReceiptLog (pConfig P) (Some (hEpoch header)) then GetLogs db h (NumberU64 header) (bhHash header) else ([], db))"

definition cross_receipt :: "TransactionType \<Rightarrow> Tx \<Rightarrow> Message \<Rightarrow> ExecutionResult \<Rightarrow> CXReceipt option go" where
  "cross_receipt txType tx msg result =
     (if txType = SubtractionOnly \<and> VMErr result = None
      then if exCX result \<noteq> None then Inl (Error ''cannot have cross shard receipt via precompile and directly'')
           else Inr (Some \<lparr>cxTxHash = txHash tx, cxFrom = msgFrom msg, cxTo = msgTo msg, cxShardID = txShardID tx,
                           cxToShardID = txToShardID tx, cxAmount = msgValue msg\<rparr>)
      else Inr (if VMErr result = None then map_option (\<lambda>cx. cx\<lparr>cxTxHash := txHashByType tx\<rparr>) (exCX result) else None))"

record applied =
  apReceipt :: Receipt
  apCX :: "CXReceipt option"
  apUsedGas :: uint64
  apGp :: uint64
  apDB :: DB

definition finish_transaction ::
  "'pk processor \<Rightarrow> backend \<Rightarrow> BlockHeader \<Rightarrow> Tx \<Rightarrow> uint64 \<Rightarrow> TransactionType \<Rightarrow> Message \<Rightarrow> ExecutionResult \<Rightarrow> StateTransition \<Rightarrow> applied go" where
  "finish_transaction P B header tx usedGas txType msg result st =
     go_bind (close_transaction P B header (stDB st)) (\<lambda>(root, db).
     let usedGas = usedGas + UsedGas result;
         receipt = (NewReceipt root (VMErr result \<noteq> None) usedGas)\<lparr>rcTxHash := txHash tx, GasUsed := UsedGas result,
                      ContractAddress := (if msgTo msg = None then pCreateAddress P (msgFrom msg) (txNonce tx) else 0)\<rparr>
     in case receipt_logs P header db (txHash tx) of (ls, db) \<Rightarrow>
        go_bind (cross_receipt txType tx msg result) (\<lambda>cx.
          Inr \<lparr>apReceipt = receipt\<lparr>rcLogs := ls\<rparr>, apCX = cx, apUsedGas = usedGas, apGp = stGp st, apDB = db\<rparr>))"

definition ApplyTransaction ::
  "'pk processor \<Rightarrow> backend \<Rightarrow> Address option \<Rightarrow> uint64 \<Rightarrow> DB \<Rightarrow> BlockHeader \<Rightarrow> Tx \<Rightarrow> uint64 \<Rightarrow> applied go" where
  "ApplyTransaction P B author gp db header tx usedGas =
     go_bind (getTransactionType P header tx) (\<lambda>txType.
     if txType = InvalidTx then Inl (Error ''Invalid Transaction Type'')
     else go_bind (AcceptsCrossTx (pConfig P) (Some (hEpoch header))) (\<lambda>accepts.
     if txType \<noteq> SameShardTx \<and> \<not> accepts then Inl (Error ''cannot handle cross-shard transaction'')
     else if IsEthCompatible_chainID (txChainID tx) \<and> \<not> IsEthCompatible (pConfig P) (Some (hEpoch header))
     then Inl (Error ''ethereum compatible transactions not supported at current epoch'')
     else go_bind (AsMessage (pSender P) tx
                (if IsEthCompatible_chainID (txChainID tx) then EIP155Signer (EthCompatibleChainID (pConfig P))
                 else MakeSigner (pConfig P) (hEpoch header))) (\<lambda>msg.
     go_bind (TransitionDb ((NewEVMContext P header author)\<lparr>evTxType := txType\<rparr>) B msg (NewStateTransition db gp)) (\<lambda>(result, st).
       finish_transaction P B header tx usedGas txType msg result st))))"

text \<open>Receipts from another shard; the proof that came with them was verified before.\<close>

definition apply_receipt :: "'pk processor \<Rightarrow> backend \<Rightarrow> BlockHeader \<Rightarrow> DB \<Rightarrow> CXReceipt option \<Rightarrow> DB go" where
  "apply_receipt P B header db r =
     (case r of
        Some cx \<Rightarrow>
          (case cxTo cx of
             Some to \<Rightarrow>
               let db = (if \<not> Exist B db to then CreateAccount B db to else db);
                   db = AddBalance B db to (cxAmount cx)
               in go_bind (IntermediateRoot (pVisit P) (pHashTries P) B db (IsS3 (pConfig P) (Some (hEpoch header)))) (\<lambda>(_, db). Inr db)
           | None \<Rightarrow> Inl (Error ''ApplyIncomingReceipts: Invalid incomingReceipt!''))
      | None \<Rightarrow> Inl (Error ''ApplyIncomingReceipts: Invalid incomingReceipt!''))"

definition ApplyIncomingReceipt :: "'pk processor \<Rightarrow> backend \<Rightarrow> DB \<Rightarrow> BlockHeader \<Rightarrow> CXReceipt option list option \<Rightarrow> DB go" where
  "ApplyIncomingReceipt P B db header cxp =
     (case cxp of None \<Rightarrow> Inr db | Some receipts \<Rightarrow> go_fold (apply_receipt P B header) db receipts)"

section \<open>Closing a transaction\<close>

text \<open>A state whose books are in order: readable, every wrapper within the checks, every validator in place.\<close>

definition in_order :: "backend \<Rightarrow> DB \<Rightarrow> bool" where
  "in_order B db \<longleftrightarrow> db_inv B db \<and> ledger_ok (ledger B db) \<and> solid B db"

text \<open>Writing the tries changes no account.\<close>

definition tries_law :: "backend \<Rightarrow> (DB \<Rightarrow> Hash \<times> DB) \<Rightarrow> bool" where
  "tries_law B hashTries \<longleftrightarrow> (\<forall>db. db_ok db \<longrightarrow> pays B (\<lambda>_. 0) db (snd (hashTries db))
     \<and> (\<forall>a s'. live_obj B (snd (hashTries db)) a = Some s' \<longrightarrow>
          (\<exists>s. live_obj B db a = Some s \<and> suicided s' = suicided s \<and> CodeHash (data s') = CodeHash (data s))))"

definition state_laws :: "'pk processor \<Rightarrow> backend \<Rightarrow> bool" where
  "state_laws P B \<longleftrightarrow> visits_all (pVisit P) \<and> tries_law B (pHashTries P) \<and> code_law B"

text \<open>The same books, but what destroyed itself holds nothing.\<close>

definition swept :: "backend \<Rightarrow> DB \<Rightarrow> DB \<Rightarrow> bool" where
  "swept B db db' \<longleftrightarrow> in_order B db' \<and> lWrap (ledger B db') = lWrap (ledger B db)
     \<and> (\<forall>a. HasSuicided B db' a \<longrightarrow> HasSuicided B db a)
     \<and> (\<forall>a. lBal (ledger B db') a = lBal (ledger B db) a \<or> HasSuicided B db a \<and> lBal (ledger B db') a = 0)"

lemma Finalise_swept:
  assumes "state_laws P B" "in_order B db" "Finalise (pVisit P) B db del = Inr db'"
  shows "swept B db db'"
  using Finalise_ledger [OF assms(3)] assms(1,2) by (simp add: state_laws_def in_order_def swept_def)

lemma hashTries_keeps:
  assumes "state_laws P B" "in_order B db"
  shows "swept B db ((snd (pHashTries P db))\<lparr>stateObjectsPending := {}\<rparr>)"
proof -
  let ?db = "snd (pHashTries P db)" and ?db' = "(snd (pHashTries P db))\<lparr>stateObjectsPending := {}\<rparr>"
  have inv: "db_inv B db" "db_ok db" using assms(2) by (simp_all add: in_order_def db_inv_def)
  then have p: "pays B (\<lambda>_. 0) db ?db" and l: "\<And>a s'. live_obj B ?db a = Some s' \<Longrightarrow> \<exists>s. live_obj B db a = Some s \<and> suicided s' = suicided s \<and> CodeHash (data s') = CodeHash (data s)"
    using assms(1) by (auto simp: state_laws_def tries_law_def)
  have e: "live_obj B ?db' = live_obj B ?db" by (simp add: live_obj_def obj_at_def fun_eq_iff)
  have q: "pays B (\<lambda>_. 0) db ?db'" using p by (simp add: pays_def fun_eq_iff read_live GetNonce_live e db_ok_def cong: option.case_cong)
  note g = pays_ledger [OF q inv(1)]
  have w: "lWrap (ledger B ?db') = lWrap (ledger B db)" by (rule g(2))
  have sv: "stateValidators ?db' = stateValidators db" using q by (simp add: pays_def)
  have "\<not> suicided s' \<and> (stateValidators ?db' a \<noteq> None \<or> CodeHash (data s') \<noteq> EmptyCodeHash B)"
    if s': "live_obj B ?db' a = Some s'" "lWrap (ledger B ?db') a \<noteq> None" for a s'
  proof -
    obtain s where s: "live_obj B db a = Some s" "suicided s' = suicided s" "CodeHash (data s') = CodeHash (data s)" using l [of a s'] s'(1) e by auto
    have "lWrap (ledger B db) a \<noteq> None" using s'(2) w by simp
    then have "\<not> suicided s \<and> (stateValidators db a \<noteq> None \<or> CodeHash (data s) \<noteq> EmptyCodeHash B)"
      using assms(2) s(1) unfolding in_order_def solid_def by blast
    then show ?thesis using s(2,3) sv by simp
  qed
  then have "solid B ?db'" unfolding solid_def by blast
  then have "in_order B ?db'" using g(1) pays_keeps(1) [OF q inv(1)] assms(2) by (simp add: in_order_def)
  moreover have "HasSuicided B ?db' a \<Longrightarrow> HasSuicided B db a" for a using l [of a] e by (auto simp: HasSuicided_live split: option.splits)
  moreover have "lBal (ledger B ?db') a = lBal (ledger B db) a" for a using pays_keeps(4) [OF q inv(1)] assms(2) by (simp add: in_order_def)
  ultimately show ?thesis using w by (simp add: swept_def)
qed

lemma swept_trans: "swept B db db1 \<Longrightarrow> swept B db1 db2 \<Longrightarrow> swept B db db2"
  unfolding swept_def by metis

lemma swept_exact:
  assumes "swept B db db'" "\<forall>a. \<not> HasSuicided B db a"
  shows "in_order B db'" "\<forall>a. \<not> HasSuicided B db' a" "lWrap (ledger B db') = lWrap (ledger B db)" "lBal (ledger B db') = lBal (ledger B db)"
  using assms by (auto simp: swept_def)

lemma swept_total:
  assumes "swept B db db'" "\<forall>a. 0 \<le> lBal (ledger B db) a"
  shows "total_tokens (ledger B db') \<le> total_tokens (ledger B db)" "\<forall>a. 0 \<le> lBal (ledger B db') a"
proof -
  have b: "0 \<le> lBal (ledger B db') a \<and> lBal (ledger B db') a \<le> lBal (ledger B db) a" for a
    using assms unfolding swept_def by (metis order_refl)
  then show "\<forall>a. 0 \<le> lBal (ledger B db') a" by simp
  show "total_tokens (ledger B db') \<le> total_tokens (ledger B db)"
    using b assms(1) by (auto simp: total_tokens_def held_def swept_def intro!: sum_mono)
qed

lemma IntermediateRoot_swept:
  assumes "state_laws P B" "in_order B db" "IntermediateRoot (pVisit P) (pHashTries P) B db del = Inr (root, db')"
  shows "swept B db db'"
proof -
  obtain db1 where 1: "Finalise (pVisit P) B db del = Inr db1" "db' = (snd (pHashTries P db1))\<lparr>stateObjectsPending := {}\<rparr>"
    using assms(3) by (auto simp: IntermediateRoot_def case_prod_unfold)
  have s: "swept B db db1" by (rule Finalise_swept [OF assms(1,2) 1(1)])
  then show ?thesis using swept_trans [OF s hashTries_keeps [OF assms(1), of db1]] 1(2) by (simp add: swept_def)
qed

lemma IntermediateRoot_total:
  assumes "state_laws P B" "in_order B db"
  shows "\<exists>root db'. IntermediateRoot (pVisit P) (pHashTries P) B db del = Inr (root, db')"
proof -
  obtain db1 where "Finalise (pVisit P) B db del = Inr db1"
    using Finalise_total [of B db "pVisit P" del] assms by (auto simp: state_laws_def in_order_def)
  then show ?thesis by (cases "pHashTries P db1") (simp add: IntermediateRoot_def)
qed

section \<open>Receipts from other shards\<close>

lemma in_order_ops:
  assumes "in_order B db"
  shows "in_order B (AddBalance B db a x)" "in_order B (SubBalance B db a x)" "in_order B (SetNonce B db a n)"
    "Snapshot db = (revid, db1) \<Longrightarrow> in_order B db1" "\<not> Exist B db a \<Longrightarrow> in_order B (CreateAccount B db a)"
proof -
  have inv: "db_inv B db" "db_ok db" "trie_ok B" "ledger_ok (ledger B db)" "solid B db" using assms by (simp_all add: in_order_def db_inv_def)
  note s = solid_ops [OF inv(5,1)]
  have p: "in_order B db'" if "pays B f db db'" "solid B db'" for f db'
    using that pays_ledger(1) [OF that(1) inv(1)] pays_keeps(1) [OF that(1) inv(1,4)] by (simp add: in_order_def)
  show "in_order B (AddBalance B db a x)" by (rule p [OF pays_add [OF inv(3,2)] s(1)])
  show "in_order B (SubBalance B db a x)" by (rule p [OF pays_sub [OF inv(3,2)] s(2)])
  show "in_order B (SetNonce B db a n)" using SetNonce_ledger [OF inv(1)] s(3) inv(4) by (simp add: in_order_def)
  show "Snapshot db = (revid, db1) \<Longrightarrow> in_order B db1" using p Snapshot_pays [OF inv(2)] s(4) by blast
  show "\<not> Exist B db a \<Longrightarrow> in_order B (CreateAccount B db a)" using p CreateAccount_pays [OF inv(2,3)] s(5) by blast
qed

lemma alive_ops:
  assumes "db_ok db" "\<forall>a. \<not> HasSuicided B db a"
  shows "\<not> HasSuicided B (AddBalance B db a x) b" "\<not> Exist B db a \<Longrightarrow> \<not> HasSuicided B (CreateAccount B db a) b"
proof -
  have no: "live_obj B db a = Some s \<Longrightarrow> \<not> suicided s" for a s using assms(2) by (metis HasSuicided_live option.simps(5))
  obtain s1 s2 where b: "live_obj B (AddBalance B db a x) = (live_obj B db)(a \<mapsto> s1)" "live_obj B (SubBalance B db a x) = (live_obj B db)(a \<mapsto> s2)"
    "\<forall>s\<in>{s1, s2}. case live_obj B db a of Some s0 \<Rightarrow> suicided s = suicided s0 \<and> CodeHash (data s) = CodeHash (data s0) | None \<Rightarrow> \<not> suicided s"
    by (rule balance_live [OF assms(1)])
  then have "\<not> suicided s1" using no by (cases "live_obj B db a") auto
  then show "\<not> HasSuicided B (AddBalance B db a x) b" using b(1) assms(2) by (auto simp: HasSuicided_live)
  show "\<not> HasSuicided B (CreateAccount B db a) b" if "\<not> Exist B db a"
  proof -
    obtain n p db1 where c: "createObject B db a = (n, p, db1)" by (metis prod_cases3)
    have none: "live_obj B db a = None" using that by (simp add: Exist_def getStateObject_live)
    then have "p = None" using c
      by (auto simp: createObject_def getDeletedStateObject_def live_obj_def obj_at_def Let_def split: option.splits if_splits)
    then have "CreateAccount B db a = db1" by (simp add: CreateAccount_def c)
    then show ?thesis using createObject_live(1) [OF c] createObject_live(2) [OF c, of b] assms(2) by (simp add: HasSuicided_live newObject_def)
  qed
qed

lemma apply_receipt_credits:
  assumes "state_laws P B" "in_order B db" "\<forall>a. \<not> HasSuicided B db a" "cxTo cx = Some to"
  shows "\<exists>db'. apply_receipt P B header db (Some cx) = Inr db' \<and> in_order B db' \<and> (\<forall>a. \<not> HasSuicided B db' a)
    \<and> ledger B db' = (ledger B db)\<lparr>lBal := (\<lambda>a. lBal (ledger B db) a + at_only to (cxAmount cx) a), lFlag := lFlag (ledger B db')\<rparr>"
proof -
  let ?db1 = "if \<not> Exist B db to then CreateAccount B db to else db"
  let ?db2 = "AddBalance B ?db1 to (cxAmount cx)"
  have inv: "db_inv B db" "db_ok db" "trie_ok B" "ledger_ok (ledger B db)" using assms(2) by (simp_all add: in_order_def db_inv_def)
  have 1: "in_order B ?db1" "\<forall>a. \<not> HasSuicided B ?db1 a" "pays B (\<lambda>_. 0) db ?db1"
    using assms(2,3) in_order_ops(5) [OF assms(2)] alive_ops(2) [OF inv(2) assms(3)] CreateAccount_pays [OF inv(2,3)] pays_none [OF inv(2)] by auto
  have ok1: "db_ok ?db1" using 1(3) unfolding pays_def by blast
  have 2: "in_order B ?db2" "\<forall>a. \<not> HasSuicided B ?db2 a" "pays B (at_only to (cxAmount cx)) db ?db2"
    using in_order_ops(1) [OF 1(1)] alive_ops(1) [OF ok1 1(2)] pays_trans [OF 1(3) pays_add [OF inv(3) ok1]] by auto
  obtain root db' where r: "IntermediateRoot (pVisit P) (pHashTries P) B ?db2 (IsS3 (pConfig P) (Some (hEpoch header))) = Inr (root, db')"
    using IntermediateRoot_total [OF assms(1) 2(1)] by blast
  note s = swept_exact [OF IntermediateRoot_swept [OF assms(1) 2(1) r] 2(2)]
  have "lBal (ledger B db') = (\<lambda>a. lBal (ledger B db) a + at_only to (cxAmount cx) a)" "lWrap (ledger B db') = lWrap (ledger B db)"
    using s(3,4) pays_ledger(2) [OF 2(3) inv(1)] pays_keeps(4) [OF 2(3) inv(1,4)] by (simp_all add: fun_eq_iff)
  moreover have "apply_receipt P B header db (Some cx) = Inr db'" using r assms(4) by (simp add: apply_receipt_def Let_def)
  ultimately show ?thesis using s(1,2) by (intro exI [of _ db']) simp
qed

text \<open>What an account receives of a list of receipts.\<close>

definition received :: "CXReceipt option list \<Rightarrow> Address \<Rightarrow> int" where
  "received rs a = sum_list (map (\<lambda>r. case r of Some cx \<Rightarrow> if cxTo cx = Some a then cxAmount cx else 0 | None \<Rightarrow> 0) rs)"

definition arriving :: "CXReceipt option list \<Rightarrow> int" where
  "arriving rs = sum_list (map (\<lambda>r. case r of Some cx \<Rightarrow> cxAmount cx | None \<Rightarrow> 0) rs)"

definition addressed :: "CXReceipt option \<Rightarrow> bool" where
  "addressed r \<longleftrightarrow> (case r of Some cx \<Rightarrow> cxTo cx \<noteq> None | None \<Rightarrow> False)"

lemma total_credit:
  assumes "lWrap L' = lWrap L" "lBal L' = (\<lambda>a. lBal L a + f a)"
  shows "total_tokens L' = total_tokens L + (\<Sum>a\<in>UNIV. f a)"
  using assms by (simp add: total_tokens_def held_def sum.distrib [symmetric] algebra_simps)

lemma apply_receipts_credit:
  assumes "state_laws P B" "in_order B db" "\<forall>a. \<not> HasSuicided B db a" "\<forall>r\<in>set rs. addressed r"
  shows "\<exists>db'. go_fold (apply_receipt P B header) db rs = Inr db' \<and> in_order B db' \<and> (\<forall>a. \<not> HasSuicided B db' a)
    \<and> lWrap (ledger B db') = lWrap (ledger B db) \<and> lBal (ledger B db') = (\<lambda>a. lBal (ledger B db) a + received rs a)"
  using assms(2-4)
proof (induction rs arbitrary: db)
  case Nil
  then show ?case by (simp add: received_def)
next
  case (Cons r rs)
  obtain cx to where r: "r = Some cx" "cxTo cx = Some to" using Cons.prems(3) by (auto simp: addressed_def split: option.splits)
  obtain db1 where 1: "apply_receipt P B header db r = Inr db1" "in_order B db1" "\<forall>a. \<not> HasSuicided B db1 a"
    "ledger B db1 = (ledger B db)\<lparr>lBal := (\<lambda>a. lBal (ledger B db) a + at_only to (cxAmount cx) a), lFlag := lFlag (ledger B db1)\<rparr>"
    using apply_receipt_credits [OF assms(1) Cons.prems(1,2) r(2)] r(1) by blast
  have l: "lWrap (ledger B db1) = lWrap (ledger B db)" "lBal (ledger B db1) = (\<lambda>a. lBal (ledger B db) a + at_only to (cxAmount cx) a)"
    by (subst 1(4), simp)+
  obtain db2 where 2: "go_fold (apply_receipt P B header) db1 rs = Inr db2" "in_order B db2" "\<forall>a. \<not> HasSuicided B db2 a"
    "lWrap (ledger B db2) = lWrap (ledger B db1)" "lBal (ledger B db2) = (\<lambda>a. lBal (ledger B db1) a + received rs a)"
    using Cons.IH [OF 1(2,3)] Cons.prems(3) by auto
  have "received (r # rs) a = at_only to (cxAmount cx) a + received rs a" for a by (auto simp: received_def r at_only_def)
  then show ?case using 1(1) 2 l by (intro exI [of _ db2]) (simp add: add.assoc)
qed

lemma sum_received: "\<forall>r\<in>set rs. addressed r \<Longrightarrow> (\<Sum>a\<in>UNIV. received rs a) = arriving rs"
  by (induction rs) (auto simp: received_def arriving_def addressed_def sum.distrib split: option.splits)


section \<open>Transfers between shards\<close>

text \<open>What the interpreter promises of the books when it succeeds.\<close>

definition run_sound :: "backend \<Rightarrow> (Contract \<Rightarrow> bytes \<Rightarrow> bool \<Rightarrow> DB \<Rightarrow> RunResult) \<Rightarrow> bool" where
  "run_sound B run \<longleftrightarrow> (\<forall>contract input readOnly db. in_order B db \<longrightarrow> (\<forall>a. 0 \<le> GetBalance B db a) \<longrightarrow> rErr (run contract input readOnly db) = None \<longrightarrow>
     in_order B (rDB (run contract input readOnly db)) \<and> (\<forall>a. 0 \<le> GetBalance B (rDB (run contract input readOnly db)) a))"

lemma enter_call_in_order:
  assumes "in_order B db" "absent \<Longrightarrow> \<not> Exist B db addr"
  shows "in_order B (enter_call evm B db absent caller addr x)"
proof -
  let ?db = "if absent then CreateAccount B db addr else db"
  have 1: "in_order B ?db" using in_order_ops(5) [OF assms(1)] assms by simp
  show ?thesis unfolding enter_call_def Transfer_def Let_def using 1 in_order_ops(1,2) by (cases "evTxType evm") auto
qed

lemma moved_nonneg: "0 \<le> x \<Longrightarrow> x \<le> f s \<Longrightarrow> \<forall>a. 0 \<le> f a \<Longrightarrow> 0 \<le> f a + moved t s r x a"
  by (cases t) (auto simp: moved_def at_only_def)

lemma Call_sound:
  assumes "in_order B db" "\<forall>a. 0 \<le> GetBalance B db a" "0 \<le> x" "run_sound B (evRun evm)" "evDepth evm = 0"
    "Call evm B db caller addr input gas x = Inr r" "rErr r = None"
  shows "in_order B (rDB r) \<and> (\<forall>a. 0 \<le> GetBalance B (rDB r) a)"
proof -
  obtain revid db1 where s: "Snapshot db = (revid, db1)" by fastforce
  have ok: "trie_ok B" "db_ok db" using assms(1) by (simp_all add: in_order_def db_inv_def)
  have 1: "in_order B db1" "GetBalance B db1 = GetBalance B db"
    using in_order_ops(4) [OF assms(1) s] Snapshot_pays [OF ok(2) s, of B] by (simp_all add: pays_def)
  from assms(5,6) s show ?thesis
  proof (cases rule: Call_cases)
    case nothing
    then show ?thesis using 1 assms(2) by simp
  next
    case (run absent)
    let ?db2 = "enter_call evm B db1 absent caller addr x"
    let ?r = "evRun evm (call_contract B ?db2 caller addr gas x) input False ?db2"
    have r: "r = ?r" "rErr ?r = None" using run(1) assms(7) by (cases "rErr ?r"; auto simp: settle_run_def)+
    have "pays B (moved (evTxType evm) caller addr x) db ?db2" by (rule enter_call_pays [OF ok s]) (use run(2) in simp)
    then have "\<forall>a. 0 \<le> GetBalance B ?db2 a" using moved_nonneg [OF assms(3) run(3) assms(2)] by (simp add: pays_def)
    moreover have "in_order B ?db2" by (rule enter_call_in_order [OF 1(1)]) (use run(2) in simp)
    ultimately show ?thesis using assms(4) r unfolding run_sound_def by metis
  qed (use assms(7) in simp)
qed

lemma settle_in_order:
  assumes "in_order B (stDB st)" "settle evm B msg st = Inr st'"
  shows "in_order B (stDB st')"
proof -
  obtain st1 where 1: "refundGas B msg st = Inr st1" "collectGas evm B msg st1 = Inr st'" using assms(2) by (auto simp: settle_def)
  have i: "in_order B (stDB st1)" using 1(1) in_order_ops(1) [OF assms(1)] by (auto simp: refundGas_def Let_def)
  have "in_order B db'" if "go_fold (collect_fee B fee) db cs = Inr db'" "in_order B db" for fee db cs db'
    using that
  proof (induction cs arbitrary: db)
    case (Cons c0 cs)
    then obtain db1 where 1: "collect_fee B fee db c0 = Inr db1" "go_fold (collect_fee B fee) db1 cs = Inr db'" by auto
    have "in_order B db1" using 1(1) in_order_ops(1) [OF Cons.prems(2)] by (cases c0) (auto simp: collect_fee_def)
    then show ?case by (rule Cons.IH [OF 1(2)])
  qed simp
  then show ?thesis using 1(2) i in_order_ops(1) [OF i] by (auto simp: collectGas_def Let_def split: if_splits)
qed

lemma TransitionDb_sound:
  assumes "TransitionDb evm B msg (NewStateTransition db gp) = Inr (res, st)" "VMErr res = None" "msgTo msg = Some to"
    "run_journaled B (evRun evm)" "run_frugal B (evRun evm)" "run_sound B (evRun evm)" "in_order B db" "\<forall>a. 0 \<le> GetBalance B db a" "evDepth evm = 0"
    "fair_fees evm" "0 \<le> msgGasPrice msg" "0 \<le> msgValue msg"
  shows "in_order B (stDB st) \<and> (\<forall>a. 0 \<le> GetBalance B (stDB st) a)
    \<and> total_tokens (ledger B (stDB st)) \<le> total_tokens (ledger B db) - (if evTxType evm = SubtractionOnly then msgValue msg else 0)"
proof -
  have ok: "db_ok db" "trie_ok B" "db_inv B db" using assms(7) by (simp_all add: in_order_def db_inv_def)
  from assms(1) obtain st1 gas r where 1: "preCheck B msg (NewStateTransition db gp) = Inr st1" "gas \<le> msgGas msg"
    "run_message evm B msg (st1\<lparr>stGas := msgGas msg - gas\<rparr>) = Inr r" "rErr r \<noteq> Some ErrInsufficientBalance"
    "settle evm B msg (st1\<lparr>stGas := rGas r, stDB := rDB r\<rparr>) = Inr st"
    "res = \<lparr>ReturnData = rRet r, UsedGas = gasUsed st, VMErr = rErr r, exCX = rCX r\<rparr>" by (rule TransitionDb_parts)
  let ?cost = "uint (msgGas msg) * msgGasPrice msg" and ?fee = "uint (gasUsed st) * msgGasPrice msg"
  note p = preCheck_pays [OF ok(2,1) 1(1)] and l = pays_ledger [OF preCheck_pays(1) [OF ok(2,1) 1(1)] ok(3)]
  have i1: "in_order B (stDB st1)" using 1(1) in_order_ops(2) [OF assms(7)]
    by (auto simp: preCheck_def buyGas_def SubGas_def NewStateTransition_def Let_def split: if_splits)
  have n1: "\<forall>a. 0 \<le> GetBalance B (stDB st1) a" using p(1,5) assms(8) by (auto simp: pays_def at_only_def)
  let ?db = "SetNonce B (stDB st1) (msgFrom msg) (GetNonce B (stDB st1) (msgFrom msg) + 1)"
  have i2: "in_order B ?db" by (rule in_order_ops(3) [OF i1])
  have d: "db_inv B ?db" "ledger B ?db = ledger B (stDB st1)" "db_ok (stDB st1)" using SetNonce_ledger [OF l(1)] l(1) by (simp_all add: db_inv_def)
  have n2: "\<forall>a. 0 \<le> GetBalance B ?db a" using n1 SetNonce_effect(2) [OF d(3)] by simp
  have c: "Call evm B ?db (msgFrom msg) to (msgData msg) (msgGas msg - gas) (msgValue msg) = Inr r" "rErr r = None"
    using 1(3,6) assms(2,3) by (simp_all add: run_message_def Let_def)
  have r: "in_order B (rDB r)" "\<forall>a. 0 \<le> GetBalance B (rDB r) a" using Call_sound [OF i2 n2 assms(12,6,9) c] by simp_all
  have g: "rGas r \<le> msgGas msg - gas" "total_tokens (ledger B (rDB r)) \<le> total_tokens (ledger B (stDB st1)) - (if evTxType evm = SubtractionOnly then msgValue msg else 0)"
    using Call_succeeded [OF d(1) assms(4,5,9) c] d(2) by auto
  have "rGas r \<le> msgGas msg" using g(1) word_sub_le [OF 1(2)] by (rule order_trans)
  then have s: "gasUsed st \<le> msgGas msg" "pays B (\<lambda>a. at_only (msgFrom msg) (?cost - ?fee) a + fee_to evm ?fee a) (rDB r) (stDB st)"
    using gas_balance [OF 1(1) ok(2,1) 1(5)] r(1) p(3) by (simp_all add: in_order_def db_inv_def)
  have fee: "0 \<le> ?fee" "?fee \<le> ?cost" using s(1) assms(11) by (auto intro!: mult_right_mono simp: word_le_def)
  have "0 \<le> at_only (msgFrom msg) (?cost - ?fee) a + fee_to evm ?fee a" for a using fee_to_nonneg [OF assms(10) fee(1), of a] fee(2) by (simp add: at_only_def)
  then have nonneg: "\<forall>a. 0 \<le> GetBalance B (stDB st) a" using s(2) r(2) by (simp add: pays_def add_nonneg_nonneg)
  have "total_tokens (ledger B (stDB st)) = total_tokens (ledger B (rDB r)) + (?cost - ?fee) + (\<Sum>a\<in>UNIV. fee_to evm ?fee a)"
    using pays_ledger(4) [OF s(2)] r(1) by (simp add: in_order_def sum.distrib)
  then have "total_tokens (ledger B (stDB st)) \<le> total_tokens (ledger B db) - (if evTxType evm = SubtractionOnly then msgValue msg else 0)"
    using g(2) l(4) fees_paid_le [OF assms(10) fee(1)] by simp
  moreover have "in_order B (stDB st)" using settle_in_order [OF _ 1(5)] r(1) by simp
  ultimately show ?thesis using nonneg by simp
qed

lemma logs_ledger:
  assumes "receipt_logs P header db h = (ls, db')"
  shows "ledger B db' = ledger B db"
proof (rule ledger_cong)
  have l: "live_obj B db' = live_obj B db" "stateObjectsDestruct db' = stateObjectsDestruct db" "stateValidators db' = stateValidators db"
    using assms by (auto simp: receipt_logs_def GetLogs_def Let_def live_obj_def obj_at_def fun_eq_iff split: if_splits option.splits)
  then show "GetBalance B db' = GetBalance B db" "GetCode B db' = GetCode B db" "GetState B db' = GetState B db" "stateValidators db' = stateValidators db"
    by (simp_all add: fun_eq_iff read_live cong: option.case_cong)
qed

lemma close_transaction_swept:
  assumes "state_laws P B" "in_order B db" "close_transaction P B header db = Inr (root, db')"
  shows "swept B db db'"
  using assms(3) Finalise_swept [OF assms(1,2)] IntermediateRoot_swept [OF assms(1,2)]
  by (auto simp: close_transaction_def split: if_splits)

lemma ApplyTransaction_parts:
  assumes "ApplyTransaction P B author gp db header tx used = Inr ap"
  obtains txType msg res st root db1 ls signer where "getTransactionType P header tx = Inr txType" "txType \<noteq> InvalidTx"
    "AsMessage (pSender P) tx signer = Inr msg"
    "TransitionDb ((NewEVMContext P header author)\<lparr>evTxType := txType\<rparr>) B msg (NewStateTransition db gp) = Inr (res, st)"
    "close_transaction P B header (stDB st) = Inr (root, db1)" "receipt_logs P header db1 (txHash tx) = (ls, apDB ap)"
    "cross_receipt txType tx msg res = Inr (apCX ap)" "apGp ap = stGp st" "rcStatus (apReceipt ap) = (if VMErr res \<noteq> None then 0 else 1)"
proof -
  obtain txType msg res st signer where 1: "getTransactionType P header tx = Inr txType" "txType \<noteq> InvalidTx"
    "AsMessage (pSender P) tx signer = Inr msg"
    "TransitionDb ((NewEVMContext P header author)\<lparr>evTxType := txType\<rparr>) B msg (NewStateTransition db gp) = Inr (res, st)"
    and f: "finish_transaction P B header tx used txType msg res st = Inr ap"
    using assms unfolding ApplyTransaction_def go_bind_eq_Inr by (auto simp del: AsMessage_def split: if_split_asm)
  obtain root db1 where 2: "close_transaction P B header (stDB st) = Inr (root, db1)" using f by (auto simp: finish_transaction_def)
  obtain ls db2 where 3: "receipt_logs P header db1 (txHash tx) = (ls, db2)" by fastforce
  then show thesis using f 2 by (intro that [OF 1 2]) (auto simp: finish_transaction_def NewReceipt_def Let_def)
qed


text \<open>
  A contract creation that is addressed to another shard runs on its own shard and still leaves a
  receipt; the receipt has no receiver, so no list of receipts with it can be applied.
\<close>

lemma cross_shard_creation_receipt_refused:
  assumes "ApplyTransaction P B author gp db header tx used = Inr ap" "getTransactionType P header tx = Inr SubtractionOnly"
    "txRecipient tx = None" "rcStatus (apReceipt ap) = 1"
  shows "\<exists>cx. apCX ap = Some cx \<and> cxAmount cx = txAmount tx
    \<and> (\<forall>rs. Some cx \<in> set rs \<longrightarrow> (\<forall>db2. ApplyIncomingReceipt P' B' db' header' (Some rs) \<noteq> Inr db2))"
proof -
  from assms(1) obtain txType msg res st root db1 ls signer where 1: "getTransactionType P header tx = Inr txType"
    "AsMessage (pSender P) tx signer = Inr msg"
    "cross_receipt txType tx msg res = Inr (apCX ap)" "rcStatus (apReceipt ap) = (if VMErr res \<noteq> None then 0 else 1)" by (rule ApplyTransaction_parts)
  define cx where "cx = \<lparr>cxTxHash = txHash tx, cxFrom = msgFrom msg, cxTo = None, cxShardID = txShardID tx, cxToShardID = txToShardID tx, cxAmount = txAmount tx\<rparr>"
  have cx: "apCX ap = Some cx" "cxTo cx = None" "cxAmount cx = txAmount tx"
    using 1 assms(2-4) by (auto simp: AsMessage_def cross_receipt_def cx_def split: if_splits)
  have "go_fold (apply_receipt P' B' header') d rs \<noteq> Inr db2" if "Some cx \<in> set rs" for rs d db2
    using that by (induction rs arbitrary: d) (auto simp: apply_receipt_def cx(2) split: option.splits)
  then show ?thesis using cx by (auto simp: ApplyIncomingReceipt_def)
qed

section \<open>Concrete blocks\<close>

definition sample_processor :: "unit processor" where
  "sample_processor = \<lparr>pConfig = MainnetChainConfig,
     pInstance = (\<lambda>_. Validators.sample_instance\<lparr>feeCollectors := [(5, 500000000000000000), (6, 500000000000000000)]\<rparr>),
     pShardID = 0, pSender = (\<lambda>_ _. Inr 7), pRun = sample_run None, pCreateAddress = (\<lambda>a n. a + ucast n),
     pVisit = sorted_visit, pHashTries = (\<lambda>db. (0, db))\<rparr>"

definition sample_block :: BlockHeader where
  "sample_block = sample_parent\<lparr>hEpoch := 2000, bhShardID := 0, bhHash := 0\<rparr>"

definition sample_tx :: Tx where
  "sample_tx = \<lparr>txHash = 0, txHashByType = 0, txChainID = 1, txNonce = 0, txGasPrice = 2, txGasLimit = 25000, txShardID = 0, txToShardID = 1,
     txRecipient = Some 1, txAmount = 10, txPayload = []\<rparr>"

lemma sample_state_laws: "state_laws sample_processor sample_backend"
  using sorted_visits_all sample_code_law by (simp add: state_laws_def tries_law_def sample_processor_def pays_none)

lemma sample_funded_in_order: "in_order sample_backend sample_funded" "\<forall>a. \<not> HasSuicided sample_backend sample_funded a"
proof -
  show "in_order sample_backend sample_funded"
    using sample_funded_ledger(1) sample_funded_ok sample_funded_solid by (simp add: in_order_def)
  have ok: "db_ok sample_staking" using sample_staking_ok(1) by (simp add: db_inv_def)
  have "\<forall>a. \<not> HasSuicided sample_backend sample_staking a"
    by (auto simp: HasSuicided_live sample_staking_live newObject_def split: option.split)
  then show "\<forall>a. \<not> HasSuicided sample_backend sample_funded a" using alive_ops(1) [OF ok] by (simp add: sample_funded_def)
qed


lemma sample_rich_in_order: "in_order sample_backend sample_rich" "0 \<le> GetBalance sample_backend sample_rich a"
proof -
  have new: "in_order sample_backend New" "0 \<le> GetBalance sample_backend New a" for a
  proof -
    have l: "live_obj sample_backend New a = map_option (newObject a) (trieAccount sample_backend a)" for a
      by (simp add: live_obj_def obj_at_def New_def newObject_def split: option.split)
    then show "0 \<le> GetBalance sample_backend New a" by (simp add: read_live) (simp add: sample_backend_def newObject_def)
    have "GetCode sample_backend New a = None" for a
      by (simp add: read_live l) (simp add: sample_backend_def newObject_def Object_Code_def EmptyCodeHash_def)
    then have "lWrap (ledger sample_backend New) a = None" for a by (intro no_code_no_wrapper) (simp_all add: New_def)
    then show "in_order sample_backend New" using sample_trie_ok by (simp add: in_order_def db_inv_def db_ok_def New_def ledger_ok_def solid_def)
  qed
  then have ok: "db_ok New" by (simp add: in_order_def db_inv_def)
  show "in_order sample_backend sample_rich" unfolding sample_rich_def by (rule in_order_ops(1) [OF new(1)])
  show "0 \<le> GetBalance sample_backend sample_rich a"
    using AddBalance_effect(1) [OF ok, of sample_backend 7 100000] new(2) by (simp add: sample_rich_def)
qed

lemma sample_context: "(NewEVMContext sample_processor sample_block (Some 3))\<lparr>evTxType := t\<rparr> = sample_evm None t"
  by (simp add: NewEVMContext_def sample_processor_def sample_block_def sample_evm_def)

lemma sample_no_cx:
  assumes "TransitionDb (sample_evm None t) sample_backend sample_message (NewStateTransition sample_rich 1000000) = Inr (res, st)"
  shows "exCX res = None"
proof -
  let ?evm = "sample_evm None t"
  from assms obtain st1 gas r where r: "run_message ?evm sample_backend sample_message (st1\<lparr>stGas := msgGas sample_message - gas\<rparr>) = Inr r"
    "rErr r \<noteq> Some ErrInsufficientBalance" "res = \<lparr>ReturnData = rRet r, UsedGas = gasUsed st, VMErr = rErr r, exCX = rCX r\<rparr>" by (rule TransitionDb_parts)
  let ?db = "SetNonce sample_backend (stDB st1) 7 (GetNonce sample_backend (stDB st1) 7 + 1)"
  obtain revid db1 where s: "Snapshot ?db = (revid, db1)" by fastforce
  have "Call ?evm sample_backend ?db 7 1 [] (25000 - gas) 10 = Inr r" using r(1) by (simp add: run_message_def sample_message_def Let_def)
  from sample_evm_ok(4) this s show ?thesis
  proof (cases rule: Call_cases)
    case (run absent)
    then show ?thesis using r(3) by (auto simp: settle_run_def sample_evm_def sample_run_def)
  qed (use r in auto)
qed

lemma sample_applied:
  "\<exists>ap cx. ApplyTransaction sample_processor sample_backend (Some 3) 1000000 sample_rich sample_block sample_tx 0 = Inr ap \<and> apCX ap = Some cx"
proof -
  let ?evm = "sample_evm None SubtractionOnly"
  obtain res st where t: "TransitionDb ?evm sample_backend sample_message (NewStateTransition sample_rich 1000000) = Inr (res, st)" "VMErr res = None"
    using sample_transition [of None SubtractionOnly] by auto
  have "in_order sample_backend (stDB st)"
    using TransitionDb_sound [OF t, of 1] sample_evm_ok(1-4) sample_rich_in_order
    by (simp add: run_sound_def sample_evm_def sample_run_def sample_message_def)
  then obtain db1 where c: "close_transaction sample_processor sample_backend sample_block (stDB st) = Inr (None, db1)"
    using Finalise_total [of sample_backend "stDB st" sorted_visit True] sample_code_law
    by (auto simp: close_transaction_def in_order_def sample_processor_def sample_block_def IsS3_def isForked_def MainnetChainConfig_def)
  have x: "exCX res = None" by (rule sample_no_cx [OF t(1)])
  obtain ls db2 where l: "receipt_logs sample_processor sample_block db1 0 = (ls, db2)" by fastforce
  have a: "AcceptsCrossTx MainnetChainConfig (Some 2000) = Inr True" by (simp add: AcceptsCrossTx_def isForked_def MainnetChainConfig_def)
  have e: "\<not> IsEthCompatible_chainID 1" by (simp add: IsEthCompatible_chainID_def EthMainnetShard0ChainID_def)
  have g: "getTransactionType sample_processor sample_block sample_tx = Inr SubtractionOnly"
    using a by (simp add: getTransactionType_def sample_processor_def sample_block_def sample_tx_def Validators.sample_instance_def)
  have m: "AsMessage (pSender sample_processor) sample_tx signer = Inr sample_message" for signer
    by (simp add: AsMessage_def sample_processor_def sample_tx_def sample_message_def)
  have cx: "\<exists>cx. cross_receipt SubtractionOnly sample_tx sample_message res = Inr (Some cx)" using x t(2) by (simp add: cross_receipt_def)
  have p: "pConfig sample_processor = MainnetChainConfig" "hEpoch sample_block = 2000" "txChainID sample_tx = 1" "txHash sample_tx = 0"
    by (simp_all add: sample_processor_def sample_block_def sample_tx_def)
  show ?thesis using g a e m t(1) c l cx by (auto simp: ApplyTransaction_def sample_context p finish_transaction_def Let_def)
qed


end
