(* ===== verification/Block.thy ===== *)
theory Block
  imports Processor
begin

text \<open>
  The rest of \<open>core/state_processor.go\<close>: staking transactions, the migration of balances out of a shard
  that is given up, the retirement of validators whose keys change shard, and \<open>Process\<close>, which puts the
  parts together. The cache of results is left out: it returns what an earlier run returned.
\<close>

section \<open>Staking transactions\<close>

record StakeTx =
  stxHash :: Hash
  stxNonce :: uint64
  stxGasPrice :: int
  stxGasLimit :: uint64
  stxDirective :: Directive
  stxPayload :: "bytes go"
  stxSender :: "Address go"

fun StakingTypeMap :: "Directive \<Rightarrow> TransactionType" where
  "StakingTypeMap DirectiveCreateValidator = StakeCreateVal"
| "StakingTypeMap DirectiveEditValidator = StakeEditVal"
| "StakingTypeMap DirectiveDelegate = DelegateTx"
| "StakingTypeMap DirectiveUndelegate = UndelegateTx"
| "StakingTypeMap DirectiveCollectRewards = CollectRewardsTx"

definition StakingToMessage :: "StakeTx \<Rightarrow> Message go" where
  "StakingToMessage tx =
     go_bind (stxPayload tx) (\<lambda>payload.
     go_bind (stxSender tx) (\<lambda>from.
       Inr \<lparr>msgFrom = from, msgTo = None, msgGasPrice = stxGasPrice tx, msgGas = stxGasLimit tx, msgValue = 0,
            msgNonce = stxNonce tx, msgCheckNonce = True, msgData = payload, msgType = StakingTypeMap (stxDirective tx)\<rparr>))"

text \<open>What the staking messages need beside the processor: BLS, the decoding of messages and the chain index.\<close>

record ('pk, 'sig) stakeEnv =
  seLib :: "('pk, 'sig) bls_lib"
  seDecode :: "bytes \<Rightarrow> TransactionType \<Rightarrow> StakeMsg go"
  seChain :: ChainContext

definition ApplyStakingTransaction ::
  "'pk processor \<Rightarrow> ('pk, 'sig) stakeEnv \<Rightarrow> backend \<Rightarrow> Address option \<Rightarrow> uint64 \<Rightarrow> DB \<Rightarrow> BlockHeader \<Rightarrow> StakeTx \<Rightarrow> uint64 \<Rightarrow> applied go" where
  "ApplyStakingTransaction P E B author gp db header tx usedGas =
     go_bind (StakingToMessage tx) (\<lambda>msg.
     go_bind (StakingTransitionDb (seLib E) (seDecode E) (NewEVMContext P header author) B (Header.truncate header) (seChain E) msg
                (NewStateTransition db gp)) (\<lambda>(gas, st).
     go_bind (close_transaction P B header (stDB st)) (\<lambda>(root, db).
     case receipt_logs P header db (stxHash tx) of (ls, db) \<Rightarrow>
       Inr \<lparr>apReceipt = (NewReceipt root False (usedGas + gas))\<lparr>rcTxHash := stxHash tx, GasUsed := gas, rcLogs := ls\<rparr>,
            apCX = None, apUsedGas = usedGas + gas, apGp = stGp st, apDB = db\<rparr>)))"

section \<open>Migration of balances\<close>

text \<open>A leaf of the account trie: the preimage of its key, if it is stored, and the decoded account.\<close>

record leaf =
  lfPreimage :: bytes
  lfAccount :: "StateAccount go"

definition bytes_to_hash :: "bytes \<Rightarrow> Hash" where
  "bytes_to_hash bs = foldl (\<lambda>h b. h * 256 + ucast b) 0 bs"

fun migrate_leaf ::
  "map_order \<Rightarrow> (bytes \<Rightarrow> Address) \<Rightarrow> backend \<Rightarrow> DB \<Rightarrow> leaf list \<Rightarrow> uint64 \<Rightarrow> uint32 \<Rightarrow> uint32 \<Rightarrow> (CXReceipt option \<times> DB) go" where
  "migrate_leaf visit toAddress B db [] number myShard dstShard = Inr (None, db)"
| "migrate_leaf visit toAddress B db (lf # leaves) number myShard dstShard =
     (let next = migrate_leaf visit toAddress B db leaves number myShard dstShard; addr = toAddress (lfPreimage lf)
      in if length (lfPreimage lf) = 0 then Inl (Error ''cannot find preimage'')
         else if addr = 0 then next
         else go_bind (lfAccount lf) (\<lambda>account.
           if CodeHash account \<noteq> EmptyCodeHash B \<or> Root account \<noteq> EmptyRootHash \<or> Balance account \<le> 0 \<or> GetBalance B db addr \<le> 0
           then next
           else let balance = GetBalance B db addr
                in go_bind (Finalise visit B (SubBalance B db addr balance) True) (\<lambda>db.
                     Inr (Some \<lparr>cxTxHash = bytes_to_hash (bytes_le 8 number @ bytes_le 4 myShard), cxFrom = addr, cxTo = Some addr,
                                cxShardID = myShard, cxToShardID = dstShard, cxAmount = balance\<rparr>, db))))"

definition generateOneMigrationMessage ::
  "map_order \<Rightarrow> (bytes \<Rightarrow> Address) \<Rightarrow> (Hash \<Rightarrow> leaf list go) \<Rightarrow> backend \<Rightarrow> DB \<Rightarrow> Hash \<Rightarrow> uint64 \<Rightarrow> uint32 \<Rightarrow> uint32 \<Rightarrow> (CXReceipt option \<times> DB) go" where
  "generateOneMigrationMessage visit toAddress OpenTrie B db parentRoot number myShard dstShard =
     go_bind (OpenTrie parentRoot) (\<lambda>leaves. migrate_leaf visit toAddress B db leaves number myShard dstShard)"

datatype NetworkType = Mainnet | Testnet | Pangaea | Partner | Stressnet | Devnet | Localnet

text \<open>What the chain gives the processor for a migration, and the outcome: nothing to do, nothing left to move, or a receipt.\<close>

record migration =
  mgNetwork :: NetworkType
  mgParentRoot :: "Hash \<Rightarrow> Hash go"
  mgOpenTrie :: "Hash \<Rightarrow> leaf list go"
  mgToAddress :: "bytes \<Rightarrow> Address"

definition take_gas :: "uint64 \<Rightarrow> uint64" where
  "take_gas gp = (case SubGas gp TxGasXShard of Inr gp' \<Rightarrow> gp' | Inl _ \<Rightarrow> gp)"

definition MayBalanceMigration :: "'pk processor \<Rightarrow> migration \<Rightarrow> backend \<Rightarrow> uint64 \<Rightarrow> BlockHeader \<Rightarrow> DB \<Rightarrow> (CXReceipt option \<times> uint64 \<times> DB) go" where
  "MayBalanceMigration P mg B gp header db =
     (let migrate = (\<lambda>dst. go_bind (mgParentRoot mg (bhParentHash header)) (\<lambda>parentRoot.
            generateOneMigrationMessage (pVisit P) (mgToAddress mg) (mgOpenTrie mg) B db parentRoot (NumberU64 header) (pShardID P) dst))
      in if mgNetwork mg = Mainnet
         then go_bind (IsOneEpochBeforeHIP30 (pConfig P) (Some (hEpoch header))) (\<lambda>before.
                if before \<and> pShardID P \<ge> numShards (pInstance P (hEpoch header + 1))
                then go_bind (migrate 1) (\<lambda>(cx, db).
                       if cx \<noteq> None then Inr (cx, take_gas gp, db) else Inl (Error ''ErrNoMigrationPossible''))
                else Inl (Error ''ErrNoMigrationRequired''))
         else if mgNetwork mg = Partner \<or> mgNetwork mg = Localnet \<or> mgNetwork mg = Testnet
         then go_bind (IsOneEpochBeforeHIP30 (pConfig P) (Some (hEpoch header))) (\<lambda>before.
                if before \<and> pShardID P \<noteq> 0
                then go_bind (migrate 0) (\<lambda>(cx, db). Inr (cx, if cx \<noteq> None then take_gas gp else gp, db))
                else Inl (Error ''ErrNoMigrationRequired''))
         else Inl (Error ''ErrNoMigrationRequired''))"

section \<open>Fewer shards\<close>

text \<open>Whether a key sits on another shard, or on one that is given up, when the number of shards changes.\<close>

definition key_moves :: "uint32 \<Rightarrow> uint32 \<Rightarrow> SerializedPublicKey \<Rightarrow> bool" where
  "key_moves curNumShards nextNumShards pubKey \<longleftrightarrow>
     (let curShard = uint pubKey mod uint curNumShards; nextShard = uint pubKey mod uint nextNumShards
      in curShard \<ge> uint nextNumShards \<or> curShard \<noteq> nextShard)"

definition retire :: "uint32 \<Rightarrow> uint32 \<Rightarrow> ValidatorWrapper \<Rightarrow> ValidatorWrapper go" where
  "retire curNumShards nextNumShards w =
     (if Status (theValidator w) = Inactive \<or> Status (theValidator w) = Banned then Inr w
      else if SlotPubKeys (theValidator w) \<noteq> [] \<and> (curNumShards = 0 \<or> nextNumShards = 0) then Inl (Panic ''division by zero'')
      else Inr (if list_ex (key_moves curNumShards nextNumShards) (SlotPubKeys (theValidator w))
                then w\<lparr>theValidator := (theValidator w)\<lparr>Status := Inactive\<rparr>\<rparr> else w))"

definition MayShardReduction ::
  "'pk processor \<Rightarrow> NetworkType \<Rightarrow> (uint64 \<Rightarrow> bool) \<Rightarrow> Address list go \<Rightarrow> backend \<Rightarrow> DB \<Rightarrow> BlockHeader \<Rightarrow> DB go" where
  "MayShardReduction P network IsLastBlock validatorList B db header =
     (let isBeaconChain = (bhShardID header = 0); isLastBlock = IsLastBlock (Uint64 (hNumber header));
          isReducenet = (network = Mainnet \<or> network = Testnet);
          curNumShards = numShards (pInstance P (hEpoch header));
          nextNumShards = numShards (pInstance P (Int64 (Int64 (hEpoch header) + 1)))
      in if \<not> (isReducenet \<and> isBeaconChain \<and> isLastBlock) then Inr db
         else if curNumShards = nextNumShards then Inr db
         else if curNumShards \<noteq> 4 \<and> nextNumShards \<noteq> 2 then Inl (Error ''can only handle the reduction from 4 to 2'')
         else go_bind validatorList (\<lambda>addresses.
              go_bind (go_fold (\<lambda>db addr. with_original B db addr (retire curNumShards nextNumShards)) db addresses) (\<lambda>db.
              go_bind (IntermediateRoot (pVisit P) (pHashTries P) B db (IsS3 (pConfig P) (Some (hEpoch header)))) (\<lambda>(_, db).
                Inr db))))"

section \<open>Processing a block\<close>

record Block =
  bkHeader :: BlockHeader
  bkTransactions :: "Tx list"
  bkStakingTransactions :: "StakeTx list"
  bkIncomingReceipts :: "CXReceipt option list option list"
  bkGasLimit :: uint64
  bkSlashes :: "Record list go"

record progress =
  prReceipts :: "Receipt list"
  prOut :: "CXReceipt list"
  prUsedGas :: uint64
  prGp :: uint64
  prDB :: DB

definition note_applied :: "progress \<Rightarrow> applied \<Rightarrow> progress" where
  "note_applied st ap =
     \<lparr>prReceipts = prReceipts st @ [apReceipt ap], prOut = prOut st @ (case apCX ap of Some cx \<Rightarrow> [cx] | None \<Rightarrow> []),
      prUsedGas = apUsedGas ap, prGp = apGp ap, prDB = apDB ap\<rparr>"

definition apply_transactions :: "'pk processor \<Rightarrow> backend \<Rightarrow> Address option \<Rightarrow> BlockHeader \<Rightarrow> progress \<Rightarrow> Tx list \<Rightarrow> progress go" where
  "apply_transactions P B author header st txs =
     go_fold (\<lambda>st (i, tx).
         go_bind (ApplyTransaction P B author (prGp st) (Prepare (prDB st) (txHash tx) (bhHash header) (int i)) header tx (prUsedGas st))
           (\<lambda>ap. Inr (note_applied st ap)))
       st (enumerate 0 txs)"

definition apply_staking :: "'pk processor \<Rightarrow> ('pk, 'sig) stakeEnv \<Rightarrow> backend \<Rightarrow> Address option \<Rightarrow> BlockHeader \<Rightarrow> nat \<Rightarrow> progress \<Rightarrow> StakeTx list \<Rightarrow> progress go" where
  "apply_staking P E B author header L st txs =
     go_fold (\<lambda>st (i, tx).
         go_bind (ApplyStakingTransaction P E B author (prGp st) (Prepare (prDB st) (stxHash tx) (bhHash header) (int i)) header tx (prUsedGas st))
           (\<lambda>ap. Inr (note_applied st ap)))
       st (enumerate L txs)"

definition receive_all :: "'pk processor \<Rightarrow> backend \<Rightarrow> BlockHeader \<Rightarrow> DB \<Rightarrow> CXReceipt option list option list \<Rightarrow> DB go" where
  "receive_all P B header db cxps =
     go_fold (\<lambda>db cxp. case ApplyIncomingReceipt P B db header cxp of
                 Inl (Error _) \<Rightarrow> Inl (Error ''[Process] Cannot apply incoming receipts'')
               | r \<Rightarrow> r) db cxps"

text \<open>The migration comes first; a block that migrates a balance, or has none left to migrate, executes no transaction.\<close>

definition open_block :: "'pk processor \<Rightarrow> migration \<Rightarrow> backend \<Rightarrow> uint64 \<Rightarrow> BlockHeader \<Rightarrow> DB \<Rightarrow> (bool \<times> progress) go" where
  "open_block P mg B gp header db =
     (let start = (\<lambda>cx gp db. \<lparr>prReceipts = [], prOut = (case cx of Some c \<Rightarrow> [c] | None \<Rightarrow> []), prUsedGas = 0, prGp = gp, prDB = db\<rparr>)
      in case MayBalanceMigration P mg B gp header db of
           Inr (cx, gp, db) \<Rightarrow> Inr (cx = None, start cx gp db)
         | Inl e \<Rightarrow> if e = Error ''ErrNoMigrationPossible'' then Inr (False, start None gp db)
                    else if e = Error ''ErrNoMigrationRequired'' then Inr (True, start None gp db)
                    else Inl e)"

text \<open>
  The engine finalises the block at the end; \<open>author\<close> is the address of the proposer, \<open>visit\<close> the order in
  which the engine visits the groups of slashes, and \<open>IsLastBlock\<close> the question to the schedule of the network.
\<close>

definition Process ::
  "'pk processor \<Rightarrow> ('pk, 'sig) stakeEnv \<Rightarrow> migration \<Rightarrow> (uint64 \<Rightarrow> bool) \<Rightarrow> 'q finalChain \<Rightarrow> 'q rewardChain \<Rightarrow> keyStruct list \<Rightarrow> backend \<Rightarrow>
   Address go \<Rightarrow> Block \<Rightarrow> DB \<Rightarrow> (progress \<times> CompletedRound) go" where
  "Process P E mg IsLastBlock chain beacon visit B author block db =
     (let header = bkHeader block; gp = bkGasLimit block
      in go_bind author (\<lambda>beneficiary.
         go_bind (open_block P mg B gp header db) (\<lambda>(processTxsAndStxs, st).
         go_bind (if processTxsAndStxs
                  then go_bind (apply_transactions P B (Some beneficiary) header st (bkTransactions block)) (\<lambda>st.
                         apply_staking P E B (Some beneficiary) header (length (bkTransactions block)) st (bkStakingTransactions block))
                  else Inr st) (\<lambda>st.
         go_bind (receive_all P B header (prDB st) (bkIncomingReceipts block)) (\<lambda>db.
         go_bind (case bkSlashes block of Inl (Error _) \<Rightarrow> Inl (Error ''[Process] Cannot finalize block'') | r \<Rightarrow> r) (\<lambda>slashes.
         go_bind (MayShardReduction P (mgNetwork mg) IsLastBlock (fcValidatorList chain) B db header) (\<lambda>db.
         go_bind (case Finalize chain beacon B header db slashes visit True (Uint64 (bhViewID header)) of
                    Inl (Error _) \<Rightarrow> Inl (Error ''[Process] Cannot finalize block'')
                  | r \<Rightarrow> r) (\<lambda>(_, _, db, paidOut).
           Inr (st\<lparr>prDB := db\<rparr>, paidOut)))))))))"

section \<open>Migration moves whole balances\<close>

lemma alive_sub:
  assumes "db_ok db" "\<forall>a. \<not> HasSuicided B db a"
  shows "\<not> HasSuicided B (SubBalance B db a x) b"
proof -
  have no: "live_obj B db a = Some s \<Longrightarrow> \<not> suicided s" for a s using assms(2) by (metis HasSuicided_live option.simps(5))
  obtain s1 s2 where b: "live_obj B (AddBalance B db a x) = (live_obj B db)(a \<mapsto> s1)" "live_obj B (SubBalance B db a x) = (live_obj B db)(a \<mapsto> s2)"
    "\<forall>s\<in>{s1, s2}. case live_obj B db a of Some s0 \<Rightarrow> suicided s = suicided s0 \<and> CodeHash (data s) = CodeHash (data s0) | None \<Rightarrow> \<not> suicided s"
    by (rule balance_live [OF assms(1)])
  then have "\<not> suicided s2" using no by (cases "live_obj B db a") auto
  then show ?thesis using b(2) assms(2) by (auto simp: HasSuicided_live)
qed

lemma migrate_leaf_moves:
  assumes "migrate_leaf (pVisit P) toAddress B db leaves number myShard dstShard = Inr (r, db')"
    "state_laws P B" "in_order B db" "\<forall>a. \<not> HasSuicided B db a"
  shows "case r of None \<Rightarrow> db' = db
    | Some cx \<Rightarrow> \<exists>a. cxFrom cx = a \<and> cxTo cx = Some a \<and> cxShardID cx = myShard \<and> cxToShardID cx = dstShard
        \<and> cxAmount cx = lBal (ledger B db) a \<and> 0 < cxAmount cx
        \<and> in_order B db' \<and> lWrap (ledger B db') = lWrap (ledger B db) \<and> lBal (ledger B db') = (lBal (ledger B db))(a := 0)"
  using assms(1)
proof (induction leaves)
  case (Cons lf leaves)
  let ?a = "toAddress (lfPreimage lf)"
  let ?bal = "GetBalance B db ?a"
  have inv: "db_inv B db" "db_ok db" "trie_ok B" "ledger_ok (ledger B db)" using assms(3) by (simp_all add: in_order_def db_inv_def)
  show ?case
  proof (cases "migrate_leaf (pVisit P) toAddress B db leaves number myShard dstShard = Inr (r, db')")
    case True
    then show ?thesis by (rule Cons.IH)
  next
    case False
    then obtain cx where r: "r = Some cx" "0 < ?bal" "Finalise (pVisit P) B (SubBalance B db ?a ?bal) True = Inr db'"
      "cxFrom cx = ?a" "cxTo cx = Some ?a" "cxShardID cx = myShard" "cxToShardID cx = dstShard" "cxAmount cx = ?bal"
      using Cons.prems by (auto simp: Let_def not_le split: if_split_asm)
    note p = pays_sub [OF inv(3,2), of ?a ?bal]
    have io: "in_order B (SubBalance B db ?a ?bal)" by (rule in_order_ops(2) [OF assms(3)])
    have alive: "\<forall>b. \<not> HasSuicided B (SubBalance B db ?a ?bal) b" using alive_sub [OF inv(2) assms(4)] by blast
    note s = swept_exact [OF Finalise_swept [OF assms(2) io r(3)] alive]
    have "lBal (ledger B db') = (lBal (ledger B db))(?a := 0)"
      using s(4) p by (auto simp: fun_eq_iff ledger_sel pays_def at_only_def)
    moreover have "lWrap (ledger B db') = lWrap (ledger B db)" using s(3) pays_ledger(2) [OF p inv(1)] by simp
    ultimately show ?thesis using r s(1) by (auto simp: ledger_sel)
  qed
qed simp

lemma MayBalanceMigration_receipt:
  assumes "MayBalanceMigration P mg B gp header db = Inr (Some cx, gp', db1)"
  obtains leaves dst where "migrate_leaf (pVisit P) (mgToAddress mg) B db leaves (NumberU64 header) (pShardID P) dst = Inr (Some cx, db1)"
    "gp' = take_gas gp" "dst = (if mgNetwork mg = Mainnet then 1 else 0)"
  using assms
  by (auto simp: MayBalanceMigration_def generateOneMigrationMessage_def Let_def split: if_split_asm)


section \<open>Validators that change shard retire\<close>

definition retired :: "uint32 \<Rightarrow> uint32 \<Rightarrow> ValidatorWrapper \<Rightarrow> ValidatorWrapper" where
  "retired m n w = (if Status (theValidator w) \<noteq> Banned \<and> list_ex (key_moves m n) (SlotPubKeys (theValidator w))
     then w\<lparr>theValidator := (theValidator w)\<lparr>Status := Inactive\<rparr>\<rparr> else w)"

lemma retire_retired: "retire m n w = Inr w' \<Longrightarrow> w' = retired m n w"
  by (auto simp: retire_def retired_def split: if_splits)

lemma retired_idem: "retired m n (retired m n w) = retired m n w"
  by (simp add: retired_def)

lemma retired_ok: "wrapper_ok a w \<Longrightarrow> wrapper_ok a (retired m n w)"
  by (auto simp: retired_def wrapper_ok_def wrapper_addr_def valid_wrapper_def valid_validator_def enough_self_delegation_def TotalDelegation_sum)

lemma with_original_in_order:
  assumes "in_order B db" "with_original B db a f = Inr db'" "\<And>w w'. f w = Inr w' \<Longrightarrow> wrapper_ok a w \<Longrightarrow> wrapper_ok a w'"
  shows "\<exists>w w'. lWrap (ledger B db) a = Some w \<and> f w = Inr w' \<and> in_order B db' \<and> ledger B db' = put_wrap a w' (ledger B db)
    \<and> HasSuicided B db' = HasSuicided B db"
proof -
  have inv: "db_inv B db" "ledger_ok (ledger B db)" "solid B db" using assms(1) by (simp_all add: in_order_def)
  obtain w w' where w: "lWrap (ledger B db) a = Some w" "f w = Inr w'" "db_inv B db'" "ledger B db' = put_wrap a w' (ledger B db)"
    using with_original_ok [OF inv(1) assms(2)] by blast
  obtain p db1 w1 where g: "ValidatorWrapper_get B db a True False = Inr (p, db1)" "db' = db1\<lparr>stateValidators := (stateValidators db1)(a := Some (Some w1))\<rparr>"
    using assms(2) by (auto simp: with_original_def)
  have "live_obj B db1 = live_obj B db \<and> (\<forall>b. b \<noteq> a \<longrightarrow> stateValidators db1 b = stateValidators db b)"
    using g(1) live_obj_load [of B db a] by (auto simp: ValidatorWrapper_get_def split: option.splits prod.splits if_splits)
  then have l: "live_obj B db' = live_obj B db" "\<And>b. b \<noteq> a \<Longrightarrow> stateValidators db' b = stateValidators db b" "stateValidators db' a \<noteq> None"
    using g(2) by simp_all
  have "solid B db'" unfolding solid_def
  proof (intro allI impI)
    fix b s assume "live_obj B db' b = Some s" "lWrap (ledger B db') b \<noteq> None"
    then have "live_obj B db b = Some s" "lWrap (ledger B db) b \<noteq> None" using l(1) w(1,4) by (auto split: if_splits)
    then show "\<not> suicided s \<and> (stateValidators db' b \<noteq> None \<or> CodeHash (data s) \<noteq> EmptyCodeHash B)"
      using inv(3) l(2,3) unfolding solid_def by metis
  qed
  moreover have "ledger_ok (ledger B db')" using ledger_okD [OF inv(2) w(1)] assms(3) [OF w(2)] w(4) ledger_ok_put_wrap [OF inv(2)] by simp
  ultimately show ?thesis using w l(1) by (auto simp: in_order_def HasSuicided_live fun_eq_iff)
qed

lemma retire_all:
  assumes "go_fold (\<lambda>db addr. with_original B db addr (retire m n)) db xs = Inr db'" "in_order B db"
  shows "in_order B db' \<and> lBal (ledger B db') = lBal (ledger B db) \<and> HasSuicided B db' = HasSuicided B db
    \<and> (\<forall>a. lWrap (ledger B db') a = (if a \<in> set xs then map_option (retired m n) (lWrap (ledger B db) a) else lWrap (ledger B db) a))"
  using assms
proof (induction xs arbitrary: db)
  case (Cons a xs)
  obtain db1 where 1: "with_original B db a (retire m n) = Inr db1" "go_fold (\<lambda>db addr. with_original B db addr (retire m n)) db1 xs = Inr db'"
    using Cons.prems(1) by auto
  obtain w w' where w: "lWrap (ledger B db) a = Some w" "retire m n w = Inr w'" "in_order B db1" "ledger B db1 = put_wrap a w' (ledger B db)" "HasSuicided B db1 = HasSuicided B db"
    using with_original_in_order [OF Cons.prems(2) 1(1)] retire_retired retired_ok by metis
  have "w' = retired m n w" by (rule retire_retired [OF w(2)])
  then show ?case using Cons.IH [OF 1(2) w(3)] w(1,4,5) by (auto simp: retired_idem)
qed simp

lemma retire_all_total:
  assumes "in_order B db" "\<forall>a\<in>set xs. lWrap (ledger B db) a \<noteq> None" "m \<noteq> 0" "n \<noteq> 0"
  shows "\<exists>db'. go_fold (\<lambda>db addr. with_original B db addr (retire m n)) db xs = Inr db'"
  using assms(1,2)
proof (induction xs arbitrary: db)
  case (Cons a xs)
  obtain w where w: "lWrap (ledger B db) a = Some w" using Cons.prems(2) by auto
  have inv: "db_inv B db" using Cons.prems(1) by (simp add: in_order_def)
  have "\<exists>w'. retire m n w = Inr w'" using assms(3,4) by (simp add: retire_def)
  then obtain db1 where 1: "with_original B db a (retire m n) = Inr db1" using with_original_total [OF inv w] by blast
  obtain w1 w' where r: "in_order B db1" "ledger B db1 = put_wrap a w' (ledger B db)"
    using with_original_in_order [OF Cons.prems(1) 1] retire_retired retired_ok by metis
  then show ?case using Cons.IH [OF r(1)] Cons.prems(2) 1 by auto
qed simp

lemma retired_active: "Status (theValidator (retired m n w)) = Active \<Longrightarrow> \<not> list_ex (key_moves m n) (SlotPubKeys (theValidator w))"
  by (auto simp: retired_def split: if_splits)

lemma retired_keys: "SlotPubKeys (theValidator (retired m n w)) = SlotPubKeys (theValidator w)"
  by (simp add: retired_def)

lemma retired_tokens: "wrapper_tokens (retired m n w) = wrapper_tokens w"
  by (simp add: retired_def wrapper_tokens_def)


text \<open>The guard only refuses a change that neither starts at four shards nor ends at two.\<close>

lemma reduction_from_four_to_three_accepted:
  assumes "state_laws P B" "in_order B db" "\<forall>a. \<not> HasSuicided B db a"
    "numShards (pInstance P (hEpoch header)) = 4" "numShards (pInstance P (Int64 (Int64 (hEpoch header) + 1))) = 3"
    "bhShardID header = 0" "IsLastBlock (Uint64 (hNumber header))"
  shows "\<exists>db'. MayShardReduction P Mainnet IsLastBlock (Inr []) B db header = Inr db'"
  using IntermediateRoot_total [OF assms(1,2), of "IsS3 (pConfig P) (Some (hEpoch header))"] assms(4-7)
  by (auto simp: MayShardReduction_def Let_def)

section \<open>Gas of a block\<close>

text \<open>The gas used so far is what the receipts charge, each receipt carries the running total, and the rest is in the pool.\<close>

definition gas_books :: "nat \<Rightarrow> nat \<Rightarrow> progress \<Rightarrow> bool" where
  "gas_books limit n st \<longleftrightarrow> length (prReceipts st) = n \<and> unat (prUsedGas st) + unat (prGp st) = limit
     \<and> unat (prUsedGas st) = (\<Sum>r\<leftarrow>prReceipts st. unat (GasUsed r))
     \<and> (\<forall>i<n. unat (CumulativeGasUsed (prReceipts st ! i)) = (\<Sum>r\<leftarrow>take (Suc i) (prReceipts st). unat (GasUsed r)))"

definition charged :: "uint64 \<Rightarrow> uint64 \<Rightarrow> applied \<Rightarrow> bool" where
  "charged gp used ap \<longleftrightarrow> apUsedGas ap = used + GasUsed (apReceipt ap) \<and> unat (apGp ap) + unat (GasUsed (apReceipt ap)) = unat gp
     \<and> CumulativeGasUsed (apReceipt ap) = apUsedGas ap"

lemma ApplyTransaction_charged:
  assumes "ApplyTransaction P B author gp db header tx used = Inr ap" "run_bounded (pRun P)"
  shows "charged gp used ap"
proof -
  obtain txType msg res st where t: "TransitionDb ((NewEVMContext P header author)\<lparr>evTxType := txType\<rparr>) B msg (NewStateTransition db gp) = Inr (res, st)"
    and f: "finish_transaction P B header tx used txType msg res st = Inr ap"
    using assms(1) unfolding ApplyTransaction_def go_bind_eq_Inr by (auto split: if_split_asm)
  have "run_bounded (evRun ((NewEVMContext P header author)\<lparr>evTxType := txType\<rparr>))" using assms(2) by (simp add: NewEVMContext_def)
  note g = TransitionDb_gas(2) [OF t this]
  obtain root db1 where c: "close_transaction P B header (stDB st) = Inr (root, db1)" using f by (auto simp: finish_transaction_def)
  obtain ls db2 where "receipt_logs P header db1 (txHash tx) = (ls, db2)" by fastforce
  then show ?thesis using f c g by (auto simp: finish_transaction_def charged_def NewReceipt_def Let_def)
qed

lemma ApplyStakingTransaction_charged:
  assumes "ApplyStakingTransaction P E B author gp db header tx used = Inr ap"
  shows "charged gp used ap"
proof -
  obtain msg gas st where t: "StakingToMessage tx = Inr msg"
      "StakingTransitionDb (seLib E) (seDecode E) (NewEVMContext P header author) B (Header.truncate header) (seChain E) msg (NewStateTransition db gp) = Inr (gas, st)"
    using assms by (auto simp: ApplyStakingTransaction_def)
  then obtain root db1 where c: "close_transaction P B header (stDB st) = Inr (root, db1)" using assms by (auto simp: ApplyStakingTransaction_def)
  obtain ls db2 where "receipt_logs P header db1 (stxHash tx) = (ls, db2)" by fastforce
  then show ?thesis
    using assms t c StakingTransitionDb_gas(2) [OF t(2)] by (auto simp: ApplyStakingTransaction_def charged_def NewReceipt_def)
qed

lemma note_applied_gas:
  assumes "gas_books limit n st" "charged (prGp st) (prUsedGas st) ap" "limit < 2 ^ 64"
  shows "gas_books limit (Suc n) (note_applied st ap)"
proof -
  let ?g = "GasUsed (apReceipt ap)"
  have "unat (prUsedGas st) + unat ?g < 2 ^ 64" using assms by (simp add: gas_books_def charged_def)
  then have u: "unat (prUsedGas st + ?g) = unat (prUsedGas st) + unat ?g" by (subst unat_add_lem [THEN iffD1]) simp_all
  show ?thesis using assms u by (auto simp: gas_books_def charged_def note_applied_def nth_append less_Suc_eq)
qed

lemma apply_transactions_gas:
  assumes "apply_transactions P B author header st txs = Inr st'" "run_bounded (pRun P)" "gas_books limit n st" "limit < 2 ^ 64"
  shows "gas_books limit (n + length txs) st'"
proof -
  have "gas_books limit (n + length (enumerate 0 txs)) st'"
    using assms(1) unfolding apply_transactions_def
    by (rule go_fold_prefix_invariant) (use assms(2-4) in \<open>auto intro!: note_applied_gas ApplyTransaction_charged\<close>)
  then show ?thesis by simp
qed

lemma apply_staking_gas:
  assumes "apply_staking P E B author header L st txs = Inr st'" "gas_books limit n st" "limit < 2 ^ 64"
  shows "gas_books limit (n + length txs) st'"
proof -
  have "gas_books limit (n + length (enumerate L txs)) st'"
    using assms(1) unfolding apply_staking_def
    by (rule go_fold_prefix_invariant) (use assms(2,3) in \<open>auto intro!: note_applied_gas ApplyStakingTransaction_charged\<close>)
  then show ?thesis by simp
qed

lemma take_gas_le: "take_gas gp \<le> gp"
  by (auto simp: take_gas_def SubGas_def word_sub_le)

lemma MayBalanceMigration_gas:
  assumes "MayBalanceMigration P mg B gp header db = Inr (cx, gp', db')"
  shows "gp' = (if cx = None then gp else take_gas gp)"
  using assms unfolding MayBalanceMigration_def Let_def go_bind_eq_Inr
  by (auto simp: go_bind_eq_Inr simp del: generateOneMigrationMessage_def split: if_split_asm)

lemma open_block_gas:
  assumes "open_block P mg B gp header db = Inr (processTxs, st)"
  shows "gas_books (unat (prGp st)) 0 st" "prGp st \<le> gp" "length (prOut st) \<le> 1" "prUsedGas st = 0"
proof -
  let ?start = "\<lambda>cx gp db. \<lparr>prReceipts = [], prOut = (case cx of Some c \<Rightarrow> [c] | None \<Rightarrow> []), prUsedGas = 0, prGp = gp, prDB = db\<rparr>"
  obtain cx gp' db' where "st = ?start cx gp' db'" "gp' \<le> gp"
  proof (cases "MayBalanceMigration P mg B gp header db")
    case (Inl e)
    then show thesis using assms that [of None gp db] by (auto simp: open_block_def split: if_splits)
  next
    case (Inr r)
    then obtain cx gp' db' where r: "MayBalanceMigration P mg B gp header db = Inr (cx, gp', db')" by (cases r) auto
    then have "gp' \<le> gp" using MayBalanceMigration_gas [OF r] take_gas_le [of gp] by simp
    then show thesis using assms r that [of cx gp' db'] by (simp add: open_block_def)
  qed
  then show "gas_books (unat (prGp st)) 0 st" "prGp st \<le> gp" "length (prOut st) \<le> 1" "prUsedGas st = 0"
    by (auto simp: gas_books_def split: option.splits)
qed

lemma Process_parts:
  assumes "Process P E mg IsLastBlock chain beacon visit B author block db = Inr (st, paidOut)"
  obtains beneficiary processTxs st0 st1 db1 where "open_block P mg B (bkGasLimit block) (bkHeader block) db = Inr (processTxs, st0)"
    "(if processTxs then go_bind (apply_transactions P B (Some beneficiary) (bkHeader block) st0 (bkTransactions block)) (\<lambda>st.
          apply_staking P E B (Some beneficiary) (bkHeader block) (length (bkTransactions block)) st (bkStakingTransactions block)) else Inr st0) = Inr st1"
    "st = st1\<lparr>prDB := db1\<rparr>"
proof -
  obtain beneficiary processTxs st0 where o: "author = Inr beneficiary" "open_block P mg B (bkGasLimit block) (bkHeader block) db = Inr (processTxs, st0)"
    using assms by (auto simp: Process_def Let_def)
  define run where "run = (if processTxs then go_bind (apply_transactions P B (Some beneficiary) (bkHeader block) st0 (bkTransactions block)) (\<lambda>st.
          apply_staking P E B (Some beneficiary) (bkHeader block) (length (bkTransactions block)) st (bkStakingTransactions block)) else Inr st0)"
  obtain st1 where "run = Inr st1" using assms o by (cases run) (simp_all add: Process_def Let_def run_def [symmetric])
  then show thesis using assms o that [OF o(2) \<open>run = Inr st1\<close> [unfolded run_def]] by (auto simp: Process_def Let_def run_def [symmetric])
qed


section \<open>Concrete runs\<close>

definition sample_leaving :: "unit processor" where
  "sample_leaving = sample_processor\<lparr>pShardID := 3\<rparr>"

definition sample_migration :: migration where
  "sample_migration = \<lparr>mgNetwork = Mainnet, mgParentRoot = Inr,
     mgOpenTrie = (\<lambda>_. Inr [\<lparr>lfPreimage = [7], lfAccount = Inr \<lparr>Nonce = 0, Balance = 1000, Root = EmptyRootHash, CodeHash = EmptyCodeHash sample_backend\<rparr>\<rparr>]),
     mgToAddress = (\<lambda>bs. ucast (hd bs))\<rparr>"

definition sample_last_epoch :: BlockHeader where
  "sample_last_epoch = sample_block\<lparr>hEpoch := (case HIP30Epoch MainnetChainConfig of Some e \<Rightarrow> e - 1 | None \<Rightarrow> 0)\<rparr>"



definition sample_shrinking :: "unit processor" where
  "sample_shrinking = sample_processor\<lparr>pInstance := (\<lambda>e. Validators.sample_instance\<lparr>numShards := (if e \<le> 2000 then 4 else 2)\<rparr>)\<rparr>"



definition sample_env :: "(unit, unit) stakeEnv" where
  "sample_env = \<lparr>seLib = sample_lib, seDecode = (\<lambda>_ _. Inl (Error ''none'')), seChain = sample_chain\<rparr>"

definition sample_full_block :: Block where
  "sample_full_block = \<lparr>bkHeader = sample_block, bkTransactions = [sample_tx], bkStakingTransactions = [], bkIncomingReceipts = [Some []],
     bkGasLimit = 1000000, bkSlashes = Inr []\<rparr>"


end
