(* ===== verification/GoHeap.thy ===== *)
theory GoHeap
  imports Prelude "HOL-Library.Multiset"
begin

text \<open>
  Binary heaps in slices, as the package \<open>container/heap\<close> of Go keeps them; the transaction pool orders its
  nonces and its prices by them. The order is a parameter, given by the method \<open>Less\<close> of the slice. The
  locale \<open>go_heap\<close> proves what the operations promise for any order that compares all elements.
\<close>

section \<open>Operations\<close>

definition parent :: "nat \<Rightarrow> nat" where
  "parent k = (k - 1) div 2"

definition heap_Swap :: "'a list \<Rightarrow> nat \<Rightarrow> nat \<Rightarrow> 'a list" where
  "heap_Swap h i j = h[i := h ! j, j := h ! i]"

function heap_up :: "('a \<Rightarrow> 'a \<Rightarrow> bool) \<Rightarrow> 'a list \<Rightarrow> nat \<Rightarrow> 'a list" where
  "heap_up lt h j =
     (let i = parent j
      in if i = j \<or> \<not> lt (h ! j) (h ! i) then h else heap_up lt (heap_Swap h i j) i)"
  by pat_completeness auto
termination by (relation "measure (\<lambda>(_, _, j). j)") (auto simp: parent_def)

function heap_down :: "('a \<Rightarrow> 'a \<Rightarrow> bool) \<Rightarrow> 'a list \<Rightarrow> nat \<Rightarrow> nat \<Rightarrow> 'a list \<times> nat" where
  "heap_down lt h i n =
     (let j1 = 2 * i + 1; j2 = j1 + 1; j = (if j2 < n \<and> lt (h ! j2) (h ! j1) then j2 else j1)
      in if j1 \<ge> n \<or> \<not> lt (h ! j) (h ! i) then (h, i) else heap_down lt (heap_Swap h i j) j n)"
  by pat_completeness auto
termination by (relation "measure (\<lambda>(_, _, i, n). n - i)") (auto simp: Let_def)

definition heap_Init :: "('a \<Rightarrow> 'a \<Rightarrow> bool) \<Rightarrow> 'a list \<Rightarrow> 'a list" where
  "heap_Init lt h = fold (\<lambda>i h. fst (heap_down lt h i (length h))) (rev [0..<length h div 2]) h"

definition heap_Push :: "('a \<Rightarrow> 'a \<Rightarrow> bool) \<Rightarrow> 'a list \<Rightarrow> 'a \<Rightarrow> 'a list" where
  "heap_Push lt h x = heap_up lt (h @ [x]) (length h)"

text \<open>Popping from an empty heap is a panic.\<close>

definition heap_Pop :: "('a \<Rightarrow> 'a \<Rightarrow> bool) \<Rightarrow> 'a list \<Rightarrow> ('a \<times> 'a list) option" where
  "heap_Pop lt h =
     (if h = [] then None
      else let n = length h - 1; h = fst (heap_down lt (heap_Swap h 0 n) 0 n)
           in Some (last h, butlast h))"

definition heap_Remove :: "('a \<Rightarrow> 'a \<Rightarrow> bool) \<Rightarrow> 'a list \<Rightarrow> nat \<Rightarrow> 'a list" where
  "heap_Remove lt h i =
     (let n = length h - 1
      in butlast (if n = i then h
                  else case heap_down lt (heap_Swap h i n) i n of
                         (h, k) \<Rightarrow> if k > i then h else heap_up lt h i))"

declare heap_up.simps [simp del] heap_down.simps [simp del]

section \<open>What they rearrange\<close>

lemma length_Swap [simp]: "length (heap_Swap h i j) = length h"
  by (simp add: heap_Swap_def)

lemma mset_Swap [simp]: "i < length h \<Longrightarrow> j < length h \<Longrightarrow> mset (heap_Swap h i j) = mset h"
  by (simp add: heap_Swap_def mset_swap)

lemma nth_Swap: "i < length h \<Longrightarrow> j < length h \<Longrightarrow> heap_Swap h i j ! k = (if k = j then h ! i else if k = i then h ! j else h ! k)"
  by (simp add: heap_Swap_def nth_list_update)

lemma parent_less: "0 < k \<Longrightarrow> parent k < k"
  by (auto simp: parent_def)

lemma parent_children: "0 < k \<Longrightarrow> parent k = i \<longleftrightarrow> k = 2 * i + 1 \<or> k = 2 * i + 2"
  by (auto simp: parent_def)

lemma length_up [simp]: "length (heap_up lt h j) = length h"
  by (induction lt h j rule: heap_up.induct) (subst heap_up.simps, simp add: Let_def)

lemma mset_up [simp]: "j < length h \<Longrightarrow> mset (heap_up lt h j) = mset h"
proof (induction lt h j rule: heap_up.induct)
  case (1 lt h j)
  then show ?case by (subst heap_up.simps) (auto simp: Let_def parent_def)
qed

lemma length_down [simp]: "length (fst (heap_down lt h i n)) = length h"
proof (induction lt h i n rule: heap_down.induct)
  case (1 lt h i n)
  show ?case by (subst heap_down.simps) (use 1 in \<open>simp add: Let_def\<close>)
qed

lemma mset_down [simp]: "n \<le> length h \<Longrightarrow> mset (fst (heap_down lt h i n)) = mset h"
proof (induction lt h i n rule: heap_down.induct)
  case (1 lt h i n)
  then show ?case by (subst heap_down.simps) (auto simp: Let_def)
qed

lemma down_keeps_rest: "n \<le> k \<Longrightarrow> k < length h \<Longrightarrow> fst (heap_down lt h i n) ! k = h ! k"
proof (induction lt h i n rule: heap_down.induct)
  case (1 lt h i n)
  then show ?case by (subst heap_down.simps) (auto simp: Let_def nth_Swap)
qed

lemma down_below: "i \<le> snd (heap_down lt h i n)"
proof (induction lt h i n rule: heap_down.induct)
  case (1 lt h i n)
  let ?j = "if 2 * i + 1 + 1 < n \<and> lt (h ! (2 * i + 1 + 1)) (h ! (2 * i + 1)) then 2 * i + 1 + 1 else 2 * i + 1"
  show ?case
  proof (cases "n \<le> 2 * i + 1 \<or> \<not> lt (h ! ?j) (h ! i)")
    case True
    then show ?thesis by (subst heap_down.simps) (simp only: Let_def if_True snd_conv order_refl)
  next
    case False
    have "?j \<le> snd (heap_down lt (heap_Swap h i ?j) ?j n)" by (rule 1 [OF HOL.refl HOL.refl HOL.refl]) (use False in simp)
    then have "i \<le> snd (heap_down lt (heap_Swap h i ?j) ?j n)" by (auto split: if_splits)
    then show ?thesis using False by (subst heap_down.simps) (simp only: Let_def if_False)
  qed
qed

lemma up_keeps_rest: "j < k \<Longrightarrow> k < length h \<Longrightarrow> heap_up lt h j ! k = h ! k"
proof (induction lt h j rule: heap_up.induct)
  case (1 lt h j)
  then show ?case by (subst heap_up.simps) (auto simp: Let_def nth_Swap parent_def)
qed

lemma length_Pop: "heap_Pop lt h = Some (x, h') \<Longrightarrow> length h = Suc (length h')"
  by (auto simp: heap_Pop_def Let_def split: if_splits)


section \<open>The heap order\<close>

definition heap_from :: "('a \<Rightarrow> 'a \<Rightarrow> bool) \<Rightarrow> nat \<Rightarrow> nat \<Rightarrow> 'a list \<Rightarrow> bool" where
  "heap_from lt lo n h \<longleftrightarrow> (\<forall>k. 0 < k \<and> k < n \<and> lo \<le> parent k \<longrightarrow> \<not> lt (h ! k) (h ! parent k))"

definition is_heap :: "('a \<Rightarrow> 'a \<Rightarrow> bool) \<Rightarrow> 'a list \<Rightarrow> bool" where
  "is_heap lt h \<longleftrightarrow> heap_from lt 0 (length h) h"

lemma heap_from_cong: "\<forall>k<n. h ! k = h' ! k \<Longrightarrow> heap_from lt lo n h = heap_from lt lo n h'"
  unfolding heap_from_def using parent_less by (metis order_less_trans)

lemma is_heap_butlast: "heap_from lt 0 (length h - 1) h \<Longrightarrow> is_heap lt (butlast h)"
  using heap_from_cong [of "length h - 1" "butlast h" h lt 0] by (simp add: is_heap_def nth_butlast)

locale go_heap =
  fixes lt :: "'a \<Rightarrow> 'a \<Rightarrow> bool"
  assumes asym: "lt a b \<Longrightarrow> \<not> lt b a"
    and trans: "\<not> lt b a \<Longrightarrow> \<not> lt c b \<Longrightarrow> \<not> lt c a"
begin

lemma irrefl: "\<not> lt a a"
  using asym by blast

text \<open>Sinking repairs a heap whose order is broken only below \<open>i\<close>.\<close>

lemma down_heap:
  assumes "n \<le> length h" "lo \<le> i"
    "\<forall>k. 0 < k \<and> k < n \<and> lo \<le> parent k \<and> parent k \<noteq> i \<longrightarrow> \<not> lt (h ! k) (h ! parent k)"
    "\<forall>k. 0 < k \<and> k < n \<and> parent k = i \<and> 0 < i \<and> lo \<le> parent i \<longrightarrow> \<not> lt (h ! k) (h ! parent i)"
  shows "heap_from lt lo n (fst (heap_down lt h i n))"
  using assms
proof (induction "n - i" arbitrary: h i rule: less_induct)
  case less
  let ?j1 = "2 * i + 1"
  define j where "j = (if ?j1 + 1 < n \<and> lt (h ! (?j1 + 1)) (h ! ?j1) then ?j1 + 1 else ?j1)"
  have step: "heap_down lt h i n = (if n \<le> ?j1 \<or> \<not> lt (h ! j) (h ! i) then (h, i) else heap_down lt (heap_Swap h i j) j n)"
    by (subst heap_down.simps) (simp only: Let_def j_def)
  have least: "\<not> lt (h ! k) (h ! j)" if "0 < k" "k < n" "parent k = i" for k
    using that asym irrefl by (auto simp: parent_children j_def)
  show ?case
  proof (cases "n \<le> ?j1 \<or> \<not> lt (h ! j) (h ! i)")
    case True
    have "\<not> lt (h ! k) (h ! i)" if k: "0 < k" "k < n" "parent k = i" for k
    proof -
      have "\<not> lt (h ! j) (h ! i)" using True k by (auto simp: parent_children)
      then show ?thesis using trans least [OF k] by blast
    qed
    then have "heap_from lt lo n h" using less.prems(3) by (auto simp: heap_from_def)
    then show ?thesis using True step by simp
  next
    case False
    let ?h = "heap_Swap h i j"
    have j: "i < j" "j < n" "parent j = i" "j < length h" "i < length h" using False less.prems(1) by (auto simp: parent_def j_def)
    note swap = nth_Swap [OF j(5,4)]
    have "heap_from lt lo n (fst (heap_down lt ?h j n))"
    proof (rule less.hyps)
      show "n - j < n - i" "n \<le> length ?h" "lo \<le> j" using j less.prems(1,2) by simp_all
      show "\<forall>k. 0 < k \<and> k < n \<and> lo \<le> parent k \<and> parent k \<noteq> j \<longrightarrow> \<not> lt (?h ! k) (?h ! parent k)"
      proof (intro allI impI, elim conjE)
        fix k assume k: "0 < k" "k < n" "lo \<le> parent k" "parent k \<noteq> j"
        consider "k = j" | "k \<noteq> j" "parent k = i" | "k = i" | "k \<noteq> j" "k \<noteq> i" "parent k \<noteq> i" by blast
        then show "\<not> lt (?h ! k) (?h ! parent k)"
        proof cases
          case 1
          then show ?thesis using False j asym [of "h ! j" "h ! i"] by (simp add: swap)
        next
          case 2
          then have "k \<noteq> i" using parent_less [OF k(1)] by auto
          then show ?thesis using 2 j least [OF k(1,2)] by (simp add: swap)
        next
          case 3
          then have "parent i < i" using parent_less k(1) by simp
          then show ?thesis using 3 k j less.prems(4) [rule_format, of j] by (auto simp: swap)
        next
          case 4
          then show ?thesis using k less.prems(3) by (simp add: swap)
        qed
      qed
      show "\<forall>k. 0 < k \<and> k < n \<and> parent k = j \<and> 0 < j \<and> lo \<le> parent j \<longrightarrow> \<not> lt (?h ! k) (?h ! parent j)"
      proof (intro allI impI, elim conjE)
        fix k assume k: "0 < k" "k < n" "parent k = j" "lo \<le> parent j"
        then have "j < k" using parent_less [of k] by simp
        then show "\<not> lt (?h ! k) (?h ! parent j)" using k j less.prems(2) less.prems(3) [rule_format, of k] by (simp add: swap)
      qed
    qed
    then show ?thesis using False step by simp
  qed
qed

text \<open>Rising repairs a heap whose order is broken only above \<open>j\<close>.\<close>

lemma up_heap:
  assumes "j < n" "n \<le> length h"
    "\<forall>k. 0 < k \<and> k < n \<and> k \<noteq> j \<longrightarrow> \<not> lt (h ! k) (h ! parent k)"
    "\<forall>k. 0 < k \<and> k < n \<and> parent k = j \<and> 0 < j \<longrightarrow> \<not> lt (h ! k) (h ! parent j)"
  shows "heap_from lt 0 n (heap_up lt h j)"
  using assms
proof (induction j arbitrary: h rule: less_induct)
  case (less j)
  show ?case
  proof (cases "parent j = j \<or> \<not> lt (h ! j) (h ! parent j)")
    case True
    then have "\<not> lt (h ! j) (h ! parent j)" if "0 < j" using parent_less [OF that] by auto
    then have "heap_from lt 0 n h" using less.prems(3) by (auto simp: heap_from_def)
    then show ?thesis using True by (subst heap_up.simps) (simp add: Let_def)
  next
    case False
    then have "0 < j" by (auto simp: parent_def)
    let ?i = "parent j"
    let ?h = "heap_Swap h ?i j"
    have i: "?i < j" "?i < length h" "j < length h" using parent_less [OF \<open>0 < j\<close>] less.prems(1,2) by simp_all
    note swap = nth_Swap [OF i(2,3)]
    have "heap_from lt 0 n (heap_up lt ?h ?i)"
    proof (rule less.IH)
      show "?i < j" "?i < n" "n \<le> length ?h" using i less.prems(1,2) by simp_all
      show "\<forall>k. 0 < k \<and> k < n \<and> k \<noteq> ?i \<longrightarrow> \<not> lt (?h ! k) (?h ! parent k)"
      proof (intro allI impI, elim conjE)
        fix k assume k: "0 < k" "k < n" "k \<noteq> ?i"
        consider "k = j" | "k \<noteq> j" "parent k = ?i" | "k \<noteq> j" "parent k = j" | "k \<noteq> j" "parent k \<noteq> ?i" "parent k \<noteq> j" by blast
        then show "\<not> lt (?h ! k) (?h ! parent k)"
        proof cases
          case 1
          then show ?thesis using False i asym [of "h ! j" "h ! ?i"] by (simp add: swap)
        next
          case 2
          then have "\<not> lt (h ! k) (h ! j)" using k less.prems(3) [rule_format, of k] False trans [of "h ! ?i" "h ! j" "h ! k"] asym [of "h ! j" "h ! ?i"] by simp
          then show ?thesis using 2 k i by (simp add: swap)
        next
          case 3
          then show ?thesis using k i less.prems(4) \<open>0 < j\<close> by (simp add: swap)
        next
          case 4
          then show ?thesis using k i less.prems(3) by (simp add: swap)
        qed
      qed
      show "\<forall>k. 0 < k \<and> k < n \<and> parent k = ?i \<and> 0 < ?i \<longrightarrow> \<not> lt (?h ! k) (?h ! parent ?i)"
      proof (intro allI impI, elim conjE)
        fix k assume k: "0 < k" "k < n" "parent k = ?i" "0 < ?i"
        have p: "parent ?i < ?i" by (rule parent_less [OF k(4)])
        have "\<not> lt (h ! ?i) (h ! parent ?i)" using less.prems(1,3) k i by simp
        then show "\<not> lt (?h ! k) (?h ! parent ?i)"
          using k i p less.prems(3) [rule_format, of k] trans [of "h ! ?i" "h ! parent ?i" "h ! k"] parent_less [OF k(1)] by (simp add: swap)
      qed
    qed
    then show ?thesis using False by (subst heap_up.simps) (simp add: Let_def)
  qed
qed

lemma root_least:
  assumes "is_heap lt h" "k < length h"
  shows "\<not> lt (h ! k) (h ! 0)"
  using assms(2)
proof (induction k rule: less_induct)
  case (less k)
  show ?case
  proof (cases "k = 0")
    case False
    then have "\<not> lt (h ! parent k) (h ! 0)" using less parent_less [of k] by simp
    moreover have "\<not> lt (h ! k) (h ! parent k)" using assms(1) less.prems False by (simp add: is_heap_def heap_from_def)
    ultimately show ?thesis by (rule trans)
  qed (simp add: irrefl)
qed

lemma Push_heap:
  assumes "is_heap lt h"
  shows "is_heap lt (heap_Push lt h x)" "mset (heap_Push lt h x) = add_mset x (mset h)"
proof -
  have p: "parent k < length h" if "0 < k" "k \<le> length h" for k using parent_less [OF that(1)] that by simp
  have "heap_from lt 0 (Suc (length h)) (heap_up lt (h @ [x]) (length h))"
    using assms by (intro up_heap) (auto simp: is_heap_def heap_from_def nth_append p parent_children)
  then show "is_heap lt (heap_Push lt h x)" by (simp add: heap_Push_def is_heap_def)
  show "mset (heap_Push lt h x) = add_mset x (mset h)" by (simp add: heap_Push_def)
qed

lemma Pop_heap:
  assumes "is_heap lt h" "h \<noteq> []"
  obtains h' where "heap_Pop lt h = Some (hd h, h')" "is_heap lt h'" "mset h = add_mset (hd h) (mset h')" "\<forall>x\<in>set h. \<not> lt x (hd h)"
proof -
  let ?n = "length h - 1"
  let ?s = "heap_Swap h 0 ?n"
  let ?d = "fst (heap_down lt ?s 0 ?n)"
  have n: "0 < length h" "?n < length h" using assms(2) by simp_all
  have len: "length ?d = length h" by simp
  then have ne: "?d \<noteq> []" using n(1) by (simp only: length_greater_0_conv [symmetric])
  have "?d ! ?n = h ! 0" using n down_keeps_rest [of ?n ?n ?s lt 0] by (simp add: nth_Swap)
  then have last: "last ?d = hd h" using last_conv_nth [OF ne] len hd_conv_nth [OF assms(2)] by simp
  have "heap_from lt 0 ?n ?d"
  proof (rule down_heap)
    show "\<forall>k. 0 < k \<and> k < ?n \<and> 0 \<le> parent k \<and> parent k \<noteq> 0 \<longrightarrow> \<not> lt (?s ! k) (?s ! parent k)"
    proof (intro allI impI, elim conjE)
      fix k assume k: "0 < k" "k < ?n" "parent k \<noteq> 0"
      then have "parent k < ?n" using parent_less [of k] by simp
      then show "\<not> lt (?s ! k) (?s ! parent k)" using k n assms(1) by (simp add: nth_Swap is_heap_def heap_from_def)
    qed
  qed (use n in auto)
  then have heap: "is_heap lt (butlast ?d)" using is_heap_butlast [of lt ?d] by simp
  have "butlast ?d @ [last ?d] = ?d" by (rule append_butlast_last_id [OF ne])
  then have "?d = butlast ?d @ [hd h]" using last by simp
  then have "mset ?d = mset (butlast ?d @ [hd h])" by (rule arg_cong)
  also have "\<dots> = add_mset (hd h) (mset (butlast ?d))" by simp
  finally have "mset ?d = add_mset (hd h) (mset (butlast ?d))" .
  then have "mset h = add_mset (hd h) (mset (butlast ?d))" using n by simp
  moreover have "\<forall>x\<in>set h. \<not> lt x (hd h)" using root_least [OF assms(1)] assms(2) by (auto simp: in_set_conv_nth hd_conv_nth)
  moreover have "heap_Pop lt h = Some (hd h, butlast ?d)" using assms(2) last by (simp add: heap_Pop_def Let_def)
  ultimately show thesis using that heap by blast
qed

lemma Init_heap: "is_heap lt (heap_Init lt h)" "mset (heap_Init lt h) = mset h"
proof -
  define f where "f = (\<lambda>i h. fst (heap_down lt h i (length h)))"
  have len: "length (fold f is h) = length h" for "is" and h :: "'a list" by (induction "is" arbitrary: h) (simp_all add: f_def)
  have ms: "mset (fold f is h) = mset h" for "is" and h :: "'a list" by (induction "is" arbitrary: h) (simp_all add: f_def)
  have "heap_from lt lo (length h) (fold f (rev [lo..<length h div 2]) h)" if "lo \<le> length h div 2" for lo
    using that
  proof (induction "length h div 2 - lo" arbitrary: lo)
    case 0
    then have "lo = length h div 2" by simp
    moreover have "\<not> (length h div 2 \<le> parent k)" if "0 < k" "k < length h" for k using that by (auto simp: parent_def)
    ultimately show ?case by (auto simp: heap_from_def)
  next
    case (Suc d)
    let ?h = "fold f (rev [Suc lo..<length h div 2]) h"
    have lo: "[lo..<length h div 2] = lo # [Suc lo..<length h div 2]" using Suc.hyps(2) by (simp add: upt_conv_Cons)
    have IH: "heap_from lt (Suc lo) (length h) ?h" using Suc.hyps(1) [of "Suc lo"] Suc.hyps(2) by simp
    have "heap_from lt lo (length h) (fst (heap_down lt ?h lo (length h)))"
    proof (rule down_heap)
      show "\<forall>k. 0 < k \<and> k < length h \<and> lo \<le> parent k \<and> parent k \<noteq> lo \<longrightarrow> \<not> lt (?h ! k) (?h ! parent k)"
        using IH by (auto simp: heap_from_def)
      show "\<forall>k. 0 < k \<and> k < length h \<and> parent k = lo \<and> 0 < lo \<and> lo \<le> parent lo \<longrightarrow> \<not> lt (?h ! k) (?h ! parent lo)"
        using parent_less [of lo] by auto
    qed (simp_all add: len)
    then show ?case by (simp add: lo f_def) (simp add: f_def [symmetric] len)
  qed
  from this [of 0] show "is_heap lt (heap_Init lt h)" by (simp add: is_heap_def heap_Init_def f_def [symmetric] len)
  show "mset (heap_Init lt h) = mset h" by (simp add: heap_Init_def f_def [symmetric] ms)
qed

lemma down_moves:
  assumes "n \<le> length h"
  shows "if snd (heap_down lt h i n) > i then \<exists>j. 0 < j \<and> j < n \<and> parent j = i \<and> lt (h ! j) (h ! i)
    else fst (heap_down lt h i n) = h \<and> (\<forall>k. 0 < k \<and> k < n \<and> parent k = i \<longrightarrow> \<not> lt (h ! k) (h ! i))"
proof -
  let ?j1 = "2 * i + 1"
  define j where "j = (if ?j1 + 1 < n \<and> lt (h ! (?j1 + 1)) (h ! ?j1) then ?j1 + 1 else ?j1)"
  have step: "heap_down lt h i n = (if n \<le> ?j1 \<or> \<not> lt (h ! j) (h ! i) then (h, i) else heap_down lt (heap_Swap h i j) j n)"
    by (subst heap_down.simps) (simp only: Let_def j_def)
  have least: "\<not> lt (h ! k) (h ! j)" if "0 < k" "k < n" "parent k = i" for k
    using that asym irrefl by (auto simp: parent_children j_def)
  have j: "0 < j" "parent j = i" "i < j" by (auto simp: j_def parent_def)
  show ?thesis
  proof (cases "n \<le> ?j1 \<or> \<not> lt (h ! j) (h ! i)")
    case True
    have "\<not> lt (h ! k) (h ! i)" if k: "0 < k" "k < n" "parent k = i" for k
    proof -
      have "\<not> lt (h ! j) (h ! i)" using True k by (auto simp: parent_children)
      then show ?thesis using least [OF k] by (rule trans)
    qed
    then show ?thesis using True step by simp
  next
    case False
    have "j < n" using False by (auto simp: j_def)
    have "j \<le> snd (heap_down lt (heap_Swap h i j) j n)" by (rule down_below)
    then have "i < snd (heap_down lt h i n)" using False step j by simp
    moreover have "0 < j \<and> j < n \<and> parent j = i \<and> lt (h ! j) (h ! i)" using False j \<open>j < n\<close> by simp
    ultimately show ?thesis by (simp only: if_True) blast
  qed
qed

lemma Remove_heap:
  assumes "is_heap lt h" "i < length h"
  shows "is_heap lt (heap_Remove lt h i)" "mset h = add_mset (h ! i) (mset (heap_Remove lt h i))"
proof -
  let ?n = "length h - 1"
  let ?s = "heap_Swap h i ?n"
  define r where "r = (if ?n = i then h else if snd (heap_down lt ?s i ?n) > i then fst (heap_down lt ?s i ?n) else heap_up lt ?s i)"
  have n: "?n < length h" using assms(2) by simp
  have heap: "\<not> lt (h ! k) (h ! parent k)" if "0 < k" "k < length h" for k using assms(1) that by (simp add: is_heap_def heap_from_def)
  note moves = down_moves [of ?n ?s i]
  have r: "heap_from lt 0 ?n r \<and> mset r = mset h \<and> length r = length h \<and> r ! ?n = h ! i"
  proof (cases "?n = i")
    case True
    then have "heap_from lt 0 ?n h" using heap assms(2) by (simp add: heap_from_def)
    then show ?thesis using True by (simp add: r_def)
  next
    case False
    then have i: "i < ?n" using assms(2) by simp
    note swap = nth_Swap [OF assms(2) n, unfolded One_nat_def]
    have near: "\<not> lt (?s ! k) (?s ! parent k)" if "0 < k" "k < ?n" "parent k \<noteq> i" "k \<noteq> i" for k
      using that heap parent_less [of k] by (simp add: swap)
    have over: "\<not> lt (?s ! k) (?s ! parent i)" if "0 < k" "k < ?n" "parent k = i" "0 < i" for k
    proof -
      have "\<not> lt (h ! k) (h ! i)" "\<not> lt (h ! i) (h ! parent i)" using heap [of k] heap [of i] that i by simp_all
      then have "\<not> lt (h ! k) (h ! parent i)" using trans [of "h ! i" "h ! parent i" "h ! k"] by blast
      then show ?thesis using that i parent_less [of k] parent_less [of i] by (simp add: swap)
    qed
    have last: "r ! ?n = h ! i"
      using i n down_keeps_rest [of ?n ?n ?s lt i] up_keeps_rest [of i ?n ?s lt] False by (simp add: r_def swap)
    show ?thesis
    proof (cases "snd (heap_down lt ?s i ?n) > i")
      case True
      then obtain j where j: "0 < j" "j < ?n" "parent j = i" "lt (?s ! j) (?s ! i)" using moves by auto
      have top: "\<not> lt (?s ! i) (?s ! parent i)" if "0 < i"
        using over [OF j(1-3) that] asym [OF j(4)] trans [of "?s ! j" "?s ! parent i" "?s ! i"] by blast
      have "heap_from lt 0 ?n (fst (heap_down lt ?s i ?n))"
      proof (rule down_heap)
        show "\<forall>k. 0 < k \<and> k < ?n \<and> 0 \<le> parent k \<and> parent k \<noteq> i \<longrightarrow> \<not> lt (?s ! k) (?s ! parent k)"
          using near top by (metis (no_types))
      qed (use over in auto)
      then show ?thesis using True False n assms(2) last by (simp add: r_def)
    next
      case F: False
      have "heap_from lt 0 ?n (heap_up lt ?s i)"
        by (rule up_heap) (use near over moves F i in auto)
      then show ?thesis using F False n assms(2) last by (simp add: r_def)
    qed
  qed
  have rem: "heap_Remove lt h i = butlast r"
    using moves by (auto simp: heap_Remove_def r_def Let_def split: prod.split)
  have len: "length r - 1 = ?n" "r \<noteq> []" using r assms(2) by auto
  show "is_heap lt (heap_Remove lt h i)" using is_heap_butlast [of lt r] r len rem by simp
  have "last r = h ! i" using last_conv_nth [OF len(2)] len(1) r by simp
  then have "r = butlast r @ [h ! i]" using append_butlast_last_id [OF len(2)] by simp
  then have "mset r = mset (butlast r @ [h ! i])" by (rule arg_cong)
  also have "\<dots> = add_mset (h ! i) (mset (butlast r))" by simp
  finally show "mset h = add_mset (h ! i) (mset (heap_Remove lt h i))" using r rem by simp
qed

end

end
