(* ===== verification/TxList.thy ===== *)
theory TxList
  imports GoHeap "HOL-Library.AList"
begin

text \<open>
  The transactions of one account in the pool (\<open>core/tx_list.go\<close>): a map from nonces to transactions with a
  heap of the nonces and a cache of the sorted list, and the list with its caps on cost and gas. A
  transaction is the record of what its accessors return. Go visits a map in any order; \<open>visit\<close> is the
  order, a permutation of the entries. A missing entry reads as the nil interface \<open>None\<close>.
\<close>

section \<open>Transactions of the pool\<close>

record PoolTx =
  ptHash :: Hash
  ptNonce :: uint64
  ptGasPrice :: int
  ptGasLimit :: uint64
  ptCost :: "int go"
  ptSender :: "Address go"
  ptStaking :: bool

type_synonym tx_items = "(uint64 \<times> PoolTx) list"

record txSortedMap =
  smItems :: tx_items
  smIndex :: "uint64 list"
  smCache :: "PoolTx list option"

definition newTxSortedMap :: txSortedMap where
  "newTxSortedMap = \<lparr>smItems = [], smIndex = [], smCache = None\<rparr>"

definition sm_Get :: "txSortedMap \<Rightarrow> uint64 \<Rightarrow> PoolTx option" where
  "sm_Get m nonce = map_of (smItems m) nonce"

definition sm_Put :: "txSortedMap \<Rightarrow> PoolTx \<Rightarrow> txSortedMap" where
  "sm_Put m tx =
     (let nonce = ptNonce tx
      in \<lparr>smItems = AList.update nonce tx (smItems m),
          smIndex = (if map_of (smItems m) nonce = None then heap_Push (<) (smIndex m) nonce else smIndex m),
          smCache = None\<rparr>)"

function forward_loop :: "tx_items \<Rightarrow> uint64 list \<Rightarrow> uint64 \<Rightarrow> PoolTx option list \<times> tx_items \<times> uint64 list" where
  "forward_loop items index threshold =
     (if index \<noteq> [] \<and> hd index < threshold
      then case heap_Pop (<) index of
             None \<Rightarrow> ([], items, index)
           | Some (nonce, index') \<Rightarrow>
               (case forward_loop (AList.delete nonce items) index' threshold of
                  (removed, items', index'') \<Rightarrow> (map_of items nonce # removed, items', index''))
      else ([], items, index))"
  by pat_completeness auto
termination by (relation "measure (\<lambda>(_, index, _). length index)") (auto dest: length_Pop)

text \<open>Slicing the cache beyond its end is a panic.\<close>

definition sm_Forward :: "txSortedMap \<Rightarrow> uint64 \<Rightarrow> (PoolTx option list \<times> txSortedMap) go" where
  "sm_Forward m threshold =
     (case forward_loop (smItems m) (smIndex m) threshold of
        (removed, items, index) \<Rightarrow>
          (case smCache m of
             None \<Rightarrow> Inr (removed, \<lparr>smItems = items, smIndex = index, smCache = None\<rparr>)
           | Some cache \<Rightarrow>
               if length removed > length cache then Inl (Panic ''slice bounds out of range'')
               else Inr (removed, \<lparr>smItems = items, smIndex = index, smCache = Some (drop (length removed) cache)\<rparr>)))"

definition rebuild :: "(tx_items \<Rightarrow> tx_items) \<Rightarrow> tx_items \<Rightarrow> txSortedMap" where
  "rebuild visit items = \<lparr>smItems = items, smIndex = heap_Init (<) (map fst (visit items)), smCache = None\<rparr>"

definition sm_Filter :: "(tx_items \<Rightarrow> tx_items) \<Rightarrow> txSortedMap \<Rightarrow> (PoolTx \<Rightarrow> bool) \<Rightarrow> PoolTx list \<times> txSortedMap" where
  "sm_Filter visit m drops =
     (let removed = filter drops (map snd (visit (smItems m)));
          items = filter (\<lambda>(_, tx). \<not> drops tx) (smItems m)
      in (removed, if length removed > 0 then rebuild visit items else m\<lparr>smItems := items\<rparr>))"

definition sm_FilterWithError ::
  "(tx_items \<Rightarrow> tx_items) \<Rightarrow> txSortedMap \<Rightarrow> (PoolTx \<Rightarrow> fault option) \<Rightarrow> PoolTx list \<times> fault list \<times> txSortedMap" where
  "sm_FilterWithError visit m check =
     (let removed = filter (\<lambda>tx. check tx \<noteq> None) (map snd (visit (smItems m)));
          items = filter (\<lambda>(_, tx). check tx = None) (smItems m)
      in (removed, map (\<lambda>tx. the (check tx)) removed, if length removed > 0 then rebuild visit items else m\<lparr>smItems := items\<rparr>))"

fun cap_loop :: "tx_items \<Rightarrow> uint64 list \<Rightarrow> nat \<Rightarrow> nat \<Rightarrow> (PoolTx option list \<times> tx_items) go" where
  "cap_loop items index threshold 0 = Inr ([], items)"
| "cap_loop items index threshold (Suc len) =
     (if Suc len > threshold
      then if len \<ge> length index then Inl (Panic ''index out of range'')
           else go_bind (cap_loop (AList.delete (index ! len) items) index threshold len) (\<lambda>(drops, items').
                  Inr (map_of items (index ! len) # drops, items'))
      else Inr ([], items))"

definition sm_Cap :: "txSortedMap \<Rightarrow> int \<Rightarrow> (PoolTx option list \<times> txSortedMap) go" where
  "sm_Cap m threshold =
     (if int (length (smItems m)) \<le> threshold then Inr ([], m)
      else if threshold < 0 then Inl (Panic ''index out of range'')
      else let index = sort (smIndex m)
           in go_bind (cap_loop (smItems m) index (nat threshold) (length (smItems m))) (\<lambda>(drops, items).
                case smCache m of
                  None \<Rightarrow> Inr (drops, \<lparr>smItems = items, smIndex = heap_Init (<) (take (nat threshold) index), smCache = None\<rparr>)
                | Some cache \<Rightarrow>
                    if length drops > length cache then Inl (Panic ''slice bounds out of range'')
                    else Inr (drops, \<lparr>smItems = items, smIndex = heap_Init (<) (take (nat threshold) index),
                                       smCache = Some (take (length cache - length drops) cache)\<rparr>)))"

fun index_of :: "uint64 \<Rightarrow> uint64 list \<Rightarrow> nat option" where
  "index_of nonce [] = None"
| "index_of nonce (n # ns) = (if n = nonce then Some 0 else map_option Suc (index_of nonce ns))"

definition sm_Remove :: "txSortedMap \<Rightarrow> uint64 \<Rightarrow> bool \<times> txSortedMap" where
  "sm_Remove m nonce =
     (if map_of (smItems m) nonce = None then (False, m)
      else (True, \<lparr>smItems = AList.delete nonce (smItems m),
                   smIndex = (case index_of nonce (smIndex m) of Some i \<Rightarrow> heap_Remove (<) (smIndex m) i | None \<Rightarrow> smIndex m),
                   smCache = None\<rparr>))"

function ready_loop :: "tx_items \<Rightarrow> uint64 list \<Rightarrow> uint64 \<Rightarrow> PoolTx option list \<times> tx_items \<times> uint64 list" where
  "ready_loop items index next =
     (if index \<noteq> [] \<and> hd index = next
      then case heap_Pop (<) index of
             None \<Rightarrow> ([], items, index)
           | Some (_, index') \<Rightarrow>
               (case ready_loop (AList.delete next items) index' (next + 1) of
                  (ready, items', index'') \<Rightarrow> (map_of items next # ready, items', index''))
      else ([], items, index))"
  by pat_completeness auto
termination by (relation "measure (\<lambda>(_, index, _). length index)") (auto dest: length_Pop)

definition sm_Ready :: "txSortedMap \<Rightarrow> uint64 \<Rightarrow> PoolTx option list \<times> txSortedMap" where
  "sm_Ready m start =
     (if smIndex m = [] \<or> hd (smIndex m) > start then ([], m)
      else case ready_loop (smItems m) (smIndex m) (hd (smIndex m)) of
             (ready, items, index) \<Rightarrow> (ready, \<lparr>smItems = items, smIndex = index, smCache = None\<rparr>))"

definition sm_Len :: "txSortedMap \<Rightarrow> nat" where
  "sm_Len m = length (smItems m)"

definition sm_Flatten :: "(tx_items \<Rightarrow> tx_items) \<Rightarrow> txSortedMap \<Rightarrow> PoolTx list \<times> txSortedMap" where
  "sm_Flatten visit m =
     (case smCache m of
        Some cache \<Rightarrow> (cache, m)
      | None \<Rightarrow> let cache = sort_key ptNonce (map snd (visit (smItems m))) in (cache, m\<lparr>smCache := Some cache\<rparr>))"

section \<open>The list of an account\<close>

record txList =
  tlStrict :: bool
  tlTxs :: txSortedMap
  lastStkCheck :: uint64
  costcap :: int
  gascap :: uint64

definition stakingTxCheckThreshold :: uint64 where
  "stakingTxCheckThreshold = 10"

definition newTxList :: "bool \<Rightarrow> txList" where
  "newTxList strict = \<lparr>tlStrict = strict, tlTxs = newTxSortedMap, lastStkCheck = 0, costcap = 0, gascap = 0\<rparr>"

definition tl_Overlaps :: "txList \<Rightarrow> PoolTx \<Rightarrow> bool" where
  "tl_Overlaps l tx \<longleftrightarrow> sm_Get (tlTxs l) (ptNonce tx) \<noteq> None"

definition tl_Add :: "txList \<Rightarrow> PoolTx \<Rightarrow> uint64 \<Rightarrow> bool \<times> PoolTx option \<times> txList" where
  "tl_Add l tx priceBump =
     (let old = sm_Get (tlTxs l) (ptNonce tx);
          better = (case old of None \<Rightarrow> False
                    | Some o' \<Rightarrow> ptGasPrice o' \<ge> ptGasPrice tx \<or> ediv (ptGasPrice o' * sint (100 + priceBump)) 100 > ptGasPrice tx)
      in if better then (False, None, l)
         else case ptCost tx of
                Inl _ \<Rightarrow> (False, None, l)
              | Inr cost \<Rightarrow>
                  (True, old, l\<lparr>tlTxs := sm_Put (tlTxs l) tx,
                                costcap := (if costcap l < cost then cost else costcap l),
                                gascap := (if gascap l < ptGasLimit tx then ptGasLimit tx else gascap l)\<rparr>))"

definition tl_Forward :: "txList \<Rightarrow> uint64 \<Rightarrow> (PoolTx option list \<times> txList) go" where
  "tl_Forward l threshold = go_bind (sm_Forward (tlTxs l) threshold) (\<lambda>(removed, m). Inr (removed, l\<lparr>tlTxs := m\<rparr>))"

text \<open>What the list asks of the pool: the balance of the account, the gas limit and the check of staking transactions.\<close>

record pool_view =
  pvBalance :: int
  pvMaxGas :: uint64
  pvValidateStakingTx :: "PoolTx \<Rightarrow> fault option"

definition filterWithError :: "(tx_items \<Rightarrow> tx_items) \<Rightarrow> txList \<Rightarrow> (PoolTx \<Rightarrow> fault option) \<Rightarrow> PoolTx list \<times> fault list \<times> txList" where
  "filterWithError visit l check =
     (case sm_FilterWithError visit (tlTxs l) check of (removed, errs, m) \<Rightarrow> (removed, errs, l\<lparr>tlTxs := m\<rparr>))"

definition too_costly :: "pool_view \<Rightarrow> PoolTx \<Rightarrow> fault option" where
  "too_costly pool tx =
     (case ptCost tx of
        Inl err \<Rightarrow> Some err
      | Inr cost \<Rightarrow>
          if cost > pvBalance pool then Some (Error ''not enough balance'')
          else if ptGasLimit tx > pvMaxGas pool then Some (Error ''exceed max transaction gas limit'')
          else None)"

definition filterPrice :: "(tx_items \<Rightarrow> tx_items) \<Rightarrow> pool_view \<Rightarrow> txList \<Rightarrow> PoolTx list \<times> fault list \<times> txList" where
  "filterPrice visit pool l =
     (if costcap l \<le> pvBalance pool \<and> gascap l \<le> pvMaxGas pool then ([], [], l)
      else filterWithError visit (l\<lparr>costcap := pvBalance pool, gascap := pvMaxGas pool\<rparr>) (too_costly pool))"

definition invalid_staking :: "pool_view \<Rightarrow> PoolTx \<Rightarrow> fault option" where
  "invalid_staking pool tx = (if ptStaking tx then pvValidateStakingTx pool tx else None)"

definition filterStaking :: "(tx_items \<Rightarrow> tx_items) \<Rightarrow> pool_view \<Rightarrow> txList \<Rightarrow> PoolTx list \<times> fault list \<times> txList" where
  "filterStaking visit pool l = filterWithError visit l (invalid_staking pool)"

definition tl_FilterValid ::
  "(tx_items \<Rightarrow> tx_items) \<Rightarrow> pool_view \<Rightarrow> txList \<Rightarrow> uint64 \<Rightarrow> PoolTx list \<times> fault list \<times> PoolTx list \<times> txList" where
  "tl_FilterValid visit pool l bn =
     (case filterPrice visit pool l of (removed, errs, l) \<Rightarrow>
      case (if bn \<ge> lastStkCheck l + stakingTxCheckThreshold
            then case filterStaking visit pool (l\<lparr>lastStkCheck := bn\<rparr>) of
                   (stkRemoved, errRemoved, l) \<Rightarrow> (removed @ stkRemoved, errs @ errRemoved, l)
            else (removed, errs, l)) of (removed, errs, l) \<Rightarrow>
      if tlStrict l \<and> length removed > 0
      then let lowest = fold (\<lambda>tx lowest. if lowest > ptNonce tx then ptNonce tx else lowest) removed (- 1)
           in case sm_Filter visit (tlTxs l) (\<lambda>tx. ptNonce tx > lowest) of
                (invalids, m) \<Rightarrow> (removed, errs, invalids, l\<lparr>tlTxs := m\<rparr>)
      else (removed, errs, [], l))"

definition tl_Cap :: "txList \<Rightarrow> int \<Rightarrow> (PoolTx option list \<times> txList) go" where
  "tl_Cap l threshold = go_bind (sm_Cap (tlTxs l) threshold) (\<lambda>(drops, m). Inr (drops, l\<lparr>tlTxs := m\<rparr>))"

definition tl_Remove :: "(tx_items \<Rightarrow> tx_items) \<Rightarrow> txList \<Rightarrow> PoolTx \<Rightarrow> bool \<times> PoolTx list \<times> txList" where
  "tl_Remove visit l tx =
     (let nonce = ptNonce tx
      in case sm_Remove (tlTxs l) nonce of
           (False, m) \<Rightarrow> (False, [], l\<lparr>tlTxs := m\<rparr>)
         | (True, m) \<Rightarrow>
             if tlStrict l
             then case sm_Filter visit m (\<lambda>tx. ptNonce tx > nonce) of (removed, m) \<Rightarrow> (True, removed, l\<lparr>tlTxs := m\<rparr>)
             else (True, [], l\<lparr>tlTxs := m\<rparr>))"

definition tl_Ready :: "txList \<Rightarrow> uint64 \<Rightarrow> PoolTx option list \<times> txList" where
  "tl_Ready l start = (case sm_Ready (tlTxs l) start of (ready, m) \<Rightarrow> (ready, l\<lparr>tlTxs := m\<rparr>))"

definition tl_Len :: "txList \<Rightarrow> nat" where
  "tl_Len l = sm_Len (tlTxs l)"

definition tl_Empty :: "txList \<Rightarrow> bool" where
  "tl_Empty l \<longleftrightarrow> tl_Len l = 0"

definition tl_Flatten :: "(tx_items \<Rightarrow> tx_items) \<Rightarrow> txList \<Rightarrow> PoolTx list \<times> txList" where
  "tl_Flatten visit l = (case sm_Flatten visit (tlTxs l) of (txs, m) \<Rightarrow> (txs, l\<lparr>tlTxs := m\<rparr>))"

declare forward_loop.simps [simp del] ready_loop.simps [simp del]


section \<open>Well-formed maps\<close>

interpretation nonces: go_heap "(<) :: uint64 \<Rightarrow> uint64 \<Rightarrow> bool"
  by unfold_locales auto

definition flat :: "tx_items \<Rightarrow> PoolTx list" where
  "flat items = sort_key ptNonce (map snd items)"

definition items_ok :: "tx_items \<Rightarrow> bool" where
  "items_ok items \<longleftrightarrow> distinct (map fst items) \<and> (\<forall>(n, tx)\<in>set items. ptNonce tx = n)"

definition index_ok :: "tx_items \<Rightarrow> uint64 list \<Rightarrow> bool" where
  "index_ok items index \<longleftrightarrow> is_heap (<) index \<and> mset index = mset (map fst items)"

definition sm_ok :: "txSortedMap \<Rightarrow> bool" where
  "sm_ok m \<longleftrightarrow> items_ok (smItems m) \<and> index_ok (smItems m) (smIndex m)
     \<and> (\<forall>cache. smCache m = Some cache \<longrightarrow> cache = flat (smItems m))"

definition sm_txs :: "txSortedMap \<Rightarrow> PoolTx list" where
  "sm_txs m = flat (smItems m)"

lemma flat_sorted: "sorted (map ptNonce (flat items))"
  by (simp add: flat_def)

lemma length_flat [simp]: "length (flat items) = length items"
  by (simp add: flat_def)

lemma items_nonces: "items_ok items \<Longrightarrow> map ptNonce (map snd items) = map fst items"
  by (auto simp: items_ok_def)

lemma flat_keys:
  assumes "items_ok items"
  shows "mset (map fst items) = mset (map ptNonce (flat items))"
  unfolding items_nonces [OF assms, symmetric] by (simp add: flat_def multiset.map_comp)

lemma flat_distinct: "items_ok items \<Longrightarrow> distinct (map ptNonce (flat items))"
  using mset_eq_imp_distinct_iff [OF flat_keys [of items]] by (simp add: items_ok_def)

lemma in_flat: "items_ok items \<Longrightarrow> tx \<in> set (flat items) \<longleftrightarrow> map_of items (ptNonce tx) = Some tx"
  by (force simp: flat_def items_ok_def)

lemma lookup_nonce: "items_ok items \<Longrightarrow> map_of items n = Some tx \<Longrightarrow> ptNonce tx = n"
  by (auto simp: items_ok_def dest: map_of_SomeD)

lemma flat_eq:
  assumes "items_ok items" "sorted (map ptNonce txs)" "distinct (map ptNonce txs)" "\<forall>tx. tx \<in> set txs \<longleftrightarrow> map_of items (ptNonce tx) = Some tx"
  shows "flat items = txs"
proof -
  have "set (flat items) = set txs" using in_flat [OF assms(1)] assms(4) by auto
  moreover have "inj_on ptNonce (set (flat items))" using flat_distinct [OF assms(1)] by (simp add: distinct_map)
  ultimately show ?thesis using map_sorted_distinct_set_unique [OF _ flat_sorted flat_distinct [OF assms(1)] assms(2,3)] by simp
qed

lemma flat_filter:
  assumes "\<forall>(n, tx)\<in>set items. P (n, tx) = Q tx"
  shows "flat (filter P items) = filter Q (flat items)"
proof -
  have "map snd (filter P items) = filter Q (map snd items)"
    using assms by (induction items) auto
  then show ?thesis by (simp add: flat_def filter_sort)
qed

lemma items_ok_filter: "items_ok items \<Longrightarrow> items_ok (filter P items)"
  by (auto simp: items_ok_def distinct_map inj_on_def)

lemma delete_ok:
  assumes "items_ok items"
  shows "items_ok (AList.delete n items)" "flat (AList.delete n items) = filter (\<lambda>tx. ptNonce tx \<noteq> n) (flat items)"
    "mset (map fst (AList.delete n items)) = mset (map fst items) - {#n#}"
proof -
  show "items_ok (AList.delete n items)" using items_ok_filter [OF assms] by (simp add: AList.delete_eq)
  show "flat (AList.delete n items) = filter (\<lambda>tx. ptNonce tx \<noteq> n) (flat items)"
    unfolding AList.delete_eq by (rule flat_filter) (use assms in \<open>auto simp: items_ok_def\<close>)
  have "map fst (AList.delete n items) = removeAll n (map fst items)"
    by (induction items) (auto simp: AList.delete_eq)
  then have "map fst (AList.delete n items) = remove1 n (map fst items)" using assms by (simp add: items_ok_def distinct_remove1_removeAll)
  then show "mset (map fst (AList.delete n items)) = mset (map fst items) - {#n#}" by simp
qed

text \<open>The root of the heap is the nonce of the first transaction.\<close>

lemma pop_first:
  assumes "items_ok items" "index_ok items index" "index \<noteq> []"
  obtains tx index' where "flat items = tx # flat (AList.delete (hd index) items)" "ptNonce tx = hd index" "map_of items (hd index) = Some tx"
    "heap_Pop (<) index = Some (hd index, index')" "items_ok (AList.delete (hd index) items)" "index_ok (AList.delete (hd index) items) index'"
proof -
  let ?n = "hd index"
  have heap: "is_heap (<) index" and ms: "mset index = mset (map fst items)" using assms(2) by (simp_all add: index_ok_def)
  from heap assms(3) obtain index' where p: "heap_Pop (<) index = Some (?n, index')" "is_heap (<) index'" "mset index = add_mset ?n (mset index')"
    "\<forall>x\<in>set index. \<not> x < ?n" by (rule nonces.Pop_heap)
  have keys: "set index = fst ` set items" using ms by (metis set_map set_mset_mset)
  then have "?n \<in> fst ` set items" using assms(3) by (metis list.set_sel(1))
  then obtain tx where t: "map_of items ?n = Some tx" by (metis map_of_eq_None_iff option.exhaust)
  then have n: "ptNonce tx = ?n" using lookup_nonce [OF assms(1)] by simp
  then have "tx \<in> set (flat items)" using in_flat [OF assms(1)] t by simp
  then obtain tx0 txs where f: "flat items = tx0 # txs" by (cases "flat items") auto
  have "map_of items (ptNonce tx0) = Some tx0" using in_flat [OF assms(1)] f by (metis list.set_intros(1))
  then have "ptNonce tx0 \<in> set index" using keys by (metis image_eqI map_of_SomeD fst_conv)
  then have "?n \<le> ptNonce tx0" using p(4) by (simp add: not_less)
  moreover have "ptNonce tx0 \<le> ?n" using flat_sorted [of items] f \<open>tx \<in> _\<close> n by auto
  ultimately have "ptNonce tx0 = ?n" by simp
  then have "tx0 = tx" using \<open>map_of items (ptNonce tx0) = _\<close> t by simp
  have "ptNonce x \<noteq> ?n" if "x \<in> set txs" for x using flat_distinct [OF assms(1)] f imageI [OF that, of ptNonce] \<open>ptNonce tx0 = ?n\<close> by auto
  then have "filter (\<lambda>tx. ptNonce tx \<noteq> ?n) (flat items) = txs" using f \<open>ptNonce tx0 = ?n\<close> by simp
  then have "flat items = tx # flat (AList.delete ?n items)" using delete_ok(2) [OF assms(1)] f \<open>tx0 = tx\<close> by simp
  moreover have "index_ok (AList.delete ?n items) index'" using p(2,3) ms delete_ok(3) [OF assms(1), of ?n] by (simp add: index_ok_def)
  ultimately show thesis using that n t p(1) delete_ok(1) [OF assms(1)] by blast
qed

lemma empty_index: "index_ok items [] \<Longrightarrow> items = []"
  by (simp add: index_ok_def)


section \<open>The operations on the sorted list\<close>

text \<open>The first transactions with consecutive nonces from \<open>n\<close> on.\<close>

fun run_from :: "uint64 \<Rightarrow> PoolTx list \<Rightarrow> PoolTx list" where
  "run_from n [] = []"
| "run_from n (tx # txs) = (if ptNonce tx = n then tx # run_from (n + 1) txs else [])"

lemma forward_loop_flat:
  assumes "items_ok items" "index_ok items index" "forward_loop items index threshold = (removed, items', index')"
  shows "removed = map Some (takeWhile (\<lambda>tx. ptNonce tx < threshold) (flat items)) \<and> flat items' = dropWhile (\<lambda>tx. ptNonce tx < threshold) (flat items)
    \<and> items_ok items' \<and> index_ok items' index'"
  using assms
proof (induction items index threshold arbitrary: removed items' index' rule: forward_loop.induct)
  case (1 items index threshold)
  show ?case
  proof (cases "index = []")
    case True
    then have "items = []" using 1(3) empty_index by simp
    then show ?thesis using 1 True by (simp add: forward_loop.simps [of _ "[]"] flat_def)
  next
    case False
    from 1(2,3) False obtain tx index1 where p: "flat items = tx # flat (AList.delete (hd index) items)" "ptNonce tx = hd index" "map_of items (hd index) = Some tx"
      "heap_Pop (<) index = Some (hd index, index1)" "items_ok (AList.delete (hd index) items)" "index_ok (AList.delete (hd index) items) index1"
      by (rule pop_first)
    show ?thesis
    proof (cases "hd index < threshold")
      case True
      obtain r1 i1 x1 where l: "forward_loop (AList.delete (hd index) items) index1 threshold = (r1, i1, x1)" by (metis prod_cases3)
      have "removed = map_of items (hd index) # r1" "items' = i1" "index' = x1"
        using 1(4) False True p(4) l forward_loop.simps [of items index "threshold"] by simp_all
      then show ?thesis using 1(1) [OF _ p(4) HOL.refl p(5,6) l] False True p(1-3) by simp
    next
      case F: False
      then have "removed = []" "items' = items" "index' = index" using 1(4) forward_loop.simps [of items index "threshold"] by simp_all
      then show ?thesis using F p(1,2) 1(2,3) by simp
    qed
  qed
qed

lemma ready_loop_flat:
  assumes "items_ok items" "index_ok items index" "ready_loop items index next = (ready, items', index')"
  shows "ready = map Some (run_from next (flat items)) \<and> flat items' = drop (length ready) (flat items) \<and> items_ok items' \<and> index_ok items' index'"
  using assms
proof (induction items index "next" arbitrary: ready items' index' rule: ready_loop.induct)
  case (1 items index "next")
  show ?case
  proof (cases "index = []")
    case True
    then have "items = []" using 1(3) empty_index by simp
    then show ?thesis using 1 True by (simp add: ready_loop.simps [of _ "[]"] flat_def)
  next
    case False
    from 1(2,3) False obtain tx index1 where p: "flat items = tx # flat (AList.delete (hd index) items)" "ptNonce tx = hd index" "map_of items (hd index) = Some tx"
      "heap_Pop (<) index = Some (hd index, index1)" "items_ok (AList.delete (hd index) items)" "index_ok (AList.delete (hd index) items) index1"
      by (rule pop_first)
    show ?thesis
    proof (cases "hd index = next")
      case True
      obtain r1 i1 x1 where l: "ready_loop (AList.delete next items) index1 (next + 1) = (r1, i1, x1)" by (metis prod_cases3)
      have "ready = map_of items next # r1" "items' = i1" "index' = x1"
        using 1(4) False True p(4) l ready_loop.simps [of items index "next"] by simp_all
      then show ?thesis using 1(1) [OF _ p(4) HOL.refl _ _ l] False True p by simp
    next
      case F: False
      then have "ready = []" "items' = items" "index' = index" using 1(4) ready_loop.simps [of items index "next"] by simp_all
      then show ?thesis using F p(1,2) 1(2,3) by simp
    qed
  qed
qed


lemma cap_loop_flat:
  assumes "items_ok items" "map ptNonce (flat items) = take len index" "length items = len"
  shows "\<exists>items'. cap_loop items index threshold len = Inr (map Some (rev (drop threshold (flat items))), items')
    \<and> items_ok items' \<and> flat items' = take threshold (flat items)"
  using assms
proof (induction len arbitrary: items)
  case 0
  then show ?case by (simp add: flat_def)
next
  case (Suc len)
  show ?case
  proof (cases "Suc len > threshold")
    case False
    then show ?thesis using Suc.prems by simp
  next
    case True
    let ?n = "index ! len"
    have l: "length (flat items) = Suc len" "len < length index"
      using Suc.prems(3) arg_cong [OF Suc.prems(2), of length] by (simp_all split: if_splits)
    then obtain txs tx where f: "flat items = txs @ [tx]" "length txs = len" by (metis length_Suc_conv_rev)
    have n: "ptNonce tx = ?n" "map ptNonce txs = take len index"
      using Suc.prems(2) f l(2) by (simp_all add: take_Suc_conv_app_nth)
    have t: "map_of items ?n = Some tx" using in_flat [OF Suc.prems(1), of tx] f n(1) by simp
    have "ptNonce x \<noteq> ?n" if "x \<in> set txs" for x
      using flat_distinct [OF Suc.prems(1)] f n(1) imageI [OF that, of ptNonce] by auto
    then have d: "flat (AList.delete ?n items) = txs" using delete_ok(2) [OF Suc.prems(1)] f n(1) by simp
    then have "length (AList.delete ?n items) = len" using f(2) length_flat by metis
    then obtain items' where "cap_loop (AList.delete ?n items) index threshold len = Inr (map Some (rev (drop threshold txs)), items')"
      "items_ok items'" "flat items' = take threshold txs"
      using Suc.IH [OF delete_ok(1) [OF Suc.prems(1)], of ?n] d n(2) by auto
    then show ?thesis using True l(2) t f by simp
  qed
qed

lemma sorted_index: "items_ok items \<Longrightarrow> index_ok items index \<Longrightarrow> sort index = map ptNonce (flat items)"
  using flat_keys flat_sorted by (intro properties_for_sort) (simp_all add: index_ok_def)

lemma sm_Put_flat:
  assumes "sm_ok m"
  shows "sm_ok (sm_Put m tx)" "sm_txs (sm_Put m tx) = insort_key ptNonce tx (filter (\<lambda>t. ptNonce t \<noteq> ptNonce tx) (sm_txs m))"
proof -
  let ?n = "ptNonce tx" and ?items = "AList.update (ptNonce tx) tx (smItems m)"
  have ok: "items_ok (smItems m)" "index_ok (smItems m) (smIndex m)" using assms by (simp_all add: sm_ok_def)
  have u: "map_of ?items = (map_of (smItems m))(?n \<mapsto> tx)" by (rule update_conv')
  have items: "items_ok ?items"
  proof -
    have d: "distinct (map fst ?items)" using ok(1) by (intro distinct_update) (simp add: items_ok_def)
    have "ptNonce t = n" if "(n, t) \<in> set ?items" for n t
    proof -
      have "map_of ?items n = Some t" using d that by simp
      then show ?thesis using u lookup_nonce [OF ok(1)] by (auto split: if_splits)
    qed
    then show ?thesis using d by (auto simp: items_ok_def)
  qed
  have keys: "map fst ?items = (if map_of (smItems m) ?n = None then map fst (smItems m) @ [?n] else map fst (smItems m))"
    by (auto simp: update_keys map_of_eq_None_iff)
  have "index_ok ?items (smIndex (sm_Put m tx))"
    using ok(2) nonces.Push_heap [of "smIndex m" ?n] by (auto simp: index_ok_def keys sm_Put_def Let_def)
  then show "sm_ok (sm_Put m tx)" using items by (simp add: sm_ok_def sm_Put_def Let_def)
  have "flat ?items = insort_key ptNonce tx (filter (\<lambda>t. ptNonce t \<noteq> ?n) (flat (smItems m)))"
  proof (rule flat_eq [OF items])
    have s: "sorted (map ptNonce (filter P (flat (smItems m))))" "distinct (map ptNonce (filter P (flat (smItems m))))" for P
      using flat_sorted flat_distinct [OF ok(1)] by (simp_all add: sorted_filter distinct_map_filter)
    show "sorted (map ptNonce (insort_key ptNonce tx (filter (\<lambda>t. ptNonce t \<noteq> ?n) (flat (smItems m)))))"
      using s by (simp add: sorted_insort_key)
    show "distinct (map ptNonce (insort_key ptNonce tx (filter (\<lambda>t. ptNonce t \<noteq> ?n) (flat (smItems m)))))"
      using s(2) by (auto simp: distinct_map distinct_insort set_insort_key inj_on_def)
    show "\<forall>t. t \<in> set (insort_key ptNonce tx (filter (\<lambda>t. ptNonce t \<noteq> ?n) (flat (smItems m)))) \<longleftrightarrow> map_of ?items (ptNonce t) = Some t"
      using in_flat [OF ok(1)] by (auto simp: u set_insort_key)
  qed
  then show "sm_txs (sm_Put m tx) = insort_key ptNonce tx (filter (\<lambda>t. ptNonce t \<noteq> ?n) (sm_txs m))"
    by (simp add: sm_txs_def sm_Put_def Let_def)
qed


definition visits :: "(tx_items \<Rightarrow> tx_items) \<Rightarrow> bool" where
  "visits visit \<longleftrightarrow> (\<forall>items. mset (visit items) = mset items)"

lemma rebuild_ok:
  assumes "visits visit" "items_ok items"
  shows "sm_ok (rebuild visit items)" "sm_txs (rebuild visit items) = flat items"
  using assms nonces.Init_heap [of "map fst (visit items)"] by (simp_all add: sm_ok_def index_ok_def sm_txs_def rebuild_def visits_def)

lemma sm_Filter_flat:
  assumes "visits visit" "sm_ok m" "sm_Filter visit m drops = (removed, m')"
  shows "mset removed = mset (filter drops (sm_txs m)) \<and> sm_ok m' \<and> sm_txs m' = filter (\<lambda>tx. \<not> drops tx) (sm_txs m)"
proof -
  let ?items = "filter (\<lambda>(_, tx). \<not> drops tx) (smItems m)"
  have ok: "items_ok (smItems m)" using assms(2) by (simp add: sm_ok_def)
  have r: "removed = filter drops (map snd (visit (smItems m)))" "m' = (if length removed > 0 then rebuild visit ?items else m\<lparr>smItems := ?items\<rparr>)"
    using assms(3) by (auto simp: sm_Filter_def Let_def)
  have ms: "mset removed = mset (filter drops (sm_txs m))"
    using assms(1) by (simp add: r(1) sm_txs_def flat_def visits_def)
  have f: "flat ?items = filter (\<lambda>tx. \<not> drops tx) (sm_txs m)" unfolding sm_txs_def by (rule flat_filter) auto
  show ?thesis
  proof (cases "removed = []")
    case True
    then have "filter drops (sm_txs m) = []" using ms by simp
    then have "\<forall>tx\<in>set (sm_txs m). \<not> drops tx" by (simp add: filter_empty_conv)
    then have "?items = smItems m" by (auto simp: filter_id_conv sm_txs_def flat_def)
    then show ?thesis using True r(2) ms f assms(2) by (simp add: sm_txs_def)
  next
    case False
    then show ?thesis using r(2) ms f rebuild_ok [OF assms(1) items_ok_filter [OF ok]] by simp
  qed
qed

text \<open>Filtering with errors removes the same transactions and reports one error for each.\<close>

lemma sm_FilterWithError_Filter:
  "sm_FilterWithError visit m check = (let r = sm_Filter visit m (\<lambda>tx. check tx \<noteq> None) in (fst r, map (\<lambda>tx. the (check tx)) (fst r), snd r))"
  by (simp add: sm_FilterWithError_def sm_Filter_def Let_def)

lemma index_of_Some: "n \<in> set ns \<Longrightarrow> \<exists>i. index_of n ns = Some i \<and> i < length ns \<and> ns ! i = n"
  by (induction ns) auto

lemma sm_Remove_flat:
  assumes "sm_ok m" "sm_Remove m n = (found, m')"
  shows "(found \<longleftrightarrow> (\<exists>tx\<in>set (sm_txs m). ptNonce tx = n)) \<and> sm_ok m' \<and> sm_txs m' = filter (\<lambda>tx. ptNonce tx \<noteq> n) (sm_txs m)"
proof -
  have ok: "items_ok (smItems m)" "index_ok (smItems m) (smIndex m)" using assms(1) by (simp_all add: sm_ok_def)
  have dom: "(\<exists>tx\<in>set (sm_txs m). ptNonce tx = n) \<longleftrightarrow> map_of (smItems m) n \<noteq> None"
  proof
    assume "\<exists>tx\<in>set (sm_txs m). ptNonce tx = n"
    then show "map_of (smItems m) n \<noteq> None" using in_flat [OF ok(1)] by (auto simp: sm_txs_def)
  next
    assume "map_of (smItems m) n \<noteq> None"
    then obtain tx where "map_of (smItems m) n = Some tx" by blast
    then show "\<exists>tx\<in>set (sm_txs m). ptNonce tx = n" using in_flat [OF ok(1), of tx] lookup_nonce [OF ok(1), of n tx] by (auto simp: sm_txs_def)
  qed
  show ?thesis
  proof (cases "map_of (smItems m) n = None")
    case True
    then have "found = False" "m' = m" using assms(2) by (simp_all add: sm_Remove_def)
    moreover have "filter (\<lambda>tx. ptNonce tx \<noteq> n) (sm_txs m) = sm_txs m" using dom True by (auto simp: filter_id_conv)
    ultimately show ?thesis using dom True assms(1) by simp
  next
    case False
    then have "n \<in> set (map fst (smItems m))" by (metis map_of_eq_None_iff set_map)
    then have "n \<in> set (smIndex m)" using ok(2) by (metis index_ok_def set_mset_mset)
    then obtain i where i: "index_of n (smIndex m) = Some i" "i < length (smIndex m)" "smIndex m ! i = n" using index_of_Some by blast
    have heap: "is_heap (<) (smIndex m)" using ok(2) by (simp add: index_ok_def)
    note r = nonces.Remove_heap [OF heap i(2)]
    have m': "m' = \<lparr>smItems = AList.delete n (smItems m), smIndex = heap_Remove (<) (smIndex m) i, smCache = None\<rparr>" "found"
      using assms(2) False i(1) by (auto simp: sm_Remove_def)
    have "mset (heap_Remove (<) (smIndex m) i) = mset (map fst (smItems m)) - {#n#}"
      using r(2) i(3) ok(2) by (metis add_mset_remove_trivial index_ok_def)
    then have "index_ok (smItems m') (smIndex m')" using r(1) delete_ok(3) [OF ok(1), of n] m' by (simp add: index_ok_def)
    then show ?thesis using m' dom False delete_ok(1,2) [OF ok(1)] by (simp add: sm_ok_def sm_txs_def)
  qed
qed

lemma sm_Cap_flat:
  assumes "sm_ok m"
  shows "\<exists>m'. sm_Cap m (int k) = Inr (map Some (rev (drop k (sm_txs m))), m') \<and> sm_ok m' \<and> sm_txs m' = take k (sm_txs m)"
proof (cases "length (smItems m) \<le> k")
  case True
  then show ?thesis using assms by (simp add: sm_Cap_def sm_txs_def)
next
  case False
  have ok: "items_ok (smItems m)" "index_ok (smItems m) (smIndex m)" using assms by (simp_all add: sm_ok_def)
  note s = sorted_index [OF ok]
  obtain items where c: "cap_loop (smItems m) (sort (smIndex m)) k (length (smItems m)) = Inr (map Some (rev (drop k (flat (smItems m)))), items)"
    "items_ok items" "flat items = take k (flat (smItems m))"
    using cap_loop_flat [OF ok(1), of "length (smItems m)" "sort (smIndex m)" k] s by auto
  have i: "index_ok items (heap_Init (<) (take k (sort (smIndex m))))"
    using nonces.Init_heap flat_keys [OF c(2)] c(3) s by (simp add: index_ok_def take_map)
  have cache: "take (length (flat (smItems m)) - (length (smItems m) - k)) (flat (smItems m)) = take k (flat (smItems m))"
    using False by simp
  show ?thesis
  proof (cases "smCache m")
    case None
    then show ?thesis using False c i by (simp add: sm_Cap_def sm_txs_def sm_ok_def)
  next
    case (Some cache)
    then have "cache = flat (smItems m)" using assms by (simp add: sm_ok_def)
    then show ?thesis using Some False c i cache by (simp add: sm_Cap_def sm_txs_def sm_ok_def)
  qed
qed


lemma sm_Forward_flat:
  assumes "sm_ok m"
  shows "\<exists>m'. sm_Forward m threshold = Inr (map Some (takeWhile (\<lambda>tx. ptNonce tx < threshold) (sm_txs m)), m') \<and> sm_ok m'
    \<and> sm_txs m' = dropWhile (\<lambda>tx. ptNonce tx < threshold) (sm_txs m)"
proof -
  let ?old = "\<lambda>tx. ptNonce tx < threshold" and ?txs = "flat (smItems m)"
  have ok: "items_ok (smItems m)" "index_ok (smItems m) (smIndex m)" using assms by (simp_all add: sm_ok_def)
  obtain removed items index where l: "forward_loop (smItems m) (smIndex m) threshold = (removed, items, index)" by (metis prod_cases3)
  note f = forward_loop_flat [OF ok l]
  have cache: "length (takeWhile ?old ?txs) \<le> length ?txs" "drop (length (takeWhile ?old ?txs)) ?txs = dropWhile ?old ?txs"
    by (simp_all add: length_takeWhile_le dropWhile_eq_drop del: length_flat)
  show ?thesis
  proof (cases "smCache m")
    case None
    then show ?thesis using l f by (simp add: sm_Forward_def sm_txs_def sm_ok_def)
  next
    case (Some c)
    then have "c = ?txs" using assms by (simp add: sm_ok_def)
    then show ?thesis using Some l f cache by (simp add: sm_Forward_def sm_txs_def sm_ok_def)
  qed
qed

lemma sm_Ready_flat:
  assumes "sm_ok m" "sm_Ready m start = (ready, m')"
  shows "ready = map Some (if sm_txs m = [] \<or> start < ptNonce (hd (sm_txs m)) then [] else run_from (ptNonce (hd (sm_txs m))) (sm_txs m))
    \<and> sm_ok m' \<and> sm_txs m' = drop (length ready) (sm_txs m)"
proof -
  have ok: "items_ok (smItems m)" "index_ok (smItems m) (smIndex m)" using assms(1) by (simp_all add: sm_ok_def)
  show ?thesis
  proof (cases "smIndex m = []")
    case True
    then have "smItems m = []" using ok(2) by (simp add: empty_index)
    then show ?thesis using assms True by (simp add: sm_Ready_def sm_txs_def flat_def)
  next
    case False
    from ok False obtain tx where hd: "sm_txs m = tx # flat (AList.delete (hd (smIndex m)) (smItems m))" "ptNonce tx = hd (smIndex m)"
      unfolding sm_txs_def by (rule pop_first)
    obtain r items index where l: "ready_loop (smItems m) (smIndex m) (hd (smIndex m)) = (r, items, index)" by (metis prod_cases3)
    note f = ready_loop_flat [OF ok l]
    show ?thesis
    proof (cases "hd (smIndex m) > start")
      case True
      then show ?thesis using assms hd by (simp add: sm_Ready_def)
    next
      case F: False
      then have "ready = r" "m' = \<lparr>smItems = items, smIndex = index, smCache = None\<rparr>" using assms(2) False l by (simp_all add: sm_Ready_def)
      then show ?thesis using F f hd by (simp add: sm_ok_def sm_txs_def)
    qed
  qed
qed

lemma sm_Flatten_flat:
  assumes "visits visit" "sm_ok m" "sm_Flatten visit m = (txs, m')"
  shows "txs = sm_txs m \<and> sm_ok m' \<and> sm_txs m' = sm_txs m"
proof (cases "smCache m")
  case None
  have ok: "items_ok (smItems m)" using assms(2) by (simp add: sm_ok_def)
  have m: "mset (map snd (visit (smItems m))) = mset (map snd (smItems m))" using assms(1) by (simp add: visits_def)
  have inj: "inj_on ptNonce (set (map snd (smItems m)))" using flat_distinct [OF ok] by (simp add: flat_def distinct_map)
  have "sort_key ptNonce (map snd (visit (smItems m))) = flat (smItems m)"
    unfolding flat_def using m inj by (metis (no_types) mset_sort properties_for_sort_key sort_key_inj_key_eq sorted_sort_key)
  then show ?thesis using None assms by (auto simp: sm_Flatten_def sm_txs_def sm_ok_def Let_def)
qed (use assms in \<open>auto simp: sm_Flatten_def sm_txs_def sm_ok_def\<close>)


lemma sm_Get_flat:
  assumes "sm_ok m"
  shows "sm_Get m n = find (\<lambda>tx. ptNonce tx = n) (sm_txs m)"
proof -
  have ok: "items_ok (smItems m)" using assms by (simp add: sm_ok_def)
  show ?thesis
  proof (cases "find (\<lambda>tx. ptNonce tx = n) (sm_txs m)")
    case None
    then have "map_of (smItems m) n \<noteq> Some tx" for tx
      using in_flat [OF ok, of tx] lookup_nonce [OF ok, of n tx] by (auto simp: find_None_iff sm_txs_def)
    then show ?thesis using None by (cases "map_of (smItems m) n") (auto simp: sm_Get_def)
  next
    case (Some tx)
    then have "tx \<in> set (sm_txs m)" "ptNonce tx = n" by (auto simp: find_Some_iff)
    then show ?thesis using Some in_flat [OF ok, of tx] by (simp add: sm_Get_def sm_txs_def)
  qed
qed


text \<open>
  \<open>Ready\<close> returns the transactions below the start only as far as they are consecutive, so some may stay
  behind.
\<close>

definition sample_pool_tx :: "uint64 \<Rightarrow> int \<Rightarrow> PoolTx" where
  "sample_pool_tx n price = \<lparr>ptHash = ucast n, ptNonce = n, ptGasPrice = price, ptGasLimit = 21000, ptCost = Inr (21000 * price), ptSender = Inr 7, ptStaking = False\<rparr>"

definition sample_map :: txSortedMap where
  "sample_map = sm_Put (sm_Put (sm_Put newTxSortedMap (sample_pool_tx 5 1)) (sample_pool_tx 1 1)) (sample_pool_tx 3 1)"

lemma sample_map_ok: "sm_ok sample_map"
  unfolding sample_map_def by (intro sm_Put_flat(1)) (simp add: sm_ok_def newTxSortedMap_def items_ok_def index_ok_def is_heap_def heap_from_def)

lemma sample_map_txs: "sm_txs sample_map = [sample_pool_tx 1 1, sample_pool_tx 3 1, sample_pool_tx 5 1]"
proof -
  have e: "sm_ok newTxSortedMap" "sm_txs newTxSortedMap = []"
    by (simp_all add: sm_ok_def newTxSortedMap_def items_ok_def index_ok_def is_heap_def heap_from_def sm_txs_def flat_def)
  note 1 = sm_Put_flat [OF e(1), of "sample_pool_tx 5 1"] note 2 = sm_Put_flat [OF 1(1), of "sample_pool_tx 1 1"]
  show ?thesis unfolding sample_map_def sm_Put_flat(2) [OF 2(1)] 2(2) 1(2) e(2) by (simp add: sample_pool_tx_def word_le_nat_alt)
qed


lemma Ready_leaves_lower_nonces: "fst (sm_Ready sample_map 4) = [Some (sample_pool_tx 1 1)] \<and> sample_pool_tx 3 1 \<in> set (sm_txs (snd (sm_Ready sample_map 4)))"
  using sm_Ready_flat [OF sample_map_ok, of 4 "fst (sm_Ready sample_map 4)" "snd (sm_Ready sample_map 4)"]
  by (simp add: sample_map_txs) (simp add: sample_pool_tx_def word_less_nat_alt)


section \<open>Filtering the list of an account\<close>

definition tl_txs :: "txList \<Rightarrow> PoolTx list" where
  "tl_txs l = sm_txs (tlTxs l)"

text \<open>The caps bound the cost and the gas of everything in the list.\<close>

definition tl_ok :: "txList \<Rightarrow> bool" where
  "tl_ok l \<longleftrightarrow> sm_ok (tlTxs l) \<and> (\<forall>tx\<in>set (tl_txs l). (\<exists>cost. ptCost tx = Inr cost \<and> cost \<le> costcap l) \<and> ptGasLimit tx \<le> gascap l)"

definition contiguous :: "PoolTx list \<Rightarrow> bool" where
  "contiguous txs \<longleftrightarrow> (\<forall>tx \<in> set (take 1 txs). run_from (ptNonce tx) txs = txs)"

lemma run_from_take: "run_from n (take k txs) = take k (run_from n txs)"
  by (induction txs arbitrary: n k) (auto simp: take_Cons split: nat.split)

lemma contiguous_take: "contiguous txs \<Longrightarrow> contiguous (take k txs)"
  by (cases k) (auto simp: contiguous_def run_from_take take_Suc)

lemma filterWithError_flat:
  assumes "visits visit" "sm_ok (tlTxs l)" "filterWithError visit l check = (removed, errs, l')"
  shows "length errs = length removed" "mset removed = mset (filter (\<lambda>tx. check tx \<noteq> None) (tl_txs l))"
    "sm_ok (tlTxs l')" "tl_txs l' = filter (\<lambda>tx. check tx = None) (tl_txs l)" "l' = l\<lparr>tlTxs := tlTxs l'\<rparr>"
proof -
  obtain r m where rm: "sm_Filter visit (tlTxs l) (\<lambda>tx. check tx \<noteq> None) = (r, m)" by fastforce
  then have f: "sm_Filter visit (tlTxs l) (\<lambda>tx. check tx \<noteq> None) = (removed, m)" "errs = map (\<lambda>tx. the (check tx)) removed" "l' = l\<lparr>tlTxs := m\<rparr>"
    using assms(3) unfolding filterWithError_def sm_FilterWithError_Filter rm by auto
  show "length errs = length removed" "mset removed = mset (filter (\<lambda>tx. check tx \<noteq> None) (tl_txs l))"
    "sm_ok (tlTxs l')" "tl_txs l' = filter (\<lambda>tx. check tx = None) (tl_txs l)" "l' = l\<lparr>tlTxs := tlTxs l'\<rparr>"
    using sm_Filter_flat [OF assms(1,2) f(1)] f(2,3) by (simp_all add: tl_txs_def)
qed

lemma filterPrice_flat:
  assumes "visits visit" "tl_ok l" "filterPrice visit pool l = (removed, errs, l')"
  shows "length errs = length removed" "mset removed = mset (filter (\<lambda>tx. too_costly pool tx \<noteq> None) (tl_txs l))"
    "tl_ok l'" "tl_txs l' = filter (\<lambda>tx. too_costly pool tx = None) (tl_txs l)" "tlStrict l' = tlStrict l" "lastStkCheck l' = lastStkCheck l"
proof -
  have "length errs = length removed \<and> mset removed = mset (filter (\<lambda>tx. too_costly pool tx \<noteq> None) (tl_txs l))
    \<and> tl_ok l' \<and> tl_txs l' = filter (\<lambda>tx. too_costly pool tx = None) (tl_txs l) \<and> tlStrict l' = tlStrict l \<and> lastStkCheck l' = lastStkCheck l"
  proof (cases "costcap l \<le> pvBalance pool \<and> gascap l \<le> pvMaxGas pool")
    case True
    have none: "too_costly pool tx = None" if "tx \<in> set (tl_txs l)" for tx
    proof -
      obtain cost where "ptCost tx = Inr cost" "cost \<le> costcap l" "ptGasLimit tx \<le> gascap l" using assms(2) \<open>tx \<in> _\<close> by (auto simp: tl_ok_def)
      then show ?thesis using True by (auto simp: too_costly_def not_less intro: order_trans)
    qed
    have "filter (\<lambda>tx. too_costly pool tx \<noteq> None) (tl_txs l) = []" "filter (\<lambda>tx. too_costly pool tx = None) (tl_txs l) = tl_txs l"
      using none by (auto simp: filter_empty_conv filter_id_conv)
    then show ?thesis using True assms(2,3) by (auto simp: filterPrice_def)
  next
    case False
    let ?l = "l\<lparr>costcap := pvBalance pool, gascap := pvMaxGas pool\<rparr>"
    have ok: "sm_ok (tlTxs ?l)" using assms(2) by (simp add: tl_ok_def)
    have r: "filterWithError visit ?l (too_costly pool) = (removed, errs, l')" using False assms(3) by (auto simp: filterPrice_def)
    note f = filterWithError_flat [OF assms(1) ok r]
    have "(\<exists>cost. ptCost tx = Inr cost \<and> cost \<le> pvBalance pool) \<and> ptGasLimit tx \<le> pvMaxGas pool" if "too_costly pool tx = None" for tx
      using that by (auto simp: too_costly_def split: sum.splits if_splits)
    moreover have "costcap l' = pvBalance pool" "gascap l' = pvMaxGas pool" "tlStrict l' = tlStrict l" "lastStkCheck l' = lastStkCheck l" "tl_txs ?l = tl_txs l"
      by (subst f(5), simp)+ (simp add: tl_txs_def)
    ultimately show ?thesis using f(1-4) by (auto simp: tl_ok_def)
  qed
  then show "length errs = length removed" "mset removed = mset (filter (\<lambda>tx. too_costly pool tx \<noteq> None) (tl_txs l))"
    "tl_ok l'" "tl_txs l' = filter (\<lambda>tx. too_costly pool tx = None) (tl_txs l)" "tlStrict l' = tlStrict l" "lastStkCheck l' = lastStkCheck l" by simp_all
qed


text \<open>Both filters together: what the pool rejects now.\<close>

definition rejected :: "pool_view \<Rightarrow> bool \<Rightarrow> PoolTx \<Rightarrow> bool" where
  "rejected pool check_staking tx \<longleftrightarrow> too_costly pool tx \<noteq> None \<or> check_staking \<and> invalid_staking pool tx \<noteq> None"

lemma lowest_nonce:
  fixes removed :: "PoolTx list"
  defines "low \<equiv> fold (\<lambda>tx lowest. if lowest > ptNonce tx then ptNonce tx else lowest) removed"
  shows "low a \<le> a" "\<forall>tx\<in>set removed. low a \<le> ptNonce tx" "low a = a \<or> (\<exists>tx\<in>set removed. ptNonce tx = low a)"
proof -
  have "low a \<le> a \<and> (\<forall>tx\<in>set removed. low a \<le> ptNonce tx) \<and> (low a = a \<or> (\<exists>tx\<in>set removed. ptNonce tx = low a))"
    unfolding low_def
  proof (induction removed arbitrary: a)
    case (Cons tx txs)
    from Cons [of "if a > ptNonce tx then ptNonce tx else a"] show ?case by (auto split: if_splits intro: order_trans)
  qed simp
  then show "low a \<le> a" "\<forall>tx\<in>set removed. low a \<le> ptNonce tx" "low a = a \<or> (\<exists>tx\<in>set removed. ptNonce tx = low a)" by simp_all
qed

lemma prefix_of_sorted: "sorted (map f xs) \<Longrightarrow> filter (\<lambda>x. f x < (n :: 'b :: linorder)) xs = takeWhile (\<lambda>x. f x < n) xs"
proof (induction xs)
  case (Cons x xs)
  show ?case
  proof (cases "f x < n")
    case False
    have "f x \<le> f y" if "y \<in> set xs" for y using Cons.prems that by simp
    then have "\<not> f y < n" if "y \<in> set xs" for y using False that by (meson le_less_trans)
    then show ?thesis using False by (simp add: filter_empty_conv)
  qed (use Cons in simp)
qed simp

lemma strict_rest:
  fixes txs removed :: "PoolTx list"
  assumes "sorted (map ptNonce txs)" "distinct (map ptNonce txs)" "mset removed = mset (filter bad txs)" "removed \<noteq> []"
    "low = fold (\<lambda>tx lowest. if lowest > ptNonce tx then ptNonce tx else lowest) removed (- 1)"
  shows "filter (\<lambda>tx. \<not> low < ptNonce tx) (filter (\<lambda>tx. \<not> bad tx) txs) = takeWhile (\<lambda>tx. ptNonce tx < low) txs" "\<exists>b\<in>set removed. ptNonce b = low"
proof -
  have rem: "set removed = {tx \<in> set txs. bad tx}" using arg_cong [OF assms(3), of set_mset] by auto
  note low = lowest_nonce [of removed "- 1", folded assms(5)]
  have "\<exists>b\<in>set removed. ptNonce b = low"
  proof (cases "low = - 1")
    case True
    moreover have "hd removed \<in> set removed" using assms(4) by simp
    ultimately show ?thesis using low(2) word_order.extremum_unique by blast
  qed (use low(3) in blast)
  then obtain b where b: "b \<in> set removed" "ptNonce b = low" by blast
  then show "\<exists>b\<in>set removed. ptNonce b = low" by blast
  have inj: "inj_on ptNonce (set txs)" using assms(2) by (simp add: distinct_map)
  have "(\<not> bad tx \<and> \<not> low < ptNonce tx) = (ptNonce tx < low)" if "tx \<in> set txs" for tx
  proof
    assume a: "\<not> bad tx \<and> \<not> low < ptNonce tx"
    have "tx \<noteq> b" using a b(1) rem by auto
    then have "ptNonce tx \<noteq> low" using inj b rem that by (auto simp: inj_on_def)
    then show "ptNonce tx < low" using a by (auto simp: not_less)
  next
    assume a: "ptNonce tx < low"
    then have "tx \<notin> set removed" using low(2) by auto
    then show "\<not> bad tx \<and> \<not> low < ptNonce tx" using a rem that by auto
  qed
  then have "filter (\<lambda>tx. \<not> low < ptNonce tx) (filter (\<lambda>tx. \<not> bad tx) txs) = filter (\<lambda>tx. ptNonce tx < low) txs"
    unfolding filter_filter by (intro filter_cong) auto
  then show "filter (\<lambda>tx. \<not> low < ptNonce tx) (filter (\<lambda>tx. \<not> bad tx) txs) = takeWhile (\<lambda>tx. ptNonce tx < low) txs"
    using prefix_of_sorted [OF assms(1)] by simp
qed

lemma filter_twice:
  "mset (filter P xs) + mset (filter (\<lambda>x. \<not> P x \<and> Q x) xs) = mset (filter (\<lambda>x. P x \<or> Q x) xs)"
  by (induction xs) auto

lemma filters_flat:
  assumes "tl_ok l" "visits visit" "filterPrice visit pool l = (r1, e1, l1)"
    "(if bn \<ge> lastStkCheck l1 + stakingTxCheckThreshold then case filterStaking visit pool (l1\<lparr>lastStkCheck := bn\<rparr>) of
        (stkRemoved, errRemoved, l) \<Rightarrow> (r1 @ stkRemoved, e1 @ errRemoved, l) else (r1, e1, l1)) = (r2, e2, l2)"
    "bad = rejected pool (lastStkCheck l + stakingTxCheckThreshold \<le> bn)"
  shows "length e2 = length r2 \<and> mset r2 = mset (filter bad (tl_txs l)) \<and> tl_ok l2 \<and> tl_txs l2 = filter (\<lambda>tx. \<not> bad tx) (tl_txs l) \<and> tlStrict l2 = tlStrict l"
proof -
  note p = filterPrice_flat [OF assms(2,1,3)]
  show ?thesis
  proof (cases "lastStkCheck l + stakingTxCheckThreshold \<le> bn")
    case False
    then show ?thesis using assms(4,5) p by (simp add: rejected_def)
  next
    case True
    obtain r e l3 where f: "filterWithError visit (l1\<lparr>lastStkCheck := bn\<rparr>) (invalid_staking pool) = (r, e, l3)" by (metis prod_cases3)
    then have e: "r2 = r1 @ r" "e2 = e1 @ e" "l2 = l3" using assms(4) True p(6) by (simp_all add: filterStaking_def)
    have "sm_ok (tlTxs (l1\<lparr>lastStkCheck := bn\<rparr>))" using p(3) by (simp add: tl_ok_def)
    note g = filterWithError_flat [OF assms(2) this f]
    have txs: "tl_txs (l1\<lparr>lastStkCheck := bn\<rparr>) = tl_txs l1" by (simp add: tl_txs_def)
    have caps: "costcap l3 = costcap l1" "gascap l3 = gascap l1" "tlStrict l3 = tlStrict l1" by (subst g(5), simp)+
    have bad: "bad = (\<lambda>tx. too_costly pool tx \<noteq> None \<or> invalid_staking pool tx \<noteq> None)" using True assms(5) by (simp add: rejected_def fun_eq_iff)
    have "mset r2 = mset (filter bad (tl_txs l))"
      using filter_twice [of "\<lambda>tx. too_costly pool tx \<noteq> None" "tl_txs l" "\<lambda>tx. invalid_staking pool tx \<noteq> None"] p(2,4) g(2) txs by (simp add: e bad)
    moreover have "tl_ok l3" using p(3) g(3,4) caps by (auto simp: tl_ok_def txs)
    moreover have "tl_txs l3 = filter (\<lambda>tx. \<not> bad tx) (tl_txs l)" using g(4) p(4) txs by (simp add: bad conj_commute)
    ultimately show ?thesis using e p g(1) caps(3) by simp
  qed
qed

text \<open>
  C22: Before a block the list of an account drops exactly what is no longer valid: every transaction it
  reports as removed costs more than the balance, exceeds the gas limit or is a staking transaction that
  fails its check, with one error for each; no transaction that is too costly stays behind, even when the caps on cost and gas
  spare the scan; and nothing is lost, each transaction is kept, removed or handed back. Strict lists
  hand back what comes after a removed nonce, so consecutive nonces stay consecutive.
\<close>

theorem FilterValid_exact:
  assumes "tl_ok l" "visits visit" "tl_FilterValid visit pool l bn = (removed, errs, invalids, l')"
  shows "tl_ok l' \<and> mset (tl_txs l) = mset removed + mset invalids + mset (tl_txs l') \<and> length errs = length removed
    \<and> mset removed = mset (filter (rejected pool (lastStkCheck l + stakingTxCheckThreshold \<le> bn)) (tl_txs l))
    \<and> (\<forall>tx\<in>set (tl_txs l'). \<not> rejected pool (lastStkCheck l + stakingTxCheckThreshold \<le> bn) tx)
    \<and> (tlStrict l \<longrightarrow> contiguous (tl_txs l) \<longrightarrow> contiguous (tl_txs l'))
    \<and> (if tlStrict l then \<forall>tx\<in>set invalids. \<exists>r\<in>set removed. ptNonce r < ptNonce tx else invalids = [])"
proof -
  let ?bad = "rejected pool (lastStkCheck l + stakingTxCheckThreshold \<le> bn)"
  obtain r1 e1 l1 where 1: "filterPrice visit pool l = (r1, e1, l1)" by (metis prod_cases3)
  obtain r2 e2 l2 where 2: "(if bn \<ge> lastStkCheck l1 + stakingTxCheckThreshold then case filterStaking visit pool (l1\<lparr>lastStkCheck := bn\<rparr>) of
      (stkRemoved, errRemoved, l) \<Rightarrow> (r1 @ stkRemoved, e1 @ errRemoved, l) else (r1, e1, l1)) = (r2, e2, l2)" by (metis prod_cases3)
  note s = filters_flat [OF assms(1,2) 1 2 HOL.refl]
  have parts: "mset r2 + mset (tl_txs l2) = mset (tl_txs l)" using s by simp
  show ?thesis
  proof (cases "tlStrict l \<and> r2 \<noteq> []")
    case False
    then have r: "removed = r2" "errs = e2" "invalids = []" "l' = l2" using assms(3) 1 2 s by (auto simp: tl_FilterValid_def)
    have same: "tl_txs l2 = tl_txs l" if "tlStrict l"
    proof -
      have "mset (filter ?bad (tl_txs l)) = {#}" using s that False by simp
      then have "filter ?bad (tl_txs l) = []" by (metis mset_zero_iff)
      then show ?thesis using s by (simp add: filter_empty_conv filter_id_conv)
    qed
    have "\<forall>tx\<in>set (tl_txs l2). \<not> ?bad tx" using s by simp
    then show ?thesis using s r same parts by simp
  next
    case True
    define low where "low = fold (\<lambda>tx lowest. if lowest > ptNonce tx then ptNonce tx else lowest) r2 (- 1)"
    obtain inv m where i: "sm_Filter visit (tlTxs l2) (\<lambda>tx. ptNonce tx > low) = (inv, m)" by fastforce
    have r: "removed = r2" "errs = e2" "invalids = inv" "l' = l2\<lparr>tlTxs := m\<rparr>" using assms(3) 1 2 s True i by (auto simp: tl_FilterValid_def low_def)
    have "sm_ok (tlTxs l2)" using s by (simp add: tl_ok_def)
    note f = sm_Filter_flat [OF assms(2) this i]
    have txs': "tl_txs l' = filter (\<lambda>tx. \<not> low < ptNonce tx) (tl_txs l2)" "mset inv = mset (filter (\<lambda>tx. low < ptNonce tx) (tl_txs l2))"
      using f r(4) by (simp_all add: tl_txs_def)
    have sorted: "sorted (map ptNonce (tl_txs l))" "distinct (map ptNonce (tl_txs l))"
      using assms(1) flat_sorted flat_distinct by (simp_all add: tl_ok_def tl_txs_def sm_txs_def sm_ok_def)
    have "mset r2 = mset (filter ?bad (tl_txs l))" "r2 \<noteq> []" using s True by simp_all
    note rest = strict_rest [OF sorted this low_def]
    have "tl_txs l' = takeWhile (\<lambda>tx. ptNonce tx < low) (tl_txs l)" using txs'(1) rest(1) s by simp
    then have contig: "contiguous (tl_txs l) \<Longrightarrow> contiguous (tl_txs l')" using contiguous_take takeWhile_eq_take by metis
    have "tl_ok l'" using s f txs'(1) r(4) by (auto simp: tl_ok_def tl_txs_def)
    moreover have "if tlStrict l then \<forall>tx\<in>set invalids. \<exists>b\<in>set removed. ptNonce b < ptNonce tx else invalids = []"
      using arg_cong [OF txs'(2), of set_mset] rest(2) r True by auto
    moreover have "mset (tl_txs l) = mset removed + mset invalids + mset (tl_txs l')"
    proof -
      have "mset (tl_txs l2) = mset inv + mset (tl_txs l')" using txs' by simp
      then show ?thesis using parts r(1,3) by (simp add: add.assoc)
    qed
    moreover have "\<forall>tx\<in>set (tl_txs l'). \<not> ?bad tx" using txs'(1) s by simp
    moreover have "length errs = length removed" "mset removed = mset (filter ?bad (tl_txs l))" using s r(1,2) by simp_all
    ultimately show ?thesis using contig by blast
  qed
qed


section \<open>Adding to the list\<close>

text \<open>A transaction replaces one with the same nonce only at a price raised by the required percentage.\<close>

lemma tl_Add_exact:
  assumes "tl_ok l" "tl_Add l tx priceBump = (accepted, old, l')"
  shows "tl_ok l'" "accepted \<Longrightarrow> old = find (\<lambda>t. ptNonce t = ptNonce tx) (tl_txs l)"
    "accepted \<Longrightarrow> tl_txs l' = insort_key ptNonce tx (filter (\<lambda>t. ptNonce t \<noteq> ptNonce tx) (tl_txs l))" "\<not> accepted \<Longrightarrow> l' = l"
    "accepted \<Longrightarrow> old = Some o' \<Longrightarrow> ptGasPrice o' < ptGasPrice tx \<and> ediv (ptGasPrice o' * sint (100 + priceBump)) 100 \<le> ptGasPrice tx"
proof -
  have ok: "sm_ok (tlTxs l)" using assms(1) by (simp add: tl_ok_def)
  note put = sm_Put_flat [OF ok, of tx]
  have a: "l' = (if accepted then l\<lparr>tlTxs := sm_Put (tlTxs l) tx, costcap := max (costcap l) (projr (ptCost tx)), gascap := max (gascap l) (ptGasLimit tx)\<rparr> else l)
    \<and> (accepted \<longrightarrow> old = sm_Get (tlTxs l) (ptNonce tx) \<and> (\<exists>cost. ptCost tx = Inr cost)
       \<and> (\<forall>o'. old = Some o' \<longrightarrow> ptGasPrice o' < ptGasPrice tx \<and> ediv (ptGasPrice o' * sint (100 + priceBump)) 100 \<le> ptGasPrice tx))"
    using assms(2) by (auto simp: tl_Add_def Let_def max_def not_le not_less split: if_splits sum.splits option.splits)
  then show "accepted \<Longrightarrow> old = find (\<lambda>t. ptNonce t = ptNonce tx) (tl_txs l)" "\<not> accepted \<Longrightarrow> l' = l"
    "accepted \<Longrightarrow> old = Some o' \<Longrightarrow> ptGasPrice o' < ptGasPrice tx \<and> ediv (ptGasPrice o' * sint (100 + priceBump)) 100 \<le> ptGasPrice tx"
    using sm_Get_flat [OF ok] by (auto simp: tl_txs_def)
  show t: "accepted \<Longrightarrow> tl_txs l' = insort_key ptNonce tx (filter (\<lambda>t. ptNonce t \<noteq> ptNonce tx) (tl_txs l))"
    using a put(2) by (simp add: tl_txs_def)
  show "tl_ok l'"
  proof (cases accepted)
    case True
    then have "set (tl_txs l') \<subseteq> insert tx (set (tl_txs l))" using t by (auto simp: set_insort_key)
    then have "(\<exists>cost. ptCost t = Inr cost \<and> cost \<le> costcap l') \<and> ptGasLimit t \<le> gascap l'" if "t \<in> set (tl_txs l')" for t
      using that a True assms(1) by (fastforce simp: tl_ok_def max_def)
    then show ?thesis using a True put(1) by (simp add: tl_ok_def)
  qed (use a assms(1) in simp)
qed

definition sample_list :: txList where
  "sample_list = snd (snd (tl_Add (snd (snd (tl_Add (snd (snd (tl_Add (newTxList True) (sample_pool_tx 2 100) 10))) (sample_pool_tx 3 1) 10))) (sample_pool_tx 1 1) 10))"

definition sample_view :: pool_view where
  "sample_view = \<lparr>pvBalance = 100000, pvMaxGas = 50000, pvValidateStakingTx = (\<lambda>_. None)\<rparr>"

lemma tl_Add_new: "tl_ok l \<Longrightarrow> \<forall>t\<in>set (tl_txs l). ptNonce t \<noteq> ptNonce tx \<Longrightarrow> ptCost tx = Inr cost \<Longrightarrow>
  tl_ok (snd (snd (tl_Add l tx bump))) \<and> tl_txs (snd (snd (tl_Add l tx bump))) = insort_key ptNonce tx (tl_txs l) \<and> tlStrict (snd (snd (tl_Add l tx bump))) = tlStrict l"
proof -
  assume a: "tl_ok l" "\<forall>t\<in>set (tl_txs l). ptNonce t \<noteq> ptNonce tx" "ptCost tx = Inr cost"
  have "sm_Get (tlTxs l) (ptNonce tx) = None" using a(1,2) sm_Get_flat [of "tlTxs l" "ptNonce tx"] by (auto simp: tl_ok_def tl_txs_def find_None_iff)
  then have r: "fst (tl_Add l tx bump)" "tlStrict (snd (snd (tl_Add l tx bump))) = tlStrict l" using a(3) by (simp_all add: tl_Add_def)
  obtain accepted old l' where t: "tl_Add l tx bump = (accepted, old, l')" by (metis prod_cases3)
  have "filter (\<lambda>t. ptNonce t \<noteq> ptNonce tx) (tl_txs l) = tl_txs l" using a(2) by (auto simp: filter_id_conv)
  then show ?thesis using tl_Add_exact(1,3) [OF a(1) t] r t by simp
qed

lemma sample_list_ok: "tl_ok sample_list" "tl_txs sample_list = [sample_pool_tx 1 1, sample_pool_tx 2 100, sample_pool_tx 3 1]" "tlStrict sample_list"
proof -
  have e: "tl_ok (newTxList True)" "tl_txs (newTxList True) = []" "tlStrict (newTxList True)"
    by (simp_all add: tl_ok_def tl_txs_def newTxList_def sm_ok_def newTxSortedMap_def items_ok_def index_ok_def is_heap_def heap_from_def sm_txs_def flat_def)
  define l1 where "l1 = snd (snd (tl_Add (newTxList True) (sample_pool_tx 2 100) 10))"
  define l2 where "l2 = snd (snd (tl_Add l1 (sample_pool_tx 3 1) 10))"
  have 1: "tl_ok l1 \<and> tl_txs l1 = [sample_pool_tx 2 100] \<and> tlStrict l1"
    using tl_Add_new [OF e(1), of "sample_pool_tx 2 100" _ 10] e by (simp add: l1_def) (simp add: sample_pool_tx_def)
  then have 2: "tl_ok l2 \<and> tl_txs l2 = [sample_pool_tx 2 100, sample_pool_tx 3 1] \<and> tlStrict l2"
    using tl_Add_new [of l1 "sample_pool_tx 3 1" _ 10] by (simp add: l2_def) (simp add: sample_pool_tx_def word_le_nat_alt)
  have "sample_list = snd (snd (tl_Add l2 (sample_pool_tx 1 1) 10))" by (simp only: sample_list_def l1_def l2_def)
  then show "tl_ok sample_list" "tl_txs sample_list = [sample_pool_tx 1 1, sample_pool_tx 2 100, sample_pool_tx 3 1]" "tlStrict sample_list"
    using 2 tl_Add_new [of l2 "sample_pool_tx 1 1" _ 10] by (simp_all add: sample_pool_tx_def word_le_nat_alt)
qed

theorem FilterValid_exact_witness:
  "\<exists>errs invalids l'. tl_FilterValid id sample_view sample_list 5 = ([sample_pool_tx 2 100], errs, invalids, l')
     \<and> length errs = 1 \<and> contiguous (tl_txs l') \<and> mset invalids + mset (tl_txs l') = {#sample_pool_tx 3 1, sample_pool_tx 1 1#}"
proof -
  have v: "visits id" by (simp add: visits_def)
  obtain removed errs invalids l' where f: "tl_FilterValid id sample_view sample_list 5 = (removed, errs, invalids, l')" by (metis prod_cases4)
  note e = FilterValid_exact [OF sample_list_ok(1) v f]
  have bad: "filter (rejected sample_view b) (tl_txs sample_list) = [sample_pool_tx 2 100]" for b
    by (simp add: sample_list_ok(2)) (simp add: rejected_def too_costly_def invalid_staking_def sample_view_def sample_pool_tx_def word_less_nat_alt)
  then have r: "removed = [sample_pool_tx 2 100]" using e by simp
  have c: "contiguous (tl_txs sample_list)" by (simp add: sample_list_ok(2) contiguous_def) (simp add: sample_pool_tx_def)
  have "mset invalids + mset (tl_txs l') = {#sample_pool_tx 3 1, sample_pool_tx 1 1#}"
    using e r by (simp add: sample_list_ok(2))
  then show ?thesis using f e r c sample_list_ok(3) by simp
qed

end
