(* ===== verification/PricedList.thy ===== *)
theory PricedList
  imports TxList
begin

text \<open>
  The prices of the pool (\<open>core/tx_list.go\<close>, with \<open>txLookup\<close> and \<open>accountSet\<close> of \<open>core/tx_pool.go\<close>): a heap of all
  transactions by price that is cleaned lazily. A transaction that left the pool stays in the heap until
  it comes up or a quarter of the heap is stale. The lookup is shared with the pool and is an argument.
\<close>

section \<open>Lookup and local accounts\<close>

type_synonym txLookup = "(Hash \<times> PoolTx) list"

definition newTxLookup :: txLookup where
  "newTxLookup = []"

definition lookup_Get :: "txLookup \<Rightarrow> Hash \<Rightarrow> PoolTx option" where
  "lookup_Get t hash = map_of t hash"

definition lookup_Count :: "txLookup \<Rightarrow> nat" where
  "lookup_Count t = length t"

definition lookup_Add :: "txLookup \<Rightarrow> PoolTx \<Rightarrow> txLookup" where
  "lookup_Add t tx = AList.update (ptHash tx) tx t"

definition lookup_Remove :: "txLookup \<Rightarrow> Hash \<Rightarrow> txLookup" where
  "lookup_Remove t hash = AList.delete hash t"

record accountSet =
  asAccounts :: "Address set"
  asCache :: "Address list option"

definition newAccountSet :: accountSet where
  "newAccountSet = \<lparr>asAccounts = {}, asCache = None\<rparr>"

definition as_contains :: "accountSet \<Rightarrow> Address \<Rightarrow> bool" where
  "as_contains s addr \<longleftrightarrow> addr \<in> asAccounts s"

definition as_containsTx :: "accountSet \<Rightarrow> PoolTx \<Rightarrow> bool" where
  "as_containsTx s tx \<longleftrightarrow> (case ptSender tx of Inr addr \<Rightarrow> as_contains s addr | Inl _ \<Rightarrow> False)"

definition as_add :: "accountSet \<Rightarrow> Address \<Rightarrow> accountSet" where
  "as_add s addr = \<lparr>asAccounts = insert addr (asAccounts s), asCache = None\<rparr>"

definition as_flatten :: "(Address set \<Rightarrow> Address list) \<Rightarrow> accountSet \<Rightarrow> Address list \<times> accountSet" where
  "as_flatten visit s =
     (case asCache s of
        Some accounts \<Rightarrow> (accounts, s)
      | None \<Rightarrow> (visit (asAccounts s), s\<lparr>asCache := Some (visit (asAccounts s))\<rparr>))"

section \<open>The heap of prices\<close>

text \<open>The cheaper transaction first; at the same price the one with the higher nonce.\<close>

definition price_less :: "PoolTx \<Rightarrow> PoolTx \<Rightarrow> bool" where
  "price_less a b \<longleftrightarrow> ptGasPrice a < ptGasPrice b \<or> ptGasPrice a = ptGasPrice b \<and> ptNonce a > ptNonce b"

record txPricedList =
  plItems :: "PoolTx list"
  plStales :: int

definition newTxPricedList :: txPricedList where
  "newTxPricedList = \<lparr>plItems = [], plStales = 0\<rparr>"

definition pl_Put :: "txPricedList \<Rightarrow> PoolTx \<Rightarrow> txPricedList" where
  "pl_Put l tx = l\<lparr>plItems := heap_Push price_less (plItems l) tx\<rparr>"

definition pl_Removed :: "(txLookup \<Rightarrow> txLookup) \<Rightarrow> txLookup \<Rightarrow> txPricedList \<Rightarrow> txPricedList" where
  "pl_Removed visit all l =
     (if plStales l + 1 \<le> int (length (plItems l) div 4) then l\<lparr>plStales := plStales l + 1\<rparr>
      else \<lparr>plItems = heap_Init price_less (map snd (visit all)), plStales = 0\<rparr>)"

function cap_items :: "txLookup \<Rightarrow> accountSet \<Rightarrow> int \<Rightarrow> PoolTx list \<Rightarrow> int \<Rightarrow> PoolTx list \<times> PoolTx list \<times> PoolTx list \<times> int" where
  "cap_items all locals threshold items stales =
     (case heap_Pop price_less items of
        None \<Rightarrow> ([], [], items, stales)
      | Some (tx, rest) \<Rightarrow>
          if lookup_Get all (ptHash tx) = None then cap_items all locals threshold rest (stales - 1)
          else if ptGasPrice tx \<ge> threshold then ([], [tx], rest, stales)
          else case cap_items all locals threshold rest stales of
                 (dropped, save, items', stales') \<Rightarrow>
                   if as_containsTx locals tx then (dropped, tx # save, items', stales') else (tx # dropped, save, items', stales'))"
  by pat_completeness auto
termination by (relation "measure (\<lambda>(_, _, _, items, _). length items)") (auto dest: length_Pop)

definition pl_Cap :: "txLookup \<Rightarrow> txPricedList \<Rightarrow> int \<Rightarrow> accountSet \<Rightarrow> PoolTx list \<times> txPricedList" where
  "pl_Cap all l threshold locals =
     (case cap_items all locals threshold (plItems l) (plStales l) of
        (dropped, save, items, stales) \<Rightarrow> (dropped, \<lparr>plItems = fold (\<lambda>tx h. heap_Push price_less h tx) save items, plStales = stales\<rparr>))"

function drop_stale :: "txLookup \<Rightarrow> PoolTx list \<Rightarrow> int \<Rightarrow> PoolTx list \<times> int" where
  "drop_stale all items stales =
     (if items \<noteq> [] \<and> lookup_Get all (ptHash (hd items)) = None
      then case heap_Pop price_less items of None \<Rightarrow> (items, stales) | Some (_, rest) \<Rightarrow> drop_stale all rest (stales - 1)
      else (items, stales))"
  by pat_completeness auto
termination by (relation "measure (\<lambda>(_, items, _). length items)") (auto dest: length_Pop)

definition pl_Underpriced :: "txLookup \<Rightarrow> txPricedList \<Rightarrow> PoolTx \<Rightarrow> accountSet \<Rightarrow> bool \<times> txPricedList" where
  "pl_Underpriced all l tx locals =
     (if as_containsTx locals tx then (False, l)
      else case drop_stale all (plItems l) (plStales l) of
             (items, stales) \<Rightarrow> (items \<noteq> [] \<and> ptGasPrice (hd items) \<ge> ptGasPrice tx, \<lparr>plItems = items, plStales = stales\<rparr>))"

function discard_items :: "txLookup \<Rightarrow> accountSet \<Rightarrow> PoolTx list \<Rightarrow> int \<Rightarrow> int \<Rightarrow> PoolTx list \<times> PoolTx list \<times> PoolTx list \<times> int" where
  "discard_items all locals items cnt stales =
     (if cnt \<le> 0 then ([], [], items, stales)
      else case heap_Pop price_less items of
             None \<Rightarrow> ([], [], items, stales)
           | Some (tx, rest) \<Rightarrow>
               if lookup_Get all (ptHash tx) = None then discard_items all locals rest cnt (stales - 1)
               else if as_containsTx locals tx
               then (case discard_items all locals rest cnt stales of (dropped, save, items', stales') \<Rightarrow> (dropped, tx # save, items', stales'))
               else (case discard_items all locals rest (cnt - 1) stales of (dropped, save, items', stales') \<Rightarrow> (tx # dropped, save, items', stales')))"
  by pat_completeness auto
termination by (relation "measure (\<lambda>(_, _, items, _, _). length items)") (auto dest: length_Pop)

definition pl_Discard :: "txLookup \<Rightarrow> txPricedList \<Rightarrow> int \<Rightarrow> accountSet \<Rightarrow> PoolTx list \<times> txPricedList" where
  "pl_Discard all l cnt locals =
     (case discard_items all locals (plItems l) cnt (plStales l) of
        (dropped, save, items, stales) \<Rightarrow> (dropped, \<lparr>plItems = fold (\<lambda>tx h. heap_Push price_less h tx) save items, plStales = stales\<rparr>))"

declare cap_items.simps [simp del] drop_stale.simps [simp del] discard_items.simps [simp del]

section \<open>What is dropped\<close>

interpretation prices: go_heap price_less
  by unfold_locales (auto simp: price_less_def)

definition tracked :: "txLookup \<Rightarrow> PoolTx list \<Rightarrow> PoolTx multiset" where
  "tracked all items = mset (filter (\<lambda>tx. lookup_Get all (ptHash tx) \<noteq> None) items)"

definition stale_count :: "txLookup \<Rightarrow> PoolTx list \<Rightarrow> int" where
  "stale_count all items = int (length (filter (\<lambda>tx. lookup_Get all (ptHash tx) = None) items))"

lemma counts_mset:
  assumes "mset items = add_mset tx (mset rest)"
  shows "tracked all items = (if lookup_Get all (ptHash tx) = None then tracked all rest else add_mset tx (tracked all rest))"
    "stale_count all items = (if lookup_Get all (ptHash tx) = None then 1 else 0) + stale_count all rest"
proof -
  have "mset (filter P items) = (if P tx then add_mset tx (mset (filter P rest)) else mset (filter P rest))" for P
    using assms by simp
  from this [of "\<lambda>tx. lookup_Get all (ptHash tx) \<noteq> None"] this [of "\<lambda>tx. lookup_Get all (ptHash tx) = None"]
  show "tracked all items = (if lookup_Get all (ptHash tx) = None then tracked all rest else add_mset tx (tracked all rest))"
    "stale_count all items = (if lookup_Get all (ptHash tx) = None then 1 else 0) + stale_count all rest"
    by (simp_all add: tracked_def stale_count_def flip: size_mset)
qed

lemma push_all:
  assumes "is_heap price_less items"
  shows "is_heap price_less (fold (\<lambda>tx h. heap_Push price_less h tx) save items)" "mset (fold (\<lambda>tx h. heap_Push price_less h tx) save items) = mset save + mset items"
proof -
  have "is_heap price_less (fold (\<lambda>tx h. heap_Push price_less h tx) save items) \<and> mset (fold (\<lambda>tx h. heap_Push price_less h tx) save items) = mset save + mset items"
    using assms by (induction save arbitrary: items) (simp_all add: prices.Push_heap)
  then show "is_heap price_less (fold (\<lambda>tx h. heap_Push price_less h tx) save items)" "mset (fold (\<lambda>tx h. heap_Push price_less h tx) save items) = mset save + mset items"
    by simp_all
qed


lemma pop_cases:
  assumes "is_heap price_less items" "heap_Pop price_less items = r"
  obtains "r = None" "items = []"
  | tx rest where "r = Some (tx, rest)" "is_heap price_less rest" "mset items = add_mset tx (mset rest)" "\<forall>t\<in>set items. \<not> price_less t tx" "hd items = tx" "items \<noteq> []"
proof (cases "items = []")
  case True
  then show thesis using that(1) assms(2) by (simp add: heap_Pop_def)
next
  case False
  from assms(1) False obtain rest where "heap_Pop price_less items = Some (hd items, rest)" "is_heap price_less rest" "mset items = add_mset (hd items) (mset rest)"
    "\<forall>x\<in>set items. \<not> price_less x (hd items)" by (rule prices.Pop_heap)
  then show thesis using that(2) assms(2) False by blast
qed

lemma rest_subset: "mset items = add_mset tx (mset rest) \<Longrightarrow> set items = insert tx (set rest)"
  by (metis set_mset_add_mset_insert set_mset_mset)

lemma discard_items_exact:
  assumes "is_heap price_less items" "discard_items all locals items cnt stales = (dropped, save, items', stales')"
  shows "is_heap price_less items' \<and> tracked all items = mset dropped + mset save + tracked all items' \<and> set items' \<subseteq> set items
    \<and> (\<forall>tx\<in>set dropped. \<not> as_containsTx locals tx \<and> tx \<in> set items) \<and> (\<forall>tx\<in>set save. as_containsTx locals tx \<and> lookup_Get all (ptHash tx) \<noteq> None)
    \<and> int (length dropped) \<le> max 0 cnt \<and> (int (length dropped) < cnt \<longrightarrow> items' = [])
    \<and> stales - stale_count all items = stales' - stale_count all items'
    \<and> (\<forall>tx\<in>set dropped. \<forall>t\<in>set items'. \<not> price_less t tx)"
  using assms
proof (induction all locals items cnt stales arbitrary: dropped save items' stales' rule: discard_items.induct)
  case (1 all locals items cnt stales)
  note step = discard_items.simps [of all locals items cnt stales] and eq = 1(5)
  show ?case
  proof (cases "cnt \<le> 0")
    case True
    then show ?thesis using 1(4,5) step by simp
  next
    case False
    from 1(4) HOL.refl show ?thesis
    proof (cases rule: pop_cases)
      case 1
      then show ?thesis using eq step False by (simp add: tracked_def stale_count_def is_heap_def heap_from_def)
    next
      case (2 tx rest)
      note c = counts_mset [OF 2(3), of all] and sub = rest_subset [OF 2(3)]
      consider "lookup_Get all (ptHash tx) = None" | "lookup_Get all (ptHash tx) \<noteq> None" "as_containsTx locals tx" | "lookup_Get all (ptHash tx) \<noteq> None" "\<not> as_containsTx locals tx" by blast
      then show ?thesis
      proof cases
        case a: 1
        have d: "discard_items all locals rest cnt (stales - 1) = (dropped, save, items', stales')" using 1(5) step False 2(1) a by simp
        from 1(1) [OF False 2(1) HOL.refl a 2(2) d] show ?thesis using c sub a by auto
      next
        case a: 2
        obtain d s i st where d: "discard_items all locals rest cnt stales = (d, s, i, st)" by (metis prod_cases4)
        have r: "dropped = d" "save = tx # s" "items' = i" "stales' = st" using 1(5) step False 2(1) a d by simp_all
        from 1(2) [OF False 2(1) HOL.refl a 2(2) d] show ?thesis using c sub a r by auto
      next
        case a: 3
        obtain d s i st where d: "discard_items all locals rest (cnt - 1) stales = (d, s, i, st)" by (metis prod_cases4)
        have r: "dropped = tx # d" "save = s" "items' = i" "stales' = st" using 1(5) step False 2(1) a d by simp_all
        from 1(3) [OF False 2(1) HOL.refl a 2(2) d] show ?thesis using c sub a r 2(4) False by auto
      qed
    qed
  qed
qed


lemma cheapest: "\<forall>t\<in>set items. \<not> price_less t tx \<Longrightarrow> t \<in> set items \<Longrightarrow> ptGasPrice tx \<le> ptGasPrice t"
  unfolding price_less_def by fastforce

lemma cap_items_exact:
  assumes "is_heap price_less items" "cap_items all locals threshold items stales = (dropped, save, items', stales')"
  shows "is_heap price_less items' \<and> tracked all items = mset dropped + mset save + tracked all items'
    \<and> mset dropped = filter_mset (\<lambda>tx. \<not> as_containsTx locals tx \<and> ptGasPrice tx < threshold) (tracked all items)
    \<and> (\<forall>tx\<in>set save. lookup_Get all (ptHash tx) \<noteq> None)
    \<and> stales - stale_count all items = stales' - stale_count all items'"
  using assms
proof (induction all locals threshold items stales arbitrary: dropped save items' stales' rule: cap_items.induct)
  case (1 all locals threshold items stales)
  note step = cap_items.simps [of all locals threshold items stales] and eq = 1(4)
  from 1(3) HOL.refl show ?case
  proof (cases rule: pop_cases)
    case 1
    then show ?thesis using eq step by (auto simp: tracked_def stale_count_def is_heap_def heap_from_def)
  next
    case (2 tx rest)
    note c = counts_mset [OF 2(3), of all]
    consider "lookup_Get all (ptHash tx) = None" | "lookup_Get all (ptHash tx) \<noteq> None" "ptGasPrice tx \<ge> threshold" | "lookup_Get all (ptHash tx) \<noteq> None" "\<not> ptGasPrice tx \<ge> threshold" by blast
    then show ?thesis
    proof cases
      case a: 1
      have d: "cap_items all locals threshold rest (stales - 1) = (dropped, save, items', stales')" using eq step 2(1) a by simp
      have "tracked all items = tracked all rest" "stales - stale_count all items = stales - 1 - stale_count all rest" using c a by simp_all
      then show ?thesis using 1(1) [OF 2(1) HOL.refl a 2(2) d] by metis
    next
      case a: 2
      have r: "dropped = []" "save = [tx]" "items' = rest" "stales' = stales" using eq step 2(1) a by simp_all
      have "filter_mset (\<lambda>tx. \<not> as_containsTx locals tx \<and> ptGasPrice tx < threshold) (tracked all items) = {#}"
      proof (unfold filter_mset_eq_mempty_iff, intro allI impI)
        fix t assume "t \<in># tracked all items"
        then have "ptGasPrice tx \<le> ptGasPrice t" by (intro cheapest [OF 2(4)]) (simp add: tracked_def)
        then show "\<not> (\<not> as_containsTx locals t \<and> ptGasPrice t < threshold)" using a(2) by simp
      qed
      then show ?thesis using r c a 2(2) by simp
    next
      case a: 3
      obtain d s i st where d: "cap_items all locals threshold rest stales = (d, s, i, st)" by (metis prod_cases4)
      have r: "dropped = (if as_containsTx locals tx then d else tx # d)" "save = (if as_containsTx locals tx then tx # s else s)" "items' = i" "stales' = st"
        using eq step 2(1) a d by (simp_all split: if_splits)
      from 1(2) [OF 2(1) HOL.refl a 2(2) d] have IH: "is_heap price_less i" "tracked all rest = mset d + mset s + tracked all i"
        "mset d = filter_mset (\<lambda>tx. \<not> as_containsTx locals tx \<and> ptGasPrice tx < threshold) (tracked all rest)"
        "\<forall>tx\<in>set s. lookup_Get all (ptHash tx) \<noteq> None" "stales - stale_count all rest = st - stale_count all i" by blast+
      have t: "tracked all items = add_mset tx (tracked all rest)" "stale_count all items = stale_count all rest" using c a by simp_all
      have "mset dropped = filter_mset (\<lambda>tx. \<not> as_containsTx locals tx \<and> ptGasPrice tx < threshold) (tracked all items)"
        using IH(3) r(1) t(1) a(2) by simp
      moreover have "tracked all items = mset dropped + mset save + tracked all items'" using IH(2) t(1) r by simp
      moreover have "\<forall>tx\<in>set save. lookup_Get all (ptHash tx) \<noteq> None" using IH(4) r(2) a(1) by simp
      moreover have "stales - stale_count all items = stales' - stale_count all items'" using IH(5) t(2) r(3,4) by simp
      ultimately show ?thesis using IH(1) r(3) by blast
    qed
  qed
qed

lemma drop_stale_exact:
  assumes "is_heap price_less items" "drop_stale all items stales = (items', stales')"
  shows "is_heap price_less items' \<and> tracked all items' = tracked all items \<and> (items' \<noteq> [] \<longrightarrow> lookup_Get all (ptHash (hd items')) \<noteq> None)
    \<and> stales - stale_count all items = stales' - stale_count all items'"
  using assms
proof (induction all items stales arbitrary: items' stales' rule: drop_stale.induct)
  case (1 all items stales)
  note step = drop_stale.simps [of all items stales] and eq = 1(3)
  from 1(2) HOL.refl show ?case
  proof (cases rule: pop_cases)
    case 1
    then show ?thesis using eq step by (simp add: is_heap_def heap_from_def)
  next
    case (2 tx rest)
    note c = counts_mset [OF 2(3), of all]
    show ?thesis
    proof (cases "lookup_Get all (ptHash tx) = None")
      case True
      have d: "drop_stale all rest (stales - 1) = (items', stales')" using eq step 2 True by simp
      have "items \<noteq> [] \<and> lookup_Get all (ptHash (hd items)) = None" using 2(5,6) True by simp
      from 1(1) [OF this 2(1) HOL.refl 2(2) d] show ?thesis using c True by simp
    next
      case False
      then have "items' = items" "stales' = stales" using eq step 2(5) by auto
      then show ?thesis using False 2(5) 1(2) by simp
    qed
  qed
qed


section \<open>The heap and the pool\<close>

definition pool_txs :: "txLookup \<Rightarrow> PoolTx list" where
  "pool_txs all = map snd all"

definition lookup_ok :: "txLookup \<Rightarrow> bool" where
  "lookup_ok all \<longleftrightarrow> distinct (map fst all) \<and> (\<forall>(h, tx)\<in>set all. ptHash tx = h)"

text \<open>The heap holds every transaction of the pool once, and the counter counts the others.\<close>

definition pl_ok :: "txLookup \<Rightarrow> txPricedList \<Rightarrow> bool" where
  "pl_ok all l \<longleftrightarrow> lookup_ok all \<and> is_heap price_less (plItems l) \<and> tracked all (plItems l) = mset (pool_txs all) \<and> plStales l = stale_count all (plItems l)"

text \<open>The pool removes the transactions it is told to drop.\<close>

definition lookup_leave :: "txLookup \<Rightarrow> PoolTx list \<Rightarrow> txLookup" where
  "lookup_leave all txs = fold (\<lambda>tx t. lookup_Remove t (ptHash tx)) txs all"

lemma lookup_leave_filter: "lookup_leave all txs = filter (\<lambda>(h, _). h \<notin> ptHash ` set txs) all"
  unfolding lookup_leave_def
proof (induction txs arbitrary: all)
  case (Cons tx txs)
  have "fold (\<lambda>tx t. lookup_Remove t (ptHash tx)) (tx # txs) all = filter (\<lambda>(h, _). h \<notin> ptHash ` set txs) (lookup_Remove all (ptHash tx))"
    using Cons [of "lookup_Remove all (ptHash tx)"] by simp
  also have "\<dots> = filter (\<lambda>(h, _). h \<notin> ptHash ` set (tx # txs)) all"
    by (auto simp: lookup_Remove_def AList.delete_eq intro!: filter_cong)
  finally show ?case .
qed simp

lemma pool_hashes: "lookup_ok all \<Longrightarrow> map ptHash (pool_txs all) = map fst all"
  by (auto simp: lookup_ok_def pool_txs_def)

lemma leave_ok:
  assumes "lookup_ok all"
  shows "lookup_ok (lookup_leave all txs)" "pool_txs (lookup_leave all txs) = filter (\<lambda>t. ptHash t \<notin> ptHash ` set txs) (pool_txs all)"
    "lookup_Get (lookup_leave all txs) h = (if h \<in> ptHash ` set txs then None else lookup_Get all h)"
proof -
  show "lookup_ok (lookup_leave all txs)" using assms by (auto simp: lookup_leave_filter lookup_ok_def distinct_map inj_on_def)
  show "pool_txs (lookup_leave all txs) = filter (\<lambda>t. ptHash t \<notin> ptHash ` set txs) (pool_txs all)"
    using assms by (induction all) (auto simp: lookup_leave_filter lookup_ok_def pool_txs_def)
  show "lookup_Get (lookup_leave all txs) h = (if h \<in> ptHash ` set txs then None else lookup_Get all h)"
    by (induction all) (auto simp: lookup_leave_filter lookup_Get_def)
qed

lemma after_leaving:
  assumes "lookup_ok all" "is_heap price_less items" "mset dropped + tracked all items = mset (pool_txs all)"
  shows "pl_ok (lookup_leave all dropped) \<lparr>plItems = items, plStales = stale_count all items\<rparr>"
proof -
  let ?live = "filter (\<lambda>tx. lookup_Get all (ptHash tx) \<noteq> None) items" and ?H = "ptHash ` set dropped"
  have "mset (dropped @ ?live) = mset (pool_txs all)" using assms(3) by (simp add: tracked_def)
  then have "mset (map ptHash (dropped @ ?live)) = mset (map fst all)" using pool_hashes [OF assms(1)] by (metis mset_map)
  then have "distinct (map ptHash (dropped @ ?live))" using assms(1) by (metis lookup_ok_def mset_eq_imp_distinct_iff)
  then have apart: "ptHash t \<notin> ?H" if "t \<in> set ?live" for t using that by (auto simp: distinct_map)
  have same: "lookup_Get (lookup_leave all dropped) (ptHash t) = None \<longleftrightarrow> lookup_Get all (ptHash t) = None" if "t \<in> set items" for t
    using apart [of t] that leave_ok(3) [OF assms(1), of dropped "ptHash t"] by (cases "lookup_Get all (ptHash t)") simp_all
  have "tracked (lookup_leave all dropped) items = tracked all items" "stale_count (lookup_leave all dropped) items = stale_count all items"
  proof -
    have "filter (\<lambda>tx. lookup_Get (lookup_leave all dropped) (ptHash tx) = None) items = filter (\<lambda>tx. lookup_Get all (ptHash tx) = None) items"
      using same by (intro filter_cong HOL.refl) blast
    moreover have "filter (\<lambda>tx. lookup_Get (lookup_leave all dropped) (ptHash tx) \<noteq> None) items = ?live"
      using same by (intro filter_cong HOL.refl) (simp del: not_None_eq)
    ultimately show "tracked (lookup_leave all dropped) items = tracked all items" "stale_count (lookup_leave all dropped) items = stale_count all items"
      unfolding tracked_def stale_count_def by (simp_all only:)
  qed
  moreover have "mset (pool_txs (lookup_leave all dropped)) = tracked all items"
  proof -
    have "mset (pool_txs (lookup_leave all dropped)) = filter_mset (\<lambda>t. ptHash t \<notin> ?H) (mset dropped + tracked all items)"
      using leave_ok(2) [OF assms(1), of dropped] assms(3) by simp
    also have "\<dots> = filter_mset (\<lambda>t. ptHash t \<notin> ?H) (tracked all items)"
      by (simp add: filter_mset_eq_mempty_iff)
    also have "\<dots> = mset (filter (\<lambda>t. ptHash t \<notin> ?H) ?live)" by (simp only: tracked_def mset_filter)
    also have "filter (\<lambda>t. ptHash t \<notin> ?H) ?live = ?live" using apart by (intro filter_True) blast
    also have "mset ?live = tracked all items" by (simp only: tracked_def)
    finally show ?thesis .
  qed
  ultimately show ?thesis using leave_ok(1) [OF assms(1)] assms(2) by (simp add: pl_ok_def)
qed


lemma pushed_back:
  assumes "is_heap price_less items" "\<forall>tx\<in>set save. lookup_Get all (ptHash tx) \<noteq> None"
  defines "back' \<equiv> fold (\<lambda>tx h. heap_Push price_less h tx) save items"
  shows "is_heap price_less back'" "set back' = set save \<union> set items" "tracked all back' = mset save + tracked all items" "stale_count all back' = stale_count all items"
proof -
  note p = push_all [OF assms(1), of save, folded back'_def]
  show "is_heap price_less back'" by (rule p(1))
  show "set back' = set save \<union> set items" using p(2) by (metis set_mset_mset set_mset_union)
  have f: "mset (filter P back') = mset (filter P save) + mset (filter P items)" for P using p(2) by simp
  have "filter (\<lambda>tx. lookup_Get all (ptHash tx) \<noteq> None) save = save" using assms(2) by (intro filter_True) blast
  then show "tracked all back' = mset save + tracked all items"
    using f [of "\<lambda>tx. lookup_Get all (ptHash tx) \<noteq> None"] by (simp only: tracked_def)
  have "filter (\<lambda>tx. lookup_Get all (ptHash tx) = None) save = []" using assms(2) by (simp add: filter_empty_conv)
  then have "mset (filter (\<lambda>tx. lookup_Get all (ptHash tx) = None) back') = mset (filter (\<lambda>tx. lookup_Get all (ptHash tx) = None) items)"
    using f [of "\<lambda>tx. lookup_Get all (ptHash tx) = None"] by (simp only: mset.simps add_0)
  then show "stale_count all back' = stale_count all items" unfolding stale_count_def by (metis size_mset)
qed

lemma Discard_cheapest:
  assumes "pl_ok all l" "pl_Discard all l (int k) locals = (dropped, l')"
  shows "pl_ok (lookup_leave all dropped) l'" "length dropped = min k (length (filter (\<lambda>tx. \<not> as_containsTx locals tx) (pool_txs all)))"
    "\<forall>d\<in>set dropped. d \<in> set (pool_txs all) \<and> \<not> as_containsTx locals d
       \<and> (\<forall>tx\<in>set (pool_txs (lookup_leave all dropped)). as_containsTx locals tx \<or> \<not> price_less tx d)"
proof -
  let ?free = "\<lambda>tx. \<not> as_containsTx locals tx"
  have ok: "lookup_ok all" "is_heap price_less (plItems l)" "tracked all (plItems l) = mset (pool_txs all)" "plStales l = stale_count all (plItems l)"
    using assms(1) by (simp_all add: pl_ok_def)
  obtain save items stales where d: "discard_items all locals (plItems l) (int k) (plStales l) = (dropped, save, items, stales)"
    "l' = \<lparr>plItems = fold (\<lambda>tx h. heap_Push price_less h tx) save items, plStales = stales\<rparr>"
    using assms(2) by (auto simp: pl_Discard_def split: prod.splits)
  from discard_items_exact [OF ok(2) d(1)] have e: "is_heap price_less items" "tracked all (plItems l) = mset dropped + mset save + tracked all items"
    "\<forall>tx\<in>set dropped. ?free tx \<and> tx \<in> set (plItems l)" "\<forall>tx\<in>set save. as_containsTx locals tx" "\<forall>tx\<in>set save. lookup_Get all (ptHash tx) \<noteq> None"
    "length dropped \<le> k" "length dropped < k \<Longrightarrow> items = []" "stales = stale_count all items"
    "\<forall>tx\<in>set dropped. \<forall>t\<in>set items. \<not> price_less t tx" using ok(4) by auto
  note b = pushed_back [OF e(1,5)]
  have "mset dropped + tracked all (plItems l') = mset (pool_txs all)" using e(2) b(3) ok(3) d(2) by (simp add: add.assoc)
  then show leave: "pl_ok (lookup_leave all dropped) l'"
    using after_leaving [OF ok(1) b(1), of dropped] b(4) e(8) d(2) by simp
  have "mset (filter ?free (pool_txs all)) = mset dropped + filter_mset ?free (tracked all items)"
  proof -
    have "mset (filter ?free (pool_txs all)) = filter_mset ?free (mset dropped) + filter_mset ?free (mset save) + filter_mset ?free (tracked all items)"
      using e(2) ok(3) by (metis filter_union_mset mset_filter)
    moreover have "filter_mset ?free (mset save) = {#}" using e(4) by simp
    moreover have "filter ?free dropped = dropped" using e(3) by (intro filter_True) blast
    ultimately show ?thesis by (metis add.right_neutral mset_filter)
  qed
  then have len: "length (filter ?free (pool_txs all)) = length dropped + size (filter_mset ?free (tracked all items))"
    by (metis size_mset size_union)
  have "length (filter ?free (pool_txs all)) = length dropped" if "length dropped < k"
    using len e(7) [OF that] by (simp add: tracked_def)
  moreover have "length dropped \<le> length (filter ?free (pool_txs all))" using len by linarith
  ultimately show "length dropped = min k (length (filter ?free (pool_txs all)))" using e(6) by linarith
  have pool: "set (pool_txs all) = set_mset (mset dropped + mset save + tracked all items)" using e(2) ok(3) by (metis set_mset_mset)
  have "set (pool_txs (lookup_leave all dropped)) \<subseteq> set save \<union> set items"
  proof -
    have "mset (pool_txs (lookup_leave all dropped)) = tracked (lookup_leave all dropped) (plItems l')" using leave by (simp add: pl_ok_def)
    then have "set (pool_txs (lookup_leave all dropped)) \<subseteq> set (plItems l')" by (metis (no_types) filter_is_subset set_mset_mset tracked_def)
    then show ?thesis using b(2) d(2) by simp
  qed
  then show "\<forall>d\<in>set dropped. d \<in> set (pool_txs all) \<and> ?free d \<and> (\<forall>tx\<in>set (pool_txs (lookup_leave all dropped)). as_containsTx locals tx \<or> \<not> price_less tx d)"
    using pool e(3,4,9) by auto
qed


lemma Cap_exact:
  assumes "pl_ok all l" "pl_Cap all l threshold locals = (dropped, l')"
  shows "pl_ok (lookup_leave all dropped) l'" "mset dropped = mset (filter (\<lambda>tx. \<not> as_containsTx locals tx \<and> ptGasPrice tx < threshold) (pool_txs all))"
proof -
  have ok: "lookup_ok all" "is_heap price_less (plItems l)" "tracked all (plItems l) = mset (pool_txs all)" "plStales l = stale_count all (plItems l)"
    using assms(1) by (simp_all add: pl_ok_def)
  obtain save items stales where d: "cap_items all locals threshold (plItems l) (plStales l) = (dropped, save, items, stales)"
    "l' = \<lparr>plItems = fold (\<lambda>tx h. heap_Push price_less h tx) save items, plStales = stales\<rparr>"
    using assms(2) by (auto simp: pl_Cap_def split: prod.splits)
  from cap_items_exact [OF ok(2) d(1)] have e: "is_heap price_less items" "tracked all (plItems l) = mset dropped + mset save + tracked all items"
    "mset dropped = filter_mset (\<lambda>tx. \<not> as_containsTx locals tx \<and> ptGasPrice tx < threshold) (tracked all (plItems l))"
    "\<forall>tx\<in>set save. lookup_Get all (ptHash tx) \<noteq> None" "stales = stale_count all items" using ok(4) by (blast, blast, blast, blast, linarith)
  note b = pushed_back [OF e(1,4)]
  have "mset dropped + tracked all (plItems l') = mset (pool_txs all)" using e(2) b(3) ok(3) d(2) by (simp add: add.assoc)
  then show "pl_ok (lookup_leave all dropped) l'" using after_leaving [OF ok(1) b(1), of dropped] b(4) e(5) d(2) by simp
  show "mset dropped = mset (filter (\<lambda>tx. \<not> as_containsTx locals tx \<and> ptGasPrice tx < threshold) (pool_txs all))" using e(3) ok(3) by simp
qed

lemma Underpriced_exact:
  assumes "pl_ok all l" "pl_Underpriced all l tx locals = (b, l')"
  shows "pl_ok all l'" "b \<longleftrightarrow> \<not> as_containsTx locals tx \<and> pool_txs all \<noteq> [] \<and> (\<forall>t\<in>set (pool_txs all). ptGasPrice tx \<le> ptGasPrice t)"
proof -
  have ok: "lookup_ok all" "is_heap price_less (plItems l)" "tracked all (plItems l) = mset (pool_txs all)" "plStales l = stale_count all (plItems l)"
    using assms(1) by (simp_all add: pl_ok_def)
  have "pl_ok all l' \<and> (b \<longleftrightarrow> \<not> as_containsTx locals tx \<and> pool_txs all \<noteq> [] \<and> (\<forall>t\<in>set (pool_txs all). ptGasPrice tx \<le> ptGasPrice t))"
  proof (cases "as_containsTx locals tx")
    case True
    then show ?thesis using assms by (simp add: pl_Underpriced_def)
  next
    case False
    obtain items stales where d: "drop_stale all (plItems l) (plStales l) = (items, stales)" by fastforce
    have r: "b = (items \<noteq> [] \<and> ptGasPrice tx \<le> ptGasPrice (hd items))" "l' = \<lparr>plItems = items, plStales = stales\<rparr>"
      using assms(2) False d by (auto simp: pl_Underpriced_def)
    from drop_stale_exact [OF ok(2) d] have e: "is_heap price_less items" "tracked all items = mset (pool_txs all)"
      "items \<noteq> [] \<Longrightarrow> lookup_Get all (ptHash (hd items)) \<noteq> None" "stales = stale_count all items" using ok(3,4) by simp_all
    have pool: "set (pool_txs all) = {t \<in> set items. lookup_Get all (ptHash t) \<noteq> None}" using arg_cong [OF e(2), of set_mset] by (auto simp: tracked_def)
    have "b \<longleftrightarrow> pool_txs all \<noteq> [] \<and> (\<forall>t\<in>set (pool_txs all). ptGasPrice tx \<le> ptGasPrice t)"
    proof (cases "items = []")
      case True
      then show ?thesis using r(1) pool by simp
    next
      case F: False
      have hd: "hd items \<in> set (pool_txs all)" using pool e(3) F by auto
      have "\<not> price_less t (hd items)" if "t \<in> set items" for t
        using prices.root_least [OF e(1)] that F by (metis hd_conv_nth in_set_conv_nth)
      then have "ptGasPrice (hd items) \<le> ptGasPrice t" if "t \<in> set (pool_txs all)" for t using cheapest [of items "hd items" t] that pool by blast
      then have "(\<forall>t\<in>set (pool_txs all). ptGasPrice tx \<le> ptGasPrice t) \<longleftrightarrow> ptGasPrice tx \<le> ptGasPrice (hd items)" using hd by (meson order_trans)
      moreover have "pool_txs all \<noteq> []" using hd by auto
      ultimately show ?thesis using r(1) F by blast
    qed
    then show ?thesis using False r(2) e ok(1) by (simp add: pl_ok_def)
  qed
  then show "pl_ok all l'" "b \<longleftrightarrow> \<not> as_containsTx locals tx \<and> pool_txs all \<noteq> [] \<and> (\<forall>t\<in>set (pool_txs all). ptGasPrice tx \<le> ptGasPrice t)" by simp_all
qed


lemma Put_ok:
  assumes "pl_ok all l" "lookup_Get all (ptHash tx) = None" "\<forall>t\<in>set (plItems l). ptHash t \<noteq> ptHash tx"
  shows "pl_ok (lookup_Add all tx) (pl_Put l tx)"
proof -
  have ok: "lookup_ok all" "is_heap price_less (plItems l)" "tracked all (plItems l) = mset (pool_txs all)" "plStales l = stale_count all (plItems l)"
    using assms(1) by (simp_all add: pl_ok_def)
  have new: "ptHash tx \<notin> fst ` set all" using assms(2) by (simp add: lookup_Get_def map_of_eq_None_iff)
  then have add: "lookup_Add all tx = all @ [(ptHash tx, tx)]" unfolding lookup_Add_def by (rule update_new)
  have get: "lookup_Get (lookup_Add all tx) h = (if h = ptHash tx then Some tx else lookup_Get all h)" for h
    by (simp add: lookup_Add_def lookup_Get_def update_conv')
  have lok: "lookup_ok (lookup_Add all tx)" using ok(1) new by (auto simp: lookup_ok_def add)
  note p = prices.Push_heap [OF ok(2), of tx]
  have same: "filter (\<lambda>t. lookup_Get (lookup_Add all tx) (ptHash t) = None) (plItems l) = filter (\<lambda>t. lookup_Get all (ptHash t) = None) (plItems l)"
    "filter (\<lambda>t. lookup_Get (lookup_Add all tx) (ptHash t) \<noteq> None) (plItems l) = filter (\<lambda>t. lookup_Get all (ptHash t) \<noteq> None) (plItems l)"
    using assms(3) by (auto simp: get intro!: filter_cong)
  then have t: "tracked (lookup_Add all tx) (plItems l) = tracked all (plItems l)" "stale_count (lookup_Add all tx) (plItems l) = stale_count all (plItems l)"
    unfolding tracked_def stale_count_def by (simp_all only:)
  have "tracked (lookup_Add all tx) (plItems (pl_Put l tx)) = add_mset tx (mset (pool_txs all))" "stale_count (lookup_Add all tx) (plItems (pl_Put l tx)) = plStales l"
    using counts_mset [OF p(2), of "lookup_Add all tx"] t ok(3,4) by (simp_all add: pl_Put_def get)
  then show ?thesis using lok p(1) by (simp add: pl_ok_def pl_Put_def pool_txs_def add)
qed

lemma stale_rest: "stale_count all items = int (length items) - int (size (tracked all items))"
proof -
  have "length items = length (filter (\<lambda>t. lookup_Get all (ptHash t) \<noteq> None) items) + length (filter (\<lambda>t. \<not> lookup_Get all (ptHash t) \<noteq> None) items)"
    by (rule sum_length_filter_compl [symmetric])
  then show ?thesis by (simp add: stale_count_def tracked_def flip: size_mset)
qed

lemma Removed_ok:
  assumes "pl_ok all l" "tx \<in> set (pool_txs all)" "\<forall>t. mset (visit t) = mset t"
  shows "pl_ok (lookup_Remove all (ptHash tx)) (pl_Removed visit (lookup_Remove all (ptHash tx)) l)"
proof -
  let ?all = "lookup_Remove all (ptHash tx)"
  have ok: "lookup_ok all" "is_heap price_less (plItems l)" "tracked all (plItems l) = mset (pool_txs all)" "plStales l = stale_count all (plItems l)"
    using assms(1) by (simp_all add: pl_ok_def)
  have leave: "?all = lookup_leave all [tx]" by (simp add: lookup_leave_def)
  note r = leave_ok [OF ok(1), of "[tx]", folded leave]
  have "filter (\<lambda>t. lookup_Get ?all (ptHash t) \<noteq> None) (plItems l) = filter (\<lambda>t. ptHash t \<noteq> ptHash tx) (filter (\<lambda>t. lookup_Get all (ptHash t) \<noteq> None) (plItems l))"
    by (auto simp: r(3) intro!: filter_cong)
  then have "tracked ?all (plItems l) = filter_mset (\<lambda>t. ptHash t \<noteq> ptHash tx) (tracked all (plItems l))"
    by (simp only: tracked_def mset_filter)
  then have t: "tracked ?all (plItems l) = mset (pool_txs ?all)" using ok(3) r(2) by simp
  have len: "length (pool_txs all) = Suc (length (pool_txs ?all))"
  proof -
    have mem: "ptHash tx \<in> set (map fst all)" using assms(2) ok(1) by (force simp: pool_txs_def lookup_ok_def)
    have "map fst ?all = remove1 (ptHash tx) (map fst all)"
    proof -
      have "map fst ?all = removeAll (ptHash tx) (map fst all)" by (induction all) (auto simp: lookup_Remove_def AList.delete_eq)
      then show ?thesis using ok(1) by (simp add: lookup_ok_def distinct_remove1_removeAll)
    qed
    then have "length (map fst ?all) = length (map fst all) - 1" using mem by (simp only: length_remove1 if_True)
    then have "Suc (length (map fst ?all)) = length (map fst all)" using length_pos_if_in_set [OF mem] by linarith
    then show ?thesis by (simp add: pool_txs_def)
  qed
  have s: "stale_count ?all (plItems l) = plStales l + 1" using stale_rest [of ?all "plItems l"] stale_rest [of all "plItems l"] t ok(3,4) len by simp
  let ?heap = "heap_Init price_less (map snd (visit ?all))"
  have h: "is_heap price_less ?heap" "mset ?heap = mset (pool_txs ?all)" using prices.Init_heap [of "map snd (visit ?all)"] assms(3) by (simp_all add: pool_txs_def)
  have live: "lookup_Get ?all (ptHash t) \<noteq> None" if "t \<in> set (pool_txs ?all)" for t
    using that r(1) by (force simp: pool_txs_def lookup_ok_def lookup_Get_def map_of_eq_None_iff)
  then have "filter_mset (\<lambda>t. lookup_Get ?all (ptHash t) \<noteq> None) (mset (pool_txs ?all)) = mset (pool_txs ?all)" by (metis (mono_tags, lifting) filter_True mset_filter)
  then have th: "tracked ?all ?heap = mset (pool_txs ?all)" using h(2) by (metis mset_filter tracked_def)
  have sh: "stale_count ?all ?heap = 0" using stale_rest [of ?all ?heap] th h(2) by (metis diff_self size_mset)
  show ?thesis using ok(2) r(1) t s h(1) th sh by (simp add: pl_Removed_def pl_ok_def)
qed

text \<open>
  C21: The price heap tells the truth about the pool although it is cleaned lazily. Discarding \<open>k\<close> returns \<open>k\<close>
  remote transactions, or all if there are fewer, and none that stays is cheaper, or as cheap with a higher
  nonce, than one that goes; capping returns exactly the remote transactions below the threshold; a transaction
  is called underpriced exactly when it is remote and no transaction of the pool is cheaper; and after the pool has
  removed what it was told, or any transaction of its own choice, the heap again holds every transaction
  of the pool once and the counter is the number of stale entries.
\<close>

theorem priced_list_exact:
  assumes "pl_ok all l" "\<forall>t. mset (visit t) = mset t"
  shows "(case pl_Discard all l (int k) locals of (dropped, l') \<Rightarrow>
        pl_ok (lookup_leave all dropped) l' \<and> length dropped = min k (length (filter (\<lambda>tx. \<not> as_containsTx locals tx) (pool_txs all)))
        \<and> (\<forall>d\<in>set dropped. d \<in> set (pool_txs all) \<and> \<not> as_containsTx locals d
             \<and> (\<forall>tx\<in>set (pool_txs (lookup_leave all dropped)). as_containsTx locals tx \<or> \<not> price_less tx d)))
    \<and> (case pl_Cap all l threshold locals of (dropped, l') \<Rightarrow>
        pl_ok (lookup_leave all dropped) l' \<and> mset dropped = mset (filter (\<lambda>tx. \<not> as_containsTx locals tx \<and> ptGasPrice tx < threshold) (pool_txs all)))
    \<and> (case pl_Underpriced all l tx locals of (b, l') \<Rightarrow>
        pl_ok all l' \<and> (b \<longleftrightarrow> \<not> as_containsTx locals tx \<and> pool_txs all \<noteq> [] \<and> (\<forall>t\<in>set (pool_txs all). ptGasPrice tx \<le> ptGasPrice t)))
    \<and> (\<forall>t\<in>set (pool_txs all). pl_ok (lookup_Remove all (ptHash t)) (pl_Removed visit (lookup_Remove all (ptHash t)) l))"
proof -
  obtain d l1 where 1: "pl_Discard all l (int k) locals = (d, l1)" by fastforce
  obtain c l2 where 2: "pl_Cap all l threshold locals = (c, l2)" by fastforce
  obtain b l3 where 3: "pl_Underpriced all l tx locals = (b, l3)" by fastforce
  show ?thesis unfolding 1 2 3 prod.case
    using Discard_cheapest [OF assms(1) 1] Cap_exact [OF assms(1) 2] Underpriced_exact [OF assms(1) 3] Removed_ok [OF assms(1) _ assms(2)] by blast
qed


definition sample_lookup :: txLookup where
  "sample_lookup = lookup_Add (lookup_Add newTxLookup (sample_pool_tx 1 10)) (sample_pool_tx 2 5)"

definition sample_priced :: txPricedList where
  "sample_priced = pl_Put (pl_Put newTxPricedList (sample_pool_tx 1 10)) (sample_pool_tx 2 5)"

lemma new_pool_ok: "pl_ok newTxLookup newTxPricedList"
  by (simp add: pl_ok_def newTxLookup_def newTxPricedList_def lookup_ok_def is_heap_def heap_from_def tracked_def stale_count_def pool_txs_def)

lemma sample_priced_ok: "pl_ok sample_lookup sample_priced"
proof -
  from new_pool_ok have 1: "pl_ok (lookup_Add newTxLookup (sample_pool_tx 1 10)) (pl_Put newTxPricedList (sample_pool_tx 1 10))"
    by (rule Put_ok) (simp_all add: lookup_Get_def newTxPricedList_def newTxLookup_def)
  have "set (plItems (pl_Put newTxPricedList (sample_pool_tx 1 10))) = {sample_pool_tx 1 10}"
    using prices.Push_heap(2) [of "[]" "sample_pool_tx 1 10"]
    by (simp add: pl_Put_def newTxPricedList_def is_heap_def heap_from_def flip: set_mset_mset)
  then show ?thesis unfolding sample_lookup_def sample_priced_def
    by (intro Put_ok [OF 1]) (simp_all add: lookup_Get_def lookup_Add_def newTxLookup_def sample_pool_tx_def)
qed

lemma sample_lookup_txs: "pool_txs sample_lookup = [sample_pool_tx 1 10, sample_pool_tx 2 5]"
  by (simp add: sample_lookup_def lookup_Add_def newTxLookup_def pool_txs_def sample_pool_tx_def)

theorem priced_list_exact_witness:
  "length (fst (pl_Discard sample_lookup sample_priced 1 newAccountSet)) = 1
   \<and> mset (fst (pl_Cap sample_lookup sample_priced 6 newAccountSet)) = {#sample_pool_tx 2 5#}
   \<and> fst (pl_Underpriced sample_lookup sample_priced (sample_pool_tx 9 5) newAccountSet)"
proof -
  have v: "\<forall>t. mset (rev t) = mset t" by simp
  have none: "\<not> as_containsTx newAccountSet t" for t
    by (simp add: as_containsTx_def as_contains_def newAccountSet_def split: sum.split)
  note c = priced_list_exact [OF sample_priced_ok v, of 1 newAccountSet 6 "sample_pool_tx 9 5", unfolded case_prod_unfold]
  from c have "length (fst (pl_Discard sample_lookup sample_priced (int 1) newAccountSet)) = 1"
    by (elim conjE) (simp add: none sample_lookup_txs)
  moreover from c have "mset (fst (pl_Cap sample_lookup sample_priced 6 newAccountSet)) = {#sample_pool_tx 2 5#}"
    by (elim conjE) (simp add: none sample_lookup_txs, simp add: sample_pool_tx_def)
  moreover from c have "fst (pl_Underpriced sample_lookup sample_priced (sample_pool_tx 9 5) newAccountSet)"
    by (elim conjE) (simp add: none sample_lookup_txs, simp add: sample_pool_tx_def)
  ultimately show ?thesis by simp
qed

text \<open>
  A transaction that leaves the pool and comes back before its stale entry has been dropped is in the heap twice, and
  both entries are live: asked for two transactions, \<open>Discard\<close> returns the same one twice and frees one place.
\<close>

definition busy_lookup :: txLookup where
  "busy_lookup = fold (\<lambda>tx all. lookup_Add all tx) [sample_pool_tx 1 5, sample_pool_tx 2 10, sample_pool_tx 3 20, sample_pool_tx 4 30] newTxLookup"

definition busy_priced :: txPricedList where
  "busy_priced = fold (\<lambda>tx l. pl_Put l tx) [sample_pool_tx 1 5, sample_pool_tx 2 10, sample_pool_tx 3 20, sample_pool_tx 4 30] newTxPricedList"

definition readded_priced :: txPricedList where
  "readded_priced = pl_Put (pl_Removed id (lookup_Remove busy_lookup (ptHash (sample_pool_tx 1 5))) busy_priced) (sample_pool_tx 1 5)"

lemma readded_transaction_discarded_twice:
  "map ptNonce (fst (pl_Discard busy_lookup readded_priced 2 newAccountSet)) = [1, 1]"
  by code_simp

end
