(* ===== verification/Spec2Isabelle.thy ===== *)
theory Spec2Isabelle
  imports Seal Assignment Block PricedList
begin

text \<open>
  Verification of the Intelchain node: a sharded proof-of-stake chain written in Go. Committees of BLS
  keys, elected by stake, sign the blocks of each shard; the beacon shard 0 keeps the validators, pays
  rewards, elects committees and punishes double signers; every shard executes transactions on an
  account state and exchanges receipts with the others. The theories model the parts that decide what
  is valid and who gets what. They do not model how messages and blocks travel or are stored.

  \<^bold>\<open>Conventions.\<close> \<open>Prelude\<close> holds what all theories share. Go functions become HOL functions on explicit
  states. A result type \<open>'a go\<close> is \<open>fault + 'a\<close>: \<open>Inl (Panic s)\<close> is a Go panic, \<open>Inl (Error s)\<close> an
  error value, and \<open>go_bind\<close>, \<open>go_fold\<close> and \<open>go_map\<close> are sequencing and loops with early return.
  \<open>big.Int\<close> is \<open>int\<close>, with both of its divisions; \<open>uint32\<close> and \<open>uint64\<close> are words that wrap; hashes,
  addresses and serialized keys are words of 256, 160 and 384 bits. Go maps are partial functions, or
  association lists where the code depends on the order. A nil pointer is \<open>None\<close> and using it is a panic
  (\<open>deref\<close>). Definitions carry the names of the Go functions; where a name is taken, the receiver is put
  in front (\<open>Committee_Compute\<close>). Loop bodies that are long are definitions of their own.

  \<^bold>\<open>Numbers and configuration.\<close>
  \<^item> \<open>Numeric\<close> and \<open>DecString\<close>: \<open>numeric/decimal.go\<close>, decimals with 18 places and a limit of 315 bits, and
    their text. The three ways of rounding satisfy the locale \<open>rounding\<close> (interpretations \<open>bankers\<close>,
    \<open>truncating\<close>, \<open>ceiling\<close>), which gives error bounds, monotonicity and exactness on whole numbers.
    Printing and reading are inverse.
  \<^item> \<open>Params\<close>: \<open>internal/params/config.go\<close>, the fork epochs of eight networks, every predicate on epochs, the
    rules handed to the machine, and the start-up check of their order.
  \<^item> \<open>Sharding\<close>: \<open>internal/configs/sharding\<close>, instances and the epoch schedules. The locale
    \<open>epoch_schedule\<close> says that the epoch of a block, its last block and the test for the last block agree; it is
    interpreted for \<open>mainnet\<close>, \<open>testnet\<close>, \<open>partner\<close>, \<open>pangaea\<close>, \<open>stressnet\<close>, \<open>localnet\<close> and the \<open>fixed\<close>
    schedule, for block numbers below \<open>2 ^ 63\<close>: beyond that the code's 64-bit sums wrap.

  \<^bold>\<open>Committees and votes.\<close>
  \<^item> \<open>BlsMask\<close>: \<open>crypto/bls/mask.go\<close>, bitmaps over a list of keys with the running aggregate of the enabled
    keys. The pairing library is a group operation given as a parameter; locale \<open>cosigner_set\<close>, interpretation
    \<open>maskset\<close>.
  \<^item> \<open>ShardState\<close>: \<open>shard/shard_state.go\<close>, slots, committees, lookups, hashes and the old and new encodings.
  \<^item> \<open>Votepower\<close>: \<open>consensus/votepower/roster.go\<close>, the share of the votes of every key; the shares add up to
    exactly one.
  \<^item> \<open>Quorum\<close>: \<open>consensus/quorum\<close>, ballot boxes, the uniform and the staked decider with their verifiers, and
    the choice of the next leader. Locale \<open>signatory_tracker\<close> (interpretation \<open>boxes\<close>) is the contract of
    the boxes, locale \<open>weighted_quorum\<close> the intersection argument, proved once and interpreted by \<open>stake\<close>
    and \<open>seats\<close>. \<open>decider_step\<close> is the state machine of a staked decider; in every reachable
    state the tally is the power of those who signed, and two quorums share a signer with voting power. The search for
    the next validator may not end in the code; it is a \<open>partial_function\<close>, and its theorem says when it
    returns.
  \<^item> \<open>Effective\<close> and \<open>Assignment\<close>: \<open>staking/effective/calculate.go\<close> and \<open>shard/committee/assignment.go\<close>, the
    auction and the election of the committees of an epoch.

  \<^bold>\<open>Staking.\<close>
  \<^item> \<open>Delegations\<close>, \<open>Validators\<close>: \<open>staking/types\<close>, delegations with their undelegations, validators with all
    their checks, creation and edit, and the staking messages.
  \<^item> \<open>StakingVerifier\<close>: \<open>core/staking_verifier.go\<close> and the \<open>*Fn\<close> functions of \<open>core/evm.go\<close>, written against the record of
    operations of \<open>VmInterface\<close> (\<open>core/vm/interface.go\<close>). \<open>Staking\<close> and \<open>StakeEffects\<close> prove what they do in the
    locales \<open>vm_state\<close> and \<open>vm_store\<close> (which extends it by what can be stored); both are interpreted in \<open>Ledger\<close> on the real
    account state (\<open>account_state\<close>, \<open>account_store\<close>). \<open>staking_run\<close> is the step relation of any sequence of staking messages: tokens are
    conserved, wrappers stay within the checks, keys unique and bans final.
  \<^item> \<open>Availability\<close>, \<open>Rewards\<close>, \<open>Slash\<close>: signing counters, the payment of rewards to validators and delegators, and the
    verification and burning of slashes, with exact sums and explicit rounding slack.

  \<^bold>\<open>State.\<close>
  \<^item> \<open>StateDB\<close>: \<open>core/state\<close>, accounts over a trie of which only reads are assumed, cached validator wrappers, logs,
    access list, transient storage and the journal with its fifteen kinds of entries.
  \<^item> \<open>Snapshots\<close>: every operation is undone by its journal entries (\<open>journaled\<close>), so reverting restores the world at the
    snapshot, for any run of the step relation \<open>db_run\<close>, nested snapshots included.
  \<^item> \<open>Ledger\<close>: the abstraction of a state to balances, wrappers and flags, and the refinement of the interface
    above.
  \<^item> \<open>Flush\<close>: \<open>Finalise\<close>, the end of a transaction. Go visits maps in any order; the order is a parameter and
    the theorem holds for all complete orders.

  \<^bold>\<open>Blocks.\<close>
  \<^item> \<open>Headers\<close>, \<open>Seal\<close>: \<open>block/header.go\<close>, cross links, and the engine's verification of headers, commit signatures,
    cross links and VRF proofs with its cache (\<open>internal/chain/engine.go\<close>, \<open>sig.go\<close>).
  \<^item> \<open>Transition\<close>, \<open>Machine\<close>: \<open>core/state_transition.go\<close> and \<open>core/vm/evm.go\<close>, gas, fees, nonces, transfers and all entry
    points of the machine. The interpreter is a parameter. \<open>run_journaled\<close> (it works through
    the state's operations and returns no more gas than it got), \<open>run_bounded\<close> (the gas alone), \<open>run_frugal\<close> (it makes no tokens) and \<open>run_sound\<close>
    (it keeps the books) are the hypotheses on it; each is instantiated in the witnesses.
  \<^item> \<open>Processor\<close>, \<open>Block\<close>: \<open>core/state_processor.go\<close>, transactions inside and between shards, receipts, staking transactions,
    the migration of balances, the reduction of shards, and \<open>Process\<close>, which puts all of it together and ends
    in \<open>Finalize\<close>.
  \<^item> \<open>Finalize\<close>: the end of a block in \<open>internal/chain/engine.go\<close>, with payouts, elections, rewards and slashes.

  \<^bold>\<open>The transaction pool.\<close>
  \<^item> \<open>GoHeap\<close>: \<open>container/heap\<close> of the Go library on a list, with the locale \<open>go_heap\<close> over the order of the elements: pushing,
    popping, removing and building keep the elements and the heap, and the root is least. Interpretations
    \<open>nonces\<close> (in \<open>TxList\<close>) and \<open>prices\<close> (in \<open>PricedList\<close>).
  \<^item> \<open>TxList\<close>: \<open>core/tx_list.go\<close>, the transactions of an account. The map with its heap of nonces and its cache refines the sorted
    list of transactions, and the filter before a block drops exactly what is no longer valid.
  \<^item> \<open>PricedList\<close>: \<open>core/tx_list.go\<close> and the lookup and the local accounts of \<open>core/tx_pool.go\<close>. The heap of prices is cleaned
    lazily; \<open>pl_ok\<close> says that it holds each transaction of the pool once and counts the stale entries, and under it the
    operations drop exactly the cheapest transactions.

  \<^bold>\<open>How the parts depend on each other.\<close> A staking transaction runs through \<open>StakingTransitionDb\<close>, which calls the
  functions of \<open>StakingVerifier\<close> on the operations of \<open>StateDB\<close>; the theorem on it in \<open>Transition\<close> rests on the
  locale lemmas through \<open>account_state\<close>. A block runs \<open>Process\<close>: every transaction ends with \<open>Finalise\<close>, every block
  with \<open>Finalize\<close>, and \<open>total_tokens\<close> of the ledger is the quantity the theorems of all of these speak
  about. The committee that \<open>Assignment\<close> elects gives the rosters of \<open>Votepower\<close>, which \<open>Quorum\<close> counts and \<open>Seal\<close>
  requires of every header.

  \<^bold>\<open>Bounds.\<close> Decimals stay below \<open>2 ^ 315\<close>, and products of rewards and shares below \<open>2 ^ 250\<close>, so that the
  overflow panics do not occur where a theorem says that a function returns; gas prices below \<open>2 ^ 190\<close> are enough
  for the fee arithmetic. Where the code can overflow the wrap-around is part of the model. There is no
  fuel: all recursions are structural or come with a termination proof, apart from the one partial function above.

  \<^bold>\<open>Parameters.\<close> BLS and Keccak, RLP, the tries and their hashes, ECDSA recovery, the LRU caches, the readers of the chain
  database, the byte code interpreter and the order of map visits. Laws about them are named predicates
  (\<open>pk_group\<close>, \<open>trie_ok\<close>, \<open>code_law\<close>, \<open>tries_law\<close>, \<open>lru_law\<close>, \<open>visits_all\<close>), with concrete instances in the witnesses.

  \<^bold>\<open>Not modelled.\<close> The chain database and block insertion (\<open>core/blockchain_impl.go\<close>, \<open>core/rawdb\<close>), the pool
  around its lists (promotion, eviction, locks, timers and journal in \<open>core/tx_pool.go\<close>), the handlers of consensus messages and the view change (\<open>consensus/*.go\<close>), block
  proposal, networking, synchronisation, the node, the public interfaces and the command line: they are
  dominated by goroutines, locks, timers, databases and network peers, and the decisions they take are those of the
  functions modelled here. The interpreter and the precompiled contracts call
  cryptographic libraries and enter as a parameter. The genesis tables are data. JSON and YAML renderings, metrics, logging
  and trie prefetching are left out throughout; commits to the database and copies of states are left out of \<open>StateDB\<close>,
  the cache of results out of \<open>Process\<close>.
\<close>

end
